(* ===== verification/Prelude.thy ===== *)
theory Prelude
  imports Main "HOL-Library.Word" "HOL-Library.Char_ord" "HOL-Library.List_Lexorder"
    "HOL-Library.Sublist" "HOL-Library.AList"
begin

text \<open>
  Shared vocabulary of the development: the Go types that several components use (byte strings,
  instants and durations, decimal numerals) with the standard library routines on them, the
  collections of rewrite rules that carry the component proofs, and generic lemmas on lists.
  Go strings and byte slices are \<^typ>\<open>string\<close> (a list of 8-bit characters), compared
  bytewise as Go does; an instant is the number of nanoseconds since Go's zero \<open>time.Time\<close>,
  so that \<open>IsZero\<close> is equality with 0, and a \<open>time.Duration\<close> is a number of nanoseconds.
\<close>

section \<open>Names of the model's types and collections of rules\<close>

type_synonym u64 = "64 word"
type_synonym bytes = string
type_synonym time = int
type_synonym duration = int

named_theorems store_defs \<open>definitions of the key/value store operations\<close>
named_theorems store_laws \<open>what the store operations do to the contents\<close>
named_theorems cluster_defs \<open>definitions of the coordinator's decisions\<close>
named_theorems wal_defs \<open>definitions of the write-ahead log operations\<close>

section \<open>Strings (package strings)\<close>

definition HasPrefix :: "string \<Rightarrow> string \<Rightarrow> bool" where
  "HasPrefix s p \<longleftrightarrow> take (length p) s = p"

definition HasSuffix :: "string \<Rightarrow> string \<Rightarrow> bool" where
  "HasSuffix s p \<longleftrightarrow> length p \<le> length s \<and> drop (length s - length p) s = p"

fun Contains :: "string \<Rightarrow> string \<Rightarrow> bool" where
  "Contains [] p = (p = [])"
| "Contains (c # s) p = (HasPrefix (c # s) p \<or> Contains s p)"

lemma HasPrefix_iff: "HasPrefix s p \<longleftrightarrow> prefix p s"
  by (auto simp: HasPrefix_def prefix_def) (metis append_take_drop_id)

lemma HasSuffix_iff: "HasSuffix s p \<longleftrightarrow> suffix p s"
  unfolding HasSuffix_def suffix_def
  by (metis append_eq_conv_conj append_take_drop_id diff_add_inverse2 le_add2 length_append)

lemma Contains_iff: "Contains s p \<longleftrightarrow> (\<exists>a b. s = a @ p @ b)"
proof (induction s p rule: Contains.induct)
  case (2 c s p)
  have "(\<exists>a b. c # s = a @ p @ b) \<longleftrightarrow> prefix p (c # s) \<or> (\<exists>a b. s = a @ p @ b)"
    by (auto simp: prefix_def Cons_eq_append_conv)
  then show ?case using 2 by (simp add: HasPrefix_iff)
qed auto

section \<open>Instants (package time)\<close>

definition maxDuration :: duration where
  "maxDuration = 2 ^ 63 - 1"

definition minDuration :: duration where
  "minDuration = - (2 ^ 63)"

text \<open>\<open>Time.Sub\<close> saturates instead of wrapping.\<close>

definition time_Sub :: "time \<Rightarrow> time \<Rightarrow> duration" where
  "time_Sub t u = max minDuration (min maxDuration (t - u))"

definition time_IsZero :: "time \<Rightarrow> bool" where
  "time_IsZero t \<longleftrightarrow> t = 0"

lemma time_Sub_less_iff: "minDuration < d \<Longrightarrow> d \<le> maxDuration \<Longrightarrow> time_Sub t u < d \<longleftrightarrow> t - u < d"
  by (auto simp: time_Sub_def)

section \<open>Decimal numerals (package strconv)\<close>

definition digit_char :: "nat \<Rightarrow> char" where
  "digit_char d = char_of (48 + d)"

definition char_digit :: "char \<Rightarrow> nat option" where
  "char_digit c = (let n = of_char c :: nat in if 48 \<le> n \<and> n \<le> 57 then Some (n - 48) else None)"

fun FormatUint :: "nat \<Rightarrow> string" where
  "FormatUint n = (if n < 10 then [digit_char n] else FormatUint (n div 10) @ [digit_char (n mod 10)])"

declare FormatUint.simps [simp del]

fun parse_digits :: "nat \<Rightarrow> string \<Rightarrow> nat option" where
  "parse_digits acc [] = Some acc"
| "parse_digits acc (c # s) =
     (case char_digit c of None \<Rightarrow> None | Some d \<Rightarrow> parse_digits (acc * 10 + d) s)"

text \<open>\<open>ParseUint(s, 10, 64)\<close>: no sign, at least one digit, and the value fits 64 bits.\<close>

definition ParseUint :: "string \<Rightarrow> nat option" where
  "ParseUint s =
     (if s = [] then None
      else case parse_digits 0 s of None \<Rightarrow> None | Some n \<Rightarrow> if n < 2 ^ 64 then Some n else None)"

lemma char_digit_digit_char [simp]: "d < 10 \<Longrightarrow> char_digit (digit_char d) = Some d"
  by (simp add: char_digit_def digit_char_def Let_def)

lemma FormatUint_nonempty [simp]: "FormatUint n \<noteq> []"
  by (subst FormatUint.simps) simp

lemma length_FormatUint: "0 < w \<Longrightarrow> n < 10 ^ w \<Longrightarrow> length (FormatUint n) \<le> w"
proof (induction w arbitrary: n)
  case (Suc w)
  show ?case
  proof (cases "n < 10")
    case True
    then show ?thesis by (subst FormatUint.simps) simp
  next
    case False
    then have "0 < w" using Suc.prems(2) by (cases w) auto
    moreover have "n div 10 < 10 ^ w" using Suc.prems(2) by (simp add: less_mult_imp_div_less)
    ultimately have "length (FormatUint (n div 10)) \<le> w" by (rule Suc.IH)
    then show ?thesis using False by (subst FormatUint.simps) simp
  qed
qed simp

lemma FormatUint_1: "FormatUint (Suc 0) = ''1''"
  by code_simp

lemma parse_digits_append:
  "parse_digits acc (s @ t) = Option.bind (parse_digits acc s) (\<lambda>a. parse_digits a t)"
  by (induction acc s rule: parse_digits.induct) (auto split: option.split)

lemma parse_digits_FormatUint: "parse_digits 0 (FormatUint n) = Some n"
proof (induction n rule: FormatUint.induct)
  case (1 n)
  show ?case
  proof (cases "n < 10")
    case True
    then show ?thesis by (subst FormatUint.simps) simp
  next
    case False
    with 1 have "parse_digits 0 (FormatUint (n div 10)) = Some (n div 10)" by simp
    with False show ?thesis by (subst FormatUint.simps) (simp add: parse_digits_append)
  qed
qed

lemma ParseUint_FormatUint: "n < 2 ^ 64 \<Longrightarrow> ParseUint (FormatUint n) = Some n"
  by (simp add: ParseUint_def parse_digits_FormatUint)

lemma FormatUint_inj: "FormatUint m = FormatUint n \<longleftrightarrow> m = n"
  by (metis option.inject parse_digits_FormatUint)

lemma FormatUint_digits: "c \<in> set (FormatUint n) \<Longrightarrow> \<exists>d < 10. c = digit_char d"
proof (induction n rule: FormatUint.induct)
  case (1 n)
  show ?case
  proof (cases "n < 10")
    case True
    with 1(2) show ?thesis by (subst (asm) FormatUint.simps) auto
  next
    case False
    with 1(2) have "c \<in> set (FormatUint (n div 10)) \<or> c = digit_char (n mod 10)"
      by (subst (asm) FormatUint.simps) auto
    with 1(1) False show ?thesis by (metis less_numeral_extra(1) mod_less_divisor zero_less_numeral)
  qed
qed

lemma digit_char_neq_sep [simp]: "d < 10 \<Longrightarrow> digit_char d \<noteq> CHR '':''" "d < 10 \<Longrightarrow> digit_char d \<noteq> CHR ''-''"
  by (auto simp: digit_char_def dest!: arg_cong [of _ _ "of_char :: char \<Rightarrow> nat"])

lemma FormatUint_no_sep [simp]: "CHR '':'' \<notin> set (FormatUint n)" "CHR ''-'' \<notin> set (FormatUint n)"
  by (auto dest!: FormatUint_digits simp: digit_char_neq_sep [symmetric])

section \<open>Splitting at the first occurrence of a character\<close>

text \<open>The common shape of \<open>strings.Cut\<close> and \<open>strings.Split\<close> with a one-byte separator.\<close>

fun cut_at :: "char \<Rightarrow> string \<Rightarrow> string \<times> string option" where
  "cut_at sep [] = ([], None)"
| "cut_at sep (c # s) =
     (if c = sep then ([], Some s) else (case cut_at sep s of (a, r) \<Rightarrow> (c # a, r)))"

fun Split_char :: "char \<Rightarrow> string \<Rightarrow> string list" where
  "Split_char sep [] = [[]]"
| "Split_char sep (c # s) =
     (if c = sep then [] # Split_char sep s
      else (case Split_char sep s of [] \<Rightarrow> [[c]] | p # ps \<Rightarrow> (c # p) # ps))"

lemma cut_at_append: "sep \<notin> set a \<Longrightarrow> cut_at sep (a @ sep # b) = (a, Some b)"
  by (induction a) auto

lemma cut_at_none: "sep \<notin> set a \<Longrightarrow> cut_at sep a = (a, None)"
  by (induction a) auto

lemma Split_char_none: "sep \<notin> set a \<Longrightarrow> Split_char sep a = [a]"
  by (induction a) auto

lemma Split_char_append: "sep \<notin> set a \<Longrightarrow> Split_char sep (a @ sep # b) = a # Split_char sep b"
  by (induction a) auto

section \<open>Slices and maps\<close>

text \<open>
  \<open>sort.Slice\<close> orders a slice by a strict comparison. The result is determined wherever the
  comparison orders any two different elements; insertion keeps the given order otherwise.
\<close>

fun insert_by :: "('a \<Rightarrow> 'a \<Rightarrow> bool) \<Rightarrow> 'a \<Rightarrow> 'a list \<Rightarrow> 'a list" where
  "insert_by lt x [] = [x]"
| "insert_by lt x (y # ys) = (if lt y x then y # insert_by lt x ys else x # y # ys)"

fun sort_Slice :: "('a \<Rightarrow> 'a \<Rightarrow> bool) \<Rightarrow> 'a list \<Rightarrow> 'a list" where
  "sort_Slice lt [] = []"
| "sort_Slice lt (x # xs) = insert_by lt x (sort_Slice lt xs)"

lemma set_insert_by [simp]: "set (insert_by lt x xs) = insert x (set xs)"
  by (induction xs) auto

lemma set_sort_Slice [simp]: "set (sort_Slice lt xs) = set xs"
  by (induction xs) auto

lemma length_insert_by [simp]: "length (insert_by lt x xs) = Suc (length xs)"
  by (induction xs) auto

lemma length_sort_Slice [simp]: "length (sort_Slice lt xs) = length xs"
  by (induction xs) auto

lemma distinct_map_insert_by:
  "distinct (map f (insert_by lt x xs)) \<longleftrightarrow> f x \<notin> f ` set xs \<and> distinct (map f xs)"
  by (induction xs) auto

lemma distinct_map_sort_Slice [simp]: "distinct (map f (sort_Slice lt xs)) \<longleftrightarrow> distinct (map f xs)"
  by (induction xs) (auto simp: distinct_map_insert_by)

text \<open>A comparison that \<open>sort.Slice\<close> accepts is a strict weak order.\<close>

definition weak_order :: "('a \<Rightarrow> 'a \<Rightarrow> bool) \<Rightarrow> bool" where
  "weak_order lt \<longleftrightarrow> (\<forall>a b. lt a b \<longrightarrow> \<not> lt b a) \<and> (\<forall>a b c. lt a c \<longrightarrow> lt a b \<or> lt b c)"

lemma sorted_wrt_insert_by:
  "weak_order lt \<Longrightarrow> sorted_wrt (\<lambda>a b. \<not> lt b a) xs \<Longrightarrow> sorted_wrt (\<lambda>a b. \<not> lt b a) (insert_by lt x xs)"
  by (induction xs) (auto simp: weak_order_def, blast)

lemma sorted_sort_Slice: "weak_order lt \<Longrightarrow> sorted_wrt (\<lambda>a b. \<not> lt b a) (sort_Slice lt xs)"
  by (induction xs) (auto intro: sorted_wrt_insert_by)

lemma sorted_map_sort_Slice: "sorted (map f (sort_Slice (\<lambda>a b. f a < (f b :: 'k :: linorder)) xs))"
proof -
  have "weak_order (\<lambda>a b. f a < f b)" by (auto simp: weak_order_def)
  from sorted_sort_Slice [OF this] show ?thesis by (simp add: sorted_map not_less)
qed

lemma insert_by_sorted:
  "sorted_wrt (\<lambda>a b. \<not> lt b a) (x # xs) \<Longrightarrow> insert_by lt x xs = x # xs"
  by (cases xs) auto

lemma sort_Slice_id: "sorted_wrt (\<lambda>a b. \<not> lt b a) xs \<Longrightarrow> sort_Slice lt xs = xs"
  by (induction xs) (simp_all add: insert_by_sorted)

lemma filter_insert_by:
  "weak_order lt \<Longrightarrow> sorted_wrt (\<lambda>a b. \<not> lt b a) xs \<Longrightarrow>
   filter P (insert_by lt x xs) = (if P x then insert_by lt x (filter P xs) else filter P xs)"
proof (induction xs)
  case (Cons y ys)
  show ?case
  proof (cases "lt y x")
    case True
    then show ?thesis using Cons by auto
  next
    case False
    with Cons.prems have "\<forall>z \<in> set ys. \<not> lt z x"
      unfolding weak_order_def by (metis list.set_intros(2) sorted_wrt.simps(2))
    with False Cons.prems have "sorted_wrt (\<lambda>a b. \<not> lt b a) (x # filter P (y # ys))"
      by (auto simp: sorted_wrt_filter)
    with False show ?thesis by (simp only: insert_by_sorted insert_by.simps filter.simps if_False split: if_split)
  qed
qed simp

text \<open>Filtering before or after sorting is the same.\<close>

lemma filter_sort_Slice: "weak_order lt \<Longrightarrow> filter P (sort_Slice lt xs) = sort_Slice lt (filter P xs)"
  by (induction xs) (auto simp: filter_insert_by sorted_sort_Slice)

text \<open>Association lists stand for Go maps; the keys of a map are distinct.\<close>

lemma map_of_filter_fst: "map_of (filter (\<lambda>(k, v). P k) xs) k = (if P k then map_of xs k else None)"
  by (induction xs) auto

end
