(* ===== verification/State_Store.thy ===== *)
theory State_Store
  imports Prelude
begin

text \<open>
  The coordinator's key/value state (package \<open>pkg/coordinator/state\<close>): keys, entries, the
  \<open>Store\<close> interface with its compare-and-set writes, the JSON helpers, and the in-memory
  store \<open>Mem\<close>. An interface value is a record of its operations over a store state
  \<open>'s\<close>; a stored byte slice is the value \<open>'v\<close> it was marshalled from. The two locales
  state what the interface promises: \<open>cas_store\<close> what holds of every answer, also when an
  operation fails on the way, and \<open>reliable_store\<close> what a store that is reachable answers.
\<close>

section \<open>Keys, entries, errors\<close>

datatype state_error = ErrNotFound | ErrConflict | ErrInvalidKey | ErrJSON | ErrIO

definition is_alnum :: "char \<Rightarrow> bool" where
  "is_alnum c \<longleftrightarrow>
     (CHR ''A'' \<le> c \<and> c \<le> CHR ''Z'') \<or> (CHR ''a'' \<le> c \<and> c \<le> CHR ''z'') \<or>
     (CHR ''0'' \<le> c \<and> c \<le> CHR ''9'')"

definition key_char :: "char \<Rightarrow> bool" where
  "key_char c \<longleftrightarrow> is_alnum c \<or> c \<in> set ''/_=.-''"

definition ValidKey :: "string \<Rightarrow> bool" where
  "ValidKey key \<longleftrightarrow>
     (case key of [] \<Rightarrow> False | c # cs \<Rightarrow> is_alnum c \<and> length cs \<le> 254 \<and> list_all key_char cs)"

lemma ValidKey_Nil [simp]: "\<not> ValidKey []"
  by (simp add: ValidKey_def)

record 'v Entry =
  e_Key :: string
  e_Value :: 'v
  e_Revision :: nat

record ('s, 'v) Store =
  st_Get :: "'s \<Rightarrow> string \<Rightarrow> state_error + 'v Entry"
  st_Create :: "'s \<Rightarrow> string \<Rightarrow> 'v \<Rightarrow> (state_error + nat) \<times> 's"
  st_Update :: "'s \<Rightarrow> string \<Rightarrow> 'v \<Rightarrow> nat \<Rightarrow> (state_error + nat) \<times> 's"
  st_Delete :: "'s \<Rightarrow> string \<Rightarrow> state_error option \<times> 's"
  st_List :: "'s \<Rightarrow> string \<Rightarrow> state_error + 'v Entry list"

section \<open>JSON helpers\<close>

text \<open>
  \<open>dec\<close> is \<open>json.Unmarshal\<close> into the wanted type, \<open>enc\<close> is \<open>json.Marshal\<close>, which
  cannot fail on the record types the coordinator stores.
\<close>

definition GetJSON :: "('s, 'v) Store \<Rightarrow> ('v \<Rightarrow> 'a option) \<Rightarrow> 's \<Rightarrow> string \<Rightarrow> state_error + ('a \<times> nat)" where
  "GetJSON S dec s key =
     (case st_Get S s key of
        Inl err \<Rightarrow> Inl err
      | Inr e \<Rightarrow> (case dec (e_Value e) of None \<Rightarrow> Inl ErrJSON | Some v \<Rightarrow> Inr (v, e_Revision e)))"

definition CreateJSON :: "('s, 'v) Store \<Rightarrow> ('a \<Rightarrow> 'v) \<Rightarrow> 's \<Rightarrow> string \<Rightarrow> 'a \<Rightarrow> (state_error + nat) \<times> 's" where
  "CreateJSON S enc s key v = st_Create S s key (enc v)"

definition UpdateJSON ::
  "('s, 'v) Store \<Rightarrow> ('a \<Rightarrow> 'v) \<Rightarrow> 's \<Rightarrow> string \<Rightarrow> 'a \<Rightarrow> nat \<Rightarrow> (state_error + nat) \<times> 's" where
  "UpdateJSON S enc s key v expected = st_Update S s key (enc v) expected"

lemmas json_defs = GetJSON_def CreateJSON_def UpdateJSON_def

section \<open>The contract of a store\<close>

text \<open>
  \<open>view s k\<close> is the value and revision under a key, \<open>bound s k\<close> a revision below which
  every revision the key ever had lies. A write takes effect as a whole: the key then holds the
  new value with a revision it never had before. \<open>Update\<close> of a missing key writes only with a revision that
  no reader of the key can have seen; the in-memory store and rqlite never do so, the NATS store does.
\<close>

definition committed ::
  "('s \<Rightarrow> string \<Rightarrow> ('v \<times> nat) option) \<Rightarrow> ('s \<Rightarrow> string \<Rightarrow> nat) \<Rightarrow> ('s \<Rightarrow> bool) \<Rightarrow>
   's \<Rightarrow> string \<Rightarrow> 'v \<Rightarrow> nat \<Rightarrow> 's \<Rightarrow> bool" where
  "committed view bound invar s k v r s' \<longleftrightarrow>
     invar s' \<and> view s' = (view s)(k \<mapsto> (v, r)) \<and> bound s k < r \<and> (\<forall>j. bound s j \<le> bound s' j)"

locale cas_store =
  fixes S :: "('s, 'v) Store"
    and view :: "'s \<Rightarrow> string \<Rightarrow> ('v \<times> nat) option"
    and bound :: "'s \<Rightarrow> string \<Rightarrow> nat"
    and invar :: "'s \<Rightarrow> bool"
  assumes view_bound: "invar s \<Longrightarrow> view s k = Some (v, r) \<Longrightarrow> 0 < r \<and> r \<le> bound s k"
    and get_Inr: "invar s \<Longrightarrow> st_Get S s k = Inr e \<Longrightarrow> view s k = Some (e_Value e, e_Revision e) \<and> e_Key e = k"
    and get_missing: "invar s \<Longrightarrow> st_Get S s k = Inl ErrNotFound \<Longrightarrow> view s k = None"
    and create_cases: "invar s \<Longrightarrow> st_Create S s k v = (res, s') \<Longrightarrow>
      (s' = s \<and> isl res) \<or>
      (\<exists>r. committed view bound invar s k v r s' \<and> view s k = None \<and> res \<in> {Inr r, Inl ErrIO})"
    and update_cases: "invar s \<Longrightarrow> st_Update S s k v expected = (res, s') \<Longrightarrow>
      (s' = s \<and> isl res) \<or>
      (\<exists>r. committed view bound invar s k v r s' \<and> res \<in> {Inr r, Inl ErrIO} \<and>
         ((\<exists>v0. view s k = Some (v0, expected)) \<or> view s k = None \<and> (expected = 0 \<or> bound s k < expected)))"
    and delete_cases: "invar s \<Longrightarrow> st_Delete S s k = (err, s') \<Longrightarrow>
      s' = s \<or> (invar s' \<and> view s' = (view s)(k := None) \<and> (\<forall>j. bound s j \<le> bound s' j))"
begin

text \<open>
  What a reader may rely on later: as long as the key still has the revision it read, the value
  is the one it read. Every write keeps this, because no revision is used twice.
\<close>

definition knows :: "'s \<Rightarrow> string \<Rightarrow> 'v \<Rightarrow> nat \<Rightarrow> bool" where
  "knows s k v r \<longleftrightarrow> 0 < r \<and> r \<le> bound s k \<and> (\<forall>v'. view s k = Some (v', r) \<longrightarrow> v' = v)"

lemma knows_get: "invar s \<Longrightarrow> st_Get S s k = Inr e \<Longrightarrow> knows s k (e_Value e) (e_Revision e)"
  using get_Inr view_bound by (fastforce simp: knows_def)

lemma knows_committed: "knows s k v r \<Longrightarrow> committed view bound invar s j w r' s' \<Longrightarrow> knows s' k v r"
  by (auto simp: knows_def committed_def intro: le_trans split: if_splits)

lemma knows_create: "invar s \<Longrightarrow> st_Create S s j w = (res, s') \<Longrightarrow> knows s k v r \<Longrightarrow> knows s' k v r"
  using create_cases knows_committed by blast

lemma knows_update: "invar s \<Longrightarrow> st_Update S s j w x = (res, s') \<Longrightarrow> knows s k v r \<Longrightarrow> knows s' k v r"
  using update_cases knows_committed by blast

lemma knows_delete: "invar s \<Longrightarrow> st_Delete S s j = (res, s') \<Longrightarrow> knows s k v r \<Longrightarrow> knows s' k v r"
  using delete_cases by (fastforce simp: knows_def intro: le_trans split: if_splits)

lemma invar_create: "invar s \<Longrightarrow> st_Create S s j w = (res, s') \<Longrightarrow> invar s'"
  by (frule (1) create_cases) (auto simp: committed_def)

lemma invar_update: "invar s \<Longrightarrow> st_Update S s j w x = (res, s') \<Longrightarrow> invar s'"
  by (frule (1) update_cases) (auto simp: committed_def)

lemma invar_delete: "invar s \<Longrightarrow> st_Delete S s j = (res, s') \<Longrightarrow> invar s'"
  using delete_cases by blast

lemma view_create_other: "invar s \<Longrightarrow> st_Create S s j w = (res, s') \<Longrightarrow> j \<noteq> k \<Longrightarrow> view s' k = view s k"
  using create_cases by (fastforce simp: committed_def)

lemma view_update_other: "invar s \<Longrightarrow> st_Update S s j w x = (res, s') \<Longrightarrow> j \<noteq> k \<Longrightarrow> view s' k = view s k"
  using update_cases by (fastforce simp: committed_def)

lemma view_delete_other: "invar s \<Longrightarrow> st_Delete S s j = (res, s') \<Longrightarrow> j \<noteq> k \<Longrightarrow> view s' k = view s k"
  using delete_cases by fastforce

lemma view_create: "invar s \<Longrightarrow> st_Create S s k v = (res, s') \<Longrightarrow>
    (view s' k = view s k \<and> isl res) \<or> (\<exists>r. view s k = None \<and> view s' k = Some (v, r) \<and> res \<in> {Inr r, Inl ErrIO})"
  using create_cases by (fastforce simp: committed_def)

text \<open>
  A compare-and-set against a revision that was read replaces exactly the value that was read.
\<close>

lemma view_update:
  assumes "invar s" and "st_Update S s k w r = (res, s')" and "knows s k v r"
  shows "(view s' k = view s k \<and> isl res) \<or>
    (\<exists>r'. view s k = Some (v, r) \<and> view s' k = Some (w, r') \<and> res \<in> {Inr r', Inl ErrIO})"
  using update_cases [OF assms(1,2)] assms(3) by (fastforce simp: committed_def knows_def)

lemma GetJSON_Inr:
  "invar s \<Longrightarrow> GetJSON S dec s k = Inr (a, r) \<Longrightarrow>
   \<exists>v. dec v = Some a \<and> view s k = Some (v, r) \<and> knows s k v r"
  using get_Inr knows_get by (fastforce simp: GetJSON_def split: sum.splits option.splits)

lemma GetJSON_missing: "invar s \<Longrightarrow> GetJSON S dec s k = Inl ErrNotFound \<Longrightarrow> view s k = None"
  using get_missing by (auto simp: GetJSON_def split: sum.splits option.splits)

lemmas store_frame = invar_create invar_update invar_delete
  view_create_other view_update_other view_delete_other knows_create knows_update knows_delete

end

locale reliable_store = cas_store S view bound invar
  for S :: "('s, 'v) Store" and view and bound and invar +
  assumes get_total: "invar s \<Longrightarrow> ValidKey k \<Longrightarrow> st_Get S s k =
      (case view s k of None \<Rightarrow> Inl ErrNotFound
       | Some (v, r) \<Rightarrow> Inr \<lparr>e_Key = k, e_Value = v, e_Revision = r\<rparr>)"
    and create_total: "invar s \<Longrightarrow> ValidKey k \<Longrightarrow> view s k = None \<Longrightarrow> \<exists>r s'. st_Create S s k v = (Inr r, s')"
    and create_conflict: "invar s \<Longrightarrow> ValidKey k \<Longrightarrow> view s k = Some e \<Longrightarrow> st_Create S s k v = (Inl ErrConflict, s)"
    and update_total: "invar s \<Longrightarrow> ValidKey k \<Longrightarrow> view s k = Some (v0, r) \<Longrightarrow> \<exists>r' s'. st_Update S s k v r = (Inr r', s')"
    and update_conflict: "invar s \<Longrightarrow> ValidKey k \<Longrightarrow> view s k = Some (v0, r) \<Longrightarrow> r \<noteq> expected \<Longrightarrow>
      st_Update S s k v expected = (Inl ErrConflict, s)"
    and update_missing: "invar s \<Longrightarrow> ValidKey k \<Longrightarrow> view s k = None \<Longrightarrow> 0 < expected \<Longrightarrow> expected \<le> bound s k \<Longrightarrow>
      st_Update S s k v expected = (Inl ErrNotFound, s)"
    and delete_total: "invar s \<Longrightarrow> ValidKey k \<Longrightarrow>
      \<exists>s'. st_Delete S s k = (None, s') \<and> invar s' \<and> view s' = (view s)(k := None)"
    and list_total: "invar s \<Longrightarrow> \<exists>es. st_List S s p = Inr es \<and> sorted_wrt (<) (map e_Key es) \<and>
      (\<forall>e. e \<in> set es \<longleftrightarrow> HasPrefix (e_Key e) p \<and> view s (e_Key e) = Some (e_Value e, e_Revision e))"
begin

lemma create_reliable: "invar s \<Longrightarrow> ValidKey k \<Longrightarrow> view s k = None \<Longrightarrow>
    \<exists>r s'. st_Create S s k v = (Inr r, s') \<and> committed view bound invar s k v r s'"
  using create_total create_cases by (metis isl_def old.sum.distinct(2) sum.inject(2) insertE singletonD sum.disc(2))

lemma update_reliable: "invar s \<Longrightarrow> ValidKey k \<Longrightarrow> view s k = Some (v0, r) \<Longrightarrow>
    \<exists>r' s'. st_Update S s k v r = (Inr r', s') \<and> committed view bound invar s k v r' s'"
  using update_total update_cases by (metis isl_def old.sum.distinct(2) sum.inject(2) insertE singletonD sum.disc(2))

lemma GetJSON_total: "invar s \<Longrightarrow> ValidKey k \<Longrightarrow> GetJSON S dec s k =
    (case view s k of None \<Rightarrow> Inl ErrNotFound
     | Some (v, r) \<Rightarrow> (case dec v of None \<Rightarrow> Inl ErrJSON | Some a \<Rightarrow> Inr (a, r)))"
  by (simp add: GetJSON_def get_total split: option.split)

end

section \<open>The in-memory store\<close>

text \<open>\<open>Mem\<close>: a map of entries (its key and value pairs, keys distinct) and a revision counter.\<close>

record 'v Mem =
  mem_entries :: "(string \<times> 'v Entry) list"
  mem_rev :: nat

definition NewMem :: "'v Mem" where
  "NewMem = \<lparr>mem_entries = [], mem_rev = 0\<rparr>"

definition mem_Get :: "'v Mem \<Rightarrow> string \<Rightarrow> state_error + 'v Entry" where
  [store_defs]: "mem_Get m key =
     (case map_of (mem_entries m) key of None \<Rightarrow> Inl ErrNotFound | Some e \<Rightarrow> Inr e)"

definition mem_put :: "'v Mem \<Rightarrow> string \<Rightarrow> 'v \<Rightarrow> (state_error + nat) \<times> 'v Mem" where
  [store_defs]: "mem_put m key value =
     (let rev = mem_rev m + 1 in
      (Inr rev, \<lparr>mem_entries = AList.update key \<lparr>e_Key = key, e_Value = value, e_Revision = rev\<rparr> (mem_entries m),
                 mem_rev = rev\<rparr>))"

definition mem_Create :: "'v Mem \<Rightarrow> string \<Rightarrow> 'v \<Rightarrow> (state_error + nat) \<times> 'v Mem" where
  [store_defs]: "mem_Create m key value =
     (if \<not> ValidKey key then (Inl ErrInvalidKey, m)
      else if map_of (mem_entries m) key \<noteq> None then (Inl ErrConflict, m)
      else mem_put m key value)"

definition mem_Update :: "'v Mem \<Rightarrow> string \<Rightarrow> 'v \<Rightarrow> nat \<Rightarrow> (state_error + nat) \<times> 'v Mem" where
  [store_defs]: "mem_Update m key value expected =
     (if \<not> ValidKey key then (Inl ErrInvalidKey, m)
      else case map_of (mem_entries m) key of
        None \<Rightarrow> (Inl ErrNotFound, m)
      | Some e \<Rightarrow> if e_Revision e \<noteq> expected then (Inl ErrConflict, m) else mem_put m key value)"

definition mem_Delete :: "'v Mem \<Rightarrow> string \<Rightarrow> state_error option \<times> 'v Mem" where
  [store_defs]: "mem_Delete m key = (None, m\<lparr>mem_entries := AList.delete key (mem_entries m)\<rparr>)"

definition mem_List :: "'v Mem \<Rightarrow> string \<Rightarrow> state_error + 'v Entry list" where
  [store_defs]: "mem_List m pre =
     Inr (sort_Slice (\<lambda>a b. e_Key a < e_Key b) (map snd (filter (\<lambda>(key, e). HasPrefix key pre) (mem_entries m))))"

definition Mem_Store :: "('v Mem, 'v) Store" where
  [store_defs]: "Mem_Store = \<lparr>st_Get = mem_Get, st_Create = mem_Create, st_Update = mem_Update,
     st_Delete = mem_Delete, st_List = mem_List\<rparr>"

definition mem_view :: "'v Mem \<Rightarrow> string \<Rightarrow> ('v \<times> nat) option" where
  "mem_view m key = map_option (\<lambda>e. (e_Value e, e_Revision e)) (map_of (mem_entries m) key)"

definition mem_bound :: "'v Mem \<Rightarrow> string \<Rightarrow> nat" where
  "mem_bound m key = mem_rev m"

definition mem_inv :: "'v Mem \<Rightarrow> bool" where
  "mem_inv m \<longleftrightarrow> distinct (map fst (mem_entries m)) \<and>
     (\<forall>key e. map_of (mem_entries m) key = Some e \<longrightarrow>
        e_Key e = key \<and> 0 < e_Revision e \<and> e_Revision e \<le> mem_rev m)"

lemma mem_inv_NewMem [simp]: "mem_inv NewMem"
  by (simp add: mem_inv_def NewMem_def)

lemma mem_put_committed:
  "mem_inv m \<Longrightarrow> mem_put m key v = (res, m') \<Longrightarrow>
   \<exists>r. res = Inr r \<and> committed mem_view mem_bound mem_inv m key v r m'"
  by (auto simp: committed_def mem_view_def mem_bound_def mem_inv_def mem_put_def Let_def
      distinct_update update_conv' fun_eq_iff simp del: map_of_eq_Some_iff split: if_splits intro!: le_SucI)

lemma mem_delete_view:
  "mem_inv m \<Longrightarrow> mem_Delete m key = (err, m') \<Longrightarrow>
   err = None \<and> mem_inv m' \<and> mem_view m' = (mem_view m)(key := None) \<and> (\<forall>j. mem_bound m j \<le> mem_bound m' j)"
  by (auto simp: mem_view_def mem_bound_def mem_inv_def mem_Delete_def distinct_delete delete_conv' fun_eq_iff simp del: map_of_eq_Some_iff split: if_splits)

lemma mem_List_entries:
  assumes "mem_inv m" and "mem_List m pre = Inr es"
  shows "sorted_wrt (<) (map e_Key es)"
    and "e \<in> set es \<longleftrightarrow> HasPrefix (e_Key e) pre \<and> mem_view m (e_Key e) = Some (e_Value e, e_Revision e)"
proof -
  let ?xs = "filter (\<lambda>(key, e). HasPrefix key pre) (mem_entries m)"
  have key: "\<And>k e. (k, e) \<in> set (mem_entries m) \<longleftrightarrow> map_of (mem_entries m) k = Some e"
    using assms(1) by (simp add: mem_inv_def)
  have es: "es = sort_Slice (\<lambda>a b. e_Key a < e_Key b) (map snd ?xs)"
    using assms(2) by (simp add: mem_List_def)
  have "map e_Key (map snd ?xs) = map fst ?xs"
    using assms(1) key by (auto simp: mem_inv_def)
  then have dist: "distinct (map e_Key es)"
    using assms(1) by (simp add: es mem_inv_def distinct_map_filter del: map_map)
  with sorted_map_sort_Slice [of e_Key] show "sorted_wrt (<) (map e_Key es)"
    by (simp add: es strict_sorted_iff)
  show "e \<in> set es \<longleftrightarrow> HasPrefix (e_Key e) pre \<and> mem_view m (e_Key e) = Some (e_Value e, e_Revision e)"
  proof -
    have "e \<in> set es \<longleftrightarrow> (\<exists>k. map_of (mem_entries m) k = Some e \<and> HasPrefix k pre)"
      by (auto simp: es key image_iff)
    also have "\<dots> \<longleftrightarrow> map_of (mem_entries m) (e_Key e) = Some e \<and> HasPrefix (e_Key e) pre"
      using assms(1) by (auto simp: mem_inv_def)
    also have "map_of (mem_entries m) (e_Key e) = Some e \<longleftrightarrow>
        mem_view m (e_Key e) = Some (e_Value e, e_Revision e)"
      using assms(1) by (auto simp: mem_view_def mem_inv_def simp del: map_of_eq_Some_iff intro: Entry.equality)
    finally show ?thesis by blast
  qed
qed

interpretation mem: reliable_store Mem_Store mem_view mem_bound mem_inv
proof (unfold_locales, goal_cases)
  case (1 s k v r)
  then show ?case by (auto simp: mem_view_def mem_bound_def mem_inv_def)
next
  case (2 s k e)
  then show ?case
    by (auto simp: store_defs mem_view_def mem_inv_def split: option.splits)
next
  case (3 s k)
  then show ?case by (auto simp: store_defs mem_view_def split: option.splits)
next
  case (4 s k v res s')
  then show ?case
    by (auto simp: Mem_Store_def mem_Create_def mem_view_def dest: mem_put_committed split: if_splits)
next
  case (5 s k v expected res s')
  then show ?case
    by (auto simp: Mem_Store_def mem_Update_def mem_view_def dest: mem_put_committed split: if_splits option.splits)
next
  case (6 s k err s')
  then show ?case by (auto simp: Mem_Store_def dest: mem_delete_view)
next
  case (7 s k)
  then show ?case by (auto simp: store_defs mem_view_def mem_inv_def split: option.splits)
next
  case (8 s k v)
  then show ?case by (auto simp: store_defs mem_view_def Let_def)
next
  case (9 s k e v)
  then show ?case by (auto simp: store_defs mem_view_def)
next
  case (10 s k v0 r v)
  then show ?case by (auto simp: store_defs mem_view_def Let_def)
next
  case (11 s k v0 r expected v)
  then show ?case by (auto simp: store_defs mem_view_def)
next
  case (12 s k v expected)
  then show ?case by (auto simp: store_defs mem_view_def)
next
  case (13 s k)
  then show ?case using mem_delete_view [of s k] by (simp add: Mem_Store_def mem_Delete_def)
next
  case (14 s p)
  then show ?case
    using mem_List_entries [of s p] by (auto simp: Mem_Store_def mem_List_def simp del: set_sort_Slice)
qed

end
