(* ===== verification/RQLite_Store.thy ===== *)
theory RQLite_Store
  imports State_Store
begin

text \<open>
  The state store on rqlite (\<open>pkg/coordinator/state/rqlite.go\<close>): one table with a row per key,
  where a deleted key stays as a tombstone so that its revision keeps growing. Every SQL statement
  of the source is a function on the rows, run as one statement when the cluster is reachable
  (\<open>rq_up\<close>) and refused otherwise. Values are base64 text of the stored bytes; \<open>nilv\<close> is
  the value the empty text stands for. The two interpretations show that the store keeps the
  contract of \<open>cas_store\<close>, and that of \<open>reliable_store\<close> while it is reachable.
\<close>

record 'v Row =
  row_value :: 'v
  row_revision :: nat
  row_deleted :: bool

record 'v RQLite =
  rq_rows :: "(string \<times> 'v Row) list"
  rq_up :: bool

section \<open>The statements\<close>

text \<open>Each statement returns the number of affected rows and the new table.\<close>

definition sql_insert :: "string \<Rightarrow> 'v \<Rightarrow> (string \<times> 'v Row) list \<Rightarrow> nat \<times> (string \<times> 'v Row) list" where
  "sql_insert key value rows =
     (if map_of rows key \<noteq> None then (0, rows)
      else (1, AList.update key \<lparr>row_value = value, row_revision = 1, row_deleted = False\<rparr> rows))"

definition sql_revive :: "string \<Rightarrow> 'v \<Rightarrow> nat \<Rightarrow> nat \<Rightarrow> (string \<times> 'v Row) list \<Rightarrow> nat \<times> (string \<times> 'v Row) list" where
  "sql_revive key value next revision rows =
     (case map_of rows key of
        Some row \<Rightarrow>
          if row_deleted row \<and> row_revision row = revision
          then (1, AList.update key \<lparr>row_value = value, row_revision = next, row_deleted = False\<rparr> rows)
          else (0, rows)
      | None \<Rightarrow> (0, rows))"

definition sql_update :: "string \<Rightarrow> 'v \<Rightarrow> nat \<Rightarrow> (string \<times> 'v Row) list \<Rightarrow> nat \<times> (string \<times> 'v Row) list" where
  "sql_update key value expected rows =
     (case map_of rows key of
        Some row \<Rightarrow>
          if row_revision row = expected \<and> \<not> row_deleted row
          then (1, AList.update key \<lparr>row_value = value, row_revision = row_revision row + 1, row_deleted = False\<rparr> rows)
          else (0, rows)
      | None \<Rightarrow> (0, rows))"

definition sql_delete :: "'v \<Rightarrow> string \<Rightarrow> (string \<times> 'v Row) list \<Rightarrow> nat \<times> (string \<times> 'v Row) list" where
  "sql_delete nilv key rows =
     (case map_of rows key of
        Some row \<Rightarrow>
          if \<not> row_deleted row
          then (1, AList.update key \<lparr>row_value = nilv, row_revision = row_revision row + 1, row_deleted = True\<rparr> rows)
          else (0, rows)
      | None \<Rightarrow> (0, rows))"

definition row_entry :: "string \<Rightarrow> 'v Row \<Rightarrow> 'v Entry" where
  "row_entry key row = \<lparr>e_Key = key, e_Value = row_value row, e_Revision = row_revision row\<rparr>"

definition sql_select :: "string \<Rightarrow> bool \<Rightarrow> (string \<times> 'v Row) list \<Rightarrow> 'v Entry list" where
  "sql_select key deleted rows =
     (case map_of rows key of
        Some row \<Rightarrow> if row_deleted row = deleted then [row_entry key row] else []
      | None \<Rightarrow> [])"

section \<open>Calls\<close>

definition rq_exec ::
  "((string \<times> 'v Row) list \<Rightarrow> nat \<times> (string \<times> 'v Row) list) \<Rightarrow> 'v RQLite \<Rightarrow> (state_error + nat) \<times> 'v RQLite" where
  "rq_exec stmt r =
     (if \<not> rq_up r then (Inl ErrIO, r)
      else case stmt (rq_rows r) of (n, rows) \<Rightarrow> (Inr n, r\<lparr>rq_rows := rows\<rparr>))"

definition rq_query ::
  "((string \<times> 'v Row) list \<Rightarrow> 'v Entry list) \<Rightarrow> 'v RQLite \<Rightarrow> state_error + 'v Entry list" where
  "rq_query q r = (if \<not> rq_up r then Inl ErrIO else Inr (q (rq_rows r)))"

section \<open>The operations\<close>

definition rq_Get :: "'v RQLite \<Rightarrow> string \<Rightarrow> state_error + 'v Entry" where
  "rq_Get r key =
     (if \<not> ValidKey key then Inl ErrInvalidKey
      else case rq_query (sql_select key False) r of
        Inl err \<Rightarrow> Inl err
      | Inr [] \<Rightarrow> Inl ErrNotFound
      | Inr (e # _) \<Rightarrow> Inr e)"

definition rq_Create :: "'v RQLite \<Rightarrow> string \<Rightarrow> 'v \<Rightarrow> (state_error + nat) \<times> 'v RQLite" where
  "rq_Create r key value =
     (if \<not> ValidKey key then (Inl ErrInvalidKey, r)
      else case rq_exec (sql_insert key value) r of
        (Inl err, r1) \<Rightarrow> (Inl err, r1)
      | (Inr n, r1) \<Rightarrow>
          if n = 1 then (Inr 1, r1)
          else case rq_query (sql_select key True) r1 of
            Inl err \<Rightarrow> (Inl err, r1)
          | Inr [] \<Rightarrow> (Inl ErrConflict, r1)
          | Inr (t # _) \<Rightarrow>
              let next = e_Revision t + 1 in
              (case rq_exec (sql_revive key value next (e_Revision t)) r1 of
                 (Inl err, r2) \<Rightarrow> (Inl err, r2)
               | (Inr n', r2) \<Rightarrow> if n' = 0 then (Inl ErrConflict, r2) else (Inr next, r2)))"

definition rq_Update :: "'v RQLite \<Rightarrow> string \<Rightarrow> 'v \<Rightarrow> nat \<Rightarrow> (state_error + nat) \<times> 'v RQLite" where
  "rq_Update r key value expected =
     (if \<not> ValidKey key then (Inl ErrInvalidKey, r)
      else case rq_exec (sql_update key value expected) r of
        (Inl err, r1) \<Rightarrow> (Inl err, r1)
      | (Inr n, r1) \<Rightarrow>
          if n = 1 then (Inr (expected + 1), r1)
          else if rq_Get r1 key = Inl ErrNotFound then (Inl ErrNotFound, r1)
          else (Inl ErrConflict, r1))"

definition rq_Delete :: "'v \<Rightarrow> 'v RQLite \<Rightarrow> string \<Rightarrow> state_error option \<times> 'v RQLite" where
  "rq_Delete nilv r key =
     (if \<not> ValidKey key then (Some ErrInvalidKey, r)
      else case rq_exec (sql_delete nilv key) r of
        (Inl err, r1) \<Rightarrow> (Some err, r1)
      | (Inr _, r1) \<Rightarrow> (None, r1))"

definition rq_List :: "'v RQLite \<Rightarrow> string \<Rightarrow> state_error + 'v Entry list" where
  "rq_List r pre =
     rq_query (\<lambda>rows. sort_Slice (\<lambda>a b. e_Key a < e_Key b)
        (map (\<lambda>(key, row). row_entry key row)
           (filter (\<lambda>(key, row). \<not> row_deleted row \<and> take (length pre) key = pre) rows))) r"

definition RQLite_Store :: "'v \<Rightarrow> ('v RQLite, 'v) Store" where
  "RQLite_Store nilv = \<lparr>st_Get = rq_Get, st_Create = rq_Create, st_Update = rq_Update,
     st_Delete = rq_Delete nilv, st_List = rq_List\<rparr>"

section \<open>The contract\<close>

definition rq_view :: "'v RQLite \<Rightarrow> string \<Rightarrow> ('v \<times> nat) option" where
  "rq_view r key =
     (case map_of (rq_rows r) key of
        Some row \<Rightarrow> if row_deleted row then None else Some (row_value row, row_revision row)
      | None \<Rightarrow> None)"

definition rq_bound :: "'v RQLite \<Rightarrow> string \<Rightarrow> nat" where
  "rq_bound r key = (case map_of (rq_rows r) key of Some row \<Rightarrow> row_revision row | None \<Rightarrow> 0)"

definition rq_inv :: "'v RQLite \<Rightarrow> bool" where
  "rq_inv r \<longleftrightarrow> distinct (map fst (rq_rows r)) \<and>
     (\<forall>key row. map_of (rq_rows r) key = Some row \<longrightarrow> 0 < row_revision row)"

lemmas rq_abs = rq_view_def rq_bound_def rq_inv_def

lemmas rq_calls = rq_exec_def rq_query_def rq_Get_def rq_Create_def rq_Update_def rq_Delete_def
  sql_insert_def sql_revive_def sql_update_def sql_delete_def sql_select_def row_entry_def

lemma rq_store_simps [simp]:
  "st_Get (RQLite_Store nilv) = rq_Get" "st_Create (RQLite_Store nilv) = rq_Create"
  "st_Update (RQLite_Store nilv) = rq_Update" "st_Delete (RQLite_Store nilv) = rq_Delete nilv"
  "st_List (RQLite_Store nilv) = rq_List"
  by (simp_all add: RQLite_Store_def)

lemma rq_set_row:
  assumes "rq_inv r" and "r' = r\<lparr>rq_rows := AList.update key row (rq_rows r)\<rparr>" and "rq_bound r key < row_revision row"
  shows "rq_inv r'"
    and "rq_view r' = (rq_view r)(key := (if row_deleted row then None else Some (row_value row, row_revision row)))"
    and "\<forall>j. rq_bound r j \<le> rq_bound r' j"
  using assms by (auto simp: rq_abs fun_eq_iff distinct_update update_conv' simp del: map_of_eq_Some_iff split: if_splits)

lemma rq_committed:
  "rq_inv r \<Longrightarrow> rq_bound r key < n \<Longrightarrow>
   r' = r\<lparr>rq_rows := AList.update key \<lparr>row_value = v, row_revision = n, row_deleted = False\<rparr> (rq_rows r)\<rparr> \<Longrightarrow>
   committed rq_view rq_bound rq_inv r key v n r'"
  using rq_set_row [of r r' key] by (simp add: committed_def)

lemma rq_Create_result: "rq_Create r key v =
   (if \<not> ValidKey key then (Inl ErrInvalidKey, r)
    else if \<not> rq_up r then (Inl ErrIO, r)
    else if rq_view r key \<noteq> None then (Inl ErrConflict, r)
    else let n = rq_bound r key + 1 in
      (Inr n, r\<lparr>rq_rows := AList.update key \<lparr>row_value = v, row_revision = n, row_deleted = False\<rparr> (rq_rows r)\<rparr>))"
  by (auto simp: rq_calls rq_view_def rq_bound_def Let_def split: option.split)

lemma rq_Update_result: "rq_Update r key v expected =
   (if \<not> ValidKey key then (Inl ErrInvalidKey, r)
    else if \<not> rq_up r then (Inl ErrIO, r)
    else case rq_view r key of
      None \<Rightarrow> (Inl ErrNotFound, r)
    | Some (_, rv) \<Rightarrow>
        if rv \<noteq> expected then (Inl ErrConflict, r)
        else (Inr (expected + 1),
              r\<lparr>rq_rows := AList.update key \<lparr>row_value = v, row_revision = expected + 1, row_deleted = False\<rparr> (rq_rows r)\<rparr>))"
  by (auto simp: rq_calls rq_view_def split: option.split)

lemma rq_view_bound_eq: "rq_view r key = Some (v, n) \<Longrightarrow> rq_bound r key = n"
  by (auto simp: rq_view_def rq_bound_def split: option.splits if_splits)

lemma rq_replaced: "rq_inv r \<Longrightarrow> rq_view r key = Some (v0, n) \<Longrightarrow>
   committed rq_view rq_bound rq_inv r key v (Suc n)
     (r\<lparr>rq_rows := AList.update key \<lparr>row_value = v, row_revision = Suc n, row_deleted = False\<rparr> (rq_rows r)\<rparr>)"
  by (rule rq_committed) (simp_all add: rq_view_bound_eq)

lemma rq_Delete_result: "rq_Delete nilv r key =
   (if \<not> ValidKey key then (Some ErrInvalidKey, r)
    else if \<not> rq_up r then (Some ErrIO, r)
    else if rq_view r key = None then (None, r)
    else (None, r\<lparr>rq_rows := AList.update key
      \<lparr>row_value = nilv, row_revision = rq_bound r key + 1, row_deleted = True\<rparr> (rq_rows r)\<rparr>))"
  by (auto simp: rq_calls rq_view_def rq_bound_def split: option.split)

lemma rq_Delete_view:
  assumes "rq_inv r" and "ValidKey key" and "rq_up r"
  shows "\<exists>r'. rq_Delete nilv r key = (None, r') \<and> rq_up r' \<and> rq_inv r' \<and>
     rq_view r' = (rq_view r)(key := None) \<and> (\<forall>j. rq_bound r j \<le> rq_bound r' j)"
  using assms rq_set_row [OF assms(1) refl, of key "\<lparr>row_value = nilv, row_revision = rq_bound r key + 1, row_deleted = True\<rparr>"]
  by (auto simp: rq_Delete_result)

lemma rq_List_entries:
  assumes "rq_inv r" and "rq_List r pre = Inr es"
  shows "sorted_wrt (<) (map e_Key es)"
    and "e \<in> set es \<longleftrightarrow> HasPrefix (e_Key e) pre \<and> rq_view r (e_Key e) = Some (e_Value e, e_Revision e)"
proof -
  let ?xs = "filter (\<lambda>(key, row). \<not> row_deleted row \<and> take (length pre) key = pre) (rq_rows r)"
  let ?lt = "\<lambda>a b :: 'a Entry. e_Key a < e_Key b"
  have key: "\<And>k row. (k, row) \<in> set (rq_rows r) \<longleftrightarrow> map_of (rq_rows r) k = Some row"
    using assms(1) by (simp add: rq_inv_def)
  have es: "es = sort_Slice ?lt (map (\<lambda>(key, row). row_entry key row) ?xs)"
    using assms(2) by (auto simp: rq_List_def rq_query_def split: if_splits)
  have "map e_Key (map (\<lambda>(key, row). row_entry key row) ?xs) = map fst ?xs"
    by (auto simp: row_entry_def)
  then have dist: "distinct (map e_Key es)"
    using assms(1) by (simp add: es rq_inv_def distinct_map_filter del: map_map)
  with sorted_map_sort_Slice [of e_Key] show "sorted_wrt (<) (map e_Key es)"
    by (simp add: es strict_sorted_iff)
  have "e \<in> set es \<longleftrightarrow> (\<exists>k row. map_of (rq_rows r) k = Some row \<and> \<not> row_deleted row \<and> HasPrefix k pre \<and> e = row_entry k row)"
    by (fastforce simp: es key image_iff HasPrefix_def)
  then show "e \<in> set es \<longleftrightarrow> HasPrefix (e_Key e) pre \<and> rq_view r (e_Key e) = Some (e_Value e, e_Revision e)"
    by (cases e) (auto simp: rq_view_def row_entry_def split: option.splits if_splits)
qed

interpretation rq: cas_store "RQLite_Store nilv" rq_view rq_bound rq_inv
proof (unfold_locales, goal_cases)
  case (1 s k v r)
  then show ?case by (auto simp: rq_abs simp del: map_of_eq_Some_iff split: option.splits if_splits)
next
  case (2 s k e)
  then show ?case by (auto simp: rq_calls rq_view_def split: option.splits if_splits)
next
  case (3 s k)
  then show ?case by (auto simp: rq_calls rq_view_def split: option.splits if_splits)
next
  case (4 s k v res s')
  then show ?case by (auto simp: rq_Create_result Let_def intro!: rq_committed split: if_splits)
next
  case (5 s k v expected res s')
  then show ?case
    using rq_replaced [of s k _ expected v]
    by (cases "rq_view s k") (fastforce simp: rq_Update_result split: if_splits)+
next
  case (6 s k err s')
  then show ?case
    using rq_Delete_view [of s k nilv] by (auto simp: rq_Delete_result split: if_splits)
qed

text \<open>While the cluster is reachable the store answers every request as the interface says.\<close>

definition rq_ready :: "'v RQLite \<Rightarrow> bool" where
  "rq_ready r \<longleftrightarrow> rq_inv r \<and> rq_up r"

lemma committed_ready:
  "committed rq_view rq_bound rq_inv r key v n r' \<Longrightarrow> rq_up r' \<Longrightarrow> committed rq_view rq_bound rq_ready r key v n r'"
  by (simp add: committed_def rq_ready_def)

interpretation rqr: reliable_store "RQLite_Store nilv" rq_view rq_bound rq_ready
proof (unfold_locales, goal_cases)
  case (1 s k v r)
  then show ?case using rq.view_bound [of s k v r] by (simp add: rq_ready_def)
next
  case (2 s k e)
  then show ?case using rq.get_Inr [of s nilv k e] by (simp add: rq_ready_def)
next
  case (3 s k)
  then show ?case using rq.get_missing [of s nilv k] by (simp add: rq_ready_def)
next
  case (4 s k v res s')
  then show ?case
    by (auto simp: rq_ready_def rq_Create_result Let_def intro!: committed_ready rq_committed split: if_splits)
next
  case (5 s k v expected res s')
  then show ?case
    using committed_ready [OF rq_replaced, of s k _ expected v]
    by (cases "rq_view s k") (fastforce simp: rq_ready_def rq_Update_result split: if_splits)+
next
  case (6 s k err s')
  then show ?case
    using rq_Delete_view [of s k nilv] by (auto simp: rq_ready_def rq_Delete_result split: if_splits)
next
  case (7 s k)
  then show ?case by (auto simp: rq_ready_def rq_calls rq_view_def split: option.splits)
next
  case (8 s k v)
  then show ?case by (simp add: rq_ready_def rq_Create_result Let_def)
next
  case (9 s k e v)
  then show ?case by (simp add: rq_ready_def rq_Create_result)
next
  case (10 s k v0 r v)
  then show ?case by (simp add: rq_ready_def rq_Update_result)
next
  case (11 s k v0 r expected v)
  then show ?case by (simp add: rq_ready_def rq_Update_result)
next
  case (12 s k v expected)
  then show ?case by (simp add: rq_ready_def rq_Update_result)
next
  case (13 s k)
  then show ?case using rq_Delete_view [of s k nilv] by (auto simp: rq_ready_def)
next
  case (14 s p)
  then show ?case
    using rq_List_entries [of s p] by (auto simp: rq_ready_def rq_List_def rq_query_def simp del: set_sort_Slice)
qed

end
