(* ===== verification/Lease.thy ===== *)
theory Lease
  imports RQLite_Store
begin

text \<open>
  The leader lease (\<open>Lease\<close> in \<open>pkg/coordinator/state/state.go\<close>): a record with a holder
  and an expiry under one key of the store, taken, renewed and given up by compare-and-set. The
  operations are split at the point where another instance can act between the read and the
  write: \<open>Acquire_decide\<close> is what \<open>Acquire\<close> makes of the record it read,
  \<open>Acquire_finish\<close> the write. The step relation lets any number of instances interleave
  these halves with each other, with other traffic on the store and with the clock.
\<close>

section \<open>The lease operations\<close>

record leaseRecord =
  Holder :: string
  Expires :: time

record Lease =
  l_key :: string
  l_holder :: string
  l_ttl :: duration

definition NewLease :: "string \<Rightarrow> string \<Rightarrow> duration \<Rightarrow> Lease" where
  "NewLease key holder ttl = \<lparr>l_key = key, l_holder = holder, l_ttl = ttl\<rparr>"

datatype lease_action =
    LCreate leaseRecord
  | LUpdate leaseRecord nat
  | LReturn "state_error + bool"

text \<open>\<open>now0\<close> is the clock when the call starts, \<open>now1\<close> after the record was read.\<close>

definition Acquire_decide :: "Lease \<Rightarrow> time \<Rightarrow> time \<Rightarrow> state_error + (leaseRecord \<times> nat) \<Rightarrow> lease_action" where
  "Acquire_decide l now0 now1 got =
     (let mine = \<lparr>Holder = l_holder l, Expires = now0 + l_ttl l\<rparr> in
      case got of
        Inl err \<Rightarrow> if err = ErrNotFound then LCreate mine else LReturn (Inl err)
      | Inr (current, rv) \<Rightarrow>
          if Holder current \<noteq> l_holder l \<and> now1 < Expires current then LReturn (Inr False)
          else LUpdate mine rv)"

definition Acquire_finish ::
  "('s, 'v) Store \<Rightarrow> (leaseRecord \<Rightarrow> 'v) \<Rightarrow> Lease \<Rightarrow> lease_action \<Rightarrow> 's \<Rightarrow> (state_error + bool) \<times> 's" where
  "Acquire_finish S enc l a s =
     (case a of
        LReturn res \<Rightarrow> (res, s)
      | LCreate mine \<Rightarrow>
          (case CreateJSON S enc s (l_key l) mine of
             (Inr _, s') \<Rightarrow> (Inr True, s')
           | (Inl err, s') \<Rightarrow> (if err = ErrConflict then Inr False else Inl err, s'))
      | LUpdate mine rv \<Rightarrow>
          (case UpdateJSON S enc s (l_key l) mine rv of
             (Inr _, s') \<Rightarrow> (Inr True, s')
           | (Inl err, s') \<Rightarrow> (if err = ErrConflict \<or> err = ErrNotFound then Inr False else Inl err, s')))"

definition Acquire ::
  "('s, 'v) Store \<Rightarrow> (leaseRecord \<Rightarrow> 'v) \<Rightarrow> ('v \<Rightarrow> leaseRecord option) \<Rightarrow> Lease \<Rightarrow> time \<Rightarrow> time \<Rightarrow> 's \<Rightarrow>
   (state_error + bool) \<times> 's" where
  "Acquire S enc dec l now0 now1 s =
     Acquire_finish S enc l (Acquire_decide l now0 now1 (GetJSON S dec s (l_key l))) s"

text \<open>\<open>Release\<close> answers with an error or nothing; a lost race is not an error.\<close>

definition Release_decide :: "Lease \<Rightarrow> state_error + (leaseRecord \<times> nat) \<Rightarrow> lease_action" where
  "Release_decide l got =
     (case got of
        Inl err \<Rightarrow> if err = ErrNotFound then LReturn (Inr True) else LReturn (Inl err)
      | Inr (current, rv) \<Rightarrow>
          if Holder current \<noteq> l_holder l then LReturn (Inr True)
          else LUpdate (current\<lparr>Expires := 0\<rparr>) rv)"

definition Release_finish ::
  "('s, 'v) Store \<Rightarrow> (leaseRecord \<Rightarrow> 'v) \<Rightarrow> Lease \<Rightarrow> lease_action \<Rightarrow> 's \<Rightarrow> state_error option \<times> 's" where
  "Release_finish S enc l a s =
     (case a of
        LUpdate current rv \<Rightarrow>
          (case UpdateJSON S enc s (l_key l) current rv of
             (Inr _, s') \<Rightarrow> (None, s')
           | (Inl err, s') \<Rightarrow> (if err = ErrConflict then None else Some err, s'))
      | LReturn (Inl err) \<Rightarrow> (Some err, s)
      | _ \<Rightarrow> (None, s))"

definition Release ::
  "('s, 'v) Store \<Rightarrow> (leaseRecord \<Rightarrow> 'v) \<Rightarrow> ('v \<Rightarrow> leaseRecord option) \<Rightarrow> Lease \<Rightarrow> 's \<Rightarrow> state_error option \<times> 's" where
  "Release S enc dec l s = Release_finish S enc l (Release_decide l (GetJSON S dec s (l_key l))) s"

section \<open>Instances that compete for a lease\<close>

text \<open>
  An instance is named by its holder ID. \<open>ls_until\<close> is the expiry of the lease an instance was
  last told it owns, \<open>None\<close> once it was told otherwise or has begun to give it up.
\<close>

datatype lease_op = Acquiring lease_action | Releasing lease_action

record 's lease_sys =
  ls_store :: 's
  ls_clock :: time
  ls_pending :: "string \<Rightarrow> lease_op option"
  ls_until :: "string \<Rightarrow> time option"

definition lease_start :: "'s \<Rightarrow> time \<Rightarrow> 's lease_sys" where
  "lease_start s t = \<lparr>ls_store = s, ls_clock = t, ls_pending = (\<lambda>_. None), ls_until = (\<lambda>_. None)\<rparr>"

fun action_expiry :: "lease_action \<Rightarrow> time option" where
  "action_expiry (LCreate mine) = Some (Expires mine)"
| "action_expiry (LUpdate mine _) = Some (Expires mine)"
| "action_expiry (LReturn _) = None"

inductive lease_step ::
  "('s, 'v) Store \<Rightarrow> (leaseRecord \<Rightarrow> 'v) \<Rightarrow> ('v \<Rightarrow> leaseRecord option) \<Rightarrow> string \<Rightarrow> duration \<Rightarrow>
   's lease_sys \<Rightarrow> 's lease_sys \<Rightarrow> bool"
  for S :: "('s, 'v) Store" and enc and dec and key and ttl where
  tick: "ls_clock c \<le> t \<Longrightarrow> lease_step S enc dec key ttl c (c\<lparr>ls_clock := t\<rparr>)"
| acquire_read: "ls_pending c p = None \<Longrightarrow> t0 \<le> ls_clock c \<Longrightarrow>
    a = Acquire_decide (NewLease key p ttl) t0 (ls_clock c) (GetJSON S dec (ls_store c) key) \<Longrightarrow>
    lease_step S enc dec key ttl c (c\<lparr>ls_pending := (ls_pending c)(p \<mapsto> Acquiring a)\<rparr>)"
| acquire_write: "ls_pending c p = Some (Acquiring a) \<Longrightarrow>
    Acquire_finish S enc (NewLease key p ttl) a (ls_store c) = (res, s') \<Longrightarrow>
    lease_step S enc dec key ttl c (c\<lparr>ls_store := s', ls_pending := (ls_pending c)(p := None),
      ls_until := (ls_until c)(p := (if res = Inr True then action_expiry a else None))\<rparr>)"
| release_read: "ls_pending c p = None \<Longrightarrow>
    a = Release_decide (NewLease key p ttl) (GetJSON S dec (ls_store c) key) \<Longrightarrow>
    lease_step S enc dec key ttl c (c\<lparr>ls_pending := (ls_pending c)(p \<mapsto> Releasing a), ls_until := (ls_until c)(p := None)\<rparr>)"
| release_write: "ls_pending c p = Some (Releasing a) \<Longrightarrow>
    Release_finish S enc (NewLease key p ttl) a (ls_store c) = (err, s') \<Longrightarrow>
    lease_step S enc dec key ttl c (c\<lparr>ls_store := s', ls_pending := (ls_pending c)(p := None)\<rparr>)"
| other_create: "j \<noteq> key \<Longrightarrow> st_Create S (ls_store c) j v = (res, s') \<Longrightarrow>
    lease_step S enc dec key ttl c (c\<lparr>ls_store := s'\<rparr>)"
| other_update: "j \<noteq> key \<Longrightarrow> st_Update S (ls_store c) j v x = (res, s') \<Longrightarrow>
    lease_step S enc dec key ttl c (c\<lparr>ls_store := s'\<rparr>)"
| other_delete: "j \<noteq> key \<Longrightarrow> st_Delete S (ls_store c) j = (err, s') \<Longrightarrow>
    lease_step S enc dec key ttl c (c\<lparr>ls_store := s'\<rparr>)"

text \<open>Runs from a store in which nobody holds the lease yet.\<close>

inductive lease_reach ::
  "('s, 'v) Store \<Rightarrow> (leaseRecord \<Rightarrow> 'v) \<Rightarrow> ('v \<Rightarrow> leaseRecord option) \<Rightarrow> string \<Rightarrow> duration \<Rightarrow>
   's \<Rightarrow> 's lease_sys \<Rightarrow> bool"
  for S :: "('s, 'v) Store" and enc and dec and key and ttl and s0 where
  start: "lease_reach S enc dec key ttl s0 (lease_start s0 t)"
| step: "lease_reach S enc dec key ttl s0 c \<Longrightarrow> lease_step S enc dec key ttl c c' \<Longrightarrow>
    lease_reach S enc dec key ttl s0 c'"

definition claims :: "'s lease_sys \<Rightarrow> string \<Rightarrow> bool" where
  "claims c p \<longleftrightarrow> (\<exists>e. ls_until c p = Some e \<and> ls_clock c < e)"

section \<open>At most one owner\<close>

context cas_store
begin

text \<open>
  What a pending write may rely on: the record it read, and that this record did not keep the
  instance from writing (it is its own, or it has expired).
\<close>

definition may_replace ::
  "('v \<Rightarrow> leaseRecord option) \<Rightarrow> string \<Rightarrow> 's lease_sys \<Rightarrow> string \<Rightarrow> nat \<Rightarrow> bool" where
  "may_replace dec key c p r \<longleftrightarrow> (\<exists>v cur. knows (ls_store c) key v r \<and> dec v = Some cur \<and>
     (Holder cur = p \<or> Expires cur \<le> ls_clock c))"

definition lease_inv :: "(leaseRecord \<Rightarrow> 'v) \<Rightarrow> ('v \<Rightarrow> leaseRecord option) \<Rightarrow> string \<Rightarrow> 's lease_sys \<Rightarrow> bool" where
  "lease_inv enc dec key c \<longleftrightarrow> invar (ls_store c) \<and>
     (\<forall>p e. ls_until c p = Some e \<longrightarrow> ls_clock c < e \<longrightarrow>
        (\<exists>r. view (ls_store c) key = Some (enc \<lparr>Holder = p, Expires = e\<rparr>, r))) \<and>
     (\<forall>p mine. ls_pending c p = Some (Acquiring (LCreate mine)) \<longrightarrow> Holder mine = p) \<and>
     (\<forall>p mine r. ls_pending c p = Some (Acquiring (LUpdate mine r)) \<longrightarrow> Holder mine = p \<and> may_replace dec key c p r) \<and>
     (\<forall>p cur r. ls_pending c p = Some (Releasing (LUpdate cur r)) \<longrightarrow> may_replace dec key c p r) \<and>
     (\<forall>p cur r. ls_pending c p = Some (Releasing (LUpdate cur r)) \<longrightarrow> ls_until c p = None)"

lemma may_replace_mono:
  assumes "may_replace dec key c p r" and "ls_clock c \<le> ls_clock c'"
    and "\<And>v. knows (ls_store c) key v r \<Longrightarrow> knows (ls_store c') key v r"
  shows "may_replace dec key c' p r"
  using assms unfolding may_replace_def by (fastforce intro: order_trans)

lemma may_replace_read:
  assumes "invar (ls_store c)" and "GetJSON S dec (ls_store c) key = Inr (cur, r)"
    and "Holder cur = p \<or> Expires cur \<le> ls_clock c"
  shows "may_replace dec key c p r"
  using GetJSON_Inr [OF assms(1,2)] assms(3) by (auto simp: may_replace_def)

text \<open>A write that went through ended the claim of everybody else.\<close>

lemma replaced_claims_own:
  assumes inv: "lease_inv enc dec key c" and dec: "\<And>x. dec (enc x) = Some x"
    and may: "may_replace dec key c p r" and at: "view (ls_store c) key = Some (v, r)"
    and "ls_until c q = Some e" and "ls_clock c < e"
  shows "q = p"
proof -
  obtain cur where cur: "dec v = Some cur" "Holder cur = p \<or> Expires cur \<le> ls_clock c"
    using may at unfolding may_replace_def knows_def by blast
  have "v = enc \<lparr>Holder = q, Expires = e\<rparr>"
    using inv at assms(5,6) unfolding lease_inv_def by fastforce
  with cur dec have "cur = \<lparr>Holder = q, Expires = e\<rparr>" by simp
  with cur(2) assms(6) show ?thesis by auto
qed

lemma lease_inv_frame:
  assumes "lease_inv enc dec key c" and "invar s'" and "view s' key = view (ls_store c) key"
    and "\<And>v r. knows (ls_store c) key v r \<Longrightarrow> knows s' key v r"
  shows "lease_inv enc dec key (c\<lparr>ls_store := s'\<rparr>)"
  using assms unfolding lease_inv_def
  by (auto intro: may_replace_mono [where c = c])

lemma lease_inv_tick:
  assumes "lease_inv enc dec key c" and "ls_clock c \<le> t"
  shows "lease_inv enc dec key (c\<lparr>ls_clock := t\<rparr>)"
  using assms unfolding lease_inv_def by (auto intro: may_replace_mono [where c = c])

text \<open>Reading the record and taking a decision.\<close>

lemma may_replace_store [simp]:
  "may_replace dec key (c\<lparr>ls_pending := pd\<rparr>) p r = may_replace dec key c p r"
  "may_replace dec key (c\<lparr>ls_until := u\<rparr>) p r = may_replace dec key c p r"
  by (simp_all add: may_replace_def)

lemma lease_inv_acquire_read:
  assumes "lease_inv enc dec key c"
    and "a = Acquire_decide (NewLease key p ttl) t0 (ls_clock c) (GetJSON S dec (ls_store c) key)"
  shows "lease_inv enc dec key (c\<lparr>ls_pending := (ls_pending c)(p \<mapsto> Acquiring a)\<rparr>)"
  using assms unfolding lease_inv_def Acquire_decide_def NewLease_def
  by (auto simp: Let_def not_less split: sum.splits if_splits intro: may_replace_read)

lemma lease_inv_release_read:
  assumes "lease_inv enc dec key c"
    and "a = Release_decide (NewLease key p ttl) (GetJSON S dec (ls_store c) key)"
  shows "lease_inv enc dec key
    (c\<lparr>ls_pending := (ls_pending c)(p \<mapsto> Releasing a), ls_until := (ls_until c)(p := None)\<rparr>)"
  using assms unfolding lease_inv_def Release_decide_def NewLease_def
  by (auto split: sum.splits if_splits intro: may_replace_read)

text \<open>
  The write: either the key was left alone and nobody is told that it owns the lease, or the
  record is now \<open>p\<close>'s and every other claim had lapsed.
\<close>

lemma lease_inv_write:
  assumes inv: "lease_inv enc dec key c" and "invar s'"
    and knows: "\<And>v r. knows (ls_store c) key v r \<Longrightarrow> knows s' key v r"
    and cases: "(view s' key = view (ls_store c) key \<and> u = None) \<or>
      ((\<forall>q e. ls_until c q = Some e \<longrightarrow> ls_clock c < e \<longrightarrow> q = p) \<and>
       (\<forall>e. u = Some e \<longrightarrow> (\<exists>r. view s' key = Some (enc \<lparr>Holder = p, Expires = e\<rparr>, r))))"
  shows "lease_inv enc dec key
    (c\<lparr>ls_store := s', ls_pending := (ls_pending c)(p := None), ls_until := (ls_until c)(p := u)\<rparr>)"
  using assms unfolding lease_inv_def
  by (auto intro: may_replace_mono [where c = c])

lemma acquire_write_cases:
  assumes inv: "lease_inv enc dec key c" and dec: "\<And>x. dec (enc x) = Some x"
    and "ls_pending c p = Some (Acquiring a)"
    and "Acquire_finish S enc (NewLease key p ttl) a (ls_store c) = (res, s')"
    and u: "u = (if res = Inr True then action_expiry a else None)"
  shows "invar s'" and "knows (ls_store c) key v r \<Longrightarrow> knows s' key v r"
    and "(view s' key = view (ls_store c) key \<and> u = None) \<or>
      ((\<forall>q e. ls_until c q = Some e \<longrightarrow> ls_clock c < e \<longrightarrow> q = p) \<and>
       (\<forall>e. u = Some e \<longrightarrow> (\<exists>r. view s' key = Some (enc \<lparr>Holder = p, Expires = e\<rparr>, r))))"
proof -
  have s: "invar (ls_store c)" using inv by (simp add: lease_inv_def)
  show "invar s'" "knows (ls_store c) key v r \<Longrightarrow> knows s' key v r"
    using assms(4) s
    by (auto simp: Acquire_finish_def CreateJSON_def UpdateJSON_def NewLease_def
        split: lease_action.splits prod.splits sum.splits intro: store_frame)
  show "(view s' key = view (ls_store c) key \<and> u = None) \<or>
      ((\<forall>q e. ls_until c q = Some e \<longrightarrow> ls_clock c < e \<longrightarrow> q = p) \<and>
       (\<forall>e. u = Some e \<longrightarrow> (\<exists>r. view s' key = Some (enc \<lparr>Holder = p, Expires = e\<rparr>, r))))"
  proof (cases a)
    case (LCreate mine)
    then obtain res' where w: "st_Create S (ls_store c) key (enc mine) = (res', s')"
      and ok: "res = Inr True \<Longrightarrow> \<exists>r. res' = Inr r"
      using assms(4) by (auto simp: Acquire_finish_def CreateJSON_def NewLease_def
          split: prod.splits sum.splits if_splits)
    have "mine = \<lparr>Holder = p, Expires = Expires mine\<rparr>"
      using inv assms(3) LCreate by (simp add: lease_inv_def)
    moreover have "view (ls_store c) key = None \<Longrightarrow> ls_until c q = Some e \<Longrightarrow> \<not> ls_clock c < e" for q e
      using inv by (auto simp: lease_inv_def)
    ultimately show ?thesis
      using view_create [OF s w] u ok LCreate by (auto split: if_splits)
  next
    case (LUpdate mine r)
    then obtain res' where w: "st_Update S (ls_store c) key (enc mine) r = (res', s')"
      and ok: "res = Inr True \<Longrightarrow> \<exists>r. res' = Inr r"
      using assms(4) by (auto simp: Acquire_finish_def UpdateJSON_def NewLease_def
          split: prod.splits sum.splits if_splits)
    have mine: "mine = \<lparr>Holder = p, Expires = Expires mine\<rparr>" and may: "may_replace dec key c p r"
      using inv assms(3) LUpdate by (simp_all add: lease_inv_def)
    then obtain v where "knows (ls_store c) key v r" by (auto simp: may_replace_def)
    from view_update [OF s w this] show ?thesis
      using u ok LUpdate mine replaced_claims_own [OF inv dec may] by (auto split: if_splits)
  next
    case (LReturn res')
    with assms(4) u show ?thesis by (simp add: Acquire_finish_def)
  qed
qed

lemma release_write_cases:
  assumes inv: "lease_inv enc dec key c" and dec: "\<And>x. dec (enc x) = Some x"
    and "ls_pending c p = Some (Releasing a)"
    and "Release_finish S enc (NewLease key p ttl) a (ls_store c) = (err, s')"
  shows "invar s'" and "knows (ls_store c) key v r \<Longrightarrow> knows s' key v r"
    and "view s' key = view (ls_store c) key \<or>
      (ls_until c p = None \<and> (\<forall>q e. ls_until c q = Some e \<longrightarrow> ls_clock c < e \<longrightarrow> q = p))"
proof -
  have s: "invar (ls_store c)" using inv by (simp add: lease_inv_def)
  show "invar s'" "knows (ls_store c) key v r \<Longrightarrow> knows s' key v r"
    using assms(4) s
    by (auto simp: Release_finish_def UpdateJSON_def NewLease_def
        split: lease_action.splits prod.splits sum.splits intro: store_frame)
  show "view s' key = view (ls_store c) key \<or>
      (ls_until c p = None \<and> (\<forall>q e. ls_until c q = Some e \<longrightarrow> ls_clock c < e \<longrightarrow> q = p))"
  proof (cases a)
    case (LUpdate cur r)
    then obtain res' where w: "st_Update S (ls_store c) key (enc cur) r = (res', s')"
      using assms(4) by (auto simp: Release_finish_def UpdateJSON_def NewLease_def
          split: prod.splits sum.splits if_splits)
    have may: "may_replace dec key c p r" and "ls_until c p = None"
      using inv assms(3) LUpdate by (auto simp: lease_inv_def)
    obtain v where "knows (ls_store c) key v r" using may by (auto simp: may_replace_def)
    from view_update [OF s w this] show ?thesis
      using \<open>ls_until c p = None\<close> replaced_claims_own [OF inv dec may] by auto
  qed (use assms(4) in \<open>auto simp: Release_finish_def split: sum.splits\<close>)
qed

lemma lease_inv_step:
  assumes "lease_step S enc dec key ttl c c'" and "lease_inv enc dec key c" and dec: "\<And>x. dec (enc x) = Some x"
  shows "lease_inv enc dec key c'"
proof -
  have s: "invar (ls_store c)" using assms(2) by (simp add: lease_inv_def)
  from assms(1) show ?thesis
  proof (cases rule: lease_step.cases)
  case (acquire_write p a res s')
  note w = acquire_write_cases [OF assms(2) dec acquire_write(2,3) refl]
  show ?thesis unfolding acquire_write(1)
    by (rule lease_inv_write [OF assms(2) w(1) w(2) w(3)])
next
  case (release_write p a err s')
  note w = release_write_cases [OF assms(2) dec release_write(2,3)]
  have "ls_until c = (ls_until c)(p := ls_until c p)" by simp
  show ?thesis
  proof (cases "view s' key = view (ls_store c) key")
    case True
    then have "lease_inv enc dec key (c\<lparr>ls_store := s'\<rparr>)"
      by (rule lease_inv_frame [OF assms(2) w(1) _ w(2)])
    then show ?thesis unfolding release_write(1) lease_inv_def by (auto simp: may_replace_def)
  next
    case False
    with w(3) have *: "(ls_until c)(p := None) = ls_until c" 
      "\<forall>q e. ls_until c q = Some e \<longrightarrow> ls_clock c < e \<longrightarrow> q = p" by auto
    have "lease_inv enc dec key (c\<lparr>ls_store := s', ls_pending := (ls_pending c)(p := None),
        ls_until := (ls_until c)(p := None)\<rparr>)"
      by (rule lease_inv_write [OF assms(2) w(1) w(2)]) (use *(2) in auto)
    then show ?thesis unfolding release_write(1) * by simp
  qed
next
  case (other_create j v res s')
  show ?thesis unfolding other_create(1)
    by (rule lease_inv_frame [OF assms(2)]) (use s other_create in \<open>auto intro: store_frame\<close>)
next
  case (other_update j v x res s')
  show ?thesis unfolding other_update(1)
    by (rule lease_inv_frame [OF assms(2)]) (use s other_update in \<open>auto intro: store_frame\<close>)
next
  case (other_delete j err s')
  show ?thesis unfolding other_delete(1)
    by (rule lease_inv_frame [OF assms(2)]) (use s other_delete in \<open>auto intro: store_frame\<close>)
qed (use assms(2) in \<open>auto intro: lease_inv_tick lease_inv_acquire_read lease_inv_release_read\<close>)
qed

lemma lease_inv_reach:
  assumes "lease_reach S enc dec key ttl s0 c" and "invar s0" and "\<And>x. dec (enc x) = Some x"
  shows "lease_inv enc dec key c"
  using assms(1)
proof induction
  case (start t)
  show ?case using assms(2) by (simp add: lease_inv_def lease_start_def)
next
  case (step c c')
  then show ?case using lease_inv_step assms(3) by blast
qed

lemma claims_unique:
  assumes "lease_inv enc dec key c" and "\<And>x. dec (enc x) = Some x" and "claims c p" and "claims c q"
  shows "p = q"
proof -
  obtain e f r where "view (ls_store c) key = Some (enc \<lparr>Holder = p, Expires = e\<rparr>, r)"
    and "view (ls_store c) key = Some (enc \<lparr>Holder = q, Expires = f\<rparr>, r)"
    using assms(1,3,4) unfolding lease_inv_def claims_def by (metis option.inject prod.inject)
  then have "Some \<lparr>Holder = p, Expires = e\<rparr> = Some \<lparr>Holder = q, Expires = f\<rparr>"
    by (metis assms(2) option.inject prod.inject)
  then show ?thesis by simp
qed

end

section \<open>What one call does on a store that answers\<close>

text \<open>The lease is free for \<open>holder\<close>: nobody has it, it lapsed, or it is the holder's own.\<close>

definition lease_free :: "(string \<Rightarrow> ('v \<times> nat) option) \<Rightarrow> ('v \<Rightarrow> leaseRecord option) \<Rightarrow> Lease \<Rightarrow> time \<Rightarrow> bool" where
  "lease_free m dec l now \<longleftrightarrow>
     (case m (l_key l) of
        None \<Rightarrow> True
      | Some (v, _) \<Rightarrow> (case dec v of None \<Rightarrow> False | Some cur \<Rightarrow> Holder cur = l_holder l \<or> Expires cur \<le> now))"

definition lease_readable :: "(string \<Rightarrow> ('v \<times> nat) option) \<Rightarrow> ('v \<Rightarrow> leaseRecord option) \<Rightarrow> string \<Rightarrow> bool" where
  "lease_readable m dec key \<longleftrightarrow> (case m key of None \<Rightarrow> True | Some (v, _) \<Rightarrow> dec v \<noteq> None)"

context reliable_store
begin

lemma Acquire_free:
  assumes "invar s" and "ValidKey (l_key l)" and "lease_free (view s) dec l now1"
  shows "\<exists>r s'. Acquire S enc dec l now0 now1 s = (Inr True, s') \<and>
    committed view bound invar s (l_key l) (enc \<lparr>Holder = l_holder l, Expires = now0 + l_ttl l\<rparr>) r s'"
proof (cases "view s (l_key l)")
  case None
  with assms create_reliable [OF assms(1,2) None, of "enc \<lparr>Holder = l_holder l, Expires = now0 + l_ttl l\<rparr>"] show ?thesis
    by (auto simp: Acquire_def Acquire_decide_def Acquire_finish_def GetJSON_total CreateJSON_def)
next
  case (Some e)
  obtain v r where "e = (v, r)" by fastforce
  with Some have e: "view s (l_key l) = Some (v, r)" by simp
  with assms update_reliable [OF assms(1,2) e, of "enc \<lparr>Holder = l_holder l, Expires = now0 + l_ttl l\<rparr>"] show ?thesis
    by (auto simp: Acquire_def Acquire_decide_def Acquire_finish_def GetJSON_total UpdateJSON_def
        lease_free_def split: option.splits)
qed

lemma Acquire_taken:
  assumes "invar s" and "ValidKey (l_key l)" and "lease_readable (view s) dec (l_key l)"
    and "\<not> lease_free (view s) dec l now1"
  shows "Acquire S enc dec l now0 now1 s = (Inr False, s)"
  using assms by (auto simp: Acquire_def Acquire_decide_def Acquire_finish_def GetJSON_total
      lease_free_def lease_readable_def split: option.splits prod.splits)

lemma Release_held:
  assumes "invar s" and "ValidKey (l_key l)" and "view s (l_key l) = Some (v, r)" and "dec v = Some cur"
  shows "if Holder cur = l_holder l
    then \<exists>r' s'. Release S enc dec l s = (None, s') \<and> committed view bound invar s (l_key l) (enc (cur\<lparr>Expires := 0\<rparr>)) r' s'
    else Release S enc dec l s = (None, s)"
  using assms update_reliable [OF assms(1-3), of "enc (cur\<lparr>Expires := 0\<rparr>)"]
  by (auto simp: Release_def Release_decide_def Release_finish_def GetJSON_total UpdateJSON_def)

end

section \<open>Properties\<close>

text \<open>
  C1. However the calls of any number of instances interleave, on any store that keeps the
  compare-and-set contract (also one that loses answers), two instances never both believe in an
  unexpired lease.
\<close>
theorem lease_exclusive:
  assumes "cas_store S view bound invar" and "invar s0" and "\<And>x. dec (enc x) = Some x"
    and "lease_reach S enc dec key ttl s0 c" and "claims c p" and "claims c q"
  shows "p = q"
proof -
  have "cas_store.lease_inv view bound invar enc dec key c"
    by (rule cas_store.lease_inv_reach [OF assms(1) assms(4) assms(2,3)])
  then show ?thesis
    by (rule cas_store.claims_unique [OF assms(1) _ assms(3,5,6)])
qed

lemma lease_witness_run:
  "\<exists>c. lease_reach Mem_Store id Some ''leader'' 30 NewMem c \<and> claims c ''a''"
proof -
  let ?L = "NewLease ''leader'' ''a'' 30"
  let ?c0 = "lease_start (NewMem :: leaseRecord Mem) 100"
  let ?a = "LCreate \<lparr>Holder = ''a'', Expires = 130\<rparr>"
  let ?c1 = "?c0\<lparr>ls_pending := (ls_pending ?c0)(''a'' \<mapsto> Acquiring ?a)\<rparr>"
  have a: "?a = Acquire_decide ?L 100 (ls_clock ?c0) (GetJSON Mem_Store Some (ls_store ?c0) ''leader'')"
    by (simp add: Acquire_decide_def GetJSON_def store_defs NewMem_def lease_start_def NewLease_def)
  have r1: "lease_reach Mem_Store id Some ''leader'' 30 NewMem ?c1"
    by (rule lease_reach.step [OF lease_reach.start, OF lease_step.acquire_read [OF _ _ a]])
      (simp_all add: lease_start_def)
  obtain s' where w: "Acquire_finish Mem_Store id ?L ?a (ls_store ?c1) = (Inr True, s')"
    by (simp add: Acquire_finish_def CreateJSON_def store_defs NewMem_def lease_start_def NewLease_def
        ValidKey_def is_alnum_def key_char_def Let_def less_eq_char_def)
  have "lease_reach Mem_Store id Some ''leader'' 30 NewMem
      (?c1\<lparr>ls_store := s', ls_pending := (ls_pending ?c1)(''a'' := None),
        ls_until := (ls_until ?c1)(''a'' := Some 130)\<rparr>)"
    using lease_reach.step [OF r1 lease_step.acquire_write [OF _ w]] by simp
  moreover have "claims (?c1\<lparr>ls_store := s', ls_pending := (ls_pending ?c1)(''a'' := None),
        ls_until := (ls_until ?c1)(''a'' := Some 130)\<rparr>) ''a''"
    by (simp add: claims_def lease_start_def)
  ultimately show ?thesis by blast
qed

theorem lease_exclusive_witness:
  "\<exists>c. lease_reach Mem_Store id Some ''leader'' 30 NewMem c \<and> {p. claims c p} = {''a''}"
proof -
  obtain c where c: "lease_reach Mem_Store id Some ''leader'' 30 NewMem c" "claims c ''a''"
    using lease_witness_run by blast
  have "p = ''a''" if "claims c p" for p
    by (rule lease_exclusive [OF mem.cas_store_axioms _ _ c(1) that c(2)]) simp_all
  with c show ?thesis by blast
qed

text \<open>
  On a store that answers, \<open>Acquire\<close> takes the lease exactly when it is free for the
  caller, and then the record is the caller's until its own clock plus the TTL; when it is not
  free, nothing is written and the answer is no, without an error.
\<close>
theorem Acquire_correct:
  assumes "reliable_store S view bound invar" and "invar s" and "ValidKey (l_key l)"
    and "lease_readable (view s) dec (l_key l)"
  shows "if lease_free (view s) dec l now1
    then \<exists>r s'. Acquire S enc dec l now0 now1 s = (Inr True, s') \<and> invar s' \<and>
      view s' = (view s)(l_key l \<mapsto> (enc \<lparr>Holder = l_holder l, Expires = now0 + l_ttl l\<rparr>, r))
    else Acquire S enc dec l now0 now1 s = (Inr False, s)"
  using reliable_store.Acquire_free [OF assms(1-3), of dec now1 enc now0]
    reliable_store.Acquire_taken [OF assms, of now1 enc now0]
  by (auto simp: committed_def)

theorem Acquire_correct_witness:
  "\<exists>r s'. Acquire (RQLite_Store None) Some id (NewLease ''leader'' ''b'' 30) 100 101 \<lparr>rq_rows = [], rq_up = True\<rparr> = (Inr True, s')
     \<and> rq_view s' ''leader'' = Some (Some \<lparr>Holder = ''b'', Expires = 130\<rparr>, r)"
proof -
  let ?s = "\<lparr>rq_rows = [], rq_up = True\<rparr> :: leaseRecord option RQLite"
  have "ValidKey ''leader''"
    by (simp add: ValidKey_def is_alnum_def key_char_def less_eq_char_def)
  moreover have "rq_ready ?s" by (simp add: rq_ready_def rq_inv_def)
  moreover have empty: "rq_view ?s ''leader'' = None" by (simp add: rq_view_def)
  ultimately show ?thesis
    using Acquire_correct [OF rqr.reliable_store_axioms, of ?s "NewLease ''leader'' ''b'' 30" id 101 None Some 100]
    by (auto simp: NewLease_def lease_free_def lease_readable_def empty)
qed

text \<open>
  After its owner released the lease, another instance acquires it at once; a release by
  somebody who does not own the lease changes nothing.
\<close>
theorem Release_hands_over:
  assumes "reliable_store S view bound invar" and "invar s" and "ValidKey (l_key l)"
    and "\<And>x. dec (enc x) = Some x" and "view s (l_key l) = Some (enc cur, r)"
    and "l_key l' = l_key l" and "0 \<le> now1" and "Release S enc dec l s = (err, s')"
  shows "err = None \<and> (if Holder cur = l_holder l
    then \<exists>s''. Acquire S enc dec l' now0 now1 s' = (Inr True, s'') else s' = s)"
proof -
  have "if Holder cur = l_holder l
      then \<exists>r' s'. Release S enc dec l s = (None, s') \<and> committed view bound invar s (l_key l) (enc (cur\<lparr>Expires := 0\<rparr>)) r' s'
      else Release S enc dec l s = (None, s)"
    by (rule reliable_store.Release_held [OF assms(1-3,5)]) (rule assms(4))
  moreover have "\<exists>s''. Acquire S enc dec l' now0 now1 s' = (Inr True, s'')"
    if "committed view bound invar s (l_key l) (enc (cur\<lparr>Expires := 0\<rparr>)) r' s'" for r'
    using reliable_store.Acquire_free [OF assms(1), of s' l' dec now1 enc now0] that assms(3,4,6,7)
    by (auto simp: committed_def lease_free_def)
  ultimately show ?thesis using assms(8) by (auto split: if_splits)
qed

theorem Release_hands_over_witness:
  "\<exists>s' s''. Release Mem_Store id Some (NewLease ''leader'' ''a'' 30)
       \<lparr>mem_entries = [(''leader'', \<lparr>e_Key = ''leader'', e_Value = \<lparr>Holder = ''a'', Expires = 130\<rparr>, e_Revision = 1\<rparr>)], mem_rev = 1\<rparr>
       = (None, s') \<and> Acquire Mem_Store id Some (NewLease ''leader'' ''b'' 30) 101 101 s' = (Inr True, s'')"
proof -
  let ?s = "\<lparr>mem_entries = [(''leader'', \<lparr>e_Key = ''leader'', e_Value = \<lparr>Holder = ''a'', Expires = 130\<rparr>, e_Revision = 1\<rparr>)], mem_rev = 1\<rparr>"
  obtain err s' where rel: "Release Mem_Store id Some (NewLease ''leader'' ''a'' 30) ?s = (err, s')" by fastforce
  have "ValidKey ''leader''" by (simp add: ValidKey_def is_alnum_def key_char_def less_eq_char_def)
  moreover have "mem_inv ?s" by (simp add: mem_inv_def)
  moreover have "mem_view ?s ''leader'' = Some (\<lparr>Holder = ''a'', Expires = 130\<rparr>, 1)" by (simp add: mem_view_def)
  ultimately have "err = None \<and> (\<exists>s''. Acquire Mem_Store id Some (NewLease ''leader'' ''b'' 30) 101 101 s' = (Inr True, s''))"
    using Release_hands_over [OF mem.reliable_store_axioms, where l = "NewLease ''leader'' ''a'' 30"
        and l' = "NewLease ''leader'' ''b'' 30" and dec = Some and enc = id and ?now0.0 = 101 and ?now1.0 = 101 and s = ?s, OF _ _ _ _ _ _ rel]
    by (auto simp: NewLease_def)
  with rel show ?thesis by blast
qed

end
