(* ===== verification/Coordinator_Data.thy ===== *)
theory Coordinator_Data
  imports Lease
begin

text \<open>
  The data of the coordinator (package \<open>pkg/coordinator\<close>): its configuration with defaults and
  checks, what it knows of its nodes, and the documents it keeps in the shared state. A document
  in the store is the value it was marshalled from, so \<open>json.Unmarshal\<close> of a document of
  another kind, or of one that is not JSON, is \<open>None\<close>.
\<close>

section \<open>Configuration\<close>

record NodeConfig =
  nc_Name :: string
  nc_URL :: string
  nc_User :: string
  nc_Password :: string

record Config =
  c_ID :: string
  c_Nodes :: "NodeConfig list"
  c_PollInterval :: duration
  c_PollTimeout :: duration
  c_FailThreshold :: int
  c_MaxLag :: u64
  c_PromoteCooldown :: duration
  c_LeaseTTL :: duration
  c_BackupInterval :: duration
  c_BackupRetry :: duration
  c_BackupRetention :: int
  c_OrphanGrace :: duration
  c_DrainTimeout :: duration
  c_VerifyInterval :: duration

datatype config_error = ErrNoNodes | ErrNodeIncomplete | ErrNodeName string | ErrNodeTwice string | ErrNoState

definition Second :: duration where "Second = 1000000000"
definition Minute :: duration where "Minute = 60 * Second"
definition Hour :: duration where "Hour = 60 * Minute"

lemmas duration_defs = Second_def Minute_def Hour_def

fun check_nodes :: "string list \<Rightarrow> NodeConfig list \<Rightarrow> config_error option" where
  "check_nodes seen [] = None"
| "check_nodes seen (n # ns) =
     (if nc_Name n = [] \<or> nc_URL n = [] then Some ErrNodeIncomplete
      else if \<not> ValidKey (nc_Name n) then Some (ErrNodeName (nc_Name n))
      else if nc_Name n \<in> set seen then Some (ErrNodeTwice (nc_Name n))
      else check_nodes (nc_Name n # seen) ns)"

definition def_dur :: "duration \<Rightarrow> duration \<Rightarrow> duration" where
  "def_dur d v = (if d = 0 then v else d)"

text \<open>\<open>hostID\<close> is the host name and process ID.\<close>

definition defaults :: "string \<Rightarrow> Config \<Rightarrow> config_error + Config" where
  "defaults hostID c =
     (if c_Nodes c = [] then Inl ErrNoNodes
      else case check_nodes [] (c_Nodes c) of
        Some err \<Rightarrow> Inl err
      | None \<Rightarrow> Inr (c\<lparr>
          c_PollInterval := def_dur (c_PollInterval c) (2 * Second),
          c_PollTimeout := def_dur (c_PollTimeout c) (3 * Second),
          c_PromoteCooldown := def_dur (c_PromoteCooldown c) Minute,
          c_LeaseTTL := def_dur (c_LeaseTTL c) (15 * Second),
          c_BackupInterval := def_dur (c_BackupInterval c) Hour,
          c_BackupRetry := def_dur (c_BackupRetry c) (5 * Minute),
          c_DrainTimeout := def_dur (c_DrainTimeout c) (10 * Minute),
          c_VerifyInterval := def_dur (c_VerifyInterval c) (24 * Hour),
          c_FailThreshold := (if c_FailThreshold c = 0 then 3 else c_FailThreshold c),
          c_MaxLag := (if c_MaxLag c = 0 then 1000 else c_MaxLag c),
          c_BackupRetention := (if c_BackupRetention c = 0 then 3 else c_BackupRetention c),
          c_OrphanGrace := def_dur (c_OrphanGrace c) (24 * Hour),
          c_ID := (if c_ID c = [] then hostID else c_ID c)\<rparr>))"

lemma check_nodes_None:
  "check_nodes seen ns = None \<longleftrightarrow>
     (\<forall>n \<in> set ns. nc_URL n \<noteq> [] \<and> ValidKey (nc_Name n) \<and> nc_Name n \<notin> set seen) \<and> distinct (map nc_Name ns)"
proof (induction seen ns rule: check_nodes.induct)
  case (2 seen n ns)
  have "\<not> ValidKey []" by (simp add: ValidKey_def)
  then show ?case using 2 by (auto simp: image_iff)
qed simp

section \<open>Nodes as the coordinator sees them\<close>

record StreamStatus =
  ss_Connected :: bool
  ss_Paused :: bool
  ss_Drained :: bool
  ss_Stream :: string
  ss_Consumer :: string
  ss_LastApplied :: u64
  ss_StreamLast :: u64
  ss_Lag :: u64
  ss_AppliedTotal :: u64
  ss_SkippedTotal :: u64
  ss_LastError :: string
  ss_LastErrorTime :: string

definition zero_StreamStatus :: StreamStatus where
  "zero_StreamStatus = \<lparr>ss_Connected = False, ss_Paused = False, ss_Drained = False, ss_Stream = [], ss_Consumer = [],
     ss_LastApplied = 0, ss_StreamLast = 0, ss_Lag = 0, ss_AppliedTotal = 0, ss_SkippedTotal = 0,
     ss_LastError = [], ss_LastErrorTime = []\<rparr>"

datatype NodeState = NodeUnknown | NodeUp | NodeLagging | NodeDegraded | NodeSuspect | NodeDown | NodeNeedsRestore

fun NodeState_string :: "NodeState \<Rightarrow> string" where
  "NodeState_string NodeUnknown = ''unknown''"
| "NodeState_string NodeUp = ''up''"
| "NodeState_string NodeLagging = ''lagging''"
| "NodeState_string NodeDegraded = ''degraded''"
| "NodeState_string NodeSuspect = ''suspect''"
| "NodeState_string NodeDown = ''down''"
| "NodeState_string NodeNeedsRestore = ''needs_restore''"

record NodeStatus =
  ns_Name :: string
  ns_URL :: string
  ns_State :: NodeState
  ns_Failures :: int
  ns_LastSeen :: time
  ns_Stream :: StreamStatus
  ns_Error :: string

section \<open>Documents of the shared state\<close>

record Cluster =
  cl_Master :: string
  cl_Epoch :: u64
  cl_ChangedAt :: time
  cl_Reason :: string

record Promotion =
  pr_Epoch :: u64
  pr_From :: string
  pr_To :: string
  pr_At :: time
  pr_Reason :: string

record Schedule =
  sc_LastAttempt :: time
  sc_LastSuccess :: time
  sc_LastError :: string

record BackupInfo =
  bi_Name :: string
  bi_Size :: int
  bi_SHA256 :: string
  bi_CreatedAt :: time
  bi_LastApplied :: u64
  bi_Indexes :: "string list"

datatype BackupStatus = BackupUploaded | BackupVerified | BackupBad

record BackupRecord =
  br_Info :: BackupInfo
  br_Node :: string
  br_UploadedAt :: time
  br_Status :: BackupStatus
  br_CheckedAt :: "time option"
  br_VerifiedAt :: "time option"
  br_Note :: string

datatype doc =
    DocLease leaseRecord
  | DocCluster Cluster
  | DocPromotion Promotion
  | DocSchedule Schedule
  | DocBackup BackupRecord
  | NotJSON

fun as_Cluster :: "doc \<Rightarrow> Cluster option" where
  "as_Cluster (DocCluster x) = Some x" | "as_Cluster _ = None"

fun as_Promotion :: "doc \<Rightarrow> Promotion option" where
  "as_Promotion (DocPromotion x) = Some x" | "as_Promotion _ = None"

fun as_Schedule :: "doc \<Rightarrow> Schedule option" where
  "as_Schedule (DocSchedule x) = Some x" | "as_Schedule _ = None"

fun as_Backup :: "doc \<Rightarrow> BackupRecord option" where
  "as_Backup (DocBackup x) = Some x" | "as_Backup _ = None"

fun as_Lease :: "doc \<Rightarrow> leaseRecord option" where
  "as_Lease (DocLease x) = Some x" | "as_Lease _ = None"

lemma as_doc_Some [simp]:
  "as_Cluster v = Some c \<longleftrightarrow> v = DocCluster c" "as_Promotion v = Some p \<longleftrightarrow> v = DocPromotion p"
  "as_Schedule v = Some s \<longleftrightarrow> v = DocSchedule s" "as_Backup v = Some b \<longleftrightarrow> v = DocBackup b"
  "as_Lease v = Some l \<longleftrightarrow> v = DocLease l"
  by (cases v; auto)+

section \<open>The coordinator\<close>

text \<open>The shared state is not part of an instance: it is an argument of its operations.\<close>

record Coordinator =
  co_cfg :: Config
  co_order :: "string list"
  co_status :: "string \<Rightarrow> NodeStatus"
  co_cluster :: Cluster
  co_leader :: bool

definition zero_Cluster :: Cluster where
  "zero_Cluster = \<lparr>cl_Master = [], cl_Epoch = 0, cl_ChangedAt = 0, cl_Reason = []\<rparr>"

definition zero_NodeStatus :: NodeStatus where
  "zero_NodeStatus = \<lparr>ns_Name = [], ns_URL = [], ns_State = NodeUnknown, ns_Failures = 0, ns_LastSeen = 0,
     ns_Stream = zero_StreamStatus, ns_Error = []\<rparr>"

definition init_status :: "NodeConfig list \<Rightarrow> string \<Rightarrow> NodeStatus" where
  "init_status ns = foldl (\<lambda>m n. m(nc_Name n := zero_NodeStatus\<lparr>ns_Name := nc_Name n, ns_URL := nc_URL n\<rparr>))
     (\<lambda>_. zero_NodeStatus) ns"

definition New :: "string \<Rightarrow> Config \<Rightarrow> config_error + Coordinator" where
  "New hostID cfg =
     (case defaults hostID cfg of
        Inl err \<Rightarrow> Inl err
      | Inr cfg' \<Rightarrow> Inr \<lparr>co_cfg = cfg', co_order = map nc_Name (c_Nodes cfg'), co_status = init_status (c_Nodes cfg'),
          co_cluster = zero_Cluster, co_leader = False\<rparr>)"

definition known_node :: "Coordinator \<Rightarrow> string \<Rightarrow> bool" where
  "known_node co name \<longleftrightarrow> name \<in> set (co_order co)"

text \<open>What \<open>New\<close> sets up and every operation keeps: the nodes are distinct, usable as keys, and each has its own status.\<close>

definition co_wf :: "Coordinator \<Rightarrow> bool" where
  "co_wf co \<longleftrightarrow> co_order co = map nc_Name (c_Nodes (co_cfg co)) \<and> co_order co \<noteq> [] \<and> distinct (co_order co) \<and>
     (\<forall>n \<in> set (co_order co). ValidKey n \<and> ns_Name (co_status co n) = n)"

lemma init_status_other: "name \<notin> nc_Name ` set ns \<Longrightarrow>
    foldl (\<lambda>m n. m(nc_Name n := zero_NodeStatus\<lparr>ns_Name := nc_Name n, ns_URL := nc_URL n\<rparr>)) f ns name = f name"
  by (induction ns arbitrary: f) auto

lemma init_status_name: "name \<in> nc_Name ` set ns \<Longrightarrow> ns_Name (init_status ns name) = name"
proof -
  have "name \<in> nc_Name ` set ns \<Longrightarrow>
    ns_Name (foldl (\<lambda>m n. m(nc_Name n := zero_NodeStatus\<lparr>ns_Name := nc_Name n, ns_URL := nc_URL n\<rparr>)) f ns name) = name" for f
  proof (induction ns arbitrary: f)
    case (Cons n ns)
    then show ?case
      by (cases "name \<in> nc_Name ` set ns") (auto simp: init_status_other fun_upd_same simp del: fun_upd_apply)
  qed simp
  then show "name \<in> nc_Name ` set ns \<Longrightarrow> ns_Name (init_status ns name) = name" by (simp add: init_status_def)
qed

lemma New_wf: "New hostID cfg = Inr co \<Longrightarrow> co_wf co"
  by (auto simp: New_def defaults_def co_wf_def check_nodes_None init_status_name split: sum.splits if_splits option.splits)

end
