(* ===== verification/Disk_Buffer.thy ===== *)
theory Disk_Buffer
  imports Prelude
begin

text \<open>
  The bounded FIFO on disk (package \<open>pkg/coordinator/buffer\<close>). The database file is a bbolt
  database, which is not part of the repository: its bucket operations are the record
  \<open>bolt\<close>, an argument of the buffer's operations, and the locale \<open>bolt_bucket\<close> says what
  is documented of them. Counters and sizes are 64-bit words as in the code, keys and counters are
  stored as eight big-endian bytes. The locale \<open>fifo\<close> is the contract of the buffer towards
  the publisher; the buffer on any bolt bucket keeps it.
\<close>

lemma unat_u64_less: "unat (n :: u64) < 2 ^ 64"
  using unsigned_less [of n] by simp

section \<open>Big-endian numbers (package encoding/binary)\<close>

fun be_bytes :: "nat \<Rightarrow> nat \<Rightarrow> bytes" where
  "be_bytes 0 n = []"
| "be_bytes (Suc k) n = char_of (n div 256 ^ k) # be_bytes k (n mod 256 ^ k)"

fun be_value :: "bytes \<Rightarrow> nat" where
  "be_value [] = 0"
| "be_value (c # cs) = of_char c * 256 ^ length cs + be_value cs"

definition PutUint64 :: "u64 \<Rightarrow> bytes" where
  "PutUint64 n = be_bytes 8 (unat n)"

definition Uint64 :: "bytes \<Rightarrow> u64" where
  "Uint64 v = of_nat (be_value (take 8 v))"

lemma length_be_bytes [simp]: "length (be_bytes k n) = k"
  by (induction k arbitrary: n) auto

lemma be_value_be_bytes: "n < 256 ^ k \<Longrightarrow> be_value (be_bytes k n) = n"
proof (induction k arbitrary: n)
  case (Suc k)
  have "n div 256 ^ k < 256" using Suc.prems by (simp add: less_mult_imp_div_less mult.commute)
  then show ?case using Suc.IH [of "n mod 256 ^ k"] by (simp add: mult.commute)
qed simp

lemma less_div_mod:
  fixes m n d :: nat
  shows "m < n \<longleftrightarrow> m div d < n div d \<or> (m div d = n div d \<and> m mod d < n mod d)"
proof (cases "m div d" "n div d" rule: linorder_cases)
  case less
  then show ?thesis using div_le_mono [of n m d] by linarith
next
  case equal
  then show ?thesis
    using div_mult_mod_eq [of m d] div_mult_mod_eq [of n d] by (metis nat_add_left_cancel_less less_irrefl)
next
  case greater
  then show ?thesis using div_le_mono [of m n d] by linarith
qed

text \<open>Byte order of the encodings is numerical order.\<close>

lemma be_bytes_less: "m < 256 ^ k \<Longrightarrow> n < 256 ^ k \<Longrightarrow> be_bytes k m < be_bytes k n \<longleftrightarrow> m < n"
proof (induction k arbitrary: m n)
  case (Suc k)
  have d: "m div 256 ^ k < 256" "n div 256 ^ k < 256"
    using Suc.prems by (simp_all add: less_mult_imp_div_less mult.commute)
  have lt: "(char_of (m div 256 ^ k) :: char) < char_of (n div 256 ^ k) \<longleftrightarrow> m div 256 ^ k < n div 256 ^ k"
    using d by (simp add: less_char_def)
  have "m < n \<longleftrightarrow> m div 256 ^ k < n div 256 ^ k \<or>
      (m div 256 ^ k = n div 256 ^ k \<and> m mod 256 ^ k < n mod 256 ^ k)"
    by (rule less_div_mod)
  then show ?case using Suc.IH [of "m mod 256 ^ k" "n mod 256 ^ k"] by (simp add: lt d)
qed simp

lemma length_PutUint64 [simp]: "length (PutUint64 n) = 8"
  by (simp add: PutUint64_def)

lemma Uint64_PutUint64 [simp]: "Uint64 (PutUint64 n) = n"
proof -
  have "unat n < 256 ^ 8" using unat_u64_less [of n] by simp
  then show ?thesis by (simp add: Uint64_def PutUint64_def be_value_be_bytes)
qed

lemma PutUint64_less: "PutUint64 m < PutUint64 n \<longleftrightarrow> m < n"
proof -
  have "unat m < 256 ^ 8" "unat n < 256 ^ 8" using unat_u64_less [of m] unat_u64_less [of n] by simp_all
  then show ?thesis by (simp add: PutUint64_def be_bytes_less word_less_nat_alt)
qed

lemma PutUint64_eq [simp]: "PutUint64 m = PutUint64 n \<longleftrightarrow> m = n"
  by (metis Uint64_PutUint64)

section \<open>The database as the buffer uses it\<close>

text \<open>
  One bucket: \<open>Get\<close>, \<open>Put\<close>, \<open>NextSequence\<close>, a cursor's \<open>First\<close>, \<open>Next\<close> after a
  key and \<open>Delete\<close>. \<open>None\<close> as the result of a write is an error.
\<close>

record 'b bolt =
  bk_Get :: "'b \<Rightarrow> bytes \<Rightarrow> bytes option"
  bk_Put :: "'b \<Rightarrow> bytes \<Rightarrow> bytes \<Rightarrow> 'b option"
  bk_NextSequence :: "'b \<Rightarrow> (u64 \<times> 'b) option"
  bk_First :: "'b \<Rightarrow> (bytes \<times> bytes) option"
  bk_Next :: "'b \<Rightarrow> bytes \<Rightarrow> (bytes \<times> bytes) option"
  bk_Delete :: "'b \<Rightarrow> bytes \<Rightarrow> 'b option"

datatype buf_error = ErrFull | ErrTooLarge | ErrNUL | ErrMaxBytes | ErrBolt

record Entry =
  ent_ID :: string
  ent_Data :: bytes

record Item =
  it_Seq :: u64
  it_Entry :: Entry

record Stats =
  stat_Count :: u64
  stat_Bytes :: u64
  stat_MaxBytes :: u64

record 'b Buffer =
  bf_items :: 'b
  bf_meta :: 'b
  bf_max :: u64

text \<open>What happens at the database during a call: the transaction begins, and it commits.\<close>

record db_io =
  io_begin :: bool
  io_commit :: bool

text \<open>\<open>db.Update\<close>: the changes of the closure are kept as a whole, or none of them.\<close>

definition db_Update :: "db_io \<Rightarrow> ('b Buffer \<Rightarrow> buf_error + 'b Buffer) \<Rightarrow> 'b Buffer \<Rightarrow> buf_error option \<times> 'b Buffer" where
  "db_Update io f q =
     (if \<not> io_begin io then (Some ErrBolt, q)
      else case f q of
        Inl err \<Rightarrow> (Some err, q)
      | Inr q' \<Rightarrow> if io_commit io then (None, q') else (Some ErrBolt, q))"

section \<open>The operations\<close>

definition itemsBucket :: bytes where "itemsBucket = ''items''"
definition metaBucket :: bytes where "metaBucket = ''meta''"
definition countKey :: bytes where "countKey = ''count''"
definition bytesKey :: bytes where "bytesKey = ''bytes''"

text \<open>\<open>Open\<close> on a file whose two buckets hold \<open>items\<close> and \<open>meta\<close> (both empty in a new file).\<close>

definition Open :: "'b \<Rightarrow> 'b \<Rightarrow> u64 \<Rightarrow> buf_error + 'b Buffer" where
  "Open items meta maxBytes =
     (if maxBytes = 0 then Inl ErrMaxBytes
      else Inr \<lparr>bf_items = items, bf_meta = meta, bf_max = maxBytes\<rparr>)"

definition encodeKey :: "u64 \<Rightarrow> bytes" where
  "encodeKey seq = PutUint64 seq"

definition encodeValue :: "Entry \<Rightarrow> bytes" where
  "encodeValue e = ent_ID e @ CHR 0x00 # ent_Data e"

definition decodeValue :: "bytes \<Rightarrow> Entry" where
  "decodeValue v = (case cut_at (CHR 0x00) v of
     (ident, data) \<Rightarrow> \<lparr>ent_ID = ident, ent_Data = (case data of None \<Rightarrow> [] | Some d \<Rightarrow> d)\<rparr>)"

definition entry_size :: "Entry \<Rightarrow> u64" where
  "entry_size e = of_nat (length (ent_ID e) + length (ent_Data e))"

definition getUint :: "'b bolt \<Rightarrow> 'b \<Rightarrow> bytes \<Rightarrow> u64" where
  "getUint B b key =
     (case bk_Get B b key of Some v \<Rightarrow> if length v = 8 then Uint64 v else 0 | None \<Rightarrow> 0)"

definition putUint :: "'b bolt \<Rightarrow> 'b \<Rightarrow> bytes \<Rightarrow> u64 \<Rightarrow> 'b option" where
  "putUint B b key n = bk_Put B b key (PutUint64 n)"

text \<open>The loop over the arguments before the transaction: the total, or why they are refused.\<close>

fun check_entries :: "u64 \<Rightarrow> u64 \<Rightarrow> Entry list \<Rightarrow> buf_error + u64" where
  "check_entries mx tot [] = Inr tot"
| "check_entries mx tot (e # es) =
     (if CHR 0x00 \<in> set (ent_ID e) then Inl ErrNUL
      else if mx < entry_size e then Inl ErrTooLarge
      else check_entries mx (tot + entry_size e) es)"

fun put_entries :: "'b bolt \<Rightarrow> 'b \<Rightarrow> Entry list \<Rightarrow> 'b option" where
  "put_entries B items [] = Some items"
| "put_entries B items (e # es) =
     (case bk_NextSequence B items of
        None \<Rightarrow> None
      | Some (seq, items1) \<Rightarrow>
          (case bk_Put B items1 (encodeKey seq) (encodeValue e) of
             None \<Rightarrow> None
           | Some items2 \<Rightarrow> put_entries B items2 es))"

definition Append :: "'b bolt \<Rightarrow> db_io \<Rightarrow> 'b Buffer \<Rightarrow> Entry list \<Rightarrow> buf_error option \<times> 'b Buffer" where
  "Append B io q entries =
     (case check_entries (bf_max q) 0 entries of
        Inl err \<Rightarrow> (Some err, q)
      | Inr tot \<Rightarrow>
          db_Update io (\<lambda>q.
            let used = getUint B (bf_meta q) bytesKey in
            if bf_max q < used + tot then Inl ErrFull
            else case put_entries B (bf_items q) entries of
                   None \<Rightarrow> Inl ErrBolt
                 | Some items \<Rightarrow>
                     (case putUint B (bf_meta q) bytesKey (used + tot) of
                        None \<Rightarrow> Inl ErrBolt
                      | Some meta1 \<Rightarrow>
                          (case putUint B meta1 countKey (getUint B meta1 countKey + of_nat (length entries)) of
                             None \<Rightarrow> Inl ErrBolt
                           | Some meta2 \<Rightarrow> Inr (q\<lparr>bf_items := items, bf_meta := meta2\<rparr>)))) q)"

fun peek_from :: "'b bolt \<Rightarrow> 'b \<Rightarrow> nat \<Rightarrow> (bytes \<times> bytes) option \<Rightarrow> Item list" where
  "peek_from B items 0 kv = []"
| "peek_from B items (Suc n) None = []"
| "peek_from B items (Suc n) (Some (k, v)) =
     \<lparr>it_Seq = Uint64 k, it_Entry = decodeValue v\<rparr> # peek_from B items n (bk_Next B items k)"

definition Peek :: "'b bolt \<Rightarrow> bool \<Rightarrow> 'b Buffer \<Rightarrow> nat \<Rightarrow> buf_error + Item list" where
  "Peek B ok q n =
     (if \<not> ok then Inl ErrBolt else Inr (peek_from B (bf_items q) n (bk_First B (bf_items q))))"

text \<open>The loop of \<open>Remove\<close> always starts over at the first key; \<open>None\<close> would be a loop without end.\<close>

partial_function (option) remove_loop ::
  "'b bolt \<Rightarrow> u64 \<Rightarrow> 'b \<Rightarrow> u64 \<Rightarrow> u64 \<Rightarrow> (buf_error + 'b \<times> u64 \<times> u64) option" where
  "remove_loop B upTo items count tot =
     (case bk_First B items of
        None \<Rightarrow> Some (Inr (items, count, tot))
      | Some kv \<Rightarrow>
          if Uint64 (fst kv) \<le> upTo then
            (case bk_Delete B items (fst kv) of
               None \<Rightarrow> Some (Inl ErrBolt)
             | Some items' \<Rightarrow> remove_loop B upTo items' (count + 1) (tot + entry_size (decodeValue (snd kv))))
          else Some (Inr (items, count, tot)))"

definition Remove_tx :: "'b bolt \<Rightarrow> 'b Buffer \<Rightarrow> buf_error + 'b \<times> u64 \<times> u64 \<Rightarrow> buf_error + 'b Buffer" where
  "Remove_tx B q res =
     (case res of
        Inl err \<Rightarrow> Inl err
      | Inr (items, count, tot) \<Rightarrow>
          if count = 0 then Inr (q\<lparr>bf_items := items\<rparr>)
          else case putUint B (bf_meta q) bytesKey (getUint B (bf_meta q) bytesKey - tot) of
                 None \<Rightarrow> Inl ErrBolt
               | Some meta1 \<Rightarrow>
                   (case putUint B meta1 countKey (getUint B meta1 countKey - count) of
                      None \<Rightarrow> Inl ErrBolt
                    | Some meta2 \<Rightarrow> Inr (q\<lparr>bf_items := items, bf_meta := meta2\<rparr>)))"

definition Remove :: "'b bolt \<Rightarrow> db_io \<Rightarrow> 'b Buffer \<Rightarrow> u64 \<Rightarrow> (buf_error option \<times> 'b Buffer) option" where
  "Remove B io q upTo =
     (case remove_loop B upTo (bf_items q) 0 0 of
        None \<Rightarrow> None
      | Some res \<Rightarrow> Some (db_Update io (\<lambda>q. Remove_tx B q res) q))"

text \<open>An error of the transaction leaves the counters of \<open>Stats\<close> at zero.\<close>

definition Stats_of :: "'b bolt \<Rightarrow> bool \<Rightarrow> 'b Buffer \<Rightarrow> Stats" where
  "Stats_of B ok q =
     (if ok then \<lparr>stat_Count = getUint B (bf_meta q) countKey, stat_Bytes = getUint B (bf_meta q) bytesKey,
                  stat_MaxBytes = bf_max q\<rparr>
      else \<lparr>stat_Count = 0, stat_Bytes = 0, stat_MaxBytes = bf_max q\<rparr>)"

lemma decodeValue_encodeValue: "CHR 0x00 \<notin> set (ent_ID e) \<Longrightarrow> decodeValue (encodeValue e) = e"
  by (simp add: decodeValue_def encodeValue_def cut_at_append)

section \<open>Sizes without wrap-around\<close>

definition nsize :: "Entry \<Rightarrow> nat" where
  "nsize e = length (ent_ID e) + length (ent_Data e)"

definition payload :: "Entry list \<Rightarrow> nat" where
  "payload es = sum_list (map nsize es)"

lemma payload_simps [simp]:
  "payload [] = 0" "payload (e # es) = nsize e + payload es" "payload (es @ fs) = payload es + payload fs"
  by (simp_all add: payload_def)

lemma unat_entry_size: "nsize e < 2 ^ 64 \<Longrightarrow> unat (entry_size e) = nsize e"
  by (simp add: entry_size_def nsize_def unat_of_nat del: of_nat_add)

lemma unat_add_u64: "unat a + unat b < 2 ^ 64 \<Longrightarrow> unat (a + b :: u64) = unat a + unat b"
  by (simp add: unat_word_ariths)

lemma unat_minus_u64: "unat (a :: u64) = m + n \<Longrightarrow> unat (a - of_nat m) = n"
proof -
  assume *: "unat a = m + n"
  have "a = of_nat (unat a)" by simp
  then have "a - of_nat m = of_nat n" by (simp add: *)
  moreover have "n < 2 ^ 64" using * unat_u64_less [of a] by linarith
  ultimately show ?thesis by (simp add: unat_of_nat)
qed

lemma check_entries_Inr:
  "check_entries mx tot es = Inr t \<Longrightarrow> unat tot + payload es < 2 ^ 64 \<Longrightarrow>
   unat t = unat tot + payload es \<and> (\<forall>e \<in> set es. CHR 0x00 \<notin> set (ent_ID e))"
proof (induction mx tot es rule: check_entries.induct)
  case (2 mx tot e es)
  have "unat (entry_size e) = nsize e" using 2(3) by (intro unat_entry_size) simp
  moreover from this have "unat (tot + entry_size e) = unat tot + nsize e"
    using 2(3) by (simp add: unat_add_u64)
  ultimately show ?case using 2 by (auto split: if_splits)
qed simp

lemma check_entries_Inl:
  "check_entries mx tot es = Inl err \<Longrightarrow> payload es < 2 ^ 64 \<Longrightarrow>
   (err = ErrNUL \<and> (\<exists>e \<in> set es. CHR 0x00 \<in> set (ent_ID e))) \<or>
   (err = ErrTooLarge \<and> (\<exists>e \<in> set es. unat mx < nsize e))"
proof (induction mx tot es rule: check_entries.induct)
  case (2 mx tot e es)
  have "unat (entry_size e) = nsize e" using 2(3) by (intro unat_entry_size) simp
  with 2 show ?case by (auto simp: word_less_nat_alt split: if_splits)
qed simp

section \<open>The contract of the buffer\<close>

text \<open>
  What the publisher relies on: a queue of entries with growing sequence numbers. An operation
  that reports an error changed nothing.
\<close>

locale fifo =
  fixes entries :: "'q \<Rightarrow> Item list"
    and append :: "db_io \<Rightarrow> 'q \<Rightarrow> Entry list \<Rightarrow> buf_error option \<times> 'q"
    and peek :: "bool \<Rightarrow> 'q \<Rightarrow> nat \<Rightarrow> buf_error + Item list"
    and remove :: "db_io \<Rightarrow> 'q \<Rightarrow> u64 \<Rightarrow> (buf_error option \<times> 'q) option"
    and count :: "bool \<Rightarrow> 'q \<Rightarrow> u64"
    and invar :: "'q \<Rightarrow> bool"
  assumes seq_sorted: "invar q \<Longrightarrow> sorted_wrt (<) (map it_Seq (entries q))"
    and seq_pos: "invar q \<Longrightarrow> i \<in> set (entries q) \<Longrightarrow> 0 < it_Seq i"
    and append_error: "append io q es = (Some err, q') \<Longrightarrow> q' = q"
    and append_entries: "invar q \<Longrightarrow> payload es < 2 ^ 63 \<Longrightarrow> append io q es = (None, q') \<Longrightarrow>
      invar q' \<and> (\<exists>added. entries q' = entries q @ added \<and> map it_Entry added = es)"
    and peek_entries: "peek True q n = Inr (take n (entries q))"
    and remove_entries: "invar q \<Longrightarrow> \<exists>err q'. remove io q upTo = Some (err, q') \<and> (err \<noteq> None \<longrightarrow> q' = q) \<and>
      (err = None \<longrightarrow> invar q' \<and> entries q' = filter (\<lambda>i. upTo < it_Seq i) (entries q))"
    and count_entries: "invar q \<Longrightarrow> unat (count True q) = length (entries q)"
begin

text \<open>Removing up to an item removes it and everything before it.\<close>

lemma filter_seq:
  "invar q \<Longrightarrow> entries q = xs @ i # ys \<Longrightarrow> filter (\<lambda>j. it_Seq i < it_Seq j) (entries q) = ys"
  using seq_sorted [of q] by (auto simp: sorted_wrt_append filter_empty_conv intro!: filter_True)

lemma count_zero: "invar q \<Longrightarrow> count True q = 0 \<longleftrightarrow> entries q = []"
  using count_entries [of q] by (metis length_0_conv unat_0 unat_eq_zero)

lemma peek_remove:
  assumes "invar q" and "entries q = xs @ i # ys"
  shows "\<exists>err q'. remove io q (it_Seq i) = Some (err, q') \<and> (err \<noteq> None \<longrightarrow> q' = q) \<and>
    (err = None \<longrightarrow> invar q' \<and> entries q' = ys)"
  using remove_entries [OF assms(1), of io "it_Seq i"] filter_seq [OF assms] by auto

end

section \<open>What is documented of a bucket\<close>

text \<open>
  \<open>kvs b\<close> are the pairs of a bucket in the byte order of their keys, \<open>sq b\<close> its sequence
  number, which only grows.
\<close>

locale bolt_bucket =
  fixes B :: "'b bolt"
    and kvs :: "'b \<Rightarrow> (bytes \<times> bytes) list"
    and sq :: "'b \<Rightarrow> u64"
  assumes kvs_sorted: "sorted_wrt (<) (map fst (kvs b))"
    and get_kvs: "bk_Get B b k = map_of (kvs b) k"
    and first_kvs: "bk_First B b = (case kvs b of [] \<Rightarrow> None | kv # _ \<Rightarrow> Some kv)"
    and next_kvs: "bk_Next B b k = (case dropWhile (\<lambda>kv. fst kv \<le> k) (kvs b) of [] \<Rightarrow> None | kv # _ \<Rightarrow> Some kv)"
    and sequence_grows: "bk_NextSequence B b = Some (n, b') \<Longrightarrow> sq b < n \<and> sq b' = n \<and> kvs b' = kvs b"
    and put_kvs: "bk_Put B b k v = Some b' \<Longrightarrow> map_of (kvs b') = (map_of (kvs b))(k \<mapsto> v) \<and> sq b' = sq b"
    and delete_kvs: "bk_Delete B b k = Some b' \<Longrightarrow> map_of (kvs b') = (map_of (kvs b))(k := None) \<and> sq b' = sq b"
begin

lemma kvs_distinct: "distinct (map fst (kvs b))"
  using kvs_sorted [of b] by (simp add: strict_sorted_iff)

lemma kvs_unique:
  assumes "sorted_wrt (<) (map fst xs)" and "map_of xs = map_of (kvs b)"
  shows "kvs b = xs"
proof -
  have d: "distinct (map fst xs)" using assms(1) by (simp add: strict_sorted_iff)
  have "set xs = set (kvs b)"
    using assms(2) d kvs_distinct [of b] by (metis map_of_eq_Some_iff subsetI subset_antisym surj_pair)
  moreover have "sorted (map fst xs)" "sorted (map fst (kvs b))"
    using assms(1) kvs_sorted [of b] by (simp_all only: strict_sorted_iff)
  moreover have "inj_on fst (set (kvs b) \<union> set (kvs b))"
    using kvs_distinct [of b] by (simp add: distinct_map)
  ultimately show ?thesis
    using map_sorted_distinct_set_unique [of fst "kvs b" xs] d kvs_distinct [of b] by metis
qed

lemma put_last:
  assumes "bk_Put B b k v = Some b'" and "\<And>k'. k' \<in> fst ` set (kvs b) \<Longrightarrow> k' < k"
  shows "kvs b' = kvs b @ [(k, v)]"
proof (rule kvs_unique)
  show "sorted_wrt (<) (map fst (kvs b @ [(k, v)]))"
    using kvs_sorted [of b] assms(2) by (auto simp: sorted_wrt_append)
  have "map_of (kvs b) k = None" using assms(2) by (force simp: map_of_eq_None_iff)
  then show "map_of (kvs b @ [(k, v)]) = map_of (kvs b')"
    unfolding put_kvs [OF assms(1), THEN conjunct1]
    by (intro ext) (simp add: map_add_def split: option.split)
qed

lemma delete_first:
  assumes "bk_Delete B b k = Some b'" and "kvs b = (k, v) # rest"
  shows "kvs b' = rest"
proof (rule kvs_unique)
  show "sorted_wrt (<) (map fst rest)" using kvs_sorted [of b] assms(2) by simp
  have "map_of rest k = None"
    using kvs_distinct [of b] assms(2) by (simp add: map_of_eq_None_iff)
  then show "map_of rest = map_of (kvs b')"
    unfolding delete_kvs [OF assms(1), THEN conjunct1] assms(2) by (intro ext) simp
qed

lemma getUint_put: "putUint B b k n = Some b' \<Longrightarrow> getUint B b' j = (if j = k then n else getUint B b j)"
  using put_kvs [of b k "PutUint64 n" b'] by (auto simp: getUint_def putUint_def get_kvs)

text \<open>
  The buffer in a database: its items in order, and the invariant that ties the counters to them
  and every sequence number to the bucket's.
\<close>

definition items_of :: "'b Buffer \<Rightarrow> Item list" where
  "items_of q = map (\<lambda>kv. \<lparr>it_Seq = Uint64 (fst kv), it_Entry = decodeValue (snd kv)\<rparr>) (kvs (bf_items q))"

definition stored :: "u64 \<Rightarrow> bytes \<times> bytes \<Rightarrow> bool" where
  "stored s kv \<longleftrightarrow> (\<exists>n e. kv = (encodeKey n, encodeValue e) \<and> 0 < n \<and> n \<le> s \<and> CHR 0x00 \<notin> set (ent_ID e))"

definition buf_inv :: "'b Buffer \<Rightarrow> bool" where
  "buf_inv q \<longleftrightarrow> list_all (stored (sq (bf_items q))) (kvs (bf_items q)) \<and>
     unat (getUint B (bf_meta q) bytesKey) = payload (map it_Entry (items_of q)) \<and>
     payload (map it_Entry (items_of q)) \<le> unat (bf_max q) \<and> unat (bf_max q) \<le> 2 ^ 63 \<and>
     unat (getUint B (bf_meta q) countKey) = length (items_of q)"

lemma stored_mono: "stored s kv \<Longrightarrow> s \<le> s' \<Longrightarrow> stored s' kv"
  by (force simp: stored_def)

lemma stored_less: "stored s kv \<Longrightarrow> s < n \<Longrightarrow> fst kv < encodeKey n"
  by (force simp: stored_def encodeKey_def PutUint64_less)

lemma put_entries_kvs:
  "put_entries B b es = Some b' \<Longrightarrow> list_all (stored (sq b)) (kvs b) \<Longrightarrow>
   \<forall>e \<in> set es. CHR 0x00 \<notin> set (ent_ID e) \<Longrightarrow>
   \<exists>added. kvs b' = kvs b @ added \<and> map (\<lambda>kv. decodeValue (snd kv)) added = es \<and> list_all (stored (sq b')) (kvs b')"
proof (induction es arbitrary: b)
  case (Cons e es)
  obtain n b1 b2 where n: "bk_NextSequence B b = Some (n, b1)"
    and b2: "bk_Put B b1 (encodeKey n) (encodeValue e) = Some b2" and rest: "put_entries B b2 es = Some b'"
    using Cons.prems(1) by (auto split: option.splits)
  note n' = sequence_grows [OF n]
  have "\<And>k. k \<in> fst ` set (kvs b1) \<Longrightarrow> k < encodeKey n"
    using n' Cons.prems(2) by (auto simp: list_all_iff dest!: stored_less)
  with b2 n' have kvs: "kvs b2 = kvs b @ [(encodeKey n, encodeValue e)]" and sq: "sq b2 = n"
    using put_last put_kvs by fastforce+
  have pos: "0 < n" using n' by (metis word_gt_0 word_not_simps(1))
  have "stored n (encodeKey n, encodeValue e)" using pos Cons.prems(3) by (auto simp: stored_def)
  then have "list_all (stored (sq b2)) (kvs b2)"
    using Cons.prems(2) n' unfolding kvs sq
    by (auto simp: list_all_iff intro: stored_mono [of "sq b"])
  from Cons.IH [OF rest this] Cons.prems(3) kvs show ?case
    by (auto simp: decodeValue_encodeValue)
qed simp

lemma kvs_bounded:
  assumes "list_all (stored s) (kvs b)"
  shows "length (kvs b) \<le> unat s"
proof -
  have "fst ` set (kvs b) \<subseteq> (\<lambda>i. encodeKey (of_nat i)) ` {1..unat s}"
  proof
    fix k assume "k \<in> fst ` set (kvs b)"
    then obtain n where "k = encodeKey n" "0 < n" "n \<le> s"
      using assms by (auto simp: list_all_iff stored_def)
    then show "k \<in> (\<lambda>i. encodeKey (of_nat i)) ` {1..unat s}"
      by (intro image_eqI [of _ _ "unat n"]) (auto simp: word_le_nat_alt word_less_nat_alt)
  qed
  then have "card (fst ` set (kvs b)) \<le> card {1..unat s}"
    by (meson card_image_le card_mono finite_atLeastAtMost finite_imageI order_trans)
  then show ?thesis using kvs_distinct [of b] by (metis card_atLeastAtMost diff_Suc_1 distinct_card length_map list.set_map)
qed

lemma db_Update_None: "db_Update io f q = (None, q') \<Longrightarrow> f q = Inr q'"
  by (auto simp: db_Update_def split: if_splits sum.splits)

lemma db_Update_Some: "db_Update io f q = (Some err, q') \<Longrightarrow> q' = q"
  by (auto simp: db_Update_def split: if_splits sum.splits)

lemma Append_Some: "Append B io q es = (Some err, q') \<Longrightarrow> q' = q"
  by (auto simp: Append_def split: sum.splits dest: db_Update_Some)

lemma buf_inv_kvs: "buf_inv q \<Longrightarrow> list_all (stored (sq (bf_items q))) (kvs (bf_items q))"
  by (simp add: buf_inv_def)

lemma Append_fits:
  assumes "buf_inv q" and "payload es < 2 ^ 63" and "check_entries (bf_max q) 0 es = Inr tot"
  shows "bf_max q < getUint B (bf_meta q) bytesKey + tot \<longleftrightarrow>
      unat (bf_max q) < payload (map it_Entry (items_of q)) + payload es"
    and "unat (getUint B (bf_meta q) bytesKey + tot) = payload (map it_Entry (items_of q)) + payload es"
proof -
  have "unat tot = payload es" using check_entries_Inr [OF assms(3)] assms(2) by simp
  then show "unat (getUint B (bf_meta q) bytesKey + tot) = payload (map it_Entry (items_of q)) + payload es"
    using assms(1,2) by (subst unat_add_u64) (simp_all add: buf_inv_def)
  then show "bf_max q < getUint B (bf_meta q) bytesKey + tot \<longleftrightarrow>
      unat (bf_max q) < payload (map it_Entry (items_of q)) + payload es"
    by (simp add: word_less_nat_alt)
qed

lemma Append_None:
  assumes inv: "buf_inv q" and small: "payload es < 2 ^ 63" and "Append B io q es = (None, q')"
  shows "buf_inv q' \<and> bf_max q' = bf_max q \<and> (\<exists>added. items_of q' = items_of q @ added \<and> map it_Entry added = es)"
proof -
  obtain tot items meta1 meta2 where tot: "check_entries (bf_max q) 0 es = Inr tot"
    and fit: "\<not> bf_max q < getUint B (bf_meta q) bytesKey + tot"
    and items: "put_entries B (bf_items q) es = Some items"
    and m1: "putUint B (bf_meta q) bytesKey (getUint B (bf_meta q) bytesKey + tot) = Some meta1"
    and m2: "putUint B meta1 countKey (getUint B meta1 countKey + of_nat (length es)) = Some meta2"
    and q': "q' = q\<lparr>bf_items := items, bf_meta := meta2\<rparr>"
    using assms(3) by (auto simp: Append_def Let_def dest!: db_Update_None split: sum.splits if_splits option.splits)
  have nul: "\<forall>e \<in> set es. CHR 0x00 \<notin> set (ent_ID e)" using check_entries_Inr [OF tot] small by simp
  obtain added where added: "kvs items = kvs (bf_items q) @ added"
    "map (\<lambda>kv. decodeValue (snd kv)) added = es" "list_all (stored (sq items)) (kvs items)"
    using put_entries_kvs [OF items buf_inv_kvs [OF inv] nul] by blast
  let ?new = "map (\<lambda>kv. \<lparr>it_Seq = Uint64 (fst kv), it_Entry = decodeValue (snd kv)\<rparr>) added"
  have new: "items_of q' = items_of q @ ?new" "map it_Entry ?new = es"
    using added by (simp_all add: items_of_def q' comp_def)
  have len: "length added = length es" using added(2) by (metis length_map)
  have keys: "bytesKey \<noteq> countKey" by (simp add: bytesKey_def countKey_def)
  have "length (items_of q) + length es < 2 ^ 64"
    using kvs_bounded [OF added(3)] unat_u64_less [of "sq items"] len by (simp add: added(1) items_of_def)
  then have "unat (getUint B meta2 countKey) = length (items_of q) + length es"
    using inv keys by (simp add: getUint_put [OF m2] getUint_put [OF m1] buf_inv_def unat_add_u64 unat_of_nat)
  moreover have "unat (getUint B meta2 bytesKey) = payload (map it_Entry (items_of q)) + payload es"
    using keys Append_fits(2) [OF inv small tot] by (simp add: getUint_put [OF m2] getUint_put [OF m1])
  moreover have "payload (map it_Entry (items_of q)) + payload es \<le> unat (bf_max q)"
    using fit Append_fits(1) [OF inv small tot] by simp
  ultimately have "buf_inv q'"
    using inv added(3) new len unfolding buf_inv_def by (simp add: q')
  with new show ?thesis by (auto simp: q')
qed

lemma peek_from_kvs:
  "peek_from B b n (case dropWhile (\<lambda>kv. fst kv \<le> k) (kvs b) of [] \<Rightarrow> None | kv # _ \<Rightarrow> Some kv) =
   map (\<lambda>kv. \<lparr>it_Seq = Uint64 (fst kv), it_Entry = decodeValue (snd kv)\<rparr>) (take n (dropWhile (\<lambda>kv. fst kv \<le> k) (kvs b)))"
proof (induction n arbitrary: k)
  case (Suc n)
  show ?case
  proof (cases "dropWhile (\<lambda>kv. fst kv \<le> k) (kvs b)")
    case (Cons kv rest)
    have kvs: "kvs b = takeWhile (\<lambda>kv. fst kv \<le> k) (kvs b) @ kv # rest"
      using Cons by (metis takeWhile_dropWhile_id)
    have s: "sorted_wrt (<) (map fst (takeWhile (\<lambda>kv. fst kv \<le> k) (kvs b) @ kv # rest))"
      using kvs_sorted [of b] kvs by metis
    have "dropWhile (\<lambda>x. fst x \<le> fst kv) (takeWhile (\<lambda>kv. fst kv \<le> k) (kvs b) @ kv # rest) = rest"
      using s by (subst dropWhile_append2) (auto simp: sorted_wrt_append not_le dropWhile_eq_self_iff hd_conv_nth)
    then have "dropWhile (\<lambda>x. fst x \<le> fst kv) (kvs b) = rest" using kvs by metis
    then show ?thesis
      using Suc [of "fst kv"] by (cases kv) (simp add: Cons next_kvs)
  qed (simp only: list.case peek_from.simps take_Nil list.map)
qed simp

lemma peek_kvs:
  "peek_from B b n (bk_First B b) =
   map (\<lambda>kv. \<lparr>it_Seq = Uint64 (fst kv), it_Entry = decodeValue (snd kv)\<rparr>) (take n (kvs b))"
proof (cases n)
  case (Suc m)
  show ?thesis
  proof (cases "kvs b")
    case (Cons kv rest)
    have "sorted_wrt (<) (map fst (kv # rest))" using kvs_sorted [of b] Cons by metis
    then have "dropWhile (\<lambda>x. fst x \<le> fst kv) (kvs b) = rest"
      by (auto simp: Cons not_le dropWhile_eq_self_iff hd_conv_nth)
    then show ?thesis
      using peek_from_kvs [of b m "fst kv"] by (cases kv) (simp add: Cons Suc first_kvs next_kvs)
  qed (simp add: Suc first_kvs)
qed simp

lemma Peek_items: "Peek B True q n = Inr (take n (items_of q))"
  by (simp add: Peek_def peek_kvs items_of_def take_map)

text \<open>\<open>Remove\<close> comes to an end, with exactly the items up to the given number gone.\<close>

lemma remove_loop_kvs:
  "\<exists>res. remove_loop B upTo b c n = Some res \<and>
     (\<forall>b' c' n'. res = Inr (b', c', n') \<longrightarrow>
        kvs b' = dropWhile (\<lambda>kv. Uint64 (fst kv) \<le> upTo) (kvs b) \<and> sq b' = sq b \<and>
        c' = c + of_nat (length (takeWhile (\<lambda>kv. Uint64 (fst kv) \<le> upTo) (kvs b))) \<and>
        n' = n + of_nat (payload (map (\<lambda>kv. decodeValue (snd kv)) (takeWhile (\<lambda>kv. Uint64 (fst kv) \<le> upTo) (kvs b)))))"
proof (induction "kvs b" arbitrary: b c n)
  case Nil
  then show ?case by (subst remove_loop.simps) (simp add: first_kvs flip: Nil)
next
  case (Cons kv rest)
  have first: "bk_First B b = Some kv" by (simp add: first_kvs flip: Cons.hyps(2))
  show ?case
  proof (cases "Uint64 (fst kv) \<le> upTo")
    case True
    show ?thesis
    proof (cases "bk_Delete B b (fst kv)")
      case None
      then show ?thesis using True by (subst remove_loop.simps) (simp add: first)
    next
      case (Some b1)
      then have b1: "kvs b1 = rest" "sq b1 = sq b"
        using delete_first [of b "fst kv" b1 "snd kv" rest] delete_kvs [OF Some] Cons.hyps(2) by simp_all
      obtain res where res: "remove_loop B upTo b1 (c + 1) (n + entry_size (decodeValue (snd kv))) = Some res"
        and *: "\<forall>b' c' n'. res = Inr (b', c', n') \<longrightarrow>
          kvs b' = dropWhile (\<lambda>kv. Uint64 (fst kv) \<le> upTo) rest \<and> sq b' = sq b1 \<and>
          c' = c + 1 + of_nat (length (takeWhile (\<lambda>kv. Uint64 (fst kv) \<le> upTo) rest)) \<and>
          n' = n + entry_size (decodeValue (snd kv)) +
            of_nat (payload (map (\<lambda>kv. decodeValue (snd kv)) (takeWhile (\<lambda>kv. Uint64 (fst kv) \<le> upTo) rest)))"
        using Cons.hyps(1) [OF b1(1) [symmetric]] b1(1) by metis
      have "remove_loop B upTo b c n = Some res"
        using True Some res by (subst remove_loop.simps) (simp add: first)
      then show ?thesis
        using * True b1(2) by (auto simp: entry_size_def nsize_def simp flip: Cons.hyps(2))
    qed
  next
    case False
    then show ?thesis by (subst remove_loop.simps) (simp add: first flip: Cons.hyps(2))
  qed
qed

lemma seqs_sorted:
  assumes "buf_inv q"
  shows "sorted_wrt (<) (map it_Seq (items_of q))" and "\<And>i. i \<in> set (items_of q) \<Longrightarrow> 0 < it_Seq i"
proof -
  have st: "\<And>kv. kv \<in> set (kvs (bf_items q)) \<Longrightarrow> \<exists>n. fst kv = PutUint64 n \<and> 0 < n"
    using buf_inv_kvs [OF assms] by (auto simp: list_all_iff stored_def encodeKey_def)
  then show "\<And>i. i \<in> set (items_of q) \<Longrightarrow> 0 < it_Seq i" by (fastforce simp: items_of_def)
  have "sorted_wrt (\<lambda>x y. fst x < fst y) (kvs (bf_items q))"
    using kvs_sorted [of "bf_items q"] by (simp add: sorted_wrt_map)
  then have "sorted_wrt (\<lambda>x y. Uint64 (fst x) < Uint64 (fst y)) (kvs (bf_items q))"
    by (rule sorted_wrt_mono_rel [rotated]) (metis st PutUint64_less Uint64_PutUint64)
  then show "sorted_wrt (<) (map it_Seq (items_of q))" by (simp add: items_of_def sorted_wrt_map comp_def)
qed

lemma filter_greater:
  "sorted_wrt (\<lambda>x y. f x < f y) xs \<Longrightarrow> filter (\<lambda>x. up < f x) xs = dropWhile (\<lambda>x. f x \<le> (up :: u64)) xs"
  by (induction xs) (auto simp: not_le dropWhile_eq_self_iff intro: ccontr dest: order.strict_trans hd_in_set)

lemma Remove_tx_inv:
  assumes inv: "buf_inv q" and tx: "Remove_tx B q (Inr (b', of_nat (length gone), of_nat (payload (map (\<lambda>kv. decodeValue (snd kv)) gone)))) = Inr q'"
    and kvs: "kvs (bf_items q) = gone @ kvs b'" and sq: "sq b' = sq (bf_items q)"
  shows "buf_inv q' \<and> bf_items q' = b' \<and> bf_max q' = bf_max q"
proof -
  let ?dec = "\<lambda>kvs. map (\<lambda>kv. decodeValue (snd kv)) kvs"
  have ent: "map it_Entry (items_of p) = ?dec (kvs (bf_items p))" "length (items_of p) = length (kvs (bf_items p))" for p
    by (simp_all add: items_of_def comp_def)
  have bf: "bf_items q' = b'" "bf_max q' = bf_max q"
    using tx by (auto simp: Remove_tx_def split: if_splits option.splits)
  have keys: "bytesKey \<noteq> countKey" by (simp add: bytesKey_def countKey_def)
  have small: "length gone < 2 ^ 64"
    using kvs_bounded [OF buf_inv_kvs [OF inv]] unat_u64_less [of "sq (bf_items q)"] by (simp add: kvs)
  have cnt: "unat (getUint B (bf_meta q) countKey) = length gone + length (kvs b')"
    "unat (getUint B (bf_meta q) bytesKey) = payload (?dec gone) + payload (?dec (kvs b'))"
    using inv by (simp_all add: buf_inv_def ent kvs)
  have meta: "unat (getUint B (bf_meta q') countKey) = length (kvs b') \<and>
    unat (getUint B (bf_meta q') bytesKey) = payload (?dec (kvs b'))"
  proof (cases "gone = []")
    case True
    then show ?thesis using tx cnt by (auto simp: Remove_tx_def)
  next
    case False
    then have "unat (of_nat (length gone) :: u64) \<noteq> 0" using small by (simp add: unat_of_nat)
    then have "(of_nat (length gone) :: u64) \<noteq> 0" by (metis unat_0)
    then obtain m1 m2 where
      m1: "putUint B (bf_meta q) bytesKey (getUint B (bf_meta q) bytesKey - of_nat (payload (?dec gone))) = Some m1"
      and m2: "putUint B m1 countKey (getUint B m1 countKey - of_nat (length gone)) = Some m2"
      and "bf_meta q' = m2"
      using tx by (auto simp: Remove_tx_def split: option.splits)
    then show ?thesis
      using keys cnt by (simp add: getUint_put [OF m2] getUint_put [OF m1] unat_minus_u64)
  qed
  moreover have "list_all (stored (sq b')) (kvs b')" using buf_inv_kvs [OF inv] by (simp add: kvs sq)
  ultimately show ?thesis using inv bf by (simp add: buf_inv_def ent kvs)
qed

lemma Remove_items:
  assumes inv: "buf_inv q"
  shows "\<exists>err q'. Remove B io q upTo = Some (err, q') \<and> (err \<noteq> None \<longrightarrow> q' = q) \<and>
    (err = None \<longrightarrow> buf_inv q' \<and> bf_max q' = bf_max q \<and> items_of q' = filter (\<lambda>i. upTo < it_Seq i) (items_of q))"
proof -
  let ?gone = "takeWhile (\<lambda>kv. Uint64 (fst kv) \<le> upTo) (kvs (bf_items q))"
  let ?kept = "dropWhile (\<lambda>kv. Uint64 (fst kv) \<le> upTo) (kvs (bf_items q))"
  obtain res where loop: "remove_loop B upTo (bf_items q) 0 0 = Some res"
    and res: "\<And>b' c' n'. res = Inr (b', c', n') \<Longrightarrow> kvs b' = ?kept \<and> sq b' = sq (bf_items q) \<and>
      c' = of_nat (length ?gone) \<and> n' = of_nat (payload (map (\<lambda>kv. decodeValue (snd kv)) ?gone))"
    using remove_loop_kvs [of upTo "bf_items q" 0 0] by auto
  have "buf_inv q' \<and> bf_max q' = bf_max q \<and> items_of q' = filter (\<lambda>i. upTo < it_Seq i) (items_of q)"
    if tx: "Remove_tx B q res = Inr q'" for q'
  proof -
    obtain b' c' n' where r: "res = Inr (b', c', n')" using tx by (auto simp: Remove_tx_def split: sum.splits)
    have q': "buf_inv q' \<and> bf_items q' = b' \<and> bf_max q' = bf_max q"
      using res [OF r] tx by (intro Remove_tx_inv [OF inv, of _ ?gone]) (simp_all add: r)
    have "items_of q' = dropWhile (\<lambda>i. it_Seq i \<le> upTo) (items_of q)"
      using res [OF r] by (simp add: items_of_def q' dropWhile_map comp_def)
    also have "\<dots> = filter (\<lambda>i. upTo < it_Seq i) (items_of q)"
      using seqs_sorted(1) [OF inv] by (intro filter_greater [symmetric]) (simp add: sorted_wrt_map)
    finally show ?thesis using q' by simp
  qed
  then show ?thesis
    by (cases "db_Update io (\<lambda>q. Remove_tx B q res) q")
      (auto simp: Remove_def loop dest: db_Update_None db_Update_Some)
qed

lemma Stats_items: "buf_inv q \<Longrightarrow> unat (stat_Count (Stats_of B True q)) = length (items_of q)"
  by (simp add: Stats_of_def buf_inv_def)

lemma Append_outcome:
  assumes inv: "buf_inv q" and small: "payload es < 2 ^ 63" and app: "Append B io q es = (err, q')"
  shows "case err of
      None \<Rightarrow> buf_inv q' \<and> map it_Entry (items_of q') = map it_Entry (items_of q) @ es \<and>
        payload (map it_Entry (items_of q')) \<le> unat (bf_max q)
    | Some e \<Rightarrow> q' = q \<and>
        (e = ErrFull \<longrightarrow> unat (bf_max q) < payload (map it_Entry (items_of q)) + payload es) \<and>
        (e = ErrTooLarge \<longrightarrow> (\<exists>x \<in> set es. unat (bf_max q) < nsize x))"
proof (cases err)
  case None
  obtain added where "buf_inv q'" "bf_max q' = bf_max q" "items_of q' = items_of q @ added" "map it_Entry added = es"
    using Append_None [OF inv small] app None by blast
  moreover from this(1) have "payload (map it_Entry (items_of q')) \<le> unat (bf_max q')"
    by (simp add: buf_inv_def)
  ultimately show ?thesis using None by simp
next
  case (Some e)
  have "unat (bf_max q) < payload (map it_Entry (items_of q)) + payload es" if full: "e = ErrFull"
  proof -
    obtain tot where tot: "check_entries (bf_max q) 0 es = Inr tot"
      using small app Some full by (cases "check_entries (bf_max q) 0 es") (auto simp: Append_def dest!: check_entries_Inl)
    then have "bf_max q < getUint B (bf_meta q) bytesKey + tot"
      using app Some full
      by (auto simp: Append_def db_Update_def Let_def split: if_splits sum.splits option.splits)
    then show ?thesis using Append_fits(1) [OF inv small tot] by simp
  qed
  moreover have "\<exists>x \<in> set es. unat (bf_max q) < nsize x" if "e = ErrTooLarge"
    using small app Some that
    by (auto simp: Append_def db_Update_def Let_def split: if_splits sum.splits option.splits dest!: check_entries_Inl)
  ultimately show ?thesis using Some app Append_Some by auto
qed

end

sublocale bolt_bucket \<subseteq> dq: fifo items_of "Append B" "Peek B" "Remove B" "\<lambda>ok q. stat_Count (Stats_of B ok q)" buf_inv
proof (unfold_locales, goal_cases)
  case (4 q es io q')
  then show ?case using Append_None by blast
next
  case (6 q io upTo)
  then show ?case using Remove_items [OF 6, of io upTo] by blast
qed (simp_all add: seqs_sorted Append_Some Peek_items Stats_items)

context bolt_bucket
begin

lemma drain_items:
  assumes "buf_inv q" and "Peek B True q n = Inr items" and "items \<noteq> []"
  shows "items = take n (items_of q) \<and>
    (\<exists>err q'. Remove B io q (it_Seq (last items)) = Some (err, q') \<and>
      (if err = None then buf_inv q' \<and> items_of q' = drop n (items_of q) else q' = q))"
proof -
  have items: "items = take n (items_of q)" using assms(2) by (simp add: Peek_items)
  then have "items_of q = (butlast items @ [last items]) @ drop n (items_of q)"
    using assms(3) by simp
  then have "items_of q = butlast items @ last items # drop n (items_of q)" by simp
  from dq.peek_remove [OF assms(1) this, of io] items show ?thesis by metis
qed

end

section \<open>A bucket to run the buffer on\<close>

text \<open>
  The smallest thing that keeps the documented behaviour: the pairs and the sequence number, put
  in order when they are read. Witnesses evaluate the buffer on it.
\<close>

type_synonym mini = "(bytes \<times> bytes) list \<times> u64"

definition mini_kvs :: "mini \<Rightarrow> (bytes \<times> bytes) list" where
  "mini_kvs b = sort_Slice (\<lambda>x y. fst x < fst y) (AList.clearjunk (fst b))"

definition mini_bolt :: "mini bolt" where
  "mini_bolt = \<lparr>
     bk_Get = (\<lambda>b. map_of (mini_kvs b)),
     bk_Put = (\<lambda>b k v. Some ((k, v) # fst b, snd b)),
     bk_NextSequence = (\<lambda>b. if snd b < snd b + 1 then Some (snd b + 1, (fst b, snd b + 1)) else None),
     bk_First = (\<lambda>b. case mini_kvs b of [] \<Rightarrow> None | kv # _ \<Rightarrow> Some kv),
     bk_Next = (\<lambda>b k. case dropWhile (\<lambda>kv. fst kv \<le> k) (mini_kvs b) of [] \<Rightarrow> None | kv # _ \<Rightarrow> Some kv),
     bk_Delete = (\<lambda>b k. Some (AList.delete k (fst b), snd b))\<rparr>"

lemma mini_kvs_sorted: "sorted_wrt (<) (map fst (mini_kvs b))"
  by (simp add: mini_kvs_def strict_sorted_iff sorted_map_sort_Slice distinct_clearjunk)

lemma map_of_mini_kvs: "map_of (mini_kvs b) = map_of (fst b)"
proof -
  have "map_of (mini_kvs b) = map_of (AList.clearjunk (fst b))"
    by (subst map_of_inject_set) (simp_all add: mini_kvs_def distinct_clearjunk)
  then show ?thesis by (simp add: map_of_clearjunk)
qed

interpretation mb: bolt_bucket mini_bolt mini_kvs snd
proof (unfold_locales, goal_cases)
  case (5 b n b')
  then show ?case by (auto simp: mini_bolt_def mini_kvs_def split: if_splits)
qed (auto simp: mini_bolt_def mini_kvs_sorted map_of_mini_kvs delete_conv')

section \<open>Properties\<close>

text \<open>
  \<open>Append\<close> is all or nothing and bounded: when it succeeds, exactly the given entries are
  behind those that were there and the payload stays within the limit; on an error the buffer is
  unchanged, and \<open>ErrFull\<close> is given only to entries that really do not fit. The 64-bit sums do
  not wrap as long as the limit is at most half the range.
\<close>
theorem Append_all_or_none:
  assumes "bolt_bucket B kvs sq" and "bolt_bucket.buf_inv B kvs sq q" and "payload es < 2 ^ 63"
    and "Append B io q es = (err, q')"
  shows "case err of
      None \<Rightarrow> bolt_bucket.buf_inv B kvs sq q' \<and>
        map it_Entry (bolt_bucket.items_of kvs q') = map it_Entry (bolt_bucket.items_of kvs q) @ es \<and>
        payload (map it_Entry (bolt_bucket.items_of kvs q')) \<le> unat (bf_max q)
    | Some e \<Rightarrow> q' = q \<and>
        (e = ErrFull \<longrightarrow> unat (bf_max q) < payload (map it_Entry (bolt_bucket.items_of kvs q)) + payload es) \<and>
        (e = ErrTooLarge \<longrightarrow> (\<exists>x \<in> set es. unat (bf_max q) < nsize x))"
  by (rule bolt_bucket.Append_outcome [OF assms])

definition mini_buffer :: "mini Buffer" where
  "mini_buffer = \<lparr>bf_items = ([], 0), bf_meta = ([], 0), bf_max = 20\<rparr>"

lemma mini_buffer_inv: "mb.buf_inv mini_buffer" "mb.items_of mini_buffer = []"
  by (simp_all add: mini_buffer_def mb.buf_inv_def mb.items_of_def getUint_def mb.get_kvs)
    (simp_all add: mini_kvs_def)

lemma mini_append:
  "fst (Append mini_bolt \<lparr>io_begin = True, io_commit = True\<rparr> mini_buffer
      [\<lparr>ent_ID = ''a'', ent_Data = ''one''\<rparr>, \<lparr>ent_ID = ''b'', ent_Data = ''two''\<rparr>]) = None"
  by (simp add: Append_def mini_buffer_def db_Update_def entry_size_def getUint_def putUint_def mini_bolt_def
      mini_kvs_def Let_def)

theorem Append_all_or_none_witness:
  "\<exists>q'. Append mini_bolt \<lparr>io_begin = True, io_commit = True\<rparr> mini_buffer
      [\<lparr>ent_ID = ''a'', ent_Data = ''one''\<rparr>, \<lparr>ent_ID = ''b'', ent_Data = ''two''\<rparr>] = (None, q') \<and>
    map it_Entry (mb.items_of q') = [\<lparr>ent_ID = ''a'', ent_Data = ''one''\<rparr>, \<lparr>ent_ID = ''b'', ent_Data = ''two''\<rparr>]"
proof -
  let ?es = "[\<lparr>ent_ID = ''a'', ent_Data = ''one''\<rparr>, \<lparr>ent_ID = ''b'', ent_Data = ''two''\<rparr>]"
  obtain err q' where app: "Append mini_bolt \<lparr>io_begin = True, io_commit = True\<rparr> mini_buffer ?es = (err, q')"
    by fastforce
  moreover from app have "err = None" using mini_append by simp
  moreover have "payload ?es < 2 ^ 63" by (simp add: nsize_def)
  ultimately show ?thesis
    using Append_all_or_none [OF mb.bolt_bucket_axioms mini_buffer_inv(1) _ app] mini_buffer_inv(2) by simp
qed

definition mini_buffer2 :: "mini Buffer" where
  "mini_buffer2 = snd (Append mini_bolt \<lparr>io_begin = True, io_commit = True\<rparr> mini_buffer
      [\<lparr>ent_ID = ''a'', ent_Data = ''one''\<rparr>, \<lparr>ent_ID = ''b'', ent_Data = ''two''\<rparr>])"

lemma mini_buffer2_inv:
  "map it_Entry (mb.items_of mini_buffer2) = [\<lparr>ent_ID = ''a'', ent_Data = ''one''\<rparr>, \<lparr>ent_ID = ''b'', ent_Data = ''two''\<rparr>]"
  "mb.buf_inv mini_buffer2"
  using mb.Append_outcome [OF mini_buffer_inv(1), where err = None] mini_append mini_buffer_inv(2)
  by (simp_all add: mini_buffer2_def nsize_def prod_eq_iff)

text \<open>
  Draining: \<open>Peek\<close> gives the oldest items in order, \<open>Remove\<close> with the sequence number of
  the last of them always returns, and takes away exactly these items (or, on an error, nothing).
\<close>
theorem Peek_Remove_drains:
  assumes "bolt_bucket B kvs sq" and "bolt_bucket.buf_inv B kvs sq q"
    and "Peek B True q n = Inr items" and "items \<noteq> []"
  shows "items = take n (bolt_bucket.items_of kvs q) \<and>
    (\<exists>err q'. Remove B io q (it_Seq (last items)) = Some (err, q') \<and>
      (if err = None then bolt_bucket.buf_inv B kvs sq q' \<and>
         bolt_bucket.items_of kvs q' = drop n (bolt_bucket.items_of kvs q)
       else q' = q))"
  by (rule bolt_bucket.drain_items [OF assms])

theorem Peek_Remove_drains_witness:
  "\<exists>items. Peek mini_bolt True mini_buffer2 1 = Inr items \<and> map it_Entry items = [\<lparr>ent_ID = ''a'', ent_Data = ''one''\<rparr>] \<and>
    (\<exists>err q'. Remove mini_bolt \<lparr>io_begin = True, io_commit = False\<rparr> mini_buffer2 (it_Seq (last items)) = Some (err, q'))"
proof -
  have items: "map it_Entry (mb.items_of mini_buffer2) = [\<lparr>ent_ID = ''a'', ent_Data = ''one''\<rparr>, \<lparr>ent_ID = ''b'', ent_Data = ''two''\<rparr>]"
    and inv: "mb.buf_inv mini_buffer2" by (rule mini_buffer2_inv)+
  then obtain i j where ij: "mb.items_of mini_buffer2 = [i, j]" "it_Entry i = \<lparr>ent_ID = ''a'', ent_Data = ''one''\<rparr>" by auto
  have peek: "Peek mini_bolt True mini_buffer2 1 = Inr [i]" using ij by (simp add: mb.Peek_items)
  from Peek_Remove_drains [OF mb.bolt_bucket_axioms inv peek, of "\<lparr>io_begin = True, io_commit = False\<rparr>"] ij peek show ?thesis by auto
qed

end
