(* ===== verification/Wire.thy ===== *)
theory Wire
  imports Prelude
begin

text \<open>
  The messages of the replication stream (package \<open>pkg/streaming/wire\<close>): kinds, envelope,
  constructors, and the validation a consumer applies to a body. A JSON object is a value of a
  type \<open>'d\<close>, \<open>None\<close> where Go has a nil map. Parsing and printing of JSON itself are the
  arguments \<open>unmarshal\<close> and \<open>marshal\<close>.
\<close>

type_synonym Kind = string
type_synonym Op = string

definition KindDoc :: Kind where "KindDoc = ''doc''"
definition KindDocs :: Kind where "KindDocs = ''docs''"
definition KindAdmin :: Kind where "KindAdmin = ''admin''"

definition OpCreateIndex :: Op where "OpCreateIndex = ''create_index''"
definition OpDeleteIndex :: Op where "OpDeleteIndex = ''delete_index''"
definition OpSetMapping :: Op where "OpSetMapping = ''set_mapping''"

lemmas wire_consts = KindDoc_def KindDocs_def KindAdmin_def OpCreateIndex_def OpDeleteIndex_def OpSetMapping_def

record 'd Doc =
  d_ID :: string
  d_Doc :: "'d option"

record 'd Message =
  m_Kind :: Kind
  m_Index :: string
  m_ID :: string
  m_Doc :: "'d option"
  m_Docs :: "'d Doc list"
  m_Op :: Op
  m_Data :: bytes

text \<open>An error is either permanent (the message can never be applied) or not.\<close>

datatype wire_error = PermanentError string | OtherError string

definition Permanent :: "string \<Rightarrow> wire_error" where
  "Permanent reason = PermanentError reason"

definition IsPermanent :: "wire_error \<Rightarrow> bool" where
  "IsPermanent err = (case err of PermanentError _ \<Rightarrow> True | OtherError _ \<Rightarrow> False)"

definition NewDoc :: "string \<Rightarrow> string \<Rightarrow> 'd option \<Rightarrow> 'd Message" where
  "NewDoc index ident doc = \<lparr>m_Kind = KindDoc, m_Index = index, m_ID = ident, m_Doc = doc, m_Docs = [], m_Op = [], m_Data = []\<rparr>"

definition NewDocs :: "string \<Rightarrow> 'd Doc list \<Rightarrow> 'd Message" where
  "NewDocs index docs = \<lparr>m_Kind = KindDocs, m_Index = index, m_ID = [], m_Doc = None, m_Docs = docs, m_Op = [], m_Data = []\<rparr>"

text \<open>\<open>raw\<close> is what \<open>json.Marshal\<close> made of the data: \<open>None\<close> for no data, \<open>Some None\<close> for an error.\<close>

definition NewAdmin :: "string \<Rightarrow> Op \<Rightarrow> bytes option option \<Rightarrow> 'd Message option" where
  "NewAdmin index op raw =
     (let m = \<lparr>m_Kind = KindAdmin, m_Index = index, m_ID = [], m_Doc = None, m_Docs = [], m_Op = op, m_Data = []\<rparr> in
      case raw of
        None \<Rightarrow> Some m
      | Some None \<Rightarrow> None
      | Some (Some d) \<Rightarrow> Some (m\<lparr>m_Data := d\<rparr>))"

fun find_empty :: "nat \<Rightarrow> 'd Doc list \<Rightarrow> nat option" where
  "find_empty i [] = None"
| "find_empty i (d # ds) = (if d_Doc d = None then Some i else find_empty (i + 1) ds)"

definition Decode :: "(bytes \<Rightarrow> 'd Message option) \<Rightarrow> bytes \<Rightarrow> wire_error + 'd Message" where
  "Decode unmarshal data =
     (case unmarshal data of
        None \<Rightarrow> Inl (Permanent ''decode message'')
      | Some m \<Rightarrow>
          if m_Kind m = KindDoc then
            if m_Index m = [] then Inl (Permanent ''document message without index'')
            else if m_Doc m = None then Inl (Permanent ''document message without doc'')
            else Inr m
          else if m_Kind m = KindDocs then
            if m_Index m = [] then Inl (Permanent ''docs message without index'')
            else if m_Docs m = [] then Inl (Permanent ''docs message without documents'')
            else (case find_empty 0 (m_Docs m) of
                    Some i \<Rightarrow> Inl (Permanent (''docs message: document '' @ FormatUint i @ '' is empty''))
                  | None \<Rightarrow> Inr m)
          else if m_Kind m = KindAdmin then
            if m_Index m = [] then Inl (Permanent ''admin message without index'')
            else if m_Op m = [] then Inl (Permanent ''admin message without op'')
            else Inr m
          else Inl (Permanent (''unknown message kind '' @ m_Kind m)))"

section \<open>Which messages a consumer accepts\<close>

definition valid_message :: "'d Message \<Rightarrow> bool" where
  "valid_message m \<longleftrightarrow> m_Index m \<noteq> [] \<and>
     (m_Kind m = KindDoc \<and> m_Doc m \<noteq> None \<or>
      m_Kind m = KindDocs \<and> m_Docs m \<noteq> [] \<and> list_all (\<lambda>d. d_Doc d \<noteq> None) (m_Docs m) \<or>
      m_Kind m = KindAdmin \<and> m_Op m \<noteq> [])"

lemma find_empty_None [simp]: "find_empty i ds = None \<longleftrightarrow> list_all (\<lambda>d. d_Doc d \<noteq> None) ds"
  by (induction i ds rule: find_empty.induct) auto

lemma Decode_Inr: "Decode unmarshal data = Inr m \<longleftrightarrow> unmarshal data = Some m \<and> valid_message m"
proof (cases "unmarshal data")
  case (Some n)
  then show ?thesis
    using find_empty_None [of 0 "m_Docs n"] by (cases "find_empty 0 (m_Docs n)")
      (auto simp: Decode_def valid_message_def wire_consts simp del: find_empty_None split: if_splits)
qed (simp add: Decode_def)

lemma Decode_Inl: "Decode unmarshal data = Inl err \<Longrightarrow> IsPermanent err"
  by (auto simp: Decode_def Permanent_def IsPermanent_def split: option.splits if_splits)

end
