(* ===== verification/Publisher.thy ===== *)
theory Publisher
  imports Disk_Buffer Wire
begin

text \<open>
  The publisher (\<open>pkg/coordinator/publisher.go\<close>): messages go to the stream directly or, while
  it is unreachable or older messages wait, through the buffer on disk. JetStream is not part of
  the repository: \<open>js_Publish\<close> is an argument, together with a value \<open>'o\<close> that decides
  what happens to one call (stored or not, acknowledged or not); the locale \<open>jetstream\<close> says
  what is documented of it. \<open>publish\<close> runs under a mutex while \<open>drain\<close> runs beside it, so
  both are split into the steps between which the other can act.
\<close>

section \<open>State\<close>

record PublisherConfig =
  cf_Subject :: string
  cf_Timeout :: duration
  cf_Retry :: duration
  cf_CongestedAt :: u64

record ('b, 'j) Publisher =
  p_js :: 'j
  p_cfg :: PublisherConfig
  p_buf :: "'b Buffer"
  p_id :: string
  p_seq :: u64
  p_wake :: bool
  p_failing :: bool
  p_published :: u64
  p_lastErr :: string
  p_lastAt :: time

datatype pub_error = ErrSubject | ErrEncode | ErrMessageTooLarge | ErrBackpressure | ErrBuffer buf_error

type_synonym ('o, 'j) js_Publish = "'o \<Rightarrow> 'j \<Rightarrow> string \<Rightarrow> bytes \<Rightarrow> string option \<times> 'j"

definition second :: duration where
  "second = 1000000000"

definition NewPublisher :: "PublisherConfig \<Rightarrow> 'j \<Rightarrow> 'b Buffer \<Rightarrow> string \<Rightarrow> pub_error + ('b, 'j) Publisher" where
  "NewPublisher cfg js buf idHex =
     (if cf_Subject cfg = [] then Inl ErrSubject
      else let cfg1 = (if cf_Timeout cfg \<le> 0 then cfg\<lparr>cf_Timeout := 5 * second\<rparr> else cfg);
               cfg2 = (if cf_Retry cfg1 \<le> 0 then cfg1\<lparr>cf_Retry := second\<rparr> else cfg1);
               cfg3 = (if cf_CongestedAt cfg2 = 0 \<or> 100 < cf_CongestedAt cfg2 then cfg2\<lparr>cf_CongestedAt := 50\<rparr> else cfg2)
           in Inr \<lparr>p_js = js, p_cfg = cfg3, p_buf = buf, p_id = idHex, p_seq = 0, p_wake = False,
                   p_failing = False, p_published = 0, p_lastErr = [], p_lastAt = 0\<rparr>)"

section \<open>Accepting messages\<close>

text \<open>The limit is zero before the first connection.\<close>

definition checkSize :: "int \<Rightarrow> bytes \<Rightarrow> pub_error option" where
  "checkSize limit data = (if 0 < limit \<and> limit < int (length data) then Some ErrMessageTooLarge else None)"

definition msgID :: "string \<Rightarrow> u64 \<Rightarrow> string" where
  "msgID ident n = ident @ ''-'' @ FormatUint (unat n)"

definition nextID :: "('b, 'j) Publisher \<Rightarrow> string \<times> ('b, 'j) Publisher" where
  "nextID p = (msgID (p_id p) (p_seq p + 1), p\<lparr>p_seq := p_seq p + 1\<rparr>)"

definition noteFailure :: "string \<Rightarrow> time \<Rightarrow> ('b, 'j) Publisher \<Rightarrow> ('b, 'j) Publisher" where
  "noteFailure err now p = p\<lparr>p_failing := True, p_lastErr := err, p_lastAt := now\<rparr>"

definition send ::
  "('o, 'j) js_Publish \<Rightarrow> 'o \<Rightarrow> string \<Rightarrow> bytes \<Rightarrow> ('b, 'j) Publisher \<Rightarrow> string option \<times> ('b, 'j) Publisher" where
  "send js_Publish oc ident data p =
     (case js_Publish oc (p_js p) ident data of
        (None, j) \<Rightarrow> (None, p\<lparr>p_js := j, p_failing := False\<rparr>)
      | (Some err, j) \<Rightarrow> (Some err, p\<lparr>p_js := j\<rparr>))"

text \<open>\<open>publish\<close> asks whether the buffer is empty, tries the stream if so, and parks the message otherwise.\<close>

definition publish_empty :: "'b bolt \<Rightarrow> bool \<Rightarrow> ('b, 'j) Publisher \<Rightarrow> bool" where
  "publish_empty B ok p \<longleftrightarrow> stat_Count (Stats_of B ok (p_buf p)) = 0"

definition publish_direct ::
  "('o, 'j) js_Publish \<Rightarrow> bool \<Rightarrow> 'o \<Rightarrow> time \<Rightarrow> string \<Rightarrow> bytes \<Rightarrow> ('b, 'j) Publisher \<Rightarrow> bool \<times> ('b, 'j) Publisher" where
  "publish_direct js_Publish connected oc now ident data p =
     (if \<not> connected then (False, noteFailure ''not connected to NATS'' now p)
      else case send js_Publish oc ident data p of
        (None, p') \<Rightarrow> (True, p'\<lparr>p_published := p_published p' + 1\<rparr>)
      | (Some err, p') \<Rightarrow> (False, noteFailure err now p'))"

definition publish_park ::
  "'b bolt \<Rightarrow> db_io \<Rightarrow> string \<Rightarrow> bytes \<Rightarrow> ('b, 'j) Publisher \<Rightarrow> pub_error option \<times> ('b, 'j) Publisher" where
  "publish_park B io ident data p =
     (case Append B io (p_buf p) [\<lparr>ent_ID = ident, ent_Data = data\<rparr>] of
        (None, q) \<Rightarrow> (None, p\<lparr>p_buf := q, p_wake := True\<rparr>)
      | (Some err, q) \<Rightarrow> (Some (if err = ErrFull then ErrBackpressure else ErrBuffer err), p\<lparr>p_buf := q\<rparr>))"

record 'o pub_env =
  en_ok :: bool
  en_connected :: bool
  en_outcome :: 'o
  en_now :: time
  en_io :: db_io

definition publish ::
  "'b bolt \<Rightarrow> ('o, 'j) js_Publish \<Rightarrow> 'o pub_env \<Rightarrow> string \<Rightarrow> bytes \<Rightarrow> ('b, 'j) Publisher \<Rightarrow>
   pub_error option \<times> ('b, 'j) Publisher" where
  "publish B js_Publish en ident data p =
     (if publish_empty B (en_ok en) p then
        (case publish_direct js_Publish (en_connected en) (en_outcome en) (en_now en) ident data p of
           (True, p') \<Rightarrow> (None, p')
         | (False, p') \<Rightarrow> publish_park B (en_io en) ident data p')
      else publish_park B (en_io en) ident data p)"

text \<open>\<open>marshal\<close> is \<open>json.Marshal\<close> of a message, \<open>limit\<close> the server's payload limit.\<close>

definition Publish ::
  "'b bolt \<Rightarrow> ('o, 'j) js_Publish \<Rightarrow> ('d Message \<Rightarrow> bytes option) \<Rightarrow> int \<Rightarrow> 'o pub_env \<Rightarrow> 'd Message \<Rightarrow>
   ('b, 'j) Publisher \<Rightarrow> pub_error option \<times> ('b, 'j) Publisher" where
  "Publish B js_Publish marshal limit en m p =
     (case marshal m of
        None \<Rightarrow> (Some ErrEncode, p)
      | Some data \<Rightarrow>
          (case checkSize limit data of
             Some err \<Rightarrow> (Some err, p)
           | None \<Rightarrow> (case nextID p of (ident, p') \<Rightarrow> publish B js_Publish en ident data p')))"

fun stamp :: "string \<Rightarrow> nat \<Rightarrow> 'd Doc list \<Rightarrow> 'd Doc list" where
  "stamp ident i [] = []"
| "stamp ident i (d # ds) =
     (if d_ID d = [] then d\<lparr>d_ID := ident @ ''-'' @ FormatUint i\<rparr> else d) # stamp ident (i + 1) ds"

definition PublishDocs ::
  "'b bolt \<Rightarrow> ('o, 'j) js_Publish \<Rightarrow> ('d Message \<Rightarrow> bytes option) \<Rightarrow> int \<Rightarrow> 'o pub_env \<Rightarrow> string \<Rightarrow> 'd Doc list \<Rightarrow>
   ('b, 'j) Publisher \<Rightarrow> pub_error option \<times> ('b, 'j) Publisher" where
  "PublishDocs B js_Publish marshal limit en index docs p =
     (case nextID p of (ident, p') \<Rightarrow>
        (case marshal (NewDocs index (stamp ident 0 docs)) of
           None \<Rightarrow> (Some ErrEncode, p')
         | Some data \<Rightarrow>
             (case checkSize limit data of
                Some err \<Rightarrow> (Some err, p')
              | None \<Rightarrow> publish B js_Publish en ident data p')))"

section \<open>Draining the buffer\<close>

text \<open>
  One item of the batch: sent, or the pass ends. \<open>lst\<close> is the sequence number of the last item
  that was sent, 0 for none.
\<close>

definition drain_send ::
  "('o, 'j) js_Publish \<Rightarrow> 'o \<Rightarrow> time \<Rightarrow> Item \<Rightarrow> ('b, 'j) Publisher \<Rightarrow> bool \<times> ('b, 'j) Publisher" where
  "drain_send js_Publish oc now it p =
     (case send js_Publish oc (ent_ID (it_Entry it)) (ent_Data (it_Entry it)) p of
        (None, p') \<Rightarrow> (True, p'\<lparr>p_published := p_published p' + 1\<rparr>)
      | (Some err, p') \<Rightarrow> (False, noteFailure err now p'))"

fun drain_items ::
  "('o, 'j) js_Publish \<Rightarrow> (Item \<Rightarrow> 'o) \<Rightarrow> time \<Rightarrow> Item list \<Rightarrow> u64 \<Rightarrow> ('b, 'j) Publisher \<Rightarrow> bool \<times> u64 \<times> ('b, 'j) Publisher" where
  "drain_items js_Publish oc now [] lst p = (True, lst, p)"
| "drain_items js_Publish oc now (it # its) lst p =
     (case drain_send js_Publish (oc it) now it p of
        (True, p') \<Rightarrow> drain_items js_Publish oc now its (it_Seq it) p'
      | (False, p') \<Rightarrow> (False, lst, p'))"

definition drain_remove ::
  "'b bolt \<Rightarrow> db_io \<Rightarrow> bool \<Rightarrow> time \<Rightarrow> u64 \<Rightarrow> ('b, 'j) Publisher \<Rightarrow> (bool \<times> ('b, 'j) Publisher) option" where
  "drain_remove B io complete now lst p =
     (case Remove B io (p_buf p) lst of
        None \<Rightarrow> None
      | Some (None, q) \<Rightarrow> Some (complete, p\<lparr>p_buf := q\<rparr>)
      | Some (Some err, q) \<Rightarrow> Some (False, if complete then noteFailure ''buffer'' now (p\<lparr>p_buf := q\<rparr>) else p\<lparr>p_buf := q\<rparr>))"

text \<open>The whole of \<open>drain\<close> when nobody else acts; \<open>None\<close> is a loop that does not end.\<close>

partial_function (option) drain ::
  "'b bolt \<Rightarrow> ('o, 'j) js_Publish \<Rightarrow> (Item \<Rightarrow> 'o) \<Rightarrow> bool \<Rightarrow> db_io \<Rightarrow> time \<Rightarrow> ('b, 'j) Publisher \<Rightarrow> ('b, 'j) Publisher option" where
  "drain B js_Publish oc ok io now p =
     (case Peek B ok (p_buf p) 64 of
        Inl err \<Rightarrow> Some (noteFailure ''buffer'' now p)
      | Inr items \<Rightarrow>
          if items = [] then Some p
          else case drain_items js_Publish oc now items 0 p of
            (complete, lst, p1) \<Rightarrow>
              if \<not> complete \<and> lst = 0 then Some p1
              else (case drain_remove B io complete now lst p1 of
                      None \<Rightarrow> None
                    | Some res \<Rightarrow> if fst res then drain B js_Publish oc ok io now (snd res) else Some (snd res)))"

section \<open>Health\<close>

record PublisherHealth =
  h_Connected :: bool
  h_Failing :: bool
  h_Congested :: bool
  h_Buffered :: u64
  h_BufferedBytes :: u64
  h_BufferMax :: u64
  h_Published :: u64
  h_LastError :: string
  h_LastErrorTime :: time

definition Health :: "'b bolt \<Rightarrow> bool \<Rightarrow> bool \<Rightarrow> ('b, 'j) Publisher \<Rightarrow> PublisherHealth" where
  "Health B ok connected p =
     (let st = Stats_of B ok (p_buf p);
          h = \<lparr>h_Connected = connected, h_Failing = p_failing p,
               h_Congested = (stat_MaxBytes st * cf_CongestedAt (p_cfg p) \<le> stat_Bytes st * 100),
               h_Buffered = stat_Count st, h_BufferedBytes = stat_Bytes st, h_BufferMax = stat_MaxBytes st,
               h_Published = p_published p, h_LastError = [], h_LastErrorTime = 0\<rparr>
      in if p_lastErr p \<noteq> [] \<and> (h_Failing h \<or> 0 < h_Buffered h)
         then h\<lparr>h_LastError := p_lastErr p, h_LastErrorTime := p_lastAt p\<rparr> else h)"

section \<open>Publishing and draining side by side\<close>

text \<open>
  \<open>PLocked\<close>: a call holds the mutex; \<open>PDirect\<close>: it found the buffer empty; \<open>PPark\<close>: it is
  about to append. \<open>DSending\<close>: the drain loop holds a batch of which \<open>rest\<close> is still to be
  sent. \<open>ps_accepted\<close> is the history of the messages for which \<open>Publish\<close> returned nil.
\<close>

datatype pub_phase = PIdle | PLocked string bytes | PDirect string bytes | PPark string bytes
datatype drain_phase = DIdle | DSending "Item list" u64

record ('b, 'j) pub_sys =
  ps_p :: "('b, 'j) Publisher"
  ps_pub :: pub_phase
  ps_drain :: drain_phase
  ps_accepted :: "(string \<times> bytes) list"

definition msg_of :: "Item \<Rightarrow> string \<times> bytes" where
  "msg_of i = (ent_ID (it_Entry i), ent_Data (it_Entry i))"

definition waiting :: "('b \<Rightarrow> (bytes \<times> bytes) list) \<Rightarrow> ('b, 'j) Publisher \<Rightarrow> (string \<times> bytes) list" where
  "waiting kvs p = map msg_of (bolt_bucket.items_of kvs (p_buf p))"

inductive pub_step ::
  "'b bolt \<Rightarrow> ('b \<Rightarrow> (bytes \<times> bytes) list) \<Rightarrow> ('o, 'j) js_Publish \<Rightarrow> ('j \<Rightarrow> (string \<times> bytes) list) \<Rightarrow>
   ('b, 'j) pub_sys \<Rightarrow> ('b, 'j) pub_sys \<Rightarrow> bool"
  for B :: "'b bolt" and kvs and js_Publish :: "('o, 'j) js_Publish" and js_log where
  lock: "ps_pub c = PIdle \<Longrightarrow> p_seq (ps_p c) < p_seq (ps_p c) + 1 \<Longrightarrow> nextID (ps_p c) = (ident, p') \<Longrightarrow>
    length ident + length data < 2 ^ 63 \<Longrightarrow>
    pub_step B kvs js_Publish js_log c (c\<lparr>ps_p := p', ps_pub := PLocked ident data\<rparr>)"
| check_empty: "ps_pub c = PLocked ident data \<Longrightarrow> publish_empty B True (ps_p c) \<Longrightarrow>
    pub_step B kvs js_Publish js_log c (c\<lparr>ps_pub := PDirect ident data\<rparr>)"
| check_waiting: "ps_pub c = PLocked ident data \<Longrightarrow> \<not> publish_empty B True (ps_p c) \<Longrightarrow>
    pub_step B kvs js_Publish js_log c (c\<lparr>ps_pub := PPark ident data\<rparr>)"
| direct_ok: "ps_pub c = PDirect ident data \<Longrightarrow>
    publish_direct js_Publish connected oc now ident data (ps_p c) = (True, p') \<Longrightarrow>
    pub_step B kvs js_Publish js_log c
      (c\<lparr>ps_p := p', ps_pub := PIdle, ps_accepted := ps_accepted c @ [(ident, data)]\<rparr>)"
| direct_fail: "ps_pub c = PDirect ident data \<Longrightarrow>
    publish_direct js_Publish connected oc now ident data (ps_p c) = (False, p') \<Longrightarrow>
    pub_step B kvs js_Publish js_log c (c\<lparr>ps_p := p', ps_pub := PPark ident data\<rparr>)"
| park: "ps_pub c = PPark ident data \<Longrightarrow> publish_park B io ident data (ps_p c) = (err, p') \<Longrightarrow>
    pub_step B kvs js_Publish js_log c (c\<lparr>ps_p := p', ps_pub := PIdle,
      ps_accepted := (if err = None then ps_accepted c @ [(ident, data)] else ps_accepted c)\<rparr>)"
| drain_peek: "ps_drain c = DIdle \<Longrightarrow> Peek B True (p_buf (ps_p c)) 64 = Inr items \<Longrightarrow> items \<noteq> [] \<Longrightarrow>
    pub_step B kvs js_Publish js_log c (c\<lparr>ps_drain := DSending items 0\<rparr>)"
| drain_sent: "ps_drain c = DSending (it # rest) lst \<Longrightarrow> drain_send js_Publish oc now it (ps_p c) = (True, p') \<Longrightarrow>
    pub_step B kvs js_Publish js_log c (c\<lparr>ps_p := p', ps_drain := DSending rest (it_Seq it)\<rparr>)"
| drain_failed: "ps_drain c = DSending (it # rest) lst \<Longrightarrow> drain_send js_Publish oc now it (ps_p c) = (False, p') \<Longrightarrow>
    pub_step B kvs js_Publish js_log c (c\<lparr>ps_p := p', ps_drain := (if lst = 0 then DIdle else DSending [] lst)\<rparr>)"
| drain_removed: "ps_drain c = DSending [] lst \<Longrightarrow> drain_remove B io complete now lst (ps_p c) = Some (again, p') \<Longrightarrow>
    pub_step B kvs js_Publish js_log c (c\<lparr>ps_p := p', ps_drain := DIdle\<rparr>)"
| foreign: "js_log j = js_log (p_js (ps_p c)) @ [(ident, data)] \<Longrightarrow>
    ident \<notin> fst ` set (js_log (p_js (ps_p c)) @ waiting kvs (ps_p c)) \<Longrightarrow> (\<And>n. ident \<noteq> msgID (p_id (ps_p c)) n) \<Longrightarrow>
    pub_step B kvs js_Publish js_log c (c\<lparr>ps_p := (ps_p c)\<lparr>p_js := j\<rparr>\<rparr>)"

definition pub_start :: "('b, 'j) Publisher \<Rightarrow> ('b, 'j) pub_sys" where
  "pub_start p = \<lparr>ps_p = p, ps_pub = PIdle, ps_drain = DIdle, ps_accepted = []\<rparr>"

inductive pub_reach ::
  "'b bolt \<Rightarrow> ('b \<Rightarrow> (bytes \<times> bytes) list) \<Rightarrow> ('o, 'j) js_Publish \<Rightarrow> ('j \<Rightarrow> (string \<times> bytes) list) \<Rightarrow>
   ('b, 'j) Publisher \<Rightarrow> ('b, 'j) pub_sys \<Rightarrow> bool"
  for B :: "'b bolt" and kvs and js_Publish :: "('o, 'j) js_Publish" and js_log and p where
  pub_reach_start: "pub_reach B kvs js_Publish js_log p (pub_start p)"
| pub_reach_step: "pub_reach B kvs js_Publish js_log p c \<Longrightarrow> pub_step B kvs js_Publish js_log c c' \<Longrightarrow>
    pub_reach B kvs js_Publish js_log p c'"

section \<open>First occurrences\<close>

text \<open>A stream may hold a message twice; what counts is where it is first.\<close>

definition firsts :: "'a list \<Rightarrow> 'a list" where
  "firsts xs = rev (remdups (rev xs))"

lemma firsts_Nil [simp]: "firsts [] = []"
  by (simp add: firsts_def)

lemma firsts_snoc: "firsts (xs @ [x]) = (if x \<in> set xs then firsts xs else firsts xs @ [x])"
  by (simp add: firsts_def)

lemma set_firsts [simp]: "set (firsts xs) = set xs"
  by (simp add: firsts_def)

lemma distinct_firsts [simp]: "distinct (firsts xs)"
  by (simp add: firsts_def)

lemma firsts_append: "firsts (xs @ ys) = firsts xs @ filter (\<lambda>y. y \<notin> set xs) (firsts ys)"
proof (induction ys rule: rev_induct)
  case (snoc y ys)
  have "firsts (xs @ ys @ [y]) = (if y \<in> set xs \<union> set ys then firsts (xs @ ys) else firsts (xs @ ys) @ [y])"
    using firsts_snoc [of "xs @ ys" y] by simp
  then show ?case by (simp add: snoc firsts_snoc)
qed simp

lemma firsts_Cons: "firsts (x # xs) = x # filter (\<lambda>y. y \<noteq> x) (firsts xs)"
  using firsts_append [of "[x]" xs] firsts_snoc [of "[]" x] by simp

text \<open>Sending the first message that is not in the stream yet, or one that is, keeps the order.\<close>

lemma firsts_send:
  assumes "set sent \<subseteq> set log"
  shows "firsts ((log @ [x]) @ sent @ x # ys) = firsts (log @ sent @ x # ys)"
  using assms
  by (auto simp: firsts_append firsts_Cons firsts_snoc filter_empty_conv subset_iff intro!: filter_cong)

lemma firsts_remove:
  "set sent \<subseteq> set log \<Longrightarrow> firsts (log @ sent @ ys) = firsts (log @ ys)"
  by (auto simp: firsts_append filter_empty_conv subset_iff intro!: filter_cong)

section \<open>What is documented of the stream\<close>

text \<open>
  \<open>js_log\<close> is every message ever stored, in order. A call stores its message once or not at
  all, and an acknowledgement means that a message with this ID is stored. Whether the server
  still recognises an ID it has seen depends on its window and is left open. A message that is
  stored after its call gave up is on the same connection as the next call and is stored before
  it, so it counts as stored during the call.
\<close>

locale jetstream =
  fixes js_Publish :: "('o, 'j) js_Publish"
    and js_log :: "'j \<Rightarrow> (string \<times> bytes) list"
  assumes js_stores: "js_Publish oc j i d = (res, j') \<Longrightarrow> js_log j' = js_log j \<or> js_log j' = js_log j @ [(i, d)]"
    and js_acked: "js_Publish oc j i d = (None, j') \<Longrightarrow> i \<in> fst ` set (js_log j')"

locale publisher = bolt_bucket B kvs sq + jetstream js_Publish js_log
  for B :: "'b bolt" and kvs and sq and js_Publish :: "('o, 'j) js_Publish" and js_log
begin

abbreviation log_of :: "('b, 'j) Publisher \<Rightarrow> (string \<times> bytes) list" where
  "log_of p \<equiv> js_log (p_js p)"

definition fresh_ids :: "('b, 'j) Publisher \<Rightarrow> bool" where
  "fresh_ids p \<longleftrightarrow> (\<forall>n. p_seq p < n \<longrightarrow> msgID (p_id p) n \<notin> fst ` set (log_of p @ waiting kvs p))"

text \<open>The order of acceptance: first occurrences in the stream, then the buffer.\<close>

definition in_order :: "('b, 'j) Publisher \<Rightarrow> (string \<times> bytes) list \<Rightarrow> bool" where
  "in_order p acc \<longleftrightarrow> filter (\<lambda>m. m \<in> set acc) (firsts (log_of p @ waiting kvs p)) = acc"

fun phase_inv :: "('b, 'j) Publisher \<Rightarrow> (string \<times> bytes) list \<Rightarrow> pub_phase \<Rightarrow> bool" where
  "phase_inv p acc PIdle \<longleftrightarrow> True"
| "phase_inv p acc (PLocked i d) \<longleftrightarrow> i \<notin> fst ` set (log_of p @ waiting kvs p) \<and> i = msgID (p_id p) (p_seq p) \<and> length i + length d < 2 ^ 63"
| "phase_inv p acc (PDirect i d) \<longleftrightarrow> waiting kvs p = [] \<and> i \<notin> fst ` set (log_of p) \<and> i = msgID (p_id p) (p_seq p) \<and> length i + length d < 2 ^ 63"
| "phase_inv p acc (PPark i d) \<longleftrightarrow> i = msgID (p_id p) (p_seq p) \<and> length i + length d < 2 ^ 63 \<and>
     (i \<notin> fst ` set (log_of p @ waiting kvs p) \<or>
      (waiting kvs p = [] \<and> (\<exists>xs ys. firsts (log_of p) = xs @ (i, d) # ys \<and> (i, d) \<notin> set acc \<and> set ys \<inter> set acc = {})))"

fun drain_inv :: "('b, 'j) Publisher \<Rightarrow> drain_phase \<Rightarrow> bool" where
  "drain_inv p DIdle \<longleftrightarrow> True"
| "drain_inv p (DSending rest lst) \<longleftrightarrow> (\<exists>sent later. items_of (p_buf p) = sent @ rest @ later \<and> sent @ rest \<noteq> [] \<and>
     msg_of ` set sent \<subseteq> set (log_of p) \<and>
     lst = (if sent = [] then 0 else it_Seq (last sent)))"

definition pub_inv :: "('b, 'j) pub_sys \<Rightarrow> bool" where
  "pub_inv c \<longleftrightarrow> buf_inv (p_buf (ps_p c)) \<and> fresh_ids (ps_p c) \<and>
     inj_on fst (set (log_of (ps_p c) @ waiting kvs (ps_p c))) \<and> in_order (ps_p c) (ps_accepted c) \<and>
     phase_inv (ps_p c) (ps_accepted c) (ps_pub c) \<and> drain_inv (ps_p c) (ps_drain c)"

text \<open>What one call of the stream may have done.\<close>

definition sent_msg :: "bool \<Rightarrow> string \<Rightarrow> bytes \<Rightarrow> ('b, 'j) Publisher \<Rightarrow> ('b, 'j) Publisher \<Rightarrow> bool" where
  "sent_msg ok i d p p' \<longleftrightarrow> p_buf p' = p_buf p \<and> p_id p' = p_id p \<and> p_seq p' = p_seq p \<and>
     (log_of p' = log_of p \<or> log_of p' = log_of p @ [(i, d)]) \<and> (ok \<longrightarrow> i \<in> fst ` set (log_of p'))"

lemma sent_send: "send js_Publish oc i d p = (res, p') \<Longrightarrow> sent_msg (res = None) i d p p'"
  using js_stores js_acked by (fastforce simp: send_def sent_msg_def split: prod.splits option.splits)

lemma sent_direct:
  assumes "publish_direct js_Publish connected oc now i d p = (ok, p')"
  shows "sent_msg ok i d p p'"
proof -
  obtain res p1 where "send js_Publish oc i d p = (res, p1)" by fastforce
  with sent_send [OF this] assms show ?thesis
    by (auto simp: publish_direct_def noteFailure_def sent_msg_def split: if_splits option.splits)
qed

lemma sent_drain:
  assumes "drain_send js_Publish oc now it p = (ok, p')"
  shows "sent_msg ok (ent_ID (it_Entry it)) (ent_Data (it_Entry it)) p p'"
proof -
  obtain res p1 where "send js_Publish oc (ent_ID (it_Entry it)) (ent_Data (it_Entry it)) p = (res, p1)" by fastforce
  with sent_send [OF this] assms show ?thesis
    by (auto simp: drain_send_def noteFailure_def sent_msg_def split: option.splits)
qed

lemma msgID_inj [simp]: "msgID ident m = msgID ident n \<longleftrightarrow> m = n"
  by (simp add: msgID_def FormatUint_inj word_unat_eq_iff)

lemma waiting_cong: "p_buf p' = p_buf p \<Longrightarrow> waiting kvs p' = waiting kvs p"
  by (simp add: waiting_def)

lemma accepted_stored: "in_order p acc \<Longrightarrow> set acc \<subseteq> set (log_of p @ waiting kvs p)"
  unfolding in_order_def by (metis (no_types, lifting) filter_is_subset set_firsts)

lemma drain_inv_mono:
  "drain_inv p ph \<Longrightarrow> p_buf p' = p_buf p \<Longrightarrow> set (log_of p) \<subseteq> set (log_of p') \<Longrightarrow> drain_inv p' ph"
  by (cases ph) fastforce+

lemma drain_inv_waiting: "drain_inv p (DSending rest lst) \<Longrightarrow> waiting kvs p \<noteq> []"
  by (auto simp: waiting_def)

text \<open>The steps of \<open>publish\<close>.\<close>

lemma inv_lock:
  assumes "pub_inv c" and "p_seq (ps_p c) < p_seq (ps_p c) + 1"
    and "nextID (ps_p c) = (i, p')" and "length i + length d < 2 ^ 63"
  shows "pub_inv (c\<lparr>ps_p := p', ps_pub := PLocked i d\<rparr>)"
proof -
  have p': "p' = (ps_p c)\<lparr>p_seq := p_seq (ps_p c) + 1\<rparr>" "i = msgID (p_id (ps_p c)) (p_seq (ps_p c) + 1)"
    using assms(3) by (auto simp: nextID_def)
  moreover have "waiting kvs p' = waiting kvs (ps_p c)" by (simp add: p' waiting_def)
  moreover have "drain_inv p' (ps_drain c)"
    using assms(1) by (auto simp: pub_inv_def p' intro: drain_inv_mono)
  ultimately show ?thesis
    using assms(1,2,4) by (auto simp: pub_inv_def fresh_ids_def in_order_def dest: order.strict_trans)
qed

lemma inv_check:
  assumes "pub_inv c" and "ps_pub c = PLocked i d"
  shows "publish_empty B True (ps_p c) \<Longrightarrow> pub_inv (c\<lparr>ps_pub := PDirect i d\<rparr>)"
    and "pub_inv (c\<lparr>ps_pub := PPark i d\<rparr>)"
  using assms dq.count_zero [of "p_buf (ps_p c)"]
  by (auto simp: pub_inv_def publish_empty_def waiting_def)

lemma in_order_snoc:
  assumes "in_order p acc" and "m \<notin> set (log_of p @ waiting kvs p)"
    and "log_of p' @ waiting kvs p' = (log_of p @ waiting kvs p) @ [m]"
  shows "in_order p' (acc @ [m])" and "in_order p' acc"
proof -
  have "m \<notin> set acc" using accepted_stored [OF assms(1)] assms(2) by blast
  moreover have "filter (\<lambda>x. x = m \<or> x \<in> set acc) (firsts (log_of p @ waiting kvs p)) =
      filter (\<lambda>x. x \<in> set acc) (firsts (log_of p @ waiting kvs p))"
    using assms(2) by (intro filter_cong) auto
  ultimately show "in_order p' (acc @ [m])" "in_order p' acc"
    using assms(1,2) unfolding in_order_def assms(3) firsts_snoc by auto
qed

lemma inv_direct:
  assumes inv: "pub_inv c" and ph: "ps_pub c = PDirect i d" and sent: "sent_msg ok i d (ps_p c) p'"
  shows "ok \<Longrightarrow> pub_inv (c\<lparr>ps_p := p', ps_pub := PIdle, ps_accepted := ps_accepted c @ [(i, d)]\<rparr>)"
    and "\<not> ok \<Longrightarrow> pub_inv (c\<lparr>ps_p := p', ps_pub := PPark i d\<rparr>)"
proof -
  note i = inv [unfolded pub_inv_def ph phase_inv.simps]
  have w: "waiting kvs (ps_p c) = []" "waiting kvs p' = []" using i sent by (auto simp: sent_msg_def waiting_def)
  have new: "(i, d) \<notin> set (log_of (ps_p c) @ waiting kvs (ps_p c))" using i by force
  have ord: "in_order (ps_p c) (ps_accepted c)" using i by simp
  have acc: "(i, d) \<notin> set (ps_accepted c)" using accepted_stored [OF ord] new by blast
  have dr: "drain_inv p' (ps_drain c)" using i sent by (auto simp: sent_msg_def intro: drain_inv_mono)
  have s: "p_buf p' = p_buf (ps_p c)" "p_id p' = p_id (ps_p c)" "p_seq p' = p_seq (ps_p c)" using sent by (auto simp: sent_msg_def)
  show "pub_inv (c\<lparr>ps_p := p', ps_pub := PIdle, ps_accepted := ps_accepted c @ [(i, d)]\<rparr>)" if ok
  proof -
    have log: "log_of p' = log_of (ps_p c) @ [(i, d)]" using sent i that by (auto simp: sent_msg_def)
    have "in_order p' (ps_accepted c @ [(i, d)])" by (rule in_order_snoc(1) [OF ord new]) (simp add: log w)
    then show ?thesis using i dr by (auto simp: pub_inv_def s log w fresh_ids_def)
  qed
  show "pub_inv (c\<lparr>ps_p := p', ps_pub := PPark i d\<rparr>)" if "\<not> ok"
  proof (cases "log_of p' = log_of (ps_p c)")
    case True
    then show ?thesis using i dr by (elim conjE) (simp add: pub_inv_def s w fresh_ids_def in_order_def)
  next
    case False
    then have log: "log_of p' = log_of (ps_p c) @ [(i, d)]" using sent by (auto simp: sent_msg_def)
    have "in_order p' (ps_accepted c)" by (rule in_order_snoc(2) [OF ord new]) (simp add: log w)
    moreover have "firsts (log_of p') = firsts (log_of (ps_p c)) @ (i, d) # []"
      using new by (simp add: log w firsts_snoc)
    then have "\<exists>xs ys. firsts (log_of p') = xs @ (i, d) # ys \<and> set ys \<inter> set (ps_accepted c) = {}"
      by (intro exI [of _ "firsts (log_of (ps_p c))"] exI [of _ "[]"]) simp
    moreover have "fresh_ids p'" "inj_on fst (set (log_of p' @ waiting kvs p'))"
      using i by (auto simp: fresh_ids_def s log w)
    moreover have "length (msgID (p_id (ps_p c)) (p_seq (ps_p c))) + length d < 2 ^ 63" using i by metis
    ultimately show ?thesis using i dr acc by (simp add: pub_inv_def s w)
  qed
qed

lemma park_buffer:
  assumes "publish_park B io i d p = (err, p')" and "buf_inv (p_buf p)" and "length i + length d < 2 ^ 63"
  shows "p_js p' = p_js p \<and> p_id p' = p_id p \<and> p_seq p' = p_seq p \<and> buf_inv (p_buf p') \<and>
    (\<exists>added. items_of (p_buf p') = items_of (p_buf p) @ added) \<and>
    waiting kvs p' = (if err = None then waiting kvs p @ [(i, d)] else waiting kvs p)"
proof -
  obtain e q where app: "Append B io (p_buf p) [\<lparr>ent_ID = i, ent_Data = d\<rparr>] = (e, q)" by fastforce
  show ?thesis
  proof (cases e)
    case None
    have "payload [\<lparr>ent_ID = i, ent_Data = d\<rparr>] < 2 ^ 63" using assms(3) by (simp add: nsize_def)
    from dq.append_entries [OF assms(2) this app [unfolded None]] obtain added where
      q: "buf_inv q" "items_of q = items_of (p_buf p) @ added" "map it_Entry added = [\<lparr>ent_ID = i, ent_Data = d\<rparr>]"
      by auto
    then obtain it where "added = [it]" "it_Entry it = \<lparr>ent_ID = i, ent_Data = d\<rparr>" by auto
    with q app None assms(1) show ?thesis by (auto simp: publish_park_def waiting_def msg_of_def)
  next
    case (Some er)
    then have "q = p_buf p" using app dq.append_error by blast
    with app Some assms(1,2) show ?thesis by (auto simp: publish_park_def waiting_def)
  qed
qed

lemma in_order_again:
  assumes "in_order p acc" and "waiting kvs p = []" and "firsts (log_of p) = xs @ m # ys"
    and "m \<notin> set acc" and "set ys \<inter> set acc = {}" and "log_of p' = log_of p" and "waiting kvs p' = [m]"
  shows "in_order p' (acc @ [m])"
proof -
  have d: "m \<notin> set xs" "m \<notin> set ys" "m \<in> set (log_of p)"
    using distinct_firsts [of "log_of p"] set_firsts [of "log_of p"] by (auto simp: assms(3))
  have "filter (\<lambda>x. x \<in> set acc) ys = []" "filter (\<lambda>x. x = m \<or> x \<in> set acc) ys = []"
    using assms(5) d(2) by (auto simp: filter_empty_conv)
  moreover have "filter (\<lambda>x. x = m \<or> x \<in> set acc) xs = filter (\<lambda>x. x \<in> set acc) xs"
    using d(1) by (intro filter_cong) auto
  ultimately show ?thesis
    using assms(1,2,4,6,7) d(3) by (simp add: in_order_def firsts_snoc assms(3))
qed

lemma inv_park:
  assumes inv: "pub_inv c" and ph: "ps_pub c = PPark i d" and park: "publish_park B io i d (ps_p c) = (err, p')"
  shows "pub_inv (c\<lparr>ps_p := p', ps_pub := PIdle,
    ps_accepted := (if err = None then ps_accepted c @ [(i, d)] else ps_accepted c)\<rparr>)"
proof -
  note i = inv [unfolded pub_inv_def ph phase_inv.simps]
  have b: "p_js p' = p_js (ps_p c)" "p_id p' = p_id (ps_p c)" "p_seq p' = p_seq (ps_p c)" "buf_inv (p_buf p')"
    "\<exists>added. items_of (p_buf p') = items_of (p_buf (ps_p c)) @ added"
    "waiting kvs p' = (if err = None then waiting kvs (ps_p c) @ [(i, d)] else waiting kvs (ps_p c))"
    using park_buffer [OF park] i by auto
  have dr: "drain_inv p' (ps_drain c)"
    using i b(1,5) by (cases "ps_drain c") fastforce+
  show ?thesis
  proof (cases "err = None")
    case True
    have "in_order p' (ps_accepted c @ [(i, d)])"
    proof (cases "i \<in> fst ` set (log_of (ps_p c) @ waiting kvs (ps_p c))")
      case False
      then have "(i, d) \<notin> set (log_of (ps_p c) @ waiting kvs (ps_p c))" by force
      then show ?thesis using i b True by (intro in_order_snoc(1)) auto
    next
      case own: True
      then obtain xs ys where "waiting kvs (ps_p c) = []" "firsts (log_of (ps_p c)) = xs @ (i, d) # ys"
        "(i, d) \<notin> set (ps_accepted c)" "set ys \<inter> set (ps_accepted c) = {}"
        using i by blast
      then show ?thesis using i b True by (intro in_order_again [of "ps_p c"]) auto
    qed
    moreover have "fresh_ids p'" using i b True by (auto simp: fresh_ids_def)
    moreover have "inj_on fst (set (log_of p' @ waiting kvs p'))"
    proof (cases "i \<in> fst ` set (log_of (ps_p c) @ waiting kvs (ps_p c))")
      case False
      then show ?thesis using i b True by auto
    next
      case own: True
      then have "(i, d) \<in> set (log_of (ps_p c))" using i by (metis in_set_conv_decomp set_firsts)
      then show ?thesis using i b True by (simp add: insert_absorb)
    qed
    ultimately show ?thesis using b dr True by (simp add: pub_inv_def)
  next
    case False
    then have "waiting kvs p' = waiting kvs (ps_p c)" using b(6) by simp
    moreover have "(if err = None then ps_accepted c @ [(i, d)] else ps_accepted c) = ps_accepted c" using False by simp
    ultimately show ?thesis using i b(1-4) dr by (simp only: pub_inv_def fresh_ids_def in_order_def) simp
  qed
qed

text \<open>The steps of \<open>drain\<close>.\<close>

lemma inv_peek:
  "pub_inv c \<Longrightarrow> Peek B True (p_buf (ps_p c)) n = Inr items \<Longrightarrow> items \<noteq> [] \<Longrightarrow>
   pub_inv (c\<lparr>ps_drain := DSending items 0\<rparr>)"
  by (simp add: pub_inv_def dq.peek_entries)
    (metis append_take_drop_id image_empty empty_subsetI append_Nil list.set(1))

lemma phase_inv_waiting:
  assumes "phase_inv p acc ph" and "waiting kvs p \<noteq> []" and "p_id p' = p_id p" and "p_seq p' = p_seq p"
    and "fst ` set (log_of p' @ waiting kvs p') \<subseteq> fst ` set (log_of p @ waiting kvs p)"
  shows "phase_inv p' acc ph"
  using assms by (cases ph) auto

lemma inv_drain_send:
  assumes inv: "pub_inv c" and dr: "ps_drain c = DSending (it # rest) lst"
    and sent: "sent_msg ok (ent_ID (it_Entry it)) (ent_Data (it_Entry it)) (ps_p c) p'"
  shows "ok \<Longrightarrow> pub_inv (c\<lparr>ps_p := p', ps_drain := DSending rest (it_Seq it)\<rparr>)"
    and "\<not> ok \<Longrightarrow> pub_inv (c\<lparr>ps_p := p', ps_drain := (if lst = 0 then DIdle else DSending [] lst)\<rparr>)"
proof -
  note i = inv [unfolded pub_inv_def dr]
  obtain dn later where items: "items_of (p_buf (ps_p c)) = dn @ (it # rest) @ later"
    and dn: "msg_of ` set dn \<subseteq> set (log_of (ps_p c))" "lst = (if dn = [] then 0 else it_Seq (last dn))"
    using i by auto
  have s: "p_buf p' = p_buf (ps_p c)" "p_id p' = p_id (ps_p c)" "p_seq p' = p_seq (ps_p c)"
    using sent by (auto simp: sent_msg_def)
  have w: "waiting kvs p' = waiting kvs (ps_p c)" using s(1) by (rule waiting_cong)
  have wsplit: "waiting kvs (ps_p c) = map msg_of dn @ msg_of it # map msg_of (rest @ later)"
    using items by (simp add: waiting_def)
  have log: "log_of p' = log_of (ps_p c) \<or> log_of p' = log_of (ps_p c) @ [msg_of it]"
    using sent by (auto simp: sent_msg_def msg_of_def)
  have all: "set (log_of p' @ waiting kvs p') = set (log_of (ps_p c) @ waiting kvs (ps_p c))"
    using log wsplit by (auto simp: w)
  have "firsts (log_of p' @ waiting kvs p') = firsts (log_of (ps_p c) @ waiting kvs (ps_p c))"
    using log firsts_send [of "map msg_of dn" "log_of (ps_p c)" "msg_of it" "map msg_of (rest @ later)"] dn(1)
    unfolding w wsplit by (elim disjE) (simp_all only: set_map)
  then have base: "buf_inv (p_buf p')" "fresh_ids p'" "inj_on fst (set (log_of p' @ waiting kvs p'))"
    "in_order p' (ps_accepted c)"
    using i unfolding fresh_ids_def in_order_def all s by auto
  have ph: "phase_inv p' (ps_accepted c) (ps_pub c)"
  proof (rule phase_inv_waiting)
    show "phase_inv (ps_p c) (ps_accepted c) (ps_pub c)" using i by simp
    show "waiting kvs (ps_p c) \<noteq> []" using wsplit by simp
    show "fst ` set (log_of p' @ waiting kvs p') \<subseteq> fst ` set (log_of (ps_p c) @ waiting kvs (ps_p c))"
      unfolding all by (rule subset_refl)
  qed (rule s)+
  have mono: "set (log_of (ps_p c)) \<subseteq> set (log_of p')" using log by auto
  show "pub_inv (c\<lparr>ps_p := p', ps_drain := DSending rest (it_Seq it)\<rparr>)" if acked: ok
  proof -
    have "msg_of it \<in> set (log_of p')"
    proof -
      obtain d' where d': "(ent_ID (it_Entry it), d') \<in> set (log_of p')" using sent acked by (auto simp: sent_msg_def)
      have "msg_of it \<in> set (log_of p' @ waiting kvs p')" by (simp add: w wsplit)
      then have "msg_of it = (ent_ID (it_Entry it), d')"
        using d' by (intro inj_onD [OF base(3)]) (auto simp: msg_of_def)
      with d' show ?thesis by simp
    qed
    then have "msg_of ` set (dn @ [it]) \<subseteq> set (log_of p')" using dn(1) mono by auto
    then have "drain_inv p' (DSending rest (it_Seq it))"
      unfolding drain_inv.simps s(1) items by (rule_tac x = "dn @ [it]" in exI, rule_tac x = later in exI) simp
    then show ?thesis using base ph by (simp add: pub_inv_def)
  qed
  have "drain_inv p' (if lst = 0 then DIdle else DSending [] lst)"
  proof (cases "lst = 0")
    case False
    then have "dn \<noteq> []" using dn(2) by auto
    with dn mono have "drain_inv p' (DSending [] lst)"
      unfolding drain_inv.simps s(1) items
      by (rule_tac x = dn in exI, rule_tac x = "(it # rest) @ later" in exI) auto
    with False show ?thesis by simp
  qed simp
  then show "pub_inv (c\<lparr>ps_p := p', ps_drain := (if lst = 0 then DIdle else DSending [] lst)\<rparr>)"
    using base ph by (simp add: pub_inv_def)
qed

lemma remove_buffer:
  assumes "drain_remove B io complete now lst p = Some (again, p')" and "buf_inv (p_buf p)"
    and "items_of (p_buf p) = xs @ it # later" and "lst = it_Seq it"
  shows "p_js p' = p_js p \<and> p_id p' = p_id p \<and> p_seq p' = p_seq p \<and> buf_inv (p_buf p') \<and>
    (items_of (p_buf p') = items_of (p_buf p) \<or> items_of (p_buf p') = later)"
proof -
  obtain err q where rm: "Remove B io (p_buf p) lst = Some (err, q)" "err \<noteq> None \<Longrightarrow> q = p_buf p"
    "err = None \<Longrightarrow> buf_inv q \<and> items_of q = later"
    using dq.peek_remove [OF assms(2,3), of io] assms(4) by metis
  then show ?thesis using assms(1,2)
    by (cases err) (auto simp: drain_remove_def noteFailure_def split: if_splits)
qed

lemma inv_removed:
  assumes inv: "pub_inv c" and dr: "ps_drain c = DSending [] lst"
    and rm: "drain_remove B io complete now lst (ps_p c) = Some (again, p')"
  shows "pub_inv (c\<lparr>ps_p := p', ps_drain := DIdle\<rparr>)"
proof -
  note i = inv [unfolded pub_inv_def dr]
  obtain dn later where items: "items_of (p_buf (ps_p c)) = dn @ later" and "dn \<noteq> []"
    and dn: "msg_of ` set dn \<subseteq> set (log_of (ps_p c))" "lst = it_Seq (last dn)"
    using i by (auto split: if_splits)
  then have "items_of (p_buf (ps_p c)) = butlast dn @ last dn # later" by simp
  from remove_buffer [OF rm _ this dn(2)] i have b: "p_js p' = p_js (ps_p c)" "p_id p' = p_id (ps_p c)"
    "p_seq p' = p_seq (ps_p c)" "buf_inv (p_buf p')"
    "items_of (p_buf p') = items_of (p_buf (ps_p c)) \<or> items_of (p_buf p') = later" by auto
  have wsplit: "waiting kvs (ps_p c) = map msg_of dn @ map msg_of later" using items by (simp add: waiting_def)
  have w: "waiting kvs p' = waiting kvs (ps_p c) \<or> waiting kvs p' = map msg_of later"
    using b(5) by (auto simp: waiting_def)
  then have sub: "set (log_of p' @ waiting kvs p') \<subseteq> set (log_of (ps_p c) @ waiting kvs (ps_p c))"
    by (auto simp: wsplit b(1))
  have "firsts (log_of p' @ waiting kvs p') = firsts (log_of (ps_p c) @ waiting kvs (ps_p c))"
    using w firsts_remove [of "map msg_of dn" "log_of (ps_p c)" "map msg_of later"] dn(1)
    by (auto simp: wsplit b(1))
  then have base: "fresh_ids p'" "in_order p' (ps_accepted c)" "inj_on fst (set (log_of p' @ waiting kvs p'))"
    using i sub unfolding fresh_ids_def in_order_def b(2,3) by (blast, simp, blast intro: inj_on_subset)
  have "phase_inv p' (ps_accepted c) (ps_pub c)"
  proof (rule phase_inv_waiting)
    show "phase_inv (ps_p c) (ps_accepted c) (ps_pub c)" using i by simp
    show "waiting kvs (ps_p c) \<noteq> []" using wsplit \<open>dn \<noteq> []\<close> by simp
  qed (use b sub in \<open>auto intro: image_mono\<close>)
  then show ?thesis using base b by (simp add: pub_inv_def)
qed

lemma inv_foreign:
  assumes inv: "pub_inv c" and log: "js_log j = log_of (ps_p c) @ [(i, d)]"
    and new: "i \<notin> fst ` set (log_of (ps_p c) @ waiting kvs (ps_p c))" and "\<And>n. i \<noteq> msgID (p_id (ps_p c)) n"
  shows "pub_inv (c\<lparr>ps_p := (ps_p c)\<lparr>p_js := j\<rparr>\<rparr>)"
proof -
  let ?p = "(ps_p c)\<lparr>p_js := j\<rparr>"
  note inv' = inv [unfolded pub_inv_def]
  have w: "waiting kvs ?p = waiting kvs (ps_p c)" by (simp add: waiting_def)
  have f: "(i, d) \<notin> set (log_of (ps_p c)) \<union> set (waiting kvs (ps_p c))" using new by force
  have acc: "(i, d) \<notin> set (ps_accepted c)" using accepted_stored [of "ps_p c" "ps_accepted c"] inv' f by auto
  have fl: "firsts (js_log j) = firsts (log_of (ps_p c)) @ [(i, d)]"
    using f by (simp add: log firsts_snoc)
  have "filter (\<lambda>y. y \<noteq> (i, d) \<and> y \<notin> set (log_of (ps_p c))) (firsts (waiting kvs (ps_p c))) =
      filter (\<lambda>y. y \<notin> set (log_of (ps_p c))) (firsts (waiting kvs (ps_p c)))"
    using f by (intro filter_cong) auto
  then have "firsts (log_of ?p @ waiting kvs ?p) = firsts (log_of (ps_p c)) @ (i, d) #
      filter (\<lambda>y. y \<notin> set (log_of (ps_p c))) (firsts (waiting kvs (ps_p c)))"
    unfolding w firsts_append [of "log_of ?p"] using f by (simp add: firsts_snoc log)
  then have "in_order ?p (ps_accepted c)"
    using inv' acc by (simp add: in_order_def firsts_append)
  moreover have "phase_inv ?p (ps_accepted c) (ps_pub c)"
  proof (cases "ps_pub c")
    case (PPark i' d')
    have "i' \<noteq> i" using assms(4) inv' PPark by auto
    have "\<exists>xs ys. firsts (log_of ?p) = xs @ m # ys \<and> set ys \<inter> set (ps_accepted c) = {}"
      if "firsts (log_of (ps_p c)) = xs @ m # ys" "set ys \<inter> set (ps_accepted c) = {}" for m xs ys
      by (rule exI [of _ xs], rule exI [of _ "ys @ [(i, d)]"]) (use that acc in \<open>simp add: fl\<close>)
    then show ?thesis using inv' PPark w \<open>i' \<noteq> i\<close> by (simp add: log) metis
  qed (use inv' assms(4) w log in auto)
  moreover have "fresh_ids ?p" using inv' assms(4) w by (auto simp: fresh_ids_def log)
  moreover have "inj_on fst (set (log_of ?p @ waiting kvs ?p))" using inv' new w by (auto simp: log)
  moreover have "drain_inv ?p (ps_drain c)" using inv' by (auto intro: drain_inv_mono simp: log)
  ultimately show ?thesis using inv' by (simp add: pub_inv_def)
qed

lemma pub_inv_step:
  assumes "pub_step B kvs js_Publish js_log c c'" and "pub_inv c"
  shows "pub_inv c'"
  using assms
proof (cases rule: pub_step.cases)
  case (lock ident p' data)
  then show ?thesis using inv_lock assms(2) by simp
next
  case (direct_ok ident data connected oc now p')
  show ?thesis unfolding direct_ok(1) using inv_direct(1) [OF assms(2) direct_ok(2) sent_direct [OF direct_ok(3)]] by simp
next
  case (direct_fail ident data connected oc now p')
  show ?thesis unfolding direct_fail(1) using inv_direct(2) [OF assms(2) direct_fail(2) sent_direct [OF direct_fail(3)]] by simp
next
  case (drain_sent it rest lst oc now p')
  show ?thesis unfolding drain_sent(1) using inv_drain_send(1) [OF assms(2) drain_sent(2) sent_drain [OF drain_sent(3)]] by simp
next
  case (drain_failed it rest lst oc now p')
  show ?thesis unfolding drain_failed(1) using inv_drain_send(2) [OF assms(2) drain_failed(2) sent_drain [OF drain_failed(3)]] by simp
qed (use assms(2) inv_check inv_park inv_peek inv_removed inv_foreign in simp_all)

lemma pub_inv_reach:
  assumes "pub_reach B kvs js_Publish js_log p c" and "buf_inv (p_buf p)" and "fresh_ids p"
    and "inj_on fst (set (log_of p @ waiting kvs p))"
  shows "pub_inv c"
  using assms(1)
proof induction
  case pub_reach_start
  show ?case using assms(2-4) by (simp add: pub_inv_def pub_start_def in_order_def)
next
  case (pub_reach_step c c')
  then show ?case using pub_inv_step by blast
qed

text \<open>A pass over the buffer while the stream acknowledges everything.\<close>

lemma drain_items_acked:
  assumes "\<And>it j i d. fst (js_Publish (oc it) j i d) = None"
  shows "\<exists>p'. drain_items js_Publish oc now items lst p = (True, if items = [] then lst else it_Seq (last items), p') \<and>
    p_buf p' = p_buf p \<and> set (log_of p) \<subseteq> set (log_of p') \<and> fst ` msg_of ` set items \<subseteq> fst ` set (log_of p')"
proof (induction items arbitrary: lst p)
  case (Cons it items)
  obtain ok p1 where s: "drain_send js_Publish (oc it) now it p = (ok, p1)" by fastforce
  have ok
    using s assms [of it "p_js p" "ent_ID (it_Entry it)" "ent_Data (it_Entry it)"]
    by (cases "js_Publish (oc it) (p_js p) (ent_ID (it_Entry it)) (ent_Data (it_Entry it))")
      (auto simp: drain_send_def send_def)
  with sent_drain [OF s] have p1: "p_buf p1 = p_buf p" "set (log_of p) \<subseteq> set (log_of p1)"
    "fst (msg_of it) \<in> fst ` set (log_of p1)" by (auto simp: sent_msg_def msg_of_def)
  obtain p2 where p2: "drain_items js_Publish oc now items (it_Seq it) p1 =
      (True, if items = [] then it_Seq it else it_Seq (last items), p2)"
    "p_buf p2 = p_buf p1" "set (log_of p1) \<subseteq> set (log_of p2)" "fst ` msg_of ` set items \<subseteq> fst ` set (log_of p2)"
    using Cons [of "it_Seq it" p1] by blast
  have "fst (msg_of it) \<in> fst ` set (log_of p2)" using p1(3) p2(3) by blast
  then show ?case using s \<open>ok\<close> p1 p2 by (intro exI [of _ p2]) auto
qed simp

lemma drain_acked:
  assumes acks: "\<And>it j i d. fst (js_Publish (oc it) j i d) = None"
    and rms: "\<And>q upTo err q'. Remove B io q upTo = Some (err, q') \<Longrightarrow> err = None"
  shows "buf_inv (p_buf p) \<Longrightarrow> \<exists>p'. drain B js_Publish oc True io now p = Some p' \<and> waiting kvs p' = [] \<and>
    set (log_of p) \<subseteq> set (log_of p') \<and> fst ` set (waiting kvs p) \<subseteq> fst ` set (log_of p')"
proof (induction "length (items_of (p_buf p))" arbitrary: p rule: less_induct)
  case less
  let ?items = "take 64 (items_of (p_buf p))"
  have peek: "Peek B True (p_buf p) 64 = Inr ?items" by (rule dq.peek_entries)
  show ?case
  proof (cases "?items = []")
    case True
    then show ?thesis
      by (subst drain.simps) (simp add: peek waiting_def)
  next
    case False
    obtain p1 where p1: "drain_items js_Publish oc now ?items 0 p = (True, it_Seq (last ?items), p1)"
      "p_buf p1 = p_buf p" "set (log_of p) \<subseteq> set (log_of p1)" "fst ` msg_of ` set ?items \<subseteq> fst ` set (log_of p1)"
      using drain_items_acked [where oc = oc and items = ?items and lst = 0 and p = p and now = now, OF acks] False by auto
    obtain q where q: "Remove B io (p_buf p) (it_Seq (last ?items)) = Some (None, q)" "buf_inv q"
      "items_of q = drop 64 (items_of (p_buf p))"
      using drain_items [OF less.prems peek False, of io] rms by (metis option.distinct(1))
    let ?p2 = "p1\<lparr>p_buf := q\<rparr>"
    have rm: "drain_remove B io True now (it_Seq (last ?items)) p1 = Some (True, ?p2)"
      by (simp add: drain_remove_def p1(2) q(1))
    have "length (items_of (p_buf ?p2)) < length (items_of (p_buf p))" using False by (simp add: q(3))
    from less.hyps [OF this] q(2) obtain p' where p': "drain B js_Publish oc True io now ?p2 = Some p'"
      "waiting kvs p' = []" "set (log_of p1) \<subseteq> set (log_of p')" "fst ` set (waiting kvs ?p2) \<subseteq> fst ` set (log_of p')"
      by auto
    have "drain B js_Publish oc True io now p = Some p'"
      using False by (subst drain.simps) (simp add: peek p1(1) rm p'(1))
    moreover have "waiting kvs p = map msg_of ?items @ waiting kvs ?p2"
      by (simp add: waiting_def q(3) flip: map_append)
    moreover have "fst ` msg_of ` set ?items \<subseteq> fst ` set (log_of p')" using p1(4) p'(3) by (meson image_mono subset_trans)
    ultimately show ?thesis using p' p1(3) by (auto simp: image_Un)
  qed
qed

text \<open>Backpressure means that nothing was accepted.\<close>

lemma publish_backpressure:
  assumes "publish B js_Publish en i d p = (Some ErrBackpressure, p')" and inv: "buf_inv (p_buf p)"
    and "en_ok en" and small: "length i + length d < 2 ^ 63"
  shows "p_js p' = p_js p \<and> p_buf p' = p_buf p"
proof -
  have full: "unat (bf_max (p_buf p1)) < payload (map it_Entry (items_of (p_buf p1))) + nsize \<lparr>ent_ID = i, ent_Data = d\<rparr>"
    "entry_size \<lparr>ent_ID = i, ent_Data = d\<rparr> \<le> bf_max (p_buf p1)" "p_js p' = p_js p1" "p_buf p' = p_buf p1"
    if park: "publish_park B io i d p1 = (Some ErrBackpressure, p')" and p1: "buf_inv (p_buf p1)" for io p1
  proof -
    obtain e q where app: "Append B io (p_buf p1) [\<lparr>ent_ID = i, ent_Data = d\<rparr>] = (e, q)" by fastforce
    then have e: "e = Some ErrFull" and q: "p' = p1\<lparr>p_buf := q\<rparr>" using park by (auto simp: publish_park_def split: option.splits if_splits)
    have "payload [\<lparr>ent_ID = i, ent_Data = d\<rparr>] < 2 ^ 63" using small by (simp add: nsize_def)
    from Append_outcome [OF p1 this app] e
    show "unat (bf_max (p_buf p1)) < payload (map it_Entry (items_of (p_buf p1))) + nsize \<lparr>ent_ID = i, ent_Data = d\<rparr>" by simp
    show "entry_size \<lparr>ent_ID = i, ent_Data = d\<rparr> \<le> bf_max (p_buf p1)"
      using app e by (auto simp: Append_def not_less split: if_splits)
    show "p_js p' = p_js p1" "p_buf p' = p_buf p1" using app e q Append_Some by auto
  qed
  show ?thesis
  proof (cases "publish_empty B True p")
    case False
    then show ?thesis using assms full(3,4) [of "en_io en" p] by (simp add: publish_def)
  next
    case True
    obtain ok p1 where d: "publish_direct js_Publish (en_connected en) (en_outcome en) (en_now en) i d p = (ok, p1)" by fastforce
    then have park: "publish_park B (en_io en) i d p1 = (Some ErrBackpressure, p')"
      using True assms(1,3) by (auto simp: publish_def split: if_splits bool.splits)
    have b: "p_buf p1 = p_buf p" using sent_direct [OF d] by (simp add: sent_msg_def)
    have "items_of (p_buf p1) = []"
      using True dq.count_zero [OF inv] by (simp add: publish_empty_def b)
    then have "unat (bf_max (p_buf p1)) < nsize \<lparr>ent_ID = i, ent_Data = d\<rparr>" using full(1) [OF park] inv b by simp
    moreover have "nsize \<lparr>ent_ID = i, ent_Data = d\<rparr> \<le> unat (bf_max (p_buf p1))"
      using full(2) [OF park] inv b small by (simp add: word_le_nat_alt unat_entry_size nsize_def)
    ultimately show ?thesis by simp
  qed
qed

end

section \<open>A stream to run the publisher on\<close>

text \<open>
  A log without a duplicate window; the pair of flags says whether a call stores its message and
  whether the acknowledgement arrives.
\<close>

definition mini_js :: "(bool \<times> bool, (string \<times> bytes) list) js_Publish" where
  "mini_js oc j i d =
     (case oc of
        (True, True) \<Rightarrow> (None, j @ [(i, d)])
      | (True, False) \<Rightarrow> (Some ''timeout'', j @ [(i, d)])
      | _ \<Rightarrow> (Some ''no response'', j))"

interpretation mp: publisher mini_bolt mini_kvs snd mini_js id
  by unfold_locales (auto simp: mini_js_def split: prod.splits bool.splits)

definition mini_publisher :: "(mini, (string \<times> bytes) list) Publisher" where
  "mini_publisher = \<lparr>p_js = [], p_cfg = \<lparr>cf_Subject = ''s'', cf_Timeout = 5 * second, cf_Retry = second, cf_CongestedAt = 50\<rparr>,
     p_buf = mini_buffer, p_id = ''x'', p_seq = 0, p_wake = False, p_failing = False, p_published = 0,
     p_lastErr = [], p_lastAt = 0\<rparr>"

lemma mini_publisher_waiting: "waiting mini_kvs mini_publisher = []"
  by (simp add: waiting_def mini_publisher_def mini_buffer_inv)

lemma mini_empty: "publish_empty mini_bolt True (mini_publisher\<lparr>p_seq := n\<rparr>)"
  using mb.dq.count_zero [of mini_buffer] mini_buffer_inv by (simp add: publish_empty_def mini_publisher_def)

section \<open>Properties\<close>


lemma mini_run:
  "\<exists>c. pub_reach mini_bolt mini_kvs mini_js id mini_publisher c \<and> ps_accepted c = [(''x-1'', ''d'')]"
proof -
  let ?p1 = "mini_publisher\<lparr>p_seq := 1\<rparr>"
  let ?c1 = "(pub_start mini_publisher)\<lparr>ps_p := ?p1, ps_pub := PLocked ''x-1'' ''d''\<rparr>"
  let ?c2 = "?c1\<lparr>ps_pub := PDirect ''x-1'' ''d''\<rparr>"
  have r1: "pub_reach mini_bolt mini_kvs mini_js id mini_publisher ?c1"
    by (rule pub_reach_step [OF pub_reach_start lock])
      (simp_all add: pub_start_def mini_publisher_def nextID_def msgID_def FormatUint_1)
  have r2: "pub_reach mini_bolt mini_kvs mini_js id mini_publisher ?c2"
    using pub_reach_step [OF r1 check_empty] mini_empty [of 1] by simp
  obtain p' where "publish_direct mini_js True (True, True) 0 ''x-1'' ''d'' (ps_p ?c2) = (True, p')"
    by (simp add: publish_direct_def send_def mini_js_def)
  from pub_reach_step [OF r2 direct_ok [OF _ this]] show ?thesis
    by (intro exI conjI, assumption?) (auto simp: pub_start_def)
qed


text \<open>
  Draining makes progress: when the stream acknowledges every message and the database takes
  every removal, one pass of \<open>drain\<close> returns, the buffer is empty afterwards, and every message
  that waited is stored in the stream.
\<close>
theorem drain_empties:
  assumes "publisher B kvs sq js_Publish js_log" and "bolt_bucket.buf_inv B kvs sq (p_buf p)"
    and "\<And>it j i d. fst (js_Publish (oc it) j i d) = None"
    and "\<And>q upTo err q'. Remove B io q upTo = Some (err, q') \<Longrightarrow> err = None"
  shows "\<exists>p'. drain B js_Publish oc True io now p = Some p' \<and> waiting kvs p' = [] \<and>
    set (js_log (p_js p)) \<subseteq> set (js_log (p_js p')) \<and> fst ` set (waiting kvs p) \<subseteq> fst ` set (js_log (p_js p'))"
  by (rule publisher.drain_acked [OF assms(1,3,4,2)])

lemma mini_remove: "Remove mini_bolt \<lparr>io_begin = True, io_commit = True\<rparr> q upTo = Some (err, q') \<Longrightarrow> err = None"
proof -
  assume rm: "Remove mini_bolt \<lparr>io_begin = True, io_commit = True\<rparr> q upTo = Some (err, q')"
  have "\<exists>items c n. remove_loop mini_bolt upTo b c0 n0 = Some (Inr (items, c, n))" for b c0 n0
  proof (induction "mini_kvs b" arbitrary: b c0 n0)
    case Nil
    then show ?case by (subst remove_loop.simps) (simp add: mb.first_kvs flip: Nil)
  next
    case (Cons kv rest)
    let ?b = "(AList.delete (fst kv) (fst b), snd b)"
    have del: "bk_Delete mini_bolt b (fst kv) = Some ?b" by (simp add: mini_bolt_def)
    have "mini_kvs ?b = rest" using mb.delete_first [OF del, of "snd kv"] Cons.hyps(2) by simp
    from Cons.hyps(1) [OF this [symmetric]] show ?case
      by (subst remove_loop.simps) (simp add: mb.first_kvs del flip: Cons.hyps(2))
  qed
  then obtain items c n where "remove_loop mini_bolt upTo (bf_items q) 0 0 = Some (Inr (items, c, n))" by blast
  with rm show ?thesis
    by (auto simp: Remove_def db_Update_def Remove_tx_def putUint_def mini_bolt_def split: if_splits)
qed

theorem drain_empties_witness:
  "\<exists>p'. drain mini_bolt mini_js (\<lambda>_. (True, True)) True \<lparr>io_begin = True, io_commit = True\<rparr> 0
      (mini_publisher\<lparr>p_buf := mini_buffer2\<rparr>) = Some p' \<and> waiting mini_kvs p' = [] \<and> {''a'', ''b''} \<subseteq> fst ` set (p_js p')"
proof -
  have w: "fst ` set (waiting mini_kvs (mini_publisher\<lparr>p_buf := mini_buffer2\<rparr>)) = {''a'', ''b''}"
  proof -
    have "map fst (waiting mini_kvs (mini_publisher\<lparr>p_buf := mini_buffer2\<rparr>)) = map ent_ID (map it_Entry (mb.items_of mini_buffer2))"
      by (simp add: waiting_def msg_of_def comp_def)
    then have "map fst (waiting mini_kvs (mini_publisher\<lparr>p_buf := mini_buffer2\<rparr>)) = [''a'', ''b'']"
      by (simp add: mini_buffer2_inv(1) del: map_map)
    then show ?thesis by (metis list.set_map list.set(1,2))
  qed
  have "mb.buf_inv (p_buf (mini_publisher\<lparr>p_buf := mini_buffer2\<rparr>))" by (simp add: mini_buffer2_inv)
  from drain_empties [OF mp.publisher_axioms this, where oc = "\<lambda>_. (True, True)" and now = 0
      and io = "\<lparr>io_begin = True, io_commit = True\<rparr>"] show ?thesis
    using mini_remove by (simp add: mini_js_def w) blast
qed

text \<open>
  \<open>ErrBackpressure\<close> is honest: the call that returns it neither sent its message to the
  stream nor put anything into the buffer.
\<close>
theorem backpressure_accepts_nothing:
  assumes "publisher B kvs sq js_Publish js_log" and "bolt_bucket.buf_inv B kvs sq (p_buf p)"
    and "en_ok en" and "length ident + length data < 2 ^ 63"
    and "publish B js_Publish en ident data p = (Some ErrBackpressure, p')"
  shows "p_js p' = p_js p \<and> p_buf p' = p_buf p"
  by (rule publisher.publish_backpressure [OF assms(1,5,2,3,4)])

lemma mini_buffer2_max: "bf_max mini_buffer2 = 20"
proof -
  let ?es = "[\<lparr>ent_ID = ''a'', ent_Data = ''one''\<rparr>, \<lparr>ent_ID = ''b'', ent_Data = ''two''\<rparr>]"
  have "Append mini_bolt \<lparr>io_begin = True, io_commit = True\<rparr> mini_buffer ?es = (None, mini_buffer2)"
    using mini_append by (simp add: mini_buffer2_def prod_eq_iff)
  from mb.Append_None [OF mini_buffer_inv(1) _ this] show ?thesis by (simp add: nsize_def mini_buffer_def)
qed

theorem backpressure_accepts_nothing_witness:
  "\<exists>p'. publish mini_bolt mini_js \<lparr>en_ok = True, en_connected = True, en_outcome = (True, True), en_now = 0,
       en_io = \<lparr>io_begin = True, io_commit = True\<rparr>\<rparr> ''c'' ''a long message'' (mini_publisher\<lparr>p_buf := mini_buffer2\<rparr>) = (Some ErrBackpressure, p')
     \<and> p_js p' = [] \<and> p_buf p' = mini_buffer2"
proof -
  let ?en = "\<lparr>en_ok = True, en_connected = True, en_outcome = (True, True), en_now = 0, en_io = \<lparr>io_begin = True, io_commit = True\<rparr>\<rparr>"
  let ?p = "mini_publisher\<lparr>p_buf := mini_buffer2\<rparr>"
  have inv: "mb.buf_inv (p_buf ?p)" by (simp add: mini_buffer2_inv)
  have nonempty: "\<not> publish_empty mini_bolt True ?p"
    using mb.dq.count_zero [OF mini_buffer2_inv(2)] mini_buffer2_inv(1) by (auto simp: publish_empty_def)
  have "unat (getUint mini_bolt (bf_meta mini_buffer2) bytesKey) = 8"
    using mini_buffer2_inv by (simp add: mb.buf_inv_def nsize_def)
  then have used: "getUint mini_bolt (bf_meta mini_buffer2) bytesKey = 8"
    by (metis of_nat_numeral of_nat_unat ucast_id)
  have "bf_max mini_buffer2 = 20" by (rule mini_buffer2_max)
  then have "fst (publish mini_bolt mini_js ?en ''c'' ''a long message'' ?p) = Some ErrBackpressure"
    using nonempty used
    by (simp add: publish_def publish_park_def Append_def entry_size_def db_Update_def)
  then obtain p' where pub: "publish mini_bolt mini_js ?en ''c'' ''a long message'' ?p = (Some ErrBackpressure, p')"
    by (metis prod.collapse)
  with backpressure_accepts_nothing [OF mp.publisher_axioms inv _ _ pub] show ?thesis
    by (simp add: mini_publisher_def)
qed

text \<open>
  An error of \<open>Publish\<close> does not mean that nothing was accepted: when the acknowledgement
  of a direct send is lost and the message is larger than the whole buffer, the call reports an
  error although the message is in the stream.
\<close>
theorem error_although_stored:
  "\<exists>p'. publish mini_bolt mini_js \<lparr>en_ok = True, en_connected = True, en_outcome = (True, False), en_now = 0,
       en_io = \<lparr>io_begin = True, io_commit = True\<rparr>\<rparr> ''x-1'' ''a message of more than twenty bytes'' mini_publisher
       = (Some (ErrBuffer ErrTooLarge), p')
     \<and> p_js p' = [(''x-1'', ''a message of more than twenty bytes'')]"
proof -
  have "publish_empty mini_bolt True mini_publisher"
    using mini_empty [of 0] by (simp add: mini_publisher_def)
  then show ?thesis
    by (simp add: publish_def publish_direct_def send_def mini_js_def noteFailure_def publish_park_def Append_def
        entry_size_def) (simp add: mini_publisher_def mini_buffer_def)
qed

text \<open>
  The congestion flag compares fill level and threshold exactly, without wrap-around, for
  every buffer limit below 2^57 bytes.
\<close>
theorem Health_congested_exact:
  assumes "unat (bf_max (p_buf p)) < 2 ^ 57" and "cf_CongestedAt (p_cfg p) \<le> 100"
    and "getUint B (bf_meta (p_buf p)) bytesKey \<le> bf_max (p_buf p)"
  shows "h_Congested (Health B True connected p) \<longleftrightarrow>
    unat (bf_max (p_buf p)) * unat (cf_CongestedAt (p_cfg p)) \<le> unat (getUint B (bf_meta (p_buf p)) bytesKey) * 100"
proof -
  let ?m = "bf_max (p_buf p)" and ?a = "cf_CongestedAt (p_cfg p)" and ?b = "getUint B (bf_meta (p_buf p)) bytesKey"
  have a: "unat ?a \<le> 100" using assms(2) by (simp add: word_le_nat_alt)
  have b: "unat ?b < 2 ^ 57" using assms(1,3) by (simp add: word_le_nat_alt)
  have "unat ?m * unat ?a \<le> unat ?m * 100" using a by (rule mult_le_mono2)
  also have "\<dots> < 2 ^ 64" using assms(1) by simp
  finally have "unat (?m * ?a) = unat ?m * unat ?a" by (simp add: unat_word_ariths)
  moreover have "unat (?b * 100) = unat ?b * 100" using b by (simp add: unat_word_ariths)
  ultimately show ?thesis
    by (simp add: Health_def Stats_of_def Let_def word_le_nat_alt)
qed

theorem Health_congested_exact_witness:
  "h_Congested (Health mini_bolt True True (mini_publisher\<lparr>p_buf := mini_buffer2\<rparr>)) \<longleftrightarrow> (20 :: nat) * 50 \<le> 8 * 100"
proof -
  have "unat (getUint mini_bolt (bf_meta mini_buffer2) bytesKey) = 8"
    using mini_buffer2_inv by (simp add: mb.buf_inv_def nsize_def)
  then show ?thesis
    using Health_congested_exact [of "mini_publisher\<lparr>p_buf := mini_buffer2\<rparr>" mini_bolt True] mini_buffer2_max
    by (simp add: mini_publisher_def word_le_nat_alt)
qed

end
