(* ===== verification/Cluster.thy ===== *)
theory Cluster
  imports Coordinator_Data Publisher
begin

text \<open>
  Watching the nodes, the decision who is master, and admission of new builds
  (\<open>monitor.go\<close>, \<open>failover.go\<close> and \<open>coordinator.go\<close> of \<open>pkg/coordinator\<close>). Operations
  take the instance, the shared store and the readings of the clock they make; what a node
  answers is an argument. The step relation at the end lets any number of instances decide
  about the master at the same time.
\<close>

section \<open>Watching the nodes\<close>

definition gapMessage :: string where "gapMessage = ''does not reach back''"
definition aheadMessage :: string where "aheadMessage = ''is ahead of the stream''"

definition classify :: "NodeStatus \<Rightarrow> Config \<Rightarrow> NodeState" where
  "classify s cfg =
     (if c_FailThreshold cfg \<le> ns_Failures s then NodeDown
      else if 0 < ns_Failures s then NodeSuspect
      else if time_IsZero (ns_LastSeen s) then NodeUnknown
      else if Contains (ss_LastError (ns_Stream s)) gapMessage \<or> Contains (ss_LastError (ns_Stream s)) aheadMessage
        then NodeNeedsRestore
      else if \<not> ss_Connected (ns_Stream s) then NodeDegraded
      else if c_MaxLag cfg < ss_Lag (ns_Stream s) then NodeLagging
      else NodeUp)"

text \<open>One node's part of a poll: what its answer makes of its status.\<close>

definition node_polled :: "Config \<Rightarrow> time \<Rightarrow> string + StreamStatus \<Rightarrow> NodeStatus \<Rightarrow> NodeStatus" where
  "node_polled cfg now ans s =
     (let s1 = (case ans of
                  Inl err \<Rightarrow> s\<lparr>ns_Failures := ns_Failures s + 1, ns_Error := err\<rparr>
                | Inr stream \<Rightarrow> s\<lparr>ns_Failures := 0, ns_Error := [], ns_LastSeen := now, ns_Stream := stream\<rparr>)
      in s1\<lparr>ns_State := classify s1 cfg\<rparr>)"

definition PollOnce :: "(string \<Rightarrow> time \<times> (string + StreamStatus)) \<Rightarrow> Coordinator \<Rightarrow> Coordinator" where
  "PollOnce ask co = fold (\<lambda>name co. co\<lparr>co_status := (co_status co)
     (name := node_polled (co_cfg co) (fst (ask name)) (snd (ask name)) (co_status co name))\<rparr>) (co_order co) co"

definition NodeStatuses :: "Coordinator \<Rightarrow> NodeStatus list" where
  "NodeStatuses co = map (co_status co) (co_order co)"

definition nodeStatus :: "Coordinator \<Rightarrow> string \<Rightarrow> NodeStatus" where
  "nodeStatus co name = co_status co name"

section \<open>Who is master\<close>

definition clusterKey :: string where "clusterKey = ''cluster''"

datatype cluster_error =
    ErrUnknownMaster string
  | ErrUnknownNode string
  | ErrNotPromotable string NodeState
  | ErrState state_error

definition Master :: "Coordinator \<Rightarrow> NodeConfig option" where
  "Master co = find (\<lambda>n. nc_Name n = cl_Master (co_cluster co)) (c_Nodes (co_cfg co))"

definition ClusterState :: "Coordinator \<Rightarrow> Cluster" where
  "ClusterState co = co_cluster co"

definition initial_cluster :: "Coordinator \<Rightarrow> time \<Rightarrow> Cluster" where
  "initial_cluster co now = \<lparr>cl_Master = hd (co_order co), cl_Epoch = 1, cl_ChangedAt = now, cl_Reason = ''initial''\<rparr>"

text \<open>\<open>None\<close> would be a recursion that does not end: creating and reading contradict each other forever.\<close>

partial_function (option) loadCluster ::
  "('s, doc) Store \<Rightarrow> Coordinator \<Rightarrow> time \<Rightarrow> 's \<Rightarrow> ((cluster_error + Cluster \<times> nat) \<times> 's) option" where
  "loadCluster S co now s =
     (case GetJSON S as_Cluster s clusterKey of
        Inr (cl, rv) \<Rightarrow>
          if \<not> known_node co (cl_Master cl) then Some (Inl (ErrUnknownMaster (cl_Master cl)), s)
          else Some (Inr (cl, rv), s)
      | Inl err \<Rightarrow>
          if err \<noteq> ErrNotFound then Some (Inl (ErrState err), s)
          else (case CreateJSON S DocCluster s clusterKey (initial_cluster co now) of
                  (Inr rv, s') \<Rightarrow> Some (Inr (initial_cluster co now, rv), s')
                | (Inl err', s') \<Rightarrow>
                    if err' = ErrConflict then loadCluster S co now s' else Some (Inl (ErrState err'), s')))"

definition refreshCluster :: "('s, doc) Store \<Rightarrow> Coordinator \<Rightarrow> time \<Rightarrow> 's \<Rightarrow> (Coordinator \<times> 's) option" where
  "refreshCluster S co now s =
     (case loadCluster S co now s of
        None \<Rightarrow> None
      | Some (Inl err, s') \<Rightarrow> Some (co, s')
      | Some (Inr (cl, _), s') \<Rightarrow> Some (co\<lparr>co_cluster := cl\<rparr>, s'))"

text \<open>The loop over the statuses: the node that is up and applied the most of the stream, the first of equals.\<close>

fun pick_candidate :: "string \<Rightarrow> NodeStatus list \<Rightarrow> string \<Rightarrow> u64 \<Rightarrow> string" where
  "pick_candidate master [] candidate freshest = candidate"
| "pick_candidate master (s # ss) candidate freshest =
     (if ns_Name s = master \<or> ns_State s \<noteq> NodeUp then pick_candidate master ss candidate freshest
      else if candidate = [] \<or> freshest < ss_LastApplied (ns_Stream s)
        then pick_candidate master ss (ns_Name s) (ss_LastApplied (ns_Stream s))
      else pick_candidate master ss candidate freshest)"

text \<open>What \<open>FailoverOnce\<close> makes of the decision it read: the node to promote and the reason, if any.\<close>

definition failover_decide :: "Coordinator \<Rightarrow> time \<Rightarrow> Cluster \<Rightarrow> (string \<times> string) option" where
  "failover_decide co now cl =
     (let master = nodeStatus co (cl_Master cl) in
      if ns_State master \<noteq> NodeDown \<and> ns_State master \<noteq> NodeNeedsRestore then None
      else if time_Sub now (cl_ChangedAt cl) < c_PromoteCooldown (co_cfg co) then None
      else let candidate = pick_candidate (cl_Master cl) (NodeStatuses co) [] 0 in
           if candidate = [] then None
           else Some (candidate, ''master '' @ cl_Master cl @ '' is '' @ NodeState_string (ns_State master)))"

text \<open>A promotion's key: \<open>history/%020d\<close>.\<close>

definition pad20 :: "nat \<Rightarrow> string" where
  "pad20 n = replicate (20 - length (FormatUint n)) (CHR ''0'') @ FormatUint n"

definition historyKey :: "u64 \<Rightarrow> string" where
  "historyKey epoch = ''history/'' @ pad20 (unat epoch)"

definition next_cluster :: "Cluster \<Rightarrow> time \<Rightarrow> string \<Rightarrow> string \<Rightarrow> Cluster" where
  "next_cluster cl now to reason = \<lparr>cl_Master = to, cl_Epoch = cl_Epoch cl + 1, cl_ChangedAt = now, cl_Reason = reason\<rparr>"

definition promotion_of :: "Cluster \<Rightarrow> Cluster \<Rightarrow> Promotion" where
  "promotion_of cl nxt = \<lparr>pr_Epoch = cl_Epoch nxt, pr_From = cl_Master cl, pr_To = cl_Master nxt,
     pr_At = cl_ChangedAt nxt, pr_Reason = cl_Reason nxt\<rparr>"

text \<open>The last component of the result is the node that is told to resume, if any.\<close>

definition promote ::
  "('s, doc) Store \<Rightarrow> Coordinator \<Rightarrow> time \<Rightarrow> Cluster \<Rightarrow> nat \<Rightarrow> string \<Rightarrow> string \<Rightarrow> 's \<Rightarrow>
   state_error option \<times> Coordinator \<times> 's \<times> string option" where
  "promote S co now cl rv to reason s =
     (let nxt = next_cluster cl now to reason in
      case UpdateJSON S DocCluster s clusterKey nxt rv of
        (Inl err, s1) \<Rightarrow> (Some err, co, s1, None)
      | (Inr _, s1) \<Rightarrow>
          (case CreateJSON S DocPromotion s1 (historyKey (cl_Epoch nxt)) (promotion_of cl nxt) of
             (_, s2) \<Rightarrow> (None, co\<lparr>co_cluster := nxt\<rparr>, s2,
                if ss_Paused (ns_Stream (nodeStatus co to)) then Some to else None)))"

record failover_result =
  fo_result :: "cluster_error + string"
  fo_co :: Coordinator
  fo_resume :: "string option"

definition FailoverOnce ::
  "('s, doc) Store \<Rightarrow> Coordinator \<Rightarrow> time \<Rightarrow> time \<Rightarrow> time \<Rightarrow> 's \<Rightarrow> (failover_result \<times> 's) option" where
  "FailoverOnce S co now0 now1 now2 s =
     (case loadCluster S co now0 s of
        None \<Rightarrow> None
      | Some (Inl err, s1) \<Rightarrow> Some (\<lparr>fo_result = Inl err, fo_co = co, fo_resume = None\<rparr>, s1)
      | Some (Inr (cl, rv), s1) \<Rightarrow>
          (let co1 = co\<lparr>co_cluster := cl\<rparr> in
           case failover_decide co1 now1 cl of
             None \<Rightarrow> Some (\<lparr>fo_result = Inr [], fo_co = co1, fo_resume = None\<rparr>, s1)
           | Some (candidate, reason) \<Rightarrow>
               (case promote S co1 now2 cl rv candidate reason s1 of
                  (None, co2, s2, rs) \<Rightarrow> Some (\<lparr>fo_result = Inr candidate, fo_co = co2, fo_resume = rs\<rparr>, s2)
                | (Some err, co2, s2, rs) \<Rightarrow>
                    if err = ErrConflict then
                      (case refreshCluster S co2 now2 s2 of
                         None \<Rightarrow> None
                       | Some (co3, s3) \<Rightarrow> Some (\<lparr>fo_result = Inr [], fo_co = co3, fo_resume = None\<rparr>, s3))
                    else Some (\<lparr>fo_result = Inl (ErrState err), fo_co = co2, fo_resume = None\<rparr>, s2))))"

definition promotable :: "NodeState \<Rightarrow> bool" where
  "promotable st \<longleftrightarrow> \<not> (st = NodeDown \<or> st = NodeSuspect \<or> st = NodeUnknown \<or> st = NodeNeedsRestore)"

definition Promote ::
  "('s, doc) Store \<Rightarrow> Coordinator \<Rightarrow> time \<Rightarrow> time \<Rightarrow> string \<Rightarrow> 's \<Rightarrow> (cluster_error option \<times> Coordinator \<times> 's \<times> string option) option" where
  "Promote S co now0 now1 name s =
     (if \<not> known_node co name then Some (Some (ErrUnknownNode name), co, s, None)
      else if \<not> promotable (ns_State (nodeStatus co name))
        then Some (Some (ErrNotPromotable name (ns_State (nodeStatus co name))), co, s, None)
      else case loadCluster S co now0 s of
        None \<Rightarrow> None
      | Some (Inl err, s1) \<Rightarrow> Some (Some err, co, s1, None)
      | Some (Inr (cl, rv), s1) \<Rightarrow>
          if cl_Master cl = name then Some (None, co, s1, None)
          else (case promote S co now1 cl rv name ''promoted by hand'' s1 of
                  (err, co2, s2, rs) \<Rightarrow> Some (map_option ErrState err, co2, s2, rs)))"

fun read_promotions :: "('s, doc) Store \<Rightarrow> 's \<Rightarrow> string list \<Rightarrow> state_error + Promotion list" where
  "read_promotions S s [] = Inr []"
| "read_promotions S s (k # ks) =
     (case GetJSON S as_Promotion s k of
        Inl err \<Rightarrow> Inl err
      | Inr (p, _) \<Rightarrow> (case read_promotions S s ks of Inl err \<Rightarrow> Inl err | Inr ps \<Rightarrow> Inr (p # ps)))"

definition History :: "('s, doc) Store \<Rightarrow> 's \<Rightarrow> state_error + Promotion list" where
  "History S s =
     (case st_List S s ''history/'' of
        Inl err \<Rightarrow> Inl err
      | Inr entries \<Rightarrow> read_promotions S s (map e_Key entries))"

section \<open>Leadership and admission\<close>

definition tryLease :: "('s, doc) Store \<Rightarrow> Coordinator \<Rightarrow> time \<Rightarrow> time \<Rightarrow> 's \<Rightarrow> Coordinator \<times> 's" where
  "tryLease S co now0 now1 s =
     (case Acquire S DocLease as_Lease (NewLease ''leader'' (c_ID (co_cfg co)) (c_LeaseTTL (co_cfg co))) now0 now1 s of
        (Inr ok, s') \<Rightarrow> (co\<lparr>co_leader := ok\<rparr>, s')
      | (Inl err, s') \<Rightarrow> (co\<lparr>co_leader := False\<rparr>, s'))"

definition IsLeader :: "Coordinator \<Rightarrow> bool" where
  "IsLeader co = co_leader co"

record Admission =
  ad_Allowed :: bool
  ad_Reasons :: "string list"

definition Admit :: "PublisherHealth option \<Rightarrow> Coordinator \<Rightarrow> Admission" where
  "Admit pub co =
     (let r1 = (case pub of
                  None \<Rightarrow> []
                | Some h \<Rightarrow>
                    if \<not> h_Connected h then [''the replication stream is not connected'']
                    else if h_Failing h then [''publishing to the replication stream fails'']
                    else if h_Congested h then [''the local log buffer is filling up'']
                    else []);
          usable = list_ex (\<lambda>s. ns_State s \<in> {NodeUp, NodeLagging, NodeDegraded, NodeSuspect}) (NodeStatuses co);
          reasons = r1 @ (if usable then [] else [''no ZincSearch node is available''])
      in \<lparr>ad_Allowed = (reasons = []), ad_Reasons = reasons\<rparr>)"

section \<open>What the polls detect\<close>

definition node_polls :: "Config \<Rightarrow> (time \<times> (string + StreamStatus)) list \<Rightarrow> NodeStatus \<Rightarrow> NodeStatus" where
  "node_polls cfg xs s = fold (\<lambda>x. node_polled cfg (fst x) (snd x)) xs s"

definition failed_in_a_row :: "(time \<times> (string + StreamStatus)) list \<Rightarrow> nat" where
  "failed_in_a_row xs = length (takeWhile (\<lambda>x. isl (snd x)) (rev xs))"

lemma node_polls_snoc: "node_polls cfg (xs @ [x]) s = node_polled cfg (fst x) (snd x) (node_polls cfg xs s)"
  by (simp add: node_polls_def)

lemma node_polled_Failures: "ns_Failures (node_polled cfg now ans s) = (if isl ans then ns_Failures s + 1 else 0)"
  by (auto simp: node_polled_def Let_def split: sum.splits)

lemma node_polled_State:
  "ns_State (node_polled cfg now ans s) = classify (node_polled cfg now ans s) cfg"
  by (simp add: node_polled_def Let_def classify_def)

lemma node_polls_Failures: "ns_Failures s = 0 \<Longrightarrow> ns_Failures (node_polls cfg xs s) = int (failed_in_a_row xs)"
  by (induction xs rule: rev_induct)
    (auto simp: node_polls_snoc node_polled_Failures failed_in_a_row_def, simp add: node_polls_def)

lemma PollOnce_status:
  assumes "distinct (co_order co)"
  shows "co_status (PollOnce ask co) name =
      (if name \<in> set (co_order co) then node_polled (co_cfg co) (fst (ask name)) (snd (ask name)) (co_status co name)
       else co_status co name)"
    and "co_order (PollOnce ask co) = co_order co" and "co_cfg (PollOnce ask co) = co_cfg co"
proof -
  let ?f = "\<lambda>name co. co\<lparr>co_status := (co_status co)
     (name := node_polled (co_cfg co) (fst (ask name)) (snd (ask name)) (co_status co name))\<rparr>"
  have "distinct ns \<Longrightarrow> co_cfg (fold ?f ns co) = co_cfg co \<and> co_order (fold ?f ns co) = co_order co \<and>
      co_status (fold ?f ns co) name = (if name \<in> set ns then
        node_polled (co_cfg co) (fst (ask name)) (snd (ask name)) (co_status co name) else co_status co name)"
    for ns and co :: Coordinator
    by (induction ns arbitrary: co) (auto simp: Let_def)
  with assms show "co_status (PollOnce ask co) name =
      (if name \<in> set (co_order co) then node_polled (co_cfg co) (fst (ask name)) (snd (ask name)) (co_status co name)
       else co_status co name)"
    and "co_order (PollOnce ask co) = co_order co" and "co_cfg (PollOnce ask co) = co_cfg co"
    unfolding PollOnce_def by blast+
qed

lemma PollOnce_wf: "co_wf co \<Longrightarrow> co_wf (PollOnce ask co)"
  by (auto simp: co_wf_def PollOnce_status node_polled_def Let_def split: sum.splits)

section \<open>The candidate\<close>

definition eligible :: "string \<Rightarrow> NodeStatus \<Rightarrow> bool" where
  "eligible master s \<longleftrightarrow> ns_Name s \<noteq> master \<and> ns_State s = NodeUp"

lemma pick_candidate_cases:
  assumes "\<forall>s \<in> set ss. ns_Name s \<noteq> []"
  shows "(pick_candidate master ss c f = c \<and>
      (\<forall>s \<in> set ss. eligible master s \<longrightarrow> c \<noteq> [] \<and> ss_LastApplied (ns_Stream s) \<le> f)) \<or>
    (\<exists>s \<in> set ss. eligible master s \<and> ns_Name s = pick_candidate master ss c f \<and>
      (c \<noteq> [] \<longrightarrow> f \<le> ss_LastApplied (ns_Stream s)) \<and>
      (\<forall>s' \<in> set ss. eligible master s' \<longrightarrow> ss_LastApplied (ns_Stream s') \<le> ss_LastApplied (ns_Stream s)))"
  using assms
proof (induction ss arbitrary: c f)
  case (Cons s ss)
  let ?l = "ss_LastApplied (ns_Stream s)"
  show ?case
  proof (cases "eligible master s \<and> (c = [] \<or> f < ?l)")
    case True
    then have r: "pick_candidate master (s # ss) c f = pick_candidate master ss (ns_Name s) ?l"
      by (auto simp: eligible_def)
    consider (here) "pick_candidate master ss (ns_Name s) ?l = ns_Name s"
        "\<forall>s' \<in> set ss. eligible master s' \<longrightarrow> ss_LastApplied (ns_Stream s') \<le> ?l"
      | (later) t where "t \<in> set ss" "eligible master t" "ns_Name t = pick_candidate master ss (ns_Name s) ?l"
        "?l \<le> ss_LastApplied (ns_Stream t)"
        "\<forall>s' \<in> set ss. eligible master s' \<longrightarrow> ss_LastApplied (ns_Stream s') \<le> ss_LastApplied (ns_Stream t)"
      using Cons.IH [of "ns_Name s" ?l] Cons.prems by auto
    then show ?thesis
    proof cases
      case here
      then show ?thesis unfolding r using True by (intro disjI2 bexI [of _ s]) auto
    next
      case later
      then show ?thesis unfolding r using True
        by (intro disjI2 bexI [of _ t]) (auto intro: order_trans less_imp_le)
    qed
  next
    case False
    then have r: "pick_candidate master (s # ss) c f = pick_candidate master ss c f"
      by (auto simp: eligible_def)
    from Cons.IH [of c f] Cons.prems False show ?thesis unfolding r
      by (auto simp: not_less intro: order_trans)
  qed
qed simp

lemma NodeStatuses_names: "co_wf co \<Longrightarrow> s \<in> set (NodeStatuses co) \<Longrightarrow> ns_Name s \<in> set (co_order co) \<and> ns_Name s \<noteq> [] \<and> s = co_status co (ns_Name s)"
proof -
  assume wf: "co_wf co" and "s \<in> set (NodeStatuses co)"
  then obtain n where n: "n \<in> set (co_order co)" "s = co_status co n" by (auto simp: NodeStatuses_def)
  then have "ValidKey n" "ns_Name s = n" using wf by (auto simp: co_wf_def)
  with n show ?thesis using ValidKey_Nil by auto
qed

lemma failover_decide_Some:
  assumes "failover_decide co now cl = Some (to, reason)" and wf: "co_wf co"
  shows "to \<in> set (co_order co)" and "to \<noteq> cl_Master cl" and "ns_State (co_status co to) = NodeUp"
    and "ns_State (co_status co (cl_Master cl)) \<in> {NodeDown, NodeNeedsRestore}"
    and "c_PromoteCooldown (co_cfg co) \<le> time_Sub now (cl_ChangedAt cl)"
    and "\<forall>n \<in> set (co_order co). n \<noteq> cl_Master cl \<longrightarrow> ns_State (co_status co n) = NodeUp \<longrightarrow>
      ss_LastApplied (ns_Stream (co_status co n)) \<le> ss_LastApplied (ns_Stream (co_status co to))"
proof -
  have to: "to = pick_candidate (cl_Master cl) (NodeStatuses co) [] 0" "to \<noteq> []"
    and st: "ns_State (co_status co (cl_Master cl)) \<in> {NodeDown, NodeNeedsRestore}"
    and cool: "c_PromoteCooldown (co_cfg co) \<le> time_Sub now (cl_ChangedAt cl)"
    using assms(1) by (auto simp: failover_decide_def Let_def nodeStatus_def split: if_splits)
  show "ns_State (co_status co (cl_Master cl)) \<in> {NodeDown, NodeNeedsRestore}"
    "c_PromoteCooldown (co_cfg co) \<le> time_Sub now (cl_ChangedAt cl)" by fact+
  obtain s where s: "s \<in> set (NodeStatuses co)" "eligible (cl_Master cl) s" "ns_Name s = to"
    "\<forall>s' \<in> set (NodeStatuses co). eligible (cl_Master cl) s' \<longrightarrow> ss_LastApplied (ns_Stream s') \<le> ss_LastApplied (ns_Stream s)"
    using pick_candidate_cases [of "NodeStatuses co" "cl_Master cl" "[]" 0] NodeStatuses_names [OF wf] to by metis
  note n = NodeStatuses_names [OF wf s(1)]
  show "to \<in> set (co_order co)" "to \<noteq> cl_Master cl" "ns_State (co_status co to) = NodeUp"
    using n s by (auto simp: eligible_def)
  show "\<forall>n \<in> set (co_order co). n \<noteq> cl_Master cl \<longrightarrow> ns_State (co_status co n) = NodeUp \<longrightarrow>
      ss_LastApplied (ns_Stream (co_status co n)) \<le> ss_LastApplied (ns_Stream (co_status co to))"
    using n s wf by (auto simp: NodeStatuses_def eligible_def co_wf_def)
qed

lemma failover_decide_None:
  assumes "failover_decide co now cl = None" and wf: "co_wf co"
    and "ns_State (co_status co (cl_Master cl)) \<in> {NodeDown, NodeNeedsRestore}"
    and "c_PromoteCooldown (co_cfg co) \<le> time_Sub now (cl_ChangedAt cl)"
    and "n \<in> set (co_order co)" and "n \<noteq> cl_Master cl"
  shows "ns_State (co_status co n) \<noteq> NodeUp"
proof -
  have "pick_candidate (cl_Master cl) (NodeStatuses co) [] 0 = []"
    using assms(1,3,4) by (auto simp: failover_decide_def Let_def nodeStatus_def split: if_splits)
  with pick_candidate_cases [of "NodeStatuses co" "cl_Master cl" "[]" 0] NodeStatuses_names [OF wf]
  have "\<forall>s \<in> set (NodeStatuses co). \<not> eligible (cl_Master cl) s" by metis
  with assms(5,6) wf show ?thesis by (auto simp: NodeStatuses_def eligible_def co_wf_def)
qed

section \<open>Reading the decision\<close>

lemma ValidKey_cluster [simp]: "ValidKey clusterKey"
  by (simp add: clusterKey_def ValidKey_def is_alnum_def key_char_def less_eq_char_def)

context reliable_store
begin

lemma GetJSON_view: "invar s \<Longrightarrow> ValidKey k \<Longrightarrow> view s k = Some (v, r) \<Longrightarrow>
    GetJSON S d s k = (case d v of None \<Rightarrow> Inl ErrJSON | Some a \<Rightarrow> Inr (a, r))"
  by (simp add: GetJSON_total)

end

text \<open>On a store that answers, the recursion of \<open>loadCluster\<close> ends.\<close>

lemma loadCluster_present:
  assumes "reliable_store S view bound invar" and "invar s" and "view s clusterKey = Some (DocCluster cl, r)"
  shows "loadCluster S co now s =
    Some (if known_node co (cl_Master cl) then Inr (cl, r) else Inl (ErrUnknownMaster (cl_Master cl)), s)"
  using reliable_store.GetJSON_total [OF assms(1,2) ValidKey_cluster, of as_Cluster] assms(3)
  by (subst loadCluster.simps) simp

lemma loadCluster_missing:
  assumes "reliable_store S view bound invar" and "invar s" and "view s clusterKey = None"
  shows "\<exists>r s'. loadCluster S co now s = Some (Inr (initial_cluster co now, r), s') \<and>
    committed view bound invar s clusterKey (DocCluster (initial_cluster co now)) r s'"
  using reliable_store.GetJSON_total [OF assms(1,2) ValidKey_cluster, of as_Cluster] assms(3)
    reliable_store.create_reliable [OF assms(1,2) ValidKey_cluster assms(3), of "DocCluster (initial_cluster co now)"]
  by (subst loadCluster.simps) (auto simp: CreateJSON_def)

section \<open>Deciding together\<close>

text \<open>
  Instances read the decision, make up their mind with what they know of the nodes, and write.
  \<open>cy_hist\<close> is the history of what the shared key held: it grows whenever a write, also one
  whose answer was lost, changed the key.
\<close>

datatype cluster_op = OpInit Cluster | OpPromote Cluster nat string string

record 's cluster_sys =
  cy_store :: 's
  cy_co :: "string \<Rightarrow> Coordinator"
  cy_pending :: "string \<Rightarrow> cluster_op option"
  cy_hist :: "Cluster list"

definition by_hand :: "Coordinator \<Rightarrow> Cluster \<Rightarrow> string \<Rightarrow> string \<Rightarrow> bool" where
  "by_hand co cl to reason \<longleftrightarrow> known_node co to \<and> promotable (ns_State (nodeStatus co to)) \<and> cl_Master cl \<noteq> to \<and>
     reason = ''promoted by hand''"

definition grown :: "('s \<Rightarrow> string \<Rightarrow> (doc \<times> nat) option) \<Rightarrow> 's \<Rightarrow> 's \<Rightarrow> Cluster \<Rightarrow> Cluster list \<Rightarrow> Cluster list" where
  "grown view s s' cl hist = (if view s' clusterKey = view s clusterKey then hist else hist @ [cl])"

inductive cluster_step ::
  "('s, doc) Store \<Rightarrow> ('s \<Rightarrow> string \<Rightarrow> (doc \<times> nat) option) \<Rightarrow> 's cluster_sys \<Rightarrow> 's cluster_sys \<Rightarrow> bool"
  for S :: "('s, doc) Store" and view where
  instance_changes: "cluster_step S view c (c\<lparr>cy_co := co\<rparr>)"
| init_read: "cy_pending c p = None \<Longrightarrow> GetJSON S as_Cluster (cy_store c) clusterKey = Inl ErrNotFound \<Longrightarrow>
    cluster_step S view c (c\<lparr>cy_pending := (cy_pending c)(p \<mapsto> OpInit (initial_cluster (cy_co c p) now))\<rparr>)"
| init_write: "cy_pending c p = Some (OpInit cl) \<Longrightarrow> CreateJSON S DocCluster (cy_store c) clusterKey cl = (res, s') \<Longrightarrow>
    cluster_step S view c (c\<lparr>cy_store := s', cy_pending := (cy_pending c)(p := None),
      cy_hist := grown view (cy_store c) s' cl (cy_hist c)\<rparr>)"
| decide: "cy_pending c p = None \<Longrightarrow> GetJSON S as_Cluster (cy_store c) clusterKey = Inr (cl, rv) \<Longrightarrow>
    failover_decide (cy_co c p) now cl = Some (to, reason) \<or> by_hand (cy_co c p) cl to reason \<Longrightarrow>
    cluster_step S view c (c\<lparr>cy_pending := (cy_pending c)(p \<mapsto> OpPromote cl rv to reason)\<rparr>)"
| promote_write: "cy_pending c p = Some (OpPromote cl rv to reason) \<Longrightarrow>
    UpdateJSON S DocCluster (cy_store c) clusterKey (next_cluster cl now to reason) rv = (res, s') \<Longrightarrow>
    cluster_step S view c (c\<lparr>cy_store := s', cy_pending := (cy_pending c)(p := None),
      cy_hist := grown view (cy_store c) s' (next_cluster cl now to reason) (cy_hist c)\<rparr>)"
| elsewhere_create: "j \<noteq> clusterKey \<Longrightarrow> st_Create S (cy_store c) j v = (res, s') \<Longrightarrow>
    cluster_step S view c (c\<lparr>cy_store := s'\<rparr>)"
| elsewhere_update: "j \<noteq> clusterKey \<Longrightarrow> st_Update S (cy_store c) j v x = (res, s') \<Longrightarrow>
    cluster_step S view c (c\<lparr>cy_store := s'\<rparr>)"
| elsewhere_delete: "j \<noteq> clusterKey \<Longrightarrow> st_Delete S (cy_store c) j = (err, s') \<Longrightarrow>
    cluster_step S view c (c\<lparr>cy_store := s'\<rparr>)"

definition cluster_start :: "'s \<Rightarrow> (string \<Rightarrow> Coordinator) \<Rightarrow> 's cluster_sys" where
  "cluster_start s co = \<lparr>cy_store = s, cy_co = co, cy_pending = (\<lambda>_. None), cy_hist = []\<rparr>"

inductive cluster_reach ::
  "('s, doc) Store \<Rightarrow> ('s \<Rightarrow> string \<Rightarrow> (doc \<times> nat) option) \<Rightarrow> 's \<Rightarrow> 's cluster_sys \<Rightarrow> bool"
  for S :: "('s, doc) Store" and view and s0 where
  cluster_reach_start: "cluster_reach S view s0 (cluster_start s0 co)"
| cluster_reach_step: "cluster_reach S view s0 c \<Longrightarrow> cluster_step S view c c' \<Longrightarrow> cluster_reach S view s0 c'"

text \<open>Epochs count up from 1 without gaps, and each decision names another master than the one before.\<close>

definition decisions_ok :: "Cluster list \<Rightarrow> bool" where
  "decisions_ok hist \<longleftrightarrow> map cl_Epoch hist = map of_nat [1..<Suc (length hist)] \<and>
     successively (\<lambda>a b. cl_Master a \<noteq> cl_Master b) hist"

lemma decisions_ok_snoc:
  assumes "decisions_ok hist" and "hist \<noteq> []" and "cl_Epoch cl = cl_Epoch (last hist) + 1"
    and "cl_Master cl \<noteq> cl_Master (last hist)"
  shows "decisions_ok (hist @ [cl])"
proof -
  have "last (map cl_Epoch hist) = of_nat (length hist)"
    using assms(1,2) by (simp add: decisions_ok_def last_map Suc_le_eq)
  then have "cl_Epoch (last hist) = of_nat (length hist)" using assms(2) by (simp add: last_map)
  then show ?thesis using assms by (auto simp: decisions_ok_def successively_append_iff add.commute)
qed

lemma failover_decide_other: "failover_decide co now cl = Some (to, reason) \<Longrightarrow> to \<noteq> cl_Master cl"
proof -
  have "pick_candidate m ss c f = c \<or> (\<exists>s \<in> set ss. ns_Name s \<noteq> m \<and> ns_Name s = pick_candidate m ss c f)" for m ss c f
    by (induction ss arbitrary: c f) (auto, metis+)
  then show "failover_decide co now cl = Some (to, reason) \<Longrightarrow> to \<noteq> cl_Master cl"
    by (auto simp: failover_decide_def Let_def split: if_splits) metis+
qed

text \<open>A store that holds the coordinator's documents.\<close>

locale doc_store = cas_store S view bound invar
  for S :: "('s, doc) Store" and view and bound and invar
begin

fun op_ok :: "'s \<Rightarrow> cluster_op \<Rightarrow> bool" where
  "op_ok s (OpInit cl) \<longleftrightarrow> cl_Epoch cl = 1"
| "op_ok s (OpPromote cl rv to reason) \<longleftrightarrow> to \<noteq> cl_Master cl \<and> knows s clusterKey (DocCluster cl) rv"

fun holds_last :: "(doc \<times> nat) option \<Rightarrow> Cluster list \<Rightarrow> bool" where
  "holds_last None hist \<longleftrightarrow> hist = []"
| "holds_last (Some (v, _)) hist \<longleftrightarrow> hist \<noteq> [] \<and> v = DocCluster (last hist)"

definition cluster_inv :: "'s cluster_sys \<Rightarrow> bool" where
  "cluster_inv c \<longleftrightarrow> invar (cy_store c) \<and> decisions_ok (cy_hist c) \<and>
     holds_last (view (cy_store c) clusterKey) (cy_hist c) \<and>
     (\<forall>p a. cy_pending c p = Some a \<longrightarrow> op_ok (cy_store c) a)"

lemma cluster_inv_pending: "cluster_inv c \<Longrightarrow> cy_pending c p = Some a \<Longrightarrow> op_ok (cy_store c) a"
  by (simp add: cluster_inv_def)

lemma cluster_inv_store: "cluster_inv c \<Longrightarrow> invar (cy_store c)"
  by (simp add: cluster_inv_def)

lemma op_ok_mono:
  "op_ok s a \<Longrightarrow> (\<And>v r. knows s clusterKey v r \<Longrightarrow> knows s' clusterKey v r) \<Longrightarrow> op_ok s' a"
  by (cases a) auto

lemma cluster_inv_frame:
  assumes "cluster_inv c" and "invar s'" and "view s' clusterKey = view (cy_store c) clusterKey"
    and "\<And>v r. knows (cy_store c) clusterKey v r \<Longrightarrow> knows s' clusterKey v r"
  shows "cluster_inv (c\<lparr>cy_store := s'\<rparr>)"
  using assms op_ok_mono [of "cy_store c" _ s'] by (simp add: cluster_inv_def)

lemma cluster_inv_read:
  assumes "cluster_inv c" and "op_ok (cy_store c) a"
  shows "cluster_inv (c\<lparr>cy_pending := (cy_pending c)(p \<mapsto> a)\<rparr>)"
  using assms by (auto simp: cluster_inv_def)

text \<open>A write replaced the decision it was made against, or it changed nothing.\<close>

lemma cluster_inv_write:
  assumes inv: "cluster_inv c" and "invar s'"
    and knows: "\<And>v r. knows (cy_store c) clusterKey v r \<Longrightarrow> knows s' clusterKey v r"
    and ch: "view s' clusterKey = view (cy_store c) clusterKey \<or>
      (\<exists>r. view s' clusterKey = Some (DocCluster cl, r) \<and> decisions_ok (cy_hist c @ [cl]))"
  shows "cluster_inv (c\<lparr>cy_store := s', cy_pending := (cy_pending c)(p := None),
      cy_hist := grown view (cy_store c) s' cl (cy_hist c)\<rparr>)"
proof -
  have pend: "\<forall>q a. ((cy_pending c)(p := None)) q = Some a \<longrightarrow> op_ok s' a"
    using inv knows op_ok_mono [of "cy_store c" _ s'] by (simp add: cluster_inv_def)
  from ch show ?thesis
    using inv assms(2) pend by (auto simp: cluster_inv_def grown_def)
qed

lemma cluster_inv_init_write:
  assumes inv: "cluster_inv c" and "cy_pending c p = Some (OpInit cl)"
    and w: "CreateJSON S DocCluster (cy_store c) clusterKey cl = (res, s')"
  shows "cluster_inv (c\<lparr>cy_store := s', cy_pending := (cy_pending c)(p := None),
      cy_hist := grown view (cy_store c) s' cl (cy_hist c)\<rparr>)"
proof (rule cluster_inv_write [OF inv])
  have s: "invar (cy_store c)" and e: "cl_Epoch cl = 1"
    using cluster_inv_store [OF inv] cluster_inv_pending [OF inv assms(2)] by simp_all
  note w' = w [unfolded CreateJSON_def]
  show "invar s'" "\<And>v r. knows (cy_store c) clusterKey v r \<Longrightarrow> knows s' clusterKey v r"
    using invar_create [OF s w'] knows_create [OF s w'] by blast+
  show "view s' clusterKey = view (cy_store c) clusterKey \<or>
      (\<exists>r. view s' clusterKey = Some (DocCluster cl, r) \<and> decisions_ok (cy_hist c @ [cl]))"
    using view_create [OF s w'] inv e by (auto simp: cluster_inv_def decisions_ok_def)
qed

lemma cluster_inv_promote_write:
  assumes inv: "cluster_inv c" and "cy_pending c p = Some (OpPromote cl rv to reason)"
    and w: "UpdateJSON S DocCluster (cy_store c) clusterKey (next_cluster cl now to reason) rv = (res, s')"
  shows "cluster_inv (c\<lparr>cy_store := s', cy_pending := (cy_pending c)(p := None),
      cy_hist := grown view (cy_store c) s' (next_cluster cl now to reason) (cy_hist c)\<rparr>)"
proof (rule cluster_inv_write [OF inv])
  have s: "invar (cy_store c)" and k: "knows (cy_store c) clusterKey (DocCluster cl) rv" and to: "to \<noteq> cl_Master cl"
    using cluster_inv_store [OF inv] cluster_inv_pending [OF inv assms(2)] by simp_all
  note w' = w [unfolded UpdateJSON_def]
  show "invar s'" "\<And>v r. knows (cy_store c) clusterKey v r \<Longrightarrow> knows s' clusterKey v r"
    using invar_update [OF s w'] knows_update [OF s w'] by blast+
  have "decisions_ok (cy_hist c @ [next_cluster cl now to reason])"
    if "view (cy_store c) clusterKey = Some (DocCluster cl, rv)"
    using inv that to by (intro decisions_ok_snoc) (auto simp: cluster_inv_def next_cluster_def)
  then show "view s' clusterKey = view (cy_store c) clusterKey \<or>
      (\<exists>r. view s' clusterKey = Some (DocCluster (next_cluster cl now to reason), r) \<and>
        decisions_ok (cy_hist c @ [next_cluster cl now to reason]))"
    using view_update [OF s w' k] by auto
qed

lemma cluster_inv_step:
  assumes "cluster_step S view c c'" and "cluster_inv c"
  shows "cluster_inv c'"
proof -
  have s: "invar (cy_store c)" using assms(2) by (simp add: cluster_inv_def)
  from assms(1) show ?thesis
  proof (cases rule: cluster_step.cases)
    case (instance_changes co)
    then show ?thesis using assms(2) by (simp add: cluster_inv_def)
  next
    case (init_read p now)
    then show ?thesis using cluster_inv_read [OF assms(2)] by (simp add: initial_cluster_def)
  next
    case (decide p cl rv now to reason)
    have "knows (cy_store c) clusterKey (DocCluster cl) rv" using GetJSON_Inr [OF s decide(3)] by auto
    moreover have "to \<noteq> cl_Master cl" using decide(4) by (auto simp: by_hand_def dest!: failover_decide_other)
    ultimately show ?thesis unfolding decide(1) by (intro cluster_inv_read [OF assms(2)]) simp
  next
    case (elsewhere_create j v res s')
    show ?thesis unfolding elsewhere_create(1)
      by (rule cluster_inv_frame [OF assms(2)]) (use s elsewhere_create in \<open>auto intro: store_frame\<close>)
  next
    case (elsewhere_update j v x res s')
    show ?thesis unfolding elsewhere_update(1)
      by (rule cluster_inv_frame [OF assms(2)]) (use s elsewhere_update in \<open>auto intro: store_frame\<close>)
  next
    case (elsewhere_delete j err s')
    show ?thesis unfolding elsewhere_delete(1)
      by (rule cluster_inv_frame [OF assms(2)]) (use s elsewhere_delete in \<open>auto intro: store_frame\<close>)
  qed (use assms(2) cluster_inv_init_write cluster_inv_promote_write in simp_all)
qed

lemma cluster_inv_reach:
  assumes "cluster_reach S view s0 c" and "invar s0" and "view s0 clusterKey = None"
  shows "cluster_inv c"
  using assms(1)
proof induction
  case (cluster_reach_start co)
  show ?case using assms(2,3) by (simp add: cluster_inv_def cluster_start_def decisions_ok_def)
next
  case (cluster_reach_step c c')
  then show ?case using cluster_inv_step by blast
qed

end

interpretation mem_docs: doc_store "Mem_Store :: (doc Mem, doc) Store" mem_view mem_bound mem_inv
  by unfold_locales

interpretation rq_docs: doc_store "RQLite_Store nilv :: (doc RQLite, doc) Store" rq_view rq_bound rq_inv for nilv
  by unfold_locales

section \<open>The history is in order\<close>

text \<open>Twenty digits are enough for every 64-bit number, so the byte order of the keys is the order of the epochs.\<close>

fun dec_digits :: "nat \<Rightarrow> nat \<Rightarrow> string" where
  "dec_digits 0 n = []"
| "dec_digits (Suc k) n = digit_char (n div 10 ^ k) # dec_digits k (n mod 10 ^ k)"

lemma digit_char_0: "digit_char 0 = CHR ''0''"
  by code_simp

lemma dec_digits_snoc: "n < 10 ^ Suc k \<Longrightarrow> dec_digits (Suc k) n = dec_digits k (n div 10) @ [digit_char (n mod 10)]"
proof (induction k arbitrary: n)
  case (Suc k)
  have "n mod 10 ^ Suc k < 10 ^ Suc k" by simp
  from Suc.IH [OF this] have "dec_digits (Suc (Suc k)) n =
      digit_char (n div 10 ^ Suc k) # dec_digits k (n mod 10 ^ Suc k div 10) @ [digit_char (n mod 10 ^ Suc k mod 10)]"
    by simp
  moreover have "n mod 10 ^ Suc k div 10 = n div 10 mod 10 ^ k"
    by (simp add: mod_mult2_eq)
  moreover have "n mod 10 ^ Suc k mod 10 = n mod 10" by (simp add: mod_mod_cancel)
  moreover have "n div 10 ^ Suc k = n div 10 div 10 ^ k" by (simp add: div_mult2_eq)
  ultimately show ?case by simp
qed simp

lemma pad_digits:
  "n < 10 ^ k \<Longrightarrow> 0 < k \<Longrightarrow> length (FormatUint n) \<le> k \<and>
   replicate (k - length (FormatUint n)) (CHR ''0'') @ FormatUint n = dec_digits k n"
proof (induction k arbitrary: n)
  case (Suc k)
  show ?case
  proof (cases "n < 10")
    case True
    have "dec_digits (Suc k) n = replicate k (CHR ''0'') @ [digit_char n]"
    proof -
      have "dec_digits k 0 = replicate k (CHR ''0'')" by (induction k) (auto simp: digit_char_0)
      then show ?thesis using dec_digits_snoc [OF Suc.prems(1)] True by simp
    qed
    with True show ?thesis by (subst (1 2 3) FormatUint.simps) simp
  next
    case False
    then have "0 < k" using Suc.prems by (cases k) auto
    moreover have "n div 10 < 10 ^ k" using Suc.prems(1) by (simp add: less_mult_imp_div_less mult.commute)
    ultimately have "length (FormatUint (n div 10)) \<le> k"
      "replicate (k - length (FormatUint (n div 10))) (CHR ''0'') @ FormatUint (n div 10) = dec_digits k (n div 10)"
      using Suc.IH by blast+
    moreover have "FormatUint n = FormatUint (n div 10) @ [digit_char (n mod 10)]"
      using False by (subst FormatUint.simps) simp
    ultimately show ?thesis using dec_digits_snoc [OF Suc.prems(1)] by simp
  qed
qed simp

lemma dec_digits_less: "m < 10 ^ k \<Longrightarrow> n < 10 ^ k \<Longrightarrow> dec_digits k m < dec_digits k n \<longleftrightarrow> m < n"
proof (induction k arbitrary: m n)
  case (Suc k)
  have d: "m div 10 ^ k < 10" "n div 10 ^ k < 10"
    using Suc.prems by (simp_all add: less_mult_imp_div_less mult.commute)
  have lt: "digit_char a < digit_char b \<longleftrightarrow> a < b" "digit_char a = digit_char b \<longleftrightarrow> a = b" if "a < 10" "b < 10" for a b
    using that by (auto simp: digit_char_def less_char_def dest!: arg_cong [of _ _ "of_char :: char \<Rightarrow> nat"])
  have "m < n \<longleftrightarrow> m div 10 ^ k < n div 10 ^ k \<or> (m div 10 ^ k = n div 10 ^ k \<and> m mod 10 ^ k < n mod 10 ^ k)"
    by (rule less_div_mod)
  then show ?case using Suc.IH [of "m mod 10 ^ k" "n mod 10 ^ k"] by (simp add: lt d)
qed simp

lemma historyKey_less: "historyKey m < historyKey n \<longleftrightarrow> m < n"
proof -
  have "unat (x :: u64) < 10 ^ 20" for x using unat_u64_less [of x] by simp
  then have "pad20 (unat x) = dec_digits 20 (unat x)" for x :: u64
    using pad_digits [of "unat x" 20] by (simp add: pad20_def)
  with \<open>\<And>x. unat (x :: u64) < 10 ^ 20\<close> show ?thesis
    by (simp add: historyKey_def dec_digits_less word_less_nat_alt)
qed

lemma read_promotions_Inr:
  assumes "reliable_store S view bound invar" and "invar s"
    and "\<forall>e \<in> set es. \<exists>p. ValidKey (e_Key e) \<and> e_Value e = DocPromotion p \<and> view s (e_Key e) = Some (e_Value e, e_Revision e)"
  shows "\<exists>ps. read_promotions S s (map e_Key es) = Inr ps \<and> map DocPromotion ps = map e_Value es"
  using assms(3)
proof (induction es)
  case (Cons e es)
  then obtain p where p: "e_Value e = DocPromotion p" "view s (e_Key e) = Some (DocPromotion p, e_Revision e)" "ValidKey (e_Key e)"
    by auto
  then have "GetJSON S as_Promotion s (e_Key e) = Inr (p, e_Revision e)"
    using reliable_store.GetJSON_total [OF assms(1,2), of "e_Key e" as_Promotion] by simp
  with p Cons show ?case by auto
qed simp

text \<open>The history as promotions write it: under the key of its epoch.\<close>

definition history_ok :: "(string \<Rightarrow> (doc \<times> nat) option) \<Rightarrow> bool" where
  "history_ok m \<longleftrightarrow> (\<forall>k v r. m k = Some (v, r) \<longrightarrow> HasPrefix k ''history/'' \<longrightarrow>
     (\<exists>p. v = DocPromotion p \<and> k = historyKey (pr_Epoch p)))"

lemma historyKey_prefix [simp]: "HasPrefix (historyKey e) ''history/''"
  by (simp add: HasPrefix_def historyKey_def)

lemma digit_char_key: "d < 10 \<Longrightarrow> key_char (digit_char d)"
proof -
  assume "d < 10"
  then have "d \<in> {0, 1, 2, 3, 4, 5, 6, 7, 8, 9}" by auto
  then show ?thesis by (elim insertE; simp) (code_simp)+
qed

lemma ValidKey_history [simp]: "ValidKey (historyKey e)"
proof -
  have "unat e < 10 ^ 20" using unat_u64_less [of e] by simp
  then have len: "length (FormatUint (unat e)) \<le> 20" using pad_digits [of "unat e" 20] by simp
  have "list_all key_char (FormatUint (unat e))"
    using FormatUint_digits digit_char_key by (fastforce simp: list_all_iff)
  moreover have "key_char (CHR ''0'')" "list_all key_char ''istory/''" "is_alnum (CHR ''h'')" by code_simp+
  ultimately show ?thesis
    using len by (auto simp: ValidKey_def historyKey_def pad20_def list_all_iff)
qed

lemma History_sorted:
  assumes "reliable_store S view bound invar" and "invar s" and ok: "history_ok (view s)"
  shows "\<exists>ps. History S s = Inr ps \<and> sorted_wrt (\<lambda>a b. pr_Epoch a < pr_Epoch b) ps \<and>
    (\<forall>p. p \<in> set ps \<longleftrightarrow> (\<exists>r. view s (historyKey (pr_Epoch p)) = Some (DocPromotion p, r)))"
proof -
  obtain es where es: "st_List S s ''history/'' = Inr es" "sorted_wrt (<) (map e_Key es)"
    "\<And>e. e \<in> set es \<longleftrightarrow> HasPrefix (e_Key e) ''history/'' \<and> view s (e_Key e) = Some (e_Value e, e_Revision e)"
    using reliable_store.list_total [OF assms(1,2), of "''history/''"] by blast
  have ent: "\<exists>p. e_Value e = DocPromotion p \<and> e_Key e = historyKey (pr_Epoch p)" if "e \<in> set es" for e
    using ok es(3) that unfolding history_ok_def by blast
  have "\<forall>e \<in> set es. \<exists>p. ValidKey (e_Key e) \<and> e_Value e = DocPromotion p \<and> view s (e_Key e) = Some (e_Value e, e_Revision e)"
    using ent es(3) ValidKey_history by metis
  from read_promotions_Inr [OF assms(1,2) this] obtain ps
    where ps: "read_promotions S s (map e_Key es) = Inr ps" "map DocPromotion ps = map e_Value es" by blast
  have len: "length ps = length es" using ps(2) by (metis length_map)
  have nth: "e_Value (es ! i) = DocPromotion (ps ! i)" "e_Key (es ! i) = historyKey (pr_Epoch (ps ! i))" if "i < length es" for i
    using that ps(2) len ent [of "es ! i"] by (metis doc.inject(3) nth_map nth_mem)+
  have "sorted_wrt (\<lambda>a b. pr_Epoch a < pr_Epoch b) ps"
    using es(2) nth(2) by (auto simp: sorted_wrt_iff_nth_less len historyKey_less)
  moreover have "p \<in> set ps \<longleftrightarrow> (\<exists>r. view s (historyKey (pr_Epoch p)) = Some (DocPromotion p, r))" for p
  proof
    assume "p \<in> set ps"
    then obtain i where "i < length es" "p = ps ! i" using len by (metis in_set_conv_nth)
    with nth es(3) [of "es ! i"] show "\<exists>r. view s (historyKey (pr_Epoch p)) = Some (DocPromotion p, r)" by auto
  next
    assume "\<exists>r. view s (historyKey (pr_Epoch p)) = Some (DocPromotion p, r)"
    then obtain r where "view s (historyKey (pr_Epoch p)) = Some (DocPromotion p, r)" ..
    then have "\<lparr>e_Key = historyKey (pr_Epoch p), e_Value = DocPromotion p, e_Revision = r\<rparr> \<in> set es"
      using es(3) by simp
    then have "DocPromotion p \<in> set (map e_Value es)" by force
    then show "p \<in> set ps" unfolding ps(2) [symmetric] by auto
  qed
  moreover have "History S s = Inr ps" by (simp add: History_def es(1) ps(1))
  ultimately show ?thesis by blast
qed

lemma historyKey_cluster [simp]: "historyKey e \<noteq> clusterKey" "clusterKey \<noteq> historyKey e"
  by (simp_all add: historyKey_def clusterKey_def)

lemma promote_reliable:
  assumes "reliable_store S view bound invar" and "invar s" and "view s clusterKey = Some (DocCluster cl, r)"
    and "view s (historyKey (cl_Epoch cl + 1)) = None"
  shows "\<exists>s' r1 r2. promote S co now cl r to reason s = (None, co\<lparr>co_cluster := next_cluster cl now to reason\<rparr>, s',
      if ss_Paused (ns_Stream (nodeStatus co to)) then Some to else None) \<and> invar s' \<and>
    view s' = (view s)(clusterKey \<mapsto> (DocCluster (next_cluster cl now to reason), r1),
      historyKey (cl_Epoch cl + 1) \<mapsto> (DocPromotion (promotion_of cl (next_cluster cl now to reason)), r2))"
proof -
  let ?n = "next_cluster cl now to reason"
  obtain r1 s1 where up: "st_Update S s clusterKey (DocCluster ?n) r = (Inr r1, s1)"
    and c1: "committed view bound invar s clusterKey (DocCluster ?n) r1 s1"
    using reliable_store.update_reliable [OF assms(1,2) ValidKey_cluster assms(3)] by blast
  have s1: "invar s1" "view s1 (historyKey (cl_Epoch cl + 1)) = None"
    using c1 assms(4) by (auto simp: committed_def)
  obtain r2 s2 where cr: "st_Create S s1 (historyKey (cl_Epoch cl + 1)) (DocPromotion (promotion_of cl ?n)) = (Inr r2, s2)"
    and c2: "committed view bound invar s1 (historyKey (cl_Epoch cl + 1)) (DocPromotion (promotion_of cl ?n)) r2 s2"
    using reliable_store.create_reliable [OF assms(1) s1(1) ValidKey_history s1(2)] by blast
  have "cl_Epoch ?n = cl_Epoch cl + 1" by (simp add: next_cluster_def)
  with up cr have "promote S co now cl r to reason s = (None, co\<lparr>co_cluster := ?n\<rparr>, s2,
      if ss_Paused (ns_Stream (nodeStatus co to)) then Some to else None)"
    by (simp add: promote_def UpdateJSON_def CreateJSON_def Let_def)
  with c1 c2 show ?thesis by (auto simp: committed_def)
qed

lemma FailoverOnce_promotes:
  assumes "reliable_store S view bound invar" and "invar s" and "co_wf co"
    and "view s clusterKey = Some (DocCluster cl, r)" and "cl_Master cl \<in> set (co_order co)"
    and "view s (historyKey (cl_Epoch cl + 1)) = None"
    and "ns_State (co_status co (cl_Master cl)) \<in> {NodeDown, NodeNeedsRestore}"
    and "c_PromoteCooldown (co_cfg co) \<le> time_Sub now1 (cl_ChangedAt cl)"
    and "n \<in> set (co_order co)" and "n \<noteq> cl_Master cl" and "ns_State (co_status co n) = NodeUp"
  shows "\<exists>res s' to r' h. FailoverOnce S co now0 now1 now2 s = Some (res, s') \<and> fo_result res = Inr to \<and> to \<noteq> [] \<and>
    invar s' \<and> view s' clusterKey = Some (DocCluster (co_cluster (fo_co res)), r') \<and> cl_Master (co_cluster (fo_co res)) = to \<and>
    view s' (historyKey (cl_Epoch cl + 1)) = Some (DocPromotion (promotion_of cl (co_cluster (fo_co res))), h)"
proof -
  have wf: "co_wf (co\<lparr>co_cluster := cl\<rparr>)" using assms(3) by (auto simp: co_wf_def)
  have load: "loadCluster S co now0 s = Some (Inr (cl, r), s)"
    using loadCluster_present [OF assms(1,2,4)] assms(5) by (simp add: known_node_def)
  obtain to reason where dec: "failover_decide (co\<lparr>co_cluster := cl\<rparr>) now1 cl = Some (to, reason)"
    using failover_decide_None [OF _ wf, of now1 cl n] assms(7-11) by (cases "failover_decide (co\<lparr>co_cluster := cl\<rparr>) now1 cl") auto
  have "to \<in> set (co_order co)" using failover_decide_Some(1) [OF dec wf] by simp
  then have "ValidKey to" using assms(3) by (simp add: co_wf_def)
  then have "to \<noteq> []" by auto
  moreover obtain s' r1 r2 where "promote S (co\<lparr>co_cluster := cl\<rparr>) now2 cl r to reason s =
      (None, co\<lparr>co_cluster := next_cluster cl now2 to reason\<rparr>, s',
       if ss_Paused (ns_Stream (nodeStatus (co\<lparr>co_cluster := cl\<rparr>) to)) then Some to else None)" "invar s'"
      "view s' = (view s)(clusterKey \<mapsto> (DocCluster (next_cluster cl now2 to reason), r1),
      historyKey (cl_Epoch cl + 1) \<mapsto> (DocPromotion (promotion_of cl (next_cluster cl now2 to reason)), r2))"
    using promote_reliable [OF assms(1,2,4,6), of "co\<lparr>co_cluster := cl\<rparr>" now2 to reason] by auto
  ultimately show ?thesis
    by (simp add: FailoverOnce_def load dec next_cluster_def)
qed

section \<open>A small cluster\<close>

definition demo_cfg :: Config where
  "demo_cfg = \<lparr>c_ID = ''c1'', c_Nodes = [\<lparr>nc_Name = ''a'', nc_URL = ''u'', nc_User = [], nc_Password = []\<rparr>,
       \<lparr>nc_Name = ''b'', nc_URL = ''u'', nc_User = [], nc_Password = []\<rparr>],
     c_PollInterval = 2 * Second, c_PollTimeout = 3 * Second, c_FailThreshold = 3, c_MaxLag = 1000,
     c_PromoteCooldown = Minute, c_LeaseTTL = 15 * Second, c_BackupInterval = Hour, c_BackupRetry = 5 * Minute,
     c_BackupRetention = 3, c_OrphanGrace = 24 * Hour, c_DrainTimeout = 10 * Minute, c_VerifyInterval = 24 * Hour\<rparr>"

definition demo_co :: Coordinator where
  "demo_co = \<lparr>co_cfg = demo_cfg, co_order = [''a'', ''b''],
     co_status = (\<lambda>n. zero_NodeStatus\<lparr>ns_Name := n, ns_State := (if n = ''b'' then NodeUp else NodeDown)\<rparr>),
     co_cluster = zero_Cluster, co_leader = True\<rparr>"

definition demo_cluster :: Cluster where
  "demo_cluster = \<lparr>cl_Master = ''a'', cl_Epoch = 1, cl_ChangedAt = 0, cl_Reason = ''initial''\<rparr>"

definition demo_mem :: "doc Mem" where
  "demo_mem = \<lparr>mem_entries = [(clusterKey, \<lparr>e_Key = clusterKey, e_Value = DocCluster demo_cluster, e_Revision = 1\<rparr>)], mem_rev = 1\<rparr>"

lemma demo_wf: "co_wf demo_co"
  by (simp add: co_wf_def demo_co_def demo_cfg_def ValidKey_def is_alnum_def less_eq_char_def)

lemma demo_mem:
  "mem_inv demo_mem" "mem_view demo_mem clusterKey = Some (DocCluster demo_cluster, 1)"
  "mem_view demo_mem (historyKey e) = None"
  by (simp_all add: mem_inv_def demo_mem_def mem_view_def)

lemma demo_known: "known_node demo_co (cl_Master demo_cluster)"
  by (simp add: known_node_def demo_co_def demo_cluster_def)

lemma demo_promotes:
  "\<exists>res s' to. FailoverOnce Mem_Store demo_co 0 (100 * Minute) (100 * Minute) demo_mem = Some (res, s') \<and>
     fo_result res = Inr to \<and> to \<noteq> []"
  using FailoverOnce_promotes [OF mem.reliable_store_axioms demo_mem(1) demo_wf demo_mem(2), of "100 * Minute" "''b''" 0 "100 * Minute"]
  by (auto simp: demo_mem(3) demo_cluster_def) (auto simp: demo_co_def demo_cfg_def duration_defs time_Sub_def maxDuration_def minDuration_def)

lemma demo_init_run:
  "\<exists>c. cluster_reach Mem_Store mem_view NewMem c \<and> cy_hist c = [initial_cluster demo_co 5]"
proof -
  let ?c0 = "cluster_start (NewMem :: doc Mem) (\<lambda>_. demo_co)"
  let ?c1 = "?c0\<lparr>cy_pending := (cy_pending ?c0)(''c1'' \<mapsto> OpInit (initial_cluster demo_co 5))\<rparr>"
  have "GetJSON Mem_Store as_Cluster (NewMem :: doc Mem) clusterKey = Inl ErrNotFound"
    by (simp add: GetJSON_def store_defs NewMem_def)
  then have r1: "cluster_reach Mem_Store mem_view NewMem ?c1"
    using cluster_reach_step [OF cluster_reach_start init_read [of ?c0 "''c1''" Mem_Store mem_view 5]]
    by (simp add: cluster_start_def)
  obtain res s' where w: "CreateJSON Mem_Store DocCluster (NewMem :: doc Mem) clusterKey (initial_cluster demo_co 5) = (res, s')"
    and v: "mem_view s' clusterKey \<noteq> mem_view NewMem clusterKey"
    by (simp add: CreateJSON_def store_defs NewMem_def mem_view_def Let_def)
  from cluster_reach_step [OF r1 init_write [of ?c1 "''c1''" "initial_cluster demo_co 5" Mem_Store res s' mem_view]] w v
  show ?thesis by (intro exI conjI, assumption?) (auto simp: cluster_start_def grown_def)
qed

section \<open>Properties\<close>

text \<open>
  A node is called down exactly when at least \<open>FailThreshold\<close> polls in a row failed; one
  answer starts the count over.
\<close>
theorem poll_detects_down:
  assumes "ns_Failures s = 0" and "xs \<noteq> []"
  shows "ns_State (node_polls cfg xs s) = NodeDown \<longleftrightarrow> c_FailThreshold cfg \<le> int (failed_in_a_row xs)"
proof -
  obtain ys y where "xs = ys @ [y]" using assms(2) by (metis rev_exhaust)
  then have "ns_State (node_polls cfg xs s) = classify (node_polls cfg xs s) cfg"
    by (simp add: node_polls_snoc node_polled_State)
  then show ?thesis using node_polls_Failures [OF assms(1), of cfg xs] by (simp add: classify_def)
qed

text \<open>
  C6. Only a node that this instance sees as up, that is not the master and that has applied at
  least as much of the stream as every other such node is promoted, and only when the master is
  down or needs a restore and the cooldown since the last change has passed. The instance then
  holds the decision it wrote, one epoch after the one it read.
\<close>
theorem FailoverOnce_safe:
  assumes "co_wf co" and "FailoverOnce S co now0 now1 now2 s = Some (res, s')" and "fo_result res = Inr to" and "to \<noteq> []"
  shows "\<exists>cl rv s1 reason. loadCluster S co now0 s = Some (Inr (cl, rv), s1) \<and>
    co_cluster (fo_co res) = next_cluster cl now2 to reason \<and> cl_Epoch (co_cluster (fo_co res)) = cl_Epoch cl + 1 \<and>
    to \<in> set (co_order co) \<and> to \<noteq> cl_Master cl \<and> ns_State (co_status co to) = NodeUp \<and>
    ns_State (co_status co (cl_Master cl)) \<in> {NodeDown, NodeNeedsRestore} \<and>
    c_PromoteCooldown (co_cfg co) \<le> time_Sub now1 (cl_ChangedAt cl) \<and>
    (\<forall>n \<in> set (co_order co). n \<noteq> cl_Master cl \<longrightarrow> ns_State (co_status co n) = NodeUp \<longrightarrow>
      ss_LastApplied (ns_Stream (co_status co n)) \<le> ss_LastApplied (ns_Stream (co_status co to)))"
proof -
  obtain cl rv s1 reason where load: "loadCluster S co now0 s = Some (Inr (cl, rv), s1)"
    and dec: "failover_decide (co\<lparr>co_cluster := cl\<rparr>) now1 cl = Some (to, reason)"
    and cl: "co_cluster (fo_co res) = next_cluster cl now2 to reason"
    using assms(2-4) by (auto simp: FailoverOnce_def promote_def Let_def split: option.splits sum.splits prod.splits if_splits)
  have wf: "co_wf (co\<lparr>co_cluster := cl\<rparr>)" using assms(1) by (auto simp: co_wf_def)
  note d = failover_decide_Some [OF dec wf, simplified]
  have "cl_Epoch (co_cluster (fo_co res)) = cl_Epoch cl + 1" by (simp add: cl next_cluster_def)
  with load cl d show ?thesis by (intro exI [of _ cl] exI [of _ rv] exI [of _ s1] exI [of _ reason]) auto
qed

theorem poll_detects_down_witness:
  "ns_State (node_polls demo_cfg [(5, Inr zero_StreamStatus), (7, Inl ''refused''), (9, Inl ''refused'')] zero_NodeStatus) = NodeDown
     \<longleftrightarrow> (3 :: int) \<le> 2"
  using poll_detects_down [of zero_NodeStatus "[(5, Inr zero_StreamStatus), (7, Inl ''refused''), (9, Inl ''refused'')]" demo_cfg]
  by (simp add: zero_NodeStatus_def failed_in_a_row_def demo_cfg_def)

theorem FailoverOnce_safe_witness:
  "\<exists>res s'. FailoverOnce Mem_Store demo_co 0 (100 * Minute) (100 * Minute) demo_mem = Some (res, s') \<and>
     fo_result res = Inr ''b'' \<and> cl_Epoch (co_cluster (fo_co res)) = 2"
proof -
  obtain res s' to where r: "FailoverOnce Mem_Store demo_co 0 (100 * Minute) (100 * Minute) demo_mem = Some (res, s')"
    "fo_result res = Inr to" "to \<noteq> []"
    using demo_promotes by blast
  obtain cl rv s1 where l: "loadCluster Mem_Store demo_co 0 demo_mem = Some (Inr (cl, rv), s1)"
    "cl_Epoch (co_cluster (fo_co res)) = cl_Epoch cl + 1" "to \<in> set (co_order demo_co)" "to \<noteq> cl_Master cl"
    using FailoverOnce_safe [OF demo_wf r] by blast
  then have "cl = demo_cluster"
    using loadCluster_present [OF mem.reliable_store_axioms demo_mem(1,2), of demo_co 0] demo_known by simp
  with l r show ?thesis by (auto simp: demo_cluster_def demo_co_def)
qed

text \<open>
  C8. Failover happens: on a store that answers, when the master is gone, the cooldown is over and
  some replica is up, \<open>FailoverOnce\<close> promotes a replica. The shared decision is then the one the
  instance holds, and the promotion is in the history under its epoch.
\<close>
theorem FailoverOnce_live:
  assumes "reliable_store S view bound invar" and "invar s" and "co_wf co"
    and "view s clusterKey = Some (DocCluster cl, r)" and "cl_Master cl \<in> set (co_order co)"
    and "view s (historyKey (cl_Epoch cl + 1)) = None"
    and "ns_State (co_status co (cl_Master cl)) \<in> {NodeDown, NodeNeedsRestore}"
    and "c_PromoteCooldown (co_cfg co) \<le> time_Sub now1 (cl_ChangedAt cl)"
    and "n \<in> set (co_order co)" and "n \<noteq> cl_Master cl" and "ns_State (co_status co n) = NodeUp"
  shows "\<exists>res s' to r' h. FailoverOnce S co now0 now1 now2 s = Some (res, s') \<and> fo_result res = Inr to \<and> to \<noteq> [] \<and>
    view s' clusterKey = Some (DocCluster (co_cluster (fo_co res)), r') \<and> cl_Master (co_cluster (fo_co res)) = to \<and>
    view s' (historyKey (cl_Epoch cl + 1)) = Some (DocPromotion (promotion_of cl (co_cluster (fo_co res))), h)"
  using FailoverOnce_promotes [OF assms, of now0 now2] by blast

theorem FailoverOnce_live_witness:
  "\<exists>res s' r'. FailoverOnce Mem_Store demo_co 0 (100 * Minute) (100 * Minute) demo_mem = Some (res, s') \<and>
     mem_view s' clusterKey = Some (DocCluster (co_cluster (fo_co res)), r')"
  using FailoverOnce_live [OF mem.reliable_store_axioms demo_mem(1) demo_wf demo_mem(2), of "100 * Minute" "''b''" 0 "100 * Minute"]
  by (auto simp: demo_mem(3) demo_cluster_def) (auto simp: demo_co_def demo_cfg_def duration_defs time_Sub_def maxDuration_def minDuration_def)

text \<open>
  C4. However many coordinator instances decide about the master at the same time, and whatever
  answers of the store get lost, the decisions form one sequence: epochs count up from 1 without a
  gap or a repetition, each decision names another master than the one before it, and the shared
  state holds the last of them.
\<close>
theorem cluster_decisions_linear:
  assumes "doc_store S view bound invar" and "invar s0" and "view s0 clusterKey = None" and "cluster_reach S view s0 c"
  shows "map cl_Epoch (cy_hist c) = map of_nat [1..<Suc (length (cy_hist c))] \<and>
    successively (\<lambda>a b. cl_Master a \<noteq> cl_Master b) (cy_hist c) \<and>
    (if cy_hist c = [] then view (cy_store c) clusterKey = None
     else \<exists>r. view (cy_store c) clusterKey = Some (DocCluster (last (cy_hist c)), r))"
proof -
  have inv: "doc_store.cluster_inv view bound invar c"
    by (rule doc_store.cluster_inv_reach [OF assms(1,4,2,3)])
  have "doc_store.holds_last (view (cy_store c) clusterKey) (cy_hist c) \<Longrightarrow> (if cy_hist c = [] then view (cy_store c) clusterKey = None
     else \<exists>r. view (cy_store c) clusterKey = Some (DocCluster (last (cy_hist c)), r))"
    by (cases "view (cy_store c) clusterKey") (auto simp: doc_store.holds_last.simps [OF assms(1)])
  with inv show ?thesis by (simp add: doc_store.cluster_inv_def [OF assms(1)] decisions_ok_def)
qed

theorem cluster_decisions_linear_witness:
  "\<exists>c. cluster_reach Mem_Store mem_view NewMem c \<and> cy_hist c = [initial_cluster demo_co 5] \<and>
     map cl_Epoch (cy_hist c) = [1]"
proof -
  obtain c where c: "cluster_reach Mem_Store mem_view NewMem c" "cy_hist c = [initial_cluster demo_co 5]"
    using demo_init_run by blast
  have "map cl_Epoch (cy_hist c) = map of_nat [1..<Suc (length (cy_hist c))]"
    using cluster_decisions_linear [OF mem_docs.doc_store_axioms mem_inv_NewMem _ c(1)] by (simp add: NewMem_def mem_view_def)
  with c show ?thesis by (intro exI [of _ c]) simp
qed

text \<open>
  The history of promotions is complete and oldest first: the zero-padded keys sort like the
  epochs, so \<open>History\<close> returns every promotion in the store in ascending order of its epoch.
\<close>
theorem History_oldest_first:
  assumes "reliable_store S view bound invar" and "invar s" and "history_ok (view s)"
  shows "\<exists>ps. History S s = Inr ps \<and> sorted_wrt (\<lambda>a b. pr_Epoch a < pr_Epoch b) ps \<and>
    (\<forall>p. p \<in> set ps \<longleftrightarrow> (\<exists>r. view s (historyKey (pr_Epoch p)) = Some (DocPromotion p, r)))"
  by (rule History_sorted [OF assms])

theorem History_oldest_first_witness:
  "\<exists>ps. History Mem_Store (NewMem :: doc Mem) = Inr ps \<and> sorted_wrt (\<lambda>a b. pr_Epoch a < pr_Epoch b) ps"
  using History_oldest_first [OF mem.reliable_store_axioms mem_inv_NewMem]
  by (auto simp: history_ok_def NewMem_def mem_view_def)

text \<open>
  New builds are admitted exactly when the publisher (if there is one) is connected, does not
  fail and is not congested, and at least one node can serve; otherwise a reason is given.
\<close>
theorem Admit_iff:
  "ad_Allowed (Admit pub co) \<longleftrightarrow> ad_Reasons (Admit pub co) = [] \<and>
     (case pub of None \<Rightarrow> True | Some h \<Rightarrow> h_Connected h \<and> \<not> h_Failing h \<and> \<not> h_Congested h) \<and>
     (\<exists>n \<in> set (co_order co). ns_State (co_status co n) \<in> {NodeUp, NodeLagging, NodeDegraded, NodeSuspect})"
  by (auto simp: Admit_def Let_def list_ex_iff NodeStatuses_def split: option.splits if_splits)

end
