(* ===== verification/Blob_Store.thy ===== *)
theory Blob_Store
  imports State_Store
begin

text \<open>
  Where backups are kept (package \<open>pkg/coordinator/blob\<close>): the interface as a record of
  operations over a state \<open>'b\<close> and the contract the coordinator relies on as a locale, and the
  store on a directory, \<open>FS\<close>, on a model of the file system below its root: files with their
  content and modification time, directories, and a flag for a disk that fails.
\<close>

section \<open>The interface\<close>

datatype blob_error = BlobNotFound | BlobInvalidName | BlobIO

record Info =
  in_Name :: string
  in_Size :: int
  in_ModTime :: time

text \<open>The content handed to \<open>Put\<close> is a reader: the bytes it yields, or \<open>None\<close> when it fails on the way.\<close>

record 'b BlobStore =
  bl_Put :: "'b \<Rightarrow> string \<Rightarrow> bytes option \<Rightarrow> int \<Rightarrow> blob_error option \<times> 'b"
  bl_Get :: "'b \<Rightarrow> string \<Rightarrow> blob_error + bytes"
  bl_List :: "'b \<Rightarrow> string \<Rightarrow> blob_error + Info list"
  bl_Delete :: "'b \<Rightarrow> string \<Rightarrow> blob_error option \<times> 'b"

definition name_char :: "char \<Rightarrow> bool" where
  "name_char c \<longleftrightarrow> is_alnum c \<or> c \<in> set ''._=/-''"

definition ValidName :: "string \<Rightarrow> bool" where
  "ValidName name \<longleftrightarrow>
     (case name of [] \<Rightarrow> False | c # cs \<Rightarrow> is_alnum c \<and> length cs \<le> 511 \<and> list_all name_char cs) \<and>
     list_all (\<lambda>part. part \<noteq> [] \<and> part \<noteq> ''.'' \<and> part \<noteq> ''..'') (Split_char (CHR ''/'') name)"

text \<open>
  What a user of the interface relies on: an object is there completely or not at all, an
  operation on one name leaves the others alone, and \<open>BlobNotFound\<close> proves that there is nothing.
\<close>

locale blob_store =
  fixes Bl :: "'b BlobStore" and cont :: "'b \<Rightarrow> string \<Rightarrow> bytes option"
  assumes put_done: "bl_Put Bl b n (Some d) sz = (None, b') \<Longrightarrow> cont b' = (cont b)(n \<mapsto> d)"
    and put_failed: "bl_Put Bl b n r sz = (Some err, b') \<Longrightarrow> m \<noteq> n \<Longrightarrow> cont b' m = cont b m"
    and put_reader: "bl_Put Bl b n r sz = (None, b') \<Longrightarrow> r \<noteq> None"
    and get_data: "bl_Get Bl b n = Inr d \<Longrightarrow> cont b n = Some d"
    and get_gone: "bl_Get Bl b n = Inl BlobNotFound \<Longrightarrow> cont b n = None"
    and delete_done: "bl_Delete Bl b n = (None, b') \<Longrightarrow> cont b' = (cont b)(n := None)"
    and delete_failed: "bl_Delete Bl b n = (Some err, b') \<Longrightarrow> m \<noteq> n \<Longrightarrow> cont b' m = cont b m"
    and list_prefix: "bl_List Bl b p = Inr infos \<Longrightarrow> i \<in> set infos \<Longrightarrow> HasPrefix (in_Name i) p"
begin

lemma delete_other: "bl_Delete Bl b n = (res, b') \<Longrightarrow> m \<noteq> n \<Longrightarrow> cont b' m = cont b m"
  by (cases res) (auto dest: delete_done delete_failed)

end

section \<open>A store on a directory\<close>

record FS =
  fs_files :: "(string \<times> (bytes \<times> time)) list"
  fs_dirs :: "string list"
  fs_clock :: time
  fs_works :: bool

text \<open>The directories above a name.\<close>

definition parents :: "string \<Rightarrow> string list" where
  "parents name = map (\<lambda>i. take i name) (filter (\<lambda>i. name ! i = CHR ''/'') [0..<length name])"

definition is_file :: "FS \<Rightarrow> string \<Rightarrow> bool" where
  "is_file f name \<longleftrightarrow> map_of (fs_files f) name \<noteq> None"

definition fs_Put :: "FS \<Rightarrow> string \<Rightarrow> bytes option \<Rightarrow> int \<Rightarrow> blob_error option \<times> FS" where
  [store_defs]: "fs_Put f name r sz =
     (if \<not> ValidName name then (Some BlobInvalidName, f)
      else if \<not> fs_works f \<or> list_ex (is_file f) (parents name) then (Some BlobIO, f)
      else let f1 = f\<lparr>fs_dirs := remdups (parents name @ fs_dirs f)\<rparr> in
           case r of
             None \<Rightarrow> (Some BlobIO, f1)
           | Some d \<Rightarrow>
               if name \<in> set (fs_dirs f1) then (Some BlobIO, f1)
               else (None, f1\<lparr>fs_files := AList.update name (d, fs_clock f) (fs_files f1)\<rparr>))"

definition fs_Get :: "FS \<Rightarrow> string \<Rightarrow> blob_error + bytes" where
  [store_defs]: "fs_Get f name =
     (if \<not> ValidName name then Inl BlobInvalidName
      else if \<not> fs_works f then Inl BlobIO
      else case map_of (fs_files f) name of
        Some (d, _) \<Rightarrow> Inr d
      | None \<Rightarrow> if name \<in> set (fs_dirs f) \<or> list_ex (is_file f) (parents name) then Inl BlobIO else Inl BlobNotFound)"

text \<open>The last element of a path, which \<open>List\<close> looks at to leave out files that are being written.\<close>

definition base_name :: "string \<Rightarrow> string" where
  "base_name name = last (Split_char (CHR ''/'') name)"

definition fs_List :: "FS \<Rightarrow> string \<Rightarrow> blob_error + Info list" where
  [store_defs]: "fs_List f pre =
     (if \<not> fs_works f then Inl BlobIO
      else Inr (sort_Slice (\<lambda>a b. in_Name a < in_Name b)
        (map (\<lambda>(name, d, t). \<lparr>in_Name = name, in_Size = int (length d), in_ModTime = t\<rparr>)
          (filter (\<lambda>(name, _). \<not> HasPrefix (base_name name) ''.put-'' \<and> HasPrefix name pre) (fs_files f)))))"

definition dir_used :: "FS \<Rightarrow> string \<Rightarrow> bool" where
  "dir_used f dir \<longleftrightarrow> list_ex (\<lambda>n. HasPrefix n (dir @ ''/'')) (map fst (fs_files f) @ fs_dirs f)"

definition fs_Delete :: "FS \<Rightarrow> string \<Rightarrow> blob_error option \<times> FS" where
  [store_defs]: "fs_Delete f name =
     (if \<not> ValidName name then (Some BlobInvalidName, f)
      else if \<not> fs_works f then (Some BlobIO, f)
      else if is_file f name then (None, f\<lparr>fs_files := AList.delete name (fs_files f)\<rparr>)
      else if name \<in> set (fs_dirs f) then
        if dir_used f name then (Some BlobIO, f) else (None, f\<lparr>fs_dirs := removeAll name (fs_dirs f)\<rparr>)
      else if list_ex (is_file f) (parents name) then (Some BlobIO, f)
      else (None, f))"

definition FS_Store :: "FS BlobStore" where
  [store_defs]: "FS_Store = \<lparr>bl_Put = fs_Put, bl_Get = fs_Get, bl_List = fs_List, bl_Delete = fs_Delete\<rparr>"

definition fs_cont :: "FS \<Rightarrow> string \<Rightarrow> bytes option" where
  "fs_cont f name = map_option fst (map_of (fs_files f) name)"

interpretation fs: blob_store FS_Store fs_cont
proof (unfold_locales, goal_cases)
  case (6 b n b')
  then show ?case
    by (cases "map_of (fs_files b) n")
      (auto simp: store_defs fs_cont_def fun_eq_iff is_file_def delete_conv' split: if_splits)
next
  case (8 b p infos i)
  then show ?case by (auto simp: store_defs split: if_splits)
qed (auto simp: store_defs fs_cont_def Let_def fun_eq_iff update_conv' delete_conv'
    split: if_splits option.splits)

section \<open>Names and the directory\<close>

text \<open>A valid name stays below the root: no element of its path is empty, dot or dot-dot.\<close>

lemma ValidName_parts: "ValidName name \<Longrightarrow> part \<in> set (Split_char (CHR ''/'') name) \<Longrightarrow> part \<notin> {[], ''.'', ''..''}"
  by (auto simp: ValidName_def list_all_iff)

text \<open>
  What \<open>Put\<close> stored under a name is what \<open>Get\<close> returns, and \<open>List\<close> reports it with its
  size, unless the last element of the name starts with \<open>.put-\<close>, which \<open>List\<close> leaves out.
\<close>
theorem fs_Put_Get:
  assumes "distinct (map fst (fs_files f))" and "fs_Put f name (Some d) sz = (None, f')"
  shows "fs_Get f' name = Inr d \<and>
    (\<exists>infos. fs_List f' [] = Inr infos \<and>
      ((\<exists>i \<in> set infos. in_Name i = name \<and> in_Size i = int (length d)) \<longleftrightarrow> \<not> HasPrefix (base_name name) ''.put-''))"
proof -
  have ok: "ValidName name" "fs_works f"
    and f': "fs_files f' = AList.update name (d, fs_clock f) (fs_files f)" "fs_works f' = fs_works f"
    using assms by (auto simp: fs_Put_def Let_def split: if_splits)
  have m: "map_of (fs_files f') name = Some (d, fs_clock f)" by (simp add: f' update_conv')
  have "distinct (map fst (fs_files f'))" using assms(1) by (simp add: f' distinct_update)
  then have mem: "(name, d', t) \<in> set (fs_files f') \<longleftrightarrow> d' = d \<and> t = fs_clock f" for d' t
    using m by (metis map_of_eq_Some_iff option.inject prod.inject)
  have "fs_Get f' name = Inr d" using ok m f' by (simp add: fs_Get_def)
  moreover have "HasPrefix n []" for n by (simp add: HasPrefix_def)
  ultimately show ?thesis
    using ok f'(2) mem by (auto simp: fs_List_def image_iff)
qed

theorem fs_Put_Get_witness:
  "\<exists>f'. fs_Put \<lparr>fs_files = [], fs_dirs = [], fs_clock = 1, fs_works = True\<rparr> ''a/.put-x'' (Some ''data'') 4 = (None, f') \<and>
     fs_Get f' ''a/.put-x'' = Inr ''data''"
proof -
  let ?f = "\<lparr>fs_files = [], fs_dirs = [], fs_clock = 1, fs_works = True\<rparr>"
  have "fst (fs_Put ?f ''a/.put-x'' (Some ''data'') 4) = None" by code_simp
  then obtain f' where p: "fs_Put ?f ''a/.put-x'' (Some ''data'') 4 = (None, f')" by (metis prod.collapse)
  have "distinct (map fst (fs_files ?f))" by simp
  from fs_Put_Get [OF this p] p show ?thesis by blast
qed

end
