(* ===== verification/Backups.thy ===== *)
theory Backups
  imports Cluster Blob_Store
begin

text \<open>
  Backups (\<open>pkg/coordinator/backups.go\<close>): the schedule of the periodic jobs, taking a backup
  from a replica, pruning, choosing the backup to recover from, and verifying what is stored. The
  operations work on the shared state and the blob store together. What nodes, the restore in a
  scratch node and the clock answer are arguments; \<open>sha\<close> is the hexadecimal SHA-256 of some bytes.
\<close>

section \<open>Schedules\<close>

definition zero_Schedule :: Schedule where
  "zero_Schedule = \<lparr>sc_LastAttempt = 0, sc_LastSuccess = 0, sc_LastError = []\<rparr>"

definition loadSchedule :: "('s, doc) Store \<Rightarrow> 's \<Rightarrow> string \<Rightarrow> state_error + Schedule \<times> nat" where
  "loadSchedule S s job =
     (case GetJSON S as_Schedule s (''schedule/'' @ job) of
        Inl err \<Rightarrow> if err = ErrNotFound then Inr (zero_Schedule, 0) else Inl err
      | Inr (x, rv) \<Rightarrow> Inr (x, rv))"

text \<open>The attempts of \<open>saveSchedule\<close> that are left.\<close>

fun save_attempts :: "('s, doc) Store \<Rightarrow> string \<Rightarrow> Schedule \<Rightarrow> nat \<Rightarrow> 's \<Rightarrow> 's" where
  "save_attempts S job x 0 s = s"
| "save_attempts S job x (Suc n) s =
     (case (case loadSchedule S s job of
              Inl err \<Rightarrow> (Inl err, s)
            | Inr (_, rv) \<Rightarrow>
                if rv = 0 then CreateJSON S DocSchedule s (''schedule/'' @ job) x
                else UpdateJSON S DocSchedule s (''schedule/'' @ job) x rv) of
        (Inl err, s') \<Rightarrow> if err = ErrConflict then save_attempts S job x n s' else s'
      | (Inr _, s') \<Rightarrow> s')"

definition saveSchedule :: "('s, doc) Store \<Rightarrow> string \<Rightarrow> Schedule \<Rightarrow> 's \<Rightarrow> 's" where
  "saveSchedule S job x s = save_attempts S job x 3 s"

definition due :: "Config \<Rightarrow> time \<Rightarrow> Schedule \<Rightarrow> duration \<Rightarrow> bool" where
  "due cfg now x interval \<longleftrightarrow>
     (if interval \<le> 0 then False
      else if sc_LastSuccess x < sc_LastAttempt x \<and> time_Sub now (sc_LastAttempt x) < c_BackupRetry cfg then False
      else time_IsZero (sc_LastSuccess x) \<or> interval \<le> time_Sub now (sc_LastSuccess x))"

text \<open>The jobs that \<open>startDueJobs\<close> hands to \<open>runJob\<close>, in order; \<open>runJob\<close> drops one while another runs.\<close>

definition startDueJobs :: "('s, doc) Store \<Rightarrow> Config \<Rightarrow> bool \<Rightarrow> time \<Rightarrow> time \<Rightarrow> 's \<Rightarrow> string list" where
  "startDueJobs S cfg hasBlobs now0 now1 s =
     (if \<not> hasBlobs then []
      else (case loadSchedule S s ''backup'' of
              Inl _ \<Rightarrow> [] | Inr (x, _) \<Rightarrow> if due cfg now0 x (c_BackupInterval cfg) then [''backup''] else []) @
           (case loadSchedule S s ''verify'' of
              Inl _ \<Rightarrow> [] | Inr (x, _) \<Rightarrow> if due cfg now1 x (c_VerifyInterval cfg) then [''verify''] else []))"

text \<open>\<open>TryLock\<close> of \<open>jobMu\<close>: what is started, and the lock afterwards; it is released when the job ends.\<close>

definition runJob :: "bool \<Rightarrow> string \<Rightarrow> string option \<times> bool" where
  "runJob locked name = (if locked then (None, locked) else (Some name, True))"

section \<open>Records of backups\<close>

definition backupPrefix :: string where "backupPrefix = ''backups/''"

definition br_Name :: "BackupRecord \<Rightarrow> string" where
  "br_Name r = bi_Name (br_Info r)"

fun read_records :: "('s, doc) Store \<Rightarrow> 's \<Rightarrow> string list \<Rightarrow> state_error + (BackupRecord \<times> nat) list" where
  "read_records S s [] = Inr []"
| "read_records S s (k # ks) =
     (case GetJSON S as_Backup s k of
        Inl err \<Rightarrow> if err = ErrNotFound then read_records S s ks else Inl err
      | Inr (r, rv) \<Rightarrow> (case read_records S s ks of Inl err \<Rightarrow> Inl err | Inr rs \<Rightarrow> Inr ((r, rv) # rs)))"

text \<open>Newest first; of two made at the same instant the one with the greater name.\<close>

definition newer :: "BackupRecord \<times> nat \<Rightarrow> BackupRecord \<times> nat \<Rightarrow> bool" where
  "newer a b \<longleftrightarrow>
     (if bi_CreatedAt (br_Info (fst a)) \<noteq> bi_CreatedAt (br_Info (fst b))
      then bi_CreatedAt (br_Info (fst b)) < bi_CreatedAt (br_Info (fst a))
      else br_Name (fst b) < br_Name (fst a))"

definition listBackupRecords :: "('s, doc) Store \<Rightarrow> 's \<Rightarrow> state_error + (BackupRecord \<times> nat) list" where
  "listBackupRecords S s =
     (case st_List S s backupPrefix of
        Inl err \<Rightarrow> Inl err
      | Inr entries \<Rightarrow>
          (case read_records S s (map e_Key entries) of
             Inl err \<Rightarrow> Inl err
           | Inr recs \<Rightarrow> Inr (sort_Slice newer recs)))"

datatype backup_error =
    ErrNoBlobStore
  | ErrNoBackupNode
  | ErrNoBackups
  | ErrNode string
  | ErrChecksum
  | ErrBlob blob_error
  | ErrBackupState state_error
  | ErrBackupDamaged
  | ErrVerify string
  | ErrCancelled
  | ErrJoined "backup_error list"

section \<open>Choosing the backup to recover from\<close>

fun latest_usable :: "(BackupRecord \<times> nat) list \<Rightarrow> (BackupRecord \<times> nat) option \<Rightarrow> (BackupRecord \<times> nat) option" where
  "latest_usable [] fallback = fallback"
| "latest_usable (r # rs) fallback =
     (case br_Status (fst r) of
        BackupVerified \<Rightarrow> Some r
      | BackupUploaded \<Rightarrow> latest_usable rs (if fallback = None then Some r else fallback)
      | BackupBad \<Rightarrow> latest_usable rs fallback)"

definition LatestUsable :: "('s, doc) Store \<Rightarrow> 's \<Rightarrow> backup_error + BackupRecord \<times> nat" where
  "LatestUsable S s =
     (case listBackupRecords S s of
        Inl err \<Rightarrow> Inl (ErrBackupState err)
      | Inr recs \<Rightarrow> (case latest_usable recs None of None \<Rightarrow> Inl ErrNoBackups | Some r \<Rightarrow> Inr r))"

text \<open>
  The result is the record and what was written to \<open>w\<close>. The object may be damaged on the way, so
  the checksum decides.
\<close>

definition FetchBackup ::
  "(bytes \<Rightarrow> string) \<Rightarrow> ('s, doc) Store \<Rightarrow> 'b BlobStore option \<Rightarrow> 's \<Rightarrow> 'b \<Rightarrow> string \<Rightarrow> backup_error + BackupRecord \<times> bytes" where
  "FetchBackup sha S blobs s b name =
     (case blobs of
        None \<Rightarrow> Inl ErrNoBlobStore
      | Some Bl \<Rightarrow>
          (case (if name = [] then map_sum id fst (LatestUsable S s)
                 else (case GetJSON S as_Backup s (backupPrefix @ name) of
                         Inl err \<Rightarrow> Inl (ErrBackupState err) | Inr (r, _) \<Rightarrow> Inr r)) of
             Inl err \<Rightarrow> Inl err
           | Inr rec \<Rightarrow>
               (case bl_Get Bl b (br_Name rec) of
                  Inl err \<Rightarrow> if err = BlobNotFound then Inl ErrBackupDamaged else Inl (ErrBlob err)
                | Inr d \<Rightarrow> if sha d \<noteq> bi_SHA256 (br_Info rec) then Inl ErrBackupDamaged else Inr (rec, d))))"

section \<open>Pruning\<close>

fun keep_newest :: "int \<Rightarrow> int \<Rightarrow> (BackupRecord \<times> nat) list \<Rightarrow> string list" where
  "keep_newest retention usable [] = []"
| "keep_newest retention usable (r # rs) =
     (if br_Status (fst r) = BackupBad then keep_newest retention usable rs
      else if usable + 1 \<le> retention then br_Name (fst r) # keep_newest retention (usable + 1) rs
      else keep_newest retention (usable + 1) rs)"

definition keep_verified :: "(BackupRecord \<times> nat) list \<Rightarrow> string list" where
  "keep_verified recs = (case find (\<lambda>r. br_Status (fst r) = BackupVerified) recs of None \<Rightarrow> [] | Some r \<Rightarrow> [br_Name (fst r)])"

text \<open>The loop that deletes: the errors and the new state.\<close>

fun prune_records ::
  "('s, doc) Store \<Rightarrow> 'b BlobStore \<Rightarrow> string list \<Rightarrow> (BackupRecord \<times> nat) list \<Rightarrow> 's \<Rightarrow> 'b \<Rightarrow> backup_error list \<times> 's \<times> 'b" where
  "prune_records S Bl keep [] s b = ([], s, b)"
| "prune_records S Bl keep (r # rs) s b =
     (if br_Name (fst r) \<in> set keep then prune_records S Bl keep rs s b
      else case bl_Delete Bl b (br_Name (fst r)) of
        (Some err, b1) \<Rightarrow> (case prune_records S Bl keep rs s b1 of (es, s', b') \<Rightarrow> (ErrBlob err # es, s', b'))
      | (None, b1) \<Rightarrow>
          (case st_Delete S s (backupPrefix @ br_Name (fst r)) of
             (Some err, s1) \<Rightarrow> (case prune_records S Bl keep rs s1 b1 of (es, s', b') \<Rightarrow> (ErrBackupState err # es, s', b'))
           | (None, s1) \<Rightarrow> prune_records S Bl keep rs s1 b1))"

fun delete_orphans :: "'b BlobStore \<Rightarrow> string list \<Rightarrow> bool \<Rightarrow> duration \<Rightarrow> time \<Rightarrow> Info list \<Rightarrow> 'b \<Rightarrow> 'b" where
  "delete_orphans Bl known mayDelete grace now [] b = b"
| "delete_orphans Bl known mayDelete grace now (i # is) b =
     (if in_Name i \<in> set known \<or> \<not> HasSuffix (in_Name i) ''.tgz'' then delete_orphans Bl known mayDelete grace now is b
      else if mayDelete \<and> grace < time_Sub now (in_ModTime i)
        then delete_orphans Bl known mayDelete grace now is (snd (bl_Delete Bl b (in_Name i)))
      else delete_orphans Bl known mayDelete grace now is b)"

definition handleOrphans ::
  "'b BlobStore \<Rightarrow> Config \<Rightarrow> time \<Rightarrow> (BackupRecord \<times> nat) list \<Rightarrow> bool \<Rightarrow> 'b \<Rightarrow> 'b" where
  "handleOrphans Bl cfg now recs mayDelete b =
     (case bl_List Bl b ''zincsearch-'' of
        Inl err \<Rightarrow> b
      | Inr infos \<Rightarrow>
          delete_orphans Bl (map (\<lambda>r. br_Name (fst r)) recs)
            (mayDelete \<and> recs \<noteq> [] \<and> 0 < c_OrphanGrace cfg) (c_OrphanGrace cfg) now infos b)"

definition Prune ::
  "('s, doc) Store \<Rightarrow> 'b BlobStore \<Rightarrow> Config \<Rightarrow> time \<Rightarrow> 's \<Rightarrow> 'b \<Rightarrow> backup_error list \<times> 's \<times> 'b" where
  "Prune S Bl cfg now s b =
     (case listBackupRecords S s of
        Inl err \<Rightarrow> ([ErrBackupState err], s, b)
      | Inr recs \<Rightarrow>
          if list_all (\<lambda>r. br_Status (fst r) = BackupBad) recs then ([], s, handleOrphans Bl cfg now recs False b)
          else let keep = keep_newest (c_BackupRetention cfg) 0 recs @ keep_verified recs in
               case prune_records S Bl keep recs s b of
                 (es, s', b') \<Rightarrow> (es, s', handleOrphans Bl cfg now recs True b'))"

section \<open>Taking a backup\<close>

fun pick_backup :: "string \<Rightarrow> NodeStatus list \<Rightarrow> string option \<Rightarrow> u64 \<Rightarrow> string option" where
  "pick_backup master [] best freshest = best"
| "pick_backup master (s # ss) best freshest =
     (if ns_Name s = master \<or> ns_State s \<noteq> NodeUp then pick_backup master ss best freshest
      else if best = None \<or> freshest < ss_LastApplied (ns_Stream s)
        then pick_backup master ss (Some (ns_Name s)) (ss_LastApplied (ns_Stream s))
      else pick_backup master ss best freshest)"

definition pickBackupNode :: "Coordinator \<Rightarrow> backup_error + string" where
  "pickBackupNode co =
     (case pick_backup (cl_Master (ClusterState co)) (NodeStatuses co) None 0 of
        None \<Rightarrow> Inl ErrNoBackupNode | Some n \<Rightarrow> Inr n)"

text \<open>
  What the node answers: the backup it made, and for the download its checksum header and the body
  (\<open>None\<close>: the connection breaks on the way). \<open>bt_*\<close> are the readings of the clock.
\<close>

record backup_env =
  be_create :: "string \<Rightarrow> string + BackupInfo"
  be_download :: "string \<Rightarrow> string \<Rightarrow> string + (string \<times> bytes option)"
  bt_start :: time
  bt_record :: time
  bt_prune :: time
  bt_end :: time

definition backup_from ::
  "(bytes \<Rightarrow> string) \<Rightarrow> ('s, doc) Store \<Rightarrow> 'b BlobStore \<Rightarrow> Coordinator \<Rightarrow> backup_env \<Rightarrow> string \<Rightarrow> 's \<Rightarrow> 'b \<Rightarrow>
   (backup_error + BackupRecord) \<times> 's \<times> 'b" where
  "backup_from sha S Bl co en node s b =
     (case be_create en node of
        Inl err \<Rightarrow> (Inl (ErrNode err), s, b)
      | Inr info \<Rightarrow>
          (case be_download en node (bi_Name info) of
             Inl err \<Rightarrow> (Inl (ErrNode err), s, b)
           | Inr (header, body) \<Rightarrow>
               if header \<noteq> [] \<and> header \<noteq> bi_SHA256 info then (Inl ErrChecksum, s, b)
               else (case bl_Put Bl b (bi_Name info) body (bi_Size info) of
                       (Some err, b1) \<Rightarrow> (Inl (ErrBlob err), s, b1)
                     | (None, b1) \<Rightarrow>
                         if sha (the body) \<noteq> bi_SHA256 info
                         then (Inl ErrChecksum, s, snd (bl_Delete Bl b1 (bi_Name info)))
                         else let rec = \<lparr>br_Info = info, br_Node = node, br_UploadedAt = bt_record en,
                                         br_Status = BackupUploaded, br_CheckedAt = Some (bt_record en),
                                         br_VerifiedAt = None, br_Note = []\<rparr> in
                              (case CreateJSON S DocBackup s (backupPrefix @ bi_Name info) rec of
                                 (Inl err, s1) \<Rightarrow> (Inl (ErrBackupState err), s1, b1)
                               | (Inr _, s1) \<Rightarrow>
                                   (case Prune S Bl (co_cfg co) (bt_prune en) s1 b1 of
                                      (_, s2, b2) \<Rightarrow> (Inr rec, s2, b2))))))"

text \<open>\<open>msg\<close> gives the message of an error.\<close>

definition job_done :: "(backup_error \<Rightarrow> string) \<Rightarrow> (backup_error + 'a) \<Rightarrow> time \<Rightarrow> Schedule \<Rightarrow> Schedule" where
  "job_done msg res now x =
     (case res of
        Inl err \<Rightarrow> x\<lparr>sc_LastError := msg err\<rparr>
      | Inr _ \<Rightarrow> x\<lparr>sc_LastSuccess := now, sc_LastError := []\<rparr>)"

definition loaded_or_zero :: "(state_error + Schedule \<times> nat) \<Rightarrow> Schedule" where
  "loaded_or_zero res = (case res of Inl _ \<Rightarrow> zero_Schedule | Inr (x, _) \<Rightarrow> x)"

definition BackupOnce ::
  "(backup_error \<Rightarrow> string) \<Rightarrow> (bytes \<Rightarrow> string) \<Rightarrow> ('s, doc) Store \<Rightarrow> 'b BlobStore option \<Rightarrow> Coordinator \<Rightarrow> backup_env \<Rightarrow> 's \<Rightarrow> 'b \<Rightarrow>
   (backup_error + BackupRecord) \<times> 's \<times> 'b" where
  "BackupOnce msg sha S blobs co en s b =
     (case blobs of
        None \<Rightarrow> (Inl ErrNoBlobStore, s, b)
      | Some Bl \<Rightarrow>
          let sched = (loaded_or_zero (loadSchedule S s ''backup''))\<lparr>sc_LastAttempt := bt_start en\<rparr>;
              (res, s1, b1) = (case pickBackupNode co of
                                 Inl err \<Rightarrow> (Inl err, s, b)
                               | Inr node \<Rightarrow> backup_from sha S Bl co en node s b)
          in (res, saveSchedule S ''backup'' (job_done msg res (bt_end en) sched) s1, b1))"

section \<open>Verifying what is stored\<close>

definition checkStored :: "(bytes \<Rightarrow> string) \<Rightarrow> 'b BlobStore \<Rightarrow> 'b \<Rightarrow> BackupRecord \<Rightarrow> backup_error option" where
  "checkStored sha Bl b r =
     (case bl_Get Bl b (br_Name r) of
        Inl err \<Rightarrow> Some (if err = BlobNotFound then ErrBackupDamaged else ErrBlob err)
      | Inr d \<Rightarrow> if sha d \<noteq> bi_SHA256 (br_Info r) then Some ErrBackupDamaged else None)"

definition saveRecord ::
  "('s, doc) Store \<Rightarrow> BackupRecord \<times> nat \<Rightarrow> 's \<Rightarrow> state_error option \<times> (BackupRecord \<times> nat) \<times> 's" where
  "saveRecord S r s =
     (case UpdateJSON S DocBackup s (backupPrefix @ br_Name (fst r)) (fst r) (snd r) of
        (Inr rv, s') \<Rightarrow> (None, (fst r, rv), s')
      | (Inl err, s') \<Rightarrow> (Some err, r, s'))"

definition markBad ::
  "(backup_error \<Rightarrow> string) \<Rightarrow> ('s, doc) Store \<Rightarrow> backup_error \<Rightarrow> BackupRecord \<times> nat \<Rightarrow> 's \<Rightarrow> (BackupRecord \<times> nat) \<times> 's" where
  "markBad msg S why r s =
     (case saveRecord S ((fst r)\<lparr>br_Status := BackupBad, br_Note := msg why\<rparr>, snd r) s of (_, r', s') \<Rightarrow> (r', s'))"

datatype verify_outcome = VGood | VExit | VOther string

text \<open>
  \<open>ve_cancelled1\<close> and \<open>ve_cancelled2\<close>: the context has ended when the check, or the restore,
  of a backup failed; \<open>ve_tmp\<close>: an error with the temporary file; \<open>ve_deep\<close>: what restoring
  the archive in a scratch node gave (\<open>VExit\<close>: the program ran and reported failure).
\<close>

record verify_env =
  ve_cancelled1 :: "string \<Rightarrow> bool"
  ve_cancelled2 :: bool
  ve_tmp :: "string option"
  ve_deep :: "bytes \<Rightarrow> verify_outcome"
  vt_start :: time
  vt_check :: "string \<Rightarrow> time"
  vt_deep :: time
  vt_end :: time

fun check_all ::
  "(backup_error \<Rightarrow> string) \<Rightarrow> (bytes \<Rightarrow> string) \<Rightarrow> ('s, doc) Store \<Rightarrow> 'b BlobStore \<Rightarrow> verify_env \<Rightarrow> 'b \<Rightarrow>
   (BackupRecord \<times> nat) list \<Rightarrow> 's \<Rightarrow> (backup_error + backup_error list) \<times> (BackupRecord \<times> nat) list \<times> 's" where
  "check_all msg sha S Bl en b [] s = (Inr [], [], s)"
| "check_all msg sha S Bl en b (r # rs) s =
     (if br_Status (fst r) = BackupBad then
        (case check_all msg sha S Bl en b rs s of (res, rs', s') \<Rightarrow> (res, r # rs', s'))
      else case checkStored sha Bl b (fst r) of
        Some err \<Rightarrow>
          if ve_cancelled1 en (br_Name (fst r)) then (Inl ErrCancelled, r # rs, s)
          else (case (if err = ErrBackupDamaged then markBad msg S err r s else (r, s)) of (r', s1) \<Rightarrow>
            (case check_all msg sha S Bl en b rs s1 of (res, rs', s') \<Rightarrow> (map_sum id (\<lambda>es. err # es) res, r' # rs', s')))
      | None \<Rightarrow>
          (case saveRecord S ((fst r)\<lparr>br_CheckedAt := Some (vt_check en (br_Name (fst r)))\<rparr>, snd r) s of (e, r', s1) \<Rightarrow>
            (case check_all msg sha S Bl en b rs s1 of (res, rs', s') \<Rightarrow>
               (map_sum id (\<lambda>es. (case e of None \<Rightarrow> es | Some x \<Rightarrow> ErrBackupState x # es)) res, r' # rs', s'))))"

definition deepVerify ::
  "(bytes \<Rightarrow> string) \<Rightarrow> ('s, doc) Store \<Rightarrow> 'b BlobStore \<Rightarrow> verify_env \<Rightarrow> 'b \<Rightarrow> BackupRecord \<times> nat \<Rightarrow> 's \<Rightarrow>
   backup_error option \<times> 's" where
  "deepVerify sha S Bl en b r s =
     (case ve_tmp en of
        Some err \<Rightarrow> (Some (ErrVerify err), s)
      | None \<Rightarrow>
          (case FetchBackup sha S (Some Bl) s b (br_Name (fst r)) of
             Inl err \<Rightarrow> (Some err, s)
           | Inr (_, d) \<Rightarrow>
               (case ve_deep en d of
                  VExit \<Rightarrow> (Some ErrBackupDamaged, s)
                | VOther err \<Rightarrow> (Some (ErrVerify err), s)
                | VGood \<Rightarrow>
                    (case saveRecord S ((fst r)\<lparr>br_Status := BackupVerified, br_VerifiedAt := Some (vt_deep en), br_Note := []\<rparr>, snd r) s of
                       (e, _, s') \<Rightarrow> (map_option ErrBackupState e, s')))))"

definition verify_newest ::
  "(backup_error \<Rightarrow> string) \<Rightarrow> (bytes \<Rightarrow> string) \<Rightarrow> ('s, doc) Store \<Rightarrow> 'b BlobStore \<Rightarrow> verify_env \<Rightarrow> 'b \<Rightarrow>
   (BackupRecord \<times> nat) list \<Rightarrow> 's \<Rightarrow> (backup_error + backup_error list) \<times> 's" where
  "verify_newest msg sha S Bl en b recs s =
     (case find (\<lambda>r. br_Status (fst r) \<noteq> BackupBad) recs of
        None \<Rightarrow> (Inr [], s)
      | Some r \<Rightarrow>
          (case deepVerify sha S Bl en b r s of
             (None, s') \<Rightarrow> (Inr [], s')
           | (Some err, s') \<Rightarrow>
               if ve_cancelled2 en then (Inl ErrCancelled, s')
               else (Inr [err], if err = ErrBackupDamaged then snd (markBad msg S err r s') else s')))"

definition verify_all ::
  "(backup_error \<Rightarrow> string) \<Rightarrow> (bytes \<Rightarrow> string) \<Rightarrow> ('s, doc) Store \<Rightarrow> 'b BlobStore \<Rightarrow> bool \<Rightarrow> verify_env \<Rightarrow> 'b \<Rightarrow> 's \<Rightarrow>
   (backup_error + unit) \<times> 's" where
  "verify_all msg sha S Bl hasVerifier en b s =
     (case listBackupRecords S s of
        Inl err \<Rightarrow> (Inl (ErrBackupState err), s)
      | Inr recs \<Rightarrow>
          (case check_all msg sha S Bl en b recs s of
             (Inl err, _, s1) \<Rightarrow> (Inl err, s1)
           | (Inr es, recs1, s1) \<Rightarrow>
               (case (if hasVerifier then verify_newest msg sha S Bl en b recs1 s1 else (Inr [], s1)) of
                  (Inl err, s2) \<Rightarrow> (Inl err, s2)
                | (Inr es', s2) \<Rightarrow> (if es @ es' = [] then Inr () else Inl (ErrJoined (es @ es')), s2))))"

definition VerifyOnce ::
  "(backup_error \<Rightarrow> string) \<Rightarrow> (bytes \<Rightarrow> string) \<Rightarrow> ('s, doc) Store \<Rightarrow> 'b BlobStore option \<Rightarrow> bool \<Rightarrow> verify_env \<Rightarrow> 'b \<Rightarrow> 's \<Rightarrow>
   (backup_error + unit) \<times> 's" where
  "VerifyOnce msg sha S blobs hasVerifier en b s =
     (case blobs of
        None \<Rightarrow> (Inl ErrNoBlobStore, s)
      | Some Bl \<Rightarrow>
          let sched = (loaded_or_zero (loadSchedule S s ''verify''))\<lparr>sc_LastAttempt := vt_start en\<rparr>;
              (res, s1) = verify_all msg sha S Bl hasVerifier en b s
          in (res, saveSchedule S ''verify'' (job_done msg res (vt_end en) sched) s1))"

section \<open>The list of backups\<close>

lemma strict_sorted_unique:
  assumes "\<And>a b. P a b \<Longrightarrow> \<not> P b a"
  shows "sorted_wrt P xs \<Longrightarrow> sorted_wrt P ys \<Longrightarrow> set xs = set ys \<Longrightarrow> xs = ys"
proof (induction xs arbitrary: ys)
  case (Cons x xs)
  then obtain y ys' where ys: "ys = y # ys'" by (cases ys) auto
  have "x = y"
  proof (rule ccontr)
    assume "x \<noteq> y"
    with Cons.prems(3) ys have "x \<in> set ys'" "y \<in> set xs" by auto
    with Cons.prems(1,2) ys have "P y x" "P x y" by auto
    with assms show False by blast
  qed
  moreover have "x \<notin> set xs" "y \<notin> set ys'" using Cons.prems(1,2) ys assms by auto
  moreover have "insert x (set xs) = insert x (set ys')" using Cons.prems(3) ys \<open>x = y\<close> by simp
  ultimately have "x = y" "set xs = set ys'" using insert_ident [of x "set xs" "set ys'"] by simp_all
  then show ?case using Cons ys by auto
qed simp

lemma newer_asym: "newer a b \<Longrightarrow> \<not> newer b a"
  by (auto simp: newer_def split: if_splits)

lemma weak_order_newer: "weak_order newer"
  unfolding weak_order_def newer_def by (auto split: if_splits)

lemma newer_total: "br_Name (fst a) \<noteq> br_Name (fst b) \<Longrightarrow> newer a b \<or> newer b a"
  by (auto simp: newer_def)

lemma sorted_newer:
  assumes "distinct (map (br_Name \<circ> fst) recs)"
  shows "sorted_wrt newer (sort_Slice newer recs)"
proof -
  have "distinct (map (br_Name \<circ> fst) (sort_Slice newer recs))" using assms by simp
  then have "\<forall>i < j. j < length (sort_Slice newer recs) \<longrightarrow>
      br_Name (fst (sort_Slice newer recs ! i)) \<noteq> br_Name (fst (sort_Slice newer recs ! j))" for j
    by (auto simp: distinct_conv_nth)
  then show ?thesis
    using sorted_sort_Slice [OF weak_order_newer, of recs] newer_total
    unfolding sorted_wrt_iff_nth_less by metis
qed

text \<open>The state as the coordinator writes it: every backup under its own name.\<close>

definition backups_ok :: "(string \<Rightarrow> (doc \<times> nat) option) \<Rightarrow> bool" where
  "backups_ok m \<longleftrightarrow> (\<forall>k v r. m k = Some (v, r) \<longrightarrow> HasPrefix k backupPrefix \<longrightarrow>
     ValidKey k \<and> (\<exists>b. v = DocBackup b \<and> k = backupPrefix @ br_Name b))"

definition recorded :: "(string \<Rightarrow> (doc \<times> nat) option) \<Rightarrow> (BackupRecord \<times> nat) set" where
  "recorded m = {(b, r). m (backupPrefix @ br_Name b) = Some (DocBackup b, r)}"

lemma prefix_backup [simp]: "HasPrefix (backupPrefix @ n) backupPrefix"
  by (simp add: HasPrefix_def)

lemma read_records_Inr:
  assumes "reliable_store S view bound invar" and "invar s"
    and "\<forall>e \<in> set es. \<exists>p. ValidKey (e_Key e) \<and> e_Value e = DocBackup p \<and> view s (e_Key e) = Some (e_Value e, e_Revision e)"
  shows "\<exists>rs. read_records S s (map e_Key es) = Inr rs \<and>
    map (\<lambda>r. (DocBackup (fst r), snd r)) rs = map (\<lambda>e. (e_Value e, e_Revision e)) es"
  using assms(3)
proof (induction es)
  case (Cons e es)
  then obtain p where p: "e_Value e = DocBackup p" "view s (e_Key e) = Some (DocBackup p, e_Revision e)" "ValidKey (e_Key e)"
    by auto
  then have "GetJSON S as_Backup s (e_Key e) = Inr (p, e_Revision e)"
    using reliable_store.GetJSON_total [OF assms(1,2), of "e_Key e" as_Backup] by simp
  with p Cons show ?case by auto
qed simp

text \<open>The list is the sorted list of what is recorded, and nothing else is.\<close>

lemma listBackupRecords_char:
  assumes "reliable_store S view bound invar" and "invar s" and ok: "backups_ok (view s)"
  shows "\<exists>recs. listBackupRecords S s = Inr recs \<and> sorted_wrt newer recs \<and> set recs = recorded (view s)"
proof -
  obtain es where es: "st_List S s backupPrefix = Inr es" "sorted_wrt (<) (map e_Key es)"
    "\<And>e. e \<in> set es \<longleftrightarrow> HasPrefix (e_Key e) backupPrefix \<and> view s (e_Key e) = Some (e_Value e, e_Revision e)"
    using reliable_store.list_total [OF assms(1,2), of backupPrefix] by blast
  have ent: "ValidKey (e_Key e) \<and> (\<exists>p. e_Value e = DocBackup p \<and> e_Key e = backupPrefix @ br_Name p)" if "e \<in> set es" for e
    using ok es(3) that unfolding backups_ok_def by blast
  then have "\<forall>e \<in> set es. \<exists>p. ValidKey (e_Key e) \<and> e_Value e = DocBackup p \<and> view s (e_Key e) = Some (e_Value e, e_Revision e)"
    using es(3) by blast
  from read_records_Inr [OF assms(1,2) this] obtain rs where rs: "read_records S s (map e_Key es) = Inr rs"
    "map (\<lambda>r. (DocBackup (fst r), snd r)) rs = map (\<lambda>e. (e_Value e, e_Revision e)) es" by blast
  have len: "length rs = length es" using rs(2) by (metis length_map)
  have nth: "e_Key (es ! i) = backupPrefix @ br_Name (fst (rs ! i))" "e_Value (es ! i) = DocBackup (fst (rs ! i))"
      "e_Revision (es ! i) = snd (rs ! i)" if i: "i < length es" for i
  proof -
    have v: "(DocBackup (fst (rs ! i)), snd (rs ! i)) = (e_Value (es ! i), e_Revision (es ! i))"
      using rs(2) i len by (metis (no_types, lifting) nth_map)
    then show "e_Value (es ! i) = DocBackup (fst (rs ! i))" "e_Revision (es ! i) = snd (rs ! i)" by simp_all
    then show "e_Key (es ! i) = backupPrefix @ br_Name (fst (rs ! i))"
      using ent [of "es ! i"] i by (metis doc.inject(5) nth_mem)
  qed
  have set: "set rs = recorded (view s)"
  proof (intro set_eqI iffI)
    fix x assume "x \<in> set rs"
    then obtain i where i: "i < length es" "x = rs ! i" using len by (metis in_set_conv_nth)
    then have "view s (e_Key (es ! i)) = Some (e_Value (es ! i), e_Revision (es ! i))" using es(3) nth_mem by blast
    then have "view s (backupPrefix @ br_Name (fst x)) = Some (DocBackup (fst x), snd x)" using nth [OF i(1)] i(2) by metis
    then show "x \<in> recorded (view s)" by (cases x) (simp add: recorded_def)
  next
    fix x assume "x \<in> recorded (view s)"
    then have "view s (backupPrefix @ br_Name (fst x)) = Some (DocBackup (fst x), snd x)"
      by (cases x) (simp add: recorded_def)
    then have "\<lparr>e_Key = backupPrefix @ br_Name (fst x), e_Value = DocBackup (fst x), e_Revision = snd x\<rparr> \<in> set es"
      using es(3) by simp
    then obtain i where i: "i < length es" "es ! i = \<lparr>e_Key = backupPrefix @ br_Name (fst x), e_Value = DocBackup (fst x), e_Revision = snd x\<rparr>"
      by (metis in_set_conv_nth)
    then have "rs ! i = x" using nth [OF i(1)] by (simp add: prod_eq_iff)
    then show "x \<in> set rs" using i(1) len by (metis nth_mem)
  qed
  have "distinct (map e_Key es)" using es(2) by (simp add: strict_sorted_iff)
  then have "distinct (map (br_Name \<circ> fst) rs)"
    using nth(1) len by (auto simp: distinct_conv_nth)
  from sorted_newer [OF this] set show ?thesis
    by (auto simp: listBackupRecords_def es(1) rs(1))
qed

lemma listBackupRecords_eq:
  assumes "reliable_store S view bound invar" and "invar s" and "backups_ok (view s)"
    and "sorted_wrt newer recs" and "set recs = recorded (view s)"
  shows "listBackupRecords S s = Inr recs"
proof -
  obtain recs' where r: "listBackupRecords S s = Inr recs'" "sorted_wrt newer recs'" "set recs' = recorded (view s)"
    using listBackupRecords_char [OF assms(1-3)] by blast
  have "recs' = recs" by (rule strict_sorted_unique [OF newer_asym r(2) assms(4)]) (simp_all add: r(3) assms(5))
  with r(1) show ?thesis by simp
qed

section \<open>Pruning keeps what a recovery needs\<close>

lemma latest_usable_find:
  "latest_usable rs fb =
     (case find (\<lambda>r. br_Status (fst r) = BackupVerified) rs of
        Some r \<Rightarrow> Some r
      | None \<Rightarrow> if fb \<noteq> None then fb else find (\<lambda>r. br_Status (fst r) = BackupUploaded) rs)"
  by (induction rs fb rule: latest_usable.induct) (auto split: BackupStatus.splits option.splits, metis option.exhaust prod.exhaust)

lemma find_filter: "(\<And>r. find Q xs = Some r \<Longrightarrow> P r) \<Longrightarrow> find Q (filter P xs) = find Q xs"
  by (induction xs) (auto split: if_splits)

lemma keep_newest_first:
  "find (\<lambda>r. br_Status (fst r) \<noteq> BackupBad) recs = Some r \<Longrightarrow> n < retention \<Longrightarrow> br_Name (fst r) \<in> set (keep_newest retention n recs)"
  by (induction retention n recs rule: keep_newest.induct) (auto split: if_splits)

lemma find_uploaded:
  "find (\<lambda>r. br_Status (fst r) = BackupVerified) recs = None \<Longrightarrow>
   find (\<lambda>r. br_Status (fst r) = BackupUploaded) recs = find (\<lambda>r. br_Status (fst r) \<noteq> BackupBad) recs"
proof (induction recs)
  case (Cons r recs)
  then show ?case by (cases "br_Status (fst r)") auto
qed simp

lemma latest_usable_pruned:
  assumes "1 \<le> retention" and "\<And>r. br_Name (fst r) \<in> set (keep_newest retention 0 recs @ keep_verified recs) \<Longrightarrow> P r"
  shows "latest_usable (filter P recs) None = latest_usable recs None"
proof (cases "find (\<lambda>r. br_Status (fst r) = BackupVerified) recs")
  case None
  then have "find (\<lambda>r. br_Status (fst r) = BackupVerified) (filter P recs) = None"
    by (auto simp: find_None_iff)
  moreover have "find (\<lambda>r. br_Status (fst r) = BackupUploaded) (filter P recs) = find (\<lambda>r. br_Status (fst r) = BackupUploaded) recs"
    using assms keep_newest_first [of recs _ 0 retention] by (intro find_filter) (auto simp: find_uploaded [OF None])
  ultimately show ?thesis by (simp add: latest_usable_find None)
next
  case (Some r)
  then have "find (\<lambda>r. br_Status (fst r) = BackupVerified) (filter P recs) = Some r"
    using assms(2) by (subst find_filter) (auto simp: keep_verified_def)
  with Some show ?thesis by (simp add: latest_usable_find)
qed

lemma latest_usable_kept:
  assumes "latest_usable recs None = Some r" and "1 \<le> retention"
  shows "br_Name (fst r) \<in> set (keep_newest retention 0 recs @ keep_verified recs)"
  using assms keep_newest_first [of recs r 0 retention]
  by (auto simp: latest_usable_find keep_verified_def find_uploaded split: option.splits)

lemma latest_usable_mem: "latest_usable recs None = Some r \<Longrightarrow> r \<in> set recs \<and> br_Status (fst r) \<noteq> BackupBad"
  by (auto simp: latest_usable_find find_Some_iff split: option.splits)

definition without :: "(string \<Rightarrow> (doc \<times> nat) option) \<Rightarrow> string set \<Rightarrow> string \<Rightarrow> (doc \<times> nat) option" where
  "without m D k = (if k \<in> (\<lambda>n. backupPrefix @ n) ` D then None else m k)"

lemma prune_records_state:
  assumes "reliable_store S view bound invar" and "invar s"
    and "\<forall>r \<in> set recs. ValidKey (backupPrefix @ br_Name (fst r))" and "prune_records S Bl keep recs s b = (es, s', b')"
  shows "invar s' \<and> (\<exists>D. D \<inter> set keep = {} \<and> view s' = without (view s) D)"
  using assms(2-4)
proof (induction recs arbitrary: s b es)
  case Nil
  then show ?case by (auto simp: without_def fun_eq_iff intro!: exI [of _ "{}"])
next
  case (Cons r recs)
  let ?k = "backupPrefix @ br_Name (fst r)"
  consider (kept) "br_Name (fst r) \<in> set keep" "prune_records S Bl keep recs s b = (es, s', b')"
    | (failed) b1 es1 where "prune_records S Bl keep recs s b1 = (es1, s', b')"
    | (gone) s1 b1 es1 err where "br_Name (fst r) \<notin> set keep" "st_Delete S s ?k = (err, s1)" "prune_records S Bl keep recs s1 b1 = (es1, s', b')"
    using Cons.prems(3) by (auto split: if_splits prod.splits option.splits)
  then show ?case
  proof cases
    case kept
    then show ?thesis using Cons by auto
  next
    case failed
    then show ?thesis using Cons by auto
  next
    case gone
    have "ValidKey ?k" using Cons.prems(2) by simp
    then have s1: "invar s1" "view s1 = (view s)(?k := None)"
      using reliable_store.delete_total [OF assms(1) Cons.prems(1), of ?k] gone(2) by auto
    from Cons.IH [OF s1(1) _ gone(3)] Cons.prems(2) obtain D where "invar s'" "D \<inter> set keep = {}" "view s' = without (view s1) D"
      by auto
    moreover have "without (view s1) D = without (view s) (insert (br_Name (fst r)) D)"
      by (auto simp: without_def s1 fun_eq_iff)
    ultimately show ?thesis using gone(1) by (intro conjI exI [of _ "insert (br_Name (fst r)) D"]) auto
  qed
qed

lemma backups_ok_without: "backups_ok m \<Longrightarrow> backups_ok (without m D)"
  by (auto simp: backups_ok_def without_def split: if_splits)

lemma recorded_without: "recorded (without m D) = {r \<in> recorded m. br_Name (fst r) \<notin> D}"
  by (auto simp: recorded_def without_def split: if_splits)

lemma Prune_latest:
  assumes "reliable_store S view bound invar" and "invar s" and "backups_ok (view s)" and "1 \<le> c_BackupRetention cfg"
    and "LatestUsable S s = Inr r" and "Prune S Bl cfg now s b = (es, s', b')"
  shows "LatestUsable S s' = Inr r"
proof -
  obtain recs where recs: "listBackupRecords S s = Inr recs" "sorted_wrt newer recs" "set recs = recorded (view s)"
    using listBackupRecords_char [OF assms(1-3)] by blast
  have latest: "latest_usable recs None = Some r"
    using assms(5) by (auto simp: LatestUsable_def recs(1) split: option.splits)
  let ?keep = "keep_newest (c_BackupRetention cfg) 0 recs @ keep_verified recs"
  have "\<not> list_all (\<lambda>r. br_Status (fst r) = BackupBad) recs"
    using latest_usable_mem [OF latest] by (auto simp: list_all_iff)
  then obtain b1 where pr: "prune_records S Bl ?keep recs s b = (es, s', b1)"
    using assms(6) by (auto simp: Prune_def recs(1) Let_def split: prod.splits)
  have "\<forall>r \<in> set recs. ValidKey (backupPrefix @ br_Name (fst r))"
    using assms(3) unfolding recs(3) recorded_def backups_ok_def by fastforce
  from prune_records_state [OF assms(1,2) this pr] obtain D where D: "invar s'" "D \<inter> set ?keep = {}" "view s' = without (view s) D"
    by blast
  have "listBackupRecords S s' = Inr (filter (\<lambda>r. br_Name (fst r) \<notin> D) recs)"
    using backups_ok_without [OF assms(3)] recs
    by (intro listBackupRecords_eq [OF assms(1) D(1)]) (auto simp: D(3) recorded_without sorted_wrt_filter)
  moreover have "latest_usable (filter (\<lambda>r. br_Name (fst r) \<notin> D) recs) None = Some r"
    using latest D(2) by (subst latest_usable_pruned [OF assms(4)]) auto
  ultimately show ?thesis by (simp add: LatestUsable_def)
qed

text \<open>And its object stays in the blob store.\<close>

context blob_store
begin

lemma prune_records_cont:
  "prune_records S Bl keep recs s b = (es, s', b') \<Longrightarrow> n \<in> set keep \<Longrightarrow> cont b' n = cont b n"
proof (induction recs arbitrary: s b es)
  case (Cons r recs)
  consider (kept) "prune_records S Bl keep recs s b = (es, s', b')"
    | (deleted) e b1 s1 es1 where "br_Name (fst r) \<notin> set keep" "bl_Delete Bl b (br_Name (fst r)) = (e, b1)"
      "prune_records S Bl keep recs s1 b1 = (es1, s', b')"
    using Cons.prems(1) by (auto split: if_splits prod.splits option.splits)
  then show ?case
  proof cases
    case kept
    then show ?thesis using Cons by blast
  next
    case deleted
    then show ?thesis using Cons.IH [OF deleted(3) Cons.prems(2)] delete_other [OF deleted(2), of n] Cons.prems(2) by auto
  qed
qed simp

lemma delete_orphans_cont: "n \<in> set known \<Longrightarrow> cont (delete_orphans Bl known may grace now is b) n = cont b n"
proof (induction "is" arbitrary: b may)
  case (Cons i "is")
  have "in_Name i \<notin> set known \<Longrightarrow> cont (snd (bl_Delete Bl b (in_Name i))) n = cont b n"
    using Cons.prems delete_other [of b "in_Name i" "fst (bl_Delete Bl b (in_Name i))" "snd (bl_Delete Bl b (in_Name i))" n]
    by auto
  with Cons show ?case by simp
qed simp

lemma Prune_cont:
  assumes "listBackupRecords S s = Inr recs" and "latest_usable recs None = Some r" and "1 \<le> c_BackupRetention cfg"
    and "Prune S Bl cfg now s b = (es, s', b')"
  shows "cont b' (br_Name (fst r)) = cont b (br_Name (fst r))"
proof -
  have mem: "r \<in> set recs" "br_Status (fst r) \<noteq> BackupBad" using latest_usable_mem [OF assms(2)] by auto
  then have "br_Name (fst r) \<in> set (map (\<lambda>r. br_Name (fst r)) recs)" by auto
  then have orph: "cont (handleOrphans Bl cfg now recs may b1) (br_Name (fst r)) = cont b1 (br_Name (fst r))" for may b1
    by (auto simp: handleOrphans_def delete_orphans_cont split: sum.splits simp del: set_map)
  have kept: "br_Name (fst r) \<in> set (keep_newest (c_BackupRetention cfg) 0 recs @ keep_verified recs)"
    by (rule latest_usable_kept [OF assms(2,3)])
  show ?thesis
    using assms(4) orph prune_records_cont [OF _ kept]
    by (auto simp: Prune_def assms(1) Let_def split: if_splits prod.splits)
qed

end

section \<open>Verification condemns only what is damaged\<close>

text \<open>
  The object is not proven to be damaged: it cannot be read at the moment, or it is what the
  record says and the program that restores it does not reject it.
\<close>

definition sound_object :: "(bytes \<Rightarrow> string) \<Rightarrow> 'b BlobStore \<Rightarrow> (bytes \<Rightarrow> verify_outcome) \<Rightarrow> 'b \<Rightarrow> BackupInfo \<Rightarrow> bool" where
  "sound_object sha Bl deep b info \<longleftrightarrow>
     (case bl_Get Bl b (bi_Name info) of
        Inl err \<Rightarrow> err \<noteq> BlobNotFound
      | Inr d \<Rightarrow> sha d = bi_SHA256 info \<and> deep d \<noteq> VExit)"

definition usable_as :: "BackupInfo \<Rightarrow> BackupRecord \<Rightarrow> bool" where
  "usable_as info r \<longleftrightarrow> br_Info r = info \<and> br_Status r \<noteq> BackupBad"

definition still_usable :: "('s \<Rightarrow> string \<Rightarrow> (doc \<times> nat) option) \<Rightarrow> BackupInfo \<Rightarrow> 's \<Rightarrow> bool" where
  "still_usable view info s \<longleftrightarrow> (\<exists>r rv. view s (backupPrefix @ bi_Name info) = Some (DocBackup r, rv) \<and> usable_as info r)"

lemma checkStored_sound:
  "sound_object sha Bl deep b info \<Longrightarrow> br_Info r = info \<Longrightarrow> checkStored sha Bl b r \<noteq> Some ErrBackupDamaged"
  by (auto simp: sound_object_def checkStored_def br_Name_def split: sum.splits if_splits)

context doc_store
begin

lemma saveRecord_usable:
  assumes "invar s" and "still_usable view info s" and "saveRecord S r s = (e, r', s')"
    and "br_Name (fst r) = bi_Name info \<Longrightarrow> usable_as info (fst r)"
  shows "invar s' \<and> still_usable view info s' \<and> fst r' = fst r"
proof -
  let ?k = "backupPrefix @ br_Name (fst r)"
  obtain res where up: "st_Update S s ?k (DocBackup (fst r)) (snd r) = (res, s')" and r': "fst r' = fst r"
    using assms(3) by (auto simp: saveRecord_def UpdateJSON_def split: prod.splits sum.splits)
  have "s' = s \<or> (\<exists>rv. view s' = (view s)(?k \<mapsto> (DocBackup (fst r), rv)))"
    using update_cases [OF assms(1) up] by (auto simp: committed_def)
  then have "still_usable view info s'"
    using assms(2,4) by (auto simp: still_usable_def)
  then show ?thesis using r' invar_update [OF assms(1) up] by simp
qed

lemma markBad_other:
  assumes "invar s" and "still_usable view info s" and "markBad msg S why r s = (r', s')" and "br_Name (fst r) \<noteq> bi_Name info"
  shows "invar s' \<and> still_usable view info s' \<and> br_Info (fst r') = br_Info (fst r)"
proof -
  let ?r = "((fst r)\<lparr>br_Status := BackupBad, br_Note := msg why\<rparr>, snd r)"
  obtain e where sv: "saveRecord S ?r s = (e, r', s')" using assms(3) by (auto simp: markBad_def split: prod.splits)
  show ?thesis using saveRecord_usable [OF assms(1,2) sv] assms(4) by (auto simp: br_Name_def)
qed

lemma check_all_usable:
  assumes "sound_object sha Bl deep b info"
  shows "invar s \<Longrightarrow> still_usable view info s \<Longrightarrow> \<forall>r \<in> set recs. br_Name (fst r) = bi_Name info \<longrightarrow> usable_as info (fst r) \<Longrightarrow>
    check_all msg sha S Bl en b recs s = (res, recs', s') \<Longrightarrow>
    invar s' \<and> still_usable view info s' \<and> (\<forall>r \<in> set recs'. br_Name (fst r) = bi_Name info \<longrightarrow> usable_as info (fst r))"
proof (induction recs arbitrary: s res recs')
  case (Cons r recs)
  have ok: "br_Name (fst r) = bi_Name info \<Longrightarrow> usable_as info (fst r)" using Cons.prems(3) by simp
  show ?case
  proof (cases "br_Status (fst r) = BackupBad")
    case True
    then obtain recs1 where rest: "check_all msg sha S Bl en b recs s = (res, recs1, s')" and "recs' = r # recs1"
      using Cons.prems(4) by (auto split: prod.splits)
    then show ?thesis using Cons.IH [OF Cons.prems(1,2) _ rest] Cons.prems(3) by auto
  next
    case False
    show ?thesis
    proof (cases "checkStored sha Bl b (fst r)")
      case None
      let ?r = "((fst r)\<lparr>br_CheckedAt := Some (vt_check en (br_Name (fst r)))\<rparr>, snd r)"
      obtain e r' s1 where sv: "saveRecord S ?r s = (e, r', s1)" using prod_cases3 by blast
      have ok': "br_Name (fst ?r) = bi_Name info \<Longrightarrow> usable_as info (fst ?r)" using ok by (auto simp: usable_as_def br_Name_def)
      note s1 = saveRecord_usable [OF Cons.prems(1,2) sv ok']
      obtain res1 recs1 where rest: "check_all msg sha S Bl en b recs s1 = (res1, recs1, s')" and "recs' = r' # recs1"
        using Cons.prems(4) False None sv by (auto split: prod.splits)
      then show ?thesis using Cons.IH [OF _ _ _ rest] s1 ok' Cons.prems(3) by auto
    next
      case (Some err)
      show ?thesis
      proof (cases "ve_cancelled1 en (br_Name (fst r))")
        case True
        then show ?thesis using Cons.prems False Some by auto
      next
        case notc: False
        obtain r' s1 where st: "(if err = ErrBackupDamaged then markBad msg S err r s else (r, s)) = (r', s1)" by fastforce
        have s1: "invar s1 \<and> still_usable view info s1 \<and> (br_Name (fst r') = bi_Name info \<longrightarrow> usable_as info (fst r'))"
        proof (cases "err = ErrBackupDamaged")
          case True
          then have "br_Name (fst r) \<noteq> bi_Name info"
            using ok checkStored_sound [OF assms] Some by (auto simp: usable_as_def)
          then show ?thesis using markBad_other [OF Cons.prems(1,2)] st True by (auto simp: br_Name_def)
        next
          case False
          then show ?thesis using st Cons.prems(1,2) ok by auto
        qed
        obtain res1 recs1 where rest: "check_all msg sha S Bl en b recs s1 = (res1, recs1, s')" and "recs' = r' # recs1"
          using Cons.prems(4) False Some notc st by (auto split: prod.splits)
        then show ?thesis using Cons.IH [OF _ _ _ rest] s1 Cons.prems(3) by auto
      qed
    qed
  qed
qed simp

lemma deepVerify_usable:
  assumes "sound_object sha Bl (ve_deep en) b info" and "invar s" and "still_usable view info s"
    and "br_Name (fst r) = bi_Name info \<Longrightarrow> usable_as info (fst r)" and "bi_Name info \<noteq> []"
    and "deepVerify sha S Bl en b r s = (res, s')"
  shows "invar s' \<and> still_usable view info s' \<and> (br_Name (fst r) = bi_Name info \<longrightarrow> res \<noteq> Some ErrBackupDamaged)"
proof (cases "\<exists>rec d. ve_tmp en = None \<and> FetchBackup sha S (Some Bl) s b (br_Name (fst r)) = Inr (rec, d) \<and> ve_deep en d = VGood")
  case True
  let ?r = "((fst r)\<lparr>br_Status := BackupVerified, br_VerifiedAt := Some (vt_deep en), br_Note := []\<rparr>, snd r)"
  obtain e r' s1 where sv: "saveRecord S ?r s = (e, r', s1)" using prod_cases3 by blast
  then have "s' = s1" "res = map_option ErrBackupState e" using True assms(6) by (auto simp: deepVerify_def)
  moreover have "br_Name (fst ?r) = bi_Name info \<Longrightarrow> usable_as info (fst ?r)" using assms(4) by (auto simp: usable_as_def br_Name_def)
  ultimately show ?thesis using saveRecord_usable [OF assms(2,3) sv] by auto
next
  case False
  have fetch: "FetchBackup sha S (Some Bl) s b (bi_Name info) \<noteq> Inl ErrBackupDamaged \<and>
      (\<forall>rec d. FetchBackup sha S (Some Bl) s b (bi_Name info) = Inr (rec, d) \<longrightarrow> ve_deep en d \<noteq> VExit)"
  proof (cases "GetJSON S as_Backup s (backupPrefix @ bi_Name info)")
    case (Inl err)
    then show ?thesis using assms(5) by (simp add: FetchBackup_def)
  next
    case (Inr x)
    then obtain v where "as_Backup v = Some (fst x)" "view s (backupPrefix @ bi_Name info) = Some (v, snd x)"
      using GetJSON_Inr [OF assms(2), of as_Backup _ "fst x" "snd x"] by (metis prod.collapse)
    then have "br_Info (fst x) = info" using assms(3) by (auto simp: still_usable_def usable_as_def)
    then show ?thesis
      using assms(1,5) Inr by (auto simp: FetchBackup_def sound_object_def br_Name_def split: prod.splits sum.splits if_splits)
  qed
  have "s' = s" "br_Name (fst r) = bi_Name info \<longrightarrow> res \<noteq> Some ErrBackupDamaged"
    using False assms(6) fetch by (auto simp: deepVerify_def split: option.splits sum.splits prod.splits verify_outcome.splits)
  then show ?thesis using assms(2,3) by simp
qed

lemma verify_newest_usable:
  assumes "sound_object sha Bl (ve_deep en) b info" and "invar s" and "still_usable view info s" and "bi_Name info \<noteq> []"
    and "\<forall>r \<in> set recs. br_Name (fst r) = bi_Name info \<longrightarrow> usable_as info (fst r)"
    and "verify_newest msg sha S Bl en b recs s = (res, s')"
  shows "invar s' \<and> still_usable view info s'"
proof (cases "find (\<lambda>r. br_Status (fst r) \<noteq> BackupBad) recs")
  case None
  then show ?thesis using assms by (simp add: verify_newest_def)
next
  case (Some r)
  then have "r \<in> set recs" by (auto simp: find_Some_iff)
  then have ok: "br_Name (fst r) = bi_Name info \<Longrightarrow> usable_as info (fst r)" using assms(5) by blast
  obtain e s1 where dv: "deepVerify sha S Bl en b r s = (e, s1)" by fastforce
  note s1 = deepVerify_usable [OF assms(1,2,3) ok assms(4) dv]
  show ?thesis
  proof (cases "e = Some ErrBackupDamaged \<and> \<not> ve_cancelled2 en")
    case True
    then have ne: "br_Name (fst r) \<noteq> bi_Name info" using s1 by auto
    have "s' = snd (markBad msg S ErrBackupDamaged r s1)" using True assms(6) by (simp add: verify_newest_def Some dv)
    then show ?thesis
      using s1 markBad_other [of s1 info msg ErrBackupDamaged r "fst (markBad msg S ErrBackupDamaged r s1)" s'] ne by simp
  next
    case False
    then have "s' = s1" using assms(6) by (auto simp: verify_newest_def Some dv split: option.splits if_splits)
    then show ?thesis using s1 by simp
  qed
qed

end


end
