(* ===== verification/Backup_Jobs.thy ===== *)
theory Backup_Jobs
  imports Backups
begin

text \<open>
  What the backup and verification jobs of \<open>pkg/coordinator/backups.go\<close> leave alone in the
  shared state, the schedule they keep, and the properties of the backups as a whole.
\<close>

section \<open>What the jobs leave alone\<close>

text \<open>From \<open>s\<close> to \<open>s'\<close> only keys that satisfy \<open>P\<close> changed.\<close>

definition only_keys :: "('s \<Rightarrow> string \<Rightarrow> (doc \<times> nat) option) \<Rightarrow> ('s \<Rightarrow> bool) \<Rightarrow> (string \<Rightarrow> bool) \<Rightarrow> 's \<Rightarrow> 's \<Rightarrow> bool" where
  "only_keys view invar P s s' \<longleftrightarrow> (invar s \<longrightarrow> invar s' \<and> (\<forall>k. \<not> P k \<longrightarrow> view s' k = view s k))"

lemma only_keys_refl [simp]: "only_keys view invar P s s"
  by (simp add: only_keys_def)

lemma only_keys_trans: "only_keys view invar P s s1 \<Longrightarrow> only_keys view invar P s1 s2 \<Longrightarrow> only_keys view invar P s s2"
  by (simp add: only_keys_def)

lemma only_keysD: "only_keys view invar P s s' \<Longrightarrow> invar s \<Longrightarrow> invar s'"
  "only_keys view invar P s s' \<Longrightarrow> invar s \<Longrightarrow> \<not> P k \<Longrightarrow> view s' k = view s k"
  by (auto simp: only_keys_def)

abbreviation is_backup_key :: "string \<Rightarrow> bool" where
  "is_backup_key k \<equiv> HasPrefix k backupPrefix"

context doc_store
begin

lemma CreateJSON_only: "P k \<Longrightarrow> only_keys view invar P s (snd (CreateJSON S enc s k x))"
  unfolding only_keys_def CreateJSON_def
  by (metis invar_create view_create_other prod.collapse)

lemma UpdateJSON_only: "P k \<Longrightarrow> only_keys view invar P s (snd (UpdateJSON S enc s k x rv))"
  unfolding only_keys_def UpdateJSON_def
  by (metis invar_update view_update_other prod.collapse)

lemma Delete_only: "P k \<Longrightarrow> only_keys view invar P s (snd (st_Delete S s k))"
  unfolding only_keys_def by (metis invar_delete view_delete_other prod.collapse)

lemma save_attempts_only: "only_keys view invar (\<lambda>k. k = ''schedule/'' @ job) s (save_attempts S job x n s)"
proof (induction n arbitrary: s)
  case (Suc n)
  let ?P = "\<lambda>k. k = ''schedule/'' @ job"
  let ?w = "case loadSchedule S s job of
      Inl err \<Rightarrow> (Inl err, s)
    | Inr (_, rv) \<Rightarrow> if rv = 0 then CreateJSON S DocSchedule s (''schedule/'' @ job) x
                     else UpdateJSON S DocSchedule s (''schedule/'' @ job) x rv"
  have w: "only_keys view invar ?P s (snd ?w)"
    using CreateJSON_only [of ?P, OF refl] UpdateJSON_only [of ?P, OF refl] by (auto simp del: append.simps split: sum.split)
  obtain res s1 where st: "?w = (res, s1)" by fastforce
  have "save_attempts S job x (Suc n) s = (case res of Inl err \<Rightarrow> if err = ErrConflict then save_attempts S job x n s1 else s1 | Inr _ \<Rightarrow> s1)"
    by (simp add: st split: sum.splits)
  then show ?case using w only_keys_trans [OF _ Suc.IH [of s1]] by (simp add: st split: sum.split)
qed simp

lemma prune_records_only:
  "prune_records S Bl keep recs s b = (es, s', b') \<Longrightarrow> only_keys view invar is_backup_key s s'"
proof (induction recs arbitrary: s b es)
  case (Cons r recs)
  consider (same) b1 es1 where "prune_records S Bl keep recs s b1 = (es1, s', b')"
    | (deleted) e b1 s1 es1 where "st_Delete S s (backupPrefix @ br_Name (fst r)) = (e, s1)"
      "prune_records S Bl keep recs s1 b1 = (es1, s', b')"
    using Cons.prems by (auto split: if_splits prod.splits option.splits)
  then show ?case
  proof cases
    case same
    then show ?thesis using Cons by blast
  next
    case deleted
    have "only_keys view invar is_backup_key s s1"
      using Delete_only [of is_backup_key "backupPrefix @ br_Name (fst r)" s] deleted(1) by simp
    then show ?thesis by (rule only_keys_trans [OF _ Cons.IH [OF deleted(2)]])
  qed
qed simp

lemma Prune_only: "Prune S Bl cfg now s b = (es, s', b') \<Longrightarrow> only_keys view invar is_backup_key s s'"
  by (auto simp: Prune_def Let_def split: sum.splits if_splits prod.splits dest: prune_records_only)

lemma backup_from_only:
  assumes "backup_from sha S Bl co en node s b = (res, s', b')"
  shows "only_keys view invar is_backup_key s s'"
proof -
  have create: "only_keys view invar is_backup_key s s1"
    if "CreateJSON S DocBackup s (backupPrefix @ n) r = (x, s1)" for n r x s1
    using CreateJSON_only [of is_backup_key "backupPrefix @ n" s DocBackup r] that by simp
  show ?thesis
    using assms only_keys_trans [OF create Prune_only] create
    by (auto simp: backup_from_def Let_def split: sum.splits prod.splits if_splits option.splits)
qed

end

section \<open>The schedule\<close>

lemma doc_store_reliable: "reliable_store S view bound invar \<Longrightarrow> doc_store S view bound invar"
  by (simp add: doc_store_def reliable_store_def)

definition schedule_ok :: "(string \<Rightarrow> (doc \<times> nat) option) \<Rightarrow> string \<Rightarrow> bool" where
  "schedule_ok m job \<longleftrightarrow> ValidKey (''schedule/'' @ job) \<and>
     (case m (''schedule/'' @ job) of None \<Rightarrow> True | Some (v, r) \<Rightarrow> 0 < r \<and> (\<exists>x. v = DocSchedule x))"

lemma loadSchedule_total:
  assumes "reliable_store S view bound invar" and "invar s" and "ValidKey (''schedule/'' @ job)"
  shows "view s (''schedule/'' @ job) = None \<Longrightarrow> loadSchedule S s job = Inr (zero_Schedule, 0)"
    and "view s (''schedule/'' @ job) = Some (DocSchedule x, r) \<Longrightarrow> loadSchedule S s job = Inr (x, r)"
  using reliable_store.GetJSON_total [OF assms, of as_Schedule] by (simp_all add: loadSchedule_def)

lemma saveSchedule_first:
  assumes "loadSchedule S s job = Inr (y, rv)"
    and "(if rv = 0 then CreateJSON S DocSchedule s (''schedule/'' @ job) x
          else UpdateJSON S DocSchedule s (''schedule/'' @ job) x rv) = (Inr r, s')"
  shows "saveSchedule S job x s = s'"
  using assms by (simp add: saveSchedule_def numeral_3_eq_3 del: append.simps)

lemma saveSchedule_stores:
  assumes "reliable_store S view bound invar" and "invar s" and "schedule_ok (view s) job"
  shows "\<exists>r. loadSchedule S (saveSchedule S job x s) job = Inr (x, r)"
proof -
  let ?k = "''schedule/'' @ job"
  have k: "ValidKey ?k" using assms(3) by (simp add: schedule_ok_def)
  have "\<exists>r. committed view bound invar s ?k (DocSchedule x) r (saveSchedule S job x s)"
  proof (cases "view s ?k")
    case None
    then have load: "loadSchedule S s job = Inr (zero_Schedule, 0)" by (rule loadSchedule_total(1) [OF assms(1,2) k])
    obtain r s' where c: "st_Create S s ?k (DocSchedule x) = (Inr r, s')" "committed view bound invar s ?k (DocSchedule x) r s'"
      using reliable_store.create_reliable [OF assms(1), OF assms(2) k None, of "DocSchedule x"] by blast
    from c(1) have "saveSchedule S job x s = s'" by (intro saveSchedule_first [OF load]) (simp add: CreateJSON_def del: append.simps)
    with c(2) show ?thesis by (intro exI [of _ r]) simp
  next
    case (Some e)
    have "case view s ?k of None \<Rightarrow> True | Some (v, r) \<Rightarrow> 0 < r \<and> (\<exists>x. v = DocSchedule x)"
      using assms(3) unfolding schedule_ok_def by (rule conjunct2)
    then obtain y r where e: "view s ?k = Some (DocSchedule y, r)" "0 < r"
      unfolding Some by (cases e) auto
    have load: "loadSchedule S s job = Inr (y, r)" by (rule loadSchedule_total(2) [OF assms(1), OF assms(2) k e(1)])
    obtain r' s' where c: "st_Update S s ?k (DocSchedule x) r = (Inr r', s')" "committed view bound invar s ?k (DocSchedule x) r' s'"
      using reliable_store.update_reliable [OF assms(1), OF assms(2) k e(1), of "DocSchedule x"] by blast
    from c(1) e(2) have "saveSchedule S job x s = s'" by (intro saveSchedule_first [OF load]) (simp add: UpdateJSON_def del: append.simps)
    with c(2) show ?thesis by (intro exI [of _ r']) simp
  qed
  then obtain r where "invar (saveSchedule S job x s)" "view (saveSchedule S job x s) ?k = Some (DocSchedule x, r)"
    by (auto simp: committed_def simp del: append.simps)
  from loadSchedule_total(2) [OF assms(1), OF this(1) k this(2)] show ?thesis by blast
qed

section \<open>Pruning as a whole\<close>

lemma LatestUsable_Inr:
  "LatestUsable S s = Inr r \<longleftrightarrow> (\<exists>recs. listBackupRecords S s = Inr recs \<and> latest_usable recs None = Some r)"
  by (auto simp: LatestUsable_def split: sum.splits option.splits)

lemma FetchBackup_latest:
  assumes "FetchBackup sha S (Some Bl) s b [] = Inr (rec, d)"
  shows "\<exists>rv. LatestUsable S s = Inr (rec, rv)" and "bl_Get Bl b (br_Name rec) = Inr d" and "sha d = bi_SHA256 (br_Info rec)"
  using assms by (auto simp: FetchBackup_def split: sum.splits if_splits) (cases "LatestUsable S s", auto)+

lemma keep_newest_length: "int (length (keep_newest n u recs)) \<le> max 0 (n - u)"
  by (induction n u recs rule: keep_newest.induct) auto

lemma keep_verified_length: "length (keep_verified recs) \<le> 1"
  by (simp add: keep_verified_def split: option.split)

lemma prune_records_exact:
  assumes "reliable_store S view bound invar"
  shows "invar s \<Longrightarrow> \<forall>r \<in> set recs. ValidKey (backupPrefix @ br_Name (fst r)) \<Longrightarrow>
    prune_records S Bl keep recs s b = ([], s', b') \<Longrightarrow>
    invar s' \<and> view s' = without (view s) ((\<lambda>r. br_Name (fst r)) ` set recs - set keep)"
proof (induction recs arbitrary: s b)
  case (Cons r recs)
  let ?k = "backupPrefix @ br_Name (fst r)"
  show ?case
  proof (cases "br_Name (fst r) \<in> set keep")
    case True
    then show ?thesis using Cons by (simp add: insert_Diff_if)
  next
    case False
    then obtain b1 s1 where d: "st_Delete S s ?k = (None, s1)" and rest: "prune_records S Bl keep recs s1 b1 = ([], s', b')"
      using Cons.prems(3) by (auto split: prod.splits option.splits)
    have "ValidKey ?k" using Cons.prems(2) by simp
    then have s1: "invar s1" "view s1 = (view s)(?k := None)"
      using reliable_store.delete_total [OF assms, OF Cons.prems(1), of ?k] d by auto
    then have "invar s' \<and> view s' = without (view s1) ((\<lambda>r. br_Name (fst r)) ` set recs - set keep)"
      using Cons.IH [OF s1(1) _ rest] Cons.prems(2) by (simp del: fun_upd_apply)
    then show ?thesis using False by (auto simp: without_def s1 fun_eq_iff)
  qed
qed (simp add: without_def fun_eq_iff)

lemma mem_recorded: "r \<in> recorded m \<longleftrightarrow> m (backupPrefix @ br_Name (fst r)) = Some (DocBackup (fst r), snd r)"
  by (cases r) (simp add: recorded_def)

lemma sorted_names_distinct:
  assumes "sorted_wrt newer recs" and "set recs = recorded m"
  shows "distinct (map (\<lambda>r. br_Name (fst r)) recs)"
proof -
  have "distinct recs" using assms(1) by (induction recs) (auto dest: newer_asym)
  moreover have "inj_on (\<lambda>r. br_Name (fst r)) (recorded m)"
  proof (rule inj_onI)
    fix x y assume "x \<in> recorded m" "y \<in> recorded m" and eq: "br_Name (fst x) = br_Name (fst y)"
    then have "Some (DocBackup (fst x), snd x) = Some (DocBackup (fst y), snd y)"
      unfolding mem_recorded by (metis (no_types))
    then show "x = y" by (simp add: prod_eq_iff)
  qed
  ultimately show ?thesis by (simp add: distinct_map assms(2))
qed

section \<open>Choosing the node and verifying\<close>

text \<open>The node that backs up is chosen like the candidate of a failover.\<close>

lemma pick_backup_candidate:
  assumes "\<forall>s \<in> set ss. ns_Name s \<noteq> []" and "best \<noteq> Some []"
  shows "pick_backup master ss best f =
    (let c = pick_candidate master ss (case best of None \<Rightarrow> [] | Some n \<Rightarrow> n) f in if c = [] then None else Some c)"
  using assms
proof (induction ss arbitrary: best f)
  case (Cons s ss)
  then show ?case by (cases best) auto
qed (auto simp: Let_def split: option.splits)

lemma pickBackupNode_Inr:
  assumes "co_wf co" and "pickBackupNode co = Inr n"
  shows "n \<in> set (co_order co) \<and> eligible (cl_Master (ClusterState co)) (co_status co n) \<and>
    (\<forall>m \<in> set (co_order co). eligible (cl_Master (ClusterState co)) (co_status co m) \<longrightarrow>
       ss_LastApplied (ns_Stream (co_status co m)) \<le> ss_LastApplied (ns_Stream (co_status co n)))"
proof -
  let ?m = "cl_Master (ClusterState co)"
  have names: "\<forall>s \<in> set (NodeStatuses co). ns_Name s \<noteq> []" using NodeStatuses_names [OF assms(1)] by blast
  then have c: "pick_candidate ?m (NodeStatuses co) [] 0 = n" "n \<noteq> []"
    using assms(2) pick_backup_candidate [OF names, of None ?m 0]
    by (auto simp: pickBackupNode_def Let_def split: option.splits if_splits)
  with pick_candidate_cases [OF names, of ?m "[]" 0] obtain s where s: "s \<in> set (NodeStatuses co)" "eligible ?m s" "ns_Name s = n"
    "\<forall>s' \<in> set (NodeStatuses co). eligible ?m s' \<longrightarrow> ss_LastApplied (ns_Stream s') \<le> ss_LastApplied (ns_Stream s)" by auto
  moreover have "s = co_status co n" "n \<in> set (co_order co)" using NodeStatuses_names [OF assms(1) s(1)] s(3) by auto
  ultimately show ?thesis by (auto simp: NodeStatuses_def)
qed

lemma VerifyOnce_keeps:
  assumes "reliable_store S view bound invar" and "invar s" and "backups_ok (view s)"
    and "still_usable view info s" and "sound_object sha Bl (ve_deep en) b info" and "bi_Name info \<noteq> []"
    and "verify_all msg sha S Bl hasVerifier en b s = (res, s')"
  shows "invar s' \<and> still_usable view info s'"
proof -
  note ds = doc_store_reliable [OF assms(1)]
  obtain recs where recs: "listBackupRecords S s = Inr recs" "set recs = recorded (view s)"
    using listBackupRecords_char [OF assms(1), OF assms(2,3)] by blast
  have ok: "\<forall>r \<in> set recs. br_Name (fst r) = bi_Name info \<longrightarrow> usable_as info (fst r)"
    using assms(4) unfolding recs(2) by (auto simp: mem_recorded still_usable_def)
  obtain res1 recs1 s1 where ch: "check_all msg sha S Bl en b recs s = (res1, recs1, s1)" using prod_cases3 by blast
  note s1 = doc_store.check_all_usable [OF ds assms(5), OF assms(2,4) ok ch]
  obtain res2 s2 where vn: "verify_newest msg sha S Bl en b recs1 s1 = (res2, s2)" by fastforce
  have s2: "invar s2 \<and> still_usable view info s2"
    using doc_store.verify_newest_usable [OF ds, OF assms(5) _ _ assms(6) _ vn] s1 by blast
  have "s' \<in> {s1, s2}"
    using assms(7) by (auto simp: verify_all_def recs(1) ch vn split: sum.splits prod.splits if_splits)
  then show ?thesis using s1 s2 by auto
qed

lemma still_usable_only:
  "only_keys view invar P s s' \<Longrightarrow> invar s \<Longrightarrow> \<not> P (backupPrefix @ bi_Name info) \<Longrightarrow> still_usable view info s \<Longrightarrow> still_usable view info s'"
  by (simp add: still_usable_def only_keys_def)

lemma schedule_not_backup: "backupPrefix @ n \<noteq> ''schedule/'' @ job" "\<not> is_backup_key (''schedule/'' @ job)"
  by (simp_all add: backupPrefix_def HasPrefix_def)

lemma backup_from_Inr:
  "backup_from sha S Bl co en node s b = (Inr rec, s', b') \<Longrightarrow>
   br_Node rec = node \<and> br_Status rec = BackupUploaded \<and> be_create en node = Inr (br_Info rec) \<and>
   (\<exists>header body. be_download en node (br_Name rec) = Inr (header, body) \<and> header \<in> {[], bi_SHA256 (br_Info rec)} \<and>
      sha (the body) = bi_SHA256 (br_Info rec) \<and> fst (bl_Put Bl b (br_Name rec) body (bi_Size (br_Info rec))) = None)"
  by (auto simp: backup_from_def br_Name_def Let_def split: sum.splits prod.splits if_splits option.splits)

section \<open>A new backup is kept\<close>

lemma Prune_keeps:
  assumes "reliable_store S view bound invar" and "blob_store Bl cont" and "invar s" and "backups_ok (view s)"
    and "listBackupRecords S s = Inr recs" and "r \<in> set recs" and "br_Status (fst r) \<noteq> BackupBad"
    and "br_Name (fst r) \<in> set (keep_newest (c_BackupRetention cfg) 0 recs @ keep_verified recs)"
    and "Prune S Bl cfg now s b = (es, s', b')"
  shows "invar s' \<and> view s' (backupPrefix @ br_Name (fst r)) = view s (backupPrefix @ br_Name (fst r)) \<and>
    cont b' (br_Name (fst r)) = cont b (br_Name (fst r))"
proof -
  let ?keep = "keep_newest (c_BackupRetention cfg) 0 recs @ keep_verified recs"
  have "\<not> list_all (\<lambda>r. br_Status (fst r) = BackupBad) recs" using assms(6,7) by (auto simp: list_all_iff)
  then obtain b1 where pr: "prune_records S Bl ?keep recs s b = (es, s', b1)" and b': "b' = handleOrphans Bl cfg now recs True b1"
    using assms(9) by (auto simp: Prune_def assms(5) Let_def split: prod.splits)
  have recs: "set recs = recorded (view s)" using listBackupRecords_char [OF assms(1), OF assms(3,4)] assms(5) by auto
  have "\<forall>r \<in> set recs. ValidKey (backupPrefix @ br_Name (fst r))"
    using assms(4) unfolding recs recorded_def backups_ok_def by fastforce
  from prune_records_state [OF assms(1), OF assms(3) this pr] obtain D where D: "invar s'" "D \<inter> set ?keep = {}" "view s' = without (view s) D"
    by blast
  have "br_Name (fst r) \<notin> D" using D(2) assms(8) by blast
  then have "view s' (backupPrefix @ br_Name (fst r)) = view s (backupPrefix @ br_Name (fst r))"
    by (auto simp: D(3) without_def)
  moreover have "br_Name (fst r) \<in> set (map (\<lambda>r. br_Name (fst r)) recs)" using assms(6) by auto
  then have "cont b' (br_Name (fst r)) = cont b1 (br_Name (fst r))"
    unfolding b' by (auto simp: handleOrphans_def blob_store.delete_orphans_cont [OF assms(2)] split: sum.splits simp del: set_map)
  ultimately show ?thesis using D(1) blob_store.prune_records_cont [OF assms(2), OF pr assms(8)] by simp
qed

lemma newest_first:
  assumes "sorted_wrt newer recs" and "r \<in> set recs" and "\<And>x. x \<in> set recs \<Longrightarrow> x \<noteq> r \<Longrightarrow> newer r x"
  shows "\<exists>rs. recs = r # rs"
proof (cases recs)
  case (Cons x xs)
  have "x = r"
  proof (rule ccontr)
    assume "x \<noteq> r"
    then have "newer x r" "newer r x" using assms Cons by auto
    then show False using newer_asym by blast
  qed
  with Cons show ?thesis by blast
qed (use assms in simp)

lemma backup_from_kept:
  assumes "reliable_store S view bound invar" and "blob_store Bl cont" and "invar s" and "backups_ok (view s)"
    and "1 \<le> c_BackupRetention (co_cfg co)" and "ValidKey (backupPrefix @ br_Name rec)"
    and "\<forall>r \<in> recorded (view s). bi_CreatedAt (br_Info (fst r)) < bi_CreatedAt (br_Info rec)"
    and "backup_from sha S Bl co en node s b = (Inr rec, s', b')"
  shows "invar s' \<and> (\<exists>rv. view s' (backupPrefix @ br_Name rec) = Some (DocBackup rec, rv)) \<and>
    (\<exists>d. cont b' (br_Name rec) = Some d \<and> sha d = bi_SHA256 (br_Info rec))"
proof -
  let ?k = "backupPrefix @ br_Name rec"
  obtain body b1 rv s1 es where put: "bl_Put Bl b (br_Name rec) body (bi_Size (br_Info rec)) = (None, b1)"
    and sha: "sha (the body) = bi_SHA256 (br_Info rec)" and cr: "CreateJSON S DocBackup s ?k rec = (Inr rv, s1)"
    and st: "br_Status rec = BackupUploaded" and pr: "Prune S Bl (co_cfg co) (bt_prune en) s1 b1 = (es, s', b')"
    using assms(8)
    by (auto simp: backup_from_def br_Name_def Let_def split: sum.splits prod.splits if_splits option.splits)
  obtain d where "body = Some d" using blob_store.put_reader [OF assms(2) put] by blast
  then have d: "cont b1 (br_Name rec) = Some d" "sha d = bi_SHA256 (br_Info rec)"
    using blob_store.put_done [OF assms(2), of b "br_Name rec" d] put sha by auto
  have "cas_store S view bound invar" using assms(1) by (simp add: reliable_store_def)
  from cas_store.create_cases [OF this assms(3) cr [unfolded CreateJSON_def]]
  have s1: "invar s1" "view s1 = (view s)(?k \<mapsto> (DocBackup rec, rv))" by (auto simp: committed_def)
  have ok1: "backups_ok (view s1)" using assms(4,6) by (auto simp: backups_ok_def s1)
  obtain recs where recs: "listBackupRecords S s1 = Inr recs" "sorted_wrt newer recs" "set recs = recorded (view s1)"
    using listBackupRecords_char [OF assms(1), OF s1(1) ok1] by blast
  have mem: "(rec, rv) \<in> set recs" by (simp add: recs(3) mem_recorded s1)
  have "newer (rec, rv) x" if "x \<in> set recs" "x \<noteq> (rec, rv)" for x
    using that assms(7) by (auto simp: recs(3) mem_recorded s1 newer_def split: if_splits)
  from newest_first [OF recs(2) mem this] obtain rs where "recs = (rec, rv) # rs" by blast
  then have "br_Name (fst (rec, rv)) \<in> set (keep_newest (c_BackupRetention (co_cfg co)) 0 recs @ keep_verified recs)"
    using st assms(5) by simp
  from Prune_keeps [OF assms(1,2), OF s1(1) ok1 recs(1) mem _ this pr] st d show ?thesis by (simp add: s1)
qed

section \<open>Two backups\<close>

definition demo_record :: "string \<Rightarrow> time \<Rightarrow> BackupRecord" where
  "demo_record n t = \<lparr>br_Info = \<lparr>bi_Name = n, bi_Size = 6, bi_SHA256 = ''of '' @ n, bi_CreatedAt = t, bi_LastApplied = 0, bi_Indexes = []\<rparr>,
     br_Node = ''b'', br_UploadedAt = t, br_Status = BackupUploaded, br_CheckedAt = Some t, br_VerifiedAt = None, br_Note = []\<rparr>"

definition demo_entry :: "string \<Rightarrow> time \<Rightarrow> nat \<Rightarrow> string \<times> doc State_Store.Entry" where
  "demo_entry n t r = (backupPrefix @ n, \<lparr>e_Key = backupPrefix @ n, e_Value = DocBackup (demo_record n t), e_Revision = r\<rparr>)"

definition demo_backups :: "doc Mem" where
  "demo_backups = \<lparr>mem_entries = [demo_entry ''x'' 1 1, demo_entry ''y'' 2 2], mem_rev = 2\<rparr>"

definition demo_objects :: FS where
  "demo_objects = \<lparr>fs_files = [(''x'', ''of x'', 1), (''y'', ''of y'', 2)], fs_dirs = [], fs_clock = 3, fs_works = True\<rparr>"

definition demo_backup_env :: backup_env where
  "demo_backup_env = \<lparr>be_create = (\<lambda>n. Inr (br_Info (demo_record ''z'' 3))), be_download = (\<lambda>n f. Inr ([], Some ''of z'')),
     bt_start = 10, bt_record = 11, bt_prune = 12, bt_end = 13\<rparr>"

definition demo_verify_env :: verify_env where
  "demo_verify_env = \<lparr>ve_cancelled1 = (\<lambda>_. False), ve_cancelled2 = False, ve_tmp = None, ve_deep = (\<lambda>_. VGood),
     vt_start = 10, vt_check = (\<lambda>_. 11), vt_deep = 12, vt_end = 13\<rparr>"

lemmas demo_backup_defs = demo_record_def demo_entry_def demo_backups_def demo_objects_def demo_backup_env_def demo_verify_env_def

lemma demo_backups_view:
  "mem_view demo_backups k = (if k = ''backups/x'' then Some (DocBackup (demo_record ''x'' 1), 1)
     else if k = ''backups/y'' then Some (DocBackup (demo_record ''y'' 2), 2) else None)"
  by (auto simp: mem_view_def demo_backups_def demo_entry_def backupPrefix_def)

lemma demo_backups_ok: "mem_inv demo_backups" "backups_ok (mem_view demo_backups)"
  by (auto simp: mem_inv_def demo_backups_def demo_entry_def backupPrefix_def)
     (auto simp: backups_ok_def demo_backups_def mem_view_def demo_entry_def backupPrefix_def br_Name_def demo_record_def
        ValidKey_def key_char_def is_alnum_def less_eq_char_def split: if_splits)

lemma demo_objects_cont: "fs_cont demo_objects ''y'' = Some ''of y''"
  by (simp add: demo_objects_def fs_cont_def)

section \<open>Properties of the backups\<close>

text \<open>
  C9. Pruning never takes away what a recovery would use: the backup that \<open>FetchBackup\<close> serves
  is still the latest usable one afterwards, its object still holds the bytes with the recorded
  SHA-256, and no other document of the shared state changes.
\<close>
theorem Prune_keeps_recovery:
  assumes "reliable_store S view bound invar" and "blob_store Bl cont" and "invar s" and "backups_ok (view s)"
    and "1 \<le> c_BackupRetention cfg" and "FetchBackup sha S (Some Bl) s b [] = Inr (rec, d)"
    and "Prune S Bl cfg now s b = (es, s', b')"
  shows "(\<exists>rv. LatestUsable S s' = Inr (rec, rv)) \<and> cont b' (br_Name rec) = Some d \<and> sha d = bi_SHA256 (br_Info rec)
    \<and> (\<forall>k. \<not> is_backup_key k \<longrightarrow> view s' k = view s k)"
proof -
  obtain rv where lu: "LatestUsable S s = Inr (rec, rv)" using FetchBackup_latest(1) [OF assms(6)] by blast
  then obtain recs where recs: "listBackupRecords S s = Inr recs" "latest_usable recs None = Some (rec, rv)"
    by (auto simp: LatestUsable_Inr)
  have "cont b (br_Name rec) = Some d"
    by (rule blob_store.get_data [OF assms(2) FetchBackup_latest(2) [OF assms(6)]])
  then have "cont b' (br_Name rec) = Some d"
    using blob_store.Prune_cont [OF assms(2) recs assms(5,7)] by simp
  moreover have "only_keys view invar is_backup_key s s'"
    by (rule doc_store.Prune_only [OF doc_store_reliable [OF assms(1)] assms(7)])
  ultimately show ?thesis
    using Prune_latest [OF assms(1), OF assms(3,4,5) lu assms(7)] FetchBackup_latest(3) [OF assms(6)] assms(3)
    by (simp add: only_keys_def)
qed

theorem Prune_keeps_recovery_witness:
  "\<exists>es s' b' rv. Prune Mem_Store FS_Store (demo_cfg\<lparr>c_BackupRetention := 1\<rparr>) 5 demo_backups demo_objects = (es, s', b') \<and>
     mem_entries s' = [demo_entry ''y'' 2 2] \<and> map fst (fs_files b') = [''y''] \<and>
     LatestUsable Mem_Store s' = Inr (demo_record ''y'' 2, rv) \<and> fs_cont b' ''y'' = Some ''of y''"
proof -
  let ?p = "Prune Mem_Store FS_Store (demo_cfg\<lparr>c_BackupRetention := 1\<rparr>) 5 demo_backups demo_objects"
  obtain es s' b' where p: "?p = (es, s', b')" using prod_cases3 by blast
  have "mem_entries (fst (snd ?p)) = [demo_entry ''y'' 2 2] \<and> map fst (fs_files (snd (snd ?p))) = [''y'']" by code_simp
  then have after: "mem_entries s' = [demo_entry ''y'' 2 2]" "map fst (fs_files b') = [''y'']" by (simp_all add: p)
  have f: "FetchBackup id Mem_Store (Some FS_Store) demo_backups demo_objects [] = Inr (demo_record ''y'' 2, ''of y'')"
    by code_simp
  have r: "1 \<le> c_BackupRetention (demo_cfg\<lparr>c_BackupRetention := 1\<rparr>)" by simp
  have n: "br_Name (demo_record ''y'' 2) = ''y''" by (simp add: br_Name_def demo_record_def)
  from Prune_keeps_recovery [OF mem.reliable_store_axioms fs.blob_store_axioms, OF demo_backups_ok r f p] p after n
  show ?thesis by auto
qed



text \<open>
  C17. A verification run never condemns a sound backup: one whose object cannot be shown to be
  damaged (it is unreadable for the moment, or has the recorded SHA-256 and is not rejected by the
  program that restores it) is still recorded as usable afterwards.
\<close>
theorem VerifyOnce_spares_sound:
  assumes "reliable_store S view bound invar" and "invar s" and "backups_ok (view s)" and "still_usable view info s"
    and "sound_object sha Bl (ve_deep en) b info" and "bi_Name info \<noteq> []"
    and "VerifyOnce msg sha S (Some Bl) hasVerifier en b s = (res, s')"
  shows "still_usable view info s'"
proof -
  obtain res1 s1 where v: "verify_all msg sha S Bl hasVerifier en b s = (res1, s1)" by fastforce
  note s1 = VerifyOnce_keeps [OF assms(1), OF assms(2-6) v]
  obtain x where s': "s' = saveSchedule S ''verify'' x s1"
    using assms(7) v by (auto simp: VerifyOnce_def Let_def)
  have "only_keys view invar (\<lambda>k. k = ''schedule/'' @ ''verify'') s1 s'"
    unfolding s' saveSchedule_def by (rule doc_store.save_attempts_only [OF doc_store_reliable [OF assms(1)]])
  from still_usable_only [OF this] s1 schedule_not_backup(1) show ?thesis by blast
qed

theorem VerifyOnce_spares_sound_witness:
  "\<exists>res s'. VerifyOnce (\<lambda>_. ''failed'') id Mem_Store (Some FS_Store) True demo_verify_env demo_objects demo_backups = (res, s') \<and>
     still_usable mem_view (br_Info (demo_record ''y'' 2)) s'"
proof -
  let ?i = "br_Info (demo_record ''y'' 2)"
  obtain res s' where v: "VerifyOnce (\<lambda>_. ''failed'') id Mem_Store (Some FS_Store) True demo_verify_env demo_objects demo_backups = (res, s')"
    by fastforce
  have u: "still_usable mem_view ?i demo_backups"
    by (auto simp: still_usable_def demo_backups_view backupPrefix_def usable_as_def demo_record_def)
  have s: "sound_object id FS_Store (ve_deep demo_verify_env) demo_objects ?i"
    unfolding sound_object_def by code_simp
  have n: "bi_Name ?i \<noteq> []" by (simp add: demo_record_def)
  from VerifyOnce_spares_sound [OF mem.reliable_store_axioms, OF demo_backups_ok u s n v] v show ?thesis by blast
qed

text \<open>
  C13. A successful backup was made by a node that is up, is not the master, and is as fresh as any
  such node; the bytes stored have the SHA-256 that the node announced, and, when it is the newest
  one, both the record and the object are still there after the pruning at the end.
\<close>
theorem BackupOnce_checked:
  assumes "reliable_store S view bound invar" and "blob_store Bl cont" and "invar s" and "backups_ok (view s)"
    and "co_wf co" and "1 \<le> c_BackupRetention (co_cfg co)" and "ValidKey (backupPrefix @ br_Name rec)"
    and "\<forall>r \<in> recorded (view s). bi_CreatedAt (br_Info (fst r)) < bi_CreatedAt (br_Info rec)"
    and "BackupOnce msg sha S (Some Bl) co en s b = (Inr rec, s', b')"
  shows "br_Node rec \<in> set (co_order co) \<and> eligible (cl_Master (ClusterState co)) (co_status co (br_Node rec)) \<and>
    (\<forall>m \<in> set (co_order co). eligible (cl_Master (ClusterState co)) (co_status co m) \<longrightarrow>
       ss_LastApplied (ns_Stream (co_status co m)) \<le> ss_LastApplied (ns_Stream (co_status co (br_Node rec)))) \<and>
    be_create en (br_Node rec) = Inr (br_Info rec) \<and>
    (\<exists>rv. view s' (backupPrefix @ br_Name rec) = Some (DocBackup rec, rv)) \<and>
    (\<exists>d. cont b' (br_Name rec) = Some d \<and> sha d = bi_SHA256 (br_Info rec))"
proof -
  obtain node x s1 where n: "pickBackupNode co = Inr node" and bf: "backup_from sha S Bl co en node s b = (Inr rec, s1, b')"
    and s': "s' = saveSchedule S ''backup'' x s1"
    using assms(9) by (auto simp: BackupOnce_def Let_def split: sum.splits prod.splits)
  note kept = backup_from_kept [OF assms(1,2), OF assms(3,4,6,7,8) bf]
  have "only_keys view invar (\<lambda>k. k = ''schedule/'' @ ''backup'') s1 s'"
    unfolding s' saveSchedule_def by (rule doc_store.save_attempts_only [OF doc_store_reliable [OF assms(1)]])
  then have "view s' (backupPrefix @ br_Name rec) = view s1 (backupPrefix @ br_Name rec)"
    by (rule only_keysD(2)) (use kept schedule_not_backup(1) in auto)
  then show ?thesis using kept pickBackupNode_Inr [OF assms(5) n] backup_from_Inr [OF bf] by simp
qed

theorem BackupOnce_checked_witness:
  "\<exists>rec s' b' d. BackupOnce (\<lambda>_. ''failed'') id Mem_Store (Some FS_Store) demo_co demo_backup_env demo_backups demo_objects = (Inr rec, s', b') \<and>
     br_Node rec = ''b'' \<and> fs_cont b' ''z'' = Some d \<and> d = ''of z''"
proof -
  let ?p = "BackupOnce (\<lambda>_. ''failed'') id Mem_Store (Some FS_Store) demo_co demo_backup_env demo_backups demo_objects"
  let ?rec = "demo_record ''z'' 3\<lparr>br_UploadedAt := 11, br_CheckedAt := Some 11\<rparr>"
  obtain res s' b' where p: "?p = (res, s', b')" using prod_cases3 by blast
  moreover have "fst ?p = Inr ?rec" by code_simp
  ultimately have p: "?p = (Inr ?rec, s', b')" by simp
  have r: "1 \<le> c_BackupRetention (co_cfg demo_co)" by (simp add: demo_co_def demo_cfg_def)
  have n: "br_Name ?rec = ''z''" by (simp add: br_Name_def demo_record_def)
  have k: "ValidKey (backupPrefix @ br_Name ?rec)"
    unfolding n by (simp add: backupPrefix_def ValidKey_def key_char_def is_alnum_def less_eq_char_def)
  have new: "\<forall>r \<in> recorded (mem_view demo_backups). bi_CreatedAt (br_Info (fst r)) < bi_CreatedAt (br_Info ?rec)"
    by (auto simp: mem_recorded demo_backups_view demo_record_def split: if_splits)
  from BackupOnce_checked [OF mem.reliable_store_axioms fs.blob_store_axioms, OF demo_backups_ok demo_wf r k new p] p
  show ?thesis by (auto simp: br_Name_def demo_record_def)
qed

text \<open>
  The schedule that the backup job leaves: after a success the job is due again exactly when
  the interval has passed since its end; after a failure it is not due before the retry pause is
  over. No failure of the job itself can lose that record.
\<close>
theorem BackupOnce_reschedules:
  assumes "reliable_store S view bound invar" and "invar s" and "schedule_ok (view s) ''backup''"
    and "BackupOnce msg sha S (Some Bl) co en s b = (res, s', b')"
    and "0 < bt_start en" and "bt_start en \<le> bt_end en"
    and "\<forall>x r. loadSchedule S s ''backup'' = Inr (x, r) \<longrightarrow> sc_LastSuccess x < bt_start en"
  shows "\<exists>x r. loadSchedule S s' ''backup'' = Inr (x, r) \<and> sc_LastAttempt x = bt_start en \<and>
    (case res of
       Inr _ \<Rightarrow> (\<forall>now. due cfg now x interval \<longleftrightarrow> 0 < interval \<and> interval \<le> time_Sub now (bt_end en))
     | Inl err \<Rightarrow> sc_LastError x = msg err \<and> (\<forall>now. due cfg now x interval \<longrightarrow> c_BackupRetry cfg \<le> time_Sub now (bt_start en)))"
proof -
  define x0 where "x0 = (loaded_or_zero (loadSchedule S s ''backup''))\<lparr>sc_LastAttempt := bt_start en\<rparr>"
  obtain res1 s1 b1 where step: "(case pickBackupNode co of Inl err \<Rightarrow> (Inl err, s, b)
      | Inr node \<Rightarrow> backup_from sha S Bl co en node s b) = (res1, s1, b1)" using prod_cases3 by blast
  then have s': "s' = saveSchedule S ''backup'' (job_done msg res (bt_end en) x0) s1"
    using assms(4) by (auto simp: BackupOnce_def Let_def x0_def)
  have s1: "only_keys view invar is_backup_key s s1"
    using step doc_store.backup_from_only [OF doc_store_reliable [OF assms(1)]] by (auto split: sum.splits)
  have "view s1 (''schedule/'' @ ''backup'') = view s (''schedule/'' @ ''backup'')"
    by (rule only_keysD(2) [OF s1 assms(2) schedule_not_backup(2)])
  then have "schedule_ok (view s1) ''backup''" using assms(3) by (simp add: schedule_ok_def)
  from saveSchedule_stores [OF assms(1), OF only_keysD(1) [OF s1 assms(2)] this]
  obtain r where "loadSchedule S s' ''backup'' = Inr (job_done msg res (bt_end en) x0, r)" unfolding s' by blast
  moreover have "sc_LastSuccess x0 < bt_start en"
    using assms(5,7) by (auto simp: x0_def loaded_or_zero_def zero_Schedule_def split: sum.splits)
  ultimately show ?thesis
    using assms(5,6) by (auto simp: job_done_def due_def x0_def time_IsZero_def split: sum.splits)
qed

theorem BackupOnce_reschedules_witness:
  "\<exists>res s' b' x r. BackupOnce (\<lambda>_. ''failed'') id Mem_Store (Some FS_Store) demo_co demo_backup_env demo_backups demo_objects = (res, s', b') \<and>
     loadSchedule Mem_Store s' ''backup'' = Inr (x, r) \<and> due demo_cfg (13 + Hour) x Hour \<and> \<not> due demo_cfg (12 + Hour) x Hour"
proof -
  let ?p = "BackupOnce (\<lambda>_. ''failed'') id Mem_Store (Some FS_Store) demo_co demo_backup_env demo_backups demo_objects"
  let ?rec = "demo_record ''z'' 3\<lparr>br_UploadedAt := 11, br_CheckedAt := Some 11\<rparr>"
  obtain res s' b' where p: "?p = (res, s', b')" using prod_cases3 by blast
  moreover have "fst ?p = Inr ?rec" by code_simp
  ultimately have p: "?p = (Inr ?rec, s', b')" by simp
  have l: "loadSchedule Mem_Store demo_backups ''backup'' = Inr (zero_Schedule, 0)" by code_simp
  have ok: "schedule_ok (mem_view demo_backups) ''backup''"
    by (simp add: schedule_ok_def demo_backups_view ValidKey_def key_char_def is_alnum_def less_eq_char_def)
  have t: "0 < bt_start demo_backup_env" "bt_start demo_backup_env \<le> bt_end demo_backup_env" "bt_end demo_backup_env = 13"
    "\<forall>x r. loadSchedule Mem_Store demo_backups ''backup'' = Inr (x, r) \<longrightarrow> sc_LastSuccess x < bt_start demo_backup_env"
    unfolding l by (simp_all add: demo_backup_env_def zero_Schedule_def)
  from BackupOnce_reschedules [OF mem.reliable_store_axioms, OF demo_backups_ok(1) ok p t(1,2,4), of demo_cfg Hour]
  obtain x r where x: "loadSchedule Mem_Store s' ''backup'' = Inr (x, r)"
    and d: "\<And>now. due demo_cfg now x Hour \<longleftrightarrow> 0 < Hour \<and> Hour \<le> time_Sub now 13" by (auto simp: t(3))
  have "due demo_cfg (13 + Hour) x Hour \<and> \<not> due demo_cfg (12 + Hour) x Hour" unfolding d by code_simp
  with p x show ?thesis by blast
qed

end
