(* ===== verification/Json.thy ===== *)
theory Json
  imports Prelude
begin

text \<open>
  JSON values as \<open>encoding/json\<close> unmarshals them into an \<open>interface{}\<close>, and the functions on
  byte strings that the handlers of request bodies use. A map is an association list with distinct
  keys; a number is kept as its text. Parsing and printing of JSON are arguments where they are used.
\<close>

datatype json = JNull | JBool bool | JNum string | JStr string | JArr "json list" | JObj "(string \<times> json) list"

type_synonym object = "(string \<times> json) list"

text \<open>\<open>json.Unmarshal\<close> into a \<open>map[string]interface{}\<close>: \<open>null\<close> leaves the map nil.\<close>

fun as_object :: "json \<Rightarrow> object option option" where
  "as_object (JObj m) = Some (Some m)"
| "as_object JNull = Some None"
| "as_object _ = None"

fun as_objects :: "json list \<Rightarrow> object option list option" where
  "as_objects [] = Some []"
| "as_objects (j # js) =
     (case as_object j of
        None \<Rightarrow> None
      | Some m \<Rightarrow> (case as_objects js of None \<Rightarrow> None | Some ms \<Rightarrow> Some (m # ms)))"

fun as_array :: "json \<Rightarrow> object option list option" where
  "as_array (JArr js) = as_objects js"
| "as_array JNull = Some []"
| "as_array _ = None"

lemma as_objects_length: "as_objects js = Some ms \<Longrightarrow> length ms = length js"
  by (induction js arbitrary: ms) (auto split: option.splits)

section \<open>Trimming (\<open>bytes.TrimSpace\<close>)\<close>

text \<open>White space of Unicode, each as its bytes in UTF-8.\<close>

definition white_space :: "string list" where
  "white_space =
     [[CHR 0x09], [CHR 0x0A], [CHR 0x0B], [CHR 0x0C], [CHR 0x0D], [CHR 0x20], [CHR 0xC2, CHR 0x85],
      [CHR 0xC2, CHR 0xA0], [CHR 0xE1, CHR 0x9A, CHR 0x80], [CHR 0xE2, CHR 0x80, CHR 0x80],
      [CHR 0xE2, CHR 0x80, CHR 0x81], [CHR 0xE2, CHR 0x80, CHR 0x82], [CHR 0xE2, CHR 0x80, CHR 0x83],
      [CHR 0xE2, CHR 0x80, CHR 0x84], [CHR 0xE2, CHR 0x80, CHR 0x85], [CHR 0xE2, CHR 0x80, CHR 0x86],
      [CHR 0xE2, CHR 0x80, CHR 0x87], [CHR 0xE2, CHR 0x80, CHR 0x88], [CHR 0xE2, CHR 0x80, CHR 0x89],
      [CHR 0xE2, CHR 0x80, CHR 0x8A], [CHR 0xE2, CHR 0x80, CHR 0xA8], [CHR 0xE2, CHR 0x80, CHR 0xA9],
      [CHR 0xE2, CHR 0x80, CHR 0xAF], [CHR 0xE2, CHR 0x81, CHR 0x9F], [CHR 0xE3, CHR 0x80, CHR 0x80]]"

definition starts_with :: "string list \<Rightarrow> string \<Rightarrow> nat option" where
  "starts_with ws s = map_option length (find (\<lambda>w. HasPrefix s w) ws)"

lemma white_space_pos: "starts_with white_space s = Some n \<Longrightarrow> 0 < n \<and> n \<le> length s"
proof -
  assume "starts_with white_space s = Some n"
  then obtain w where w: "find (\<lambda>w. HasPrefix s w) white_space = Some w" "length w = n"
    by (auto simp: starts_with_def)
  then have "w \<in> set white_space" "HasPrefix s w" by (auto simp: find_Some_iff)
  moreover have "\<forall>w \<in> set white_space. w \<noteq> []" by (simp add: white_space_def)
  ultimately show ?thesis using w(2) by (auto simp: HasPrefix_def)
qed

function TrimLeft :: "string \<Rightarrow> string" where
  "TrimLeft s = (case starts_with white_space s of None \<Rightarrow> s | Some n \<Rightarrow> TrimLeft (drop n s))"
  by auto
termination
  by (relation "measure length") (auto dest: white_space_pos)

declare TrimLeft.simps [simp del]

function TrimRight :: "string \<Rightarrow> string" where
  "TrimRight s =
     (case starts_with (map rev white_space) (rev s) of None \<Rightarrow> s | Some n \<Rightarrow> TrimRight (take (length s - n) s))"
  by auto
termination
proof (relation "measure length", simp)
  fix s n assume "starts_with (map rev white_space) (rev s) = Some n"
  then obtain w where w: "find (\<lambda>w. HasPrefix (rev s) w) (map rev white_space) = Some w" "length w = n"
    by (auto simp: starts_with_def)
  then have "w \<in> set (map rev white_space)" "HasPrefix (rev s) w" unfolding find_Some_iff by auto
  moreover have "\<forall>w \<in> set (map rev white_space). w \<noteq> []" by (simp add: white_space_def)
  ultimately have "0 < n" "0 < length s" using w(2) by (auto simp: HasPrefix_def)
  then show "(take (length s - n) s, s) \<in> measure length" by simp
qed

declare TrimRight.simps [simp del]

definition TrimSpace :: "string \<Rightarrow> string" where
  "TrimSpace s = TrimRight (TrimLeft s)"

end
