(* ===== verification/Coordinator_Api.thy ===== *)
theory Coordinator_Api
  imports Backup_Jobs Json
begin

text \<open>
  The HTTP interface of the coordinator (\<open>pkg/coordinator/api.go\<close>): authentication, reading the
  documents of a request, splitting them into messages of the stream, and the other endpoints, each
  as a function from a request and the state of the coordinator to a response and the new state.
  Routing of \<open>net/http\<close> is the datatype \<open>route\<close>. JSON is parsed and printed by arguments.
\<close>

section \<open>Configuration\<close>

record APIConfig =
  ac_Token :: string
  ac_MaxBody :: int
  ac_MaxDocsPerMessage :: int
  ac_MaxMessageBytes :: int

definition api_defaults :: "APIConfig \<Rightarrow> APIConfig" where
  "api_defaults a =
     (let a1 = (if ac_MaxBody a \<le> 0 then a\<lparr>ac_MaxBody := push_bit 20 32\<rparr> else a);
          a2 = (if ac_MaxDocsPerMessage a1 \<le> 0 then a1\<lparr>ac_MaxDocsPerMessage := 500\<rparr> else a1)
      in if ac_MaxMessageBytes a2 \<le> 0 then a2\<lparr>ac_MaxMessageBytes := push_bit 10 512\<rparr> else a2)"

section \<open>Reading a body\<close>

text \<open>A body yields its bytes and then ends, or breaks off (\<open>bd_fails\<close>).\<close>

record body =
  bd_bytes :: bytes
  bd_fails :: bool

datatype read_error = MaxBytesError | BodyBroken

text \<open>\<open>http.MaxBytesReader\<close>: the bytes that are read, and the error after them.\<close>

definition MaxBytesReader :: "int \<Rightarrow> body \<Rightarrow> bytes \<times> read_error option" where
  "MaxBytesReader n b =
     (if n < int (length (bd_bytes b)) then (take (nat n) (bd_bytes b), Some MaxBytesError)
      else (bd_bytes b, if bd_fails b then Some BodyBroken else None))"

definition ReadAll :: "bytes \<times> read_error option \<Rightarrow> read_error + bytes" where
  "ReadAll r = (case snd r of Some err \<Rightarrow> Inl err | None \<Rightarrow> Inr (fst r))"

definition newline :: char where "newline = CHR 0x0A"

definition drop_CR :: "string \<Rightarrow> string" where
  "drop_CR line = (if line \<noteq> [] \<and> last line = CHR 0x0D then butlast line else line)"

text \<open>
  \<open>bufio.Scanner\<close> with the buffer of \<open>parseDocs\<close>: the lines it hands out and whether it gave up
  on a line that is too long. A line that is not ended by a newline is handed out too, also when
  reading broke off inside it.
\<close>

definition max_token :: int where "max_token = push_bit 20 8"

definition scan_lines :: "bytes \<Rightarrow> string list \<times> bool" where
  "scan_lines d =
     (let ls = Split_char newline d;
          ls' = (if last ls = [] then butlast ls else ls);
          ok = takeWhile (\<lambda>l. int (length l) < max_token) ls'
      in (map drop_CR ok, length ok < length ls'))"

section \<open>Documents of a request\<close>

datatype parse_error =
    LineNotObject nat
  | EmptyBody
  | NotArray
  | NotObject
  | NoDocuments
  | NullDocument nat
  | LineTooLong
  | ReadError read_error
  | MarshalError

record docLine =
  dl_doc :: "object Doc"
  dl_size :: int

fun parse_lines :: "(bytes \<Rightarrow> json option) \<Rightarrow> nat \<Rightarrow> string list \<Rightarrow> parse_error + object option list" where
  "parse_lines unmarshal n [] = Inr []"
| "parse_lines unmarshal n (l # ls) =
     (if TrimSpace l = [] then parse_lines unmarshal (n + 1) ls
      else case Option.bind (unmarshal (TrimSpace l)) as_object of
        None \<Rightarrow> Inl (LineNotObject n)
      | Some m \<Rightarrow> map_sum id (\<lambda>ms. m # ms) (parse_lines unmarshal (n + 1) ls))"

definition read_objects ::
  "(bytes \<Rightarrow> json option) \<Rightarrow> bytes \<times> read_error option \<Rightarrow> string \<Rightarrow> parse_error + object option list" where
  "read_objects unmarshal r contentType =
     (if Contains contentType ''ndjson'' \<or> Contains contentType ''jsonl'' then
        (case scan_lines (fst r) of (ls, tooLong) \<Rightarrow>
           (case parse_lines unmarshal 1 ls of
              Inl err \<Rightarrow> Inl err
            | Inr objects \<Rightarrow>
                if tooLong then Inl LineTooLong
                else (case snd r of Some err \<Rightarrow> Inl (ReadError err) | None \<Rightarrow> Inr objects)))
      else
        (case ReadAll r of
           Inl err \<Rightarrow> Inl (ReadError err)
         | Inr all_bytes \<Rightarrow>
             let raw = TrimSpace all_bytes in
             if raw = [] then Inl EmptyBody
             else if hd raw = CHR ''['' then
               (case Option.bind (unmarshal raw) as_array of None \<Rightarrow> Inl NotArray | Some objects \<Rightarrow> Inr objects)
             else (case Option.bind (unmarshal raw) as_object of None \<Rightarrow> Inl NotObject | Some m \<Rightarrow> Inr [m])))"

definition own_id :: "object \<Rightarrow> string" where
  "own_id obj = (case map_of obj ''_id'' of Some (JStr v) \<Rightarrow> v | _ \<Rightarrow> [])"

definition doc_line ::
  "(json \<Rightarrow> bytes option) \<Rightarrow> string \<Rightarrow> nat \<Rightarrow> object \<Rightarrow> parse_error + docLine" where
  "doc_line marshal key i obj =
     (let v = own_id obj;
          obj' = (if v \<noteq> [] then AList.delete ''_id'' obj else obj);
          ident = (if v = [] \<and> key \<noteq> [] then key @ ''-'' @ FormatUint i else v)
      in case marshal (JObj obj') of
           None \<Rightarrow> Inl MarshalError
         | Some raw \<Rightarrow> Inr \<lparr>dl_doc = \<lparr>d_ID = ident, d_Doc = Some obj'\<rparr>, dl_size = int (length raw) + int (length ident) + 32\<rparr>)"

fun doc_lines ::
  "(json \<Rightarrow> bytes option) \<Rightarrow> string \<Rightarrow> nat \<Rightarrow> object option list \<Rightarrow> parse_error + docLine list" where
  "doc_lines marshal key i [] = Inr []"
| "doc_lines marshal key i (obj # objs) =
     (case obj of
        None \<Rightarrow> Inl (NullDocument (i + 1))
      | Some m \<Rightarrow>
          (case doc_line marshal key i m of
             Inl err \<Rightarrow> Inl err
           | Inr d \<Rightarrow> map_sum id (\<lambda>ds. d # ds) (doc_lines marshal key (i + 1) objs)))"

definition parseDocs ::
  "(bytes \<Rightarrow> json option) \<Rightarrow> (json \<Rightarrow> bytes option) \<Rightarrow> bytes \<times> read_error option \<Rightarrow> string \<Rightarrow> string \<Rightarrow>
   parse_error + docLine list" where
  "parseDocs unmarshal marshal r contentType idempotencyKey =
     (case read_objects unmarshal r contentType of
        Inl err \<Rightarrow> Inl err
      | Inr objects \<Rightarrow>
          if objects = [] then Inl NoDocuments
          else doc_lines marshal idempotencyKey 0 objects)"

text \<open>The loop that forms messages; the last batch is appended after it.\<close>

fun split_docs ::
  "APIConfig \<Rightarrow> docLine list \<Rightarrow> object Doc list list \<Rightarrow> object Doc list \<Rightarrow> int \<Rightarrow> object Doc list list option" where
  "split_docs cfg [] batches current currentSize = Some (batches @ [current])"
| "split_docs cfg (d # ds) batches current currentSize =
     (if ac_MaxMessageBytes cfg < dl_size d then None
      else if 0 < length current \<and>
              (ac_MaxDocsPerMessage cfg \<le> int (length current) \<or> ac_MaxMessageBytes cfg < currentSize + dl_size d)
        then split_docs cfg ds (batches @ [current]) [dl_doc d] (dl_size d)
      else split_docs cfg ds batches (current @ [dl_doc d]) (currentSize + dl_size d))"

section \<open>Responses\<close>

datatype api_error =
    WrongToken
  | NotLeader
  | NoPublisher
  | NoBlobs
  | MasterUnknown
  | InvalidIndex string
  | InvalidKey
  | BodyTooLarge int
  | BadDocs parse_error
  | DocTooLarge int
  | UnknownOp string
  | BodyUnreadable read_error
  | InvalidJSON
  | BadAdmin
  | PublishFailed pub_error
  | JobRunning
  | BackupFailed backup_error
  | StateFailed state_error
  | NoSuchBackup string
  | BlobFailed blob_error
  | BadFailoverBody
  | PromoteFailed cluster_error

record Status =
  sx_ID :: string
  sx_Leader :: bool
  sx_Master :: string
  sx_Epoch :: u64
  sx_Nodes :: "NodeStatus list"
  sx_Publisher :: "PublisherHealth option"
  sx_Admission :: Admission
  sx_Backup :: Schedule
  sx_Verify :: Schedule
  sx_Backups :: "BackupRecord list"

datatype payload =
    Failure api_error
  | Healthz bool
  | StatusReply Status
  | AdmitReply Admission
  | MasterReply string string u64
  | Ingested nat nat
  | IngestFailed pub_error nat nat
  | Accepted
  | BackupsReply "BackupRecord list"
  | BackupReply BackupRecord
  | AllGood
  | Archive string int bytes
  | FailedOver string u64

record response =
  rs_code :: nat
  rs_retryAfter :: "string option"
  rs_body :: payload

definition reply :: "nat \<Rightarrow> payload \<Rightarrow> response" where
  "reply code v = \<lparr>rs_code = code, rs_retryAfter = None, rs_body = v\<rparr>"

definition fail :: "nat \<Rightarrow> api_error \<Rightarrow> response" where
  "fail code err = reply code (Failure err)"

section \<open>Handlers\<close>

text \<open>
  What the coordinator is made of, and what the outside answers during one request: the outcome of
  the calls of each message (\<open>av_pub\<close>), the connection for \<open>Health\<close>, the readings of the clock.
\<close>

record ('s, 'b, 'q, 'o, 'j) api_ops =
  ao_store :: "('s, doc) Store"
  ao_blobs :: "'b BlobStore option"
  ao_bolt :: "'q bolt"
  ao_js :: "('o, 'j) js_Publish"
  ao_unmarshal :: "bytes \<Rightarrow> json option"
  ao_marshal :: "json \<Rightarrow> bytes option"
  ao_compact :: "bytes \<Rightarrow> bytes option"
  ao_encode :: "object Message \<Rightarrow> bytes option"
  ao_decode :: "bytes \<Rightarrow> object Message option"
  ao_to :: "bytes \<times> read_error option \<Rightarrow> string option"
  ao_sha :: "bytes \<Rightarrow> string"
  ao_msg :: "backup_error \<Rightarrow> string"
  ao_verifier :: bool

record 'o api_env =
  av_pub :: "nat \<Rightarrow> 'o pub_env"
  av_limit :: int
  av_ok :: bool
  av_connected :: bool
  av_backup :: backup_env
  av_verify :: verify_env
  av_now0 :: time
  av_now1 :: time

record ('s, 'b, 'q, 'j) api_state =
  as_co :: Coordinator
  as_st :: 's
  as_bl :: 'b
  as_pub :: "('q, 'j) Publisher option"
  as_locked :: bool

record request =
  rq_Authorization :: string
  rq_ContentType :: string
  rq_IdempotencyKey :: string
  rq_Body :: body

definition bad_index :: "string \<Rightarrow> bool" where
  "bad_index index \<longleftrightarrow> index = [] \<or> HasPrefix index ''_'' \<or> (\<exists>c \<in> set index. c \<in> set [CHR ''/'', CHR '' '', CHR 0x5C])"

fun publish_batches ::
  "('s, 'b, 'q, 'o, 'j) api_ops \<Rightarrow> 'o api_env \<Rightarrow> string \<Rightarrow> nat \<Rightarrow> nat \<Rightarrow> object Doc list list \<Rightarrow> ('q, 'j) Publisher \<Rightarrow>
   (pub_error option \<times> nat \<times> nat) \<times> ('q, 'j) Publisher" where
  "publish_batches ops en index i accepted [] p = ((None, accepted, i), p)"
| "publish_batches ops en index i accepted (batch # rest) p =
     (case PublishDocs (ao_bolt ops) (ao_js ops) (ao_encode ops) (av_limit en) (av_pub en i) index batch p of
        (Some err, p') \<Rightarrow> ((Some err, accepted, i), p')
      | (None, p') \<Rightarrow> publish_batches ops en index (i + 1) (accepted + length batch) rest p')"

definition ingest_response :: "pub_error option \<times> nat \<times> nat \<Rightarrow> response" where
  "ingest_response r =
     (case r of
        (None, accepted, n) \<Rightarrow> reply 202 (Ingested accepted n)
      | (Some err, accepted, i) \<Rightarrow>
          (let code = (if err = ErrBackpressure then 503 else 500);
               code' = (if err = ErrMessageTooLarge then 413 else code)
           in \<lparr>rs_code = code', rs_retryAfter = (if err = ErrBackpressure then Some ''5'' else None),
               rs_body = IngestFailed err accepted i\<rparr>))"

definition ingest ::
  "('s, 'b, 'q, 'o, 'j) api_ops \<Rightarrow> APIConfig \<Rightarrow> 'o api_env \<Rightarrow> string \<Rightarrow> request \<Rightarrow> ('s, 'b, 'q, 'j) api_state \<Rightarrow>
   response \<times> ('s, 'b, 'q, 'j) api_state" where
  "ingest ops cfg en index rq a =
     (case as_pub a of
        None \<Rightarrow> (fail 501 NoPublisher, a)
      | Some p \<Rightarrow>
          if bad_index index then (fail 400 (InvalidIndex index), a)
          else if rq_IdempotencyKey rq \<noteq> [] \<and> \<not> ValidKey (rq_IdempotencyKey rq) then (fail 400 InvalidKey, a)
          else (case parseDocs (ao_unmarshal ops) (ao_marshal ops) (MaxBytesReader (ac_MaxBody cfg) (rq_Body rq))
                       (rq_ContentType rq) (rq_IdempotencyKey rq) of
                  Inl err \<Rightarrow>
                    if err = ReadError MaxBytesError then (fail 413 (BodyTooLarge (ac_MaxBody cfg)), a)
                    else (fail 400 (BadDocs err), a)
                | Inr docs \<Rightarrow>
                    (case split_docs cfg docs [] [] 0 of
                       None \<Rightarrow> (fail 413 (DocTooLarge (ac_MaxMessageBytes cfg)), a)
                     | Some batches \<Rightarrow>
                         (case publish_batches ops en index 0 0 batches p of
                            (r, p') \<Rightarrow> (ingest_response r, a\<lparr>as_pub := Some p'\<rparr>)))))"

definition admin ::
  "('s, 'b, 'q, 'o, 'j) api_ops \<Rightarrow> APIConfig \<Rightarrow> 'o api_env \<Rightarrow> string \<Rightarrow> string \<Rightarrow> request \<Rightarrow> ('s, 'b, 'q, 'j) api_state \<Rightarrow>
   response \<times> ('s, 'b, 'q, 'j) api_state" where
  "admin ops cfg en index op rq a =
     (case as_pub a of
        None \<Rightarrow> (fail 501 NoPublisher, a)
      | Some p \<Rightarrow>
          if op \<notin> {OpCreateIndex, OpDeleteIndex, OpSetMapping} then (fail 400 (UnknownOp op), a)
          else (case ReadAll (MaxBytesReader (ac_MaxBody cfg) (rq_Body rq)) of
                  Inl err \<Rightarrow> (fail 400 (BodyUnreadable err), a)
                | Inr d \<Rightarrow>
                    if TrimSpace d \<noteq> [] \<and> ao_unmarshal ops d = None then (fail 400 InvalidJSON, a)
                    else (case NewAdmin index op (if TrimSpace d \<noteq> [] then Some (ao_compact ops d) else None) of
                            None \<Rightarrow> (fail 400 BadAdmin, a)
                          | Some m \<Rightarrow>
                              if isl (Decode (ao_decode ops) (case ao_encode ops m of None \<Rightarrow> [] | Some raw \<Rightarrow> raw))
                              then (fail 400 BadAdmin, a)
                              else (case Publish (ao_bolt ops) (ao_js ops) (ao_encode ops) (av_limit en) (av_pub en 0) m p of
                                      (Some err, p') \<Rightarrow>
                                        (fail (if err = ErrBackpressure then 503 else 500) (PublishFailed err),
                                         a\<lparr>as_pub := Some p'\<rparr>)
                                    | (None, p') \<Rightarrow> (reply 202 Accepted, a\<lparr>as_pub := Some p'\<rparr>)))))"

definition api_health :: "('s, 'b, 'q, 'o, 'j) api_ops \<Rightarrow> 'o api_env \<Rightarrow> ('s, 'b, 'q, 'j) api_state \<Rightarrow> PublisherHealth option" where
  "api_health ops en a = map_option (Health (ao_bolt ops) (av_ok en) (av_connected en)) (as_pub a)"

definition Schedules :: "('s, doc) Store \<Rightarrow> 's \<Rightarrow> Schedule \<times> Schedule" where
  "Schedules S s = (loaded_or_zero (loadSchedule S s ''backup''), loaded_or_zero (loadSchedule S s ''verify''))"

definition api_Status :: "('s, 'b, 'q, 'o, 'j) api_ops \<Rightarrow> 'o api_env \<Rightarrow> ('s, 'b, 'q, 'j) api_state \<Rightarrow> state_error + Status" where
  "api_Status ops en a =
     (let cl = ClusterState (as_co a);
          st = \<lparr>sx_ID = c_ID (co_cfg (as_co a)), sx_Leader = IsLeader (as_co a), sx_Master = cl_Master cl,
                sx_Epoch = cl_Epoch cl, sx_Nodes = NodeStatuses (as_co a), sx_Publisher = api_health ops en a,
                sx_Admission = Admit (api_health ops en a) (as_co a),
                sx_Backup = fst (Schedules (ao_store ops) (as_st a)), sx_Verify = snd (Schedules (ao_store ops) (as_st a)),
                sx_Backups = []\<rparr>
      in case ao_blobs ops of
           None \<Rightarrow> Inr st
         | Some _ \<Rightarrow> (case listBackupRecords (ao_store ops) (as_st a) of
                        Inl err \<Rightarrow> Inl err | Inr recs \<Rightarrow> Inr (st\<lparr>sx_Backups := map fst recs\<rparr>)))"

definition createBackup ::
  "('s, 'b, 'q, 'o, 'j) api_ops \<Rightarrow> 'o api_env \<Rightarrow> ('s, 'b, 'q, 'j) api_state \<Rightarrow> response \<times> ('s, 'b, 'q, 'j) api_state" where
  "createBackup ops en a =
     (if as_locked a then (fail 409 JobRunning, a)
      else case BackupOnce (ao_msg ops) (ao_sha ops) (ao_store ops) (ao_blobs ops) (as_co a) (av_backup en) (as_st a) (as_bl a) of
        (Inl err, s, b) \<Rightarrow>
          (fail (if err = ErrNoBackupNode then 503 else 500) (BackupFailed err), a\<lparr>as_st := s, as_bl := b\<rparr>)
      | (Inr rec, s, b) \<Rightarrow> (reply 200 (BackupReply rec), a\<lparr>as_st := s, as_bl := b\<rparr>))"

definition verify_handler ::
  "('s, 'b, 'q, 'o, 'j) api_ops \<Rightarrow> 'o api_env \<Rightarrow> ('s, 'b, 'q, 'j) api_state \<Rightarrow> response \<times> ('s, 'b, 'q, 'j) api_state" where
  "verify_handler ops en a =
     (if as_locked a then (fail 409 JobRunning, a)
      else case VerifyOnce (ao_msg ops) (ao_sha ops) (ao_store ops) (ao_blobs ops) (ao_verifier ops) (av_verify en) (as_bl a) (as_st a) of
        (Inl err, s) \<Rightarrow> (fail 500 (BackupFailed err), a\<lparr>as_st := s\<rparr>)
      | (Inr _, s) \<Rightarrow> (reply 200 AllGood, a\<lparr>as_st := s\<rparr>))"

definition downloadBackup ::
  "('s, 'b, 'q, 'o, 'j) api_ops \<Rightarrow> string \<Rightarrow> ('s, 'b, 'q, 'j) api_state \<Rightarrow> response" where
  "downloadBackup ops name a =
     (case ao_blobs ops of
        None \<Rightarrow> fail 501 NoBlobs
      | Some Bl \<Rightarrow>
          (case GetJSON (ao_store ops) as_Backup (as_st a) (backupPrefix @ name) of
             Inl err \<Rightarrow> if err = ErrNotFound then fail 404 (NoSuchBackup name) else fail 500 (StateFailed err)
           | Inr (rec, _) \<Rightarrow>
               (case bl_Get Bl (as_bl a) name of
                  Inl err \<Rightarrow> if err = BlobNotFound then fail 404 (NoSuchBackup name) else fail 500 (BlobFailed err)
                | Inr d \<Rightarrow> reply 200 (Archive (bi_SHA256 (br_Info rec)) (bi_Size (br_Info rec)) d))))"

definition failover_handler ::
  "('s, 'b, 'q, 'o, 'j) api_ops \<Rightarrow> 'o api_env \<Rightarrow> request \<Rightarrow> ('s, 'b, 'q, 'j) api_state \<Rightarrow>
   (response \<times> ('s, 'b, 'q, 'j) api_state) option" where
  "failover_handler ops en rq a =
     (case ao_to ops (MaxBytesReader (push_bit 10 4) (rq_Body rq)) of
        None \<Rightarrow> Some (fail 400 BadFailoverBody, a)
      | Some to \<Rightarrow>
          if to = [] then Some (fail 400 BadFailoverBody, a)
          else case Promote (ao_store ops) (as_co a) (av_now0 en) (av_now1 en) to (as_st a) of
            None \<Rightarrow> None
          | Some (Some err, co, s, _) \<Rightarrow> Some (fail 409 (PromoteFailed err), a\<lparr>as_co := co, as_st := s\<rparr>)
          | Some (None, co, s, _) \<Rightarrow>
              Some (reply 200 (FailedOver (case Master co of None \<Rightarrow> [] | Some n \<Rightarrow> nc_Name n) (cl_Epoch (ClusterState co))),
                    a\<lparr>as_co := co, as_st := s\<rparr>))"

section \<open>Routing, authentication, leadership\<close>

datatype route =
    Get_healthz
  | Get_status
  | Get_admit
  | Get_master
  | Post_ingest string
  | Post_admin string string
  | Get_backups
  | Post_backups
  | Get_backup string
  | Post_verify
  | Post_failover

type_synonym ('s, 'b, 'q, 'j) handler = "('s, 'b, 'q, 'j) api_state \<Rightarrow> (response \<times> ('s, 'b, 'q, 'j) api_state) option"

definition TrimPrefix :: "string \<Rightarrow> string \<Rightarrow> string" where
  "TrimPrefix s p = (if HasPrefix s p then drop (length p) s else s)"

definition auth :: "APIConfig \<Rightarrow> request \<Rightarrow> ('s, 'b, 'q, 'j) handler \<Rightarrow> ('s, 'b, 'q, 'j) handler" where
  "auth cfg rq nxt a =
     (if ac_Token cfg \<noteq> [] \<and> TrimPrefix (rq_Authorization rq) ''Bearer '' \<noteq> ac_Token cfg
      then Some (fail 401 WrongToken, a) else nxt a)"

definition leaderOnly :: "('s, 'b, 'q, 'j) handler \<Rightarrow> ('s, 'b, 'q, 'j) handler" where
  "leaderOnly nxt a = (if \<not> IsLeader (as_co a) then Some (fail 409 NotLeader, a) else nxt a)"

definition healthz :: "('s, 'b, 'q, 'j) api_state \<Rightarrow> response" where
  "healthz a = reply 200 (Healthz (IsLeader (as_co a)))"

definition status_handler :: "('s, 'b, 'q, 'o, 'j) api_ops \<Rightarrow> 'o api_env \<Rightarrow> ('s, 'b, 'q, 'j) api_state \<Rightarrow> response" where
  "status_handler ops en a =
     (case api_Status ops en a of Inl err \<Rightarrow> fail 500 (StateFailed err) | Inr st \<Rightarrow> reply 200 (StatusReply st))"

definition admit_handler :: "('s, 'b, 'q, 'o, 'j) api_ops \<Rightarrow> 'o api_env \<Rightarrow> ('s, 'b, 'q, 'j) api_state \<Rightarrow> response" where
  "admit_handler ops en a =
     (let adm = Admit (api_health ops en a) (as_co a) in
      reply (if \<not> ad_Allowed adm then 503 else 200) (AdmitReply adm))"

definition master_handler :: "('s, 'b, 'q, 'j) api_state \<Rightarrow> response" where
  "master_handler a =
     (case Master (as_co a) of
        None \<Rightarrow> fail 503 MasterUnknown
      | Some m \<Rightarrow> reply 200 (MasterReply (nc_Name m) (nc_URL m) (cl_Epoch (ClusterState (as_co a)))))"

definition listBackups_handler :: "('s, 'b, 'q, 'o, 'j) api_ops \<Rightarrow> ('s, 'b, 'q, 'j) api_state \<Rightarrow> response" where
  "listBackups_handler ops a =
     (case ao_blobs ops of
        None \<Rightarrow> fail 501 NoBlobs
      | Some _ \<Rightarrow> (case listBackupRecords (ao_store ops) (as_st a) of
                     Inl err \<Rightarrow> fail 500 (StateFailed err)
                   | Inr recs \<Rightarrow> reply 200 (BackupsReply (map fst recs))))"

definition Handler ::
  "('s, 'b, 'q, 'o, 'j) api_ops \<Rightarrow> APIConfig \<Rightarrow> 'o api_env \<Rightarrow> route \<Rightarrow> request \<Rightarrow> ('s, 'b, 'q, 'j) handler" where
  "Handler ops cfg0 en rt rq =
     (let cfg = api_defaults cfg0 in
      case rt of
        Get_healthz \<Rightarrow> (\<lambda>a. Some (healthz a, a))
      | Get_status \<Rightarrow> auth cfg rq (\<lambda>a. Some (status_handler ops en a, a))
      | Get_admit \<Rightarrow> auth cfg rq (\<lambda>a. Some (admit_handler ops en a, a))
      | Get_master \<Rightarrow> auth cfg rq (\<lambda>a. Some (master_handler a, a))
      | Post_ingest index \<Rightarrow> auth cfg rq (\<lambda>a. Some (ingest ops cfg en index rq a))
      | Post_admin index op \<Rightarrow> auth cfg rq (\<lambda>a. Some (admin ops cfg en index op rq a))
      | Get_backups \<Rightarrow> auth cfg rq (\<lambda>a. Some (listBackups_handler ops a, a))
      | Post_backups \<Rightarrow> auth cfg rq (leaderOnly (\<lambda>a. Some (createBackup ops en a)))
      | Get_backup name \<Rightarrow> auth cfg rq (\<lambda>a. Some (downloadBackup ops name a, a))
      | Post_verify \<Rightarrow> auth cfg rq (leaderOnly (\<lambda>a. Some (verify_handler ops en a)))
      | Post_failover \<Rightarrow> auth cfg rq (leaderOnly (failover_handler ops en rq)))"

section \<open>Splitting a request\<close>

definition doc_sizes :: "docLine list \<Rightarrow> int" where
  "doc_sizes ds = sum_list (map dl_size ds)"

text \<open>What a message may hold, in terms of the documents that went into it.\<close>

definition fits :: "APIConfig \<Rightarrow> docLine list \<Rightarrow> bool" where
  "fits cfg ds \<longleftrightarrow> ds \<noteq> [] \<and> int (length ds) \<le> ac_MaxDocsPerMessage cfg \<and> doc_sizes ds \<le> ac_MaxMessageBytes cfg"

lemma split_docs_fits:
  assumes "0 < ac_MaxDocsPerMessage cfg"
  shows "cur = [] \<or> fits cfg cur \<Longrightarrow> split_docs cfg ds bs (map dl_doc cur) (doc_sizes cur) = Some res \<Longrightarrow> cur @ ds \<noteq> [] \<Longrightarrow>
    \<exists>groups. res = bs @ map (map dl_doc) groups \<and> concat groups = cur @ ds \<and> (\<forall>g \<in> set groups. fits cfg g)"
proof (induction ds arbitrary: cur bs)
  case Nil
  then show ?case by (intro exI [of _ "[cur]"]) auto
next
  case (Cons d ds)
  have d: "\<not> ac_MaxMessageBytes cfg < dl_size d" using Cons.prems(2) by (auto split: if_splits)
  let ?full = "0 < length cur \<and> (ac_MaxDocsPerMessage cfg \<le> int (length cur) \<or> ac_MaxMessageBytes cfg < doc_sizes cur + dl_size d)"
  show ?case
  proof (cases ?full)
    case True
    then have "split_docs cfg ds (bs @ [map dl_doc cur]) (map dl_doc [d]) (doc_sizes [d]) = Some res"
      using Cons.prems(2) d by (simp add: doc_sizes_def)
    moreover have "[d] = [] \<or> fits cfg [d]" using d assms by (simp add: fits_def doc_sizes_def)
    ultimately obtain groups where "res = (bs @ [map dl_doc cur]) @ map (map dl_doc) groups" "concat groups = [d] @ ds"
      "\<forall>g \<in> set groups. fits cfg g" using Cons.IH [of "[d]" "bs @ [map dl_doc cur]"] by auto
    then show ?thesis using True Cons.prems(1) by (intro exI [of _ "cur # groups"]) auto
  next
    case False
    then have "split_docs cfg ds bs (map dl_doc (cur @ [d])) (doc_sizes (cur @ [d])) = Some res"
      using Cons.prems(2) d by (auto simp: doc_sizes_def)
    moreover have "cur @ [d] = [] \<or> fits cfg (cur @ [d])"
      using d assms False Cons.prems(1) by (auto simp: fits_def doc_sizes_def)
    ultimately show ?thesis using Cons.IH [of "cur @ [d]"] by auto
  qed
qed

lemma split_docs_None:
  "split_docs cfg ds bs cur n = None \<longleftrightarrow> (\<exists>d \<in> set ds. ac_MaxMessageBytes cfg < dl_size d)"
  by (induction cfg ds bs cur n rule: split_docs.induct) auto

lemma api_defaults_pos: "0 < ac_MaxBody (api_defaults a)" "0 < ac_MaxDocsPerMessage (api_defaults a)" "0 < ac_MaxMessageBytes (api_defaults a)"
  by (simp_all add: api_defaults_def Let_def push_bit_eq_mult)

section \<open>What a request leads to\<close>

text \<open>The state after every message was accepted, \<open>None\<close> when one was not; \<open>i\<close> is the number of the first.\<close>

fun accept_all ::
  "('s, 'b, 'q, 'o, 'j) api_ops \<Rightarrow> 'o api_env \<Rightarrow> string \<Rightarrow> nat \<Rightarrow> object Doc list list \<Rightarrow> ('q, 'j) Publisher \<Rightarrow> ('q, 'j) Publisher option" where
  "accept_all ops en index i [] p = Some p"
| "accept_all ops en index i (b # bs) p =
     (case PublishDocs (ao_bolt ops) (ao_js ops) (ao_encode ops) (av_limit en) (av_pub en i) index b p of
        (Some _, _) \<Rightarrow> None
      | (None, p') \<Rightarrow> accept_all ops en index (i + 1) bs p')"

definition published ::
  "('s, 'b, 'q, 'o, 'j) api_ops \<Rightarrow> 'o api_env \<Rightarrow> string \<Rightarrow> nat \<Rightarrow> object Doc list list \<Rightarrow> ('q, 'j) Publisher \<Rightarrow>
   pub_error option \<Rightarrow> nat \<Rightarrow> ('q, 'j) Publisher \<Rightarrow> bool" where
  "published ops en index i bs p e k p' \<longleftrightarrow> k \<le> length bs \<and>
     (\<exists>q. accept_all ops en index i (take k bs) p = Some q \<and>
        (case e of
           None \<Rightarrow> k = length bs \<and> p' = q
         | Some err \<Rightarrow> k < length bs \<and>
             PublishDocs (ao_bolt ops) (ao_js ops) (ao_encode ops) (av_limit en) (av_pub en (i + k)) index (bs ! k) q = (Some err, p')))"

lemma publish_batches_published:
  "publish_batches ops en index i acc bs p = ((e, n, j), p') \<Longrightarrow>
   \<exists>k. j = i + k \<and> n = acc + length (concat (take k bs)) \<and> published ops en index i bs p e k p'"
proof (induction bs arbitrary: i acc p)
  case Nil
  then show ?case by (auto simp: published_def)
next
  case (Cons b bs)
  obtain r q where pd: "PublishDocs (ao_bolt ops) (ao_js ops) (ao_encode ops) (av_limit en) (av_pub en i) index b p = (r, q)" by fastforce
  show ?case
  proof (cases r)
    case (Some err)
    then show ?thesis using Cons.prems pd by (intro exI [of _ 0]) (auto simp: published_def)
  next
    case None
    then obtain k where "j = i + 1 + k" "n = acc + length b + length (concat (take k bs))" "published ops en index (i + 1) bs q e k p'"
      using Cons.IH [of "i + 1" "acc + length b" q] Cons.prems pd by auto
    then show ?thesis using pd None by (intro exI [of _ "Suc k"]) (auto simp: published_def split: option.splits)
  qed
qed

lemma map_sum_Inr: "map_sum f g x = Inr y \<longleftrightarrow> (\<exists>z. x = Inr z \<and> y = g z)"
  by (cases x) auto

text \<open>The ID of the document at a position.\<close>

definition id_at :: "string \<Rightarrow> nat \<Rightarrow> object \<Rightarrow> string" where
  "id_at key i m = (if own_id m = [] \<and> key \<noteq> [] then key @ ''-'' @ FormatUint i else own_id m)"

lemma doc_lines_ids:
  "doc_lines marshal key i objs = Inr docs \<Longrightarrow>
   length docs = length objs \<and> (\<forall>j < length docs. \<exists>m. objs ! j = Some m \<and> d_ID (dl_doc (docs ! j)) = id_at key (i + j) m)"
proof (induction objs arbitrary: i docs)
  case (Cons obj objs)
  then obtain m d ds where m: "obj = Some m" "doc_line marshal key i m = Inr d" "doc_lines marshal key (i + 1) objs = Inr ds" "docs = d # ds"
    by (auto simp: map_sum_Inr split: option.splits sum.splits)
  then have "d_ID (dl_doc d) = id_at key i m"
    by (auto simp: doc_line_def id_at_def Let_def split: option.splits)
  with Cons.IH [OF m(3)] m show ?case by (auto simp: nth_Cons' less_Suc_eq_0_disj)
qed simp

lemma parseDocs_Inr:
  assumes "parseDocs unmarshal marshal r ct key = Inr docs"
  shows "\<exists>objs. read_objects unmarshal r ct = Inr objs \<and> objs \<noteq> [] \<and> doc_lines marshal key 0 objs = Inr docs"
    and "docs \<noteq> []"
proof -
  show ex: "\<exists>objs. read_objects unmarshal r ct = Inr objs \<and> objs \<noteq> [] \<and> doc_lines marshal key 0 objs = Inr docs"
    using assms by (auto simp: parseDocs_def split: sum.splits if_splits)
  then show "docs \<noteq> []" using doc_lines_ids by fastforce
qed

lemma parse_lines_append:
  "parse_lines unmarshal n xs = Inr ms \<Longrightarrow>
   parse_lines unmarshal n (xs @ ys) = map_sum id (\<lambda>ms'. ms @ ms') (parse_lines unmarshal (n + length xs) ys)"
proof (induction xs arbitrary: n ms)
  case (Cons x xs)
  show ?case
  proof (cases "TrimSpace x = []")
    case True
    then show ?thesis using Cons by simp
  next
    case False
    then obtain m ms' where "Option.bind (unmarshal (TrimSpace x)) as_object = Some m" "parse_lines unmarshal (n + 1) xs = Inr ms'" "ms = m # ms'"
      using Cons.prems by (auto simp: map_sum_Inr split: option.splits)
    then show ?thesis using False Cons.IH [of "n + 1" ms'] by (simp add: sum.map_comp comp_def)
  qed
next
  case Nil
  then show ?case by (cases "parse_lines unmarshal n ys") simp_all
qed

section \<open>A small instance\<close>

definition demo_unmarshal :: "bytes \<Rightarrow> json option" where
  "demo_unmarshal d =
     (if d = ''{}'' then Some (JObj []) else if d = ''[{},{}]'' then Some (JArr [JObj [], JObj []]) else None)"

definition demo_ops :: "(doc Mem, FS, mini, bool \<times> bool, (string \<times> bytes) list) api_ops" where
  "demo_ops = \<lparr>ao_store = Mem_Store, ao_blobs = Some FS_Store, ao_bolt = mini_bolt, ao_js = mini_js, ao_unmarshal = demo_unmarshal,
     ao_marshal = (\<lambda>_. Some ''{}''), ao_compact = Some, ao_encode = (\<lambda>m. Some (m_Index m)), ao_decode = (\<lambda>_. None),
     ao_to = (\<lambda>_. None), ao_sha = id, ao_msg = (\<lambda>_. ''failed''), ao_verifier = True\<rparr>"

definition demo_api_env :: "(bool \<times> bool) api_env" where
  "demo_api_env = \<lparr>av_pub = (\<lambda>_. \<lparr>en_ok = True, en_connected = True, en_outcome = (True, True), en_now = 1,
       en_io = \<lparr>io_begin = True, io_commit = True\<rparr>\<rparr>),
     av_limit = 0, av_ok = True, av_connected = True, av_backup = demo_backup_env, av_verify = demo_verify_env, av_now0 = 1, av_now1 = 2\<rparr>"

definition demo_api :: "bool \<Rightarrow> (doc Mem, FS, mini, (string \<times> bytes) list) api_state" where
  "demo_api leader = \<lparr>as_co = demo_co\<lparr>co_leader := leader\<rparr>, as_st = demo_backups, as_bl = demo_objects,
     as_pub = Some mini_publisher, as_locked = False\<rparr>"

definition demo_api_cfg :: APIConfig where
  "demo_api_cfg = \<lparr>ac_Token = ''secret'', ac_MaxBody = 0, ac_MaxDocsPerMessage = 0, ac_MaxMessageBytes = 0\<rparr>"

definition demo_request :: "string \<Rightarrow> bytes \<Rightarrow> request" where
  "demo_request ct d = \<lparr>rq_Authorization = ''Bearer wrong'', rq_ContentType = ct, rq_IdempotencyKey = ''k'',
     rq_Body = \<lparr>bd_bytes = d, bd_fails = False\<rparr>\<rparr>"

lemma demo_parse:
  "parseDocs demo_unmarshal (\<lambda>_. Some ''{}'') (MaxBytesReader 33554432 (rq_Body (demo_request [] ''[{},{}]''))) [] ''k'' =
   Inr [\<lparr>dl_doc = \<lparr>d_ID = ''k-0'', d_Doc = Some []\<rparr>, dl_size = 37\<rparr>, \<lparr>dl_doc = \<lparr>d_ID = ''k-1'', d_Doc = Some []\<rparr>, dl_size = 37\<rparr>]"
  by code_simp

section \<open>Properties of the interface\<close>

text \<open>
  C19. What an ingest request does to the stream: either it is refused with 400 or 413 and nothing
  is published, or its documents, in their order, are divided into messages that keep both limits,
  and the response tells exactly how many messages, and documents in them, were accepted: all of
  them with 202, otherwise those before the first message that failed.
\<close>
theorem ingest_accounts:
  assumes "as_pub a = Some p" and "ingest ops (api_defaults cfg) en index rq a = (rs, a')"
  shows "(a' = a \<and> rs_code rs \<in> {400, 413}) \<or>
    (\<exists>docs groups k e p'.
       parseDocs (ao_unmarshal ops) (ao_marshal ops) (MaxBytesReader (ac_MaxBody (api_defaults cfg)) (rq_Body rq))
         (rq_ContentType rq) (rq_IdempotencyKey rq) = Inr docs \<and>
       concat groups = docs \<and> (\<forall>g \<in> set groups. fits (api_defaults cfg) g) \<and>
       published ops en index 0 (map (map dl_doc) groups) p e k p' \<and> a' = a\<lparr>as_pub := Some p'\<rparr> \<and>
       (case e of
          None \<Rightarrow> rs = reply 202 (Ingested (length docs) (length groups))
        | Some err \<Rightarrow> rs_body rs = IngestFailed err (length (concat (take k groups))) k))"
proof -
  let ?cfg = "api_defaults cfg"
  let ?parse = "parseDocs (ao_unmarshal ops) (ao_marshal ops) (MaxBytesReader (ac_MaxBody ?cfg) (rq_Body rq))
         (rq_ContentType rq) (rq_IdempotencyKey rq)"
  show ?thesis
  proof (cases "a' = a \<and> rs_code rs \<in> {400, 413}")
    case False
    then obtain docs batches r p' where d: "?parse = Inr docs" "split_docs ?cfg docs [] [] 0 = Some batches"
      "publish_batches ops en index 0 0 batches p = (r, p')" "rs = ingest_response r" "a' = a\<lparr>as_pub := Some p'\<rparr>"
      using assms by (auto simp: ingest_def fail_def reply_def split: if_splits sum.splits option.splits prod.splits)
    from d(2) obtain groups where g: "batches = map (map dl_doc) groups" "concat groups = docs" "\<forall>g \<in> set groups. fits ?cfg g"
      using split_docs_fits [OF api_defaults_pos(2), of "[]" cfg docs "[]" batches] parseDocs_Inr(2) [OF d(1)]
      by (auto simp: doc_sizes_def)
    obtain e n j where r: "r = (e, n, j)" by (cases r) auto
    from publish_batches_published [OF d(3) [unfolded r]]
    obtain k where k: "j = k" "n = length (concat (take k batches))" "published ops en index 0 batches p e k p'" by auto
    have len: "length (concat (take k batches)) = length (concat (take k groups))" "e = None \<longrightarrow> k = length groups"
      using k(3) by (auto simp: g(1) take_map published_def comp_def length_concat)
    have "case e of None \<Rightarrow> rs = reply 202 (Ingested (length docs) (length groups))
        | Some err \<Rightarrow> rs_body rs = IngestFailed err (length (concat (take k groups))) k"
      using k len g(2) by (auto simp: d(4) r ingest_response_def Let_def split: option.splits)
    with d g k show ?thesis by blast
  qed blast
qed

theorem ingest_accounts_witness:
  "\<exists>rs a' groups. ingest demo_ops (api_defaults demo_api_cfg) demo_api_env ''logs'' (demo_request [] ''[{},{}]'') (demo_api True) = (rs, a') \<and>
     rs = reply 202 (Ingested 2 (length groups)) \<and> list_all (fits (api_defaults demo_api_cfg)) groups \<and> length (concat groups) = 2"
proof -
  let ?rq = "demo_request [] ''[{},{}]''"
  let ?cfg = "api_defaults demo_api_cfg"
  obtain rs a' where i: "ingest demo_ops ?cfg demo_api_env ''logs'' ?rq (demo_api True) = (rs, a')" by fastforce
  have p: "as_pub (demo_api True) = Some mini_publisher" by (simp add: demo_api_def)
  have c: "ac_MaxBody ?cfg = 33554432" "ac_MaxDocsPerMessage ?cfg = 500" "ac_MaxMessageBytes ?cfg = 524288"
    by (simp_all add: api_defaults_def demo_api_cfg_def push_bit_eq_mult)
  note parse = demo_parse
  have ops: "ao_unmarshal demo_ops = demo_unmarshal" "ao_marshal demo_ops = (\<lambda>_. Some ''{}'')"
    "rq_ContentType ?rq = []" "rq_IdempotencyKey ?rq = ''k''"
    by (simp_all add: demo_ops_def demo_request_def)
  have e: "fst (PublishDocs (ao_bolt demo_ops) (ao_js demo_ops) (ao_encode demo_ops) (av_limit demo_api_env) (av_pub demo_api_env 0) ''logs'' ds mini_publisher) = None" for ds
    using mini_empty
    by (auto simp: PublishDocs_def nextID_def demo_ops_def demo_api_env_def checkSize_def publish_def publish_direct_def send_def mini_js_def mini_publisher_def split: prod.splits)
  have ok: "\<not> bad_index ''logs''" "ValidKey ''k''" by code_simp+
  obtain q where q: "PublishDocs (ao_bolt demo_ops) (ao_js demo_ops) (ao_encode demo_ops) (av_limit demo_api_env) (av_pub demo_api_env 0)
      ''logs'' [\<lparr>d_ID = ''k-0'', d_Doc = Some []\<rparr>, \<lparr>d_ID = ''k-1'', d_Doc = Some []\<rparr>] mini_publisher = (None, q)"
    using e by (metis prod.collapse)
  have "fst (ingest demo_ops ?cfg demo_api_env ''logs'' ?rq (demo_api True)) = reply 202 (Ingested 2 1)"
    by (simp add: ingest_def p ops c parse ok q ingest_response_def numeral_2_eq_2)
  then have rs: "rs = reply 202 (Ingested 2 1)" by (simp add: i)
  from ingest_accounts [OF p i] obtain groups where "concat groups = [\<lparr>dl_doc = \<lparr>d_ID = ''k-0'', d_Doc = Some []\<rparr>, dl_size = 37\<rparr>,
      \<lparr>dl_doc = \<lparr>d_ID = ''k-1'', d_Doc = Some []\<rparr>, dl_size = 37\<rparr>]" "\<forall>g \<in> set groups. fits ?cfg g" "rs = reply 202 (Ingested 2 (length groups))"
    unfolding ops c parse by (auto simp: rs reply_def split: option.splits)
  with i show ?thesis by (auto simp: list_all_iff)
qed

text \<open>
  With an idempotency key every document of a request has an ID that depends on the request
  alone, its own one or one made from the key and its position, no two documents share a made one,
  so a repeated request replaces what the first one wrote.
\<close>
theorem parseDocs_idempotent:
  assumes "parseDocs unmarshal marshal r ct key = Inr docs" and "key \<noteq> []"
  shows "\<exists>objs. read_objects unmarshal r ct = Inr (map Some objs) \<and> length docs = length objs \<and>
    (\<forall>i < length docs. d_ID (dl_doc (docs ! i)) \<noteq> [] \<and>
       (own_id (objs ! i) \<noteq> [] \<longrightarrow> d_ID (dl_doc (docs ! i)) = own_id (objs ! i)) \<and>
       (\<forall>j < length docs. own_id (objs ! i) = [] \<and> own_id (objs ! j) = [] \<and> i \<noteq> j \<longrightarrow>
          d_ID (dl_doc (docs ! i)) \<noteq> d_ID (dl_doc (docs ! j))))"
proof -
  obtain objs where o: "read_objects unmarshal r ct = Inr objs" "doc_lines marshal key 0 objs = Inr docs"
    using parseDocs_Inr(1) [OF assms(1)] by blast
  note ids = doc_lines_ids [OF o(2)]
  have "objs = map Some (map the objs)" using ids by (auto intro!: nth_equalityI)
  moreover have "d_ID (dl_doc (docs ! i)) =
      (if own_id (map the objs ! i) = [] then key @ ''-'' @ FormatUint i else own_id (map the objs ! i))" if i: "i < length docs" for i
  proof -
    from ids i obtain m where "objs ! i = Some m" "d_ID (dl_doc (docs ! i)) = id_at key i m" by auto
    then show ?thesis using ids i assms(2) by (simp add: id_at_def)
  qed
  ultimately show ?thesis
    using o(1) ids assms(2) by (intro exI [of _ "map the objs"]) (auto simp: FormatUint_inj simp del: nth_map)
qed

theorem parseDocs_idempotent_witness:
  "\<exists>docs. parseDocs demo_unmarshal (\<lambda>_. Some ''{}'') (MaxBytesReader 33554432 (rq_Body (demo_request [] ''[{},{}]''))) [] ''k'' = Inr docs \<and>
     d_ID (dl_doc (docs ! 0)) \<noteq> []"
  using parseDocs_idempotent [OF demo_parse] demo_parse by auto

text \<open>
  C22. Every endpoint but \<open>/healthz\<close> refuses a request without the token and does nothing, and
  an instance that is not the leader changes neither the shared state, nor the stored backups, nor
  its view of the cluster, whatever it is asked.
\<close>
theorem Handler_protected:
  assumes "Handler ops cfg en rt rq a = Some (rs, a')"
  shows "(ac_Token cfg \<noteq> [] \<and> TrimPrefix (rq_Authorization rq) ''Bearer '' \<noteq> ac_Token cfg \<and> rt \<noteq> Get_healthz \<longrightarrow>
      rs = fail 401 WrongToken \<and> a' = a) \<and>
    (\<not> IsLeader (as_co a) \<longrightarrow> as_st a' = as_st a \<and> as_bl a' = as_bl a \<and> as_co a' = as_co a)"
proof -
  have tok: "ac_Token (api_defaults cfg) = ac_Token cfg" by (simp add: api_defaults_def Let_def)
  have ing: "as_st b' = as_st a \<and> as_bl b' = as_bl a \<and> as_co b' = as_co a" if "ingest ops c en i rq a = (r, b')" for c i r b'
    using that by (auto simp: ingest_def split: option.splits if_splits sum.splits prod.splits)
  have adm: "as_st b' = as_st a \<and> as_bl b' = as_bl a \<and> as_co b' = as_co a" if "admin ops c en i op rq a = (r, b')" for c i op r b'
    using that by (auto simp: admin_def split: option.splits if_splits sum.splits prod.splits)
  show ?thesis
    using assms ing adm
    by (cases rt) (auto simp: Handler_def Let_def auth_def leaderOnly_def tok split: if_splits)
qed

theorem Handler_protected_witness:
  "\<exists>rs a'. Handler demo_ops demo_api_cfg demo_api_env Post_verify (demo_request [] []) (demo_api False) = Some (rs, a') \<and>
     rs = fail 401 WrongToken \<and> as_st a' = demo_backups"
proof -
  have t: "ac_Token demo_api_cfg \<noteq> []" "TrimPrefix (rq_Authorization (demo_request [] [])) ''Bearer '' \<noteq> ac_Token demo_api_cfg"
    by code_simp+
  obtain rs a' where h: "Handler demo_ops demo_api_cfg demo_api_env Post_verify (demo_request [] []) (demo_api False) = Some (rs, a')"
    using t by (simp add: Handler_def Let_def auth_def demo_api_cfg_def api_defaults_def)
  from Handler_protected [OF h] t h show ?thesis by (auto simp: demo_api_def)
qed

text \<open>
  An NDJSON body that is longer than \<open>MaxBody\<close> and is cut inside a line is answered with 400
  about that line, not with 413: the scanner hands out what it has of the line before the error of
  the limited reader is looked at.
\<close>
theorem ingest_cut_line:
  assumes "as_pub a = Some p" and "\<not> bad_index index" and "rq_IdempotencyKey rq = []" and "Contains (rq_ContentType rq) ''ndjson''"
    and "ac_MaxBody cfg < int (length (bd_bytes (rq_Body rq)))"
    and "scan_lines (take (nat (ac_MaxBody cfg)) (bd_bytes (rq_Body rq))) = (ls @ [l], False)"
    and "parse_lines (ao_unmarshal ops) 1 ls = Inr objs" and "TrimSpace l \<noteq> []"
    and "Option.bind (ao_unmarshal ops (TrimSpace l)) as_object = None"
  shows "ingest ops cfg en index rq a = (fail 400 (BadDocs (LineNotObject (length ls + 1))), a)"
  using assms parse_lines_append [OF assms(7), of "[l]"]
  by (simp add: ingest_def MaxBytesReader_def parseDocs_def read_objects_def)

theorem ingest_cut_line_witness:
  "ingest demo_ops (demo_api_cfg\<lparr>ac_MaxBody := 4\<rparr>) demo_api_env ''logs''
     (demo_request ''application/x-ndjson'' (''{}'' @ [newline] @ ''{}'' @ [newline])\<lparr>rq_IdempotencyKey := []\<rparr>) (demo_api True) =
   (fail 400 (BadDocs (LineNotObject 2)), demo_api True)"
proof -
  let ?rq = "demo_request ''application/x-ndjson'' (''{}'' @ [newline] @ ''{}'' @ [newline])\<lparr>rq_IdempotencyKey := []\<rparr>"
  have s: "scan_lines (take (nat (ac_MaxBody (demo_api_cfg\<lparr>ac_MaxBody := 4\<rparr>))) (bd_bytes (rq_Body ?rq))) = ([''{}''] @ [''{''], False)"
    by code_simp
  have p: "as_pub (demo_api True) = Some mini_publisher" by (simp add: demo_api_def)
  have b: "\<not> bad_index ''logs''" by code_simp
  have k: "rq_IdempotencyKey ?rq = []" by simp
  have c: "Contains (rq_ContentType ?rq) ''ndjson''" by code_simp
  have m: "ac_MaxBody (demo_api_cfg\<lparr>ac_MaxBody := 4\<rparr>) < int (length (bd_bytes (rq_Body ?rq)))" by code_simp
  have l: "parse_lines (ao_unmarshal demo_ops) 1 [''{}''] = Inr [Some []]" by code_simp
  have t: "TrimSpace ''{'' \<noteq> []" by code_simp
  have u: "Option.bind (ao_unmarshal demo_ops (TrimSpace ''{'')) as_object = None" by code_simp
  from ingest_cut_line [OF p b k c m s l t u, of demo_api_env] show ?thesis by (simp add: numeral_2_eq_2)
qed

end
