(* ===== verification/Redo_Log.thy ===== *)
theory Redo_Log
  imports Disk_Buffer
begin

text \<open>
  The redo log of a shard (package \<open>pkg/wal/redo\<close>): a small file of fixed-size records, key,
  length and a cell of 64 bytes, that is kept in memory and written back as a whole. A slice
  expression beyond the data is the result \<open>None\<close>: what Go does then depends on the capacity.
\<close>

section \<open>The log\<close>

datatype redo_error = RedoNotFound | RedoTooLarge | RedoIO

definition ValueFixedLength :: nat where "ValueFixedLength = 64"

definition LE_Put :: "u64 \<Rightarrow> bytes" where
  "LE_Put n = rev (PutUint64 n)"

definition LE_Uint64 :: "bytes \<Rightarrow> u64" where
  "LE_Uint64 v = Uint64 (rev (take 8 v))"

record Log =
  rl_index :: "u64 \<Rightarrow> nat option"
  rl_data :: bytes
  rl_file :: bytes
  rl_NoSync :: bool

text \<open>The loop of \<open>Open\<close> from position \<open>n\<close> on.\<close>

function scan_index :: "bytes \<Rightarrow> nat \<Rightarrow> (u64 \<Rightarrow> nat option) \<Rightarrow> (u64 \<Rightarrow> nat option) option" where
  "scan_index d n index =
     (if length d \<le> n then Some index
      else if length d < n + 8 then None
      else scan_index d (n + 8 + 8 + ValueFixedLength) (index(LE_Uint64 (drop n d) \<mapsto> n + 8)))"
  by auto
termination
  by (relation "measure (\<lambda>(d, n, _). length d - n)") (auto simp: ValueFixedLength_def)

declare scan_index.simps [simp del]

definition redo_Open :: "bytes \<Rightarrow> bool \<Rightarrow> Log option" where
  "redo_Open file noSync =
     (case scan_index file 0 Map.empty of
        None \<Rightarrow> None
      | Some index \<Rightarrow> Some \<lparr>rl_index = index, rl_data = file, rl_file = file, rl_NoSync = noSync\<rparr>)"

text \<open>Putting bytes over a slice, within its bounds.\<close>

definition overwrite :: "bytes \<Rightarrow> nat \<Rightarrow> bytes \<Rightarrow> bytes" where
  "overwrite d off v = take off d @ v @ drop (off + length v) d"

text \<open>How writing the file goes: \<open>Some n\<close> for an error after \<open>n\<close> bytes, and whether \<open>Sync\<close> succeeds.\<close>

record redo_io =
  ri_short :: "nat option"
  ri_sync :: bool

definition put_value :: "Log \<Rightarrow> u64 \<Rightarrow> bytes \<Rightarrow> Log option" where
  "put_value l key v =
     (case rl_index l key of
        Some off \<Rightarrow>
          if length (rl_data l) < off + 8 + ValueFixedLength then None
          else Some (l\<lparr>rl_data := overwrite (overwrite (rl_data l) off (LE_Put (of_nat (length v)))) (off + 8) v\<rparr>)
      | None \<Rightarrow>
          (let off = length (rl_data l);
               d = rl_data l @ replicate (8 + 8 + ValueFixedLength) (CHR 0x00)
           in Some (l\<lparr>rl_data := overwrite (overwrite (overwrite d off (LE_Put key)) (off + 8) (LE_Put (of_nat (length v)))) (off + 16) v,
                      rl_index := (rl_index l)(key \<mapsto> off + 8)\<rparr>)))"

definition redo_Write :: "redo_io \<Rightarrow> Log \<Rightarrow> u64 \<Rightarrow> bytes \<Rightarrow> (redo_error option \<times> Log) option" where
  "redo_Write io l key v =
     (if ValueFixedLength < length v then Some (Some RedoTooLarge, l)
      else case put_value l key v of
        None \<Rightarrow> None
      | Some l1 \<Rightarrow>
          (case ri_short io of
             Some n \<Rightarrow> Some (Some RedoIO, l1\<lparr>rl_file := overwrite (rl_file l1) 0 (take n (rl_data l1))\<rparr>)
           | None \<Rightarrow>
               (let l2 = l1\<lparr>rl_file := overwrite (rl_file l1) 0 (rl_data l1)\<rparr>
                in Some (if rl_NoSync l2 \<or> ri_sync io then None else Some RedoIO, l2))))"

text \<open>\<open>Read\<close> and \<open>ReadCopy\<close> return the same bytes.\<close>

definition redo_Read :: "Log \<Rightarrow> u64 \<Rightarrow> (redo_error + bytes) option" where
  "redo_Read l key =
     (case rl_index l key of
        None \<Rightarrow> Some (Inl RedoNotFound)
      | Some off \<Rightarrow>
          if length (rl_data l) < off + 8 then None
          else let n = unat (LE_Uint64 (drop off (rl_data l))) in
               if length (rl_data l) < off + 8 + n then None
               else Some (Inr (take n (drop (off + 8) (rl_data l)))))"

section \<open>Records\<close>

lemma length_LE_Put [simp]: "length (LE_Put n) = 8"
  by (simp add: LE_Put_def)

lemma LE_Uint64_Put [simp]: "LE_Uint64 (LE_Put n @ xs) = n"
  by (simp add: LE_Uint64_def LE_Put_def)

type_synonym rec = "u64 \<times> nat \<times> bytes"

text \<open>A record: its key, the length of the value, and the cell that holds it.\<close>

fun enc :: "rec \<Rightarrow> bytes" where
  "enc (key, n, cell) = LE_Put key @ LE_Put (of_nat n) @ cell"

abbreviation encs :: "rec list \<Rightarrow> bytes" where
  "encs rs \<equiv> concat (map enc rs)"

fun rec_ok :: "rec \<Rightarrow> bool" where
  "rec_ok (key, n, cell) \<longleftrightarrow> n \<le> 64 \<and> length cell = 64"

lemma length_enc: "rec_ok r \<Longrightarrow> length (enc r) = 80"
  by (cases r) simp

lemma length_encs: "list_all rec_ok rs \<Longrightarrow> length (encs rs) = 80 * length rs"
  by (induction rs) (auto simp: length_enc)

fun index_from :: "nat \<Rightarrow> rec list \<Rightarrow> (u64 \<Rightarrow> nat option) \<Rightarrow> (u64 \<Rightarrow> nat option)" where
  "index_from off [] m = m"
| "index_from off (r # rs) m = index_from (off + 80) rs (m(fst r \<mapsto> off + 8))"

lemma index_from_append: "index_from off (xs @ ys) m = index_from (off + 80 * length xs) ys (index_from off xs m)"
  by (induction xs arbitrary: off m) (auto simp: algebra_simps)

lemma index_from_other: "key \<notin> fst ` set rs \<Longrightarrow> index_from off rs m key = m key"
  by (induction rs arbitrary: off m) auto

definition repr :: "rec list \<Rightarrow> Log \<Rightarrow> bool" where
  "repr rs l \<longleftrightarrow> list_all rec_ok rs \<and> distinct (map fst rs) \<and> rl_data l = encs rs \<and> rl_index l = index_from 0 rs Map.empty"

definition redo_wf :: "Log \<Rightarrow> bool" where
  "redo_wf l \<longleftrightarrow> (\<exists>rs. repr rs l) \<and> length (rl_file l) \<le> length (rl_data l)"

lemma repr_index_None: "repr rs l \<Longrightarrow> rl_index l key = None \<longleftrightarrow> key \<notin> fst ` set rs"
proof -
  assume r: "repr rs l"
  show ?thesis
  proof
    assume "rl_index l key = None"
    then have "index_from 0 rs Map.empty key = None" using r by (simp add: repr_def)
    moreover have "index_from off rs m key = None \<Longrightarrow> key \<notin> fst ` set rs" for off m
      by (induction rs arbitrary: off m) (auto, metis fun_upd_same index_from_other option.distinct(1) option.discI)
    ultimately show "key \<notin> fst ` set rs" by blast
  qed (use r in \<open>simp add: repr_def index_from_other\<close>)
qed

lemma repr_index_Some:
  assumes "repr (xs @ (key, n, cell) # ys) l"
  shows "rl_index l key = Some (80 * length xs + 8)"
  using assms by (auto simp: repr_def index_from_append index_from_other)

lemma repr_Read:
  assumes "repr rs l"
  shows "redo_Read l key = Some (case map_of rs key of None \<Rightarrow> Inl RedoNotFound | Some (n, cell) \<Rightarrow> Inr (take n cell))"
proof (cases "key \<in> fst ` set rs")
  case False
  then show ?thesis using repr_index_None [OF assms, of key] by (auto simp: redo_Read_def map_of_eq_None_iff [symmetric] split: option.splits)
next
  case True
  then obtain xs n cell ys where rs: "rs = xs @ (key, n, cell) # ys" by (auto dest!: split_list)
  have ok: "list_all rec_ok xs" "n \<le> 64" "length cell = 64" "key \<notin> fst ` set xs"
    using assms rs by (auto simp: repr_def)
  have idx: "rl_index l key = Some (80 * length xs + 8)" using repr_index_Some assms rs by blast
  have data: "rl_data l = encs xs @ LE_Put key @ LE_Put (of_nat n) @ cell @ encs ys" using assms rs by (simp add: repr_def)
  have len: "length (encs xs) = 80 * length xs" by (rule length_encs [OF ok(1)])
  have "drop (80 * length xs + 8) (rl_data l) = LE_Put (of_nat n) @ cell @ encs ys" by (simp add: data len)
  moreover have "unat (of_nat n :: u64) = n" using ok(2) by (simp add: unsigned_of_nat take_bit_nat_eq_self)
  moreover have "map_of rs key = Some (n, cell)" using rs ok(4) by (simp add: map_add_def map_of_eq_None_iff [symmetric])
  ultimately show ?thesis using ok len by (simp add: redo_Read_def idx Let_def data)
qed

lemma scan_index_encs: "list_all rec_ok rs \<Longrightarrow> scan_index (pre @ encs rs) (length pre) m = Some (index_from (length pre) rs m)"
proof (induction rs arbitrary: pre m)
  case (Cons r rs)
  obtain key n cell where r: "r = (key, n, cell)" by (cases r)
  have len: "length (enc r) = 80" using Cons.prems by (intro length_enc) simp
  have "scan_index ((pre @ enc r) @ encs rs) (length (pre @ enc r)) (m(key \<mapsto> length pre + 8)) =
      Some (index_from (length (pre @ enc r)) rs (m(key \<mapsto> length pre + 8)))"
    using Cons by (intro Cons.IH) simp
  moreover have "LE_Uint64 (enc r @ encs rs) = key" by (simp add: r)
  ultimately show ?case using len by (subst scan_index.simps) (simp add: r ValueFixedLength_def add.commute)
qed (simp add: scan_index.simps)

lemma redo_Open_repr:
  assumes "repr rs l"
  shows "\<exists>l'. redo_Open (rl_data l) ns = Some l' \<and> repr rs l' \<and> rl_data l' = rl_data l \<and> rl_file l' = rl_data l"
  using assms scan_index_encs [of rs "[]" Map.empty] by (auto simp: redo_Open_def repr_def)

lemma overwrite_at: "length xs = off \<Longrightarrow> length v = length w \<Longrightarrow> overwrite (xs @ w @ ys) off v = xs @ v @ ys"
  by (simp add: overwrite_def)

lemma put_value_repr:
  assumes "repr rs l" and "length v \<le> 64"
  shows "\<exists>l' rs'. put_value l key v = Some l' \<and> repr rs' l' \<and> rl_file l' = rl_file l \<and> rl_NoSync l' = rl_NoSync l \<and>
    length (rl_data l) \<le> length (rl_data l') \<and>
    (\<forall>k. redo_Read l' k = (if k = key then Some (Inr v) else redo_Read l k))"
proof (cases "key \<in> fst ` set rs")
  case True
  then obtain xs n cell ys where rs: "rs = xs @ (key, n, cell) # ys" by (auto dest!: split_list)
  have ok: "list_all rec_ok xs" "list_all rec_ok ys" "n \<le> 64" "length cell = 64" "distinct (map fst rs)"
    using assms(1) rs by (auto simp: repr_def)
  let ?cell = "v @ drop (length v) cell"
  let ?rs = "xs @ (key, length v, ?cell) # ys"
  have idx: "rl_index l key = Some (80 * length xs + 8)" using repr_index_Some assms(1) rs by blast
  have data: "rl_data l = (encs xs @ LE_Put key) @ LE_Put (of_nat n) @ cell @ encs ys" using assms(1) rs by (simp add: repr_def)
  have len: "length (encs xs) = 80 * length xs" by (rule length_encs [OF ok(1)])
  have o1: "overwrite (rl_data l) (80 * length xs + 8) (LE_Put (of_nat (length v))) =
      (encs xs @ LE_Put key @ LE_Put (of_nat (length v))) @ take (length v) cell @ drop (length v) cell @ encs ys"
    unfolding data by (subst overwrite_at) (simp_all add: len)
  have o2: "overwrite (overwrite (rl_data l) (80 * length xs + 8) (LE_Put (of_nat (length v)))) (80 * length xs + 8 + 8) v = encs ?rs"
    unfolding o1 by (subst overwrite_at) (simp_all add: len ok assms(2))
  define l' where "l' = l\<lparr>rl_data := encs ?rs\<rparr>"
  have put: "put_value l key v = Some l'"
  proof -
    have "\<not> length (rl_data l) < 80 * length xs + 8 + 8 + ValueFixedLength" using ok by (simp add: data len ValueFixedLength_def)
    then show ?thesis unfolding put_value_def idx l'_def o2 [symmetric] by simp
  qed
  have ix: "index_from 0 ?rs Map.empty = index_from 0 rs Map.empty" by (simp add: rs index_from_append)
  have rp: "repr ?rs l'"
    using ok assms by (auto simp: repr_def l'_def rs) (simp add: ix [unfolded rs] index_from_append)
  have "redo_Read l' k = (if k = key then Some (Inr v) else redo_Read l k)" for k
    using ok(5) unfolding repr_Read [OF rp] repr_Read [OF assms(1)]
    by (auto simp: rs map_add_def split: option.splits dest!: map_of_SomeD) (force+)
  then show ?thesis using put rp by (intro exI [of _ l'] exI [of _ ?rs]) (simp add: l'_def data len ok)
next
  case False
  let ?cell = "v @ replicate (64 - length v) (CHR 0x00)"
  let ?rs = "rs @ [(key, length v, ?cell)]"
  have ok: "list_all rec_ok rs" "distinct (map fst rs)" "rl_data l = encs rs" using assms(1) by (auto simp: repr_def)
  have len: "length (encs rs) = 80 * length rs" by (rule length_encs [OF ok(1)])
  have idx: "rl_index l key = None" using repr_index_None [OF assms(1)] False by simp
  have z: "replicate (8 + 8 + ValueFixedLength) (CHR 0x00) =
      replicate 8 (CHR 0x00) @ replicate 8 (CHR 0x00) @ replicate (length v) (CHR 0x00) @ replicate (64 - length v) (CHR 0x00)"
    using assms(2) by (simp add: ValueFixedLength_def flip: replicate_add)
  define l' where "l' = l\<lparr>rl_data := encs ?rs, rl_index := (rl_index l)(key \<mapsto> length (rl_data l) + 8)\<rparr>"
  have "overwrite (rl_data l @ replicate (8 + 8 + ValueFixedLength) (CHR 0x00)) (length (rl_data l)) (LE_Put key) =
      (rl_data l @ LE_Put key) @ replicate 8 (CHR 0x00) @ replicate (length v) (CHR 0x00) @ replicate (64 - length v) (CHR 0x00)"
    unfolding z by (subst overwrite_at) simp_all
  moreover have "overwrite \<dots> (length (rl_data l) + 8) (LE_Put (of_nat (length v))) =
      (rl_data l @ LE_Put key @ LE_Put (of_nat (length v))) @ replicate (length v) (CHR 0x00) @ replicate (64 - length v) (CHR 0x00)"
    by (subst overwrite_at) simp_all
  moreover have "overwrite \<dots> (length (rl_data l) + 16) v = encs ?rs"
    by (subst overwrite_at) (simp_all add: ok(3))
  ultimately have put: "put_value l key v = Some l'" by (simp add: put_value_def idx Let_def l'_def)
  have rp: "repr ?rs l'"
    using ok assms False by (auto simp: repr_def l'_def index_from_append len)
  have "redo_Read l' k = (if k = key then Some (Inr v) else redo_Read l k)" for k
  proof -
    have "map_of rs key = None" using False by (simp add: map_of_eq_None_iff)
    then show ?thesis unfolding repr_Read [OF rp] repr_Read [OF assms(1)] by (auto simp: map_add_def split: option.splits)
  qed
  then show ?thesis using put rp by (intro exI [of _ l'] exI [of _ ?rs]) (simp add: l'_def ok(3))
qed

lemma redo_Write_spec:
  assumes "redo_wf l"
  shows "\<exists>e l'. redo_Write io l key v = Some (e, l') \<and> redo_wf l' \<and>
    (64 < length v \<longrightarrow> e = Some RedoTooLarge \<and> l' = l) \<and>
    (e = None \<longrightarrow>
       (\<forall>k. redo_Read l' k = (if k = key then Some (Inr v) else redo_Read l k)) \<and>
       (\<exists>l''. redo_Open (rl_file l') ns = Some l'' \<and> redo_wf l'' \<and> (\<forall>k. redo_Read l'' k = redo_Read l' k)))"
proof (cases "64 < length v")
  case True
  then show ?thesis using assms by (simp add: redo_Write_def ValueFixedLength_def)
next
  case False
  obtain rs where rs: "repr rs l" and flen: "length (rl_file l) \<le> length (rl_data l)" using assms by (auto simp: redo_wf_def)
  obtain l1 rs1 where l1: "put_value l key v = Some l1" "repr rs1 l1" "rl_file l1 = rl_file l" "length (rl_data l) \<le> length (rl_data l1)"
    "\<And>k. redo_Read l1 k = (if k = key then Some (Inr v) else redo_Read l k)"
    using put_value_repr [OF rs, of v key] False by auto
  have wf: "redo_wf (l1\<lparr>rl_file := f\<rparr>)" "redo_Read (l1\<lparr>rl_file := f\<rparr>) k = redo_Read l1 k" if "length f \<le> length (rl_data l1)" for f k
  proof -
    show "redo_wf (l1\<lparr>rl_file := f\<rparr>)" using l1(2) that by (auto simp: redo_wf_def repr_def)
    have "repr rs1 (l1\<lparr>rl_file := f\<rparr>)" using l1(2) by (simp add: repr_def)
    then show "redo_Read (l1\<lparr>rl_file := f\<rparr>) k = redo_Read l1 k" by (simp add: repr_Read repr_Read [OF l1(2)])
  qed
  show ?thesis
  proof (cases "ri_short io")
    case (Some n)
    have "length (overwrite (rl_file l1) 0 (take n (rl_data l1))) \<le> length (rl_data l1)"
      using flen l1(3,4) by (simp add: overwrite_def)
    then show ?thesis using wf(1) False Some l1(1) by (simp add: redo_Write_def ValueFixedLength_def)
  next
    case None
    have f: "overwrite (rl_file l1) 0 (rl_data l1) = rl_data l1" using flen l1(3,4) by (simp add: overwrite_def)
    define l' where "l' = l1\<lparr>rl_file := rl_data l1\<rparr>"
    have l': "redo_wf l'" "redo_Read l' k = redo_Read l1 k" for k using wf [of "rl_data l1"] by (simp_all add: l'_def)
    obtain l'' where l'': "redo_Open (rl_file l') ns = Some l''" "repr rs1 l''" "rl_file l'' = rl_data l''"
      using redo_Open_repr [OF l1(2), of ns] by (auto simp: l'_def)
    have "redo_Read l'' k = redo_Read l' k" for k by (simp add: l' repr_Read [OF l''(2)] repr_Read [OF l1(2)])
    moreover have "redo_wf l''" using l'' by (auto simp: redo_wf_def)
    moreover have "\<exists>e. redo_Write io l key v = Some (e, l')"
      using False None l1(1) f by (simp add: redo_Write_def ValueFixedLength_def Let_def l'_def)
    ultimately show ?thesis using l' l''(1) l1(5) False by auto
  qed
qed

section \<open>Properties\<close>

text \<open>
  C31. Writing to a well-formed redo log never runs out of the bounds of its data and leaves it well
  formed; a value of more than 64 bytes is refused. After a successful write, and also after the
  file that was written is opened again, the key holds exactly the value, and every other key what
  it held before.
\<close>
theorem redo_Write_reopen:
  assumes "redo_wf l"
  shows "\<exists>e l'. redo_Write io l key v = Some (e, l') \<and> redo_wf l' \<and>
    (64 < length v \<longrightarrow> e = Some RedoTooLarge \<and> l' = l) \<and>
    (e = None \<longrightarrow>
       (\<forall>k. redo_Read l' k = (if k = key then Some (Inr v) else redo_Read l k)) \<and>
       (\<exists>l''. redo_Open (rl_file l') ns = Some l'' \<and> redo_wf l'' \<and> (\<forall>k. redo_Read l'' k = redo_Read l' k)))"
  by (rule redo_Write_spec [OF assms])

definition empty_log :: Log where
  "empty_log = \<lparr>rl_index = Map.empty, rl_data = [], rl_file = [], rl_NoSync = False\<rparr>"

lemma empty_log_wf: "redo_wf empty_log"
  by (auto simp: redo_wf_def empty_log_def repr_def intro!: exI [of _ "[]"])

theorem redo_Write_reopen_witness:
  "\<exists>l' l''. redo_Write \<lparr>ri_short = None, ri_sync = True\<rparr> empty_log 1 ''3:7'' = Some (None, l') \<and>
     redo_Open (rl_file l') True = Some l'' \<and> redo_Read l'' 1 = Some (Inr ''3:7'')"
proof -
  let ?io = "\<lparr>ri_short = None, ri_sync = True\<rparr>"
  obtain e l' where w: "redo_Write ?io empty_log 1 ''3:7'' = Some (e, l')"
    and r: "e = None \<Longrightarrow> (\<forall>k. redo_Read l' k = (if k = 1 then Some (Inr ''3:7'') else redo_Read empty_log k)) \<and>
      (\<exists>l''. redo_Open (rl_file l') True = Some l'' \<and> redo_wf l'' \<and> (\<forall>k. redo_Read l'' k = redo_Read l' k))"
    using redo_Write_reopen [OF empty_log_wf, of ?io 1 "''3:7''" True] by blast
  have "e = None"
    using w by (auto simp: redo_Write_def put_value_def ValueFixedLength_def empty_log_def Let_def)
  with w r show ?thesis by auto
qed

end
