(* ===== verification/Shard_Wal.thy ===== *)
theory Shard_Wal
  imports Redo_Log Json "HOL-Library.Multiset"
begin

text \<open>
  How a shard turns its write-ahead log into index segments (\<open>pkg/core/index_shards_wal.go\<close> and
  the accessors it uses from \<open>index_shards.go\<close>): merging the entries of a batch per shard and
  document, writing them, the redo log around it, and the rollback after a crash. The index library
  and the log library are not part of the repository: their operations are the arguments collected
  in \<open>shard_ops\<close>, the locale \<open>shard_store\<close> says what is documented of them. Where Go iterates
  over a map, the order is an argument.
\<close>

section \<open>Batches of the index library\<close>

text \<open>The documents a batch adds and the IDs whose earlier documents it removes.\<close>

record 'v Batch =
  ba_docs :: "(string \<times> 'v) list"
  ba_ids :: "string list"

definition NewBatch :: "'v Batch" where
  "NewBatch = \<lparr>ba_docs = [], ba_ids = []\<rparr>"

definition batch_Insert :: "string \<Rightarrow> 'v \<Rightarrow> 'v Batch \<Rightarrow> 'v Batch" where
  "batch_Insert i v b = b\<lparr>ba_docs := ba_docs b @ [(i, v)]\<rparr>"

definition batch_Update :: "string \<Rightarrow> 'v \<Rightarrow> 'v Batch \<Rightarrow> 'v Batch" where
  "batch_Update i v b = b\<lparr>ba_docs := ba_docs b @ [(i, v)], ba_ids := ba_ids b @ [i]\<rparr>"

definition batch_Delete :: "string \<Rightarrow> 'v Batch \<Rightarrow> 'v Batch" where
  "batch_Delete i b = b\<lparr>ba_ids := ba_ids b @ [i]\<rparr>"

lemmas batch_defs = NewBatch_def batch_Insert_def batch_Update_def batch_Delete_def

section \<open>The shard\<close>

record ('w, 'l, 'v) shard_ops =
  so_Batch :: "'w \<Rightarrow> 'v Batch \<Rightarrow> bool \<times> 'w"
  so_Sync :: "'l \<Rightarrow> 'l"
  so_LastIndex :: "'l \<Rightarrow> u64 option"
  so_Read :: "'l \<Rightarrow> u64 \<Rightarrow> bytes option"
  so_TruncateFront :: "'l \<Rightarrow> u64 \<Rightarrow> bool \<times> 'l"
  so_unmarshal :: "bytes \<Rightarrow> object option"
  so_build :: "string \<Rightarrow> object \<Rightarrow> 'v option"
  so_size :: "'w \<Rightarrow> nat"
  so_openWriter :: "int \<Rightarrow> 'w option"

record ('w, 'l) IndexShard =
  sd_writers :: "'w list"
  sd_wal :: 'l
  sd_redo :: Log
  sd_open :: bool
  sd_listed :: bool

definition ShardIDNeedLatest :: int where "ShardIDNeedLatest = -1"
definition ShardIDNeedUpdate :: int where "ShardIDNeedUpdate = -2"

definition GetShardNum :: "('w, 'l) IndexShard \<Rightarrow> int" where
  "GetShardNum s = int (length (sd_writers s))"

definition GetLatestShardID :: "('w, 'l) IndexShard \<Rightarrow> int" where
  "GetLatestShardID s = GetShardNum s - 1"

text \<open>The position of the writer; opening it is not modelled.\<close>

definition GetWriter :: "('w, 'l) IndexShard \<Rightarrow> int \<Rightarrow> nat option" where
  "GetWriter s shardID = (if GetShardNum s \<le> shardID \<or> shardID < 0 then None else Some (nat shardID))"

section \<open>Merging entries\<close>

definition ActionTypeInsert :: string where "ActionTypeInsert = ''insert''"
definition ActionTypeUpdate :: string where "ActionTypeUpdate = ''update''"
definition ActionTypeDelete :: string where "ActionTypeDelete = ''delete''"

lemmas action_defs = ActionTypeInsert_def ActionTypeUpdate_def ActionTypeDelete_def

record walDocument =
  wd_docID :: string
  wd_actions :: "string list"
  wd_data :: object

type_synonym walMergeDocs = "(int \<times> (string \<times> walDocument) list) list"

definition MaxShardLen :: "walMergeDocs \<Rightarrow> nat" where
  "MaxShardLen w = fold (\<lambda>(_, v) n. max n (length v)) w 0"

definition walReset :: "walMergeDocs \<Rightarrow> walMergeDocs" where
  "walReset w = map (\<lambda>(k, _). (k, [])) w"

fun as_string :: "json option \<Rightarrow> string option" where
  "as_string (Some (JStr s)) = Some s"
| "as_string _ = None"

text \<open>A number as the log writes it: an optional minus sign and digits.\<close>

definition parse_int :: "string \<Rightarrow> int option" where
  "parse_int s = (case s of
     CHR ''-'' # ds \<Rightarrow> map_option (\<lambda>n. - int n) (ParseUint ds)
   | _ \<Rightarrow> map_option int (ParseUint s))"

fun as_int :: "json option \<Rightarrow> int option" where
  "as_int (Some (JNum s)) = parse_int s"
| "as_int _ = None"

definition add_to_group :: "string \<Rightarrow> string \<Rightarrow> object \<Rightarrow> (string \<times> walDocument) list \<Rightarrow> (string \<times> walDocument) list" where
  "add_to_group docID action data g =
     (let doc = (case map_of g docID of None \<Rightarrow> \<lparr>wd_docID = docID, wd_actions = [], wd_data = []\<rparr> | Some d \<Rightarrow> d)
      in AList.update docID (doc\<lparr>wd_actions := wd_actions doc @ [action], wd_data := data\<rparr>) g)"

text \<open>\<open>None\<close> is a type assertion that fails.\<close>

definition AddDocument :: "object \<Rightarrow> walMergeDocs \<Rightarrow> walMergeDocs option" where
  "AddDocument data w =
     (case (as_string (map_of data ''@_action''), as_string (map_of data ''@_id''), as_int (map_of data ''@_shard'')) of
        (Some action, Some docID, Some shardID) \<Rightarrow>
          Some (AList.update shardID
                  (add_to_group docID action data (case map_of w shardID of None \<Rightarrow> [] | Some g \<Rightarrow> g)) w)
      | _ \<Rightarrow> None)"

section \<open>Writing a group\<close>

datatype merged = MInsert | MUpdate | MDelete | MNothing

text \<open>What the actions on one document come to; \<open>None\<close>: invalid action type.\<close>

definition merge_actions :: "string list \<Rightarrow> merged option" where
  "merge_actions actions =
     (let firstAction = hd actions; lastAction = last actions in
      if firstAction = ActionTypeInsert then
        if length actions = 1 then Some MInsert
        else if lastAction = ActionTypeInsert \<or> lastAction = ActionTypeUpdate then Some MInsert
        else Some MNothing
      else if firstAction = ActionTypeUpdate then
        if length actions = 1 then Some MUpdate
        else if lastAction = ActionTypeInsert \<or> lastAction = ActionTypeUpdate then Some MUpdate
        else if lastAction = ActionTypeDelete then Some MDelete
        else Some MNothing
      else if firstAction = ActionTypeDelete then
        if length actions = 1 then Some MDelete
        else if lastAction = ActionTypeInsert \<or> lastAction = ActionTypeUpdate then Some MUpdate
        else if lastAction = ActionTypeDelete then Some MDelete
        else Some MNothing
      else None)"

definition add_merged :: "merged \<Rightarrow> string \<Rightarrow> 'v \<Rightarrow> 'v Batch \<times> 'v Batch \<Rightarrow> 'v Batch \<times> 'v Batch" where
  "add_merged m i v bs =
     (case m of
        MInsert \<Rightarrow> (batch_Insert i v (fst bs), snd bs)
      | MUpdate \<Rightarrow> (batch_Update i v (fst bs), batch_Delete i (snd bs))
      | MDelete \<Rightarrow> (batch_Delete i (fst bs), batch_Delete i (snd bs))
      | MNothing \<Rightarrow> bs)"

text \<open>The loop over the documents of a group, which fills \<open>batch\<close> and \<open>otherBatch\<close>.\<close>

fun fill_batches ::
  "(string \<Rightarrow> object \<Rightarrow> 'v option) \<Rightarrow> (string \<times> walDocument) list \<Rightarrow> 'v Batch \<times> 'v Batch \<Rightarrow> ('v Batch \<times> 'v Batch) option" where
  "fill_batches build [] bs = Some bs"
| "fill_batches build ((_, d) # ds) bs =
     (case build (wd_docID d) (wd_data d) of
        None \<Rightarrow> None
      | Some v \<Rightarrow>
          (case merge_actions (wd_actions d) of
             None \<Rightarrow> None
           | Some m \<Rightarrow> fill_batches build ds (add_merged m (wd_docID d) v bs)))"

fun write_others :: "('w, 'l, 'v) shard_ops \<Rightarrow> 'v Batch \<Rightarrow> 'w list \<Rightarrow> bool \<times> 'w list" where
  "write_others ops b [] = (True, [])"
| "write_others ops b (w # ws) =
     (case so_Batch ops w b of
        (False, w') \<Rightarrow> (False, w' # ws)
      | (True, w') \<Rightarrow> (case write_others ops b ws of (ok, ws') \<Rightarrow> (ok, w' # ws')))"

definition WriteToShard ::
  "('w, 'l, 'v) shard_ops \<Rightarrow> int \<Rightarrow> (string \<times> walDocument) list \<Rightarrow> ('w, 'l) IndexShard \<Rightarrow> bool \<times> ('w, 'l) IndexShard" where
  "WriteToShard ops shardID docs s =
     (let shardID' = (if shardID = ShardIDNeedLatest then GetLatestShardID s else shardID);
          target = (if 0 \<le> shardID' then GetWriter s shardID'
                    else if sd_writers s = [] then None else Some (length (sd_writers s) - 1));
          others = \<not> 0 \<le> shardID'
      in case target of
           None \<Rightarrow> (False, s)
         | Some i \<Rightarrow>
             (case fill_batches (so_build ops) docs (NewBatch, NewBatch) of
                None \<Rightarrow> (False, s)
              | Some (batch, otherBatch) \<Rightarrow>
                  (case so_Batch ops (sd_writers s ! i) batch of
                     (False, w') \<Rightarrow> (False, s\<lparr>sd_writers := (sd_writers s)[i := w']\<rparr>)
                   | (True, w') \<Rightarrow>
                       if others then
                         (case write_others ops otherBatch (butlast (sd_writers s)) of
                            (ok, ws') \<Rightarrow> (ok, s\<lparr>sd_writers := ws' @ [w']\<rparr>))
                       else (True, s\<lparr>sd_writers := (sd_writers s)[i := w']\<rparr>))))"

text \<open>Only a first action that is an insert is undone.\<close>

fun fill_rollback ::
  "(string \<Rightarrow> object \<Rightarrow> 'v option) \<Rightarrow> (string \<times> walDocument) list \<Rightarrow> 'v Batch \<Rightarrow> 'v Batch option" where
  "fill_rollback build [] b = Some b"
| "fill_rollback build ((_, d) # ds) b =
     (case build (wd_docID d) (wd_data d) of
        None \<Rightarrow> None
      | Some v \<Rightarrow>
          fill_rollback build ds (if hd (wd_actions d) = ActionTypeInsert then batch_Delete (wd_docID d) b else b))"

definition WriteToShardRollback ::
  "('w, 'l, 'v) shard_ops \<Rightarrow> int \<Rightarrow> (string \<times> walDocument) list \<Rightarrow> ('w, 'l) IndexShard \<Rightarrow> bool \<times> ('w, 'l) IndexShard" where
  "WriteToShardRollback ops shardID docs s =
     (if \<not> 0 \<le> shardID then (True, s)
      else case GetWriter s shardID of
        None \<Rightarrow> (False, s)
      | Some i \<Rightarrow>
          (case fill_rollback (so_build ops) docs NewBatch of
             None \<Rightarrow> (False, s)
           | Some batch \<Rightarrow>
               (case so_Batch ops (sd_writers s ! i) batch of
                  (ok, w') \<Rightarrow> (ok, s\<lparr>sd_writers := (sd_writers s)[i := w']\<rparr>))))"

text \<open>\<open>WriteTo\<close> visits the groups in the order of a map: \<open>order\<close> lists its keys.\<close>

fun write_groups ::
  "('w, 'l, 'v) shard_ops \<Rightarrow> bool \<Rightarrow> walMergeDocs \<Rightarrow> int list \<Rightarrow> ('w, 'l) IndexShard \<Rightarrow> bool \<times> ('w, 'l) IndexShard" where
  "write_groups ops rollback w [] s = (True, s)"
| "write_groups ops rollback w (k # ks) s =
     (case map_of w k of
        None \<Rightarrow> write_groups ops rollback w ks s
      | Some docs \<Rightarrow>
          (case (if rollback then WriteToShardRollback ops k docs s else WriteToShard ops k docs s) of
             (False, s') \<Rightarrow> (False, s')
           | (True, s') \<Rightarrow> write_groups ops rollback w ks s'))"

definition WriteTo ::
  "('w, 'l, 'v) shard_ops \<Rightarrow> (walMergeDocs \<Rightarrow> int list) \<Rightarrow> bool \<Rightarrow> walMergeDocs \<Rightarrow> ('w, 'l) IndexShard \<Rightarrow>
   bool \<times> walMergeDocs \<times> ('w, 'l) IndexShard" where
  "WriteTo ops order rollback w s =
     (case write_groups ops rollback w (order w) s of
        (True, s') \<Rightarrow> (True, walReset w, s')
      | (False, s') \<Rightarrow> (False, w, s'))"

section \<open>The redo log of a shard\<close>

definition RedoActionRead :: u64 where "RedoActionRead = 1"
definition RedoActionWrite :: u64 where "RedoActionWrite = 2"

definition redo_value :: "u64 \<Rightarrow> u64 \<Rightarrow> bytes" where
  "redo_value minID maxID = FormatUint (unat minID) @ '':'' @ FormatUint (unat maxID)"

definition writeRedoLog :: "redo_io \<Rightarrow> u64 \<Rightarrow> u64 \<Rightarrow> u64 \<Rightarrow> ('w, 'l) IndexShard \<Rightarrow> (bool \<times> ('w, 'l) IndexShard) option" where
  "writeRedoLog io opt minID maxID s =
     (case redo_Write io (sd_redo s) opt (redo_value minID maxID) of
        None \<Rightarrow> None
      | Some (err, l) \<Rightarrow> Some (err = None, s\<lparr>sd_redo := l\<rparr>))"

datatype redo_read = Redo_missing | Redo_bad | Redo_range u64 u64

definition parseRedoLog :: "bytes \<Rightarrow> redo_read" where
  "parseRedoLog v =
     (case Split_char (CHR '':'') v of
        [a, b] \<Rightarrow>
          (case (ParseUint a, ParseUint b) of
             (Some minID, Some maxID) \<Rightarrow> Redo_range (of_nat minID) (of_nat maxID)
           | _ \<Rightarrow> Redo_bad)
      | _ \<Rightarrow> Redo_bad)"

definition readRedoLog :: "u64 \<Rightarrow> ('w, 'l) IndexShard \<Rightarrow> redo_read option" where
  "readRedoLog opt s =
     (case redo_Read (sd_redo s) opt of
        None \<Rightarrow> None
      | Some (Inl err) \<Rightarrow> Some (if err = RedoNotFound then Redo_missing else Redo_bad)
      | Some (Inr v) \<Rightarrow> Some (parseRedoLog v))"

section \<open>Rolling back\<close>

datatype ('a, 's) outcome = Done 'a 's | Failed 's | Panicked

definition ids_from :: "u64 \<Rightarrow> u64 \<Rightarrow> u64 list" where
  "ids_from a b = map of_nat [unat a..<Suc (unat b)]"

fun load_entries :: "('w, 'l, 'v) shard_ops \<Rightarrow> 'l \<Rightarrow> u64 list \<Rightarrow> walMergeDocs \<Rightarrow> (walMergeDocs, unit) outcome" where
  "load_entries ops l [] docs = Done docs ()"
| "load_entries ops l (i # is) docs =
     (case Option.bind (so_Read ops l i) (so_unmarshal ops) of
        None \<Rightarrow> Failed ()
      | Some data \<Rightarrow>
          (case AddDocument data docs of
             None \<Rightarrow> Panicked
           | Some docs' \<Rightarrow> load_entries ops l is docs'))"

definition Rollback ::
  "('w, 'l, 'v) shard_ops \<Rightarrow> (walMergeDocs \<Rightarrow> int list) \<Rightarrow> ('w, 'l) IndexShard \<Rightarrow> (unit, ('w, 'l) IndexShard) outcome" where
  "Rollback ops order s =
     (case readRedoLog RedoActionRead s of
        None \<Rightarrow> Panicked
      | Some Redo_missing \<Rightarrow> Done () s
      | Some Redo_bad \<Rightarrow> Failed s
      | Some (Redo_range readMin readMax) \<Rightarrow>
          (case readRedoLog RedoActionWrite s of
             None \<Rightarrow> Panicked
           | Some Redo_bad \<Rightarrow> Failed s
           | Some w \<Rightarrow>
               if w = Redo_range readMin readMax \<or> (w = Redo_missing \<and> readMin = 0 \<and> readMax = 0) then Done () s
               else case load_entries ops (sd_wal s) (ids_from readMin readMax) [] of
                 Panicked \<Rightarrow> Panicked
               | Failed _ \<Rightarrow> Failed s
               | Done docs _ \<Rightarrow>
                   (case WriteTo ops order True docs s of
                      (False, _, s1) \<Rightarrow> Failed s1
                    | (True, _, s1) \<Rightarrow>
                        Done () (s1\<lparr>sd_wal := snd (so_TruncateFront ops (sd_wal s1) (readMin - 1))\<rparr>))))"

text \<open>\<open>open_wal\<close> stands for opening the files; it gives the log and the redo log.\<close>

definition OpenWAL ::
  "('w, 'l, 'v) shard_ops \<Rightarrow> (walMergeDocs \<Rightarrow> int list) \<Rightarrow> ('l \<times> Log) option \<Rightarrow> ('w, 'l) IndexShard \<Rightarrow> (unit, ('w, 'l) IndexShard) outcome" where
  "OpenWAL ops order open_wal s =
     (if sd_open s then Done () s
      else case open_wal of
        None \<Rightarrow> Failed s
      | Some (l, r) \<Rightarrow>
          (case Rollback ops order (s\<lparr>sd_wal := l, sd_redo := r, sd_open := True\<rparr>) of
             Panicked \<Rightarrow> Panicked
           | Failed s' \<Rightarrow> Failed s'
           | Done _ s' \<Rightarrow> Done () (s'\<lparr>sd_listed := True\<rparr>)))"

section \<open>Consuming the log\<close>

definition MaxBatchSize :: u64 where "MaxBatchSize = 10240"

text \<open>One range of entries: announced in the redo log, written, and recorded as written.\<close>

definition write_range ::
  "('w, 'l, 'v) shard_ops \<Rightarrow> (walMergeDocs \<Rightarrow> int list) \<Rightarrow> redo_io \<Rightarrow> u64 \<Rightarrow> u64 \<Rightarrow> walMergeDocs \<Rightarrow> ('w, 'l) IndexShard \<Rightarrow>
   (walMergeDocs, ('w, 'l) IndexShard) outcome" where
  "write_range ops order io startID minID docs s =
     (case writeRedoLog io RedoActionRead startID minID s of
        None \<Rightarrow> Panicked
      | Some (False, s1) \<Rightarrow> Failed s1
      | Some (True, s1) \<Rightarrow>
          (case WriteTo ops order False docs s1 of
             (False, _, s2) \<Rightarrow> Failed s2
           | (True, docs', s2) \<Rightarrow>
               (case writeRedoLog io RedoActionWrite startID minID s2 of
                  None \<Rightarrow> Panicked
                | Some (False, s3) \<Rightarrow> Failed s3
                | Some (True, s3) \<Rightarrow> Done docs' s3)))"

fun consume_loop ::
  "('w, 'l, 'v) shard_ops \<Rightarrow> (walMergeDocs \<Rightarrow> int list) \<Rightarrow> redo_io \<Rightarrow> int \<Rightarrow> u64 list \<Rightarrow> u64 \<Rightarrow> walMergeDocs \<Rightarrow>
   ('w, 'l) IndexShard \<Rightarrow> (u64 \<times> walMergeDocs, ('w, 'l) IndexShard) outcome" where
  "consume_loop ops order io batchSize [] startID docs s = Done (startID, docs) s"
| "consume_loop ops order io batchSize (i # is) startID docs s =
     (case Option.bind (so_Read ops (sd_wal s) i) (so_unmarshal ops) of
        None \<Rightarrow> Failed s
      | Some data \<Rightarrow>
          (case AddDocument data docs of
             None \<Rightarrow> Panicked
           | Some docs' \<Rightarrow>
               if batchSize \<le> int (MaxShardLen docs') then
                 (case write_range ops order io startID i docs' s of
                    Panicked \<Rightarrow> Panicked
                  | Failed s' \<Rightarrow> Failed s'
                  | Done docs'' s' \<Rightarrow> consume_loop ops order io batchSize is (i + 1) docs'' s')
               else consume_loop ops order io batchSize is startID docs' s))"

definition CheckShards :: "('w, 'l, 'v) shard_ops \<Rightarrow> nat \<Rightarrow> ('w, 'l) IndexShard \<Rightarrow> bool \<times> ('w, 'l) IndexShard" where
  "CheckShards ops maxSize s =
     (if sd_writers s = [] then (False, s)
      else if maxSize < so_size ops (last (sd_writers s)) then
        (case so_openWriter ops (GetShardNum s) of
           None \<Rightarrow> (False, s)
         | Some w \<Rightarrow> (True, s\<lparr>sd_writers := sd_writers s @ [w]\<rparr>))
      else (True, s))"

text \<open>
  The range to consume, after the last committed entry: up to the last one, and at most
  \<open>MaxBatchSize\<close> entries. In \<open>ConsumeWAL\<close> \<open>endID\<close> is what the loop variable comes to.
\<close>

definition consume_range :: "u64 \<Rightarrow> u64 \<Rightarrow> u64 list" where
  "consume_range minID maxID =
     ids_from (minID + 1) (if MaxBatchSize < maxID - minID then minID + MaxBatchSize else maxID)"

definition ConsumeWAL ::
  "('w, 'l, 'v) shard_ops \<Rightarrow> (walMergeDocs \<Rightarrow> int list) \<Rightarrow> redo_io \<Rightarrow> int \<Rightarrow> nat \<Rightarrow> ('w, 'l) IndexShard \<Rightarrow>
   (bool, ('w, 'l) IndexShard) outcome" where
  "ConsumeWAL ops order io batchSize maxSize s0 =
     (let s = s0\<lparr>sd_wal := so_Sync ops (sd_wal s0)\<rparr> in
      case so_LastIndex ops (sd_wal s) of
        None \<Rightarrow> Done False s
      | Some lastID \<Rightarrow>
          (case readRedoLog RedoActionWrite s of
             None \<Rightarrow> Panicked
           | Some Redo_bad \<Rightarrow> Done False s
           | Some r \<Rightarrow>
               (let minID = (case r of Redo_range _ m \<Rightarrow> m | _ \<Rightarrow> 0);
                    endID = last (minID # consume_range minID lastID)
                in if minID = lastID then Done False s
                   else case consume_loop ops order io batchSize (consume_range minID lastID) (minID + 1) [] s of
                     Panicked \<Rightarrow> Panicked
                   | Failed s1 \<Rightarrow> Done False s1
                   | Done (startID, docs) s1 \<Rightarrow>
                       (case (if 0 < MaxShardLen docs then write_range ops order io startID endID docs s1 else Done docs s1) of
                          Panicked \<Rightarrow> Panicked
                        | Failed s2 \<Rightarrow> Done False s2
                        | Done _ s2 \<Rightarrow>
                            (case so_TruncateFront ops (sd_wal s2) endID of
                               (False, l) \<Rightarrow> Done True (s2\<lparr>sd_wal := l\<rparr>)
                             | (True, l) \<Rightarrow> Done True (snd (CheckShards ops maxSize (s2\<lparr>sd_wal := l\<rparr>))))))))"

text \<open>How many entries are accepted but not applied (\<open>WALPending\<close> of \<open>stream.go\<close>, for one shard).\<close>

definition shard_pending :: "('w, 'l, 'v) shard_ops \<Rightarrow> ('w, 'l) IndexShard \<Rightarrow> u64 option" where
  "shard_pending ops s =
     (case (so_LastIndex ops (sd_wal s), readRedoLog RedoActionWrite s) of
        (Some lastID, Some Redo_missing) \<Rightarrow> Some lastID
      | (Some lastID, Some (Redo_range _ committed)) \<Rightarrow> Some (if committed < lastID then lastID - committed else 0)
      | _ \<Rightarrow> None)"

text \<open>\<open>WALPending\<close>: each shard is opened first, with what its files hold.\<close>

fun WALPending ::
  "('w, 'l, 'v) shard_ops \<Rightarrow> (walMergeDocs \<Rightarrow> int list) \<Rightarrow> u64 \<Rightarrow> (('l \<times> Log) option \<times> ('w, 'l) IndexShard) list \<Rightarrow>
   (u64, ('w, 'l) IndexShard list) outcome" where
  "WALPending ops order n [] = Done n []"
| "WALPending ops order n ((files, s) # ss) =
     (case OpenWAL ops order files s of
        Panicked \<Rightarrow> Panicked
      | Failed s' \<Rightarrow> Failed (s' # map snd ss)
      | Done _ s' \<Rightarrow>
          (case shard_pending ops s' of
             None \<Rightarrow> Failed (s' # map snd ss)
           | Some k \<Rightarrow>
               (case WALPending ops order (n + k) ss of
                  Panicked \<Rightarrow> Panicked
                | Failed ss' \<Rightarrow> Failed (s' # ss')
                | Done m ss' \<Rightarrow> Done m (s' # ss'))))"

end
