(* ===== verification/Shard_Merge.thy ===== *)
theory Shard_Merge
  imports Shard_Wal
begin

text \<open>
  What merging means (\<open>walMergeDocs\<close> of \<open>pkg/core/index_shards_wal.go\<close>): writing the merged
  entries of one group has the effect of the entries one after the other. The locale \<open>shard_store\<close>
  states what is documented of a writer of the index library.
\<close>

section \<open>Entries and what they mean\<close>

record entry =
  et_shard :: int
  et_id :: string
  et_action :: string
  et_data :: object

definition entry_of :: "object \<Rightarrow> entry option" where
  "entry_of data =
     (case (as_string (map_of data ''@_action''), as_string (map_of data ''@_id''), as_int (map_of data ''@_shard'')) of
        (Some action, Some docID, Some shardID) \<Rightarrow>
          Some \<lparr>et_shard = shardID, et_id = docID, et_action = action, et_data = data\<rparr>
      | _ \<Rightarrow> None)"

type_synonym 'v contents = "string \<Rightarrow> 'v multiset"

definition exec_one :: "string \<Rightarrow> string \<Rightarrow> 'v \<Rightarrow> 'v contents \<Rightarrow> 'v contents" where
  "exec_one action i v c = c(i :=
     (if action = ActionTypeInsert then c i + {#v#} else if action = ActionTypeUpdate then {#v#} else {#}))"

text \<open>One entry on the contents of all the second-layer shards.\<close>

definition exec_entry :: "(string \<Rightarrow> object \<Rightarrow> 'v option) \<Rightarrow> 'v contents list \<Rightarrow> entry \<Rightarrow> 'v contents list" where
  "exec_entry build cs e =
     (let f = exec_one (et_action e) (et_id e) (the (build (et_id e) (et_data e))) in
      if et_shard e = ShardIDNeedLatest then butlast cs @ [f (last cs)]
      else if 0 \<le> et_shard e then cs[nat (et_shard e) := f (cs ! nat (et_shard e))]
      else map (\<lambda>c. c(et_id e := {#})) (butlast cs) @ [f (last cs)])"

text \<open>The group that the entries of one shard ID form.\<close>

definition group_of :: "entry list \<Rightarrow> (string \<times> walDocument) list" where
  "group_of es = foldl (\<lambda>g e. add_to_group (et_id e) (et_action e) (et_data e) g) [] es"

definition entries_for :: "string \<Rightarrow> entry list \<Rightarrow> entry list" where
  "entries_for i es = filter (\<lambda>e. et_id e = i) es"

definition doc_of :: "string \<Rightarrow> entry list \<Rightarrow> walDocument option" where
  "doc_of i es =
     (if entries_for i es = [] then None
      else Some \<lparr>wd_docID = i, wd_actions = map et_action (entries_for i es), wd_data = et_data (last (entries_for i es))\<rparr>)"

lemma group_of_snoc: "group_of (es @ [e]) = add_to_group (et_id e) (et_action e) (et_data e) (group_of es)"
  by (simp add: group_of_def)

lemma group_of_distinct: "distinct (map fst (group_of es))"
  by (induction es rule: rev_induct) (auto simp: group_of_snoc add_to_group_def Let_def distinct_update, simp add: group_of_def)

lemma map_of_group: "map_of (group_of es) i = doc_of i es"
proof (induction es arbitrary: i rule: rev_induct)
  case (snoc e es)
  then show ?case
    by (auto simp: group_of_snoc add_to_group_def Let_def update_conv' doc_of_def entries_for_def)
qed (simp add: group_of_def doc_of_def entries_for_def)

lemma group_of_keys: "(k, d) \<in> set (group_of es) \<Longrightarrow> wd_docID d = k"
  using map_of_group [of es k] group_of_distinct [of es] by (auto simp: doc_of_def split: if_splits)

section \<open>Filling the batches\<close>

definition merged_at :: "(string \<times> walDocument) list \<Rightarrow> string \<Rightarrow> merged option" where
  "merged_at ds i = Option.bind (map_of ds i) (\<lambda>d. merge_actions (wd_actions d))"

definition value_at :: "(string \<Rightarrow> object \<Rightarrow> 'v option) \<Rightarrow> (string \<times> walDocument) list \<Rightarrow> string \<Rightarrow> 'v" where
  "value_at build ds i = the (build i (wd_data (the (map_of ds i))))"

definition batch_effect :: "'v Batch \<Rightarrow> 'v contents \<Rightarrow> 'v contents" where
  "batch_effect b c i =
     (if i \<in> set (ba_ids b) then {#} else c i) + mset (map snd (filter (\<lambda>p. fst p = i) (ba_docs b)))"

lemma fill_batches_at:
  "fill_batches build ds bs = Some (b, ob) \<Longrightarrow> distinct (map fst ds) \<Longrightarrow> \<forall>(k, d) \<in> set ds. wd_docID d = k \<Longrightarrow>
   (i \<in> set (ba_ids b) \<longleftrightarrow> i \<in> set (ba_ids (fst bs)) \<or> merged_at ds i \<in> {Some MUpdate, Some MDelete}) \<and>
   filter (\<lambda>p. fst p = i) (ba_docs b) = filter (\<lambda>p. fst p = i) (ba_docs (fst bs)) @
     (if merged_at ds i \<in> {Some MInsert, Some MUpdate} then [(i, value_at build ds i)] else []) \<and>
   (i \<in> set (ba_ids ob) \<longleftrightarrow> i \<in> set (ba_ids (snd bs)) \<or> merged_at ds i \<in> {Some MUpdate, Some MDelete}) \<and>
   ba_docs ob = ba_docs (snd bs)"
proof (induction ds arbitrary: bs)
  case (Cons x ds)
  obtain k d where x: "x = (k, d)" by (cases x)
  have k: "wd_docID d = k" "k \<notin> fst ` set ds" using Cons.prems x by auto
  then obtain v m where v: "build k (wd_data d) = Some v" "merge_actions (wd_actions d) = Some m"
    and rest: "fill_batches build ds (add_merged m k v bs) = Some (b, ob)"
    using Cons.prems(1) x by (auto split: option.splits)
  note IH = Cons.IH [OF rest]
  have none: "map_of ds k = None" using k(2) by (simp add: map_of_eq_None_iff)
  show ?case
  proof (cases "i = k")
    case True
    have "merged_at ds k = None" "merged_at (x # ds) k = Some m" "value_at build (x # ds) k = v"
      by (simp_all add: merged_at_def value_at_def none x v)
    then show ?thesis using IH Cons.prems True by (cases m) (auto simp: add_merged_def batch_defs)
  next
    case False
    have "merged_at (x # ds) i = merged_at ds i" "value_at build (x # ds) i = value_at build ds i"
      using False by (simp_all add: merged_at_def value_at_def x)
    then show ?thesis using IH Cons.prems False by (cases m) (auto simp: add_merged_def batch_defs)
  qed
qed (auto simp: merged_at_def)

lemma fill_effect:
  assumes "fill_batches build ds (NewBatch, NewBatch) = Some (b, ob)" and "distinct (map fst ds)" and "\<forall>(k, d) \<in> set ds. wd_docID d = k"
  shows "batch_effect b c i = (case merged_at ds i of
      Some MInsert \<Rightarrow> c i + {#value_at build ds i#} | Some MUpdate \<Rightarrow> {#value_at build ds i#} | Some MDelete \<Rightarrow> {#} | _ \<Rightarrow> c i)"
    and "batch_effect ob c i = (if merged_at ds i \<in> {Some MUpdate, Some MDelete} then {#} else c i)"
proof -
  note at = fill_batches_at [OF assms, of i]
  show "batch_effect b c i = (case merged_at ds i of
      Some MInsert \<Rightarrow> c i + {#value_at build ds i#} | Some MUpdate \<Rightarrow> {#value_at build ds i#} | Some MDelete \<Rightarrow> {#} | _ \<Rightarrow> c i)"
    using at by (auto simp: batch_effect_def NewBatch_def split: option.split merged.split)
  have "ba_docs ob = []" using at by (simp add: NewBatch_def)
  then show "batch_effect ob c i = (if merged_at ds i \<in> {Some MUpdate, Some MDelete} then {#} else c i)"
    using at by (simp add: batch_effect_def NewBatch_def)
qed

section \<open>The effect of a group\<close>

definition changes_only :: "entry \<Rightarrow> bool" where
  "changes_only e \<longleftrightarrow> et_action e = ActionTypeUpdate \<or> et_action e = ActionTypeDelete"

lemma merge_changes:
  assumes "as \<noteq> []" and "\<forall>a \<in> set as. a = ActionTypeUpdate \<or> a = ActionTypeDelete"
  shows "merge_actions as = Some (if last as = ActionTypeUpdate then MUpdate else MDelete)"
proof -
  have "hd as \<in> set as" "last as \<in> set as" using assms(1) by auto
  with assms have "hd as = ActionTypeUpdate \<or> hd as = ActionTypeDelete" "last as = ActionTypeUpdate \<or> last as = ActionTypeDelete" by auto
  moreover have "length as = 1 \<Longrightarrow> last as = hd as" by (cases as) auto
  ultimately show ?thesis by (auto simp: merge_actions_def Let_def action_defs)
qed

lemma merged_at_group:
  assumes "\<forall>e \<in> set es. changes_only e"
  shows "merged_at (group_of es) i =
    (if entries_for i es = [] then None
     else Some (if et_action (last (entries_for i es)) = ActionTypeUpdate then MUpdate else MDelete))"
proof (cases "entries_for i es = []")
  case True
  then show ?thesis by (simp add: merged_at_def map_of_group doc_of_def)
next
  case False
  have "\<forall>a \<in> set (map et_action (entries_for i es)). a = ActionTypeUpdate \<or> a = ActionTypeDelete"
    using assms by (auto simp: entries_for_def changes_only_def)
  from merge_changes [OF _ this] False show ?thesis
    by (simp add: merged_at_def map_of_group doc_of_def last_map)
qed

lemma value_at_group:
  "entries_for i es \<noteq> [] \<Longrightarrow> value_at build (group_of es) i = the (build i (et_data (last (entries_for i es))))"
  by (simp add: value_at_def map_of_group doc_of_def)

text \<open>Changes one after the other: only the last one of a document counts.\<close>

definition exec_seq :: "(string \<Rightarrow> object \<Rightarrow> 'v option) \<Rightarrow> entry list \<Rightarrow> 'v contents \<Rightarrow> 'v contents" where
  "exec_seq build es c = foldl (\<lambda>c e. exec_one (et_action e) (et_id e) (the (build (et_id e) (et_data e))) c) c es"

lemma exec_seq_at:
  assumes "\<forall>e \<in> set es. changes_only e"
  shows "exec_seq build es c i =
    (if entries_for i es = [] then c i
     else if et_action (last (entries_for i es)) = ActionTypeUpdate then {#the (build i (et_data (last (entries_for i es))))#} else {#})"
  using assms
  by (induction es rule: rev_induct)
     (auto simp: exec_seq_def entries_for_def exec_one_def changes_only_def action_defs split: if_splits)

lemma group_effect:
  assumes "fill_batches build (group_of es) (NewBatch, NewBatch) = Some (b, ob)" and "\<forall>e \<in> set es. changes_only e"
  shows "batch_effect b c = exec_seq build es c"
    and "batch_effect ob c = (\<lambda>i. if entries_for i es = [] then c i else {#})"
proof -
  have keys: "\<forall>(k, d) \<in> set (group_of es). wd_docID d = k" using group_of_keys by blast
  note eff = fill_effect [OF assms(1) group_of_distinct keys] and m = merged_at_group [OF assms(2)]
  show "batch_effect b c = exec_seq build es c"
    by (rule ext) (simp add: eff m exec_seq_at [OF assms(2)] value_at_group)
  show "batch_effect ob c = (\<lambda>i. if entries_for i es = [] then c i else {#})"
    by (rule ext) (simp add: eff m)
qed

text \<open>New documents with different IDs: each is added once.\<close>

lemma entries_for_distinct: "distinct (map et_id es) \<Longrightarrow> e \<in> set es \<Longrightarrow> entries_for (et_id e) es = [e]"
  by (induction es) (auto simp: entries_for_def filter_empty_conv, metis image_eqI)

lemma exec_seq_inserts:
  assumes "\<forall>e \<in> set es. et_action e = ActionTypeInsert"
  shows "exec_seq build es c i = c i + mset (map (\<lambda>e. the (build i (et_data e))) (entries_for i es))"
  using assms by (induction es rule: rev_induct) (auto simp: exec_seq_def entries_for_def exec_one_def)

lemma insert_effect:
  assumes "fill_batches build (group_of es) (NewBatch, NewBatch) = Some (b, ob)"
    and ins: "\<forall>e \<in> set es. et_action e = ActionTypeInsert" and dist: "distinct (map et_id es)"
  shows "batch_effect b c = exec_seq build es c"
proof (rule ext)
  fix i
  have keys: "\<forall>(k, d) \<in> set (group_of es). wd_docID d = k" using group_of_keys by blast
  note eff = fill_effect(1) [OF assms(1) group_of_distinct keys]
  show "batch_effect b c i = exec_seq build es c i"
  proof (cases "entries_for i es = []")
    case True
    then show ?thesis by (simp add: eff exec_seq_inserts [OF ins] merged_at_def map_of_group doc_of_def)
  next
    case False
    then obtain e where "e \<in> set es" "et_id e = i" by (auto simp: entries_for_def filter_empty_conv)
    then have e: "entries_for i es = [e]" "et_action e = ActionTypeInsert" using entries_for_distinct [OF dist] ins by auto
    then have "merged_at (group_of es) i = Some MInsert"
      by (simp add: merged_at_def map_of_group doc_of_def merge_actions_def)
    then show ?thesis using e by (simp add: eff exec_seq_inserts [OF ins] value_at_group)
  qed
qed

text \<open>What the shard itself puts into its log: new documents for the latest shard, changes for the others.\<close>

definition group_ok :: "int \<Rightarrow> entry list \<Rightarrow> bool" where
  "group_ok g es \<longleftrightarrow> (\<forall>e \<in> set es. et_shard e = g) \<and>
     (if g = ShardIDNeedLatest then (\<forall>e \<in> set es. et_action e = ActionTypeInsert) \<and> distinct (map et_id es)
      else (\<forall>e \<in> set es. changes_only e))"

lemma fold_exec_latest:
  assumes "\<forall>e \<in> set es. et_shard e = ShardIDNeedLatest" and "cs \<noteq> []"
  shows "foldl (exec_entry build) cs es = butlast cs @ [exec_seq build es (last cs)]"
  using assms by (induction es rule: rev_induct) (auto simp: exec_entry_def exec_seq_def Let_def)

lemma fold_exec_one:
  assumes "\<forall>e \<in> set es. et_shard e = g" and "0 \<le> g" and "nat g < length cs"
  shows "foldl (exec_entry build) cs es = cs[nat g := exec_seq build es (cs ! nat g)]"
  using assms by (induction es rule: rev_induct) (auto simp: exec_entry_def exec_seq_def Let_def ShardIDNeedLatest_def)

lemma fold_exec_all:
  assumes "\<forall>e \<in> set es. et_shard e = g" and "g < 0" and "g \<noteq> ShardIDNeedLatest" and "cs \<noteq> []"
  shows "foldl (exec_entry build) cs es =
    map (\<lambda>c i. if entries_for i es = [] then c i else {#}) (butlast cs) @ [exec_seq build es (last cs)]"
  using assms
  by (induction es rule: rev_induct)
     (auto simp: exec_entry_def exec_seq_def Let_def entries_for_def fun_eq_iff)

lemma update_last: "xs \<noteq> [] \<Longrightarrow> xs[length xs - Suc 0 := w] = butlast xs @ [w]"
  by (cases xs rule: rev_cases) auto

locale shard_store =
  fixes ops :: "('w, 'l, 'v) shard_ops" and cont :: "'w \<Rightarrow> 'v contents"
  assumes batch_done: "so_Batch ops w b = (True, w') \<Longrightarrow> cont w' = batch_effect b (cont w)"
    and batch_failed: "so_Batch ops w b = (False, w') \<Longrightarrow> cont w' = cont w \<or> cont w' = batch_effect b (cont w)"
    and open_empty: "so_openWriter ops k = Some w \<Longrightarrow> cont w = (\<lambda>_. {#})"
begin

abbreviation build :: "string \<Rightarrow> object \<Rightarrow> 'v option" where
  "build \<equiv> so_build ops"

definition conts :: "('w, 'l) IndexShard \<Rightarrow> 'v contents list" where
  "conts s = map cont (sd_writers s)"

lemma write_others_effect:
  "write_others ops b ws = (True, ws') \<Longrightarrow> map cont ws' = map (\<lambda>w. batch_effect b (cont w)) ws"
  by (induction ws arbitrary: ws') (auto split: prod.splits bool.splits dest: batch_done)

lemma WriteToShard_group:
  assumes "group_ok g es" and "WriteToShard ops g (group_of es) s = (True, s')"
  shows "conts s' = foldl (exec_entry build) (conts s) es \<and> sd_wal s' = sd_wal s \<and> sd_redo s' = sd_redo s"
proof -
  let ?g = "if g = ShardIDNeedLatest then GetLatestShardID s else g"
  obtain i b ob w where i: "(if 0 \<le> ?g then GetWriter s ?g else if sd_writers s = [] then None else Some (length (sd_writers s) - 1)) = Some i"
    and fb: "fill_batches build (group_of es) (NewBatch, NewBatch) = Some (b, ob)"
    and w: "so_Batch ops (sd_writers s ! i) b = (True, w)"
    using assms(2) by (auto simp: WriteToShard_def Let_def split: option.splits prod.splits bool.splits)
  have ne: "sd_writers s \<noteq> []" using i by (auto simp: GetWriter_def GetShardNum_def GetLatestShardID_def split: if_splits)
  have wc: "cont w = batch_effect b (cont (sd_writers s ! i))" by (rule batch_done [OF w])
  have shard: "\<forall>e \<in> set es. et_shard e = g" using assms(1) by (simp add: group_ok_def)
  consider (latest) "g = ShardIDNeedLatest" | (one) "g \<noteq> ShardIDNeedLatest" "0 \<le> g" | (every) "g \<noteq> ShardIDNeedLatest" "g < 0" by linarith
  then show ?thesis
  proof cases
    case latest
    then have "i = length (sd_writers s) - 1" "0 \<le> ?g"
      using i ne by (auto simp: GetWriter_def GetShardNum_def GetLatestShardID_def split: if_splits)
    then have s': "s' = s\<lparr>sd_writers := butlast (sd_writers s) @ [w]\<rparr>" "sd_writers s ! i = last (sd_writers s)"
      using assms(2) i fb w ne by (auto simp: WriteToShard_def Let_def last_conv_nth update_last)
    moreover have "batch_effect b c = exec_seq build es c" for c
      using assms(1) latest by (intro insert_effect [OF fb]) (simp_all add: group_ok_def)
    ultimately show ?thesis
      using ne wc fold_exec_latest [of es "conts s"] shard latest by (simp add: conts_def map_butlast last_map)
  next
    case one
    then have "i = nat g" "nat g < length (sd_writers s)"
      using i by (auto simp: GetWriter_def GetShardNum_def split: if_splits)
    moreover from this have "s' = s\<lparr>sd_writers := (sd_writers s)[nat g := w]\<rparr>"
      using assms(2) i fb w one by (auto simp: WriteToShard_def Let_def)
    ultimately show ?thesis
      using fold_exec_one [OF shard one(2), of "conts s"] wc group_effect(1) [OF fb] assms(1) one(1)
      by (simp add: conts_def map_update group_ok_def)
  next
    case every
    then have "i = length (sd_writers s) - 1" using i ne by (auto split: if_splits)
    then have last: "sd_writers s ! i = last (sd_writers s)" using ne by (simp add: last_conv_nth)
    obtain ws' where ws': "write_others ops ob (butlast (sd_writers s)) = (True, ws')" "s' = s\<lparr>sd_writers := ws' @ [w]\<rparr>"
      using assms(2) i fb w every by (auto simp: WriteToShard_def Let_def split: prod.splits)
    have ch: "\<forall>e \<in> set es. changes_only e" using assms(1) every(1) by (simp add: group_ok_def)
    show ?thesis
      using fold_exec_all [OF shard every(2,1), of "conts s"] ne wc last write_others_effect [OF ws'(1)] group_effect [OF fb ch] ws'(2)
      by (simp add: conts_def map_butlast last_map comp_def)
  qed
qed

end

end
