(* ===== verification/Shard_Recovery.thy ===== *)
theory Shard_Recovery
  imports Shard_Merge
begin

text \<open>
  Consuming the log of a shard as a whole (\<open>ConsumeWAL\<close>, \<open>Rollback\<close> and \<open>OpenWAL\<close> of
  \<open>pkg/core/index_shards_wal.go\<close>): the effect on the contents is that of the entries one after
  the other, the redo log remembers how far it came, and a batch of updates that was interrupted is
  repeated without harm. Two defects are proved as well.
\<close>

section \<open>The values in the redo log\<close>

lemma redo_value_length: "length (redo_value a b) \<le> 41"
proof -
  have "length (FormatUint (unat (n :: u64))) \<le> Suc 19" for n
    using unat_u64_less [of n] by (intro length_FormatUint) simp_all
  from this [of a] this [of b] show ?thesis by (simp add: redo_value_def)
qed

lemma parse_redo_value: "parseRedoLog (redo_value a b) = Redo_range a b"
  using unat_u64_less [of a] unat_u64_less [of b]
  by (simp add: parseRedoLog_def redo_value_def Split_char_append Split_char_none ParseUint_FormatUint)

lemma writeRedoLog_done:
  assumes "redo_wf (sd_redo s)" and "writeRedoLog io opt a b s = Some (True, s')"
  shows "redo_wf (sd_redo s') \<and> readRedoLog opt s' = Some (Redo_range a b) \<and>
    (\<forall>o'. o' \<noteq> opt \<longrightarrow> readRedoLog o' s' = readRedoLog o' s) \<and> sd_writers s' = sd_writers s \<and> sd_wal s' = sd_wal s"
proof -
  obtain l where l: "redo_Write io (sd_redo s) opt (redo_value a b) = Some (None, l)" "s' = s\<lparr>sd_redo := l\<rparr>"
    using assms(2) by (auto simp: writeRedoLog_def split: option.splits prod.splits)
  have wf: "redo_wf l" and rd: "redo_Read l k = (if k = opt then Some (Inr (redo_value a b)) else redo_Read (sd_redo s) k)" for k
    using redo_Write_spec [OF assms(1), of io opt "redo_value a b" True] l(1) by auto
  then show ?thesis by (simp add: l(2) readRedoLog_def parse_redo_value)
qed

section \<open>One pass over the log\<close>

definition decode_at :: "('w, 'l, 'v) shard_ops \<Rightarrow> 'l \<Rightarrow> u64 \<Rightarrow> entry option" where
  "decode_at ops l i = Option.bind (Option.bind (so_Read ops l i) (so_unmarshal ops)) entry_of"

text \<open>The entries with the given numbers, when all can be read.\<close>

fun decode_all :: "('w, 'l, 'v) shard_ops \<Rightarrow> 'l \<Rightarrow> u64 list \<Rightarrow> entry list option" where
  "decode_all ops l [] = Some []"
| "decode_all ops l (i # is) =
     (case decode_at ops l i of None \<Rightarrow> None | Some e \<Rightarrow> map_option (\<lambda>es. e # es) (decode_all ops l is))"

lemma decode_all_append:
  "decode_all ops l (xs @ ys) = (case decode_all ops l xs of None \<Rightarrow> None | Some es \<Rightarrow> map_option (\<lambda>fs. es @ fs) (decode_all ops l ys))"
  by (induction xs) (cases "decode_all ops l ys"; auto split: option.splits)+

lemma decode_all_Nil: "decode_all ops l xs = Some [] \<longleftrightarrow> xs = []"
  by (cases xs) (auto split: option.splits)

lemma AddDocument_entry:
  "AddDocument data w = map_option (\<lambda>e. AList.update (et_shard e)
     (add_to_group (et_id e) (et_action e) (et_data e) (case map_of w (et_shard e) of None \<Rightarrow> [] | Some g \<Rightarrow> g)) w) (entry_of data)"
  by (auto simp: AddDocument_def entry_of_def split: option.splits)

text \<open>The numbers of a range, cut at one of them.\<close>

lemma ids_from_cut:
  assumes "ids_from a z = ps @ i # is"
  shows "ids_from a i = ps @ [i]" and "is \<noteq> [] \<Longrightarrow> ids_from (i + 1) z = is"
proof -
  let ?a = "unat a" and ?n = "length ps"
  have len: "Suc (unat z) - ?a = Suc (?n + length is)" using arg_cong [OF assms, of length] by (simp add: ids_from_def del: upt_Suc)
  have "i = (ps @ i # is) ! ?n" by simp
  also have "\<dots> = of_nat (?a + ?n)" unfolding assms [symmetric] using len by (simp add: ids_from_def del: upt_Suc)
  finally have i: "i = of_nat (?a + ?n)" .
  have small: "unat (of_nat n :: u64) = n" if "n < 2 ^ 64" for n using that by (simp add: unsigned_of_nat take_bit_nat_eq_self)
  have u: "unat i = ?a + ?n" unfolding i by (rule small) (use len unat_u64_less [of z] in linarith)
  have "take (Suc ?n) (ids_from a z) = ps @ [i]" unfolding assms by simp
  moreover have "take (Suc ?n) (ids_from a z) = ids_from a i" using len u by (simp add: ids_from_def take_map del: upt_Suc)
  ultimately show "ids_from a i = ps @ [i]" by simp
  assume "is \<noteq> []"
  then have "unat i < unat z" using len u by (cases "is") auto
  then have u1: "unat (i + 1) = Suc (unat i)" using unat_u64_less [of z] by (simp add: unat_word_ariths)
  have "drop (Suc ?n) (ids_from a z) = is" unfolding assms by simp
  moreover have "drop (Suc ?n) (ids_from a z) = ids_from (i + 1) z" using len u u1 by (simp add: ids_from_def drop_map del: upt_Suc)
  ultimately show "ids_from (i + 1) z = is" by simp
qed

text \<open>The entries of one shard ID, and the merged documents that hold the entries \<open>es\<close>.\<close>

definition of_shard :: "int \<Rightarrow> entry list \<Rightarrow> entry list" where
  "of_shard g es = filter (\<lambda>e. et_shard e = g) es"

definition pending :: "entry list \<Rightarrow> walMergeDocs \<Rightarrow> bool" where
  "pending es docs \<longleftrightarrow> distinct (map fst docs) \<and>
     (\<forall>g. map_of docs g = Some (group_of (of_shard g es)) \<or> map_of docs g = None \<and> of_shard g es = [])"

lemma group_of_empty [simp]: "group_of [] = []"
  by (simp add: group_of_def)

lemma group_of_Nil [simp]: "group_of es = [] \<longleftrightarrow> es = []"
proof (cases es rule: rev_cases)
  case (snoc es' e)
  have "map_of (group_of es) (et_id e) \<noteq> None" by (simp add: map_of_group doc_of_def entries_for_def snoc)
  then show ?thesis using snoc by auto
qed simp

lemma pending_at: "pending es docs \<Longrightarrow> map_of docs g = Some (group_of (of_shard g es)) \<or> map_of docs g = None \<and> of_shard g es = []"
  unfolding pending_def by (elim conjE allE)

lemma pending_add:
  assumes "pending es docs" and "entry_of data = Some e"
  shows "\<exists>docs'. AddDocument data docs = Some docs' \<and> pending (es @ [e]) docs' \<and> fst ` set docs' = insert (et_shard e) (fst ` set docs)"
proof -
  let ?g = "case map_of docs (et_shard e) of None \<Rightarrow> [] | Some g \<Rightarrow> g"
  have "?g = group_of (of_shard (et_shard e) es)"
    using assms(1) unfolding pending_def by (cases "map_of docs (et_shard e)") (metis group_of_empty option.simps(3,4,5) option.inject)+
  moreover have "fst ` set (AList.update k v docs) = insert k (fst ` set docs)" for k v
    using dom_update [of k v docs] by (simp add: dom_map_of_conv_image_fst)
  ultimately show ?thesis
    using assms
    by (auto simp: AddDocument_entry pending_def distinct_update update_conv' of_shard_def group_of_snoc)
qed

lemma MaxShardLen_0: "MaxShardLen w = 0 \<longleftrightarrow> (\<forall>v \<in> snd ` set w. v = [])"
proof -
  have "fold (\<lambda>(_, v) n. max n (length v)) w n = 0 \<longleftrightarrow> n = 0 \<and> (\<forall>v \<in> snd ` set w. v = [])" for n
    by (induction w arbitrary: n) auto
  then show ?thesis by (simp add: MaxShardLen_def)
qed

lemma pending_Nil: "pending es docs \<Longrightarrow> MaxShardLen docs = 0 \<longleftrightarrow> es = []"
proof -
  assume p: "pending es docs"
  have "v = [] \<longleftrightarrow> of_shard k es = []" if "(k, v) \<in> set docs" for k v
    using p map_of_is_SomeI [OF _ that] unfolding pending_def by (metis group_of_Nil option.distinct(1) option.inject)
  moreover have "\<exists>v. (k, v) \<in> set docs" if "of_shard k es \<noteq> []" for k
    using p that by (auto simp: pending_def dest: map_of_SomeD spec [of _ k])
  ultimately have "MaxShardLen docs = 0 \<longleftrightarrow> (\<forall>k. of_shard k es = [])" unfolding MaxShardLen_0 by fastforce
  also have "\<dots> \<longleftrightarrow> es = []" by (cases es) (auto simp: of_shard_def)
  finally show ?thesis .
qed

lemma pending_reset: "distinct (map fst docs) \<Longrightarrow> pending [] (walReset docs)"
proof -
  assume "distinct (map fst docs)"
  moreover have "map fst (walReset docs) = map fst docs" by (simp add: walReset_def comp_def case_prod_unfold)
  moreover have "map_of (walReset docs) g = Some [] \<or> map_of (walReset docs) g = None" for g by (induction docs) (auto simp: walReset_def)
  ultimately show ?thesis by (simp add: pending_def of_shard_def del: map_of_eq_Some_iff)
qed

lemma walReset_keys: "fst ` set (walReset docs) = fst ` set docs"
  by (force simp: walReset_def)

definition order_ok :: "(walMergeDocs \<Rightarrow> int list) \<Rightarrow> bool" where
  "order_ok order \<longleftrightarrow> (\<forall>w. distinct (map fst w) \<longrightarrow> distinct (order w) \<and> set (order w) = fst ` set w)"

text \<open>
  What a batch may hold: per shard ID what the shard itself puts into its log, and all the entries
  of a document under one shard ID.
\<close>

definition separate :: "entry list \<Rightarrow> bool" where
  "separate es \<longleftrightarrow> (\<forall>e \<in> set es. \<forall>f \<in> set es. et_id e = et_id f \<longrightarrow> et_shard e = et_shard f)"

definition batch_ok :: "entry list \<Rightarrow> bool" where
  "batch_ok es \<longleftrightarrow> (\<forall>e \<in> set es. group_ok (et_shard e) (of_shard (et_shard e) es)) \<and> separate es"

lemma group_ok_append: "group_ok g (es @ fs) \<Longrightarrow> group_ok g es \<and> group_ok g fs"
  by (auto simp: group_ok_def split: if_splits)

lemma batch_ok_append: "batch_ok (es @ fs) \<Longrightarrow> batch_ok es \<and> batch_ok fs"
  by (auto simp: batch_ok_def separate_def of_shard_def dest: group_ok_append)

lemma batch_ok_group: "batch_ok es \<Longrightarrow> group_ok g (of_shard g es)"
proof (cases "of_shard g es = []")
  case False
  assume "batch_ok es"
  with False obtain e where "e \<in> set es" "et_shard e = g" by (auto simp: of_shard_def filter_empty_conv)
  with \<open>batch_ok es\<close> show ?thesis by (auto simp: batch_ok_def)
qed (simp add: group_ok_def)

section \<open>Regrouping the entries\<close>

lemma exec_entry_other:
  assumes "et_id e \<noteq> i" and "cs \<noteq> []"
  shows "length (exec_entry build cs e) = length cs \<and> map (\<lambda>c. c i) (exec_entry build cs e) = map (\<lambda>c. c i) cs"
  using assms
  by (cases cs rule: rev_cases) (auto simp: exec_entry_def exec_one_def Let_def map_update comp_def nth_append list_update_append nth_list_update
      intro!: nth_equalityI split: nat.splits)

lemma exec_entry_length: "cs \<noteq> [] \<Longrightarrow> length (exec_entry build cs e) = length cs"
  by (cases cs rule: rev_cases) (auto simp: exec_entry_def Let_def)

lemma exec_entry_cong:
  assumes "map (\<lambda>c. c (et_id e)) cs = map (\<lambda>c. c (et_id e)) ds" and "cs \<noteq> []"
  shows "map (\<lambda>c. c (et_id e)) (exec_entry build cs e) = map (\<lambda>c. c (et_id e)) (exec_entry build ds e)"
proof -
  obtain as a where cs: "cs = as @ [a]" using assms(2) by (cases cs rule: rev_cases) auto
  have "ds \<noteq> []" using assms by auto
  then obtain bs b where ds: "ds = bs @ [b]" by (cases ds rule: rev_cases) auto
  have len: "length as = length bs" using arg_cong [OF assms(1), of length] cs ds by simp
  have "map (\<lambda>c. c (et_id e)) as = map (\<lambda>c. c (et_id e)) bs" using assms(1) cs ds by simp
  then have at: "(as ! k) (et_id e) = (bs ! k) (et_id e)" if "k < length bs" for k
    using that len by (metis length_map nth_map)
  show ?thesis
    using assms(1) len at
    by (auto simp: exec_entry_def exec_one_def Let_def cs ds nth_list_update comp_def map_update nth_append list_update_append
        intro!: nth_equalityI split: nat.splits)
qed

lemma fold_exec_length: "cs \<noteq> [] \<Longrightarrow> length (foldl (exec_entry build) cs es) = length cs"
proof (induction es arbitrary: cs)
  case (Cons e es)
  have "exec_entry build cs e \<noteq> []" using exec_entry_length [OF Cons.prems, of build e] Cons.prems by auto
  then show ?case using Cons exec_entry_length [OF Cons.prems, of build e] by simp
qed simp

text \<open>What happens to one document depends on its own entries only.\<close>

lemma fold_exec_at:
  assumes "cs \<noteq> []"
  shows "map (\<lambda>c. c i) (foldl (exec_entry build) cs es) = map (\<lambda>c. c i) (foldl (exec_entry build) cs (entries_for i es))"
proof (induction es rule: rev_induct)
  case (snoc e es)
  have ne: "foldl (exec_entry build) cs es \<noteq> []" using fold_exec_length [OF assms] assms by (metis length_0_conv)
  show ?case
  proof (cases "et_id e = i")
    case True
    then show ?thesis using exec_entry_cong [OF snoc [folded True] ne] by (simp add: entries_for_def)
  next
    case False
    then show ?thesis using snoc exec_entry_other [OF False ne] by (simp add: entries_for_def)
  qed
qed (simp add: entries_for_def)

lemma fold_exec_eq:
  assumes "cs \<noteq> []" and "\<And>i. entries_for i es = entries_for i fs"
  shows "foldl (exec_entry build) cs es = foldl (exec_entry build) cs fs"
proof (rule nth_equalityI)
  show len: "length (foldl (exec_entry build) cs es) = length (foldl (exec_entry build) cs fs)" using fold_exec_length [OF assms(1)] by metis
  fix k
  assume k: "k < length (foldl (exec_entry build) cs es)"
  have "map (\<lambda>c. c i) (foldl (exec_entry build) cs es) = map (\<lambda>c. c i) (foldl (exec_entry build) cs fs)" for i
    using fold_exec_at [OF assms(1)] assms(2) by metis
  then show "foldl (exec_entry build) cs es ! k = foldl (exec_entry build) cs fs ! k"
    using k len by (intro ext) (metis nth_map)
qed

definition regroup :: "int list \<Rightarrow> entry list \<Rightarrow> entry list" where
  "regroup gs es = concat (map (\<lambda>g. of_shard g es) gs)"

lemma regroup_one: "distinct gs \<Longrightarrow> \<forall>e \<in> set es. et_shard e = g \<Longrightarrow> regroup gs es = (if g \<in> set gs then es else [])"
  by (induction gs) (auto simp: regroup_def of_shard_def filter_id_conv filter_empty_conv)

lemma entries_for_regroup: "entries_for i (regroup gs es) = regroup gs (entries_for i es)"
  by (simp add: regroup_def entries_for_def of_shard_def filter_concat comp_def conj_commute)

lemma regroup_entries:
  assumes "distinct gs" and "et_shard ` set es \<subseteq> set gs" and "separate es"
  shows "entries_for i (regroup gs es) = entries_for i es"
proof (cases "entries_for i es")
  case (Cons e es')
  then have e: "e \<in> set es" "et_id e = i" by (auto simp: entries_for_def dest: filter_eq_ConsD)
  have "et_shard f = et_shard e" if "f \<in> set (entries_for i es)" for f
  proof -
    have "f \<in> set es" "et_id f = i" using that by (simp_all add: entries_for_def)
    then show ?thesis using assms(3) e unfolding separate_def by metis
  qed
  then have one: "\<forall>f \<in> set (entries_for i es). et_shard f = et_shard e" by blast
  have "et_shard e \<in> set gs" using assms(2) e by blast
  then show ?thesis unfolding entries_for_regroup regroup_one [OF assms(1) one] by (simp only: if_True)
qed (auto simp: regroup_def of_shard_def entries_for_def filter_empty_conv)

text \<open>The number of the last entry that is recorded as written, 0 when there is none.\<close>

definition committed :: "('w, 'l) IndexShard \<Rightarrow> u64 option" where
  "committed s = (case readRedoLog RedoActionWrite s of
     Some Redo_missing \<Rightarrow> Some 0 | Some (Redo_range _ m) \<Rightarrow> Some m | _ \<Rightarrow> None)"

lemma committed_wal [simp]: "committed (s\<lparr>sd_wal := l\<rparr>) = committed s"
  by (simp add: committed_def readRedoLog_def)

section \<open>The effect of one pass\<close>

context shard_store
begin

text \<open>Whatever the order of the groups, they are written one group after the other.\<close>

lemma write_groups_effect:
  assumes "pending es docs" and "batch_ok es"
  shows "write_groups ops False docs gs s = (True, s') \<Longrightarrow>
    conts s' = foldl (exec_entry build) (conts s) (regroup gs es) \<and> sd_wal s' = sd_wal s \<and> sd_redo s' = sd_redo s"
proof (induction gs arbitrary: s)
  case (Cons g gs)
  have m: "map_of docs g = Some (group_of (of_shard g es)) \<or> map_of docs g = None \<and> of_shard g es = []"
    by (rule pending_at [OF assms(1)])
  show ?case
  proof (cases "map_of docs g")
    case None
    then have "of_shard g es = []" "write_groups ops False docs gs s = (True, s')" using m Cons.prems by auto
    then show ?thesis using Cons.IH [of s] by (simp add: regroup_def)
  next
    case (Some d)
    then obtain s1 where s1: "WriteToShard ops g (group_of (of_shard g es)) s = (True, s1)" "write_groups ops False docs gs s1 = (True, s')"
      using Cons.prems m by (auto split: prod.splits bool.splits)
    show ?thesis using WriteToShard_group [OF batch_ok_group [OF assms(2)] s1(1)] Cons.IH [OF s1(2)] by (simp add: regroup_def)
  qed
qed (simp add: regroup_def)

lemma pending_shards: "pending es docs \<Longrightarrow> et_shard ` set es \<subseteq> fst ` set docs"
proof clarify
  fix e
  assume p: "pending es docs" and e: "e \<in> set es"
  then have "of_shard (et_shard e) es \<noteq> []" by (auto simp: of_shard_def filter_empty_conv)
  then have "map_of docs (et_shard e) \<noteq> None" using p unfolding pending_def by (metis option.distinct(1))
  then show "et_shard e \<in> fst ` set docs" by (simp add: map_of_eq_None_iff)
qed

lemma WriteTo_effect:
  assumes "order_ok order" and "pending es docs" and "batch_ok es" and "sd_writers s \<noteq> []"
    and "WriteTo ops order False docs s = (True, docs', s')"
  shows "docs' = walReset docs \<and> conts s' = foldl (exec_entry build) (conts s) es \<and> sd_wal s' = sd_wal s \<and> sd_redo s' = sd_redo s"
proof -
  have w: "write_groups ops False docs (order docs) s = (True, s')" "docs' = walReset docs"
    using assms(5) by (auto simp: WriteTo_def split: prod.splits bool.splits)
  have o: "distinct (order docs)" "set (order docs) = fst ` set docs" using assms(1,2) by (auto simp: order_ok_def pending_def)
  have "foldl (exec_entry build) (conts s) (regroup (order docs) es) = foldl (exec_entry build) (conts s) es"
    using o pending_shards [OF assms(2)] assms(3,4)
    by (intro fold_exec_eq regroup_entries) (auto simp: batch_ok_def conts_def)
  then show ?thesis using write_groups_effect [OF assms(2,3) w(1)] w(2) by simp
qed

lemma conts_writers: "sd_writers s \<noteq> [] \<Longrightarrow> conts s' = foldl (exec_entry build) (conts s) es \<Longrightarrow> length (sd_writers s') = length (sd_writers s)"
  using fold_exec_length [of "conts s" build es] by (metis conts_def length_map map_is_Nil_conv)

lemma write_range_effect:
  assumes "order_ok order" and "redo_wf (sd_redo s)" and "pending es docs" and "batch_ok es" and "sd_writers s \<noteq> []"
    and "write_range ops order io a b docs s = Done docs' s'"
  shows "docs' = walReset docs \<and> conts s' = foldl (exec_entry build) (conts s) es \<and> sd_wal s' = sd_wal s \<and> redo_wf (sd_redo s') \<and>
    readRedoLog RedoActionWrite s' = Some (Redo_range a b)"
proof -
  obtain s1 s2 where s1: "writeRedoLog io RedoActionRead a b s = Some (True, s1)"
    and s2: "WriteTo ops order False docs s1 = (True, docs', s2)"
    and s3: "writeRedoLog io RedoActionWrite a b s2 = Some (True, s')"
    using assms(6) by (auto simp: write_range_def split: option.splits prod.splits bool.splits)
  note r1 = writeRedoLog_done [OF assms(2) s1]
  then have "sd_writers s1 \<noteq> []" using assms(5) by simp
  note r2 = WriteTo_effect [OF assms(1,3,4) this s2]
  have "redo_wf (sd_redo s2)" using r1 r2 by simp
  note r3 = writeRedoLog_done [OF this s3]
  show ?thesis using r1 r2 r3 by (simp add: conts_def)
qed

text \<open>Here \<open>ps\<close> are the numbers of the entries already merged; those of \<open>p1\<close> have been written at the end.\<close>

lemma consume_loop_effect:
  assumes "order_ok order"
  shows "consume_loop ops order io bs is a docs s = Done (a', docs') s' \<Longrightarrow> redo_wf (sd_redo s) \<Longrightarrow> pending es docs \<Longrightarrow>
    decode_all ops (sd_wal s) ps = Some es \<Longrightarrow> decode_all ops (sd_wal s) is = Some fs \<Longrightarrow> batch_ok (es @ fs) \<Longrightarrow> sd_writers s \<noteq> [] \<Longrightarrow>
    ps @ is = [] \<or> ps @ is = ids_from a z \<Longrightarrow> committed s = Some (a - 1) \<Longrightarrow>
    \<exists>p1 p2 ea eb. ps @ is = p1 @ p2 \<and> decode_all ops (sd_wal s) p2 = Some eb \<and> es @ fs = ea @ eb \<and> pending eb docs' \<and>
      conts s' = foldl (exec_entry build) (conts s) ea \<and> sd_wal s' = sd_wal s \<and> redo_wf (sd_redo s') \<and>
      (if p1 = [] then readRedoLog RedoActionWrite s' = readRedoLog RedoActionWrite s
       else \<exists>x. readRedoLog RedoActionWrite s' = Some (Redo_range x (last p1))) \<and> (p2 = [] \<or> p2 = ids_from a' z) \<and> committed s' = Some (a' - 1)"
proof (induction "is" arbitrary: a docs s es fs ps)
  case Nil
  then show ?case by (intro exI [of _ "[]"] exI [of _ ps] exI [of _ es]) auto
next
  case (Cons i "is")
  obtain e fs' where e: "decode_at ops (sd_wal s) i = Some e" and fs': "decode_all ops (sd_wal s) is = Some fs'" "fs = e # fs'"
    using Cons.prems(5) by (auto split: option.splits)
  then obtain data where data: "Option.bind (so_Read ops (sd_wal s) i) (so_unmarshal ops) = Some data" "entry_of data = Some e"
    by (auto simp: decode_at_def bind_eq_Some_conv)
  obtain docs1 where add: "AddDocument data docs = Some docs1" and p1: "pending (es @ [e]) docs1"
    using pending_add [OF Cons.prems(3) data(2)] by blast
  have ok: "batch_ok ((es @ [e]) @ fs')" using Cons.prems(6) fs'(2) by simp
  note ok1 = conjunct1 [OF batch_ok_append [OF ok]] and ok2 = conjunct2 [OF batch_ok_append [OF ok]]
  have ps: "decode_all ops (sd_wal s) (ps @ [i]) = Some (es @ [e])" using Cons.prems(4) e by (simp add: decode_all_append)
  have range: "ids_from a z = ps @ i # is" using Cons.prems(8) by simp
  show ?case
  proof (cases "bs \<le> int (MaxShardLen docs1)")
    case True
    obtain docs2 s1 where w: "write_range ops order io a i docs1 s = Done docs2 s1"
      and rest: "consume_loop ops order io bs is (i + 1) docs2 s1 = Done (a', docs') s'"
      using Cons.prems(1) True by (auto simp: data(1) add split: outcome.splits)
    note r = write_range_effect [OF assms Cons.prems(2) p1 ok1 Cons.prems(7) w]
    have "pending [] docs2" using r p1 by (auto simp: pending_def intro!: pending_reset [unfolded pending_def])
    moreover have "sd_writers s1 \<noteq> []" using conts_writers [OF Cons.prems(7)] r Cons.prems(7) by (metis length_0_conv)
    ultimately obtain q1 q2 ea eb where IH: "is = q1 @ q2" "decode_all ops (sd_wal s1) q2 = Some eb" "fs' = ea @ eb" "pending eb docs'"
      "conts s' = foldl (exec_entry build) (conts s1) ea" "sd_wal s' = sd_wal s1" "redo_wf (sd_redo s')"
      "if q1 = [] then readRedoLog RedoActionWrite s' = readRedoLog RedoActionWrite s1
       else \<exists>x. readRedoLog RedoActionWrite s' = Some (Redo_range x (last q1))" "q2 = [] \<or> q2 = ids_from a' z" "committed s' = Some (a' - 1)"
      using Cons.IH [OF rest, of "[]" "[]" fs'] r fs'(1) ok2 ids_from_cut(2) [OF range] by (auto simp: committed_def [of s1])
    have "\<exists>x. readRedoLog RedoActionWrite s' = Some (Redo_range x (last (ps @ i # q1)))" using IH(8) r by (auto split: if_splits)
    then show ?thesis
      using IH r fs'(2)
      by (intro exI [of _ "ps @ i # q1"] exI [of _ q2] exI [of _ "(es @ [e]) @ ea"] exI [of _ eb]) (auto simp: foldl_append)
  next
    case False
    then have rest: "consume_loop ops order io bs is a docs1 s = Done (a', docs') s'"
      using Cons.prems(1) by (simp add: data(1) add)
    from Cons.IH [OF rest Cons.prems(2) p1 ps fs'(1) ok Cons.prems(7)] show ?thesis using fs'(2) range Cons.prems(9) by simp
  qed
qed

end

lemma consume_range_last:
  assumes "minID < lastID"
  shows "consume_range minID lastID \<noteq> [] \<and>
    last (consume_range minID lastID) = (if MaxBatchSize < lastID - minID then minID + MaxBatchSize else lastID)"
proof -
  let ?max = "if MaxBatchSize < lastID - minID then minID + MaxBatchSize else lastID"
  have m: "unat (minID + 1) = unat minID + 1" using assms unat_u64_less [of lastID]
    by (simp add: word_less_nat_alt unat_word_ariths)
  have "unat minID + 1 \<le> unat ?max"
  proof (cases "MaxBatchSize < lastID - minID")
    case True
    have "unat (lastID - minID) = unat lastID - unat minID" using assms by (simp add: unat_sub word_less_nat_alt word_le_nat_alt)
    then have "unat minID + 10240 < unat lastID" using True by (simp add: MaxBatchSize_def word_less_nat_alt)
    then have "unat (minID + MaxBatchSize) = unat minID + 10240"
      using unat_u64_less [of lastID] by (simp add: MaxBatchSize_def unat_word_ariths)
    then show ?thesis using True by simp
  qed (use assms in \<open>simp add: word_less_nat_alt\<close>)
  then have "[unat (minID + 1)..<Suc (unat ?max)] \<noteq> [] \<and> last [unat (minID + 1)..<Suc (unat ?max)] = unat ?max" using m by simp
  then show ?thesis unfolding consume_range_def ids_from_def by (simp add: last_map del: upt_Suc)
qed

lemma consume_range_from:
  "[] @ consume_range minID lastID = [] \<or>
   [] @ consume_range minID lastID = ids_from (minID + 1) (if MaxBatchSize < lastID - minID then minID + MaxBatchSize else lastID)"
  by (simp add: consume_range_def)

context shard_store
begin

lemma CheckShards_conts:
  "conts (snd (CheckShards ops maxSize s)) = conts s \<or> conts (snd (CheckShards ops maxSize s)) = conts s @ [\<lambda>_. {#}]"
  by (auto simp: CheckShards_def conts_def split: option.splits dest: open_empty)

lemma CheckShards_redo: "sd_redo (snd (CheckShards ops maxSize s)) = sd_redo s"
  by (auto simp: CheckShards_def split: option.splits)

lemma ConsumeWAL_effect:
  assumes "order_ok order" and "redo_wf (sd_redo s)" and "committed s = Some minID"
    and "so_LastIndex ops (so_Sync ops (sd_wal s)) = Some lastID" and "minID < lastID"
    and "decode_all ops (so_Sync ops (sd_wal s)) (consume_range minID lastID) = Some es" and "batch_ok es" and "sd_writers s \<noteq> []"
    and "ConsumeWAL ops order io bs maxSize s = Done True s'"
  shows "conts s' \<in> {foldl (exec_entry build) (conts s) es, foldl (exec_entry build) (conts s) es @ [\<lambda>_. {#}]} \<and>
    committed s' = Some (last (consume_range minID lastID))"
proof -
  let ?s = "s\<lparr>sd_wal := so_Sync ops (sd_wal s)\<rparr>"
  let ?max = "last (minID # consume_range minID lastID)"
  obtain r where r: "readRedoLog RedoActionWrite ?s = Some r" "r \<noteq> Redo_bad" "minID = (case r of Redo_range _ m \<Rightarrow> m | _ \<Rightarrow> 0)"
    using assms(3) by (auto simp: committed_def readRedoLog_def split: option.splits redo_read.splits)
  obtain a docs s1 where loop: "consume_loop ops order io bs (consume_range minID lastID) (minID + 1) [] ?s = Done (a, docs) s1"
    and s2: "\<exists>docs2 s2 l. (if 0 < MaxShardLen docs then write_range ops order io a ?max docs s1 else Done docs s1) = Done docs2 s2 \<and>
      (s' = s2\<lparr>sd_wal := l\<rparr> \<or> s' = snd (CheckShards ops maxSize (s2\<lparr>sd_wal := l\<rparr>)))"
    using assms(4,5,9) r
    by (cases r) (auto simp: ConsumeWAL_def Let_def split: outcome.splits prod.splits bool.splits if_splits)
  have "redo_wf (sd_redo ?s)" "pending [] []" "decode_all ops (sd_wal ?s) [] = Some []"
    "decode_all ops (sd_wal ?s) (consume_range minID lastID) = Some es" "batch_ok ([] @ es)" "sd_writers ?s \<noteq> []"
    using assms by (simp_all add: pending_def of_shard_def)
  from consume_loop_effect [OF assms(1) loop this consume_range_from] assms(3)
  obtain p1 p2 ea eb where l: "es = ea @ eb" "pending eb docs" "conts s1 = foldl (exec_entry build) (conts ?s) ea" "redo_wf (sd_redo s1)"
    and p: "consume_range minID lastID = p1 @ p2" "decode_all ops (sd_wal ?s) p2 = Some eb"
      "if p1 = [] then readRedoLog RedoActionWrite s1 = readRedoLog RedoActionWrite ?s
       else \<exists>x. readRedoLog RedoActionWrite s1 = Some (Redo_range x (last p1))"
    unfolding append_Nil by auto
  have l5: "eb = [] \<longrightarrow> (\<exists>x. readRedoLog RedoActionWrite s1 = Some (Redo_range x (last (consume_range minID lastID))))"
    using p consume_range_last [OF assms(5)] by (auto simp: decode_all_Nil)
  have ne: "sd_writers s1 \<noteq> []" using conts_writers [OF _ l(3)] assms(8) by fastforce
  have "\<exists>s2 l. (s' = s2\<lparr>sd_wal := l\<rparr> \<or> s' = snd (CheckShards ops maxSize (s2\<lparr>sd_wal := l\<rparr>))) \<and>
      conts s2 = foldl (exec_entry build) (conts s) es \<and> (\<exists>x. readRedoLog RedoActionWrite s2 = Some (Redo_range x (last (consume_range minID lastID))))"
  proof (cases "eb = []")
    case True
    then have "\<not> 0 < MaxShardLen docs" using pending_Nil [OF l(2)] by simp
    then obtain l' where "s' = s1\<lparr>sd_wal := l'\<rparr> \<or> s' = snd (CheckShards ops maxSize (s1\<lparr>sd_wal := l'\<rparr>))" using s2 by auto
    moreover have "conts s1 = foldl (exec_entry build) (conts s) es" using l(1,3) True by (simp add: conts_def)
    ultimately show ?thesis using l5 True by blast
  next
    case False
    then have "0 < MaxShardLen docs" using pending_Nil [OF l(2)] by simp
    then obtain docs2 s2 l' where w: "write_range ops order io a ?max docs s1 = Done docs2 s2"
      "s' = s2\<lparr>sd_wal := l'\<rparr> \<or> s' = snd (CheckShards ops maxSize (s2\<lparr>sd_wal := l'\<rparr>))" using s2 by auto
    have "batch_ok eb" using batch_ok_append [of ea eb] assms(7) l(1) by simp
    note e = write_range_effect [OF assms(1) l(4,2) this ne w(1)]
    have "conts s2 = foldl (exec_entry build) (conts s) es" using e l(1,3) by (simp add: conts_def)
    moreover have "readRedoLog RedoActionWrite s2 = Some (Redo_range a (last (consume_range minID lastID)))"
      using e consume_range_last [OF assms(5)] by simp
    ultimately show ?thesis using w(2) by blast
  qed
  then obtain s2 l' where s': "s' = s2\<lparr>sd_wal := l'\<rparr> \<or> s' = snd (CheckShards ops maxSize (s2\<lparr>sd_wal := l'\<rparr>))"
    and c: "conts s2 = foldl (exec_entry build) (conts s) es"
    and rd: "\<exists>x. readRedoLog RedoActionWrite s2 = Some (Redo_range x (last (consume_range minID lastID)))" by blast
  have "committed s' = Some (last (consume_range minID lastID))"
    using s' rd CheckShards_redo [of maxSize "s2\<lparr>sd_wal := l'\<rparr>"] by (auto simp: committed_def readRedoLog_def)
  moreover have "conts (s2\<lparr>sd_wal := l'\<rparr>) = conts s2" by (simp add: conts_def)
  ultimately show ?thesis using s' c CheckShards_conts [of maxSize "s2\<lparr>sd_wal := l'\<rparr>"] by auto
qed

end

section \<open>It succeeds when the libraries do\<close>

text \<open>No writer fails, every document can be built, and the redo log can be written.\<close>

definition sound_ops :: "('w, 'l, 'v) shard_ops \<Rightarrow> redo_io \<Rightarrow> bool" where
  "sound_ops ops io \<longleftrightarrow> (\<forall>w b. fst (so_Batch ops w b)) \<and> (\<forall>i d. so_build ops i d \<noteq> None) \<and> ri_short io = None \<and> ri_sync io"

text \<open>The shard IDs that occur exist.\<close>

definition targets_ok :: "int set \<Rightarrow> ('w, 'l) IndexShard \<Rightarrow> bool" where
  "targets_ok G s \<longleftrightarrow> sd_writers s \<noteq> [] \<and> (\<forall>g \<in> G. g < GetShardNum s)"

lemma targets_same: "targets_ok G s \<Longrightarrow> length (sd_writers s') = length (sd_writers s) \<Longrightarrow> targets_ok G s'"
  unfolding targets_ok_def GetShardNum_def by (metis length_0_conv)

lemma targets_mono: "targets_ok G s \<Longrightarrow> H \<subseteq> G \<Longrightarrow> targets_ok H s"
  by (auto simp: targets_ok_def)

lemma fill_batches_total:
  "(\<And>i d. build i d \<noteq> None) \<Longrightarrow> (\<And>k d. (k, d) \<in> set ds \<Longrightarrow> merge_actions (wd_actions d) \<noteq> None) \<Longrightarrow> \<exists>r. fill_batches build ds bs = Some r"
  by (induction build ds bs rule: fill_batches.induct) (fastforce split: option.splits)+

lemma group_merges:
  assumes "group_ok g es" and "(k, d) \<in> set (group_of es)"
  shows "merge_actions (wd_actions d) \<noteq> None"
proof -
  have "doc_of k es = Some d" using assms(2) map_of_group group_of_distinct by (metis map_of_is_SomeI)
  then have as: "wd_actions d = map et_action (entries_for k es)" "entries_for k es \<noteq> []" by (auto simp: doc_of_def split: if_splits)
  then have "hd (wd_actions d) \<in> et_action ` set es" by (auto simp: entries_for_def hd_map dest: hd_in_set)
  then have "hd (wd_actions d) \<in> {ActionTypeInsert, ActionTypeUpdate, ActionTypeDelete}"
    using assms(1) by (auto simp: group_ok_def changes_only_def split: if_splits)
  then show ?thesis by (auto simp: merge_actions_def Let_def)
qed

lemma write_others_total: "(\<And>w b. fst (so_Batch ops w b)) \<Longrightarrow> fst (write_others ops b ws)"
  by (induction ws) (auto split: prod.splits bool.splits, metis fst_conv)

lemma WriteToShard_total:
  assumes "sound_ops ops io" and "targets_ok {g} s" and "group_ok g es"
  shows "\<exists>s'. WriteToShard ops g (group_of es) s = (True, s') \<and> length (sd_writers s') = length (sd_writers s)"
proof -
  obtain b ob where fb: "fill_batches (so_build ops) (group_of es) (NewBatch, NewBatch) = Some (b, ob)"
    using fill_batches_total [of "so_build ops" "group_of es" "(NewBatch, NewBatch)"] group_merges [OF assms(3)] assms(1)
    by (auto simp: sound_ops_def)
  have len: "length (snd (write_others ops b ws)) = length ws" for ws
    by (induction ws) (auto split: prod.splits bool.splits)
  have b: "\<exists>w'. so_Batch ops w x = (True, w')" for w x using assms(1) by (metis (full_types) prod.collapse sound_ops_def)
  have o: "\<exists>ws'. write_others ops x ws = (True, ws') \<and> length ws' = length ws" for x ws
  proof -
    have "fst (write_others ops x ws)" using write_others_total assms(1) by (auto simp: sound_ops_def)
    moreover have "length (snd (write_others ops x ws)) = length ws" by (induction ws) (auto split: prod.splits bool.splits)
    ultimately show ?thesis by (cases "write_others ops x ws") auto
  qed
  let ?g = "if g = ShardIDNeedLatest then GetLatestShardID s else g"
  have "?g < GetShardNum s" using assms(2) by (simp add: targets_ok_def GetLatestShardID_def)
  then have "\<exists>i. (if 0 \<le> ?g then GetWriter s ?g else if sd_writers s = [] then None else Some (length (sd_writers s) - 1)) = Some i"
    using assms(2) by (cases "0 \<le> ?g") (simp_all add: targets_ok_def GetWriter_def)
  then obtain i where i: "(if 0 \<le> ?g then GetWriter s ?g else if sd_writers s = [] then None else Some (length (sd_writers s) - 1)) = Some i" ..
  obtain w' where w': "so_Batch ops (sd_writers s ! i) b = (True, w')" using b by blast
  obtain ws' where ws': "write_others ops ob (butlast (sd_writers s)) = (True, ws')" "length ws' = length (sd_writers s) - 1" using o by fastforce
  show ?thesis
    using i w' ws' assms(2) by (cases "0 \<le> ?g") (auto simp: WriteToShard_def Let_def fb targets_ok_def)
qed

text \<open>The redo log can be written.\<close>

definition io_ok :: "redo_io \<Rightarrow> bool" where
  "io_ok io \<longleftrightarrow> ri_short io = None \<and> ri_sync io"

lemma writeRedoLog_total:
  assumes "io_ok io" and "redo_wf (sd_redo s)"
  shows "\<exists>s'. writeRedoLog io opt a b s = Some (True, s') \<and> sd_writers s' = sd_writers s \<and> sd_wal s' = sd_wal s"
proof -
  obtain e l' where w: "redo_Write io (sd_redo s) opt (redo_value a b) = Some (e, l')"
    using redo_Write_spec [OF assms(2), of io opt "redo_value a b" True] by blast
  moreover have "e = None" using w redo_value_length [of a b] assms(1)
    by (auto simp: redo_Write_def ValueFixedLength_def io_ok_def Let_def split: option.splits if_splits)
  ultimately show ?thesis by (simp add: writeRedoLog_def)
qed

lemma sound_io: "sound_ops ops io \<Longrightarrow> io_ok io"
  by (simp add: sound_ops_def io_ok_def)

context shard_store
begin

lemma write_groups_total:
  assumes "sound_ops ops io" and "pending es docs" and "batch_ok es"
  shows "targets_ok (set gs) s \<Longrightarrow> \<exists>s'. write_groups ops False docs gs s = (True, s') \<and> length (sd_writers s') = length (sd_writers s)"
proof (induction gs arbitrary: s)
  case (Cons g gs)
  have m: "map_of docs g = Some (group_of (of_shard g es)) \<or> map_of docs g = None" using pending_at [OF assms(2)] by metis
  have t: "targets_ok {g} s" "targets_ok (set gs) s" using Cons.prems by (auto simp: targets_ok_def)
  show ?case
  proof (cases "map_of docs g")
    case None
    then show ?thesis using Cons.IH [OF t(2)] by simp
  next
    case (Some d)
    obtain s1 where s1: "WriteToShard ops g (group_of (of_shard g es)) s = (True, s1)" "length (sd_writers s1) = length (sd_writers s)"
      using WriteToShard_total [OF assms(1) t(1) batch_ok_group [OF assms(3)]] by blast
    from Cons.IH [OF targets_same [OF t(2) s1(2)]] show ?thesis using s1 m Some by auto
  qed
qed simp

lemma write_range_total:
  assumes "sound_ops ops io" and "order_ok order" and "redo_wf (sd_redo s)" and "targets_ok (fst ` set docs) s"
    and "pending es docs" and "batch_ok es"
  shows "\<exists>docs' s'. write_range ops order io a b docs s = Done docs' s' \<and> length (sd_writers s') = length (sd_writers s)"
proof -
  obtain s1 where s1: "writeRedoLog io RedoActionRead a b s = Some (True, s1)" "sd_writers s1 = sd_writers s" "sd_wal s1 = sd_wal s"
    using writeRedoLog_total [OF sound_io [OF assms(1)] assms(3)] by blast
  note r1 = writeRedoLog_done [OF assms(3) s1(1)]
  have "set (order docs) = fst ` set docs" using assms(2,5) unfolding order_ok_def pending_def by blast
  then have t: "targets_ok (set (order docs)) s1" using targets_same [OF assms(4), of s1] s1(2) by simp
  obtain s2 where s2: "write_groups ops False docs (order docs) s1 = (True, s2)" "length (sd_writers s2) = length (sd_writers s1)"
    using write_groups_total [OF assms(1,5,6) t] by blast
  have "redo_wf (sd_redo s2)" using write_groups_effect [OF assms(5,6) s2(1)] r1 by simp
  from writeRedoLog_total [OF sound_io [OF assms(1)] this] obtain s3
    where s3: "writeRedoLog io RedoActionWrite a b s2 = Some (True, s3)" "sd_writers s3 = sd_writers s2" by blast
  then show ?thesis using s1 s2 by (auto simp: write_range_def WriteTo_def)
qed

lemma consume_loop_total:
  assumes "sound_ops ops io" and "order_ok order"
  shows "redo_wf (sd_redo s) \<Longrightarrow> targets_ok G s \<Longrightarrow> fst ` set docs \<union> et_shard ` set fs \<subseteq> G \<Longrightarrow> pending es docs \<Longrightarrow>
    decode_all ops (sd_wal s) is = Some fs \<Longrightarrow> batch_ok (es @ fs) \<Longrightarrow>
    \<exists>a' docs' s'. consume_loop ops order io bs is a docs s = Done (a', docs') s' \<and> targets_ok G s' \<and> fst ` set docs' \<subseteq> G"
proof (induction "is" arbitrary: a docs s es fs)
  case (Cons i "is")
  obtain e fs' where e: "decode_at ops (sd_wal s) i = Some e" and fs': "decode_all ops (sd_wal s) is = Some fs'" "fs = e # fs'"
    using Cons.prems(5) by (auto split: option.splits)
  then obtain data where data: "Option.bind (so_Read ops (sd_wal s) i) (so_unmarshal ops) = Some data" "entry_of data = Some e"
    by (auto simp: decode_at_def bind_eq_Some_conv)
  obtain docs1 where add: "AddDocument data docs = Some docs1" and p1: "pending (es @ [e]) docs1"
    and k1: "fst ` set docs1 = insert (et_shard e) (fst ` set docs)"
    using pending_add [OF Cons.prems(4) data(2)] by blast
  have ok: "batch_ok ((es @ [e]) @ fs')" using Cons.prems(6) fs'(2) by simp
  note ok1 = conjunct1 [OF batch_ok_append [OF ok]] and ok2 = conjunct2 [OF batch_ok_append [OF ok]]
  have sub: "fst ` set docs1 \<union> et_shard ` set fs' \<subseteq> G" using Cons.prems(3) fs'(2) k1 by auto
  show ?case
  proof (cases "bs \<le> int (MaxShardLen docs1)")
    case True
    have t: "targets_ok (fst ` set docs1) s" using targets_mono [OF Cons.prems(2)] sub by auto
    obtain docs2 s1 where w: "write_range ops order io a i docs1 s = Done docs2 s1" "length (sd_writers s1) = length (sd_writers s)"
      using write_range_total [OF assms Cons.prems(1) t p1 ok1] by blast
    have ne: "sd_writers s \<noteq> []" using Cons.prems(2) by (simp add: targets_ok_def)
    note r = write_range_effect [OF assms(2) Cons.prems(1) p1 ok1 ne w(1)]
    have p2: "pending [] docs2" using r p1 by (auto simp: pending_def intro!: pending_reset [unfolded pending_def])
    have "fst ` set docs2 \<union> et_shard ` set fs' \<subseteq> G" using sub r walReset_keys by auto
    with Cons.IH [of s1 docs2 fs' "[]" "i + 1"] r targets_same [OF Cons.prems(2) w(2)] w fs'(1) ok2 True p2
    show ?thesis by (auto simp: data(1) add)
  next
    case False
    from Cons.IH [OF Cons.prems(1,2) sub p1 fs'(1) ok, of a] False show ?thesis by (simp add: data(1) add)
  qed
qed simp

lemma ConsumeWAL_total:
  assumes "sound_ops ops io" and "order_ok order" and "redo_wf (sd_redo s)" and "targets_ok (et_shard ` set es) s" and "committed s = Some minID"
    and "so_LastIndex ops (so_Sync ops (sd_wal s)) = Some lastID" and "minID < lastID"
    and "decode_all ops (so_Sync ops (sd_wal s)) (consume_range minID lastID) = Some es" and "batch_ok es"
  shows "\<exists>s'. ConsumeWAL ops order io bs maxSize s = Done True s'"
proof -
  let ?s = "s\<lparr>sd_wal := so_Sync ops (sd_wal s)\<rparr>"
  obtain r where r: "readRedoLog RedoActionWrite ?s = Some r" "r \<noteq> Redo_bad" "minID = (case r of Redo_range _ m \<Rightarrow> m | _ \<Rightarrow> 0)"
    using assms(5) by (auto simp: committed_def readRedoLog_def split: option.splits redo_read.splits)
  have pre: "redo_wf (sd_redo ?s)" "targets_ok (et_shard ` set es) ?s" "fst ` set [] \<union> et_shard ` set es \<subseteq> et_shard ` set es" "pending [] []"
    "decode_all ops (sd_wal ?s) (consume_range minID lastID) = Some es" "batch_ok ([] @ es)" "decode_all ops (sd_wal ?s) [] = Some []"
    using assms by (simp_all add: pending_def of_shard_def targets_ok_def GetShardNum_def)
  have ne: "sd_writers ?s \<noteq> []" using pre(2) by (simp add: targets_ok_def)
  obtain a docs s1 where loop: "consume_loop ops order io bs (consume_range minID lastID) (minID + 1) [] ?s = Done (a, docs) s1"
    "targets_ok (et_shard ` set es) s1" "fst ` set docs \<subseteq> et_shard ` set es"
    using consume_loop_total [OF assms(1,2) pre(1-6), of bs "minID + 1"] by blast
  from consume_loop_effect [OF assms(2) loop(1) pre(1,4,7,5,6) ne consume_range_from] assms(5)
  obtain ea eb where l: "es = ea @ eb" "pending eb docs" "redo_wf (sd_redo s1)" by auto
  have ok: "batch_ok eb" using batch_ok_append [of ea eb] assms(9) l(1) by simp
  obtain docs2 s2 where w: "(if 0 < MaxShardLen docs then write_range ops order io a (last (minID # consume_range minID lastID)) docs s1
      else Done docs s1) = Done docs2 s2"
    using write_range_total [OF assms(1,2) l(3) targets_mono [OF loop(2,3)] l(2) ok] by (metis (full_types))
  have nm: "minID \<noteq> lastID" using assms(7) by simp
  define mx where "mx = last (minID # consume_range minID lastID)"
  have *: "ConsumeWAL ops order io bs maxSize s =
      (case so_TruncateFront ops (sd_wal s2) mx of
         (False, l) \<Rightarrow> Done True (s2\<lparr>sd_wal := l\<rparr>)
       | (True, l) \<Rightarrow> Done True (snd (CheckShards ops maxSize (s2\<lparr>sd_wal := l\<rparr>))))"
    using r(1,2) assms(6) loop(1) w nm unfolding ConsumeWAL_def Let_def r(3) mx_def
    by (cases r; cases "0 < MaxShardLen docs") (simp_all add: r(3))
  show ?thesis by (simp add: * split: prod.split bool.split)
qed

end

end
