(* ===== verification/Shard_Restart.thy ===== *)
theory Shard_Restart
  imports Shard_Recovery
begin

text \<open>
  An interrupted pass over a shard's log (\<open>ConsumeWAL\<close>, \<open>OpenWAL\<close> and \<open>Rollback\<close> of
  \<open>pkg/core/index_shards_wal.go\<close>): changes that were applied in part are applied again by the next
  pass, and the result is the same as without the interruption.
\<close>

section \<open>Changes applied twice\<close>

text \<open>A change with a shard ID other than \<open>ShardIDNeedLatest\<close> says what it leaves at the writers it touches.\<close>

definition change_ok :: "entry \<Rightarrow> bool" where
  "change_ok e \<longleftrightarrow> changes_only e \<and> et_shard e \<noteq> ShardIDNeedLatest"

definition touches :: "entry \<Rightarrow> nat \<Rightarrow> bool" where
  "touches e k \<longleftrightarrow> et_shard e < 0 \<or> nat (et_shard e) = k"

definition leaves :: "(string \<Rightarrow> object \<Rightarrow> 'v option) \<Rightarrow> entry \<Rightarrow> nat \<Rightarrow> nat \<Rightarrow> 'v multiset" where
  "leaves build e n k =
     (if et_action e = ActionTypeUpdate \<and> (0 \<le> et_shard e \<or> Suc k = n) then {#the (build (et_id e) (et_data e))#} else {#})"

lemma exec_change_at:
  assumes "change_ok e" and "k < length cs"
  shows "(exec_entry build cs e ! k) i = (if i = et_id e \<and> touches e k then leaves build e (length cs) k else (cs ! k) i)"
proof -
  obtain as a where cs: "cs = as @ [a]" using assms(2) by (cases cs rule: rev_cases) auto
  have act: "et_action e = ActionTypeUpdate \<or> et_action e = ActionTypeDelete" "et_action e \<noteq> ActionTypeInsert"
    using assms(1) by (auto simp: change_ok_def changes_only_def action_defs)
  show ?thesis
  proof (cases "0 \<le> et_shard e")
    case True
    then show ?thesis
      using assms act
      by (cases "nat (et_shard e) = k") (auto simp: exec_entry_def exec_one_def change_ok_def Let_def touches_def leaves_def)
  next
    case False
    then show ?thesis
      using assms act
      by (cases "k < length as") (auto simp: exec_entry_def exec_one_def change_ok_def Let_def touches_def leaves_def cs nth_append)
  qed
qed

text \<open>Contents that agree wherever none of the entries \<open>es\<close> writes.\<close>

definition agree :: "entry list \<Rightarrow> 'v contents list \<Rightarrow> 'v contents list \<Rightarrow> bool" where
  "agree es cs ds \<longleftrightarrow> length cs = length ds \<and>
     (\<forall>k < length cs. \<forall>i. (\<forall>e \<in> set es. et_id e = i \<longrightarrow> \<not> touches e k) \<longrightarrow> (cs ! k) i = (ds ! k) i)"

lemma agree_refl [simp]: "agree es cs cs"
  by (simp add: agree_def)

lemma agree_sym: "agree es cs ds \<Longrightarrow> agree es ds cs"
  by (simp add: agree_def)

lemma agree_trans: "agree es cs ds \<Longrightarrow> agree es ds fs \<Longrightarrow> agree es cs fs"
  by (simp add: agree_def)

lemma agree_mono: "agree es cs ds \<Longrightarrow> set es \<subseteq> set fs \<Longrightarrow> agree fs cs ds"
  unfolding agree_def by (metis subsetD)

lemma fold_exec_agree:
  assumes "\<forall>e \<in> set es. change_ok e" and "agree es cs ds" and "cs \<noteq> []"
  shows "foldl (exec_entry build) cs es = foldl (exec_entry build) ds es"
  using assms
proof (induction es arbitrary: cs ds)
  case Nil
  then show ?case by (auto simp: agree_def intro!: nth_equalityI)
next
  case (Cons e es)
  have len: "length cs = length ds" "ds \<noteq> []" using Cons.prems by (auto simp: agree_def)
  have "agree es (exec_entry build cs e) (exec_entry build ds e)"
    using Cons.prems len exec_change_at [of e _ cs build] exec_change_at [of e _ ds build] exec_entry_length [of _ build e]
    by (auto simp: agree_def)
  moreover have "exec_entry build cs e \<noteq> []" using Cons.prems(3) exec_entry_length [OF Cons.prems(3)] by (metis length_0_conv)
  ultimately show ?case using Cons.IH Cons.prems(1) by simp
qed

lemma exec_agree: "\<forall>e \<in> set es. change_ok e \<Longrightarrow> cs \<noteq> [] \<Longrightarrow> agree es (foldl (exec_entry build) cs es) cs"
proof (induction es rule: rev_induct)
  case (snoc e es)
  let ?c = "foldl (exec_entry build) cs es"
  have len: "length ?c = length cs" by (rule fold_exec_length [OF snoc.prems(2)])
  then have ne: "?c \<noteq> []" using snoc.prems(2) by auto
  have "agree (es @ [e]) (exec_entry build ?c e) ?c"
    using exec_change_at [of e _ ?c build] exec_entry_length [OF ne, of build e] snoc.prems(1) by (auto simp: agree_def)
  moreover have "agree (es @ [e]) ?c cs" using snoc by (auto intro: agree_mono)
  ultimately show ?case by (auto intro: agree_trans)
qed simp

section \<open>A pass that is interrupted\<close>

text \<open>
  An interruption while a range is written: some writers have taken their batch. A writer that
  fails stands for it; a batch is taken as a whole or not at all.
\<close>

lemma batch_outside:
  assumes "fill_batches build docs (NewBatch, NewBatch) = Some (b, ob)" and "distinct (map fst docs)" and "\<forall>(k, d) \<in> set docs. wd_docID d = k"
    and "i \<notin> fst ` set docs"
  shows "batch_effect b c i = c i" and "batch_effect ob c i = c i"
  using fill_effect [OF assms(1-3)] assms(4) by (auto simp: merged_at_def map_of_eq_None_iff [symmetric] split: option.splits)

lemma group_ids: "fst ` set (group_of es) = et_id ` set es"
proof -
  have "fst ` set (group_of es) = {i. doc_of i es \<noteq> None}"
    using map_of_group [of es] by (metis (no_types, lifting) dom_def dom_map_of_conv_image_fst ext)
  then show ?thesis by (auto simp: doc_of_def entries_for_def filter_empty_conv)
qed

lemma map_update_same: "f w = f (xs ! i) \<Longrightarrow> map f (xs[i := w]) = map f xs"
  by (cases "i < length xs") (simp_all add: map_update list_update_same_conv list_update_beyond)

lemma map_last_same: "xs \<noteq> [] \<Longrightarrow> map f ys = map f (butlast xs) \<Longrightarrow> f w = f (xs ! (length xs - Suc 0)) \<Longrightarrow> map f (ys @ [w]) = map f xs"
  by (cases xs rule: rev_cases) auto

text \<open>The range announced last can be read again; \<open>announced\<close> says so of a shard.\<close>

definition announced :: "('w, 'l, 'v) shard_ops \<Rightarrow> entry list \<Rightarrow> ('w, 'l) IndexShard \<Rightarrow> bool" where
  "announced ops es s \<longleftrightarrow> (\<exists>x y fs. readRedoLog RedoActionRead s = Some (Redo_range x y) \<and>
     committed s = Some (x - 1) \<and> decode_all ops (sd_wal s) (ids_from x y) = Some fs \<and> set fs \<subseteq> set es)"

lemma consume_range_rest:
  assumes "minID < lastID" and "lastID - minID \<le> MaxBatchSize" and "consume_range minID lastID = p1 @ p2" and "p1 \<noteq> []" and "p2 \<noteq> []"
  shows "last p1 < lastID \<and> lastID - last p1 \<le> MaxBatchSize \<and> consume_range (last p1) lastID = p2"
proof -
  let ?n = "length p1" and ?a = "Suc (unat minID)" and ?b = "Suc (unat lastID)"
  have m: "unat (minID + 1) = ?a" using assms(1) unat_u64_less [of lastID] by (simp add: word_less_nat_alt unat_word_ariths)
  have r: "map of_nat [?a..<?b] = p1 @ p2"
    using assms(2,3) m by (simp add: consume_range_def ids_from_def linorder_not_less [symmetric] del: upt_Suc)
  have "?b - ?a = length p1 + length p2" using arg_cong [OF r, of length] by (simp del: upt_Suc)
  moreover have "0 < length p1" "0 < length p2" using assms(4,5) by auto
  ultimately have n: "0 < ?n" "?a + ?n < ?b" by linarith+
  have "p1 = take ?n (map of_nat [?a..<?b])" "p2 = drop ?n (map of_nat [?a..<?b])"
    unfolding r by simp_all
  then have p: "p1 = map of_nat [?a..<?a + ?n]" "p2 = map of_nat [?a + ?n..<?b]"
    using n by (simp_all add: take_map drop_map del: upt_Suc)
  define q where "q = ?a + ?n - 1"
  have q: "unat minID < q" "q < unat lastID" "Suc q = ?a + ?n" using n by (simp_all add: q_def)
  have "last p1 = of_nat q" by (subst p(1)) (use n in \<open>simp add: last_map q_def del: upt_Suc\<close>)
  moreover have "unat (of_nat q :: u64) = q" using q(2) unat_u64_less [of lastID] by (simp add: unsigned_of_nat take_bit_nat_eq_self)
  ultimately have u: "unat (last p1) = q" by simp
  have lt: "last p1 < lastID" using u q by (simp add: word_less_nat_alt)
  have sub: "unat (lastID - x) = unat lastID - unat x" if "x < lastID" for x
    using that by (simp add: unat_sub word_less_nat_alt word_le_nat_alt)
  have le: "lastID - last p1 \<le> MaxBatchSize"
    using assms(2) sub [OF lt] sub [OF assms(1)] u q by (simp add: word_le_nat_alt)
  have "unat (last p1 + 1) = Suc q" using u lt unat_u64_less [of lastID] by (simp add: word_less_nat_alt unat_word_ariths)
  then have "consume_range (last p1) lastID = map of_nat [Suc q..<?b]"
    using le by (simp add: consume_range_def ids_from_def linorder_not_less [symmetric] del: upt_Suc)
  then show ?thesis using lt le p(2) q(3) by simp
qed

context shard_store
begin

lemma batch_any: "so_Batch ops w b = (ok, w') \<Longrightarrow> cont w' = cont w \<or> cont w' = batch_effect b (cont w)"
  using batch_done [of w b w'] batch_failed [of w b w'] by (cases ok) simp_all

lemma write_others_partial:
  "write_others ops b ws = (ok, ws') \<Longrightarrow> length ws' = length ws \<and>
     (\<forall>k < length ws. cont (ws' ! k) = cont (ws ! k) \<or> cont (ws' ! k) = batch_effect b (cont (ws ! k)))"
proof (induction ws arbitrary: ok ws')
  case (Cons w ws)
  obtain o1 w1 where w1: "so_Batch ops w b = (o1, w1)" by (cases "so_Batch ops w b")
  obtain o2 ws2 where ws2: "write_others ops b ws = (o2, ws2)" by (cases "write_others ops b ws")
  show ?case
    using Cons.prems Cons.IH [OF ws2] w1 ws2 batch_any [OF w1] by (cases o1) (auto simp: nth_Cons split: nat.splits)
qed simp

lemma WriteToShard_empty:
  assumes "WriteToShard ops g [] s = (ok, s')"
  shows "agree es (conts s') (conts s) \<and> sd_wal s' = sd_wal s \<and> sd_redo s' = sd_redo s"
proof -
  have eff: "batch_effect NewBatch c = c" for c by (rule ext) (simp add: batch_effect_def NewBatch_def)
  have w: "cont w' = cont w" if "so_Batch ops w NewBatch = (o1, w')" for w w' o1 using batch_any [OF that] eff by auto
  have o: "map cont ws' = map cont ws" if "write_others ops NewBatch ws = (o1, ws')" for ws ws' o1
    using write_others_partial [OF that] unfolding eff by (auto intro!: nth_equalityI)
  have "conts s' = conts s \<and> sd_wal s' = sd_wal s \<and> sd_redo s' = sd_redo s"
    using assms w o
    by (auto simp: WriteToShard_def Let_def conts_def GetWriter_def GetShardNum_def simp del: map_append
        split: option.splits prod.splits bool.splits if_splits intro!: map_update_same map_last_same)
  then show ?thesis by simp
qed

lemma WriteToShard_partial:
  assumes "\<forall>e \<in> set es. change_ok e \<and> et_shard e = g" and "es \<noteq> []" and "WriteToShard ops g (group_of es) s = (ok, s')"
  shows "agree es (conts s') (conts s) \<and> sd_wal s' = sd_wal s \<and> sd_redo s' = sd_redo s"
proof -
  have g: "g \<noteq> ShardIDNeedLatest" using assms(1,2) by (cases es) (auto simp: change_ok_def)
  let ?target = "if 0 \<le> g then GetWriter s g else if sd_writers s = [] then None else Some (length (sd_writers s) - 1)"
  show ?thesis
  proof (cases "s' = s")
    case False
    obtain i b ob w o1 where i: "?target = Some i"
      and fb: "fill_batches build (group_of es) (NewBatch, NewBatch) = Some (b, ob)" and w: "so_Batch ops (sd_writers s ! i) b = (o1, w)"
      using assms(3) g False by (auto simp: WriteToShard_def Let_def split: option.splits prod.splits)
    have keys: "\<forall>(k, d) \<in> set (group_of es). wd_docID d = k" using group_of_keys by blast
    note out = batch_outside [OF fb group_of_distinct keys, unfolded group_ids]
    have il: "i < length (sd_writers s)" using i by (auto simp: GetWriter_def GetShardNum_def split: if_splits)
    have one: "agree es (conts (s\<lparr>sd_writers := (sd_writers s)[i := w]\<rparr>)) (conts s)"
      using batch_any [OF w] il i assms(1)
      by (auto simp: agree_def conts_def nth_list_update touches_def GetWriter_def split: if_splits intro!: out(1))
    show ?thesis
    proof (cases "o1 \<and> \<not> 0 \<le> g")
      case True
      then have il': "i = length (sd_writers s) - 1" using i by (auto split: if_splits)
      obtain o2 ws where ws: "write_others ops ob (butlast (sd_writers s)) = (o2, ws)" "s' = s\<lparr>sd_writers := ws @ [w]\<rparr>"
        using assms(3) g i fb w True by (auto simp: WriteToShard_def Let_def split: prod.splits)
      note p = write_others_partial [OF ws(1)]
      have "(cont ((ws @ [w]) ! k)) j = cont (sd_writers s ! k) j"
        if "k < length (sd_writers s)" "\<forall>e \<in> set es. et_id e = j \<longrightarrow> \<not> touches e k" for k j
      proof -
        have j: "j \<notin> et_id ` set es" using that(2) True assms(1) by (auto simp: touches_def)
        show ?thesis
        proof (cases "k < length ws")
          case True
          then have "cont (ws ! k) = cont (sd_writers s ! k) \<or> cont (ws ! k) = batch_effect ob (cont (sd_writers s ! k))"
            using p by (auto simp: nth_butlast)
          then show ?thesis using True out(2) [OF j] by (auto simp: nth_append)
        next
          case False
          then have "k = i" "(ws @ [w]) ! k = w" using that(1) p il' by (auto simp: nth_append)
          then show ?thesis using batch_any [OF w] out(1) [OF j] by auto
        qed
      qed
      moreover have "length (ws @ [w]) = length (sd_writers s)" using p il by simp
      ultimately show ?thesis using ws(2) by (simp add: agree_def conts_def del: map_append length_append)
    next
      case False
      then have "s' = s\<lparr>sd_writers := (sd_writers s)[i := w]\<rparr>"
        using assms(3) g i fb w by (auto simp: WriteToShard_def Let_def split: prod.splits bool.splits if_splits)
      then show ?thesis using one by simp
    qed
  qed simp
qed

lemma write_groups_partial:
  assumes "pending es docs" and "\<forall>e \<in> set es. change_ok e"
  shows "write_groups ops False docs gs s = (ok, s') \<Longrightarrow> agree es (conts s') (conts s) \<and> sd_wal s' = sd_wal s \<and> sd_redo s' = sd_redo s"
proof (induction gs arbitrary: s)
  case (Cons g gs)
  note m = pending_at [OF assms(1), of g]
  have part: "agree es (conts s1) (conts s) \<and> sd_wal s1 = sd_wal s \<and> sd_redo s1 = sd_redo s"
    if "WriteToShard ops g (group_of (of_shard g es)) s = (o1, s1)" for o1 s1
  proof (cases "of_shard g es = []")
    case True
    then show ?thesis using WriteToShard_empty that by simp
  next
    case False
    have "\<forall>e \<in> set (of_shard g es). change_ok e \<and> et_shard e = g" using assms(2) by (simp add: of_shard_def)
    from WriteToShard_partial [OF this False that] show ?thesis by (auto intro: agree_mono simp: of_shard_def)
  qed
  show ?case
  proof (cases "map_of docs g")
    case None
    then show ?thesis using Cons.IH [of s] Cons.prems by simp
  next
    case (Some d)
    obtain o1 s1 where s1: "WriteToShard ops g (group_of (of_shard g es)) s = (o1, s1)" by (cases "WriteToShard ops g (group_of (of_shard g es)) s")
    show ?thesis
    proof (cases o1)
      case True
      then have "write_groups ops False docs gs s1 = (ok, s')" using Cons.prems Some m s1 by simp
      then show ?thesis using Cons.IH [of s1] part [OF s1] by (auto intro: agree_trans)
    next
      case False
      then show ?thesis using Cons.prems Some m s1 part [OF s1] by simp
    qed
  qed
qed simp

lemma write_range_partial:
  assumes "io_ok io" and "redo_wf (sd_redo s)" and "pending es docs" and "\<forall>e \<in> set es. change_ok e"
    and "write_range ops order io a b docs s = Failed s'"
  shows "agree es (conts s') (conts s) \<and> sd_wal s' = sd_wal s \<and> redo_wf (sd_redo s') \<and>
    readRedoLog RedoActionWrite s' = readRedoLog RedoActionWrite s \<and> readRedoLog RedoActionRead s' = Some (Redo_range a b)"
proof -
  obtain s1 where s1: "writeRedoLog io RedoActionRead a b s = Some (True, s1)"
    using writeRedoLog_total [OF assms(1,2)] by blast
  note r1 = writeRedoLog_done [OF assms(2) s1]
  obtain ok s2 where s2: "write_groups ops False docs (order docs) s1 = (ok, s2)" by (cases "write_groups ops False docs (order docs) s1")
  note p = write_groups_partial [OF assms(3,4) s2]
  have "redo_wf (sd_redo s2)" using r1 p by simp
  then obtain s3 where s3: "writeRedoLog io RedoActionWrite a b s2 = Some (True, s3)"
    using writeRedoLog_total [OF assms(1)] by blast
  have "s' = s2" using assms(5) s1 s2 s3 by (cases ok) (auto simp: write_range_def WriteTo_def)
  then show ?thesis using p r1 by (simp add: conts_def readRedoLog_def RedoActionRead_def RedoActionWrite_def)
qed

text \<open>
  When the pass stops early, the entries up to the recorded number are applied, and the others at
  most in part. Here \<open>ps\<close> are the numbers of the entries already merged.
\<close>

lemma consume_loop_partial:
  assumes "order_ok order" and "io_ok io"
  shows "consume_loop ops order io bs is a docs s = Failed s' \<Longrightarrow> redo_wf (sd_redo s) \<Longrightarrow> pending es docs \<Longrightarrow>
    decode_all ops (sd_wal s) ps = Some es \<Longrightarrow> decode_all ops (sd_wal s) is = Some fs \<Longrightarrow> batch_ok (es @ fs) \<Longrightarrow>
    \<forall>e \<in> set (es @ fs). change_ok e \<Longrightarrow> sd_writers s \<noteq> [] \<Longrightarrow> ps @ is = [] \<or> ps @ is = ids_from a z \<Longrightarrow> committed s = Some (a - 1) \<Longrightarrow>
    \<exists>p1 p2 ea eb. ps @ is = p1 @ p2 \<and> p2 \<noteq> [] \<and> decode_all ops (sd_wal s) p2 = Some eb \<and> es @ fs = ea @ eb \<and>
      agree eb (conts s') (foldl (exec_entry build) (conts s) ea) \<and> sd_wal s' = sd_wal s \<and> redo_wf (sd_redo s') \<and>
      (if p1 = [] then readRedoLog RedoActionWrite s' = readRedoLog RedoActionWrite s
       else \<exists>x. readRedoLog RedoActionWrite s' = Some (Redo_range x (last p1))) \<and> announced ops (es @ fs) s'"
proof (induction "is" arbitrary: a docs s es fs ps)
  case (Cons i "is")
  obtain e fs' where e: "decode_at ops (sd_wal s) i = Some e" and fs': "decode_all ops (sd_wal s) is = Some fs'" "fs = e # fs'"
    using Cons.prems(5) by (auto split: option.splits)
  then obtain data where data: "Option.bind (so_Read ops (sd_wal s) i) (so_unmarshal ops) = Some data" "entry_of data = Some e"
    by (auto simp: decode_at_def bind_eq_Some_conv)
  obtain docs1 where add: "AddDocument data docs = Some docs1" and p1: "pending (es @ [e]) docs1"
    using pending_add [OF Cons.prems(3) data(2)] by blast
  have ok: "batch_ok ((es @ [e]) @ fs')" and ch: "\<forall>f \<in> set ((es @ [e]) @ fs'). change_ok f" using Cons.prems(6,7) fs'(2) by simp_all
  note ok1 = conjunct1 [OF batch_ok_append [OF ok]] and ok2 = conjunct2 [OF batch_ok_append [OF ok]]
  have ps: "decode_all ops (sd_wal s) (ps @ [i]) = Some (es @ [e])" using Cons.prems(4) e by (simp add: decode_all_append)
  have range: "ids_from a z = ps @ i # is" using Cons.prems(9) by simp
  show ?case
  proof (cases "bs \<le> int (MaxShardLen docs1)")
    case True
    then consider (stop) "write_range ops order io a i docs1 s = Failed s'"
      | (go) docs2 s1 where "write_range ops order io a i docs1 s = Done docs2 s1" "consume_loop ops order io bs is (i + 1) docs2 s1 = Failed s'"
      using Cons.prems(1) by (auto simp: data(1) add split: outcome.splits)
    then show ?thesis
    proof cases
      case stop
      note r = write_range_partial [OF assms(2) Cons.prems(2) p1 _ stop]
      have "agree (es @ fs) (conts s') (conts s)" using r ch fs'(2) by (auto intro: agree_mono)
      moreover have "announced ops (es @ fs) s'"
        using r ch ps fs'(2) ids_from_cut(1) [OF range] Cons.prems(10) by (auto simp: announced_def committed_def)
      ultimately show ?thesis
        using r ch Cons.prems(4,5) by (intro exI [of _ "[]"] exI [of _ "ps @ i # is"] exI [of _ "es @ fs"]) (simp add: decode_all_append)
    next
      case go
      note r = write_range_effect [OF assms(1) Cons.prems(2) p1 ok1 Cons.prems(8) go(1)]
      have "pending [] docs2" using r p1 by (auto simp: pending_def intro!: pending_reset [unfolded pending_def])
      moreover have "sd_writers s1 \<noteq> []" using conts_writers [OF Cons.prems(8)] r Cons.prems(8) by (metis length_0_conv)
      ultimately obtain q1 q2 ea eb where IH: "is = q1 @ q2" "q2 \<noteq> []" "decode_all ops (sd_wal s1) q2 = Some eb" "fs' = ea @ eb"
        "agree eb (conts s') (foldl (exec_entry build) (conts s1) ea)" "sd_wal s' = sd_wal s1" "redo_wf (sd_redo s')"
        "if q1 = [] then readRedoLog RedoActionWrite s' = readRedoLog RedoActionWrite s1
         else \<exists>x. readRedoLog RedoActionWrite s' = Some (Redo_range x (last q1))" "announced ops fs' s'"
        using Cons.IH [OF go(2), of "[]" "[]" fs'] r fs'(1) ok2 ch ids_from_cut(2) [OF range] by (auto simp: committed_def [of s1])
      have "announced ops (es @ fs) s'" using IH(9) fs'(2) by (auto simp: announced_def)
      moreover have "\<exists>x. readRedoLog RedoActionWrite s' = Some (Redo_range x (last (ps @ i # q1)))" using IH(8) r by (auto split: if_splits)
      ultimately show ?thesis
        using IH r fs'(2)
        by (intro exI [of _ "ps @ i # q1"] exI [of _ q2] exI [of _ "(es @ [e]) @ ea"] exI [of _ eb]) (auto simp: foldl_append)
    qed
  next
    case False
    then have rest: "consume_loop ops order io bs is a docs1 s = Failed s'" using Cons.prems(1) by (simp add: data(1) add)
    from Cons.IH [OF rest Cons.prems(2) p1 ps fs'(1) ok ch Cons.prems(8)] show ?thesis using fs'(2) range Cons.prems(10) by simp
  qed
qed simp

text \<open>
  What a pass that stops early leaves: the entries up to \<open>m\<close> are applied and recorded, the others
  are still in the log and applied at most in part.
\<close>

definition stopped :: "('w, 'l) IndexShard \<Rightarrow> entry list \<Rightarrow> u64 \<Rightarrow> ('w, 'l) IndexShard \<Rightarrow> bool" where
  "stopped s es lastID s' \<longleftrightarrow> (\<exists>m ea eb. committed s' = Some m \<and> m < lastID \<and> lastID - m \<le> MaxBatchSize \<and> es = ea @ eb \<and>
     decode_all ops (sd_wal s') (consume_range m lastID) = Some eb \<and> agree eb (conts s') (foldl (exec_entry build) (conts s) ea) \<and>
     sd_wal s' = so_Sync ops (sd_wal s) \<and> redo_wf (sd_redo s') \<and> announced ops es s')"

lemma stopped_intro:
  assumes "consume_range minID lastID = p1 @ p2" and "p2 \<noteq> []" and "minID < lastID" and "lastID - minID \<le> MaxBatchSize"
    and "decode_all ops (so_Sync ops (sd_wal s)) p2 = Some eb" and "es = ea @ eb" and "agree eb (conts s') (foldl (exec_entry build) (conts s) ea)"
    and "sd_wal s' = so_Sync ops (sd_wal s)" and "redo_wf (sd_redo s')" and "committed s = Some minID" and "announced ops es s'"
    and "if p1 = [] then readRedoLog RedoActionWrite s' = readRedoLog RedoActionWrite (s\<lparr>sd_wal := so_Sync ops (sd_wal s)\<rparr>)
       else \<exists>x. readRedoLog RedoActionWrite s' = Some (Redo_range x (last p1))"
  shows "stopped s es lastID s'"
proof (cases "p1 = []")
  case True
  then have "committed s' = Some minID" using assms(10,12) by (simp add: committed_def readRedoLog_def)
  then show ?thesis using assms True unfolding stopped_def by (intro exI [of _ minID] exI [of _ ea] exI [of _ eb]) simp
next
  case False
  then have "committed s' = Some (last p1)" using assms(12) by (auto simp: committed_def)
  moreover note consume_range_rest [OF assms(3,4,1) False assms(2)]
  ultimately show ?thesis using assms False unfolding stopped_def by (intro exI [of _ "last p1"] exI [of _ ea] exI [of _ eb]) simp
qed

lemma ConsumeWAL_stopped:
  assumes "order_ok order" and "io_ok io" and "redo_wf (sd_redo s)" and "committed s = Some minID"
    and "so_LastIndex ops (so_Sync ops (sd_wal s)) = Some lastID" and "minID < lastID" and "lastID - minID \<le> MaxBatchSize"
    and "decode_all ops (so_Sync ops (sd_wal s)) (consume_range minID lastID) = Some es" and "batch_ok es" and "\<forall>e \<in> set es. change_ok e"
    and "sd_writers s \<noteq> []" and "ConsumeWAL ops order io bs maxSize s = Done False s'"
  shows "stopped s es lastID s'"
proof -
  let ?s = "s\<lparr>sd_wal := so_Sync ops (sd_wal s)\<rparr>"
  let ?max = "last (minID # consume_range minID lastID)"
  obtain r where r: "readRedoLog RedoActionWrite ?s = Some r" "r \<noteq> Redo_bad" "minID = (case r of Redo_range _ m \<Rightarrow> m | _ \<Rightarrow> 0)"
    using assms(4) by (auto simp: committed_def readRedoLog_def split: option.splits redo_read.splits)
  have pre: "redo_wf (sd_redo ?s)" "pending [] []" "decode_all ops (sd_wal ?s) [] = Some []"
    "decode_all ops (sd_wal ?s) (consume_range minID lastID) = Some es" "batch_ok ([] @ es)" "\<forall>e \<in> set ([] @ es). change_ok e" "sd_writers ?s \<noteq> []"
    using assms by (simp_all add: pending_def of_shard_def)
  have range: "[] @ consume_range minID lastID = [] \<or> [] @ consume_range minID lastID = ids_from (minID + 1) lastID"
    using assms(7) by (simp add: consume_range_def linorder_not_less [symmetric])
  have max: "?max = lastID" using consume_range_last [OF assms(6)] assms(7) by (simp add: linorder_not_less [symmetric])
  have com: "committed ?s = Some (minID + 1 - 1)" using assms(4) by simp
  have cs: "conts ?s = conts s" by (simp add: conts_def)
  consider (loop) "consume_loop ops order io bs (consume_range minID lastID) (minID + 1) [] ?s = Failed s'"
    | (final) a docs s1 where "consume_loop ops order io bs (consume_range minID lastID) (minID + 1) [] ?s = Done (a, docs) s1"
        "0 < MaxShardLen docs" "write_range ops order io a ?max docs s1 = Failed s'"
    using assms(5,6,12) r
    by (cases r) (auto simp: ConsumeWAL_def Let_def split: outcome.splits prod.splits bool.splits if_splits)
  then show ?thesis
  proof cases
    case loop
    from consume_loop_partial [OF assms(1,2) loop pre range com]
    obtain p1 p2 ea eb where "consume_range minID lastID = p1 @ p2" "p2 \<noteq> []" "decode_all ops (sd_wal ?s) p2 = Some eb" "es = ea @ eb"
      "agree eb (conts s') (foldl (exec_entry build) (conts s) ea)" "sd_wal s' = sd_wal ?s" "redo_wf (sd_redo s')"
      "if p1 = [] then readRedoLog RedoActionWrite s' = readRedoLog RedoActionWrite ?s
       else \<exists>x. readRedoLog RedoActionWrite s' = Some (Redo_range x (last p1))" "announced ops es s'"
      unfolding append_Nil cs by blast
    then show ?thesis using assms(4,6,7) by (intro stopped_intro [of minID lastID p1 p2 s eb es ea]) simp_all
  next
    case final
    from consume_loop_effect [OF assms(1) final(1) pre(1,2,3,4,5,7) range com]
    obtain p1 p2 ea eb where l: "consume_range minID lastID = p1 @ p2" "decode_all ops (sd_wal ?s) p2 = Some eb" "es = ea @ eb" "pending eb docs"
      "conts s1 = foldl (exec_entry build) (conts s) ea" "sd_wal s1 = sd_wal ?s" "redo_wf (sd_redo s1)"
      "if p1 = [] then readRedoLog RedoActionWrite s1 = readRedoLog RedoActionWrite ?s
       else \<exists>x. readRedoLog RedoActionWrite s1 = Some (Redo_range x (last p1))" "p2 = [] \<or> p2 = ids_from a lastID" "committed s1 = Some (a - 1)"
      unfolding append_Nil cs by blast
    have ch: "\<forall>e \<in> set eb. change_ok e" using assms(10) l(3) by simp
    note w = write_range_partial [OF assms(2) l(7,4) ch final(3)]
    have p2: "p2 \<noteq> []" using l(2) pending_Nil [OF l(4)] final(2) by auto
    moreover have "announced ops es s'"
      using w l(2,3,6,9,10) p2 max by (auto simp: announced_def committed_def)
    ultimately show ?thesis using l w assms(4,6,7) by (intro stopped_intro [of minID lastID p1 p2 s eb es ea]) simp_all
  qed
qed

end

section \<open>Opening the shard again\<close>

lemma load_entries_pending:
  "decode_all ops l is = Some fs \<Longrightarrow> pending es docs \<Longrightarrow>
    \<exists>docs'. load_entries ops l is docs = Done docs' () \<and> pending (es @ fs) docs' \<and> fst ` set docs' = fst ` set docs \<union> et_shard ` set fs"
proof (induction "is" arbitrary: es docs fs)
  case (Cons i "is")
  obtain e fs' where e: "decode_at ops l i = Some e" and fs': "decode_all ops l is = Some fs'" "fs = e # fs'"
    using Cons.prems(1) by (auto split: option.splits)
  then obtain data where data: "Option.bind (so_Read ops l i) (so_unmarshal ops) = Some data" "entry_of data = Some e"
    by (auto simp: decode_at_def bind_eq_Some_conv)
  obtain docs1 where add: "AddDocument data docs = Some docs1" and p1: "pending (es @ [e]) docs1"
    and k1: "fst ` set docs1 = insert (et_shard e) (fst ` set docs)"
    using pending_add [OF Cons.prems(2) data(2)] by blast
  from Cons.IH [OF fs'(1) p1] show ?case using k1 fs'(2) by (auto simp: data(1) add)
qed simp

lemma fill_rollback_none:
  "(\<And>i d. build i d \<noteq> None) \<Longrightarrow> (\<And>k d. (k, d) \<in> set ds \<Longrightarrow> hd (wd_actions d) \<noteq> ActionTypeInsert) \<Longrightarrow> fill_rollback build ds b = Some b"
  by (induction build ds b rule: fill_rollback.induct) (fastforce split: option.splits)+

lemma changes_first:
  assumes "\<forall>e \<in> set es. change_ok e" and "(k, d) \<in> set (group_of es)"
  shows "hd (wd_actions d) \<noteq> ActionTypeInsert"
proof -
  have "doc_of k es = Some d" using assms(2) map_of_group group_of_distinct by (metis map_of_is_SomeI)
  then have as: "wd_actions d = map et_action (entries_for k es)" "entries_for k es \<noteq> []" by (auto simp: doc_of_def split: if_splits)
  then have "hd (wd_actions d) \<in> et_action ` set es" by (auto simp: entries_for_def hd_map dest: hd_in_set)
  then show ?thesis using assms(1) by (auto simp: change_ok_def changes_only_def action_defs)
qed

text \<open>What is documented of the log: synchronising and removing entries from the front keep the others.\<close>

locale shard_log = shard_store +
  assumes sync_read: "so_Read ops (so_Sync ops l) j = so_Read ops l j"
    and sync_last: "so_LastIndex ops (so_Sync ops l) = so_LastIndex ops l"
    and truncate_read: "i < j \<Longrightarrow> so_Read ops (snd (so_TruncateFront ops l i)) j = so_Read ops l j"
    and truncate_last: "so_LastIndex ops (snd (so_TruncateFront ops l i)) = so_LastIndex ops l"
begin

text \<open>Rolling changes back leaves the contents as they are.\<close>

lemma rollback_groups:
  assumes "pending es docs" and "\<forall>e \<in> set es. change_ok e" and "sound_ops ops io"
  shows "targets_ok (set gs) s \<Longrightarrow> \<exists>s'. write_groups ops True docs gs s = (True, s') \<and> conts s' = conts s \<and> sd_wal s' = sd_wal s \<and>
    sd_redo s' = sd_redo s \<and> length (sd_writers s') = length (sd_writers s)"
proof (induction gs arbitrary: s)
  case (Cons g gs)
  have t: "targets_ok (set gs) s" "g < GetShardNum s" using Cons.prems by (simp_all add: targets_ok_def)
  have eff: "batch_effect NewBatch c = c" for c :: "'v contents" by (rule ext) (simp add: batch_effect_def NewBatch_def)
  have fill: "fill_rollback build (group_of (of_shard g es)) NewBatch = Some NewBatch"
    using assms(2,3) changes_first [of "of_shard g es"] by (intro fill_rollback_none) (auto simp: of_shard_def sound_ops_def)
  have one: "\<exists>s1. WriteToShardRollback ops g (group_of (of_shard g es)) s = (True, s1) \<and> conts s1 = conts s \<and> sd_wal s1 = sd_wal s \<and>
      sd_redo s1 = sd_redo s \<and> length (sd_writers s1) = length (sd_writers s)"
  proof (cases "0 \<le> g")
    case True
    obtain w' where w': "so_Batch ops (sd_writers s ! nat g) NewBatch = (True, w')"
      using assms(3) by (metis (full_types) prod.collapse sound_ops_def)
    then have "cont w' = cont (sd_writers s ! nat g)" using batch_done eff by fastforce
    then show ?thesis using True t(2) w' fill by (simp add: WriteToShardRollback_def GetWriter_def conts_def map_update_same)
  qed (simp add: WriteToShardRollback_def)
  then obtain s1 where s1: "WriteToShardRollback ops g (group_of (of_shard g es)) s = (True, s1)" "conts s1 = conts s" "sd_wal s1 = sd_wal s"
      "sd_redo s1 = sd_redo s" "length (sd_writers s1) = length (sd_writers s)" by blast
  from pending_at [OF assms(1), of g] show ?case
    using Cons.IH [OF t(1)] Cons.IH [OF targets_same [OF t(1) s1(5)]] s1 by auto
qed simp

lemma reads_kept:
  assumes "\<And>j. j \<in> set is \<Longrightarrow> so_Read ops l j = so_Read ops l' j"
  shows "decode_all ops l is = decode_all ops l' is"
  using assms by (induction "is") (simp_all add: decode_at_def split: option.split)

lemma OpenWAL_changes:
  assumes "sound_ops ops io" and "order_ok order" and "announced ops es (s\<lparr>sd_wal := l, sd_redo := r\<rparr>)" and "\<forall>e \<in> set es. change_ok e"
    and "targets_ok (et_shard ` set es) s" and "\<not> sd_open s"
  shows "\<exists>s' m. OpenWAL ops order (Some (l, r)) s = Done () s' \<and> sd_listed s' \<and> conts s' = conts s \<and> sd_redo s' = r \<and>
    length (sd_writers s') = length (sd_writers s) \<and> committed s' = Some m \<and>
    (sd_wal s' = l \<or> sd_wal s' = snd (so_TruncateFront ops l m))"
proof -
  let ?s = "s\<lparr>sd_wal := l, sd_redo := r, sd_open := True\<rparr>"
  obtain x y fs where x: "readRedoLog RedoActionRead ?s = Some (Redo_range x y)" "committed ?s = Some (x - 1)"
    "decode_all ops l (ids_from x y) = Some fs" "set fs \<subseteq> set es"
    using assms(3) by (auto simp: announced_def committed_def readRedoLog_def)
  then obtain w where w: "readRedoLog RedoActionWrite ?s = Some w" "w \<noteq> Redo_bad" by (auto simp: committed_def split: option.splits redo_read.splits)
  obtain docs where docs: "load_entries ops l (ids_from x y) [] = Done docs ()" "pending fs docs" "fst ` set docs = et_shard ` set fs"
    using load_entries_pending [OF x(3), of "[]" "[]"] by (auto simp: pending_def of_shard_def)
  have "set (order docs) = fst ` set docs" using assms(2) docs(2) unfolding order_ok_def pending_def by blast
  then have t: "targets_ok (set (order docs)) ?s" using assms(5) docs(3) x(4) by (auto simp: targets_ok_def GetShardNum_def)
  have ch: "\<forall>e \<in> set fs. change_ok e" using assms(4) x(4) by auto
  obtain s1 where s1: "write_groups ops True docs (order docs) ?s = (True, s1)" "conts s1 = conts ?s" "sd_wal s1 = l" "sd_redo s1 = r"
    "length (sd_writers s1) = length (sd_writers s)"
    using rollback_groups [OF docs(2) ch assms(1) t] by auto
  have c: "conts ?s = conts s" by (simp add: conts_def)
  have same: "committed s' = Some (x - 1)" if "sd_redo s' = r" for s' :: "('a, 'b) IndexShard"
    using x(2) that by (simp add: committed_def readRedoLog_def)
  show ?thesis
  proof (cases "w = Redo_range x y \<or> (w = Redo_missing \<and> x = 0 \<and> y = 0)")
    case True
    then show ?thesis using x w assms(6) c same by (auto simp: OpenWAL_def Rollback_def conts_def split: redo_read.splits)
  next
    case False
    then have "Rollback ops order ?s = Done () (s1\<lparr>sd_wal := snd (so_TruncateFront ops l (x - 1))\<rparr>)"
      using x w docs s1 by (auto simp: Rollback_def WriteTo_def split: redo_read.splits)
    then show ?thesis using s1 assms(6) c same by (auto simp: OpenWAL_def conts_def)
  qed
qed

text \<open>The numbers after \<open>m\<close> are read as before.\<close>

lemma reads_after:
  assumes "m < lastID" and "l' = l \<or> l' = snd (so_TruncateFront ops l m)"
  shows "decode_all ops (so_Sync ops l') (consume_range m lastID) = decode_all ops l (consume_range m lastID)"
proof (rule reads_kept)
  fix j
  assume "j \<in> set (consume_range m lastID)"
  then obtain n where n: "j = of_nat n" "unat (m + 1) \<le> n" "n \<le> unat (last (consume_range m lastID))"
    using consume_range_last [OF assms(1)] by (auto simp: consume_range_def ids_from_def simp del: upt_Suc)
  have "unat (m + 1) = Suc (unat m)" using assms(1) unat_u64_less [of lastID] by (simp add: word_less_nat_alt unat_word_ariths)
  moreover have "n < 2 ^ 64" using n(3) unat_u64_less le_less_trans by blast
  then have "unat j = n" by (simp add: n(1) unsigned_of_nat take_bit_nat_eq_self)
  ultimately have "m < j" using n(2) by (simp add: word_less_nat_alt)
  then show "so_Read ops (so_Sync ops l') j = so_Read ops l j" using assms(2) truncate_read [of m j l] by (auto simp: sync_read)
qed

lemma restart_recovers:
  assumes "sound_ops ops io" and "order_ok order" and "stopped s es lastID s1" and "so_LastIndex ops (so_Sync ops (sd_wal s)) = Some lastID"
    and "batch_ok es" and "\<forall>e \<in> set es. change_ok e" and "targets_ok (et_shard ` set es) s"
    and "redo_wf r" and "\<And>k. redo_Read r k = redo_Read (sd_redo s1) k"
  shows "\<exists>s2 s3. OpenWAL ops order (Some (sd_wal s1, r)) (s1\<lparr>sd_open := False\<rparr>) = Done () s2 \<and>
    ConsumeWAL ops order io bs maxSize s2 = Done True s3 \<and>
    conts s3 \<in> {foldl (exec_entry build) (conts s) es, foldl (exec_entry build) (conts s) es @ [\<lambda>_. {#}]} \<and> committed s3 = Some lastID"
proof -
  obtain m ea eb where m: "committed s1 = Some m" "m < lastID" "lastID - m \<le> MaxBatchSize" "es = ea @ eb"
    "decode_all ops (sd_wal s1) (consume_range m lastID) = Some eb" "agree eb (conts s1) (foldl (exec_entry build) (conts s) ea)"
    "sd_wal s1 = so_Sync ops (sd_wal s)" "announced ops es s1"
    using assms(3) unfolding stopped_def by blast
  have ne: "conts s \<noteq> []" using assms(7) by (simp add: targets_ok_def conts_def)
  have len: "length (conts s1) = length (conts s)" using m(6) fold_exec_length [OF ne] by (simp add: agree_def)
  then have t1: "targets_ok (et_shard ` set es) (s1\<lparr>sd_open := False\<rparr>)" using targets_same [OF assms(7), of "s1\<lparr>sd_open := False\<rparr>"] by (simp add: conts_def)
  have rd: "readRedoLog k s' = readRedoLog k s1" if "sd_redo s' = r" for k and s' :: "('a, 'b) IndexShard" using that assms(9) by (simp add: readRedoLog_def)
  have "announced ops es (s1\<lparr>sd_open := False, sd_wal := sd_wal s1, sd_redo := r\<rparr>)"
    using m(8) rd [of "s1\<lparr>sd_open := False, sd_wal := sd_wal s1, sd_redo := r\<rparr>"] by (auto simp: announced_def committed_def)
  from OpenWAL_changes [OF assms(1,2) this assms(6) t1]
  obtain s2 m' where s2: "OpenWAL ops order (Some (sd_wal s1, r)) (s1\<lparr>sd_open := False\<rparr>) = Done () s2" "conts s2 = conts s1" "sd_redo s2 = r"
    "length (sd_writers s2) = length (sd_writers s1)" "committed s2 = Some m'" "sd_wal s2 = sd_wal s1 \<or> sd_wal s2 = snd (so_TruncateFront ops (sd_wal s1) m')"
    by (auto simp: conts_def)
  have com: "committed s2 = Some m" using m(1) rd [OF s2(3)] by (simp add: committed_def)
  have dec: "decode_all ops (so_Sync ops (sd_wal s2)) (consume_range m lastID) = Some eb"
    using reads_after [OF m(2), of "sd_wal s2" "sd_wal s1"] s2(5,6) com m(5) by auto
  have last: "so_LastIndex ops (so_Sync ops (sd_wal s2)) = Some lastID" using s2(6) assms(4) m(7) sync_last truncate_last by auto
  have ok: "batch_ok eb" "\<forall>e \<in> set eb. change_ok e" using batch_ok_append [of ea eb] assms(5,6) unfolding m(4) by auto
  have "et_shard ` set eb \<subseteq> et_shard ` set es" unfolding m(4) by auto
  moreover have "targets_ok (et_shard ` set es) s2" using targets_same [OF t1, of s2] s2(4) by simp
  ultimately have t2: "targets_ok (et_shard ` set eb) s2" by (rule targets_mono [rotated])
  have wf: "redo_wf (sd_redo s2)" using assms(8) s2(3) by simp
  from ConsumeWAL_total [OF assms(1,2) wf t2 com last m(2) dec ok(1)]
  obtain s3 where s3: "ConsumeWAL ops order io bs maxSize s2 = Done True s3" by blast
  have ne2: "sd_writers s2 \<noteq> []" using t2 by (simp add: targets_ok_def)
  note e = ConsumeWAL_effect [OF assms(2) wf com last m(2) dec ok(1) ne2 s3]
  have "foldl (exec_entry build) (conts s2) eb = foldl (exec_entry build) (conts s) es"
    using fold_exec_agree [OF ok(2) m(6), of build] ne2 s2(2) m(4) len ne by (metis foldl_append length_0_conv)
  moreover have "last (consume_range m lastID) = lastID" using consume_range_last [OF m(2)] m(3) by (simp add: linorder_not_less [symmetric])
  ultimately show ?thesis using s2(1) s3 e by auto
qed

end

end
