(* ===== verification/Shard_Reference.thy ===== *)
theory Shard_Reference
  imports Shard_Restart
begin

text \<open>
  What the shard's write path guarantees, stated for every index and log library with the
  documented behaviour, and a reference library that shows that the statements apply: a writer is
  the list of its documents, a log the list of its numbered entries.
\<close>

section \<open>A reference library\<close>

text \<open>How a batch ends: taken, refused, or taken without the caller hearing of it.\<close>

datatype verdict = Taken | Refused | Unconfirmed

type_synonym ref_writer = "(string \<times> object) list"
type_synonym ref_wal = "(u64 \<times> bytes) list"

definition put_batch :: "ref_writer \<Rightarrow> object Batch \<Rightarrow> ref_writer" where
  "put_batch w b = filter (\<lambda>(i, _). i \<notin> set (ba_ids b)) w @ ba_docs b"

definition ref_ops :: "(ref_writer \<Rightarrow> verdict) \<Rightarrow> (bytes \<Rightarrow> object option) \<Rightarrow> (ref_writer, ref_wal, object) shard_ops" where
  "ref_ops verdict unmarshal =
     \<lparr>so_Batch = (\<lambda>w b. case verdict w of Taken \<Rightarrow> (True, put_batch w b) | Refused \<Rightarrow> (False, w) | Unconfirmed \<Rightarrow> (False, put_batch w b)),
      so_Sync = (\<lambda>l. l),
      so_LastIndex = (\<lambda>l. Some (foldr max (map fst l) 0)),
      so_Read = map_of,
      so_TruncateFront = (\<lambda>l i. if i \<in> fst ` set l then (True, filter (\<lambda>(j, _). i \<le> j) l) else (False, l)),
      so_unmarshal = unmarshal,
      so_build = (\<lambda>_ d. Some d),
      so_size = length,
      so_openWriter = (\<lambda>_. Some [])\<rparr>"

definition ref_cont :: "ref_writer \<Rightarrow> object contents" where
  "ref_cont w i = mset (map snd (filter (\<lambda>p. fst p = i) w))"

lemma put_batch_cont: "ref_cont (put_batch w b) = batch_effect b (ref_cont w)"
proof (rule ext)
  fix x
  have "filter (\<lambda>p. fst p = x) (filter (\<lambda>(i, _). i \<notin> set (ba_ids b)) w) = (if x \<in> set (ba_ids b) then [] else filter (\<lambda>p. fst p = x) w)"
    by (induction w) auto
  then show "ref_cont (put_batch w b) x = batch_effect b (ref_cont w) x" by (simp add: ref_cont_def put_batch_def batch_effect_def)
qed

lemma foldr_max_ge: "x \<in> set xs \<Longrightarrow> x \<le> foldr max xs (0 :: u64)"
  by (induction xs) (auto simp: le_max_iff_disj)

lemma foldr_max_filter:
  assumes "i \<in> set xs"
  shows "foldr max (filter (\<lambda>x. i \<le> x) xs) (0 :: u64) = foldr max xs 0"
proof -
  have mem: "foldr max ys (0 :: u64) \<in> insert 0 (set ys)" for ys by (induction ys) (auto simp: max_def)
  have "foldr max (filter (\<lambda>x. i \<le> x) xs) 0 \<le> foldr max xs (0 :: u64)" by (induction xs) (auto simp: le_max_iff_disj max_def)
  moreover have "foldr max xs 0 \<le> foldr max (filter (\<lambda>x. i \<le> x) xs) (0 :: u64)"
  proof (cases "foldr max xs 0 \<in> set xs")
    case True
    moreover have "i \<le> foldr max xs 0" by (rule foldr_max_ge [OF assms])
    ultimately show ?thesis by (intro foldr_max_ge) simp
  qed (use mem [of xs] in auto)
  ultimately show ?thesis by simp
qed

interpretation ref_library: shard_log "ref_ops verdict unmarshal" ref_cont
proof
  fix w b w'
  show "so_Batch (ref_ops verdict unmarshal) w b = (True, w') \<Longrightarrow> ref_cont w' = batch_effect b (ref_cont w)"
    by (auto simp: ref_ops_def put_batch_cont split: verdict.splits)
  show "so_Batch (ref_ops verdict unmarshal) w b = (False, w') \<Longrightarrow> ref_cont w' = ref_cont w \<or> ref_cont w' = batch_effect b (ref_cont w)"
    by (auto simp: ref_ops_def put_batch_cont split: verdict.splits)
next
  fix k w
  show "so_openWriter (ref_ops verdict unmarshal) k = Some w \<Longrightarrow> ref_cont w = (\<lambda>_. {#})" by (auto simp: ref_ops_def ref_cont_def)
next
  fix l :: ref_wal and i j :: u64
  show "so_Read (ref_ops verdict unmarshal) (so_Sync (ref_ops verdict unmarshal) l) j = so_Read (ref_ops verdict unmarshal) l j"
    "so_LastIndex (ref_ops verdict unmarshal) (so_Sync (ref_ops verdict unmarshal) l) = so_LastIndex (ref_ops verdict unmarshal) l"
    by (simp_all add: ref_ops_def)
  show "i < j \<Longrightarrow> so_Read (ref_ops verdict unmarshal) (snd (so_TruncateFront (ref_ops verdict unmarshal) l i)) j = so_Read (ref_ops verdict unmarshal) l j"
  proof -
    assume "i < j"
    then have "map_of (filter (\<lambda>(k, _). i \<le> k) l) j = map_of l j" by (induction l) auto
    then show ?thesis by (simp add: ref_ops_def)
  qed
  have "map fst (filter (\<lambda>(j, _). i \<le> j) l) = filter (\<lambda>x. i \<le> x) (map fst l)" by (induction l) auto
  then show "so_LastIndex (ref_ops verdict unmarshal) (snd (so_TruncateFront (ref_ops verdict unmarshal) l i)) = so_LastIndex (ref_ops verdict unmarshal) l"
    using foldr_max_filter [of i "map fst l"] by (simp add: ref_ops_def)
qed

lemma ref_sound: "io_ok io \<Longrightarrow> sound_ops (ref_ops (\<lambda>_. Taken) unmarshal) io"
  by (simp add: sound_ops_def io_ok_def ref_ops_def)

section \<open>A pass\<close>


text \<open>A shard with given second-layer shards and a log with given entries.\<close>

definition ex_doc :: "string \<Rightarrow> string \<Rightarrow> string \<Rightarrow> string \<Rightarrow> object" where
  "ex_doc action i shard v = [(''@_action'', JStr action), (''@_id'', JStr i), (''@_shard'', JNum shard), (''v'', JStr v)]"

definition ex_unmarshal :: "bytes \<Rightarrow> object option" where
  "ex_unmarshal = map_of
     [(''1'', ex_doc ''update'' ''a'' ''-2'' ''new''), (''2'', ex_doc ''insert'' ''b'' ''-1'' ''b''), (''3'', ex_doc ''delete'' ''a'' ''0'' ''x'')]"

definition ex_shard :: "ref_writer list \<Rightarrow> bytes list \<Rightarrow> (ref_writer, ref_wal) IndexShard" where
  "ex_shard ws l = \<lparr>sd_writers = ws, sd_wal = zip (map of_nat [1..<Suc (length l)]) l, sd_redo = empty_log, sd_open = True, sd_listed = True\<rparr>"

definition ex_io :: redo_io where
  "ex_io = \<lparr>ri_short = None, ri_sync = True\<rparr>"

definition in_order :: "walMergeDocs \<Rightarrow> int list" where
  "in_order w = map fst w"

lemma in_order_ok: "order_ok in_order" and rev_order_ok: "order_ok (\<lambda>w. rev (in_order w))"
  by (simp_all add: order_ok_def in_order_def)

lemma ex_shard_redo: "redo_wf (sd_redo (ex_shard ws l))"
  by (simp add: ex_shard_def empty_log_wf)

lemma ex_committed: "committed (ex_shard ws l) = Some 0"
  by (simp add: ex_shard_def committed_def readRedoLog_def redo_Read_def empty_log_def)

definition ex_update :: entry where
  "ex_update = \<lparr>et_shard = -2, et_id = ''a'', et_action = ''update'', et_data = ex_doc ''update'' ''a'' ''-2'' ''new''\<rparr>"

lemma ex_numbers:
  "as_int (Some (JNum ''-2'')) = Some (-2)" "as_int (Some (JNum ''-1'')) = Some (-1)" "as_int (Some (JNum ''0'')) = Some 0"
  by (simp_all add: parse_int_def ParseUint_def char_digit_def Let_def)

lemma ex_update_entry: "entry_of (ex_doc ''update'' ''a'' ''-2'' ''new'') = Some ex_update"
  by (simp add: entry_of_def ex_doc_def ex_update_def ex_numbers del: as_int.simps)

lemma ex_range: "consume_range 0 1 = [1]"
  by (simp add: consume_range_def ids_from_def MaxBatchSize_def)

lemma ex_update_read: "so_unmarshal (ref_ops verdict ex_unmarshal) ''1'' = Some (ex_doc ''update'' ''a'' ''-2'' ''new'')"
  by (simp add: ref_ops_def ex_unmarshal_def)

lemma ex_shard_wal:
  "so_Sync (ref_ops verdict ex_unmarshal) l = l" "so_Read (ref_ops verdict ex_unmarshal) (sd_wal (ex_shard ws [''1''])) 1 = Some ''1''"
  "so_LastIndex (ref_ops verdict ex_unmarshal) (sd_wal (ex_shard ws [''1''])) = Some 1"
  by (simp_all add: ref_ops_def ex_shard_def)

lemma ex_update_decodes:
  "decode_all (ref_ops verdict ex_unmarshal) (so_Sync (ref_ops verdict ex_unmarshal) (sd_wal (ex_shard ws [''1'']))) (consume_range 0 1) = Some [ex_update]"
  by (simp add: ex_range decode_at_def ex_shard_wal ex_update_read ex_update_entry)

lemma ex_update_ok: "batch_ok [ex_update]" "\<forall>e \<in> set [ex_update]. change_ok e"
  by (simp_all add: batch_ok_def separate_def group_ok_def of_shard_def changes_only_def change_ok_def ex_update_def action_defs ShardIDNeedLatest_def)


section \<open>A pass that is interrupted\<close>

lemma stopped_transfer:
  assumes "shard_store ops cont" and "shard_store ops2 cont"
    and "so_Sync ops2 = so_Sync ops" and "so_Read ops2 = so_Read ops" and "so_unmarshal ops2 = so_unmarshal ops" and "so_build ops2 = so_build ops"
    and "shard_store.stopped ops cont s es lastID s1"
  shows "shard_store.stopped ops2 cont s es lastID s1"
proof -
  have "decode_all ops2 l is = decode_all ops l is" for l "is"
    using assms(4,5) by (induction "is") (simp_all add: decode_at_def split: option.split)
  then show ?thesis
    using assms(3,6,7) by (simp add: shard_store.stopped_def [OF assms(1)] shard_store.stopped_def [OF assms(2)] announced_def
        shard_store.conts_def [OF assms(1)] shard_store.conts_def [OF assms(2)])
qed


text \<open>The second writer refuses its batch: the old document is still in the first shard, the new one in the last.\<close>

definition ex_refuse :: "ref_writer \<Rightarrow> verdict" where
  "ex_refuse w = (if w = [] then Taken else Refused)"

lemma ex_interrupted:
  "\<exists>s1. ConsumeWAL (ref_ops ex_refuse ex_unmarshal) in_order ex_io 100 1000 (ex_shard [[(''a'', [])], []] [''1'']) = Done False s1 \<and>
     redo_wf (sd_redo s1) \<and> sd_writers s1 = [[(''a'', [])], [(''a'', ex_doc ''update'' ''a'' ''-2'' ''new'')]]"
proof -
  let ?ops = "ref_ops ex_refuse ex_unmarshal" and ?s = "ex_shard [[(''a'', [])], []] [''1'']"
  let ?data = "ex_doc ''update'' ''a'' ''-2'' ''new''"
  let ?docs = "[(-2, [(''a'', \<lparr>wd_docID = ''a'', wd_actions = [''update''], wd_data = ?data\<rparr>)])]"
  have io: "io_ok ex_io" by (simp add: io_ok_def ex_io_def)
  obtain s1 where s1: "writeRedoLog ex_io RedoActionRead 1 1 ?s = Some (True, s1)" "sd_writers s1 = sd_writers ?s"
    using writeRedoLog_total [OF io ex_shard_redo] by blast
  have sync: "?s\<lparr>sd_wal := so_Sync ?ops (sd_wal ?s)\<rparr> = ?s" by (simp add: ex_shard_wal)
  have redo: "readRedoLog RedoActionWrite ?s = Some Redo_missing" by (simp add: readRedoLog_def redo_Read_def ex_shard_def empty_log_def)
  have add: "AddDocument ?data [] = Some ?docs"
    by (simp add: AddDocument_entry ex_update_entry) (simp add: ex_update_def add_to_group_def Let_def)
  have loop: "consume_loop ?ops in_order ex_io 100 [1] 1 [] ?s = Done (1, ?docs) ?s"
    by (simp add: ex_shard_wal ex_update_read add MaxShardLen_def)
  have ws: "WriteToShard ?ops (-2) [(''a'', \<lparr>wd_docID = ''a'', wd_actions = [''update''], wd_data = ?data\<rparr>)] s1 =
      (False, s1\<lparr>sd_writers := [[(''a'', [])], [(''a'', ?data)]]\<rparr>)"
    using s1(2)
    by (simp add: WriteToShard_def ShardIDNeedLatest_def Let_def ref_ops_def merge_actions_def action_defs add_merged_def batch_defs
        ex_shard_def ex_refuse_def put_batch_def)
  then have "write_range ?ops in_order ex_io 1 1 ?docs ?s = Failed (s1\<lparr>sd_writers := [[(''a'', [])], [(''a'', ?data)]]\<rparr>)"
    using s1(1) by (simp add: write_range_def WriteTo_def in_order_def)
  moreover have "0 < MaxShardLen ?docs" by (simp add: MaxShardLen_def)
  ultimately have "ConsumeWAL ?ops in_order ex_io 100 1000 ?s = Done False (s1\<lparr>sd_writers := [[(''a'', [])], [(''a'', ?data)]]\<rparr>)"
    using loop redo by (simp add: ConsumeWAL_def Let_def sync ex_shard_wal ex_range)
  then show ?thesis using writeRedoLog_done [OF ex_shard_redo s1(1)] by auto
qed


section \<open>Where a pass is not the log in order\<close>

text \<open>
  The order of the map of groups is visible: a document is deleted (the delete names the shard
  the document is in) and written again (an update names all shards) in one batch. When the group of
  the update is written first, the delete removes the document that was written after it.
\<close>
theorem WriteTo_map_order:
  "\<exists>docs. load_entries (ref_ops (\<lambda>_. Taken) ex_unmarshal) [(1, ''3''), (2, ''1'')] [1, 2] [] = Done docs () \<and>
     sd_writers (snd (snd (WriteTo (ref_ops (\<lambda>_. Taken) ex_unmarshal) in_order False docs (ex_shard [[(''a'', [])]] [])))) =
       [[(''a'', ex_doc ''update'' ''a'' ''-2'' ''new'')]] \<and>
     sd_writers (snd (snd (WriteTo (ref_ops (\<lambda>_. Taken) ex_unmarshal) (\<lambda>w. rev (in_order w)) False docs (ex_shard [[(''a'', [])]] [])))) = [[]]"
proof -
  let ?ops = "ref_ops (\<lambda>_. Taken) ex_unmarshal"
  let ?u = "ex_doc ''update'' ''a'' ''-2'' ''new''" and ?d = "ex_doc ''delete'' ''a'' ''0'' ''x''"
  let ?docs = "[(0, [(''a'', \<lparr>wd_docID = ''a'', wd_actions = [''delete''], wd_data = ?d\<rparr>)]),
    (-2, [(''a'', \<lparr>wd_docID = ''a'', wd_actions = [''update''], wd_data = ?u\<rparr>)])]"
  have e: "entry_of ?d = Some \<lparr>et_shard = 0, et_id = ''a'', et_action = ''delete'', et_data = ?d\<rparr>"
    by (simp add: entry_of_def ex_doc_def ex_numbers del: as_int.simps)
  have "load_entries ?ops [(1, ''3''), (2, ''1'')] [1, 2] [] = Done ?docs ()"
    by (simp add: ref_ops_def ex_unmarshal_def AddDocument_entry e ex_update_entry) (simp add: ex_update_def add_to_group_def Let_def)
  then show ?thesis
    by (intro exI [of _ ?docs] conjI)
       (simp_all add: WriteTo_def in_order_def WriteToShard_def ShardIDNeedLatest_def GetWriter_def GetShardNum_def Let_def ref_ops_def
         merge_actions_def action_defs add_merged_def batch_defs ex_shard_def put_batch_def)
qed

lemma rollback_shard_open: "WriteToShardRollback ops k docs s = (ok, s') \<Longrightarrow> sd_open s' = sd_open s \<and> sd_listed s' = sd_listed s"
  by (auto simp: WriteToShardRollback_def split: option.splits prod.splits if_splits)

lemma rollback_groups_open: "write_groups ops True w ks s = (ok, s') \<Longrightarrow> sd_open s' = sd_open s \<and> sd_listed s' = sd_listed s"
proof (induction ks arbitrary: s)
  case (Cons k ks)
  show ?case
  proof (cases "map_of w k")
    case None
    then show ?thesis using Cons by simp
  next
    case (Some docs)
    obtain o1 s1 where s1: "WriteToShardRollback ops k docs s = (o1, s1)" by (cases "WriteToShardRollback ops k docs s")
    then show ?thesis using Cons Some rollback_shard_open [OF s1] by (cases o1) auto
  qed
qed simp

lemma Rollback_keeps_open: "Rollback ops order s = Failed s' \<Longrightarrow> sd_open s' = sd_open s \<and> sd_listed s' = sd_listed s"
  by (auto simp: Rollback_def WriteTo_def dest: rollback_groups_open
      split: option.splits redo_read.splits if_splits outcome.splits prod.splits bool.splits)

text \<open>
  When opening a shard fails in its rollback, the shard is nevertheless marked as open: every
  later attempt returns success without rolling back, and the shard is still not in the list of the
  shards whose log is consumed.
\<close>
theorem OpenWAL_failed_once:
  assumes "OpenWAL ops order (Some (l, r)) s = Failed s'" and "\<not> sd_listed s"
  shows "OpenWAL ops order open_wal s' = Done () s' \<and> \<not> sd_listed s'"
proof -
  have "\<not> sd_open s" "Rollback ops order (s\<lparr>sd_wal := l, sd_redo := r, sd_open := True\<rparr>) = Failed s'"
    using assms(1) by (auto simp: OpenWAL_def split: if_splits outcome.splits)
  from Rollback_keeps_open [OF this(2)] show ?thesis using assms(2) by (simp add: OpenWAL_def)
qed

text \<open>A redo log that announces entry 5 of an empty log.\<close>

definition ex_redo :: Log where
  "ex_redo = \<lparr>rl_index = [1 \<mapsto> 8], rl_data = LE_Put 1 @ LE_Put 3 @ ''5:5'' @ replicate 61 (CHR 0x00), rl_file = [], rl_NoSync = False\<rparr>"

lemma FormatUint_5: "FormatUint 5 = ''5''"
  by code_simp

lemma ex_redo_read: "redo_Read ex_redo 1 = Some (Inr ''5:5'')" "redo_Read ex_redo 2 = Some (Inl RedoNotFound)"
  by (simp_all add: redo_Read_def ex_redo_def Let_def)

theorem OpenWAL_failed_once_witness:
  "\<exists>s'. OpenWAL (ref_ops (\<lambda>_. Taken) ex_unmarshal) in_order (Some ([], ex_redo)) ((ex_shard [[]] [])\<lparr>sd_open := False, sd_listed := False\<rparr>) = Failed s' \<and>
     OpenWAL (ref_ops (\<lambda>_. Taken) ex_unmarshal) in_order (Some ([], ex_redo)) s' = Done () s' \<and> \<not> sd_listed s'"
proof -
  let ?ops = "ref_ops (\<lambda>_. Taken) ex_unmarshal" and ?s = "(ex_shard [[]] [])\<lparr>sd_open := False, sd_listed := False\<rparr>"
  let ?s1 = "?s\<lparr>sd_wal := [], sd_redo := ex_redo, sd_open := True\<rparr>"
  have p: "parseRedoLog ''5:5'' = Redo_range 5 5"
    using parse_redo_value [of 5 5] by (simp add: redo_value_def FormatUint_5)
  have "ids_from (5 :: u64) 5 = [5]" by (simp add: ids_from_def)
  then have "Rollback ?ops in_order ?s1 = Failed ?s1"
    by (simp add: Rollback_def readRedoLog_def RedoActionRead_def RedoActionWrite_def ex_redo_read p) (simp add: ref_ops_def)
  then have f: "OpenWAL ?ops in_order (Some ([], ex_redo)) ?s = Failed ?s1" by (simp add: OpenWAL_def)
  then show ?thesis using OpenWAL_failed_once [OF f] by (auto simp: ex_shard_def)
qed

text \<open>A pass over one new document whose batch is taken, before it is recorded.\<close>

definition ex_insert :: entry where
  "ex_insert = \<lparr>et_shard = -1, et_id = ''b'', et_action = ''insert'', et_data = ex_doc ''insert'' ''b'' ''-1'' ''b''\<rparr>"

lemma ex_insert_entry: "entry_of (ex_doc ''insert'' ''b'' ''-1'' ''b'') = Some ex_insert"
  by (simp add: entry_of_def ex_doc_def ex_insert_def ex_numbers del: as_int.simps)

lemma ex_insert_log:
  "so_Read (ref_ops verdict ex_unmarshal) (sd_wal (ex_shard ws [''2''])) 1 = Some ''2''"
  "so_unmarshal (ref_ops verdict ex_unmarshal) ''2'' = Some (ex_doc ''insert'' ''b'' ''-1'' ''b'')"
  "so_LastIndex (ref_ops verdict ex_unmarshal) (sd_wal (ex_shard ws [''2''])) = Some 1"
  "so_TruncateFront (ref_ops verdict ex_unmarshal) (sd_wal (ex_shard ws [''2''])) 0 = (False, sd_wal (ex_shard ws [''2'']))"
  by (simp_all add: ref_ops_def ex_shard_def ex_unmarshal_def)

lemma ex_insert_add:
  "AddDocument (ex_doc ''insert'' ''b'' ''-1'' ''b'') [] =
     Some [(-1, [(''b'', \<lparr>wd_docID = ''b'', wd_actions = [''insert''], wd_data = ex_doc ''insert'' ''b'' ''-1'' ''b''\<rparr>)])]"
  by (simp add: AddDocument_entry ex_insert_entry) (simp add: ex_insert_def add_to_group_def Let_def)

lemma ex_insert_interrupted:
  "\<exists>s1. ConsumeWAL (ref_ops (\<lambda>_. Unconfirmed) ex_unmarshal) in_order ex_io 100 1000 (ex_shard [[]] [''2'']) = Done False s1 \<and>
     redo_wf (sd_redo s1) \<and> sd_writers s1 = [[(''b'', ex_doc ''insert'' ''b'' ''-1'' ''b'')]] \<and> sd_wal s1 = sd_wal (ex_shard [[]] [''2'']) \<and>
     readRedoLog RedoActionRead s1 = Some (Redo_range 1 1) \<and> readRedoLog RedoActionWrite s1 = Some Redo_missing"
proof -
  let ?ops = "ref_ops (\<lambda>_. Unconfirmed) ex_unmarshal" and ?s = "ex_shard [[]] [''2'']"
  let ?data = "ex_doc ''insert'' ''b'' ''-1'' ''b''"
  let ?docs = "[(-1, [(''b'', \<lparr>wd_docID = ''b'', wd_actions = [''insert''], wd_data = ?data\<rparr>)])]"
  have io: "io_ok ex_io" by (simp add: io_ok_def ex_io_def)
  obtain s1 where s1: "writeRedoLog ex_io RedoActionRead 1 1 ?s = Some (True, s1)"
    using writeRedoLog_total [OF io ex_shard_redo] by blast
  note d = writeRedoLog_done [OF ex_shard_redo s1]
  have sync: "?s\<lparr>sd_wal := so_Sync ?ops (sd_wal ?s)\<rparr> = ?s" by (simp add: ex_shard_wal)
  have redo: "readRedoLog RedoActionWrite ?s = Some Redo_missing" by (simp add: readRedoLog_def redo_Read_def ex_shard_def empty_log_def)
  have loop: "consume_loop ?ops in_order ex_io 100 [1] 1 [] ?s = Done (1, ?docs) ?s"
    by (simp add: ex_insert_log ex_insert_add MaxShardLen_def)
  have "WriteToShard ?ops (-1) [(''b'', \<lparr>wd_docID = ''b'', wd_actions = [''insert''], wd_data = ?data\<rparr>)] s1 =
      (False, s1\<lparr>sd_writers := [[(''b'', ?data)]]\<rparr>)"
    using d
    by (simp add: WriteToShard_def ShardIDNeedLatest_def GetLatestShardID_def GetWriter_def GetShardNum_def Let_def ref_ops_def merge_actions_def
        action_defs add_merged_def batch_defs ex_shard_def put_batch_def)
  then have "write_range ?ops in_order ex_io 1 1 ?docs ?s = Failed (s1\<lparr>sd_writers := [[(''b'', ?data)]]\<rparr>)"
    using s1 by (simp add: write_range_def WriteTo_def in_order_def)
  moreover have "0 < MaxShardLen ?docs" by (simp add: MaxShardLen_def)
  ultimately have "ConsumeWAL ?ops in_order ex_io 100 1000 ?s = Done False (s1\<lparr>sd_writers := [[(''b'', ?data)]]\<rparr>)"
    using loop redo by (simp add: ConsumeWAL_def Let_def sync ex_insert_log ex_shard_wal(1) ex_range)
  then show ?thesis using d redo by (auto simp: readRedoLog_def RedoActionRead_def RedoActionWrite_def)
qed

text \<open>
  The rollback does not undo new documents: they have the shard ID \<open>ShardIDNeedLatest\<close>, which is
  negative, and the rollback skips every negative shard ID. A new document whose batch was taken but
  not recorded when the process stopped is in the index twice after the restart and the next pass.
\<close>
theorem rollback_keeps_inserts:
  "\<exists>s1 s2 s3. ConsumeWAL (ref_ops (\<lambda>_. Unconfirmed) ex_unmarshal) in_order ex_io 100 1000 (ex_shard [[]] [''2'']) = Done False s1 \<and>
     OpenWAL (ref_ops (\<lambda>_. Taken) ex_unmarshal) in_order (Some (sd_wal s1, sd_redo s1)) (s1\<lparr>sd_open := False\<rparr>) = Done () s2 \<and>
     ConsumeWAL (ref_ops (\<lambda>_. Taken) ex_unmarshal) in_order ex_io 100 1000 s2 = Done True s3 \<and>
     ref_cont (sd_writers s3 ! 0) ''b'' = {#ex_doc ''insert'' ''b'' ''-1'' ''b'', ex_doc ''insert'' ''b'' ''-1'' ''b''#}"
proof -
  let ?ops = "ref_ops (\<lambda>_. Taken) ex_unmarshal" and ?data = "ex_doc ''insert'' ''b'' ''-1'' ''b''"
  obtain s1 where s1: "ConsumeWAL (ref_ops (\<lambda>_. Unconfirmed) ex_unmarshal) in_order ex_io 100 1000 (ex_shard [[]] [''2'']) = Done False s1"
    "redo_wf (sd_redo s1)" "sd_writers s1 = [[(''b'', ?data)]]" "sd_wal s1 = sd_wal (ex_shard [[]] [''2''])"
    "readRedoLog RedoActionRead s1 = Some (Redo_range 1 1)" "readRedoLog RedoActionWrite s1 = Some Redo_missing"
    using ex_insert_interrupted by blast
  define s2 where "s2 = s1\<lparr>sd_open := True, sd_listed := True\<rparr>"
  have rd: "readRedoLog k (s1\<lparr>sd_open := b\<rparr>) = readRedoLog k s1" for k b by (simp add: readRedoLog_def)
  have ids: "ids_from 1 1 = [1]" by (simp add: ids_from_def)
  have "Rollback ?ops in_order (s1\<lparr>sd_open := True\<rparr>) = Done () (s1\<lparr>sd_open := True\<rparr>)"
    using s1(4-6) by (simp add: Rollback_def rd ids ex_insert_log ex_insert_add WriteTo_def in_order_def WriteToShardRollback_def)
  then have o: "OpenWAL ?ops in_order (Some (sd_wal s1, sd_redo s1)) (s1\<lparr>sd_open := False\<rparr>) = Done () s2" by (simp add: OpenWAL_def s2_def)
  have ok: "batch_ok [ex_insert]"
    by (simp add: batch_ok_def separate_def group_ok_def of_shard_def ex_insert_def action_defs ShardIDNeedLatest_def)
  have pre: "sound_ops ?ops ex_io" "redo_wf (sd_redo s2)" "targets_ok (et_shard ` set [ex_insert]) s2" "committed s2 = Some 0"
    "so_LastIndex ?ops (so_Sync ?ops (sd_wal s2)) = Some 1" "(0 :: u64) < 1"
    "decode_all ?ops (so_Sync ?ops (sd_wal s2)) (consume_range 0 1) = Some [ex_insert]"
    using s1 by (simp_all add: s2_def ref_sound io_ok_def ex_io_def targets_ok_def ex_insert_def GetShardNum_def committed_def readRedoLog_def
        ex_insert_log ex_shard_wal(1) ex_range decode_at_def ex_insert_entry [unfolded ex_insert_def])
  have ne: "sd_writers s2 \<noteq> []" using s1(3) by (simp add: s2_def)
  obtain s3 where s3: "ConsumeWAL ?ops in_order ex_io 100 1000 s2 = Done True s3"
    using ref_library.ConsumeWAL_total [OF pre(1) in_order_ok pre(2-7) ok] by blast
  from ref_library.ConsumeWAL_effect [OF in_order_ok pre(2,4,5,6,7) ok ne s3]
  have "map ref_cont (sd_writers s3) ! 0 = exec_one ''insert'' ''b'' ?data (ref_cont [(''b'', ?data)])"
    using s1(3) by (auto simp: ref_library.conts_def s2_def exec_entry_def ex_insert_def ShardIDNeedLatest_def Let_def ref_ops_def)
  moreover have "sd_writers s3 \<noteq> []"
    using ref_library.ConsumeWAL_effect [OF in_order_ok pre(2,4,5,6,7) ok ne s3] s1(3)
    by (auto simp: ref_library.conts_def s2_def exec_entry_def ex_insert_def ShardIDNeedLatest_def Let_def)
  ultimately have "ref_cont (sd_writers s3 ! 0) ''b'' = {#?data, ?data#}"
    by (simp add: exec_one_def action_defs ref_cont_def)
  then show ?thesis using s1(1) o s3 by blast
qed

end
