(* ===== verification/Stream_Consumer.thy ===== *)
theory Stream_Consumer
  imports Wire
begin

text \<open>
  The consumer of the replication stream on a node (\<open>consumer.go\<close>, \<open>offset.go\<close> and
  \<open>service.go\<close> of \<open>pkg/streaming\<close>). The node (its data, its saved offset and whatever makes an
  operation fail) is a value of a type \<open>'n\<close>; applying, flushing, loading and saving are the
  functions of \<open>stream_ops\<close>. What JetStream answers is given to the operations as arguments.
\<close>

section \<open>Configuration\<close>

record stream_config =
  sc_URL :: string
  sc_Stream :: string
  sc_Subject :: string
  sc_Consumer :: string
  sc_Batch :: int
  sc_FetchWait :: int
  sc_Retry :: int
  sc_AllowGap :: bool

definition Config_prepare :: "stream_config \<Rightarrow> stream_config option" where
  "Config_prepare c =
     (if sc_URL c = [] \<or> sc_Stream c = [] \<or> sc_Consumer c = [] then None
      else Some (c\<lparr>sc_Batch := if sc_Batch c \<le> 0 then 256 else sc_Batch c,
                   sc_FetchWait := if sc_FetchWait c \<le> 0 then 1000000000 else sc_FetchWait c,
                   sc_Retry := if sc_Retry c \<le> 0 then 1000000000 else sc_Retry c\<rparr>))"

section \<open>The consumer\<close>

datatype stream_error =
    EStream | EInfo | EGap u64 u64 | EAhead u64 u64 | EDelete | ECreate
  | EFetch | EMetadata | ECancelled | EFlush | ESave | ESkip u64 | EApply u64

record ('d, 'n) stream_ops =
  sp_unmarshal :: "bytes \<Rightarrow> 'd Message option"
  sp_Apply :: "u64 \<Rightarrow> 'd Message \<Rightarrow> 'n \<Rightarrow> wire_error option \<times> 'n"
  sp_Flush :: "'n \<Rightarrow> bool \<times> 'n"
  sp_Load :: "'n \<Rightarrow> u64 option"
  sp_Save :: "u64 \<Rightarrow> 'n \<Rightarrow> bool \<times> 'n"

record Consumer =
  co_applied :: u64
  co_streamLast :: u64
  co_total :: u64
  co_skipped :: u64
  co_paused :: bool
  co_parked :: bool
  co_running :: bool
  co_lastErr :: "stream_error option"

text \<open>What the server says of the stream.\<close>

record StreamState =
  ss_FirstSeq :: u64
  ss_LastSeq :: u64
  ss_Msgs :: u64

definition checkGap :: "stream_config \<Rightarrow> u64 \<Rightarrow> StreamState \<Rightarrow> stream_error + u64" where
  "checkGap cfg applied info =
     (let need = applied + 1;
          first = (if ss_Msgs info = 0 then ss_LastSeq info + 1 else ss_FirstSeq info)
      in if first \<le> need then Inr need
         else if \<not> sc_AllowGap cfg then Inl (EGap need first)
         else Inr first)"

text \<open>
  \<open>prepare\<close> with the answers of the server: the state of the stream (\<open>None\<close>: the stream or its
  state cannot be read), and whether deleting and creating the cursor succeed. The result is the
  sequence at which the new cursor delivers first.
\<close>

definition prepare :: "stream_config \<Rightarrow> StreamState option \<Rightarrow> bool \<Rightarrow> bool \<Rightarrow> Consumer \<Rightarrow> (stream_error + u64) \<times> Consumer" where
  "prepare cfg info deleted created c =
     (case info of
        None \<Rightarrow> (Inl EInfo, c)
      | Some i \<Rightarrow>
          (let c1 = c\<lparr>co_streamLast := ss_LastSeq i\<rparr> in
           case checkGap cfg (co_applied c1) i of
             Inl err \<Rightarrow> (Inl err, c1)
           | Inr need \<Rightarrow>
               if ss_LastSeq i + 1 < need then (Inl (EAhead need (ss_LastSeq i)), c1)
               else if \<not> deleted then (Inl EDelete, c1)
               else if \<not> created then (Inl ECreate, c1)
               else (Inr (if 1 < need then need else 1), c1)))"

text \<open>
  \<open>applyOne\<close>: \<open>alive\<close> is how many times the consumer sleeps and tries again before it is stopped.
  An error of \<open>Decode\<close> is always permanent.
\<close>

fun apply_loop :: "('d, 'n) stream_ops \<Rightarrow> u64 \<Rightarrow> 'd Message \<Rightarrow> nat \<Rightarrow> Consumer \<Rightarrow> 'n \<Rightarrow> bool \<times> Consumer \<times> 'n" where
  "apply_loop ops seq msg alive c n =
     (case sp_Apply ops seq msg n of
        (None, n') \<Rightarrow> (True, c\<lparr>co_total := co_total c + 1\<rparr>, n')
      | (Some err, n') \<Rightarrow>
          if IsPermanent err then (True, c\<lparr>co_skipped := co_skipped c + 1, co_lastErr := Some (ESkip seq)\<rparr>, n')
          else (let c' = c\<lparr>co_lastErr := Some (EApply seq)\<rparr> in
                case alive of 0 \<Rightarrow> (False, c', n') | Suc k \<Rightarrow> apply_loop ops seq msg k c' n'))"

declare apply_loop.simps [simp del]

definition applyOne :: "('d, 'n) stream_ops \<Rightarrow> u64 \<Rightarrow> bytes \<Rightarrow> nat \<Rightarrow> Consumer \<Rightarrow> 'n \<Rightarrow> bool \<times> Consumer \<times> 'n" where
  "applyOne ops seq data alive c n =
     (case Decode (sp_unmarshal ops) data of
        Inl _ \<Rightarrow> (True, c\<lparr>co_skipped := co_skipped c + 1, co_lastErr := Some (ESkip seq)\<rparr>, n)
      | Inr msg \<Rightarrow> apply_loop ops seq msg alive c n)"

text \<open>A delivered message: its stream sequence, when the metadata can be read, and its body.\<close>

type_synonym delivered = "u64 option \<times> bytes"

fun apply_msgs ::
  "('d, 'n) stream_ops \<Rightarrow> (u64 \<Rightarrow> nat) \<Rightarrow> delivered list \<Rightarrow> u64 \<Rightarrow> Consumer \<Rightarrow> 'n \<Rightarrow> u64 \<times> stream_error option \<times> Consumer \<times> 'n" where
  "apply_msgs ops alive [] latest c n = (latest, None, c, n)"
| "apply_msgs ops alive ((None, _) # ms) latest c n = (latest, Some EMetadata, c, n)"
| "apply_msgs ops alive ((Some seq, data) # ms) latest c n =
     (if seq \<le> latest then apply_msgs ops alive ms latest c n
      else case applyOne ops seq data (alive seq) c n of
        (False, c', n') \<Rightarrow> (latest, Some ECancelled, c', n')
      | (True, c', n') \<Rightarrow> apply_msgs ops alive ms seq c' n')"

text \<open>
  \<open>step\<close>: \<open>fetched\<close> is the batch (\<open>None\<close>: the fetch failed) with the error the batch ended with,
  \<open>info\<close> the state of the stream in case it is asked for. The result has the sequences that are
  acknowledged.
\<close>

definition step ::
  "('d, 'n) stream_ops \<Rightarrow> stream_config \<Rightarrow> (delivered list \<times> bool) option \<Rightarrow> StreamState option \<Rightarrow> (u64 \<Rightarrow> nat) \<Rightarrow>
   Consumer \<Rightarrow> 'n \<Rightarrow> (stream_error option \<times> u64 list) \<times> Consumer \<times> 'n" where
  "step ops cfg fetched info alive c n =
     (case fetched of
        None \<Rightarrow> ((Some EFetch, []), c, n)
      | Some (msgs, broken) \<Rightarrow>
          if broken then ((Some EFetch, []), c, n)
          else if msgs = [] then ((None, []), c, n)
          else
            (let applied = co_applied c;
                 gap = (case fst (hd msgs) of
                          Some seq \<Rightarrow>
                            if applied + 1 < seq then
                              (case info of
                                 None \<Rightarrow> Some EInfo
                               | Some i \<Rightarrow> (case checkGap cfg applied i of Inl err \<Rightarrow> Some err | Inr _ \<Rightarrow> None))
                            else None
                        | None \<Rightarrow> None)
             in case gap of
                  Some err \<Rightarrow> ((Some err, []), c, n)
                | None \<Rightarrow>
                    (case apply_msgs ops alive msgs applied c n of
                       (latest, err, c1, n1) \<Rightarrow>
                         if \<not> applied < latest then ((err, []), c1, n1)
                         else (case sp_Flush ops n1 of
                                 (False, n2) \<Rightarrow> ((Some EFlush, []), c1, n2)
                               | (True, n2) \<Rightarrow>
                                   (case sp_Save ops latest n2 of
                                      (False, n3) \<Rightarrow> ((Some ESave, []), c1, n3)
                                    | (True, n3) \<Rightarrow>
                                        ((err, [seq. (Some seq, _) \<leftarrow> msgs, seq \<le> latest]), c1\<lparr>co_applied := latest\<rparr>, n3))))))"

section \<open>What a batch does\<close>

text \<open>The counters of the consumer are all that applying changes of it.\<close>

abbreviation (input) flags :: "Consumer \<Rightarrow> u64 \<times> bool \<times> bool \<times> bool" where
  "flags c \<equiv> (co_applied c, co_paused c, co_parked c, co_running c)"

lemma apply_loop_flags: "apply_loop ops seq msg alive c n = (ok, c', n') \<Longrightarrow> flags c' = flags c"
proof (induction alive arbitrary: c n)
  case 0
  then show ?case by (auto simp: apply_loop.simps [of _ _ _ 0] Let_def split: prod.splits option.splits if_splits)
next
  case (Suc k)
  then show ?case by (fastforce simp: apply_loop.simps [of _ _ _ "Suc k"] Let_def split: prod.splits option.splits if_splits)
qed

lemma applyOne_flags: "applyOne ops seq data alive c n = (ok, c', n') \<Longrightarrow> flags c' = flags c"
  by (auto simp: applyOne_def split: sum.splits dest: apply_loop_flags)

lemma apply_msgs_flags: "apply_msgs ops alive ms k c n = (k', err, c', n') \<Longrightarrow> flags c' = flags c"
proof (induction ms arbitrary: k c n)
  case (Cons p ms)
  obtain sq data where p: "p = (sq, data)" by (cases p)
  show ?case
  proof (cases "\<exists>s. sq = Some s \<and> \<not> s \<le> k")
    case True
    then obtain s where s: "sq = Some s" "\<not> s \<le> k" by blast
    obtain ok c1 n1 where one: "applyOne ops s data (alive s) c n = (ok, c1, n1)" by (cases "applyOne ops s data (alive s) c n")
    show ?thesis using Cons.prems Cons.IH [of s c1 n1] one s applyOne_flags [OF one] by (cases ok) (simp_all add: p)
  next
    case False
    then show ?thesis using Cons by (cases sq) (auto simp: p)
  qed
qed auto

text \<open>The messages of a batch that are new after position \<open>k\<close>; an unreadable message ends the batch.\<close>

fun fresh :: "u64 \<Rightarrow> delivered list \<Rightarrow> (u64 \<times> bytes) list" where
  "fresh k [] = []"
| "fresh k ((None, _) # ms) = []"
| "fresh k ((Some seq, data) # ms) = (if seq \<le> k then fresh k ms else (seq, data) # fresh seq ms)"

lemma fresh_ascending: "sorted_wrt (<) (map fst (fresh k ms)) \<and> (\<forall>s \<in> fst ` set (fresh k ms). k < s)"
  by (induction k ms rule: fresh.induct) (auto, metis fst_conv less_trans not_le)

text \<open>What is applied of a batch is an initial part of its new messages, each of them settled.\<close>

lemma apply_msgs_done:
  "apply_msgs ops alive msgs k c n = (k', err, c', n') \<Longrightarrow>
    \<exists>xs ys. fresh k msgs = xs @ ys \<and> k' = (if xs = [] then k else fst (last xs)) \<and> (\<forall>(s, d) \<in> set xs. \<exists>alive c n. fst (applyOne ops s d alive c n))"
proof (induction msgs arbitrary: k c n)
  case (Cons p msgs)
  obtain sq data where p: "p = (sq, data)" by (cases p)
  show ?case
  proof (cases "\<exists>s. sq = Some s \<and> \<not> s \<le> k")
    case True
    then obtain s where s: "sq = Some s" "\<not> s \<le> k" by blast
    obtain ok c1 n1 where one: "applyOne ops s data (alive s) c n = (ok, c1, n1)" by (cases "applyOne ops s data (alive s) c n")
    show ?thesis
    proof (cases ok)
      case False
      then show ?thesis using Cons.prems s one by (intro exI [of _ "[]"] exI [of _ "fresh k (p # msgs)"]) (simp add: p)
    next
      case ok: True
      then have "apply_msgs ops alive msgs s c1 n1 = (k', err, c', n')" using Cons.prems s one by (simp add: p)
      from Cons.IH [OF this] obtain xs ys where xs: "fresh s msgs = xs @ ys" "k' = (if xs = [] then s else fst (last xs))"
          "\<forall>(s, d) \<in> set xs. \<exists>alive c n. fst (applyOne ops s d alive c n)" by blast
      have "fst (applyOne ops s data (alive s) c n)" using one ok by simp
      then have "\<forall>(s, d) \<in> set ((s, data) # xs). \<exists>alive c n. fst (applyOne ops s d alive c n)" using xs(3) by auto
      then show ?thesis using xs(1,2) s by (intro exI [of _ "(s, data) # xs"] exI [of _ ys]) (simp add: p)
    qed
  next
    case False
    then show ?thesis using Cons by (cases sq) (auto simp: p intro!: exI [of _ "[]"])
  qed
qed auto

text \<open>The history of the stream, before and after a position.\<close>

definition upto_seq :: "(u64 \<times> bytes) list \<Rightarrow> u64 \<Rightarrow> (u64 \<times> bytes) list" where
  "upto_seq hist k = filter (\<lambda>(s, _). s \<le> k) hist"

definition after_seq :: "(u64 \<times> bytes) list \<Rightarrow> u64 \<Rightarrow> (u64 \<times> bytes) list" where
  "after_seq hist k = filter (\<lambda>(s, _). k < s) hist"

lemma hist_split: "sorted_wrt (<) (map fst hist) \<Longrightarrow> hist = upto_seq hist k @ after_seq hist k"
proof (induction hist)
  case (Cons p hist)
  obtain s b where p: "p = (s, b)" by (cases p)
  show ?case
  proof (cases "s \<le> k")
    case True
    then show ?thesis using Cons by (simp add: p upto_seq_def after_seq_def)
  next
    case False
    then have "\<forall>q \<in> set hist. k < fst q" using Cons.prems p by auto
    then have "filter (\<lambda>(s, _). s \<le> k) hist = []" "filter (\<lambda>(s, _). k < s) hist = hist"
      by (auto simp: filter_empty_conv filter_id_conv)
    then show ?thesis using False by (simp add: p upto_seq_def after_seq_def)
  qed
qed (simp add: upto_seq_def after_seq_def)

lemma filter_upto: "\<forall>p \<in> set xs. fst p \<le> (k :: u64) \<Longrightarrow> filter (\<lambda>(s, _). s \<le> k) xs = xs \<and> filter (\<lambda>(s, _). k < s) xs = []"
  by (induction xs) auto

lemma filter_after: "\<forall>p \<in> set xs. (k :: u64) < fst p \<Longrightarrow> filter (\<lambda>(s, _). s \<le> k) xs = [] \<and> filter (\<lambda>(s, _). k < s) xs = xs"
  by (induction xs) auto

lemma hist_advance:
  assumes "sorted_wrt (<) (map fst hist)" and "after_seq hist k = xs @ ys" and "xs \<noteq> []"
  shows "upto_seq hist (fst (last xs)) = upto_seq hist k @ xs" and "after_seq hist (fst (last xs)) = ys"
proof -
  let ?k = "fst (last xs)"
  have h: "hist = upto_seq hist k @ xs @ ys" using hist_split [OF assms(1), of k] assms(2) by simp
  have s: "sorted_wrt (<) (map fst (upto_seq hist k @ xs @ ys))" using assms(1) h by simp
  obtain zs z where xs: "xs = zs @ [z]" using assms(3) by (cases xs rule: rev_cases) auto
  have le: "\<forall>p \<in> set (upto_seq hist k @ xs). fst p \<le> ?k" using s xs by (auto simp: sorted_wrt_append intro: less_imp_le)
  have gr: "\<forall>p \<in> set ys. ?k < fst p" using s xs by (auto simp: sorted_wrt_append)
  have "upto_seq hist ?k = filter (\<lambda>(s, _). s \<le> ?k) ((upto_seq hist k @ xs) @ ys)" by (subst upto_seq_def, subst h) simp
  then show "upto_seq hist ?k = upto_seq hist k @ xs" unfolding filter_append [of _ "upto_seq hist k @ xs"] using filter_upto [OF le] filter_after [OF gr] by simp
  have "after_seq hist ?k = filter (\<lambda>(s, _). ?k < s) ((upto_seq hist k @ xs) @ ys)" by (subst after_seq_def, subst h) simp
  then show "after_seq hist ?k = ys" unfolding filter_append [of _ "upto_seq hist k @ xs"] using filter_upto [OF le] filter_after [OF gr] by simp
qed

section \<open>Appliers\<close>

text \<open>
  The contract of an \<open>Applier\<close> with its offset store. \<open>eff seq m\<close> is what message \<open>m\<close> means for the
  data. \<open>left d ms n\<close> says that the node holds the data \<open>d\<close>, except that the messages \<open>ms\<close>, which
  come next, may already have been applied to it in part. \<open>kept d ms n\<close> says the same of what is left
  after a crash. \<open>marked xs ms n\<close> says that the next flush covers the messages \<open>xs\<close>, which were
  applied since the last one, where \<open>ms\<close> come next.
\<close>

locale applier =
  fixes ops :: "('d, 'n) stream_ops"
    and eff :: "u64 \<Rightarrow> 'd Message \<Rightarrow> 'x \<Rightarrow> 'x"
    and left :: "'x \<Rightarrow> (u64 \<times> 'd Message) list \<Rightarrow> 'n \<Rightarrow> bool"
    and kept :: "'x \<Rightarrow> (u64 \<times> 'd Message) list \<Rightarrow> 'n \<Rightarrow> bool"
    and marked :: "(u64 \<times> 'd Message) list \<Rightarrow> (u64 \<times> 'd Message) list \<Rightarrow> 'n \<Rightarrow> bool"
    and crash :: "'n \<Rightarrow> 'n \<Rightarrow> bool"
  assumes apply_done: "sp_Apply ops s m n = (None, n') \<Longrightarrow> left d ((s, m) # ms) n \<Longrightarrow> left (eff s m d) ms n'"
    and apply_skip: "sp_Apply ops s m n = (Some e, n') \<Longrightarrow> IsPermanent e \<Longrightarrow> left d ((s, m) # ms) n \<Longrightarrow> left (eff s m d) ms n'"
    and apply_retry: "sp_Apply ops s m n = (Some e, n') \<Longrightarrow> \<not> IsPermanent e \<Longrightarrow> left d ((s, m) # ms) n \<Longrightarrow> left d ((s, m) # ms) n'"
    and apply_kept: "sp_Apply ops s m n = (r, n') \<Longrightarrow> kept d ms n \<Longrightarrow> (s, m) \<in> set ms \<Longrightarrow> kept d ms n'"
    and mark_nil: "marked [] ms n"
    and mark_done: "sp_Apply ops s m n = (r, n') \<Longrightarrow> (\<forall>e. r = Some e \<longrightarrow> IsPermanent e) \<Longrightarrow> marked xs ((s, m) # ms) n \<Longrightarrow> marked (xs @ [(s, m)]) ms n'"
    and mark_retry: "sp_Apply ops s m n = (Some e, n') \<Longrightarrow> \<not> IsPermanent e \<Longrightarrow> marked xs ((s, m) # ms) n \<Longrightarrow> marked xs ((s, m) # ms) n'"
    and apply_load: "sp_Apply ops s m n = (r, n') \<Longrightarrow> sp_Load ops n' = sp_Load ops n"
    and flush_left: "sp_Flush ops n = (ok, n') \<Longrightarrow> left d ms n \<Longrightarrow> left d ms n'"
    and flush_done: "sp_Flush ops n = (True, n') \<Longrightarrow> marked xs ms n \<Longrightarrow> kept d (xs @ ms) n \<Longrightarrow>
      left (foldl (\<lambda>d (s, m). eff s m d) d xs) ms n \<Longrightarrow> kept (foldl (\<lambda>d (s, m). eff s m d) d xs) ms n'"
    and flush_kept: "sp_Flush ops n = (ok, n') \<Longrightarrow> kept d ms n \<Longrightarrow> left d ms n \<Longrightarrow> kept d ms n'"
    and flush_load: "sp_Flush ops n = (ok, n') \<Longrightarrow> sp_Load ops n' = sp_Load ops n"
    and save_left: "sp_Save ops k n = (ok, n') \<Longrightarrow> left d ms n \<Longrightarrow> left d ms n'"
    and save_kept: "sp_Save ops k n = (ok, n') \<Longrightarrow> kept d ms n \<Longrightarrow> kept d ms n'"
    and save_load: "sp_Save ops k n = (ok, n') \<Longrightarrow> sp_Load ops n' = (if ok then Some k else sp_Load ops n)"
    and crash_left: "crash n n' \<Longrightarrow> kept d ms n \<Longrightarrow> left d ms n' \<and> kept d ms n'"
    and crash_load: "crash n n' \<Longrightarrow> sp_Load ops n' = sp_Load ops n"
    and left_more: "left d ms n \<Longrightarrow> left d (ms @ ms') n"
    and kept_more: "kept d ms n \<Longrightarrow> kept d (ms @ ms') n"
    and left_behind: "left (eff s m d) ms n \<Longrightarrow> left d ((s, m) # ms) n"
    and kept_behind: "kept (eff s m d) ms n \<Longrightarrow> kept d ((s, m) # ms) n"
begin

text \<open>The messages that can be decoded, and the data after a sequence of messages.\<close>

definition decoded :: "(u64 \<times> bytes) list \<Rightarrow> (u64 \<times> 'd Message) list" where
  "decoded ms = [(s, m). (s, data) \<leftarrow> ms, Inr m \<leftarrow> [Decode (sp_unmarshal ops) data]]"

definition run_all :: "(u64 \<times> bytes) list \<Rightarrow> 'x \<Rightarrow> 'x" where
  "run_all ms d = foldl (\<lambda>d (s, m). eff s m d) d (decoded ms)"

lemma decoded_append [simp]: "decoded (xs @ ys) = decoded xs @ decoded ys"
  by (simp add: decoded_def)

lemma run_all_append: "run_all (xs @ ys) d = run_all ys (run_all xs d)"
  by (simp add: run_all_def)

lemma behind_all:
  "left (foldl (\<lambda>d (s, m). eff s m d) d xs) ms n \<Longrightarrow> left d (xs @ ms) n"
  "kept (foldl (\<lambda>d (s, m). eff s m d) d xs) ms n \<Longrightarrow> kept d (xs @ ms) n"
  by (induction xs arbitrary: d) (auto intro: left_behind kept_behind)

lemma apply_settled:
  assumes "sp_Apply ops s m n = (r, n')" and "\<forall>e. r = Some e \<longrightarrow> IsPermanent e" and "left d ((s, m) # ms) n" and "marked xs ((s, m) # ms) n"
  shows "left (eff s m d) ms n' \<and> marked (xs @ [(s, m)]) ms n'"
proof (cases r)
  case None
  then show ?thesis using apply_done [OF _ assms(3)] mark_done [OF assms(1,2,4)] assms(1) by simp
next
  case (Some e)
  then show ?thesis using apply_skip [OF _ _ assms(3)] mark_done [OF assms(1,2,4)] assms(1,2) by simp
qed

lemma apply_loop_effect:
  "apply_loop ops s m alive c n = (ok, c', n') \<Longrightarrow> left d ((s, m) # ms) n \<Longrightarrow> marked xs ((s, m) # ms) n \<Longrightarrow> kept d0 ms0 n \<Longrightarrow> (s, m) \<in> set ms0 \<Longrightarrow>
    (if ok then left (eff s m d) ms n' \<and> marked (xs @ [(s, m)]) ms n' else left d ((s, m) # ms) n' \<and> marked xs ((s, m) # ms) n') \<and>
    kept d0 ms0 n' \<and> sp_Load ops n' = sp_Load ops n"
proof (induction alive arbitrary: c n)
  case 0
  obtain r n1 where r: "sp_Apply ops s m n = (r, n1)" by (cases "sp_Apply ops s m n")
  show ?case
  proof (cases "\<exists>e. r = Some e \<and> \<not> IsPermanent e")
    case True
    then obtain e where e: "r = Some e" "\<not> IsPermanent e" by blast
    have "\<not> ok" "n' = n1" using 0(1) r e by (simp_all add: apply_loop.simps [of _ _ _ 0] Let_def)
    then show ?thesis
      using apply_retry [OF r [unfolded e(1)] e(2) 0(2)] mark_retry [OF r [unfolded e(1)] e(2) 0(3)] apply_kept [OF r 0(4,5)] apply_load [OF r] by simp
  next
    case False
    then have "ok" "n' = n1" using 0(1) r by (cases r; simp add: apply_loop.simps [of _ _ _ 0] Let_def)+
    then show ?thesis using apply_settled [OF r _ 0(2,3)] apply_kept [OF r 0(4,5)] apply_load [OF r] False by simp
  qed
next
  case (Suc k)
  obtain r n1 where r: "sp_Apply ops s m n = (r, n1)" by (cases "sp_Apply ops s m n")
  show ?case
  proof (cases "\<exists>e. r = Some e \<and> \<not> IsPermanent e")
    case True
    then obtain e where e: "r = Some e" "\<not> IsPermanent e" by blast
    have "apply_loop ops s m k (c\<lparr>co_lastErr := Some (EApply s)\<rparr>) n1 = (ok, c', n')"
      using Suc.prems(1) r e by (simp add: apply_loop.simps [of _ _ _ "Suc k"] Let_def)
    from Suc.IH [OF this] show ?thesis
      using apply_retry [OF r [unfolded e(1)] e(2) Suc.prems(2)] mark_retry [OF r [unfolded e(1)] e(2) Suc.prems(3)]
        apply_kept [OF r Suc.prems(4,5)] Suc.prems(5) apply_load [OF r] by simp
  next
    case False
    then have "ok" "n' = n1" using Suc.prems(1) r by (cases r; simp add: apply_loop.simps [of _ _ _ "Suc k"] Let_def)+
    then show ?thesis using apply_settled [OF r _ Suc.prems(2,3)] apply_kept [OF r Suc.prems(4,5)] apply_load [OF r] False by simp
  qed
qed

lemma apply_msgs_effect:
  "apply_msgs ops alive msgs k c n = (k', err, c', n') \<Longrightarrow> left d (decoded (fresh k msgs) @ ms) n \<Longrightarrow> marked zs (decoded (fresh k msgs) @ ms) n \<Longrightarrow>
    kept d0 ms0 n \<Longrightarrow> set (decoded (fresh k msgs)) \<subseteq> set ms0 \<Longrightarrow>
    \<exists>xs ys. fresh k msgs = xs @ ys \<and> k' = (if xs = [] then k else fst (last xs)) \<and> left (run_all xs d) (decoded ys @ ms) n' \<and>
      marked (zs @ decoded xs) (decoded ys @ ms) n' \<and>
      kept d0 ms0 n' \<and> sp_Load ops n' = sp_Load ops n \<and> co_applied c' = co_applied c \<and> (err = None \<longrightarrow> ys = [])"
proof (induction msgs arbitrary: k c n d zs)
  case Nil
  then show ?case by (intro exI [of _ "[]"]) (auto simp: run_all_def decoded_def)
next
  case (Cons p msgs)
  obtain sq data where p: "p = (sq, data)" by (cases p)
  show ?case
  proof (cases sq)
    case None
    then show ?thesis using Cons.prems by (intro exI [of _ "[]"]) (auto simp: p run_all_def decoded_def)
  next
    case (Some s)
    show ?thesis
    proof (cases "s \<le> k")
      case True
      then show ?thesis using Cons.IH [of k c n d zs] Cons.prems by (simp add: p Some)
    next
      case False
      obtain ok c1 n1 where one: "applyOne ops s data (alive s) c n = (ok, c1, n1)" by (cases "applyOne ops s data (alive s) c n")
      let ?m = "decoded [(s, data)]"
      have fr: "fresh k (p # msgs) = (s, data) # fresh s msgs" using False by (simp add: p Some)
      have dec: "decoded (fresh k (p # msgs)) = ?m @ decoded (fresh s msgs)" by (simp add: fr decoded_def)
      have "(if ok then left (run_all [(s, data)] d) (decoded (fresh s msgs) @ ms) n1 \<and> marked (zs @ ?m) (decoded (fresh s msgs) @ ms) n1
          else left d (decoded (fresh k (p # msgs)) @ ms) n1 \<and> marked zs (decoded (fresh k (p # msgs)) @ ms) n1) \<and>
          kept d0 ms0 n1 \<and> sp_Load ops n1 = sp_Load ops n"
      proof (cases "Decode (sp_unmarshal ops) data")
        case (Inl e)
        then have "?m = []" by (simp add: decoded_def)
        then show ?thesis using one Inl Cons.prems(2-4) dec by (auto simp: applyOne_def run_all_def)
      next
        case (Inr m)
        then have m: "?m = [(s, m)]" by (simp add: decoded_def)
        have "apply_loop ops s m (alive s) c n = (ok, c1, n1)" using one Inr by (simp add: applyOne_def)
        from apply_loop_effect [OF this, of d "decoded (fresh s msgs) @ ms" zs d0 ms0] Cons.prems(2-5) dec m show ?thesis
          by (simp add: run_all_def)
      qed
      note eff1 = this
      show ?thesis
      proof (cases ok)
        case True
        then have rest: "apply_msgs ops alive msgs s c1 n1 = (k', err, c', n')" using Cons.prems(1) False one by (simp add: p Some)
        have "set (decoded (fresh s msgs)) \<subseteq> set ms0" using Cons.prems(5) dec by simp
        moreover have "left (run_all [(s, data)] d) (decoded (fresh s msgs) @ ms) n1" "marked (zs @ ?m) (decoded (fresh s msgs) @ ms) n1" "kept d0 ms0 n1"
          using eff1 True by simp_all
        ultimately obtain xs ys where IH: "fresh s msgs = xs @ ys" "k' = (if xs = [] then s else fst (last xs))"
          "left (run_all xs (run_all [(s, data)] d)) (decoded ys @ ms) n'" "marked (zs @ ?m @ decoded xs) (decoded ys @ ms) n'"
          "kept d0 ms0 n'" "sp_Load ops n' = sp_Load ops n1"
          "co_applied c' = co_applied c1" "err = None \<longrightarrow> ys = []"
          using Cons.IH [OF rest, of "run_all [(s, data)] d" "zs @ ?m"] unfolding append_assoc by blast
        have ld: "sp_Load ops n' = sp_Load ops n" using IH(6) eff1 by simp
        have "run_all ((s, data) # xs) d = run_all xs (run_all [(s, data)] d)" "decoded ((s, data) # xs) = ?m @ decoded xs"
          using run_all_append [of "[(s, data)]" xs d] decoded_append [of "[(s, data)]" xs] by simp_all
        then show ?thesis
          using IH(1-5,7,8) ld fr applyOne_flags [OF one] by (intro exI [of _ "(s, data) # xs"] exI [of _ ys]) simp
      next
        case False
        then have "k' = k" "err = Some ECancelled" "c' = c1" "n' = n1" using Cons.prems(1) \<open>\<not> s \<le> k\<close> one by (simp_all add: p Some)
        moreover have "run_all [] d = d" "decoded [] = []" by (simp_all add: run_all_def decoded_def)
        ultimately show ?thesis
          using False eff1 applyOne_flags [OF one] by (intro exI [of _ "[]"] exI [of _ "fresh k (p # msgs)"]) simp
      qed
    qed
  qed
qed

end

end
