(* ===== verification/Stream_Run.thy ===== *)
theory Stream_Run
  imports Stream_Consumer
begin

text \<open>
  The loop of the consumer as a transition system: parking while it is paused, creating the cursor,
  applying batches, being paused and resumed from outside, stopping, and crashing. The invariant of
  the loop is that the node's data and its saved offset belong together.
\<close>

section \<open>The loop\<close>

datatype loop_at = AtTop | AtPark | AtPrepare | AtStep | AtEnd

datatype event = Park | Unpark | Enter | Prepared | Unprepared | Stepped | Pause | Resume | Stop | Crash

record 'n node_state =
  ns_at :: loop_at
  ns_c :: Consumer
  ns_n :: 'n
  ns_cursor :: bool

text \<open>\<open>Start\<close> on a fresh consumer, once the offset is loaded.\<close>

definition started :: "u64 \<Rightarrow> Consumer" where
  "started offset = \<lparr>co_applied = offset, co_streamLast = 0, co_total = 0, co_skipped = 0, co_paused = False, co_parked = False,
     co_running = True, co_lastErr = None\<rparr>"

text \<open>
  What JetStream delivers to a cursor after position \<open>k\<close>, when the stream has been trimmed up to
  \<open>first\<close>: the messages of the history in order, possibly with messages delivered before. The state
  of the stream that is read afterwards shows the trimming. A batch that begins with a message
  delivered before comes from a stream that is not trimmed past the position.
\<close>

definition first_held :: "StreamState \<Rightarrow> u64" where
  "first_held i = (if ss_Msgs i = 0 then ss_LastSeq i + 1 else ss_FirstSeq i)"

definition delivery :: "(u64 \<times> bytes) list \<Rightarrow> u64 \<Rightarrow> u64 \<Rightarrow> delivered list \<Rightarrow> StreamState option \<Rightarrow> bool" where
  "delivery hist k first msgs info \<longleftrightarrow>
     prefix (fresh k msgs) (filter (\<lambda>(s, _). first \<le> s) (after_seq hist k)) \<and>
     (\<forall>i. info = Some i \<longrightarrow> first \<le> first_held i) \<and>
     (first \<le> k + 1 \<or> fresh k msgs = [] \<or> fst (hd msgs) = Some (fst (hd (fresh k msgs))))"

text \<open>
  What the loop notes after a batch: the error, unless the consumer is being stopped, or the end of
  the stream, when it asks for it and gets an answer.
\<close>

definition after_step :: "stream_error option \<Rightarrow> bool \<Rightarrow> u64 option \<Rightarrow> Consumer \<Rightarrow> Consumer" where
  "after_step err cancelled seen c =
     (case err of
        Some _ \<Rightarrow> if cancelled then c else c\<lparr>co_lastErr := err\<rparr>
      | None \<Rightarrow> (case seen of None \<Rightarrow> c | Some q \<Rightarrow> c\<lparr>co_streamLast := q\<rparr>))"

lemma after_step_flags [simp]:
  "co_applied (after_step err cancelled seen c) = co_applied c" "co_paused (after_step err cancelled seen c) = co_paused c"
  "co_parked (after_step err cancelled seen c) = co_parked c" "co_running (after_step err cancelled seen c) = co_running c"
  by (simp_all add: after_step_def split: option.split)

inductive run_step ::
  "('d, 'n) stream_ops \<Rightarrow> stream_config \<Rightarrow> ('n \<Rightarrow> 'n \<Rightarrow> bool) \<Rightarrow> (u64 \<times> bytes) list \<Rightarrow> event \<Rightarrow> 'n node_state \<Rightarrow> 'n node_state \<Rightarrow> bool"
  for ops cfg crash hist where
  park: "ns_at s = AtTop \<Longrightarrow> co_paused (ns_c s) \<Longrightarrow>
    run_step ops cfg crash hist Park s (s\<lparr>ns_at := AtPark, ns_c := (ns_c s)\<lparr>co_parked := True\<rparr>\<rparr>)"
| unpark: "ns_at s = AtPark \<Longrightarrow> \<not> co_paused (ns_c s) \<Longrightarrow>
    run_step ops cfg crash hist Unpark s (s\<lparr>ns_at := AtPrepare, ns_c := (ns_c s)\<lparr>co_parked := False\<rparr>, ns_cursor := False\<rparr>)"
| enter: "ns_at s = AtTop \<Longrightarrow> \<not> co_paused (ns_c s) \<Longrightarrow>
    run_step ops cfg crash hist Enter s
      (s\<lparr>ns_at := if ns_cursor s then AtStep else AtPrepare, ns_c := (ns_c s)\<lparr>co_parked := False\<rparr>\<rparr>)"
| prepared: "ns_at s = AtPrepare \<Longrightarrow> prepare cfg info deleted created (ns_c s) = (Inr start, c') \<Longrightarrow>
    run_step ops cfg crash hist Prepared s (s\<lparr>ns_at := AtStep, ns_c := c', ns_cursor := True\<rparr>)"
| unprepared: "ns_at s = AtPrepare \<Longrightarrow> prepare cfg info deleted created (ns_c s) = (Inl err, c') \<Longrightarrow>
    run_step ops cfg crash hist Unprepared s (s\<lparr>ns_at := AtTop, ns_c := c'\<lparr>co_lastErr := Some err\<rparr>, ns_cursor := False\<rparr>)"
| stepped: "ns_at s = AtStep \<Longrightarrow> (\<And>msgs broken. fetched = Some (msgs, broken) \<Longrightarrow> delivery hist (co_applied (ns_c s)) first msgs info) \<Longrightarrow>
    step ops cfg fetched info alive (ns_c s) (ns_n s) = ((err, acks), c', n') \<Longrightarrow>
    run_step ops cfg crash hist Stepped s
      (s\<lparr>ns_at := AtTop, ns_c := after_step err cancelled seen c', ns_n := n', ns_cursor := (err = None)\<rparr>)"
| pause: "run_step ops cfg crash hist Pause s (s\<lparr>ns_c := (ns_c s)\<lparr>co_paused := True\<rparr>\<rparr>)"
| resume: "run_step ops cfg crash hist Resume s (s\<lparr>ns_c := (ns_c s)\<lparr>co_paused := False\<rparr>\<rparr>)"
| stop: "ns_at s \<in> {AtTop, AtPark} \<Longrightarrow>
    run_step ops cfg crash hist Stop s (s\<lparr>ns_at := AtEnd, ns_c := (ns_c s)\<lparr>co_running := False, co_parked := False\<rparr>\<rparr>)"
| crash: "crash (ns_n s) n' \<Longrightarrow> sp_Load ops n' = Some offset \<Longrightarrow>
    run_step ops cfg crash hist Crash s \<lparr>ns_at = AtTop, ns_c = started offset, ns_n = n', ns_cursor = False\<rparr>"

inductive runs :: "('d, 'n) stream_ops \<Rightarrow> stream_config \<Rightarrow> ('n \<Rightarrow> 'n \<Rightarrow> bool) \<Rightarrow> (u64 \<times> bytes) list \<Rightarrow> event list \<Rightarrow> 'n node_state \<Rightarrow> 'n node_state \<Rightarrow> bool"
  for ops cfg crash hist where
  runs_refl: "runs ops cfg crash hist [] s s"
| runs_step: "runs ops cfg crash hist es s s' \<Longrightarrow> run_step ops cfg crash hist e s' s'' \<Longrightarrow> runs ops cfg crash hist (es @ [e]) s s''"

lemma runs_trans: "runs ops cfg crash hist fs s' s'' \<Longrightarrow> runs ops cfg crash hist es s s' \<Longrightarrow> runs ops cfg crash hist (es @ fs) s s''"
  by (induction rule: runs.induct) (auto simp: append_assoc [symmetric] simp del: append_assoc intro: runs_step)

lemma runs_two: "run_step ops cfg crash hist e s s' \<Longrightarrow> run_step ops cfg crash hist f s' s'' \<Longrightarrow> runs ops cfg crash hist [e, f] s s''"
  using runs_step [OF runs_step [OF runs_refl]] by fastforce

text \<open>One turn of the loop of an unpaused consumer: the cursor is created and a batch applied.\<close>

lemma runs_cycle:
  assumes "\<not> co_paused c" and "\<not> co_parked c" and "prepare cfg pinfo deleted created c = (Inr start, c')"
    and "delivery hist (co_applied c') first msgs info"
    and "step ops cfg (Some (msgs, broken)) info alive c' n = ((err, acks), c'', n')"
  shows "runs ops cfg crash hist [Enter, Prepared, Stepped] \<lparr>ns_at = AtTop, ns_c = c, ns_n = n, ns_cursor = False\<rparr>
    \<lparr>ns_at = AtTop, ns_c = after_step err cancelled seen c'', ns_n = n', ns_cursor = (err = None)\<rparr>"
proof -
  let ?s = "\<lparr>ns_at = AtTop, ns_c = c, ns_n = n, ns_cursor = False\<rparr>"
  let ?s1 = "?s\<lparr>ns_at := AtPrepare, ns_c := c\<rparr>" and ?s2 = "?s\<lparr>ns_at := AtStep, ns_c := c', ns_cursor := True\<rparr>"
  have c: "c\<lparr>co_parked := False\<rparr> = c" using assms(2) by (cases c) simp
  have 1: "run_step ops cfg crash hist Enter ?s ?s1" using run_step.enter [of ?s ops cfg crash hist] assms(1) c by simp
  have 2: "run_step ops cfg crash hist Prepared ?s1 ?s2"
    using run_step.prepared [of ?s1 cfg pinfo deleted created start c' ops crash hist] assms(3) by simp
  have 3: "run_step ops cfg crash hist Stepped ?s2 (?s2\<lparr>ns_at := AtTop, ns_c := after_step err cancelled seen c'', ns_n := n', ns_cursor := (err = None)\<rparr>)"
    using assms(4,5) by (intro run_step.stepped) auto
  show ?thesis using runs_step [OF runs_step [OF runs_step [OF runs_refl 1] 2] 3] by simp
qed

inductive_cases run_stepE: "run_step ops cfg crash hist e s s'"

text \<open>\<open>Pause\<close> returns when the loop is parked or the consumer does not run; \<open>Status\<close> then says \<open>Drained\<close>.\<close>

definition Pause_returns :: "Consumer \<Rightarrow> bool" where
  "Pause_returns c \<longleftrightarrow> \<not> (co_running c \<and> \<not> co_parked c)"

definition Drained :: "Consumer \<Rightarrow> bool" where
  "Drained c \<longleftrightarrow> co_paused c \<and> co_parked c"

section \<open>Data and offset belong together\<close>

lemma step_flags:
  "step ops cfg fetched info alive c n = (r, c', n') \<Longrightarrow> co_paused c' = co_paused c \<and> co_parked c' = co_parked c \<and> co_running c' = co_running c"
  by (auto simp: step_def Let_def split: option.splits prod.splits if_splits bool.splits dest!: apply_msgs_flags)

lemma prepare_flags: "prepare cfg info deleted created c = (r, c') \<Longrightarrow> flags c' = flags c"
  by (auto simp: prepare_def Let_def split: option.splits sum.splits if_splits)

context applier
begin

definition tracks :: "(u64 \<times> bytes) list \<Rightarrow> 'x \<Rightarrow> u64 \<Rightarrow> 'n \<Rightarrow> bool" where
  "tracks hist d k n \<longleftrightarrow> (\<exists>pend. prefix pend (after_seq hist k) \<and> left (run_all (upto_seq hist k) d) (decoded pend) n \<and>
     kept (run_all (upto_seq hist k) d) (decoded pend) n \<and> sp_Load ops n = Some k)"

text \<open>A batch that is not refused continues the history where the node stands.\<close>

lemma delivery_continues:
  assumes "delivery hist k first msgs info" and "\<not> sc_AllowGap cfg"
    and gap: "(case fst (hd msgs) of Some seq \<Rightarrow> if k + 1 < seq then (case info of None \<Rightarrow> Some EInfo
           | Some i \<Rightarrow> (case checkGap cfg k i of Inl err \<Rightarrow> Some err | Inr _ \<Rightarrow> None)) else None | None \<Rightarrow> None) = None"
  shows "prefix (fresh k msgs) (after_seq hist k)"
proof (cases "first \<le> k + 1")
  case True
  have "filter (\<lambda>(s, _). first \<le> s) (after_seq hist k) = after_seq hist k"
  proof (rule filter_True)
    have "first \<le> s" if "k < s" for s using True inc_le [OF that] by (rule order_trans)
    then show "\<forall>x \<in> set (after_seq hist k). case x of (s, _) \<Rightarrow> first \<le> s" by (auto simp: after_seq_def)
  qed
  then show ?thesis using assms(1) by (simp add: delivery_def)
next
  case False
  show ?thesis
  proof (cases "fresh k msgs")
    case (Cons p ms)
    have "prefix (p # ms) (filter (\<lambda>(s, _). first \<le> s) (after_seq hist k))" using assms(1) Cons by (simp add: delivery_def)
    then have "p \<in> set (filter (\<lambda>(s, _). first \<le> s) (after_seq hist k))" by (metis list.set_intros(1) set_mono_prefix subsetD)
    then have p: "first \<le> fst p" by auto
    have hd: "fst (hd msgs) = Some (fst p)" using assms(1) False Cons by (simp add: delivery_def)
    have "k + 1 < fst p" using False p by simp
    with gap hd obtain i where i: "info = Some i" "\<exists>x. checkGap cfg k i = Inr x" by (auto split: option.splits sum.splits)
    moreover have "first \<le> first_held i" using assms(1) i(1) by (simp add: delivery_def)
    ultimately show ?thesis using False assms(2) by (auto simp: checkGap_def first_held_def Let_def split: if_splits)
  qed simp
qed

lemma step_tracks:
  assumes "sorted_wrt (<) (map fst hist)" and "tracks hist d (co_applied c) n" and "\<not> sc_AllowGap cfg"
    and "\<And>msgs broken. fetched = Some (msgs, broken) \<Longrightarrow> delivery hist (co_applied c) first msgs info"
    and "step ops cfg fetched info alive c n = ((err, acks), c', n')"
  shows "tracks hist d (co_applied c') n'"
proof (cases "c' = c \<and> n' = n")
  case False
  let ?k = "co_applied c" and ?d = "run_all (upto_seq hist (co_applied c)) d"
  obtain msgs where msgs: "fetched = Some (msgs, False)" "msgs \<noteq> []"
    and gap: "(case fst (hd msgs) of Some seq \<Rightarrow> if ?k + 1 < seq then (case info of None \<Rightarrow> Some EInfo
           | Some i \<Rightarrow> (case checkGap cfg ?k i of Inl err \<Rightarrow> Some err | Inr _ \<Rightarrow> None)) else None | None \<Rightarrow> None) = None"
    using assms(5) False by (auto simp: step_def Let_def split: option.splits prod.splits if_splits)
  have fr: "prefix (fresh ?k msgs) (after_seq hist ?k)" by (rule delivery_continues [OF assms(4) [OF msgs(1)] assms(3) gap])
  obtain pend where pend: "prefix pend (after_seq hist ?k)" "left ?d (decoded pend) n" "kept ?d (decoded pend) n" "sp_Load ops n = Some ?k"
    using assms(2) by (auto simp: tracks_def)
  obtain full tl where full: "full = fresh ?k msgs @ tl" "prefix full (after_seq hist ?k)" "left ?d (decoded full) n" "kept ?d (decoded full) n"
  proof (cases "prefix pend (fresh ?k msgs)")
    case True
    then obtain zs where "fresh ?k msgs = pend @ zs" by (auto simp: prefix_def)
    then have "left ?d (decoded (fresh ?k msgs)) n" "kept ?d (decoded (fresh ?k msgs)) n" using left_more kept_more pend(2,3) by simp_all
    then show ?thesis using that [of "fresh ?k msgs" "[]"] fr by simp
  next
    case False
    then obtain zs where "pend = fresh ?k msgs @ zs" using prefix_same_cases [OF pend(1) fr] by (auto simp: prefix_def)
    then show ?thesis using that [of pend zs] pend by simp
  qed
  obtain k1 e1 c1 n1 where am: "apply_msgs ops alive msgs ?k c n = (k1, e1, c1, n1)" by (cases "apply_msgs ops alive msgs ?k c n")
  have "left ?d (decoded (fresh ?k msgs) @ decoded tl) n" "set (decoded (fresh ?k msgs)) \<subseteq> set (decoded full)" using full(1,3) by simp_all
  from apply_msgs_effect [OF am this(1) mark_nil full(4) this(2)]
  obtain xs ys where e: "fresh ?k msgs = xs @ ys" "k1 = (if xs = [] then ?k else fst (last xs))" "left (run_all xs ?d) (decoded ys @ decoded tl) n1"
    "kept ?d (decoded full) n1" "sp_Load ops n1 = sp_Load ops n" "co_applied c1 = ?k" "marked (decoded xs) (decoded ys @ decoded tl) n1"
    unfolding append_Nil by blast
  have lf: "left ?d (decoded full) n1" using behind_all(1) [OF e(3) [unfolded run_all_def [of xs]]] full(1) e(1) by simp
  have same: "tracks hist d ?k m" if "left ?d (decoded full) m" "kept ?d (decoded full) m" "sp_Load ops m = sp_Load ops n" for m
    using that full(2) pend(4) by (auto simp: tracks_def)
  show ?thesis
  proof (cases "?k < k1")
    case False
    then have "co_applied c' = ?k" "n' = n1" using assms(5) msgs gap am e(6) by (auto simp: step_def Let_def)
    then show ?thesis using same [OF lf e(4,5)] by simp
  next
    case True
    then have xs: "xs \<noteq> []" "k1 = fst (last xs)" using e(2) by auto
    obtain zs where zs: "after_seq hist ?k = xs @ ys @ tl @ zs" using full(1,2) e(1) by (auto simp: prefix_def)
    note adv = hist_advance [OF assms(1) zs xs(1)]
    obtain o2 n2 where f: "sp_Flush ops n1 = (o2, n2)" by (cases "sp_Flush ops n1")
    show ?thesis
    proof (cases o2)
      case False
      then have "co_applied c' = ?k" "n' = n2" using assms(5) msgs gap am True e(6) f by (auto simp: step_def Let_def)
      then show ?thesis using same [of n2] flush_left [OF f lf] flush_kept [OF f e(4) lf] flush_load [OF f] e(5) by auto
    next
      case o2: True
      have kf: "kept ?d (decoded xs @ decoded ys @ decoded tl) n1" using e(4) full(1) e(1) by simp
      have fd: "left (run_all xs ?d) (decoded ys @ decoded tl) n2" "kept (run_all xs ?d) (decoded ys @ decoded tl) n2"
        using flush_left [OF f e(3)] flush_done [OF f [simplified o2] e(7) kf] e(3) by (simp_all add: run_all_def)
      obtain o3 n3 where s: "sp_Save ops k1 n2 = (o3, n3)" by (cases "sp_Save ops k1 n2")
      have l3: "left (run_all xs ?d) (decoded ys @ decoded tl) n3" "kept (run_all xs ?d) (decoded ys @ decoded tl) n3"
        using fd save_left [OF s] save_kept [OF s] by blast+
      have ld: "sp_Load ops n3 = (if o3 then Some k1 else sp_Load ops n)" using save_load [OF s] flush_load [OF f] e(5) by simp
      show ?thesis
      proof (cases o3)
        case False
        then have "co_applied c' = ?k" "n' = n3" using assms(5) msgs gap am True e(6) f o2 s by (auto simp: step_def Let_def)
        moreover have "left ?d (decoded full) n3" "kept ?d (decoded full) n3"
          using behind_all l3 full(1) e(1) by (simp_all add: run_all_def)
        ultimately show ?thesis using same [of n3] ld False by simp
      next
        case o3: True
        then have "co_applied c' = k1" "n' = n3" using assms(5) msgs gap am True e(6) f o2 s by (auto simp: step_def Let_def)
        moreover have "run_all (upto_seq hist k1) d = run_all xs ?d" using adv(1) xs(2) by (simp add: run_all_append)
        moreover have "prefix (ys @ tl) (after_seq hist k1)" using adv(2) xs(2) by (simp add: prefix_def)
        ultimately show ?thesis using l3 ld o3 by (auto simp: tracks_def intro!: exI [of _ "ys @ tl"])
      qed
    qed
  qed
qed (use assms(2) in simp)

lemma run_step_tracks:
  assumes "sorted_wrt (<) (map fst hist)" and "\<not> sc_AllowGap cfg" and "run_step ops cfg crash hist e s s'"
    and "tracks hist d (co_applied (ns_c s)) (ns_n s)"
  shows "tracks hist d (co_applied (ns_c s')) (ns_n s')"
  using assms(3)
proof cases
  case (stepped fetched first info alive err acks c' n' cancelled seen)
  from step_tracks [OF assms(1,4,2) stepped(4,5)] show ?thesis using stepped(2) by simp
next
  case (crash n' offset)
  then show ?thesis using assms(4) crash_left [OF crash(3)] crash_load [OF crash(3)] by (auto simp: tracks_def started_def)
qed (use assms(4) in \<open>auto dest!: prepare_flags\<close>)

lemma runs_tracks:
  assumes "sorted_wrt (<) (map fst hist)" and "\<not> sc_AllowGap cfg"
  shows "runs ops cfg crash hist es s s' \<Longrightarrow> tracks hist d (co_applied (ns_c s)) (ns_n s) \<Longrightarrow> tracks hist d (co_applied (ns_c s')) (ns_n s')"
  by (induction rule: runs.induct) (auto intro: run_step_tracks [OF assms])

text \<open>A message that can never be settled: the offset stays before it.\<close>

lemma step_stuck:
  assumes "sorted_wrt (<) (map fst hist)" and "\<not> sc_AllowGap cfg" and "(q, data) \<in> set hist"
    and "\<And>alive c n. \<not> fst (applyOne ops q data alive c n)"
    and "\<And>msgs broken. fetched = Some (msgs, broken) \<Longrightarrow> delivery hist (co_applied c) first msgs info"
    and "step ops cfg fetched info alive c n = ((err, acks), c', n')" and "co_applied c < q"
  shows "co_applied c' < q"
proof (cases "co_applied c' = co_applied c")
  case False
  let ?k = "co_applied c"
  obtain msgs where msgs: "fetched = Some (msgs, False)" "msgs \<noteq> []"
    and gap: "(case fst (hd msgs) of Some seq \<Rightarrow> if ?k + 1 < seq then (case info of None \<Rightarrow> Some EInfo
           | Some i \<Rightarrow> (case checkGap cfg ?k i of Inl err \<Rightarrow> Some err | Inr _ \<Rightarrow> None)) else None | None \<Rightarrow> None) = None"
    using assms(6) False by (auto simp: step_def Let_def split: option.splits prod.splits if_splits)
  have fr: "prefix (fresh ?k msgs) (after_seq hist ?k)" by (rule delivery_continues [OF assms(5) [OF msgs(1)] assms(2) gap])
  obtain k1 e1 c1 n1 where am: "apply_msgs ops alive msgs ?k c n = (k1, e1, c1, n1)" by (cases "apply_msgs ops alive msgs ?k c n")
  have c': "co_applied c' = k1"
    using assms(6) msgs gap am apply_msgs_flags [OF am] False by (auto simp: step_def Let_def split: if_splits prod.splits bool.splits)
  obtain xs ys where xs: "fresh ?k msgs = xs @ ys" "k1 = (if xs = [] then ?k else fst (last xs))"
      "\<forall>(s, d) \<in> set xs. \<exists>alive c n. fst (applyOne ops s d alive c n)"
    using apply_msgs_done [OF am] by blast
  obtain zs where zs: "after_seq hist ?k = xs @ zs" using fr xs(1) by (auto simp: prefix_def)
  have "(q, data) \<in> set (after_seq hist ?k)" using assms(3,7) by (simp add: after_seq_def)
  moreover have "(q, data) \<notin> set xs" using xs(3) assms(4) by blast
  ultimately have qz: "(q, data) \<in> set zs" using zs by simp
  have "sorted_wrt (<) (map fst (xs @ zs))" using assms(1) zs by (metis after_seq_def sorted_wrt_filter sorted_wrt_map)
  then have "xs \<noteq> [] \<Longrightarrow> fst (last xs) < q" using qz by (force simp: sorted_wrt_append)
  then show ?thesis using c' xs(2) assms(7) by auto
qed (use assms(7) in simp)

lemma runs_stuck:
  assumes "sorted_wrt (<) (map fst hist)" and "\<not> sc_AllowGap cfg" and "(q, data) \<in> set hist"
    and "\<And>alive c n. \<not> fst (applyOne ops q data alive c n)"
  shows "runs ops cfg crash hist es s s' \<Longrightarrow> tracks hist d (co_applied (ns_c s)) (ns_n s) \<Longrightarrow> co_applied (ns_c s) < q \<Longrightarrow> co_applied (ns_c s') < q"
proof (induction rule: runs.induct)
  case (runs_step es s s' e s'')
  have t: "tracks hist d (co_applied (ns_c s')) (ns_n s')" by (rule runs_tracks [OF assms(1,2) runs_step(1,4)])
  from runs_step(2) show ?case
  proof cases
    case (stepped fetched first info alive err acks c' n' cancelled seen)
    from step_stuck [OF assms stepped(4,5)] show ?thesis using stepped(2) runs_step by simp
  next
    case (crash n' offset)
    then show ?thesis using t crash_load [OF crash(3)] runs_step by (auto simp: tracks_def started_def)
  qed (use runs_step in \<open>auto dest!: prepare_flags\<close>)
qed

text \<open>Everything published is applied: nothing is pending.\<close>

lemma tracks_complete:
  assumes "tracks hist d k n" and "\<forall>(s, _) \<in> set hist. s \<le> k"
  shows "left (run_all hist d) [] n"
proof -
  have "after_seq hist k = []" "upto_seq hist k = hist" using assms(2) by (auto simp: after_seq_def upto_seq_def filter_empty_conv filter_id_conv)
  then show ?thesis using assms(1) by (auto simp: tracks_def decoded_def)
qed

end

section \<open>Appliers that replace\<close>

text \<open>
  A message replaces the values at some keys by values that depend on the message only. \<open>surv n k\<close>
  are the values a crash may leave at key \<open>k\<close>, and \<open>mark n\<close> the keys that a flush makes durable.
\<close>

locale keyed_applier =
  fixes ops :: "('d, 'n) stream_ops"
    and keys :: "u64 \<Rightarrow> 'd Message \<Rightarrow> 'k set"
    and val :: "u64 \<Rightarrow> 'd Message \<Rightarrow> 'k \<Rightarrow> 'v"
    and view :: "'n \<Rightarrow> 'k \<Rightarrow> 'v"
    and surv :: "'n \<Rightarrow> 'k \<Rightarrow> 'v set"
    and mark :: "'n \<Rightarrow> 'k set"
    and crash :: "'n \<Rightarrow> 'n \<Rightarrow> bool"
  assumes k_apply: "sp_Apply ops s m n = (r, n') \<Longrightarrow> (\<forall>e. r = Some e \<longrightarrow> IsPermanent e) \<Longrightarrow>
      view n' k = (if k \<in> keys s m then val s m k else view n k) \<and> keys s m \<subseteq> mark n'"
    and k_partial: "sp_Apply ops s m n = (r, n') \<Longrightarrow> k \<notin> keys s m \<Longrightarrow> view n' k = view n k \<and> surv n' k \<subseteq> surv n k \<and> (k \<in> mark n \<longrightarrow> k \<in> mark n')"
    and k_apply_load: "sp_Apply ops s m n = (r, n') \<Longrightarrow> sp_Load ops n' = sp_Load ops n"
    and k_flush: "sp_Flush ops n = (ok, n') \<Longrightarrow> view n' k = view n k \<and> surv n' k \<subseteq> insert (view n k) (surv n k) \<and>
      (ok \<and> k \<in> mark n \<longrightarrow> surv n' k \<subseteq> {view n k})"
    and k_flush_load: "sp_Flush ops n = (ok, n') \<Longrightarrow> sp_Load ops n' = sp_Load ops n"
    and k_save: "sp_Save ops q n = (ok, n') \<Longrightarrow> view n' k = view n k \<and> surv n' k \<subseteq> surv n k"
    and k_save_load: "sp_Save ops q n = (ok, n') \<Longrightarrow> sp_Load ops n' = (if ok then Some q else sp_Load ops n)"
    and k_crash: "crash n n' \<Longrightarrow> view n' k \<in> surv n k \<and> surv n' k \<subseteq> surv n k"
    and k_crash_load: "crash n n' \<Longrightarrow> sp_Load ops n' = sp_Load ops n"
begin

definition put :: "u64 \<Rightarrow> 'd Message \<Rightarrow> ('k \<Rightarrow> 'v) \<Rightarrow> 'k \<Rightarrow> 'v" where
  "put s m d = (\<lambda>k. if k \<in> keys s m then val s m k else d k)"

definition k_left :: "('k \<Rightarrow> 'v) \<Rightarrow> (u64 \<times> 'd Message) list \<Rightarrow> 'n \<Rightarrow> bool" where
  "k_left d ms n \<longleftrightarrow> (\<forall>k. (\<forall>(s, m) \<in> set ms. k \<notin> keys s m) \<longrightarrow> view n k = d k)"

definition k_kept :: "('k \<Rightarrow> 'v) \<Rightarrow> (u64 \<times> 'd Message) list \<Rightarrow> 'n \<Rightarrow> bool" where
  "k_kept d ms n \<longleftrightarrow> (\<forall>k. (\<forall>(s, m) \<in> set ms. k \<notin> keys s m) \<longrightarrow> surv n k \<subseteq> {d k})"

definition k_marked :: "(u64 \<times> 'd Message) list \<Rightarrow> (u64 \<times> 'd Message) list \<Rightarrow> 'n \<Rightarrow> bool" where
  "k_marked xs ms n \<longleftrightarrow> (\<forall>k. (\<exists>(s, m) \<in> set xs. k \<in> keys s m) \<and> (\<forall>(s, m) \<in> set ms. k \<notin> keys s m) \<longrightarrow> k \<in> mark n)"

lemma put_other: "(\<forall>(s, m) \<in> set xs. k \<notin> keys s m) \<Longrightarrow> foldl (\<lambda>d (s, m). put s m d) d xs k = d k"
  by (induction xs arbitrary: d) (auto simp: put_def)

sublocale applier ops put k_left k_kept k_marked crash
proof
  fix s m n n' e d ms
  show "sp_Apply ops s m n = (None, n') \<Longrightarrow> k_left d ((s, m) # ms) n \<Longrightarrow> k_left (put s m d) ms n'"
    using k_apply [of s m n None n'] by (auto simp: k_left_def put_def)
  show "sp_Apply ops s m n = (Some e, n') \<Longrightarrow> IsPermanent e \<Longrightarrow> k_left d ((s, m) # ms) n \<Longrightarrow> k_left (put s m d) ms n'"
    using k_apply [of s m n "Some e" n'] by (auto simp: k_left_def put_def)
  show "sp_Apply ops s m n = (Some e, n') \<Longrightarrow> \<not> IsPermanent e \<Longrightarrow> k_left d ((s, m) # ms) n \<Longrightarrow> k_left d ((s, m) # ms) n'"
    using k_partial [of s m n "Some e" n'] by (auto simp: k_left_def)
next
  fix s m n r n' d and ms :: "(u64 \<times> 'd Message) list"
  assume a: "sp_Apply ops s m n = (r, n')" "k_kept d ms n" "(s, m) \<in> set ms"
  show "k_kept d ms n'" unfolding k_kept_def
  proof (intro allI impI)
    fix k
    assume k: "\<forall>(s, m) \<in> set ms. k \<notin> keys s m"
    then have "k \<notin> keys s m" using a(3) by auto
    then show "surv n' k \<subseteq> {d k}" using k_partial [OF a(1)] a(2) k unfolding k_kept_def by blast
  qed
next
  fix s m n r n'
  show "sp_Apply ops s m n = (r, n') \<Longrightarrow> sp_Load ops n' = sp_Load ops n" by (rule k_apply_load)
next
  fix ms n
  show "k_marked [] ms n" by (simp add: k_marked_def)
next
  fix s m n r n' xs ms
  assume a: "sp_Apply ops s m n = (r, n')" "\<forall>e. r = Some e \<longrightarrow> IsPermanent e" "k_marked xs ((s, m) # ms) n"
  show "k_marked (xs @ [(s, m)]) ms n'" unfolding k_marked_def
  proof (intro allI impI, elim conjE)
    fix k
    assume k: "\<exists>(s, m) \<in> set (xs @ [(s, m)]). k \<in> keys s m" "\<forall>(s, m) \<in> set ms. k \<notin> keys s m"
    show "k \<in> mark n'"
    proof (cases "k \<in> keys s m")
      case True
      then show ?thesis using k_apply [OF a(1,2)] by blast
    next
      case False
      then have "k \<in> mark n" using a(3) k unfolding k_marked_def by auto
      then show ?thesis using k_partial [OF a(1) False] by blast
    qed
  qed
next
  fix s m n e n' xs ms
  assume a: "sp_Apply ops s m n = (Some e, n')" "k_marked xs ((s, m) # ms) n"
  then show "k_marked xs ((s, m) # ms) n'" using k_partial [OF a(1)] unfolding k_marked_def by auto
next
  fix n ok n' d ms
  show "sp_Flush ops n = (ok, n') \<Longrightarrow> k_left d ms n \<Longrightarrow> k_left d ms n'" using k_flush [of n ok n'] by (simp add: k_left_def)
next
  fix n n' xs ms d
  assume a: "sp_Flush ops n = (True, n')" "k_marked xs ms n" "k_kept d (xs @ ms) n" "k_left (foldl (\<lambda>d (s, m). put s m d) d xs) ms n"
  show "k_kept (foldl (\<lambda>d (s, m). put s m d) d xs) ms n'" unfolding k_kept_def
  proof (intro allI impI)
    fix k
    assume k: "\<forall>(s, m) \<in> set ms. k \<notin> keys s m"
    have v: "view n k = foldl (\<lambda>d (s, m). put s m d) d xs k" using a(4) k unfolding k_left_def by blast
    show "surv n' k \<subseteq> {foldl (\<lambda>d (s, m). put s m d) d xs k}"
    proof (cases "\<exists>(s, m) \<in> set xs. k \<in> keys s m")
      case True
      then have "k \<in> mark n" using a(2) k unfolding k_marked_def by blast
      then show ?thesis using k_flush [OF a(1), of k] v by simp
    next
      case False
      then have "\<forall>(s, m) \<in> set xs. k \<notin> keys s m" by blast
      then have "surv n k \<subseteq> {d k}" "foldl (\<lambda>d (s, m). put s m d) d xs k = d k" using a(3) k put_other unfolding k_kept_def by auto
      then show ?thesis using k_flush [OF a(1), of k] v by auto
    qed
  qed
next
  fix n ok n' d ms
  assume a: "sp_Flush ops n = (ok, n')" "k_kept d ms n" "k_left d ms n"
  show "k_kept d ms n'" unfolding k_kept_def
  proof (intro allI impI)
    fix k
    assume "\<forall>(s, m) \<in> set ms. k \<notin> keys s m"
    then have "surv n k \<subseteq> {d k}" "view n k = d k" using a(2,3) unfolding k_kept_def k_left_def by blast+
    then show "surv n' k \<subseteq> {d k}" using k_flush [OF a(1), of k] by auto
  qed
next
  fix n ok n'
  show "sp_Flush ops n = (ok, n') \<Longrightarrow> sp_Load ops n' = sp_Load ops n" by (rule k_flush_load)
next
  fix k n ok n' d ms
  show "sp_Save ops k n = (ok, n') \<Longrightarrow> k_left d ms n \<Longrightarrow> k_left d ms n'" using k_save [of k n ok n'] by (simp add: k_left_def)
  show "sp_Save ops k n = (ok, n') \<Longrightarrow> k_kept d ms n \<Longrightarrow> k_kept d ms n'" using k_save [of k n ok n'] unfolding k_kept_def by blast
  show "sp_Save ops k n = (ok, n') \<Longrightarrow> sp_Load ops n' = (if ok then Some k else sp_Load ops n)" by (rule k_save_load)
next
  fix n n' d ms
  show "crash n n' \<Longrightarrow> k_kept d ms n \<Longrightarrow> k_left d ms n' \<and> k_kept d ms n'"
    using k_crash [of n n'] unfolding k_kept_def k_left_def by blast
  show "crash n n' \<Longrightarrow> sp_Load ops n' = sp_Load ops n" by (rule k_crash_load)
next
  fix d ms n ms'
  show "k_left d ms n \<Longrightarrow> k_left d (ms @ ms') n" by (auto simp: k_left_def)
  show "k_kept d ms n \<Longrightarrow> k_kept d (ms @ ms') n" unfolding k_kept_def by auto
next
  fix s m d ms n
  show "k_left (put s m d) ms n \<Longrightarrow> k_left d ((s, m) # ms) n" by (auto simp: k_left_def put_def)
  show "k_kept (put s m d) ms n \<Longrightarrow> k_kept d ((s, m) # ms) n" unfolding k_kept_def put_def by fastforce
qed

end

end
