(* ===== verification/Index_Mappings.thy ===== *)
theory Index_Mappings
  imports Json
begin

text \<open>
  The mappings of an index (\<open>pkg/meta/mappings.go\<close>), the parser of mapping requests
  (\<open>pkg/uquery/mappings/mappings.go\<close>) and \<open>SetMappings\<close> of \<open>pkg/core/index.go\<close>. A Go map is an
  association list, and iterating over it visits the entries in the order of the list. The
  translation of SQL, the lookup of analyzers, time zones and the decoding of sub-fields are
  arguments, collected in \<open>request_env\<close>.
\<close>

section \<open>Properties\<close>

record prop_opts =
  po_Type :: string
  po_Analyzer :: string
  po_SearchAnalyzer :: string
  po_Format :: string
  po_TimeZone :: string
  po_Index :: bool
  po_Store :: bool
  po_Sortable :: bool
  po_Aggregatable :: bool
  po_Highlightable :: bool

text \<open>The sub-fields are a map that may be nil.\<close>

datatype Property = Property (pr_opts: prop_opts) (pr_Fields: "(string \<times> Property) list option")

type_synonym Properties = "(string \<times> Property) list"

definition NewProperty :: "string \<Rightarrow> Property" where
  "NewProperty typ =
     Property \<lparr>po_Type = typ, po_Analyzer = [], po_SearchAnalyzer = [], po_Format = [], po_TimeZone = [], po_Index = True, po_Store = False,
       po_Sortable = (typ \<noteq> ''text''), po_Aggregatable = (typ \<noteq> ''text''), po_Highlightable = False\<rparr> (Some [])"

text \<open>The zero value of the struct.\<close>

definition zero_property :: Property where
  "zero_property =
     Property \<lparr>po_Type = [], po_Analyzer = [], po_SearchAnalyzer = [], po_Format = [], po_TimeZone = [], po_Index = False, po_Store = False,
       po_Sortable = False, po_Aggregatable = False, po_Highlightable = False\<rparr> None"

definition AddField :: "string \<Rightarrow> Property \<Rightarrow> Property \<Rightarrow> Property" where
  "AddField field value p =
     Property (pr_opts p) (Some (AList.update field (Property (pr_opts value) None) (case pr_Fields p of None \<Rightarrow> [] | Some fs \<Rightarrow> fs)))"

fun DeepClone :: "Property \<Rightarrow> Property" where
  "DeepClone (Property opts subs) =
     Property (opts\<lparr>po_TimeZone := []\<rparr>) (map_option (map (map_prod id DeepClone)) subs)"

text \<open>\<open>reflect.DeepEqual\<close> on properties: a nil map and an empty map differ.\<close>

fun DeepEqual :: "Property \<Rightarrow> Property \<Rightarrow> bool" where
  "DeepEqual (Property o1 None) (Property o2 None) \<longleftrightarrow> o1 = o2"
| "DeepEqual (Property o1 (Some fs)) (Property o2 (Some gs)) \<longleftrightarrow>
     o1 = o2 \<and> length fs = length gs \<and> list_all (\<lambda>(k, v). case map_of gs k of None \<Rightarrow> False | Some w \<Rightarrow> DeepEqual v w) fs"
| "DeepEqual _ _ \<longleftrightarrow> False"

text \<open>What is left of a property that is stored as JSON and read again: empty \<open>fields\<close> are omitted.\<close>

fun reloaded :: "Property \<Rightarrow> Property" where
  "reloaded (Property opts subs) =
     Property opts (case subs of None \<Rightarrow> None | Some fs \<Rightarrow> if fs = [] then None else Some (map (map_prod id reloaded) fs))"

section \<open>Mapping requests\<close>

datatype 'a outcome = Fails | Panics | Gives 'a

record request_env =
  re_sql_enabled :: bool
  re_sql :: "string \<Rightarrow> object option"
  re_text_keyword :: bool
  re_time_zone :: "string \<Rightarrow> bool"
  re_analyzer :: "string \<Rightarrow> bool"
  re_fields :: "object \<Rightarrow> Properties option"

text \<open>
  \<open>strings.ToLower\<close> as far as its result can be one of the names of types: besides the letters of
  ASCII there are the Kelvin sign and the capital I with a dot.
\<close>

definition lower_char :: "char \<Rightarrow> char" where
  "lower_char c = (let n = of_char c :: nat in if 65 \<le> n \<and> n \<le> 90 then char_of (n + 32) else c)"

fun ToLower :: "string \<Rightarrow> string" where
  "ToLower [] = []"
| "ToLower (c # s) =
     (if HasPrefix (c # s) [CHR 0xE2, CHR 0x84, CHR 0xAA] then CHR ''k'' # ToLower (drop 2 s)
      else if HasPrefix (c # s) [CHR 0xC4, CHR 0xB0] then CHR ''i'' # ToLower (drop 1 s)
      else lower_char c # ToLower s)"

definition type_property :: "request_env \<Rightarrow> string \<Rightarrow> Property option" where
  "type_property env t =
     (if t = ''text'' then
        Some (if re_text_keyword env then AddField ''keyword'' (NewProperty ''keyword'') (NewProperty t) else NewProperty t)
      else if t \<in> {''keyword'', ''numeric'', ''bool'', ''date''} then Some (NewProperty t)
      else if t = ''constant_keyword'' then Some (NewProperty ''keyword'')
      else if t = ''match_only_text'' then Some (NewProperty ''text'')
      else if t \<in> {''integer'', ''double'', ''long'', ''short'', ''int'', ''float''} then Some (NewProperty ''numeric'')
      else if t = ''boolean'' then Some (NewProperty ''bool'')
      else if t \<in> {''time'', ''datetime''} then Some (NewProperty ''date'')
      else if t \<in> {''flattened'', ''object'', ''nested'', ''wildcard'', ''byte'', ''alias'', ''geo_point'', ''ip'', ''ip_range'', ''scaled_float''} then Some zero_property
      else None)"

text \<open>A type assertion to a string or a truth value panics when the value is something else.\<close>

definition str_option :: "(string \<Rightarrow> prop_opts \<Rightarrow> prop_opts) \<Rightarrow> json \<Rightarrow> prop_opts \<Rightarrow> prop_opts outcome" where
  "str_option f v opts = (case v of JStr s \<Rightarrow> Gives (f s opts) | _ \<Rightarrow> Panics)"

definition bool_option :: "(bool \<Rightarrow> prop_opts \<Rightarrow> prop_opts) \<Rightarrow> json \<Rightarrow> prop_opts \<Rightarrow> prop_opts outcome" where
  "bool_option f v opts = (case v of JBool b \<Rightarrow> Gives (f b opts) | _ \<Rightarrow> Panics)"

definition set_option :: "request_env \<Rightarrow> string \<Rightarrow> json \<Rightarrow> prop_opts \<Rightarrow> prop_opts outcome" where
  "set_option env k v opts =
     (if k = ''analyzer'' then str_option (\<lambda>s. po_Analyzer_update (\<lambda>_. s)) v opts
      else if k = ''search_analyzer'' then str_option (\<lambda>s. po_SearchAnalyzer_update (\<lambda>_. s)) v opts
      else if k = ''format'' then str_option (\<lambda>s. po_Format_update (\<lambda>_. s)) v opts
      else if k = ''time_zone'' then
        (case v of JStr s \<Rightarrow> if re_time_zone env s then Gives (opts\<lparr>po_TimeZone := s\<rparr>) else Fails | _ \<Rightarrow> Panics)
      else if k = ''index'' then bool_option (\<lambda>b. po_Index_update (\<lambda>_. b)) v opts
      else if k = ''store'' then bool_option (\<lambda>b. po_Store_update (\<lambda>_. b)) v opts
      else if k = ''sortable'' then bool_option (\<lambda>b. po_Sortable_update (\<lambda>_. b)) v opts
      else if k = ''aggregatable'' then bool_option (\<lambda>b. po_Aggregatable_update (\<lambda>_. b)) v opts
      else if k = ''highlightable'' then bool_option (\<lambda>b. po_Highlightable_update (\<lambda>_. b)) v opts
      else Gives opts)"

fun set_options :: "request_env \<Rightarrow> object \<Rightarrow> prop_opts \<Rightarrow> prop_opts outcome" where
  "set_options env [] opts = Gives opts"
| "set_options env ((k, v) # kvs) opts =
     (case set_option env k v opts of Gives o1 \<Rightarrow> set_options env kvs o1 | Panics \<Rightarrow> Panics | Fails \<Rightarrow> Fails)"

text \<open>The sub-fields that are objects have a type.\<close>

definition typed_fields :: "object \<Rightarrow> bool" where
  "typed_fields fs \<longleftrightarrow> list_all (\<lambda>(_, j). case j of JObj o1 \<Rightarrow> (case map_of o1 ''type'' of Some (JStr _) \<Rightarrow> True | _ \<Rightarrow> False) | _ \<Rightarrow> True) fs"

definition convertToField :: "request_env \<Rightarrow> object \<Rightarrow> Properties option" where
  "convertToField env v = (if v = [] then Some [] else re_fields env v)"

text \<open>
  A property that is not nested. Adding the sub-fields changes the property that was entered before,
  because both share the map.
\<close>

definition request_leaf :: "request_env \<Rightarrow> string \<Rightarrow> object \<Rightarrow> Properties \<Rightarrow> Properties outcome" where
  "request_leaf env field prop acc =
     (case (case map_of prop ''fields'' of None \<Rightarrow> Some [] | Some (JObj fs) \<Rightarrow> (if typed_fields fs then Some fs else None) | Some _ \<Rightarrow> None) of
        None \<Rightarrow> Fails
      | Some propFields \<Rightarrow>
          (case map_of prop ''type'' of
             Some (JStr t) \<Rightarrow>
               (case type_property env (ToLower t) of
                  None \<Rightarrow> Fails
                | Some p \<Rightarrow>
                    (case set_options env prop (pr_opts p) of
                       Fails \<Rightarrow> Fails
                     | Panics \<Rightarrow> Panics
                     | Gives opts \<Rightarrow>
                         (let p1 = Property (if po_Highlightable opts then opts\<lparr>po_Store := True\<rparr> else opts) (pr_Fields p);
                              acc1 = (if po_Type opts \<noteq> [] then AList.update field p1 acc else acc)
                          in if po_Type opts \<noteq> ''text'' then Gives acc1
                             else case convertToField env propFields of
                               None \<Rightarrow> Fails
                             | Some subs \<Rightarrow>
                                 (let p2 = foldl (\<lambda>q (k, v). AddField k v q) p1 subs;
                                      acc2 = foldl (\<lambda>a (k, v). AList.update (field @ ''.'' @ k) v a) (AList.update field p2 acc) subs
                                  in if po_Analyzer opts \<noteq> [] \<and> \<not> re_analyzer env (po_Analyzer opts) then Fails
                                     else if po_SearchAnalyzer opts \<noteq> [] \<and> \<not> re_analyzer env (po_SearchAnalyzer opts) then Fails
                                     else Gives acc2))))
           | _ \<Rightarrow> Fails))"

lemma size_list_member: "x \<in> set xs \<Longrightarrow> f x \<le> size_list f xs"
  by (induction xs) auto

lemma size_map_of: "map_of m k = Some v \<Longrightarrow> size v < size (JObj m)"
proof -
  assume "map_of m k = Some v"
  then have "(k, v) \<in> set m" by (rule map_of_SomeD)
  from size_list_member [OF this, of "size_prod (\<lambda>_. 0) size"] show ?thesis by simp
qed

text \<open>The properties of a request in turn; a nested request cannot be SQL, because it has properties as well.\<close>

function request_props :: "request_env \<Rightarrow> object \<Rightarrow> Properties \<Rightarrow> Properties outcome" where
  "request_props env [] acc = Gives acc"
| "request_props env ((field, j) # ps) acc =
     (case j of
        JObj prop \<Rightarrow>
          (case map_of prop ''properties'' of
             Some (JObj sub) \<Rightarrow>
               if map_of prop ''sql'' \<noteq> None then Fails
               else (case request_props env sub [] of
                       Gives m \<Rightarrow> request_props env ps (foldl (\<lambda>a (k, v). AList.update (field @ ''.'' @ k) v a) acc m)
                     | Panics \<Rightarrow> Panics
                     | Fails \<Rightarrow> Fails)
           | Some _ \<Rightarrow> Fails
           | None \<Rightarrow>
               (case request_leaf env field prop acc of
                  Gives acc1 \<Rightarrow> request_props env ps acc1
                | Panics \<Rightarrow> Panics
                | Fails \<Rightarrow> Fails))
      | _ \<Rightarrow> Fails)"
  by pat_completeness auto
termination
  by (relation "measure (\<lambda>(_, ps, _). size_list (size_prod (\<lambda>_. 0) size) ps)") (auto dest: size_map_of)

declare request_props.simps [simp del]

text \<open>\<open>Request\<close>: the result is \<open>None\<close> where Go returns a nil pointer without an error.\<close>

definition Request :: "request_env \<Rightarrow> object \<Rightarrow> Properties option outcome" where
  "Request env data =
     (let go = (\<lambda>props. case request_props env props [] of Gives m \<Rightarrow> Gives (Some m) | Panics \<Rightarrow> Panics | Fails \<Rightarrow> Fails)
      in if data = [] then Gives None
         else case map_of data ''sql'' of
           Some sql \<Rightarrow>
             if \<not> re_sql_enabled env \<or> length data \<noteq> 1 then Fails
             else (case sql of
                     JStr ddl \<Rightarrow> if TrimSpace ddl = [] then Fails else (case re_sql env ddl of None \<Rightarrow> Fails | Some props \<Rightarrow> go props)
                   | _ \<Rightarrow> Fails)
         | None \<Rightarrow> (case map_of data ''properties'' of Some (JObj props) \<Rightarrow> go props | _ \<Rightarrow> Fails))"

section \<open>The mappings of an index\<close>

definition no_analyzers :: "Property \<Rightarrow> Property" where
  "no_analyzers p = (if po_Type (pr_opts p) \<noteq> ''text'' then Property ((pr_opts p)\<lparr>po_Analyzer := [], po_SearchAnalyzer := []\<rparr>) (pr_Fields p) else p)"

definition time_property :: "Property option \<Rightarrow> Property" where
  "time_property p =
     (let q = (case p of Some q \<Rightarrow> q | None \<Rightarrow> NewProperty ''date'')
      in Property ((pr_opts q)\<lparr>po_Index := True, po_Sortable := True, po_Aggregatable := True\<rparr>) (pr_Fields q))"

definition SetMappings :: "Properties option \<Rightarrow> Properties \<Rightarrow> Properties" where
  "SetMappings requested cur =
     (let r1 = map (\<lambda>(f, p). (f, no_analyzers p)) (case requested of None \<Rightarrow> [] | Some r \<Rightarrow> r);
          r2 = AList.update ''_id'' (NewProperty ''keyword'') r1;
          r3 = AList.update ''@timestamp'' (time_property (map_of r2 ''@timestamp'')) r2
      in foldl (\<lambda>m (f, p). AList.update f p m) cur r3)"

end
