(* ===== verification/Stream_Apply.thy ===== *)
theory Stream_Apply
  imports Stream_Run State_Store Index_Mappings
begin

text \<open>
  How a node applies the messages of the stream to its indexes (\<open>CoreApplier\<close> in
  \<open>pkg/streaming/apply.go\<close>) and keeps its offset (\<open>offset.go\<close>), with the index list of \<open>pkg/core\<close>
  as far as it uses it. An index is the map of its documents: those whose log entry is synchronised
  and the entries accepted since. Whether a document fits an index (\<open>CheckDocument\<close>) and the
  parsing of index settings and mappings are arguments; the verdict on a document is taken to depend
  on the document and the name of the index only.
\<close>

section \<open>The indexes of a node\<close>

type_synonym 'd docs = "string \<Rightarrow> 'd option option"

record 'd data_node =
  dn_list :: "string list"
  dn_orphans :: "string list"
  dn_synced :: "string \<Rightarrow> 'd docs"
  dn_tail :: "string \<Rightarrow> (string \<times> 'd option) list"
  dn_maps :: "string \<Rightarrow> Properties"
  dn_stored :: "string \<Rightarrow> Properties"
  dn_touched :: "string list"
  dn_offset :: "bytes option"
  dn_faults :: "bool list"

text \<open>
  \<open>dn_list\<close> is the list of indexes, which the metadata has too; \<open>dn_orphans\<close> are names the metadata
  has although the index is gone. \<open>dn_maps\<close> are the mappings in memory and \<open>dn_stored\<close> those in the
  metadata. \<open>dn_faults\<close> says of the storage operations to come which fail.
\<close>

definition fault :: "'d data_node \<Rightarrow> bool \<times> 'd data_node" where
  "fault n = (case dn_faults n of [] \<Rightarrow> (False, n) | b # bs \<Rightarrow> (b, n\<lparr>dn_faults := bs\<rparr>))"

definition index_name_char :: "char \<Rightarrow> bool" where
  "index_name_char c \<longleftrightarrow> is_alnum c \<or> c = CHR ''_'' \<or> c = CHR ''.'' \<or> c = CHR ''-''"

definition CheckIndexName :: "string \<Rightarrow> bool" where
  "CheckIndexName name \<longleftrightarrow> name \<noteq> [] \<and> \<not> HasPrefix name ''_'' \<and> list_all index_name_char name"

definition GetIndex :: "string \<Rightarrow> 'd data_node \<Rightarrow> bool" where
  "GetIndex name n \<longleftrightarrow> name \<in> set (dn_list n)"

definition add_index :: "string \<Rightarrow> Properties \<Rightarrow> 'd data_node \<Rightarrow> 'd data_node" where
  "add_index name maps n = n\<lparr>dn_list := name # dn_list n, dn_orphans := filter (\<lambda>x. x \<noteq> name) (dn_orphans n),
     dn_synced := (dn_synced n)(name := Map.empty), dn_tail := (dn_tail n)(name := []), dn_maps := (dn_maps n)(name := maps),
     dn_stored := (dn_stored n)(name := maps)\<rparr>"

text \<open>
  A new index has the mappings of the template for its name, if there is one, or else the time field
  as a date (\<open>NewIndex\<close> and \<open>checkIndex\<close>). The result says whether it succeeds and whether the
  index existed.
\<close>

definition default_maps :: "(string \<Rightarrow> Properties option) \<Rightarrow> string \<Rightarrow> Properties" where
  "default_maps template name = (case template name of Some maps \<Rightarrow> maps | None \<Rightarrow> [(''@timestamp'', NewProperty ''date'')])"

definition GetOrCreateIndex :: "(string \<Rightarrow> Properties) \<Rightarrow> string \<Rightarrow> 'd data_node \<Rightarrow> (bool \<times> bool) \<times> 'd data_node" where
  "GetOrCreateIndex maps name n =
     (if GetIndex name n then ((True, True), n)
      else case fault n of
        (True, n1) \<Rightarrow> ((False, False), n1)
      | (False, n1) \<Rightarrow> ((True, False), add_index name (maps name) n1))"

definition DeleteIndex :: "string \<Rightarrow> 'd data_node \<Rightarrow> bool \<times> 'd data_node" where
  "DeleteIndex name n =
     (if \<not> GetIndex name n then (False, n)
      else let n1 = n\<lparr>dn_list := filter (\<lambda>x. x \<noteq> name) (dn_list n), dn_synced := (dn_synced n)(name := Map.empty), dn_tail := (dn_tail n)(name := [])\<rparr>
           in case fault n1 of
                (True, n2) \<Rightarrow> (False, n2\<lparr>dn_orphans := name # dn_orphans n2\<rparr>)
              | (False, n2) \<Rightarrow> (True, n2))"

text \<open>\<open>CreateDocument\<close> with \<open>update\<close>: the document is appended to the log, which replaces an earlier one.\<close>

datatype doc_error = InvalidDocument | StorageError

definition CreateDocument ::
  "(string \<Rightarrow> 'd option \<Rightarrow> bool) \<Rightarrow> string \<Rightarrow> string \<Rightarrow> 'd option \<Rightarrow> 'd data_node \<Rightarrow> doc_error option \<times> 'd data_node" where
  "CreateDocument fits name ident doc n =
     (case fault n of
        (True, n1) \<Rightarrow> (Some StorageError, n1)
      | (False, n1) \<Rightarrow>
          if \<not> fits name doc then (Some InvalidDocument, n1)
          else (None, n1\<lparr>dn_tail := (dn_tail n1)(name := dn_tail n1 name @ [(ident, doc)])\<rparr>))"

definition SyncWAL :: "string \<Rightarrow> 'd data_node \<Rightarrow> bool \<times> 'd data_node" where
  "SyncWAL name n =
     (case fault n of
        (True, n1) \<Rightarrow> (False, n1)
      | (False, n1) \<Rightarrow>
          (True, n1\<lparr>dn_synced := (dn_synced n1)(name := foldl (\<lambda>m (i, d). m(i \<mapsto> d)) (dn_synced n1 name) (dn_tail n1 name)),
                    dn_tail := (dn_tail n1)(name := [])\<rparr>))"

definition StoreIndex :: "string \<Rightarrow> 'd data_node \<Rightarrow> bool \<times> 'd data_node" where
  "StoreIndex name n =
     (case fault n of (True, n1) \<Rightarrow> (False, n1) | (False, n1) \<Rightarrow> (True, n1\<lparr>dn_stored := (dn_stored n1)(name := dn_maps n1 name)\<rparr>))"

section \<open>Applying a message\<close>

text \<open>
  What the code outside decides: the verdict on a document, what a request body holds (the name and
  the mappings of an \<open>IndexSimple\<close>, whether its analyzers are accepted, an object), the environment
  of mapping requests, and the mappings of the template for a name.
\<close>

record 'd apply_params =
  pa_fits :: "string \<Rightarrow> 'd option \<Rightarrow> bool"
  pa_simple :: "bytes \<Rightarrow> (string \<times> object) option"
  pa_analyzers :: "bytes \<Rightarrow> bool"
  pa_object :: "bytes \<Rightarrow> object option"
  pa_env :: "bytes \<Rightarrow> request_env"
  pa_template :: "string \<Rightarrow> Properties option"

text \<open>
  A panic ends the process before the message is settled. In the model it is an error that is not
  permanent; that the process starts again is an event of the loop.
\<close>

definition panics :: wire_error where
  "panics = OtherError ''panic''"

definition classifyDocError :: "doc_error \<Rightarrow> wire_error" where
  "classifyDocError err = (case err of InvalidDocument \<Rightarrow> PermanentError ''invalid document'' | StorageError \<Rightarrow> OtherError ''storage'')"

definition touch :: "string \<Rightarrow> 'd data_node \<Rightarrow> 'd data_node" where
  "touch name n = n\<lparr>dn_touched := List.insert name (dn_touched n)\<rparr>"

definition doc_ident :: "u64 \<Rightarrow> 'd Message \<Rightarrow> string" where
  "doc_ident seq m = (if m_ID m = [] then ''seq-'' @ FormatUint (unat seq) else m_ID m)"

definition applyDoc :: "'d apply_params \<Rightarrow> u64 \<Rightarrow> 'd Message \<Rightarrow> 'd data_node \<Rightarrow> wire_error option \<times> 'd data_node" where
  "applyDoc par seq m n =
     (if \<not> CheckIndexName (m_Index m) then (Some (PermanentError ''index name''), n)
      else case GetOrCreateIndex (default_maps (pa_template par)) (m_Index m) n of
        ((False, _), n1) \<Rightarrow> (Some (OtherError ''create index''), n1)
      | ((True, _), n1) \<Rightarrow>
          (case CreateDocument (pa_fits par) (m_Index m) (doc_ident seq m) (m_Doc m) n1 of
             (Some err, n2) \<Rightarrow> (Some (classifyDocError err), n2)
           | (None, n2) \<Rightarrow> (None, touch (m_Index m) n2)))"

definition docs_ident :: "u64 \<Rightarrow> nat \<Rightarrow> 'd Doc \<Rightarrow> string" where
  "docs_ident seq i d = (if d_ID d = [] then ''seq-'' @ FormatUint (unat seq) @ ''-'' @ FormatUint i else d_ID d)"

fun apply_each ::
  "(string \<Rightarrow> 'd option \<Rightarrow> bool) \<Rightarrow> string \<Rightarrow> u64 \<Rightarrow> nat \<Rightarrow> 'd Doc list \<Rightarrow> 'd data_node \<Rightarrow> wire_error option \<times> 'd data_node" where
  "apply_each fits name seq i [] n = (None, n)"
| "apply_each fits name seq i (d # ds) n =
     (case CreateDocument fits name (docs_ident seq i d) (d_Doc d) n of
        (Some StorageError, n1) \<Rightarrow> (Some (OtherError ''storage''), n1)
      | (_, n1) \<Rightarrow> apply_each fits name seq (i + 1) ds n1)"

definition applyDocs :: "'d apply_params \<Rightarrow> u64 \<Rightarrow> 'd Message \<Rightarrow> 'd data_node \<Rightarrow> wire_error option \<times> 'd data_node" where
  "applyDocs par seq m n =
     (if \<not> CheckIndexName (m_Index m) then (Some (PermanentError ''index name''), n)
      else case GetOrCreateIndex (default_maps (pa_template par)) (m_Index m) n of
        ((False, _), n1) \<Rightarrow> (Some (OtherError ''create index''), n1)
      | ((True, _), n1) \<Rightarrow>
          (case apply_each (pa_fits par) (m_Index m) seq 0 (m_Docs m) n1 of
             (Some err, n2) \<Rightarrow> (Some err, n2)
           | (None, n2) \<Rightarrow> (None, touch (m_Index m) n2)))"

definition applyCreateIndex :: "'d apply_params \<Rightarrow> 'd Message \<Rightarrow> 'd data_node \<Rightarrow> wire_error option \<times> 'd data_node" where
  "applyCreateIndex par m n =
     (if \<not> CheckIndexName (m_Index m) then (Some (PermanentError ''index name''), n)
      else if GetIndex (m_Index m) n then (None, n)
      else case (if m_Data m = [] then Some ([], []) else pa_simple par (m_Data m)) of
        None \<Rightarrow> (Some (Permanent ''create_index data''), n)
      | Some (name, maps) \<Rightarrow>
          if name \<noteq> [] \<and> name \<noteq> m_Index m then (Some (Permanent ''create_index: name does not match''), n)
          else if \<not> pa_analyzers par (m_Data m) then (Some (PermanentError ''analyzers''), n)
          else (case Request (pa_env par (m_Data m)) maps of
                  Fails \<Rightarrow> (Some (PermanentError ''mappings''), n)
                | Panics \<Rightarrow> (Some panics, n)
                | Gives requested \<Rightarrow>
                    (case fault n of
                       (True, n1) \<Rightarrow> (Some (OtherError ''create index''), n1)
                     | (False, n1) \<Rightarrow>
                         (None, add_index (m_Index m) (SetMappings requested (case pa_template par (m_Index m) of Some ms \<Rightarrow> ms | None \<Rightarrow> [])) n1))))"

definition applyDeleteIndex :: "'d Message \<Rightarrow> 'd data_node \<Rightarrow> wire_error option \<times> 'd data_node" where
  "applyDeleteIndex m n =
     (if \<not> GetIndex (m_Index m) n then (None, n)
      else case DeleteIndex (m_Index m) n of
        (True, n1) \<Rightarrow> (None, n1)
      | (False, n1) \<Rightarrow> (Some (OtherError ''delete index''), n1))"

text \<open>
  The loop over the requested fields, in the order of a map. The mapping of the index is changed in
  place, also when a later field turns out to be mapped differently.
\<close>

fun merge_fields :: "Properties \<Rightarrow> Properties \<Rightarrow> bool \<Rightarrow> string option \<times> bool \<times> Properties" where
  "merge_fields [] cur changed = (None, changed, cur)"
| "merge_fields ((field, prop) # req) cur changed =
     (case map_of cur field of
        Some old \<Rightarrow> if \<not> DeepEqual old prop then (Some field, changed, cur) else merge_fields req cur changed
      | None \<Rightarrow> merge_fields req (AList.update field prop cur) True)"

text \<open>Sub-fields of sub-fields are dropped.\<close>

definition clean_fields :: "Property \<Rightarrow> Property" where
  "clean_fields p = Property (pr_opts p) (map_option (map (\<lambda>(k, f). (k, Property (pr_opts f) None))) (pr_Fields p))"

definition applySetMapping :: "'d apply_params \<Rightarrow> 'd Message \<Rightarrow> 'd data_node \<Rightarrow> wire_error option \<times> 'd data_node" where
  "applySetMapping par m n =
     (if \<not> CheckIndexName (m_Index m) then (Some (PermanentError ''index name''), n)
      else case pa_object par (m_Data m) of
        None \<Rightarrow> (Some (Permanent ''set_mapping data''), n)
      | Some req \<Rightarrow>
          (case Request (pa_env par (m_Data m)) req of
             Fails \<Rightarrow> (Some (PermanentError ''mappings''), n)
           | Panics \<Rightarrow> (Some panics, n)
           | Gives result \<Rightarrow>
               (case GetOrCreateIndex (default_maps (pa_template par)) (m_Index m) n of
                  ((False, _), n1) \<Rightarrow> (Some (OtherError ''create index''), n1)
                | ((True, exists), n1) \<Rightarrow>
                    (case result of
                       None \<Rightarrow> (Some panics, n1)
                     | Some requested \<Rightarrow>
                         (let cur = dn_maps n1 (m_Index m);
                              set_maps = (\<lambda>ms. n1\<lparr>dn_maps := (dn_maps n1)(m_Index m := ms)\<rparr>);
                              finish = (\<lambda>ms base.
                                 case StoreIndex (m_Index m) (set_maps (SetMappings (Some (map (\<lambda>(f, p). (f, clean_fields p)) ms)) base)) of
                                   (ok, n2) \<Rightarrow> (if ok then None else Some (OtherError ''store index''), n2))
                          in if exists \<and> cur \<noteq> [] then
                               (case merge_fields requested cur False of
                                  (Some field, _, cur') \<Rightarrow> (Some (Permanent ''field is mapped differently''), set_maps cur')
                                | (None, False, cur') \<Rightarrow> (None, n1)
                                | (None, True, cur') \<Rightarrow> finish cur' cur')
                             else finish requested cur)))))"

definition applyAdmin :: "'d apply_params \<Rightarrow> 'd Message \<Rightarrow> 'd data_node \<Rightarrow> wire_error option \<times> 'd data_node" where
  "applyAdmin par m n =
     (if m_Op m = OpCreateIndex then applyCreateIndex par m n
      else if m_Op m = OpDeleteIndex then applyDeleteIndex m n
      else if m_Op m = OpSetMapping then applySetMapping par m n
      else (Some (Permanent ''unknown admin op''), n))"

definition core_Apply :: "'d apply_params \<Rightarrow> u64 \<Rightarrow> 'd Message \<Rightarrow> 'd data_node \<Rightarrow> wire_error option \<times> 'd data_node" where
  "core_Apply par seq m n =
     (if m_Kind m = KindDoc then applyDoc par seq m n
      else if m_Kind m = KindDocs then applyDocs par seq m n
      else if m_Kind m = KindAdmin then applyAdmin par m n
      else (Some (Permanent ''unknown message kind''), n))"

text \<open>\<open>Flush\<close>: every index that received documents is synchronised, whatever happens to the others.\<close>

fun flush_names :: "string list \<Rightarrow> 'd data_node \<Rightarrow> bool \<times> 'd data_node" where
  "flush_names [] n = (True, n)"
| "flush_names (name # names) n =
     (if \<not> GetIndex name n then flush_names names n
      else case SyncWAL name n of
        (ok, n1) \<Rightarrow> (case flush_names names n1 of (rest, n2) \<Rightarrow> (ok \<and> rest, n2)))"

definition core_Flush :: "'d data_node \<Rightarrow> bool \<times> 'd data_node" where
  "core_Flush n = flush_names (dn_touched n) (n\<lparr>dn_touched := []\<rparr>)"

section \<open>The offset\<close>

definition offset_Load :: "'d data_node \<Rightarrow> u64 option" where
  "offset_Load n = (case dn_offset n of None \<Rightarrow> Some 0 | Some raw \<Rightarrow> map_option of_nat (ParseUint raw))"

definition offset_Save :: "u64 \<Rightarrow> 'd data_node \<Rightarrow> bool \<times> 'd data_node" where
  "offset_Save seq n = (case fault n of (True, n1) \<Rightarrow> (False, n1) | (False, n1) \<Rightarrow> (True, n1\<lparr>dn_offset := Some (FormatUint (unat seq))\<rparr>))"

definition core_ops :: "'d apply_params \<Rightarrow> (bytes \<Rightarrow> 'd Message option) \<Rightarrow> ('d, 'd data_node) stream_ops" where
  "core_ops par unmarshal =
     \<lparr>sp_unmarshal = unmarshal, sp_Apply = core_Apply par, sp_Flush = core_Flush, sp_Load = offset_Load, sp_Save = offset_Save\<rparr>"

section \<open>What a message means for the documents\<close>

text \<open>The documents of an index as they are once its log is consumed, and what a crash can leave of them.\<close>

definition upd_docs :: "'d docs \<Rightarrow> (string \<times> 'd option) list \<Rightarrow> 'd docs" where
  "upd_docs m t = foldl (\<lambda>m (i, d). m(i \<mapsto> d)) m t"

definition doc_view :: "'d data_node \<Rightarrow> string \<times> string \<Rightarrow> 'd option option" where
  "doc_view n k = (if fst k \<in> set (dn_list n) then upd_docs (dn_synced n (fst k)) (dn_tail n (fst k)) (snd k) else None)"

definition doc_surv :: "'d data_node \<Rightarrow> string \<times> string \<Rightarrow> 'd option option set" where
  "doc_surv n k = (if fst k \<in> set (dn_list n)
     then {upd_docs (dn_synced n (fst k)) (take p (dn_tail n (fst k))) (snd k) |p. p \<le> length (dn_tail n (fst k))} else {None})"

definition doc_mark :: "'d data_node \<Rightarrow> (string \<times> string) set" where
  "doc_mark n = {k. fst k \<in> set (dn_touched n) \<or> doc_surv n k \<subseteq> {doc_view n k}}"

text \<open>The documents a message writes, in order.\<close>

fun fitting :: "(string \<Rightarrow> 'd option \<Rightarrow> bool) \<Rightarrow> string \<Rightarrow> u64 \<Rightarrow> nat \<Rightarrow> 'd Doc list \<Rightarrow> (string \<times> 'd option) list" where
  "fitting fits name seq i [] = []"
| "fitting fits name seq i (d # ds) =
     (if fits name (d_Doc d) then [(docs_ident seq i d, d_Doc d)] else []) @ fitting fits name seq (i + 1) ds"

definition written :: "'d apply_params \<Rightarrow> u64 \<Rightarrow> 'd Message \<Rightarrow> (string \<times> 'd option) list" where
  "written par seq m =
     (if \<not> CheckIndexName (m_Index m) then []
      else if m_Kind m = KindDoc then if pa_fits par (m_Index m) (m_Doc m) then [(doc_ident seq m, m_Doc m)] else []
      else if m_Kind m = KindDocs then fitting (pa_fits par) (m_Index m) seq 0 (m_Docs m)
      else [])"

definition deletes :: "'d Message \<Rightarrow> bool" where
  "deletes m \<longleftrightarrow> m_Kind m = KindAdmin \<and> m_Op m = OpDeleteIndex"

definition msg_keys :: "'d apply_params \<Rightarrow> u64 \<Rightarrow> 'd Message \<Rightarrow> (string \<times> string) set" where
  "msg_keys par seq m = {k. fst k = m_Index m \<and> (deletes m \<or> snd k \<in> fst ` set (written par seq m))}"

definition msg_val :: "'d apply_params \<Rightarrow> u64 \<Rightarrow> 'd Message \<Rightarrow> string \<times> string \<Rightarrow> 'd option option" where
  "msg_val par seq m k = upd_docs Map.empty (written par seq m) (snd k)"

text \<open>
  A crash. The log of an index is spread over its shards by document ID, so of each document some of
  the entries since the last synchronisation are left, in order.
\<close>

definition core_crash :: "'d data_node \<Rightarrow> 'd data_node \<Rightarrow> bool" where
  "core_crash n n' \<longleftrightarrow> set (dn_list n') = set (dn_list n) \<union> set (dn_orphans n) \<and> dn_orphans n' = [] \<and> dn_touched n' = [] \<and>
     dn_offset n' = dn_offset n \<and>
     dn_maps n' = (\<lambda>i. map (map_prod id reloaded) (dn_stored n i)) \<and> dn_stored n' = dn_stored n \<and> (\<forall>i. dn_tail n' i = []) \<and>
     (\<forall>i k. \<exists>p \<le> length (dn_tail n i). dn_synced n' i k = (if i \<in> set (dn_list n) then upd_docs (dn_synced n i) (take p (dn_tail n i)) k else None))"

lemma upd_docs_append: "upd_docs m (s @ t) = upd_docs (upd_docs m s) t"
  by (simp add: upd_docs_def)

lemma upd_docs_other: "i \<notin> fst ` set t \<Longrightarrow> upd_docs m t i = m i"
  by (induction t arbitrary: m) (auto simp: upd_docs_def)

lemma upd_docs_in: "i \<in> fst ` set t \<Longrightarrow> upd_docs m t i = upd_docs m' t i"
proof (induction t rule: rev_induct)
  case (snoc p t)
  then show ?case by (cases p) (auto simp: upd_docs_def)
qed simp

lemma fault_same: "fault n = (b, n1) \<Longrightarrow> n1 = n\<lparr>dn_faults := dn_faults n1\<rparr>"
  by (auto simp: fault_def split: list.splits)

text \<open>
  How applying changes a node: the index of the message gains the log entries \<open>ws\<close>, perhaps after
  it was created, or it is gone; everything else stays.
\<close>

definition grows :: "string \<Rightarrow> (string \<times> 'd option) list \<Rightarrow> 'd data_node \<Rightarrow> 'd data_node \<Rightarrow> bool" where
  "grows i ws n n' \<longleftrightarrow>
     (if i \<in> set (dn_list n) then i \<in> set (dn_list n') \<and> dn_synced n' i = dn_synced n i \<and> dn_tail n' i = dn_tail n i @ ws
      else if i \<in> set (dn_list n') then dn_synced n' i = Map.empty \<and> dn_tail n' i = ws else ws = [])"

definition others :: "string \<Rightarrow> 'd data_node \<Rightarrow> 'd data_node \<Rightarrow> bool" where
  "others i n n' \<longleftrightarrow> (\<forall>j. j \<noteq> i \<longrightarrow> (j \<in> set (dn_list n') \<longleftrightarrow> j \<in> set (dn_list n)) \<and> dn_synced n' j = dn_synced n j \<and> dn_tail n' j = dn_tail n j) \<and>
     dn_offset n' = dn_offset n \<and> set (dn_touched n) \<subseteq> set (dn_touched n')"

lemma others_refl: "others i n n" and grows_refl: "grows i [] n n"
  by (simp_all add: others_def grows_def)

lemma others_trans: "others i n n1 \<Longrightarrow> others i n1 n2 \<Longrightarrow> others i n n2"
  by (auto simp: others_def)

lemma grows_trans: "grows i ws n n1 \<Longrightarrow> grows i ws' n1 n2 \<Longrightarrow> i \<in> set (dn_list n1) \<Longrightarrow> grows i (ws @ ws') n n2"
  by (auto simp: grows_def split: if_splits)

lemma fault_frame:
  assumes "fault n = (b, n1)"
  shows "others i n n1" and "grows i [] n n1" and "dn_touched n1 = dn_touched n" and "dn_list n1 = dn_list n"
    and "dn_synced n1 = dn_synced n" and "dn_tail n1 = dn_tail n" and "dn_offset n1 = dn_offset n"
  using assms by (auto simp: fault_def others_def grows_def split: list.splits)

lemma touch_frame: "others i n (touch j n)" "grows i [] n (touch j n)" "j \<in> set (dn_touched (touch j n))" "dn_list (touch j n) = dn_list n"
  by (auto simp: touch_def others_def grows_def)

lemma GetOrCreateIndex_frame:
  assumes "GetOrCreateIndex maps i n = ((ok, ex), n1)"
  shows "others i n n1" and "grows i [] n n1" and "ok \<Longrightarrow> i \<in> set (dn_list n1)"
proof -
  obtain b n0 where f: "fault n = (b, n0)" by (cases "fault n")
  show "others i n n1" "grows i [] n n1" "ok \<Longrightarrow> i \<in> set (dn_list n1)"
    using assms f fault_frame [OF f]
    by (auto simp: GetOrCreateIndex_def GetIndex_def add_index_def others_def grows_def split: if_splits bool.splits)
qed

lemma CreateDocument_frame:
  assumes "CreateDocument fits i ident doc n = (r, n1)" and "i \<in> set (dn_list n)"
  shows "others i n n1" and "grows i (if r = None then [(ident, doc)] else []) n n1" and "i \<in> set (dn_list n1)"
    and "r \<noteq> Some StorageError \<Longrightarrow> r = None \<longleftrightarrow> fits i doc"
proof -
  obtain b n0 where f: "fault n = (b, n0)" by (cases "fault n")
  show "others i n n1" "grows i (if r = None then [(ident, doc)] else []) n n1" "i \<in> set (dn_list n1)" "r \<noteq> Some StorageError \<Longrightarrow> r = None \<longleftrightarrow> fits i doc"
    using assms f fault_frame [OF f] by (auto simp: CreateDocument_def others_def grows_def split: if_splits bool.splits)
qed

lemma apply_each_frame:
  "apply_each fits name seq i ds n = (r, n1) \<Longrightarrow> name \<in> set (dn_list n) \<Longrightarrow>
    \<exists>ws. others name n n1 \<and> grows name ws n n1 \<and> fst ` set ws \<subseteq> fst ` set (fitting fits name seq i ds) \<and>
      (r = None \<and> ws = fitting fits name seq i ds \<or> r = Some (OtherError ''storage'')) \<and> name \<in> set (dn_list n1)"
proof (induction ds arbitrary: i n)
  case Nil
  then show ?case by (auto simp: others_refl grows_refl intro!: exI [of _ "[]"])
next
  case (Cons d ds)
  obtain r1 n2 where c: "CreateDocument fits name (docs_ident seq i d) (d_Doc d) n = (r1, n2)"
    by (cases "CreateDocument fits name (docs_ident seq i d) (d_Doc d) n")
  note fr = CreateDocument_frame [OF c Cons.prems(2)]
  show ?case
  proof (cases "r1 = Some StorageError")
    case True
    then show ?thesis using Cons.prems(1) c fr by (auto intro!: exI [of _ "[]"])
  next
    case False
    then have "apply_each fits name seq (i + 1) ds n2 = (r, n1)" using Cons.prems(1) c by (auto split: option.splits doc_error.splits)
    from Cons.IH [OF this fr(3)] obtain ws where ws: "others name n2 n1" "grows name ws n2 n1" "fst ` set ws \<subseteq> fst ` set (fitting fits name seq (i + 1) ds)"
      "r = None \<and> ws = fitting fits name seq (i + 1) ds \<or> r = Some (OtherError ''storage'')" "name \<in> set (dn_list n1)" by blast
    let ?w = "if r1 = None then [(docs_ident seq i d, d_Doc d)] else []"
    have "grows name (?w @ ws) n n1" by (rule grows_trans [OF fr(2) ws(2) fr(3)])
    moreover have "?w = (if fits name (d_Doc d) then [(docs_ident seq i d, d_Doc d)] else [])" using fr(4) [OF False] by simp
    ultimately show ?thesis using others_trans [OF fr(1) ws(1)] ws(3-5) by (intro exI [of _ "?w @ ws"]) auto
  qed
qed

text \<open>Every message: done or skipped for good, it has written all it stands for; otherwise a part of it.\<close>

definition settled :: "wire_error option \<Rightarrow> bool" where
  "settled r \<longleftrightarrow> (\<forall>e. r = Some e \<longrightarrow> IsPermanent e)"

definition wrote :: "'d apply_params \<Rightarrow> u64 \<Rightarrow> 'd Message \<Rightarrow> wire_error option \<Rightarrow> 'd data_node \<Rightarrow> 'd data_node \<Rightarrow> bool" where
  "wrote par s m r n n' \<longleftrightarrow> (\<exists>ws. others (m_Index m) n n' \<and> grows (m_Index m) ws n n' \<and> fst ` set ws \<subseteq> fst ` set (written par s m) \<and>
     (settled r \<longrightarrow> ws = written par s m \<and> (written par s m \<noteq> [] \<longrightarrow> m_Index m \<in> set (dn_touched n'))))"

lemma wroteI:
  "others (m_Index m) n n' \<Longrightarrow> grows (m_Index m) ws n n' \<Longrightarrow> fst ` set ws \<subseteq> fst ` set (written par s m) \<Longrightarrow>
   (settled r \<Longrightarrow> ws = written par s m \<and> (written par s m \<noteq> [] \<longrightarrow> m_Index m \<in> set (dn_touched n'))) \<Longrightarrow> wrote par s m r n n'"
  unfolding wrote_def by blast

lemma settled_simps: "settled None" "\<not> settled (Some (OtherError e))" "settled (Some (PermanentError e))" "settled (Some (Permanent e))"
  by (simp_all add: settled_def IsPermanent_def Permanent_def)

lemma applyDoc_wrote:
  assumes "applyDoc par s m n = (r, n')" and "m_Kind m = KindDoc"
  shows "wrote par s m r n n'"
proof (cases "CheckIndexName (m_Index m)")
  case False
  then show ?thesis using assms by (intro wroteI [of m n n' "[]"]) (auto simp: applyDoc_def written_def others_refl grows_refl)
next
  case True
  let ?i = "m_Index m"
  obtain ok ex n1 where g: "GetOrCreateIndex (default_maps (pa_template par)) ?i n = ((ok, ex), n1)" by (metis surj_pair)
  note gf = GetOrCreateIndex_frame [OF g]
  show ?thesis
  proof (cases ok)
    case False
    then show ?thesis using assms True g gf by (intro wroteI [of m n n' "[]"]) (auto simp: applyDoc_def settled_simps)
  next
    case ok: True
    obtain e n2 where c: "CreateDocument (pa_fits par) ?i (doc_ident s m) (m_Doc m) n1 = (e, n2)" by (metis surj_pair)
    have in1: "?i \<in> set (dn_list n1)" by (rule gf(3) [OF ok])
    note cf = CreateDocument_frame [OF c in1]
    have o: "others ?i n n2" by (rule others_trans [OF gf(1) cf(1)])
    have gr: "grows ?i (if e = None then [(doc_ident s m, m_Doc m)] else []) n n2" using grows_trans [OF gf(2) cf(2) in1] by simp
    have w: "written par s m = (if pa_fits par ?i (m_Doc m) then [(doc_ident s m, m_Doc m)] else [])" using True assms(2) by (simp add: written_def)
    show ?thesis
    proof (cases e)
      case None
      then have "r = None" "n' = touch ?i n2" using assms(1) True g ok c by (simp_all add: applyDoc_def)
      then show ?thesis
        using others_trans [OF o touch_frame(1)] grows_trans [OF gr touch_frame(2) cf(3)] None cf(4) w touch_frame(3)
        by (intro wroteI [of m n n' "[(doc_ident s m, m_Doc m)]"]) auto
    next
      case (Some err)
      then have r: "r = Some (classifyDocError err)" "n' = n2" using assms(1) True g ok c by (simp_all add: applyDoc_def)
      have "written par s m = []" if "settled r"
        using that cf(4) Some w r(1) by (cases err) (simp_all add: classifyDocError_def settled_simps)
      then show ?thesis using o gr Some r(2) by (intro wroteI [of m n n' "[]"]) auto
    qed
  qed
qed

lemma applyDocs_wrote:
  assumes "applyDocs par s m n = (r, n')" and "m_Kind m = KindDocs"
  shows "wrote par s m r n n'"
proof (cases "CheckIndexName (m_Index m)")
  case False
  then show ?thesis using assms by (intro wroteI [of m n n' "[]"]) (auto simp: applyDocs_def written_def others_refl grows_refl)
next
  case True
  let ?i = "m_Index m"
  obtain ok ex n1 where g: "GetOrCreateIndex (default_maps (pa_template par)) ?i n = ((ok, ex), n1)" by (metis surj_pair)
  note gf = GetOrCreateIndex_frame [OF g]
  show ?thesis
  proof (cases ok)
    case False
    then show ?thesis using assms True g gf by (intro wroteI [of m n n' "[]"]) (auto simp: applyDocs_def settled_simps)
  next
    case ok: True
    obtain e n2 where c: "apply_each (pa_fits par) ?i s 0 (m_Docs m) n1 = (e, n2)" by (metis surj_pair)
    have in1: "?i \<in> set (dn_list n1)" by (rule gf(3) [OF ok])
    have w: "written par s m = fitting (pa_fits par) ?i s 0 (m_Docs m)" using True assms(2) by (simp add: written_def wire_consts)
    obtain ws where ws: "others ?i n1 n2" "grows ?i ws n1 n2" "fst ` set ws \<subseteq> fst ` set (written par s m)"
      "e = None \<and> ws = written par s m \<or> e = Some (OtherError ''storage'')" "?i \<in> set (dn_list n2)"
      using apply_each_frame [OF c in1] unfolding w by blast
    have o: "others ?i n n2" by (rule others_trans [OF gf(1) ws(1)])
    have gr: "grows ?i ws n n2" using grows_trans [OF gf(2) ws(2) in1] by simp
    show ?thesis
    proof (cases e)
      case None
      then have "r = None" "n' = touch ?i n2" using assms(1) True g ok c by (simp_all add: applyDocs_def)
      then show ?thesis
        using others_trans [OF o touch_frame(1)] grows_trans [OF gr touch_frame(2) ws(5)] None ws(3,4) touch_frame(3)
        by (intro wroteI [of m n n' ws]) auto
    next
      case (Some err)
      then have "r = Some (OtherError ''storage'')" "n' = n2" using assms(1) True g ok c ws(4) by (auto simp: applyDocs_def)
      then show ?thesis using o gr ws(3) by (intro wroteI [of m n n' ws]) (auto simp: settled_simps)
    qed
  qed
qed

text \<open>Admin messages other than deletion leave all documents alone.\<close>

lemma applyCreateIndex_frame: "applyCreateIndex par m n = (r, n') \<Longrightarrow> others (m_Index m) n n' \<and> grows (m_Index m) [] n n'"
proof -
  assume a: "applyCreateIndex par m n = (r, n')"
  obtain b n1 where f: "fault n = (b, n1)" by (cases "fault n")
  show ?thesis
    using a f fault_frame [OF f]
    by (auto simp: applyCreateIndex_def GetIndex_def add_index_def others_def grows_def split: if_splits option.splits bool.splits outcome.splits)
qed

lemma set_maps_frame: "others i n (n\<lparr>dn_maps := ms\<rparr>)" "grows i [] n (n\<lparr>dn_maps := ms\<rparr>)"
  by (simp_all add: others_def grows_def)

lemma StoreIndex_frame: "StoreIndex i n = (ok, n') \<Longrightarrow> others j n n' \<and> grows j [] n n'"
proof -
  assume s: "StoreIndex i n = (ok, n')"
  obtain b n1 where f: "fault n = (b, n1)" by (cases "fault n")
  show ?thesis using s f fault_frame [OF f] by (auto simp: StoreIndex_def others_def grows_def split: bool.splits)
qed

lemma applySetMapping_frame: "applySetMapping par m n = (r, n') \<Longrightarrow> others (m_Index m) n n' \<and> grows (m_Index m) [] n n'"
proof -
  assume a: "applySetMapping par m n = (r, n')"
  let ?i = "m_Index m"
  obtain ok ex n1 where g: "GetOrCreateIndex (default_maps (pa_template par)) ?i n = ((ok, ex), n1)" by (metis surj_pair)
  note gf = GetOrCreateIndex_frame [OF g]
  show ?thesis
  proof (cases "n' = n \<or> n' = n1")
    case True
    then show ?thesis using gf others_refl grows_refl by auto
  next
    case False
    then have ok: "ok" using a g by (cases ok) (auto simp: applySetMapping_def split: if_splits option.splits outcome.splits)
    have "\<exists>ms. n' = n1\<lparr>dn_maps := ms\<rparr> \<or> (\<exists>b. StoreIndex ?i (n1\<lparr>dn_maps := ms\<rparr>) = (b, n'))"
      using a g False ok
      by (auto simp: applySetMapping_def Let_def split: if_splits option.splits outcome.splits prod.splits bool.splits)
    then have "others ?i n1 n' \<and> grows ?i [] n1 n'"
    proof (elim exE disjE)
      fix ms
      assume "n' = n1\<lparr>dn_maps := ms\<rparr>"
      then show ?thesis by (simp add: set_maps_frame)
    next
      fix ms b
      assume "StoreIndex ?i (n1\<lparr>dn_maps := ms\<rparr>) = (b, n')"
      from StoreIndex_frame [OF this] show ?thesis by (simp add: others_def grows_def)
    qed
    then show ?thesis using others_trans [OF gf(1)] grows_trans [OF gf(2) _ gf(3) [OF ok], of "[]" n'] by auto
  qed
qed

lemma core_Apply_wrote:
  assumes "core_Apply par s m n = (r, n')" and "\<not> deletes m"
  shows "wrote par s m r n n'"
proof -
  consider (doc) "m_Kind m = KindDoc" | (docs) "m_Kind m = KindDocs" | (other) "m_Kind m \<noteq> KindDoc" "m_Kind m \<noteq> KindDocs" by blast
  then show ?thesis
  proof cases
    case doc
    then show ?thesis using assms(1) by (intro applyDoc_wrote) (simp_all add: core_Apply_def)
  next
    case docs
    then show ?thesis using assms(1) by (intro applyDocs_wrote) (simp_all add: core_Apply_def wire_consts)
  next
    case other
    then have w: "written par s m = []" by (simp add: written_def)
    have "others (m_Index m) n n' \<and> grows (m_Index m) [] n n'"
      using assms other applyCreateIndex_frame [of par m n r n'] applySetMapping_frame [of par m n r n']
      by (auto simp: core_Apply_def applyAdmin_def deletes_def others_refl grows_refl split: if_splits)
    then show ?thesis using w by (intro wroteI [of m n n' "[]"]) auto
  qed
qed

lemma core_Apply_deletes:
  assumes "core_Apply par s m n = (r, n')" and "deletes m"
  shows "others (m_Index m) n n' \<and> m_Index m \<notin> set (dn_list n')"
proof -
  let ?n1 = "n\<lparr>dn_list := filter (\<lambda>x. x \<noteq> m_Index m) (dn_list n), dn_synced := (dn_synced n)(m_Index m := Map.empty), dn_tail := (dn_tail n)(m_Index m := [])\<rparr>"
  obtain b n2 where f: "fault ?n1 = (b, n2)" by (cases "fault ?n1")
  show ?thesis
    using assms f fault_frame [OF f]
    by (auto simp: core_Apply_def deletes_def wire_consts applyAdmin_def applyDeleteIndex_def DeleteIndex_def GetIndex_def Let_def others_def
        split: if_splits bool.splits)
qed

section \<open>The contract of an applier\<close>

lemma others_view:
  assumes "others i n n'" and "fst k \<noteq> i"
  shows "doc_view n' k = doc_view n k" and "doc_surv n' k = doc_surv n k"
  using assms by (auto simp: others_def doc_view_def doc_surv_def)

lemma grows_view:
  assumes "grows i ws n n'" and "fst k = i"
  shows "snd k \<notin> fst ` set ws \<Longrightarrow> doc_view n' k = doc_view n k"
    and "snd k \<in> fst ` set ws \<Longrightarrow> doc_view n' k = upd_docs Map.empty ws (snd k)"
    and "snd k \<notin> fst ` set ws \<Longrightarrow> doc_surv n' k \<subseteq> doc_surv n k"
proof -
  show "snd k \<notin> fst ` set ws \<Longrightarrow> doc_view n' k = doc_view n k"
    using assms by (auto simp: grows_def doc_view_def upd_docs_append upd_docs_other split: if_splits)
  show "doc_view n' k = upd_docs Map.empty ws (snd k)" if k: "snd k \<in> fst ` set ws"
  proof -
    have "ws \<noteq> []" using k by auto
    then show ?thesis using assms upd_docs_in [OF k] by (auto simp: grows_def doc_view_def upd_docs_append split: if_splits)
  qed
  show "doc_surv n' k \<subseteq> doc_surv n k" if k: "snd k \<notin> fst ` set ws"
  proof -
    have cut: "upd_docs m (take p ws) (snd k) = m (snd k)" for m p
      using k by (intro upd_docs_other) (auto dest: in_set_takeD)
    show ?thesis
    proof (cases "i \<in> set (dn_list n)")
      case True
      then show ?thesis
        using assms
        by (auto simp: grows_def doc_surv_def upd_docs_append cut)
           (metis min.cobounded1 min.commute nat_le_linear take_all min_def)
    next
      case False
      then show ?thesis using assms by (auto simp: grows_def doc_surv_def cut split: if_splits)
    qed
  qed
qed

lemma SyncWAL_frame:
  assumes "SyncWAL i n = (ok, n')"
  shows "doc_view n' k = doc_view n k" and "doc_surv n' k \<subseteq> insert (doc_view n k) (doc_surv n k)"
    and "ok \<Longrightarrow> fst k = i \<Longrightarrow> doc_surv n' k \<subseteq> {doc_view n k}" and "dn_list n' = dn_list n" and "dn_offset n' = dn_offset n"
    and "doc_surv n k \<subseteq> {doc_view n k} \<Longrightarrow> doc_surv n' k \<subseteq> {doc_view n k}"
proof -
  obtain b n1 where f: "fault n = (b, n1)" by (cases "fault n")
  note ff = fault_frame [OF f]
  have n': "\<not> b \<Longrightarrow> n' = n1\<lparr>dn_synced := (dn_synced n)(i := upd_docs (dn_synced n i) (dn_tail n i)), dn_tail := (dn_tail n)(i := [])\<rparr>" "b \<Longrightarrow> n' = n1" "ok = (\<not> b)"
    using assms f ff by (auto simp: SyncWAL_def upd_docs_def split: bool.splits)
  show v: "doc_view n' k = doc_view n k" using n' ff by (cases b) (auto simp: doc_view_def upd_docs_def)
  show "dn_list n' = dn_list n" "dn_offset n' = dn_offset n" using n' ff by (cases b; simp)+
  show s: "ok \<Longrightarrow> fst k = i \<Longrightarrow> doc_surv n' k \<subseteq> {doc_view n k}"
    using n' ff by (auto simp: doc_surv_def doc_view_def upd_docs_def)
  have o: "doc_surv n' k = doc_surv n k" if "b \<or> fst k \<noteq> i" using that n' ff by (cases b) (auto simp: doc_surv_def)
  show "doc_surv n' k \<subseteq> insert (doc_view n k) (doc_surv n k)" using s o n'(3) by (cases "b \<or> fst k \<noteq> i") auto
  show "doc_surv n' k \<subseteq> {doc_view n k}" if "doc_surv n k \<subseteq> {doc_view n k}" using that s o n'(3) by (cases "b \<or> fst k \<noteq> i") auto
qed

lemma flush_names_frame:
  "flush_names names n = (ok, n') \<Longrightarrow> doc_view n' k = doc_view n k \<and> doc_surv n' k \<subseteq> insert (doc_view n k) (doc_surv n k) \<and>
     (ok \<and> (fst k \<in> set names \<or> doc_surv n k \<subseteq> {doc_view n k}) \<longrightarrow> doc_surv n' k \<subseteq> {doc_view n k}) \<and> dn_offset n' = dn_offset n"
proof (induction names arbitrary: n ok)
  case (Cons name names)
  show ?case
  proof (cases "GetIndex name n")
    case False
    then have "flush_names names n = (ok, n')" using Cons.prems by simp
    moreover have "fst k = name \<Longrightarrow> doc_surv n k \<subseteq> {doc_view n k}" using False by (auto simp: GetIndex_def doc_surv_def doc_view_def)
    ultimately show ?thesis using Cons.IH by auto
  next
    case True
    obtain o1 n1 where s: "SyncWAL name n = (o1, n1)" by (cases "SyncWAL name n")
    obtain o2 n2 where r: "flush_names names n1 = (o2, n2)" by (cases "flush_names names n1")
    have e: "ok = (o1 \<and> o2)" "n' = n2" using Cons.prems True s r by auto
    note sf = SyncWAL_frame [OF s]
    show ?thesis using Cons.IH [OF r [folded e(2)]] sf(1,2,3,6) [of k] sf(5) e(1) by auto
  qed
qed auto

interpretation core_applier: keyed_applier "core_ops par unmarshal" "msg_keys par" "msg_val par" doc_view doc_surv doc_mark core_crash
proof
  fix s m r k and n n' :: "'a data_node"
  assume a: "sp_Apply (core_ops par unmarshal) s m n = (r, n')"
  then have ap: "core_Apply par s m n = (r, n')" by (simp add: core_ops_def)
  have view: "doc_view n' k = (if k \<in> msg_keys par s m then msg_val par s m k else doc_view n k) \<and> msg_keys par s m \<subseteq> doc_mark n'"
    if set: "settled r" for k
  proof (cases "deletes m")
    case True
    note d = core_Apply_deletes [OF ap True]
    have "written par s m = []" using True by (simp add: written_def deletes_def wire_consts)
    then show ?thesis
      using d others_view [of "m_Index m" n n' k] True
      by (auto simp: msg_keys_def msg_val_def doc_mark_def doc_view_def doc_surv_def upd_docs_def)
  next
    case False
    obtain ws where ws: "others (m_Index m) n n'" "grows (m_Index m) ws n n'" "ws = written par s m" "ws \<noteq> [] \<longrightarrow> m_Index m \<in> set (dn_touched n')"
      using core_Apply_wrote [OF ap False] set unfolding wrote_def by blast
    have "msg_keys par s m \<subseteq> doc_mark n'" using False ws(3,4) by (auto simp: msg_keys_def doc_mark_def)
    then show ?thesis
      using False ws(3) others_view(1) [OF ws(1), of k] grows_view(1,2) [OF ws(2), of k] by (auto simp: msg_keys_def msg_val_def)
  qed
  show "\<forall>e. r = Some e \<longrightarrow> IsPermanent e \<Longrightarrow> doc_view n' k = (if k \<in> msg_keys par s m then msg_val par s m k else doc_view n k) \<and> msg_keys par s m \<subseteq> doc_mark n'"
    using view by (simp add: settled_def)
  have oth: "others (m_Index m) n n'" using core_Apply_deletes [OF ap] core_Apply_wrote [OF ap] unfolding wrote_def by blast
  have part: "doc_view n' k = doc_view n k \<and> doc_surv n' k \<subseteq> doc_surv n k" if k: "k \<notin> msg_keys par s m"
  proof (cases "fst k = m_Index m")
    case True
    then have nd: "\<not> deletes m" "snd k \<notin> fst ` set (written par s m)" using k by (auto simp: msg_keys_def)
    then obtain ws where "grows (m_Index m) ws n n'" "fst ` set ws \<subseteq> fst ` set (written par s m)"
      using core_Apply_wrote [OF ap] unfolding wrote_def by blast
    then show ?thesis using grows_view(1,3) [of "m_Index m" ws n n' k] True nd(2) by blast
  next
    case False
    then show ?thesis using others_view [OF oth False] by simp
  qed
  show "k \<notin> msg_keys par s m \<Longrightarrow> doc_view n' k = doc_view n k \<and> doc_surv n' k \<subseteq> doc_surv n k \<and> (k \<in> doc_mark n \<longrightarrow> k \<in> doc_mark n')"
    using part oth by (auto simp: doc_mark_def others_def)
  show "sp_Load (core_ops par unmarshal) n' = sp_Load (core_ops par unmarshal) n"
    using oth by (simp add: core_ops_def offset_Load_def others_def)
next
  fix ok k and n n' :: "'a data_node"
  assume "sp_Flush (core_ops par unmarshal) n = (ok, n')"
  then have fl: "flush_names (dn_touched n) (n\<lparr>dn_touched := []\<rparr>) = (ok, n')" by (simp add: core_ops_def core_Flush_def)
  have same: "doc_view (n\<lparr>dn_touched := []\<rparr>) k = doc_view n k" "doc_surv (n\<lparr>dn_touched := []\<rparr>) k = doc_surv n k"
    by (simp_all add: doc_view_def doc_surv_def)
  show "doc_view n' k = doc_view n k \<and> doc_surv n' k \<subseteq> insert (doc_view n k) (doc_surv n k) \<and> (ok \<and> k \<in> doc_mark n \<longrightarrow> doc_surv n' k \<subseteq> {doc_view n k})"
    using flush_names_frame [OF fl, of k] same by (auto simp: doc_mark_def)
  show "sp_Load (core_ops par unmarshal) n' = sp_Load (core_ops par unmarshal) n"
    using flush_names_frame [OF fl] by (simp add: core_ops_def offset_Load_def)
next
  fix q ok k and n n' :: "'a data_node"
  assume s: "sp_Save (core_ops par unmarshal) q n = (ok, n')"
  obtain b n1 where f: "fault n = (b, n1)" by (cases "fault n")
  note ff = fault_frame [OF f]
  have n': "if b then n' = n1 \<and> \<not> ok else n' = n1\<lparr>dn_offset := Some (FormatUint (unat q))\<rparr> \<and> ok"
    using s f by (auto simp: core_ops_def offset_Save_def split: bool.splits)
  then show "doc_view n' k = doc_view n k \<and> doc_surv n' k \<subseteq> doc_surv n k" using ff by (auto simp: doc_view_def doc_surv_def split: if_splits)
  have "ParseUint (FormatUint (unat q)) = Some (unat q)" using unsigned_less [of q] by (intro ParseUint_FormatUint) simp
  then show "sp_Load (core_ops par unmarshal) n' = (if ok then Some q else sp_Load (core_ops par unmarshal) n)"
    using n' ff by (auto simp: core_ops_def offset_Load_def split: if_splits)
next
  fix k :: "string \<times> string" and n n' :: "'a data_node"
  assume c: "core_crash n n'"
  obtain p where p: "p \<le> length (dn_tail n (fst k))" "dn_tail n' (fst k) = []"
    "dn_synced n' (fst k) (snd k) = (if fst k \<in> set (dn_list n) then upd_docs (dn_synced n (fst k)) (take p (dn_tail n (fst k))) (snd k) else None)"
    using c unfolding core_crash_def by blast
  have l: "set (dn_list n') = set (dn_list n) \<union> set (dn_orphans n)" using c by (simp add: core_crash_def)
  show "doc_view n' k \<in> doc_surv n k \<and> doc_surv n' k \<subseteq> doc_surv n k"
    using p l by (auto simp: doc_view_def doc_surv_def upd_docs_def)
  show "sp_Load (core_ops par unmarshal) n' = sp_Load (core_ops par unmarshal) n"
    using c by (simp add: core_ops_def offset_Load_def core_crash_def)
qed

end
