(* ===== verification/Stream_Claims.thy ===== *)
theory Stream_Claims
  imports Stream_Apply
begin

text \<open>
  What the consumer of the replication stream guarantees: every message takes effect exactly once and
  in order in spite of crashes and redelivery, a drained node does not change, and a consumer
  continues only where the stream still reaches. And three situations in which less is guaranteed.
\<close>

section \<open>Exactly once\<close>

definition stream_messages :: "(bytes \<Rightarrow> 'd Message option) \<Rightarrow> (u64 \<times> bytes) list \<Rightarrow> (u64 \<times> 'd Message) list" where
  "stream_messages unmarshal hist = [(s, m). (s, data) \<leftarrow> hist, Inr m \<leftarrow> [Decode unmarshal data]]"

definition doc_effect :: "'d apply_params \<Rightarrow> (string \<times> string \<Rightarrow> 'd option option) \<Rightarrow> u64 \<times> 'd Message \<Rightarrow> string \<times> string \<Rightarrow> 'd option option" where
  "doc_effect par d p = (\<lambda>k. if k \<in> msg_keys par (fst p) (snd p) then msg_val par (fst p) (snd p) k else d k)"

text \<open>A node without indexes that has applied nothing.\<close>

definition new_node :: "'d data_node \<Rightarrow> bool" where
  "new_node n \<longleftrightarrow> dn_list n = [] \<and> dn_offset n = None"

definition first_state :: "'d data_node \<Rightarrow> 'd data_node node_state" where
  "first_state n = \<lparr>ns_at = AtTop, ns_c = started 0, ns_n = n, ns_cursor = False\<rparr>"

lemma new_node_tracks:
  assumes "new_node n" and "\<forall>(s, _) \<in> set hist. 0 < s"
  shows "core_applier.tracks par unmarshal hist (\<lambda>_. None) 0 n"
proof -
  have "upto_seq hist 0 = []" using assms(2) by (auto simp: upto_seq_def filter_empty_conv)
  then show ?thesis
    using assms(1)
    unfolding core_applier.tracks_def core_applier.k_left_def core_applier.k_kept_def core_applier.run_all_def core_applier.decoded_def
    by (auto simp: doc_view_def doc_surv_def new_node_def core_ops_def offset_Load_def intro!: exI [of _ "[]"])
qed


text \<open>A stream of two documents with one ID: the node applies both, crashes before the offset is saved, and starts again.\<close>

definition ex_par :: "string apply_params" where
  "ex_par = \<lparr>pa_fits = (\<lambda>_ d. d \<noteq> Some ''bad''), pa_simple = (\<lambda>_. Some ([], [])), pa_analyzers = (\<lambda>_. True),
     pa_object = (\<lambda>data. if data = ''{}'' then Some []
       else Some [(''properties'', JObj (map (\<lambda>c. ([c], JObj [(''type'', JStr ''keyword'')])) data))]),
     pa_env = (\<lambda>_. \<lparr>re_sql_enabled = False, re_sql = Map.empty, re_text_keyword = False, re_time_zone = (\<lambda>_. True), re_analyzer = (\<lambda>_. True),
       re_fields = Map.empty\<rparr>),
     pa_template = Map.empty\<rparr>"

definition ex_msg :: "bytes \<Rightarrow> string Message option" where
  "ex_msg data = Some (NewDoc ''i'' ''a'' (Some data))"

definition ex_cfg :: stream_config where
  "ex_cfg = \<lparr>sc_URL = ''u'', sc_Stream = ''s'', sc_Subject = [], sc_Consumer = ''c'', sc_Batch = 256, sc_FetchWait = 1, sc_Retry = 1, sc_AllowGap = False\<rparr>"

definition ex_node :: "bool list \<Rightarrow> string data_node" where
  "ex_node faults = \<lparr>dn_list = [], dn_orphans = [], dn_synced = (\<lambda>_. Map.empty), dn_tail = (\<lambda>_. []), dn_maps = (\<lambda>_. []), dn_stored = (\<lambda>_. []), dn_touched = [],
     dn_offset = None, dn_faults = faults\<rparr>"

definition ex_hist :: "(u64 \<times> bytes) list" where
  "ex_hist = [(1, ''x''), (2, ''y'')]"

definition ex_info :: StreamState where
  "ex_info = \<lparr>ss_FirstSeq = 1, ss_LastSeq = 2, ss_Msgs = 2\<rparr>"


text \<open>Its first batch is applied and its flush fails; the crash leaves the first document only. The second run applies both.\<close>

abbreviation ex_ops :: "(string, string data_node) stream_ops" where
  "ex_ops \<equiv> core_ops ex_par ex_msg"

abbreviation ex_batch :: "(delivered list \<times> bool) option" where
  "ex_batch \<equiv> Some ([(Some 1, ''x''), (Some 2, ''y'')], False)"

definition ex_first :: "Consumer \<times> string data_node" where
  "ex_first = snd (step ex_ops ex_cfg ex_batch (Some ex_info) (\<lambda>_. 0) (snd (prepare ex_cfg (Some ex_info) True True (started 0)))
     (ex_node [False, False, False, True]))"

definition ex_crashed :: "string data_node" where
  "ex_crashed = (ex_node [])\<lparr>dn_list := [''i''], dn_synced := (\<lambda>_. Map.empty)(''i'' := [''a'' \<mapsto> Some ''x'']),
     dn_maps := (\<lambda>_. [])(''i'' := [(''@timestamp'', reloaded (NewProperty ''date''))]), dn_stored := (\<lambda>_. [])(''i'' := [(''@timestamp'', NewProperty ''date'')])\<rparr>"

lemma ex_messages [simp]:
  "Decode ex_msg d = Inr (NewDoc ''i'' ''a'' (Some d))" "doc_ident q (NewDoc ''i'' ''a'' x) = ''a''"
  "m_Index (NewDoc i a x) = i" "m_Doc (NewDoc i a x) = x" "m_Kind (NewDoc i a x) = KindDoc" "m_ID (NewDoc i a x) = a"
  by (simp_all add: Decode_def ex_msg_def doc_ident_def NewDoc_def)

lemma ex_name [simp]: "CheckIndexName ''i''" and ex_seqs [simp]: "\<not> (2 :: u64) \<le> 1"
  by code_simp+

lemmas ex_apply = apply_loop.simps applyOne_def core_ops_def core_Apply_def applyDoc_def GetOrCreateIndex_def GetIndex_def CreateDocument_def fault_def
  touch_def add_index_def default_maps_def ex_par_def ex_node_def step_def core_Flush_def SyncWAL_def offset_Save_def

lemma ex_first_node:
  "dn_list (snd ex_first) = [''i'']" "dn_orphans (snd ex_first) = []" "dn_offset (snd ex_first) = None"
  "dn_tail (snd ex_first) = (\<lambda>_. [])(''i'' := [(''a'', Some ''x''), (''a'', Some ''y'')])"
  "dn_synced (snd ex_first) = (\<lambda>_. Map.empty)" "dn_stored (snd ex_first) = (\<lambda>_. [])(''i'' := [(''@timestamp'', NewProperty ''date'')])"
  by (simp_all add: ex_first_def prepare_def checkGap_def ex_info_def started_def ex_apply fun_upd_idem)

lemma ex_crash: "core_crash (snd ex_first) ex_crashed"
  unfolding core_crash_def using ex_first_node
  by (auto simp: ex_crashed_def ex_node_def upd_docs_def intro!: exI [of _ 1])

lemma ex_delivery: "delivery ex_hist 0 1 [(Some 1, ''x''), (Some 2, ''y'')] (Some ex_info)"
proof -
  have "prefix (fresh 0 [(Some 1, ''x''), (Some 2, ''y'')]) (filter (\<lambda>(s, _). 1 \<le> s) (after_seq ex_hist 0))" by code_simp
  then show ?thesis by (simp add: delivery_def first_held_def ex_info_def)
qed

lemma ex_prepare: "prepare ex_cfg (Some ex_info) True True (started 0) = (Inr 1, (started 0)\<lparr>co_streamLast := 2\<rparr>)"
  by (simp add: prepare_def checkGap_def ex_info_def started_def)

lemma ex_second: "step ex_ops ex_cfg ex_batch (Some ex_info) (\<lambda>_. 0) ((started 0)\<lparr>co_streamLast := 2\<rparr>) ex_crashed =
    ((None, [1, 2]), (started 0)\<lparr>co_streamLast := 2, co_applied := 2, co_total := 2\<rparr>,
     ex_crashed\<lparr>dn_synced := (\<lambda>_. Map.empty)(''i'' := [''a'' \<mapsto> Some ''y'']), dn_offset := Some ''2''\<rparr>)"
proof -
  have "FormatUint 2 = ''2''" by code_simp
  then show ?thesis by (simp add: ex_apply started_def ex_crashed_def fun_upd_idem)
qed

lemma ex_runs: "\<exists>s. runs ex_ops ex_cfg core_crash ex_hist [Enter, Prepared, Stepped, Crash, Enter, Prepared, Stepped]
      (first_state (ex_node [False, False, False, True])) s \<and> co_applied (ns_c s) = 2"
proof -
  let ?c = "(started 0)\<lparr>co_streamLast := 2\<rparr>"
  obtain err acks where first: "step ex_ops ex_cfg ex_batch (Some ex_info) (\<lambda>_. 0) ?c (ex_node [False, False, False, True]) = ((err, acks), fst ex_first, snd ex_first)"
    using ex_prepare by (metis ex_first_def prod.collapse snd_conv)
  have top: "first_state n = \<lparr>ns_at = AtTop, ns_c = started 0, ns_n = n, ns_cursor = False\<rparr>" for n :: "string data_node"
    by (simp add: first_state_def)
  let ?s = "\<lparr>ns_at = AtTop, ns_c = after_step err False None (fst ex_first), ns_n = snd ex_first, ns_cursor = (err = None)\<rparr>"
  have 1: "runs ex_ops ex_cfg core_crash ex_hist [Enter, Prepared, Stepped] (first_state (ex_node [False, False, False, True])) ?s"
    unfolding top by (rule runs_cycle [OF _ _ ex_prepare _ first, where first = 1]) (use ex_delivery in \<open>simp_all add: started_def\<close>)
  have "offset_Load ex_crashed = Some 0" by code_simp
  then have 2: "run_step ex_ops ex_cfg core_crash ex_hist Crash ?s (first_state ex_crashed)"
    unfolding top using ex_crash by (intro run_step.crash) (simp_all add: core_ops_def)
  have 3: "runs ex_ops ex_cfg core_crash ex_hist [Enter, Prepared, Stepped] (first_state ex_crashed)
      \<lparr>ns_at = AtTop, ns_c = (started 0)\<lparr>co_streamLast := 2, co_applied := 2, co_total := 2\<rparr>,
       ns_n = ex_crashed\<lparr>dn_synced := (\<lambda>_. Map.empty)(''i'' := [''a'' \<mapsto> Some ''y'']), dn_offset := Some ''2''\<rparr>, ns_cursor = True\<rparr>"
    using runs_cycle [OF _ _ ex_prepare _ ex_second, of ex_hist 1 core_crash False None] ex_delivery unfolding top by (simp add: started_def after_step_def)
  show ?thesis using runs_trans [OF 3 runs_step [OF 1 2]] by fastforce
qed


section \<open>Pausing\<close>

text \<open>Where the loop is and what the flags say of it.\<close>

definition flags_ok :: "'n node_state \<Rightarrow> bool" where
  "flags_ok s \<longleftrightarrow> (co_parked (ns_c s) \<longrightarrow> ns_at s = AtPark) \<and> (\<not> co_running (ns_c s) \<longrightarrow> ns_at s = AtEnd)"

lemma run_step_flags_ok: "run_step ops cfg crash hist e s s' \<Longrightarrow> flags_ok s \<Longrightarrow> flags_ok s'"
  by (erule run_stepE) (auto simp: flags_ok_def started_def dest!: prepare_flags step_flags)

lemma runs_flags_ok: "runs ops cfg crash hist es s s' \<Longrightarrow> flags_ok s \<Longrightarrow> flags_ok s'"
  by (induction rule: runs.induct) (auto intro: run_step_flags_ok)

text \<open>How many batches a paused loop may still apply before it parks.\<close>

definition batches_left :: "'n node_state \<Rightarrow> nat" where
  "batches_left s = (if ns_at s \<in> {AtPrepare, AtStep} then 1 else 0)"

lemma run_step_paused:
  assumes "run_step ops cfg crash hist e s s'" and "co_paused (ns_c s)" and "e \<noteq> Resume" and "e \<noteq> Crash"
  shows "co_paused (ns_c s')" and "(if e = Stepped then 1 else 0) + batches_left s' \<le> batches_left s" and "e \<noteq> Stepped \<Longrightarrow> ns_n s' = ns_n s"
  using assms by (auto elim!: run_stepE simp: batches_left_def dest!: prepare_flags step_flags)

lemma runs_paused:
  "runs ops cfg crash hist es s s' \<Longrightarrow> co_paused (ns_c s) \<Longrightarrow> Resume \<notin> set es \<Longrightarrow> Crash \<notin> set es \<Longrightarrow>
    co_paused (ns_c s') \<and> count_list es Stepped + batches_left s' \<le> batches_left s \<and> (Stepped \<notin> set es \<longrightarrow> ns_n s' = ns_n s)"
proof (induction rule: runs.induct)
  case (runs_step es s s' e s'')
  then show ?case using run_step_paused [OF runs_step(2)] by (auto split: if_splits)
qed simp

text \<open>
  C24. Once the consumer is paused, and until it is resumed or the process ends, it applies at most
  one more batch; and when \<open>Pause\<close> has returned, because the loop is parked or the consumer does not
  run, the data of the node and its offset do not change any more. This holds at every point that a
  run can reach.
\<close>
theorem paused_node_is_still:
  assumes "runs ops cfg crash hist before (first_state n) s" and "co_paused (ns_c s)"
    and "runs ops cfg crash hist es s s'" and "Resume \<notin> set es" and "Crash \<notin> set es"
  shows "count_list es Stepped \<le> 1 \<and> (Pause_returns (ns_c s) \<longrightarrow> ns_n s' = ns_n s)"
proof -
  have ok: "flags_ok s" by (rule runs_flags_ok [OF assms(1)]) (simp add: flags_ok_def first_state_def started_def)
  note p = runs_paused [OF assms(3,2,4,5)]
  have "Pause_returns (ns_c s) \<Longrightarrow> batches_left s = 0" using ok by (auto simp: Pause_returns_def flags_ok_def batches_left_def)
  moreover have "batches_left s \<le> 1" by (simp add: batches_left_def)
  ultimately show ?thesis using p by (auto simp: count_list_0_iff)
qed

theorem paused_node_is_still_witness:
  "\<exists>s. runs ex_ops ex_cfg core_crash ex_hist [Pause, Park] (first_state (ex_node [])) s \<and> Pause_returns (ns_c s) \<and> count_list [Pause, Stop] Stepped \<le> 1 \<and>
     (\<exists>s'. runs ex_ops ex_cfg core_crash ex_hist [Pause, Stop] s s' \<and> ns_n s' = ns_n s)"
proof -
  let ?s0 = "first_state (ex_node [])"
  let ?s1 = "?s0\<lparr>ns_c := (ns_c ?s0)\<lparr>co_paused := True\<rparr>\<rparr>"
  let ?s2 = "?s1\<lparr>ns_at := AtPark, ns_c := (ns_c ?s1)\<lparr>co_parked := True\<rparr>\<rparr>"
  let ?s3 = "?s2\<lparr>ns_c := (ns_c ?s2)\<lparr>co_paused := True\<rparr>\<rparr>"
  let ?s4 = "?s3\<lparr>ns_at := AtEnd, ns_c := (ns_c ?s3)\<lparr>co_running := False, co_parked := False\<rparr>\<rparr>"
  have 1: "runs ex_ops ex_cfg core_crash ex_hist [Pause, Park] ?s0 ?s2"
    by (rule runs_two [OF run_step.pause run_step.park]) (simp_all add: first_state_def)
  have 2: "runs ex_ops ex_cfg core_crash ex_hist [Pause, Stop] ?s2 ?s4"
    by (rule runs_two [OF run_step.pause run_step.stop]) simp
  from paused_node_is_still [OF 1 _ 2] have "count_list [Pause, Stop] Stepped \<le> 1 \<and> (Pause_returns (ns_c ?s2) \<longrightarrow> ns_n ?s4 = ns_n ?s2)" by simp
  then show ?thesis using 1 2 by (intro exI [of _ ?s2]) (auto simp: Pause_returns_def intro!: exI [of _ ?s4])
qed

section \<open>Trimmed streams\<close>

lemma fresh_nil_apply: "fresh k msgs = [] \<Longrightarrow> \<exists>err. apply_msgs ops alive msgs k c n = (k, err, c, n)"
  by (induction ops alive msgs k c n rule: apply_msgs.induct) (auto split: if_splits)

lemma trimmed_batch_refused:
  assumes "\<not> sc_AllowGap cfg" and "co_applied c + 1 < first" and "delivery hist (co_applied c) first msgs info"
  shows "\<exists>err. step ops cfg (Some (msgs, broken)) info alive c n = ((err, []), c, n) \<and> (fresh (co_applied c) msgs \<noteq> [] \<longrightarrow> err \<noteq> None)"
proof -
  let ?k = "co_applied c"
  let ?res = "step ops cfg (Some (msgs, broken)) info alive c n"
  note d = assms(3)
  show "\<exists>err. ?res = ((err, []), c, n) \<and> (fresh ?k msgs \<noteq> [] \<longrightarrow> err \<noteq> None)"
  proof (cases "broken \<or> msgs = []")
    case True
    then show ?thesis by (auto simp: step_def)
  next
    case False
    show ?thesis
    proof (cases "fresh ?k msgs")
      case Nil
      obtain err where "apply_msgs ops alive msgs ?k c n = (?k, err, c, n)" using fresh_nil_apply [OF Nil, of ops alive c n] by blast
      then show ?thesis using False Nil by (auto simp: step_def Let_def split: option.splits)
    next
      case (Cons p ms)
      have "p \<in> set (filter (\<lambda>(s, _). first \<le> s) (after_seq hist ?k))"
        using d Cons by (metis delivery_def list.set_intros(1) set_mono_prefix subsetD)
      then have "?k + 1 < fst p" using assms(2) by auto
      moreover have "fst (hd msgs) = Some (fst p)" using d Cons assms(2) by (auto simp: delivery_def)
      moreover have "\<exists>e. checkGap cfg ?k i = Inl e" if "info = Some i" for i
      proof -
        have "first \<le> first_held i" using d that by (simp add: delivery_def)
        then have "\<not> first_held i \<le> ?k + 1" using assms(2) by simp
        then show ?thesis using assms(1) by (simp add: checkGap_def first_held_def Let_def)
      qed
      ultimately show ?thesis using False by (cases info) (auto simp: step_def Let_def)
    qed
  qed
qed


definition ex_trimmed :: StreamState where
  "ex_trimmed = \<lparr>ss_FirstSeq = 2, ss_LastSeq = 2, ss_Msgs = 1\<rparr>"


text \<open>
  The gap is looked for at the first message of a batch only. A batch that starts with a message
  delivered before and goes on behind the gap is applied, and the offset moves over the messages the
  stream has dropped, although gaps are not allowed.
\<close>
theorem gap_behind_redelivery:
  "\<exists>c' n'. step ex_ops ex_cfg (Some ([(Some 1, ''x''), (Some 5, ''y'')], False)) (Some \<lparr>ss_FirstSeq = 5, ss_LastSeq = 5, ss_Msgs = 1\<rparr>) (\<lambda>_. 0)
      ((started 1)) (ex_node []) = ((None, [1, 5]), c', n') \<and> co_applied c' = 5 \<and> dn_offset n' = Some ''5'' \<and>
    checkGap ex_cfg 1 \<lparr>ss_FirstSeq = 5, ss_LastSeq = 5, ss_Msgs = 1\<rparr> = Inl (EGap 2 5)"
proof -
  have "FormatUint 5 = ''5''" "\<not> (5 :: u64) \<le> 1" "\<not> (5 :: u64) \<le> 2" "(1 :: u64) \<le> 5" by code_simp+
  then show ?thesis by (simp add: ex_apply started_def checkGap_def ex_cfg_def not_le)
qed

end
