(* ===== verification/Stream_Admin.thy ===== *)
theory Stream_Admin
  imports Stream_Claims
begin

text \<open>
  Messages that change indexes. They can be redelivered; but a failed deletion, an empty mapping and
  a restart between two mapping messages have effects that applying again does not repair.
\<close>

section \<open>Applying again\<close>

lemma merge_fields_present:
  "fst ` set req \<subseteq> dom (map_of cur) \<Longrightarrow> \<exists>e. merge_fields req cur changed = (e, changed, cur)"
  by (induction req cur changed rule: merge_fields.induct) (auto split: option.splits)

lemma merge_fields_dom:
  "merge_fields req cur changed = (None, changed', cur') \<Longrightarrow>
    fst ` set req \<subseteq> dom (map_of cur') \<and> dom (map_of cur) \<subseteq> dom (map_of cur') \<and> (\<not> changed' \<longrightarrow> cur' = cur \<and> \<not> changed)"
proof (induction req cur changed rule: merge_fields.induct)
  case (2 f p req cur changed)
  show ?case
  proof (cases "map_of cur f")
    case None
    have "dom (map_of (AList.update f p cur)) = insert f (dom (map_of cur))" by (simp add: update_conv')
    then show ?thesis using 2(1) [OF None] 2(3) None by auto
  next
    case (Some old)
    then show ?thesis using 2 by (auto split: if_splits)
  qed
qed auto

lemma dom_update_all: "dom (map_of (foldl (\<lambda>m (f, p). AList.update f p m) cur req)) = dom (map_of cur) \<union> fst ` set req"
  by (induction req arbitrary: cur) (auto simp: update_conv')

lemma dom_SetMappings: "dom (map_of (SetMappings (Some req) cur)) \<supseteq> dom (map_of cur) \<union> fst ` set req" "SetMappings r cur \<noteq> []"
proof -
  show "dom (map_of (SetMappings (Some req) cur)) \<supseteq> dom (map_of cur) \<union> fst ` set req"
    unfolding SetMappings_def Let_def dom_update_all by (auto simp: dom_map_of_conv_image_fst [symmetric] update_conv' map_of_map)
  have "dom (map_of (SetMappings r cur)) \<noteq> {}"
    unfolding SetMappings_def Let_def dom_update_all by (auto simp: dom_map_of_conv_image_fst [symmetric] update_conv')
  then show "SetMappings r cur \<noteq> []" by auto
qed

text \<open>A node on which every requested field is mapped.\<close>

definition mapped :: "'d apply_params \<Rightarrow> 'd Message \<Rightarrow> 'd data_node \<Rightarrow> bool" where
  "mapped par m n \<longleftrightarrow> (\<exists>req requested. CheckIndexName (m_Index m) \<and> pa_object par (m_Data m) = Some req \<and>
     Request (pa_env par (m_Data m)) req = Gives (Some requested) \<and> GetIndex (m_Index m) n \<and> dn_maps n (m_Index m) \<noteq> [] \<and>
     fst ` set requested \<subseteq> dom (map_of (dn_maps n (m_Index m))))"

lemma applySetMapping_mapped:
  assumes "mapped par m n"
  shows "\<exists>r. applySetMapping par m n = (r, n) \<and> settled r"
proof -
  obtain req requested where a: "CheckIndexName (m_Index m)" "pa_object par (m_Data m) = Some req"
      "Request (pa_env par (m_Data m)) req = Gives (Some requested)" "GetIndex (m_Index m) n" "dn_maps n (m_Index m) \<noteq> []"
      "fst ` set requested \<subseteq> dom (map_of (dn_maps n (m_Index m)))"
    using assms by (auto simp: mapped_def)
  obtain e where e: "merge_fields requested (dn_maps n (m_Index m)) False = (e, False, dn_maps n (m_Index m))"
    using merge_fields_present [OF a(6)] by blast
  have "n\<lparr>dn_maps := dn_maps n\<rparr> = n" by simp
  then show ?thesis using a e by (cases e) (simp_all add: applySetMapping_def GetOrCreateIndex_def settled_def Permanent_def IsPermanent_def)
qed

lemma GetOrCreateIndex_get: "GetOrCreateIndex maps i n = ((True, ex), n1) \<Longrightarrow> GetIndex i n1"
  by (auto simp: GetOrCreateIndex_def GetIndex_def add_index_def split: if_splits prod.splits bool.splits)

lemma StoreIndex_keeps: "StoreIndex i n = (ok, n') \<Longrightarrow> dn_list n' = dn_list n \<and> dn_maps n' = dn_maps n"
  by (auto simp: StoreIndex_def fault_def split: prod.splits bool.splits list.splits)

lemma applySetMapping_maps:
  assumes "applySetMapping par m n = (None, n1)"
  shows "mapped par m n1"
proof -
  let ?i = "m_Index m"
  obtain req where r: "CheckIndexName ?i" "pa_object par (m_Data m) = Some req"
    using assms by (auto simp: applySetMapping_def split: if_splits option.splits)
  obtain ok ex n2 where g: "GetOrCreateIndex (default_maps (pa_template par)) ?i n = ((ok, ex), n2)" by (metis surj_pair)
  have "ok" and "\<exists>requested. Request (pa_env par (m_Data m)) req = Gives (Some requested)"
    using assms r g by (cases ok; auto simp: applySetMapping_def split: outcome.splits option.splits)+
  then obtain requested where q: "ok" "Request (pa_env par (m_Data m)) req = Gives (Some requested)" by blast
  have in2: "GetIndex ?i n2" using g q(1) by (auto intro: GetOrCreateIndex_get)
  let ?cur = "dn_maps n2 ?i"
  obtain e ch cur' where mf: "merge_fields requested ?cur False = (e, ch, cur')" by (metis surj_pair)
  let ?clean = "map (\<lambda>(f, p). (f, clean_fields p))"
  have keys: "fst ` set (?clean ms) = fst ` set ms" for ms by force
  have fin: "mapped par m n1" if s: "StoreIndex ?i (n2\<lparr>dn_maps := (dn_maps n2)(?i := SetMappings (Some (?clean ms)) base)\<rparr>) = (b, n1)"
    and sub: "fst ` set requested \<subseteq> fst ` set ms" for ms base b
  proof -
    have "fst ` set requested \<subseteq> dom (map_of (SetMappings (Some (?clean ms)) base))"
      using sub dom_SetMappings(1) [where req = "?clean ms" and cur = base] unfolding keys by blast
    then show ?thesis using StoreIndex_keeps [OF s] r q in2 dom_SetMappings(2) by (auto simp: mapped_def GetIndex_def)
  qed
  show ?thesis
  proof (cases "ex \<and> ?cur \<noteq> []")
    case True
    then have e: "e = None" using assms r g q mf by (cases e) (simp_all add: applySetMapping_def)
    note d = merge_fields_dom [OF mf [unfolded e]]
    show ?thesis
    proof (cases ch)
      case False
      then have "n1 = n2" using assms r g q mf e True by (simp add: applySetMapping_def)
      then show ?thesis using r q in2 True d False by (auto simp: mapped_def)
    next
      case ch: True
      obtain b n3 where s: "StoreIndex ?i (n2\<lparr>dn_maps := (dn_maps n2)(?i := SetMappings (Some (?clean cur')) cur')\<rparr>) = (b, n3)" by (metis surj_pair)
      then have "n1 = n3" using assms r g q mf e True ch by (simp add: applySetMapping_def)
      then show ?thesis using fin [OF s [folded \<open>n1 = n3\<close>]] d by (auto simp: dom_map_of_conv_image_fst)
    qed
  next
    case False
    obtain b n3 where s: "StoreIndex ?i (n2\<lparr>dn_maps := (dn_maps n2)(?i := SetMappings (Some (?clean requested)) ?cur)\<rparr>) = (b, n3)" by (metis surj_pair)
    then have "n1 = n3" using assms r g q False by (auto simp: applySetMapping_def)
    then show ?thesis using fin [OF s [folded \<open>n1 = n3\<close>]] by simp
  qed
qed

text \<open>
  C27. Applying a message that creates or deletes an index or sets mappings again, after it has been
  applied, leaves the node as it is: it either succeeds or is skipped as a message that can never be
  applied, and it is never retried.
\<close>
theorem admin_redelivery:
  assumes "m_Kind m = KindAdmin" and "core_Apply par s m n = (None, n1)"
  shows "\<exists>r. core_Apply par s' m n1 = (r, n1) \<and> (\<forall>e. r = Some e \<longrightarrow> IsPermanent e)"
proof -
  have a: "applyAdmin par m n = (None, n1)" "\<And>q n. core_Apply par q m n = applyAdmin par m n"
    using assms by (simp_all add: core_Apply_def wire_consts)
  consider (create) "m_Op m = OpCreateIndex" | (delete) "m_Op m = OpDeleteIndex" | (set) "m_Op m = OpSetMapping"
    using a(1) by (auto simp: applyAdmin_def split: if_splits)
  then show ?thesis
  proof cases
    case create
    then have "applyCreateIndex par m n = (None, n1)" using a(1) by (simp add: applyAdmin_def)
    then have "GetIndex (m_Index m) n1 \<and> CheckIndexName (m_Index m)"
      by (auto simp: applyCreateIndex_def GetIndex_def add_index_def split: if_splits option.splits prod.splits bool.splits outcome.splits)
    then show ?thesis using a(2) create by (simp add: applyAdmin_def applyCreateIndex_def)
  next
    case delete
    then have "core_Apply par s m n = (None, n1)" "deletes m" using assms by (simp_all add: deletes_def)
    from core_Apply_deletes [OF this] show ?thesis using a(2) delete by (simp add: applyAdmin_def applyDeleteIndex_def GetIndex_def wire_consts)
  next
    case set
    then have "applySetMapping par m n = (None, n1)" using a(1) by (simp add: applyAdmin_def wire_consts)
    from applySetMapping_mapped [OF applySetMapping_maps [OF this]]
    show ?thesis using a(2) set by (auto simp: applyAdmin_def wire_consts settled_def)
  qed
qed

text \<open>Messages for the index \<open>i\<close>; the body of a mapping message names its fields, one letter each.\<close>

definition ex_admin :: "Op \<Rightarrow> bytes \<Rightarrow> string Message" where
  "ex_admin op data = \<lparr>m_Kind = KindAdmin, m_Index = ''i'', m_ID = [], m_Doc = None, m_Docs = [], m_Op = op, m_Data = data\<rparr>"

abbreviation ex_mapped :: "string data_node" where
  "ex_mapped \<equiv> snd (core_Apply ex_par 1 (ex_admin OpSetMapping ''f'') (ex_node []))"

theorem admin_redelivery_witness:
  "fst (core_Apply ex_par 1 (ex_admin OpSetMapping ''f'') (ex_node [])) = None \<and>
   (\<exists>r. core_Apply ex_par 1 (ex_admin OpSetMapping ''f'') ex_mapped = (r, ex_mapped) \<and> r \<notin> {Some (OtherError e) |e. True})"
proof -
  have f: "fst (core_Apply ex_par 1 (ex_admin OpSetMapping ''f'') (ex_node [])) = None" by code_simp
  then have "core_Apply ex_par 1 (ex_admin OpSetMapping ''f'') (ex_node []) = (None, ex_mapped)" by (metis prod.collapse)
  from admin_redelivery [OF _ this, of 1] show ?thesis using f by (auto simp: ex_admin_def IsPermanent_def)
qed

section \<open>What applying again does not repair\<close>

text \<open>A node that stops after its logs are synchronised and starts again.\<close>

definition restarted :: "'d data_node \<Rightarrow> 'd data_node" where
  "restarted n = n\<lparr>dn_list := dn_list n @ dn_orphans n, dn_orphans := [], dn_touched := [], dn_tail := (\<lambda>_. []),
     dn_synced := (\<lambda>i. if i \<in> set (dn_list n) then upd_docs (dn_synced n i) (dn_tail n i) else Map.empty),
     dn_maps := (\<lambda>i. map (map_prod id reloaded) (dn_stored n i))\<rparr>"

lemma restarted_crash: "core_crash n (restarted n)"
  unfolding core_crash_def restarted_def by (auto intro!: exI [of _ "length (dn_tail n _)"])

lemma core_crash_absent: "core_crash n n' \<Longrightarrow> i \<notin> set (dn_list n) \<Longrightarrow> dn_synced n' i = Map.empty"
proof (rule ext)
  fix k
  assume "core_crash n n'" and "i \<notin> set (dn_list n)"
  then show "dn_synced n' i k = None" unfolding core_crash_def by metis
qed

text \<open>
  When the metadata cannot be changed while an index is being deleted, the deletion is retried,
  finds no index and counts as applied; after the next restart the index is there again, without
  documents.
\<close>
theorem delete_index_retry:
  assumes "GetIndex (m_Index m) n" and "deletes m" and "dn_faults n = True # rest"
    and "apply_loop (core_ops par unmarshal) q m (Suc alive) c n = (ok, c', n')"
  shows "ok \<and> \<not> GetIndex (m_Index m) n' \<and> (\<forall>n''. core_crash n' n'' \<longrightarrow> GetIndex (m_Index m) n'' \<and> dn_synced n'' (m_Index m) = Map.empty)"
proof -
  let ?i = "m_Index m"
  let ?n1 = "n\<lparr>dn_list := filter (\<lambda>x. x \<noteq> ?i) (dn_list n), dn_synced := (dn_synced n)(?i := Map.empty), dn_tail := (dn_tail n)(?i := []),
    dn_faults := rest, dn_orphans := ?i # dn_orphans n\<rparr>"
  have 1: "core_Apply par q m n = (Some (OtherError ''delete index''), ?n1)"
    using assms(1-3) by (simp add: core_Apply_def deletes_def wire_consts applyAdmin_def applyDeleteIndex_def DeleteIndex_def fault_def)
  have 2: "core_Apply par q m ?n1 = (None, ?n1)"
    using assms(2) by (simp add: core_Apply_def deletes_def wire_consts applyAdmin_def applyDeleteIndex_def GetIndex_def)
  have "sp_Apply (core_ops par unmarshal) = core_Apply par" by (simp add: core_ops_def)
  then have "ok \<and> n' = ?n1"
    using assms(4) 1 2 by (cases alive) (auto simp: apply_loop.simps IsPermanent_def Let_def)
  moreover have "GetIndex ?i n'' \<and> dn_synced n'' ?i = Map.empty" if c: "core_crash ?n1 n''" for n''
    using c core_crash_absent [OF c, of ?i] by (simp add: core_crash_def GetIndex_def)
  ultimately show ?thesis by (auto simp: GetIndex_def)
qed

theorem delete_index_retry_witness:
  "\<exists>c' n'. apply_loop ex_ops 1 (ex_admin OpDeleteIndex []) 1 (started 0) ((ex_node [True])\<lparr>dn_list := [''i'']\<rparr>) = (True, c', n') \<and>
     \<not> GetIndex ''i'' n' \<and> GetIndex ''i'' (restarted n')"
proof -
  obtain ok c' n' where r: "apply_loop ex_ops 1 (ex_admin OpDeleteIndex []) (Suc 0) (started 0) ((ex_node [True])\<lparr>dn_list := [''i'']\<rparr>) = (ok, c', n')"
    by (metis surj_pair)
  from delete_index_retry [OF _ _ _ r, of "[]"] show ?thesis
    using r restarted_crash [of n'] by (auto simp: GetIndex_def ex_admin_def deletes_def ex_node_def)
qed

lemma empty_mapping_panics:
  assumes "m_Kind m = KindAdmin" and "m_Op m = OpSetMapping" and "CheckIndexName (m_Index m)" and "pa_object par (m_Data m) = Some []"
  shows "\<exists>e n'. core_Apply par q m n = (Some e, n') \<and> \<not> IsPermanent e"
  using assms
  by (auto simp: core_Apply_def applyAdmin_def applySetMapping_def Request_def wire_consts panics_def IsPermanent_def split: prod.splits bool.splits)

lemma never_applied:
  assumes "\<And>n. \<exists>e n'. sp_Apply ops q m n = (Some e, n') \<and> \<not> IsPermanent e"
  shows "\<not> fst (apply_loop ops q m alive c n)"
proof (induction alive arbitrary: c n)
  case 0
  obtain e n' where "sp_Apply ops q m n = (Some e, n')" "\<not> IsPermanent e" using assms by blast
  then show ?case by (simp add: apply_loop.simps [of _ _ _ 0] Let_def)
next
  case (Suc k)
  obtain e n' where "sp_Apply ops q m n = (Some e, n')" "\<not> IsPermanent e" using assms by blast
  then show ?case using Suc by (simp add: apply_loop.simps [of _ _ _ "Suc k"] Let_def)
qed

text \<open>
  C32. A message that sets the mappings of an index to an empty object is never got past: in every
  run, whatever is retried and however often the node starts again, the offset stays before it. (The
  request is taken for no mappings, a nil pointer that is then dereferenced.)
\<close>
theorem empty_mapping_blocks_node:
  assumes "sorted_wrt (<) (map fst hist)" and "\<forall>(s, _) \<in> set hist. 0 < s" and "\<not> sc_AllowGap cfg" and "new_node n"
    and "runs (core_ops par unmarshal) cfg core_crash hist events (first_state n) s"
    and "(q, data) \<in> set hist" and "Decode unmarshal data = Inr m" and "m_Kind m = KindAdmin" and "m_Op m = OpSetMapping"
    and "CheckIndexName (m_Index m)" and "pa_object par (m_Data m) = Some []"
  shows "co_applied (ns_c s) < q"
proof -
  have un: "sp_unmarshal (core_ops par unmarshal) = unmarshal" "sp_Apply (core_ops par unmarshal) = core_Apply par" by (simp_all add: core_ops_def)
  have st: "\<not> fst (applyOne (core_ops par unmarshal) q data alive c n)" for alive c n
    using never_applied [of "core_ops par unmarshal" q m alive c n] empty_mapping_panics [OF assms(8-11)] assms(7) by (simp add: applyOne_def un)
  have t: "core_applier.tracks par unmarshal hist (\<lambda>_. None) (co_applied (ns_c (first_state n))) (ns_n (first_state n))"
    using new_node_tracks [OF assms(4,2)] by (simp add: first_state_def started_def)
  have "co_applied (ns_c (first_state n)) < q" using assms(2,6) by (auto simp: first_state_def started_def)
  from core_applier.runs_stuck [OF assms(1,3,6) st assms(5) t this] show ?thesis .
qed

text \<open>A stream with one such message, which the node fetches and cannot apply.\<close>

theorem empty_mapping_blocks_node_witness:
  "\<exists>s. runs (core_ops ex_par (\<lambda>d. Some (ex_admin OpSetMapping d))) ex_cfg core_crash [(1, ''{}'')] [Enter, Prepared, Stepped] (first_state (ex_node [])) s \<and>
     co_applied (ns_c s) < 1"
proof -
  let ?ops = "core_ops ex_par (\<lambda>d. Some (ex_admin OpSetMapping d))"
  obtain err acks c' n' where st: "step ?ops ex_cfg (Some ([(Some 1, ''{}'')], False)) (Some ex_info) (\<lambda>_. 0) ((started 0)\<lparr>co_streamLast := 2\<rparr>) (ex_node [])
      = ((err, acks), c', n')"
    by (metis surj_pair)
  have d: "delivery [(1, ''{}'')] 0 1 [(Some 1, ''{}'')] (Some ex_info)"
    by (simp add: delivery_def after_seq_def first_held_def ex_info_def)
  have "runs ?ops ex_cfg core_crash [(1, ''{}'')] [Enter, Prepared, Stepped] (first_state (ex_node []))
      \<lparr>ns_at = AtTop, ns_c = after_step err False None c', ns_n = n', ns_cursor = (err = None)\<rparr>"
    unfolding first_state_def by (rule runs_cycle [OF _ _ ex_prepare _ st, where first = 1]) (use d in \<open>simp_all add: started_def\<close>)
  from empty_mapping_blocks_node [OF _ _ _ _ this, of 1 "''{}''" "ex_admin OpSetMapping ''{}''"] this show ?thesis
    by (auto simp: ex_cfg_def new_node_def ex_node_def Decode_def ex_admin_def wire_consts ex_par_def)
qed

text \<open>
  Two nodes apply the same two messages: one maps the field \<open>f\<close>, the next maps \<open>f\<close> in the same
  way and \<open>g\<close>. A node that runs all the time has mapped both fields; a node that was restarted
  between the messages takes the unchanged field for a different one, skips the second message, and
  does not map \<open>g\<close>.
\<close>
theorem mapping_differs_after_restart:
  "core_crash ex_mapped (restarted ex_mapped) \<and>
   fst (core_Apply ex_par 2 (ex_admin OpSetMapping ''fg'') ex_mapped) = None \<and>
   map_of (dn_maps (snd (core_Apply ex_par 2 (ex_admin OpSetMapping ''fg'') ex_mapped)) ''i'') ''g'' = Some (NewProperty ''keyword'') \<and>
   (\<exists>e. fst (core_Apply ex_par 2 (ex_admin OpSetMapping ''fg'') (restarted ex_mapped)) = Some e \<and> IsPermanent e) \<and>
   map_of (dn_maps (snd (core_Apply ex_par 2 (ex_admin OpSetMapping ''fg'') (restarted ex_mapped))) ''i'') ''g'' = None"
proof (intro conjI)
  show "core_crash ex_mapped (restarted ex_mapped)" by (rule restarted_crash)
  show "fst (core_Apply ex_par 2 (ex_admin OpSetMapping ''fg'') ex_mapped) = None" by code_simp
  show "map_of (dn_maps (snd (core_Apply ex_par 2 (ex_admin OpSetMapping ''fg'') ex_mapped)) ''i'') ''g'' = Some (NewProperty ''keyword'')" by code_simp
  have "fst (core_Apply ex_par 2 (ex_admin OpSetMapping ''fg'') (restarted ex_mapped)) = Some (Permanent ''field is mapped differently'')" by code_simp
  then show "\<exists>e. fst (core_Apply ex_par 2 (ex_admin OpSetMapping ''fg'') (restarted ex_mapped)) = Some e \<and> IsPermanent e"
    by (simp add: Permanent_def IsPermanent_def)
  show "map_of (dn_maps (snd (core_Apply ex_par 2 (ex_admin OpSetMapping ''fg'') (restarted ex_mapped))) ''i'') ''g'' = None" by code_simp
qed

end
