(* ===== verification/Paths.thy ===== *)
theory Paths
  imports Prelude
begin

text \<open>
  Slash-separated paths: \<open>path.Clean\<close> and \<open>path.Join\<close> of the standard library, and the names that
  \<open>pkg/backup\<close> accepts for the entries of an archive. The main fact is that an accepted name stays
  below the directory it is joined to.
\<close>

section \<open>Package path\<close>

abbreviation slash :: char where
  "slash \<equiv> CHR ''/''"

fun join_slash :: "string list \<Rightarrow> string" where
  "join_slash [] = []"
| "join_slash [e] = e"
| "join_slash (e # es) = e @ slash # join_slash es"

text \<open>The elements of a path from left to right; \<open>acc\<close> holds those that are left so far, the last one first.\<close>

fun resolve :: "bool \<Rightarrow> string list \<Rightarrow> string list \<Rightarrow> string list" where
  "resolve rooted acc [] = rev acc"
| "resolve rooted acc (e # es) =
     (if e = [] \<or> e = ''.'' then resolve rooted acc es
      else if e = ''..'' then
        (case acc of
           [] \<Rightarrow> if rooted then resolve rooted [] es else resolve rooted [''..''] es
         | a # acc' \<Rightarrow> if a = ''..'' then resolve rooted (''..'' # acc) es else resolve rooted acc' es)
      else resolve rooted (e # acc) es)"

definition Clean :: "string \<Rightarrow> string" where
  "Clean s =
     (let rooted = HasPrefix s ''/'';
          out = (if rooted then ''/'' else []) @ join_slash (resolve rooted [] (Split_char slash s))
      in if out = [] then ''.'' else out)"

definition path_Join :: "string \<Rightarrow> string \<Rightarrow> string" where
  "path_Join a b = (if a = [] then (if b = [] then [] else Clean b) else if b = [] then Clean a else Clean (a @ slash # b))"

text \<open>\<open>filepath.Rel\<close> on absolute clean paths: what they have in common is left out.\<close>

definition elements :: "string \<Rightarrow> string list" where
  "elements s = filter (\<lambda>e. e \<noteq> []) (Split_char slash s)"

fun rel_elements :: "string list \<Rightarrow> string list \<Rightarrow> string list" where
  "rel_elements (b # bs) (t # ts) = (if b = t then rel_elements bs ts else replicate (length (b # bs)) ''..'' @ t # ts)"
| "rel_elements bs ts = replicate (length bs) ''..'' @ ts"

definition Rel :: "string \<Rightarrow> string \<Rightarrow> string" where
  "Rel parent child = (let r = join_slash (rel_elements (elements parent) (elements child)) in if r = [] then ''.'' else r)"

definition inside :: "string \<Rightarrow> string \<Rightarrow> bool" where
  "inside parent child \<longleftrightarrow> (let rel = Rel parent child in rel = ''.'' \<or> rel \<noteq> ''..'' \<and> \<not> HasPrefix rel ''../'')"

definition manifestName :: string where
  "manifestName = ''manifest.json''"

definition metadataName :: string where
  "metadataName = ''metadata.json''"

definition dataPrefix :: string where
  "dataPrefix = ''data/''"

definition safeName :: "string \<Rightarrow> string option" where
  "safeName name =
     (let clean = Clean name in
      if clean \<noteq> name \<or> HasPrefix clean ''/'' \<or> clean = ''.'' \<or> clean = ''..'' \<or> HasPrefix clean ''../'' \<or> Contains clean [CHR 0x5C] then None
      else if clean \<noteq> manifestName \<and> clean \<noteq> metadataName \<and> \<not> HasPrefix clean dataPrefix then None
      else Some clean)"

section \<open>Elements of clean paths\<close>

definition proper :: "string \<Rightarrow> bool" where
  "proper e \<longleftrightarrow> e \<noteq> [] \<and> e \<noteq> ''.'' \<and> e \<noteq> ''..'' \<and> slash \<notin> set e"

lemma Split_slash: "e \<in> set (Split_char slash s) \<Longrightarrow> slash \<notin> set e"
proof (induction s arbitrary: e)
  case (Cons c s)
  then show ?case by (cases "Split_char slash s") (auto split: if_splits)
qed simp

lemma Split_nonempty [simp]: "Split_char c s \<noteq> []"
  by (induction s) (auto split: list.splits)

lemma Split_join: "es \<noteq> [] \<Longrightarrow> \<forall>e \<in> set es. slash \<notin> set e \<Longrightarrow> Split_char slash (join_slash es) = es"
  by (induction es rule: join_slash.induct) (simp_all add: Split_char_none Split_char_append)

lemma join_Split: "join_slash (Split_char slash s) = s"
proof (induction s)
  case (Cons c s)
  obtain p ps where p: "Split_char slash s = p # ps" by (cases "Split_char slash s") simp_all
  show ?case using Cons by (cases ps) (simp_all add: p)
qed simp

lemma join_append: "es \<noteq> [] \<Longrightarrow> fs \<noteq> [] \<Longrightarrow> join_slash (es @ fs) = join_slash es @ slash # join_slash fs"
proof (induction es rule: join_slash.induct)
  case (2 e)
  then show ?case by (cases fs) simp_all
qed auto

text \<open>What is left of a relative path: steps up, then proper elements.\<close>

lemma resolve_shape:
  "\<forall>e \<in> set es. slash \<notin> set e \<Longrightarrow> acc = ps @ replicate k ''..'' \<Longrightarrow> list_all proper ps \<Longrightarrow>
    \<exists>k' qs. resolve False acc es = replicate k' ''..'' @ qs \<and> list_all proper qs"
proof (induction es arbitrary: acc ps k)
  case Nil
  then show ?case by (intro exI [of _ k] exI [of _ "rev ps"]) simp
next
  case (Cons e es)
  have es: "\<forall>e \<in> set es. slash \<notin> set e" using Cons.prems by simp
  consider (skip) "e = [] \<or> e = ''.''" | (up) "e = ''..''" "ps = []" | (pop) p ps' where "e = ''..''" "ps = p # ps'" | (push) "proper e"
    using Cons.prems by (cases ps) (auto simp: proper_def)
  then show ?case
  proof cases
    case skip
    then show ?thesis using Cons.IH [OF es Cons.prems(2,3)] by auto
  next
    case up
    then show ?thesis using Cons.IH [OF es, of "replicate (Suc k) ''..''" "[]" "Suc k"] Cons.prems by (cases k) auto
  next
    case (pop p ps')
    then have "p \<noteq> ''..''" using Cons.prems(3) by (simp add: proper_def)
    then show ?thesis using Cons.IH [OF es, of "ps' @ replicate k ''..''" ps' k] Cons.prems pop by simp
  next
    case push
    then show ?thesis using Cons.IH [OF es, of "e # acc" "e # ps" k] Cons.prems by (simp add: proper_def)
  qed
qed

text \<open>Resolving proper elements keeps them.\<close>

lemma resolve_proper: "list_all proper es \<Longrightarrow> resolve rooted acc es = rev acc @ es"
  by (induction es arbitrary: acc) (auto simp: proper_def)

lemma resolve_append: "resolve rooted acc (es @ fs) = resolve rooted (rev (resolve rooted acc es)) fs"
  by (induction rooted acc es rule: resolve.induct) (auto split: list.splits)

definition plain :: "string \<Rightarrow> bool" where
  "plain e \<longleftrightarrow> e \<noteq> [] \<and> e \<noteq> ''.'' \<and> slash \<notin> set e"

lemma resolve_plain: "list_all plain acc \<Longrightarrow> \<forall>e \<in> set es. slash \<notin> set e \<Longrightarrow> list_all plain (resolve rooted acc es)"
proof (induction es arbitrary: acc)
  case (Cons e es)
  have es: "\<forall>e \<in> set es. slash \<notin> set e" "plain ''..''" "e \<noteq> [] \<Longrightarrow> e \<noteq> ''.'' \<Longrightarrow> plain e" using Cons.prems by (auto simp: plain_def)
  show ?case
    using Cons.IH [OF _ es(1), of acc] Cons.IH [OF _ es(1), of "''..'' # acc"] Cons.IH [OF _ es(1), of "tl acc"] Cons.IH [OF _ es(1), of "e # acc"]
      Cons.prems(1) es(2,3) by (cases rooted; cases acc) auto
qed simp

lemma clean_relative:
  assumes "Clean s = s" and "\<not> HasPrefix s ''/''" and "s \<noteq> ''.''" and "s \<noteq> ''..''" and "\<not> HasPrefix s ''../''"
  shows "list_all proper (Split_char slash s)"
proof -
  let ?es = "resolve False [] (Split_char slash s)"
  have s: "join_slash ?es = s" using assms(1-3) by (auto simp: Clean_def Let_def split: if_splits)
  obtain k qs where k: "?es = replicate k ''..'' @ qs" "list_all proper qs"
    using resolve_shape [of "Split_char slash s" "[]" "[]" 0] Split_slash by auto
  have ne: "?es \<noteq> []" using assms(1-3) by (auto simp: Clean_def Let_def split: if_splits)
  have "k = 0"
  proof (cases k)
    case (Suc j)
    then have "?es = ''..'' # replicate j ''..'' @ qs" using k(1) by simp
    then have "s = ''..'' \<or> (\<exists>r. s = ''..'' @ slash # r)" using s by (metis join_slash.simps(2,3) list.exhaust)
    then show ?thesis using assms(4,5) by (auto simp: HasPrefix_def)
  qed simp
  then have "?es = qs" using k by simp
  moreover from this have "Split_char slash (join_slash ?es) = ?es" using ne k(2) by (intro Split_join) (auto simp: proper_def list_all_iff)
  ultimately show ?thesis using s k(2) by simp
qed

lemma safeName_proper:
  assumes "safeName name = Some c"
  shows "c = name" and "list_all proper (Split_char slash c)" and "c = manifestName \<or> c = metadataName \<or> HasPrefix c dataPrefix"
  using assms clean_relative [of name] by (auto simp: safeName_def Let_def split: if_splits)

lemma Clean_join:
  assumes "list_all proper es" and "es \<noteq> []"
  shows "Clean (join_slash es) = join_slash es"
proof -
  obtain e fs where es: "es = e # fs" using assms(2) by (cases es) auto
  have e: "e \<noteq> []" "slash \<notin> set e" using assms(1) by (auto simp: es proper_def)
  have hd: "\<not> HasPrefix (join_slash es) ''/''" using e unfolding es by (cases e; cases fs) (auto simp: HasPrefix_def)
  have "join_slash es \<noteq> []" using e unfolding es by (cases fs) auto
  moreover have "Split_char slash (join_slash es) = es" using assms by (intro Split_join) (auto simp: list_all_iff proper_def)
  ultimately show ?thesis using hd resolve_proper [OF assms(1), of False "[]"] by (simp add: Clean_def Let_def)
qed

text \<open>The path of a clean name below a clean directory.\<close>

definition below :: "string \<Rightarrow> string \<Rightarrow> string" where
  "below dir name = (if dir = ''.'' then name else if dir = ''/'' then ''/'' @ name else dir @ ''/'' @ name)"

text \<open>
  C26. A name that is accepted for an entry of an archive stays below the directory it is extracted to:
  joining the two gives the clean path of the directory followed by the name as it stands, in which
  no element is empty or leads upwards.
\<close>
theorem safe_names_stay_below:
  assumes "safeName name = Some c" and "dest \<noteq> []"
  shows "path_Join dest c = below (Clean dest) c \<and> list_all proper (Split_char slash c) \<and> c = name"
proof -
  note c = safeName_proper [OF assms(1)]
  let ?root = "HasPrefix dest ''/''"
  let ?ds = "resolve ?root [] (Split_char slash dest)" and ?cs = "Split_char slash c"
  have ne: "c \<noteq> []" using c(2) by (auto simp: proper_def)
  have split: "Split_char slash (dest @ slash # c) = Split_char slash dest @ ?cs"
  proof -
    have "dest @ slash # c = join_slash (Split_char slash dest @ ?cs)" by (simp add: join_append join_Split)
    then show ?thesis using Split_join [of "Split_char slash dest @ ?cs"] Split_slash by auto
  qed
  have res: "resolve ?root [] (Split_char slash (dest @ slash # c)) = ?ds @ ?cs"
    unfolding split resolve_append using resolve_proper [OF c(2)] by simp
  have root: "HasPrefix (dest @ slash # c) ''/'' = ?root" using assms(2) by (cases dest) (auto simp: HasPrefix_def)
  have Join: "path_Join dest c = (if ?root then ''/'' else []) @ join_slash (?ds @ ?cs)"
  proof -
    have "join_slash (?ds @ ?cs) \<noteq> []" using ne by (cases "?ds = []") (simp_all add: join_append join_Split)
    then show ?thesis using assms(2) ne by (simp add: path_Join_def Clean_def Let_def root res)
  qed
  have "path_Join dest c = below (Clean dest) c"
  proof (cases "?ds = []")
    case True
    then show ?thesis using Join by (cases ?root) (simp_all add: below_def Clean_def Let_def join_Split)
  next
    case False
    have shape: "list_all plain ?ds" using resolve_plain [of "[]"] Split_slash by simp
    obtain e es where es: "?ds = e # es" using False by (cases ?ds) auto
    have "plain e" using shape es by simp
    then have "join_slash ?ds \<noteq> [] \<and> join_slash ?ds \<noteq> ''.'' \<and> join_slash ?ds \<noteq> ''/''"
      unfolding es by (cases es) (auto simp: plain_def append_eq_Cons_conv)
    then show ?thesis using Join False by (auto simp: below_def Clean_def Let_def join_append join_Split)
  qed
  then show ?thesis using c by simp
qed

theorem safe_names_stay_below_witness:
  "path_Join ''./d//.restore-1'' ''data/i/x'' = ''d/.restore-1/data/i/x'' \<and> list_all proper (Split_char slash ''data/i/x'')"
proof -
  have "safeName ''data/i/x'' = Some ''data/i/x''" "Clean ''./d//.restore-1'' = ''d/.restore-1''" by code_simp+
  from safe_names_stay_below [OF this(1), of "''./d//.restore-1''"] this(2) show ?thesis by (simp add: below_def)
qed

end
