(* ===== verification/Node_Restore.thy ===== *)
theory Node_Restore
  imports Paths
begin

text \<open>
  Reading the archive of a whole node and restoring it (\<open>archive.go\<close> and \<open>restore.go\<close> of
  \<open>pkg/backup\<close>, \<open>metadata.Load\<close>). An archive is what its reader gets to see: the entries of the tar
  file with their contents, and whether the compressed stream and its checksum are right. The hash
  function and the decoding of JSON are arguments. A directory is the list of its files with their
  paths.
\<close>

section \<open>Archives\<close>

datatype nb_error = ErrCorrupt | ErrNotEmpty | ErrNotQuiescent | ErrNotFound | ErrBusy | ErrDir | ErrCancelled | ErrIO

definition FormatVersion :: int where
  "FormatVersion = 1"

definition maxManifestSize :: int where
  "maxManifestSize = 64 * 2 ^ 20"

definition LimitReader :: "int \<Rightarrow> bytes \<Rightarrow> bytes" where
  "LimitReader n data = (if int (length data) \<le> n then data else take (nat n) data)"

record File =
  fi_Size :: nat
  fi_SHA256 :: string

text \<open>An instant in UTC to the second: year, month, day, hour, minute, second.\<close>

type_synonym instant = "nat \<times> nat \<times> nat \<times> nat \<times> nat \<times> nat"

record Manifest =
  mf_Version :: int
  mf_CreatedAt :: instant
  mf_LastApplied :: u64
  mf_Indexes :: "string list"
  mf_Docs :: "(string \<times> nat) list"
  mf_Files :: "(string \<times> File) list"

datatype tar_type = TypeReg | TypeDir | TypeOther

record tar_entry =
  te_Name :: string
  te_Type :: tar_type
  te_data :: bytes
  te_broken :: bool

record archive =
  ar_gzip :: bool
  ar_entries :: "tar_entry list"
  ar_ends :: bool
  ar_sum :: bool

type_synonym file_tree = "(string \<times> bytes) list"

record codec =
  cd_hash :: "bytes \<Rightarrow> string"
  cd_manifest :: "bytes \<Rightarrow> Manifest option"
  cd_metadata :: "bytes \<Rightarrow> (string \<times> bytes) list option"

text \<open>What has been read so far; the files are kept when they are extracted.\<close>

record reading =
  rd_manifest :: "Manifest option"
  rd_got :: "(string \<times> File) list"
  rd_files :: "file_tree option"

definition describe :: "codec \<Rightarrow> bytes \<Rightarrow> File" where
  "describe cd data = \<lparr>fi_Size = length data, fi_SHA256 = cd_hash cd data\<rparr>"

definition described :: "codec \<Rightarrow> file_tree \<Rightarrow> (string \<times> File) list" where
  "described cd files = map (\<lambda>(f, b). (f, describe cd b)) files"

lemma described_simps [simp]:
  "described cd [] = []" "described cd (xs @ ys) = described cd xs @ described cd ys" "described cd [(f, b)] = [(f, describe cd b)]"
  "described cd ((f, b) # xs) = (f, describe cd b) # described cd xs"
  "map fst (described cd xs) = map fst xs" "map_of (described cd xs) g = map_option (describe cd) (map_of xs g)" "fst ` set (described cd xs) = fst ` set xs"
  by (simp_all add: described_def case_prod_unfold image_image map_of_map comp_def) (induction xs; auto)

text \<open>A path that cannot be created: it exists, or it would lie below a file or above one.\<close>

definition blocked :: "file_tree \<Rightarrow> string \<Rightarrow> bool" where
  "blocked files name \<longleftrightarrow> list_ex (\<lambda>(f, _). f = name \<or> HasPrefix name (f @ ''/'') \<or> HasPrefix f (name @ ''/'')) files"

definition readEntry :: "codec \<Rightarrow> tar_entry \<Rightarrow> string \<Rightarrow> reading \<Rightarrow> nb_error + reading" where
  "readEntry cd e name st =
     (let got = rd_got st @ [(name, describe cd (te_data e))] in
      case rd_files st of
        None \<Rightarrow> if te_broken e then Inl ErrCorrupt else Inr (st\<lparr>rd_got := got\<rparr>)
      | Some files \<Rightarrow>
          if blocked files name then Inl ErrIO
          else if te_broken e then Inl ErrCorrupt
          else Inr (st\<lparr>rd_got := got, rd_files := Some (files @ [(name, te_data e)])\<rparr>))"

definition read_one :: "codec \<Rightarrow> tar_entry \<Rightarrow> reading \<Rightarrow> nb_error + reading" where
  "read_one cd e st =
     (if te_Type e = TypeDir then Inr st
      else if te_Type e \<noteq> TypeReg then Inl ErrCorrupt
      else case safeName (te_Name e) of
        None \<Rightarrow> Inl ErrCorrupt
      | Some name \<Rightarrow>
          if map_of (rd_got st) name \<noteq> None \<or> name = manifestName \<and> rd_manifest st \<noteq> None then Inl ErrCorrupt
          else if name = manifestName then
            if te_broken e then Inl ErrCorrupt
            else (case cd_manifest cd (LimitReader maxManifestSize (te_data e)) of
                    None \<Rightarrow> Inl ErrCorrupt
                  | Some m \<Rightarrow> Inr (st\<lparr>rd_manifest := Some m\<rparr>))
          else readEntry cd e name st)"

text \<open>\<open>alive\<close> is how often the loop runs before its context is cancelled.\<close>

fun read_entries :: "codec \<Rightarrow> nat \<Rightarrow> tar_entry list \<Rightarrow> bool \<Rightarrow> reading \<Rightarrow> nb_error + reading" where
  "read_entries cd 0 es ends st = Inl ErrCancelled"
| "read_entries cd (Suc k) [] ends st = (if ends then Inr st else Inl ErrCorrupt)"
| "read_entries cd (Suc k) (e # es) ends st =
     (case read_one cd e st of Inl err \<Rightarrow> Inl err | Inr st' \<Rightarrow> read_entries cd k es ends st')"

definition matchManifest :: "Manifest \<Rightarrow> (string \<times> File) list \<Rightarrow> bool" where
  "matchManifest m got \<longleftrightarrow>
     list_all (\<lambda>name. map_of got name \<noteq> None \<and> map_of got name = map_of (mf_Files m) name) (sort (map fst (mf_Files m))) \<and>
     list_all (\<lambda>(name, _). map_of (mf_Files m) name \<noteq> None) got"

definition readArchive :: "codec \<Rightarrow> nat \<Rightarrow> archive option \<Rightarrow> bool \<Rightarrow> nb_error + Manifest \<times> (string \<times> File) list \<times> file_tree" where
  "readArchive cd alive arch extract =
     (case arch of
        None \<Rightarrow> Inl ErrIO
      | Some a \<Rightarrow>
          if \<not> ar_gzip a then Inl ErrCorrupt
          else case read_entries cd alive (ar_entries a) (ar_ends a) \<lparr>rd_manifest = None, rd_got = [], rd_files = if extract then Some [] else None\<rparr> of
            Inl err \<Rightarrow> Inl err
          | Inr st \<Rightarrow>
              if \<not> ar_sum a then Inl ErrCorrupt
              else (case rd_manifest st of
                      None \<Rightarrow> Inl ErrCorrupt
                    | Some m \<Rightarrow>
                        if mf_Version m \<noteq> FormatVersion then Inl ErrCorrupt
                        else if \<not> matchManifest m (rd_got st) then Inl ErrCorrupt
                        else Inr (m, rd_got st, case rd_files st of None \<Rightarrow> [] | Some files \<Rightarrow> files)))"

definition Verify :: "codec \<Rightarrow> nat \<Rightarrow> archive option \<Rightarrow> nb_error + Manifest" where
  "Verify cd alive arch = (case readArchive cd alive arch False of Inl err \<Rightarrow> Inl err | Inr (m, _) \<Rightarrow> Inr m)"

section \<open>Restoring\<close>

text \<open>
  A node that is not serving: how many indexes are loaded, what lies in its data directory (each name
  with the files below it, a plain file as one with an empty path), its metadata, and which of the
  storage operations to come fail.
\<close>

record bnode =
  bn_loaded :: nat
  bn_dirs :: "(string \<times> file_tree) list"
  bn_meta :: "(string \<times> bytes) list"
  bn_faults :: "bool list"

definition io_fault :: "bnode \<Rightarrow> bool \<times> bnode" where
  "io_fault n = (case bn_faults n of [] \<Rightarrow> (False, n) | b # bs \<Rightarrow> (b, n\<lparr>bn_faults := bs\<rparr>))"

definition checkEmpty :: "bnode \<Rightarrow> nb_error option \<times> bnode" where
  "checkEmpty n =
     (if 0 < bn_loaded n then (Some ErrNotEmpty, n)
      else case io_fault n of
        (True, n1) \<Rightarrow> (Some ErrIO, n1)
      | (False, n1) \<Rightarrow>
          (if list_ex (\<lambda>(name, _). \<not> HasPrefix name ''_'' \<and> \<not> HasPrefix name ''.'') (bn_dirs n1) then Some ErrNotEmpty else None, n1))"

definition top_name :: "string \<Rightarrow> string" where
  "top_name path = fst (cut_at slash (drop (length dataPrefix) path))"

definition tops :: "file_tree \<Rightarrow> string list" where
  "tops files = sort (remdups [top_name f. (f, _) \<leftarrow> files, HasPrefix f dataPrefix])"

definition subtree :: "file_tree \<Rightarrow> string \<Rightarrow> file_tree" where
  "subtree files t =
     [(drop (length dataPrefix + length t) f, b). (f, b) \<leftarrow> files, f = dataPrefix @ t \<or> HasPrefix f (dataPrefix @ t @ ''/'')]"

fun move_each :: "file_tree \<Rightarrow> string list \<Rightarrow> string list \<Rightarrow> bnode \<Rightarrow> (nb_error option \<times> string list) \<times> bnode" where
  "move_each files [] moved n = ((None, moved), n)"
| "move_each files (t # ts) moved n =
     (if map_of (bn_dirs n) t \<noteq> None then ((Some ErrNotEmpty, moved), n)
      else case io_fault n of
        (True, n1) \<Rightarrow> ((Some ErrIO, moved), n1)
      | (False, n1) \<Rightarrow> move_each files ts (moved @ [t]) (n1\<lparr>bn_dirs := bn_dirs n1 @ [(t, subtree files t)]\<rparr>))"

definition moveIndexes :: "file_tree \<Rightarrow> bnode \<Rightarrow> (nb_error option \<times> string list) \<times> bnode" where
  "moveIndexes files n =
     (if tops files = [] then ((None, []), n)
      else case io_fault n of
        (True, n1) \<Rightarrow> ((Some ErrIO, []), n1)
      | (False, n1) \<Rightarrow> move_each files (tops files) [] n1)"

text \<open>\<open>metadata.Load\<close>: keys that are not in the backup are deleted one by one, then the others written.\<close>

fun delete_keys :: "string list \<Rightarrow> bnode \<Rightarrow> bool \<times> bnode" where
  "delete_keys [] n = (True, n)"
| "delete_keys (k # ks) n =
     (case io_fault n of
        (True, n1) \<Rightarrow> (False, n1)
      | (False, n1) \<Rightarrow> delete_keys ks (n1\<lparr>bn_meta := AList.delete k (bn_meta n1)\<rparr>))"

fun set_keys :: "(string \<times> bytes) list \<Rightarrow> bnode \<Rightarrow> bool \<times> bnode" where
  "set_keys [] n = (True, n)"
| "set_keys ((k, v) # kvs) n =
     (case io_fault n of
        (True, n1) \<Rightarrow> (False, n1)
      | (False, n1) \<Rightarrow> set_keys kvs (n1\<lparr>bn_meta := AList.update k v (bn_meta n1)\<rparr>))"

definition metadata_Load :: "(string \<times> bytes) list \<Rightarrow> bnode \<Rightarrow> bool \<times> bnode" where
  "metadata_Load entries n =
     (case io_fault n of
        (True, n1) \<Rightarrow> (False, n1)
      | (False, n1) \<Rightarrow>
          (case delete_keys (filter (\<lambda>k. map_of entries k = None) (map fst (bn_meta n1))) n1 of
             (False, n2) \<Rightarrow> (False, n2)
           | (True, n2) \<Rightarrow> set_keys entries n2))"

definition readMetadata :: "codec \<Rightarrow> file_tree \<Rightarrow> (string \<times> bytes) list option" where
  "readMetadata cd files = (case map_of files metadataName of None \<Rightarrow> None | Some raw \<Rightarrow> cd_metadata cd raw)"

text \<open>What was moved is removed again; the temporary directory is always removed.\<close>

definition undo_moves :: "string list \<Rightarrow> bnode \<Rightarrow> bnode" where
  "undo_moves moved n = n\<lparr>bn_dirs := filter (\<lambda>(t, _). t \<notin> set moved) (bn_dirs n)\<rparr>"

definition Restore :: "codec \<Rightarrow> nat \<Rightarrow> archive option \<Rightarrow> bnode \<Rightarrow> (nb_error + Manifest) \<times> bnode" where
  "Restore cd alive arch n =
     (case checkEmpty n of
        (Some err, n1) \<Rightarrow> (Inl err, n1)
      | (None, n1) \<Rightarrow>
          (case io_fault n1 of
             (True, n2) \<Rightarrow> (Inl ErrIO, n2)
           | (False, n2) \<Rightarrow>
               (case readArchive cd alive arch True of
                  Inl err \<Rightarrow> (Inl err, n2)
                | Inr (m, _, files) \<Rightarrow>
                    (case readMetadata cd files of
                       None \<Rightarrow> (Inl ErrCorrupt, n2)
                     | Some entries \<Rightarrow>
                         (case moveIndexes files n2 of
                            ((Some err, moved), n3) \<Rightarrow> (Inl err, undo_moves moved n3)
                          | ((None, moved), n3) \<Rightarrow>
                              (case metadata_Load entries n3 of
                                 (False, n4) \<Rightarrow> (Inl ErrIO, undo_moves moved n4)
                               | (True, n4) \<Rightarrow> (Inr m, n4)))))))"

text \<open>
  \<open>VerifyDeep\<close>: the archive is restored, the indexes are loaded and their documents counted. Loading
  them and counting is the engine's (\<open>None\<close> when the index is not loaded or cannot be counted).
\<close>

record engine =
  eg_load :: "bnode \<Rightarrow> bool"
  eg_count :: "bnode \<Rightarrow> string \<Rightarrow> nat option"

definition VerifyDeep :: "codec \<Rightarrow> engine \<Rightarrow> nat \<Rightarrow> archive option \<Rightarrow> bnode \<Rightarrow> (nb_error + Manifest) \<times> bnode" where
  "VerifyDeep cd eg alive arch n =
     (case Restore cd alive arch n of
        (Inl err, n1) \<Rightarrow> (Inl err, n1)
      | (Inr m, n1) \<Rightarrow>
          if \<not> eg_load eg n1 then (Inl ErrCorrupt, n1)
          else if list_all (\<lambda>name. eg_count eg n1 name = Some (case map_of (mf_Docs m) name of None \<Rightarrow> 0 | Some c \<Rightarrow> c)) (mf_Indexes m) then (Inr m, n1)
          else (Inl ErrCorrupt, n1))"

section \<open>What is read\<close>

definition reading_ok :: "codec \<Rightarrow> reading \<Rightarrow> bool" where
  "reading_ok cd st \<longleftrightarrow> distinct (map fst (rd_got st)) \<and> (\<forall>f \<in> fst ` set (rd_got st). safeName f = Some f \<and> f \<noteq> manifestName) \<and>
     (\<forall>files. rd_files st = Some files \<longrightarrow> rd_got st = described cd files)"

lemma readEntry_ok:
  assumes "readEntry cd e name st = Inr st'" and "reading_ok cd st" and "safeName name = Some name" and "name \<noteq> manifestName" and "map_of (rd_got st) name = None"
  shows "reading_ok cd st'" and "rd_files st' = None \<longleftrightarrow> rd_files st = None"
proof -
  have "name \<notin> fst ` set (rd_got st)" using assms(5) by (simp add: map_of_eq_None_iff)
  then show "reading_ok cd st'"
    using assms(1-4) by (auto simp: readEntry_def reading_ok_def Let_def image_image split: option.splits if_splits) force?
  show "rd_files st' = None \<longleftrightarrow> rd_files st = None" using assms(1) by (auto simp: readEntry_def Let_def split: option.splits if_splits)
qed

lemma read_one_ok:
  assumes "read_one cd e st = Inr st'" and "reading_ok cd st"
  shows "reading_ok cd st'" and "rd_files st' = None \<longleftrightarrow> rd_files st = None"
proof -
  have "st' = st \<or> (\<exists>m. st' = st\<lparr>rd_manifest := Some m\<rparr>) \<or>
      (\<exists>name. safeName (te_Name e) = Some name \<and> name \<noteq> manifestName \<and> map_of (rd_got st) name = None \<and> readEntry cd e name st = Inr st')"
    using assms(1) by (auto simp: read_one_def split: if_splits option.splits)
  moreover have "safeName name = Some name" if "safeName (te_Name e) = Some name" for name using that safeName_proper(1) [OF that] by simp
  ultimately show "reading_ok cd st'" and "rd_files st' = None \<longleftrightarrow> rd_files st = None"
    using assms(2) readEntry_ok [of cd e _ st st'] by (auto simp: reading_ok_def)
qed

lemma read_entries_ok:
  "read_entries cd alive es ends st = Inr st' \<Longrightarrow> reading_ok cd st \<Longrightarrow> reading_ok cd st' \<and> (rd_files st' = None \<longleftrightarrow> rd_files st = None)"
proof (induction cd alive es ends st rule: read_entries.induct)
  case (3 cd k e es ends st)
  then show ?case using read_one_ok [of cd e st] by (auto split: sum.splits)
qed (auto split: if_splits)

lemma matchManifest_iff:
  "matchManifest m got \<longleftrightarrow> (\<forall>f \<in> fst ` set (mf_Files m). map_of got f \<noteq> None \<and> map_of got f = map_of (mf_Files m) f) \<and>
     (\<forall>f \<in> fst ` set got. map_of (mf_Files m) f \<noteq> None)"
  unfolding matchManifest_def list_all_iff set_sort set_map case_prod_unfold by blast

lemma matchManifest_files:
  assumes "matchManifest m (described cd files)"
  shows "map_of (mf_Files m) f = map_option (describe cd) (map_of files f)"
proof (cases "map_of (mf_Files m) f")
  case (Some w)
  then have "f \<in> fst ` set (mf_Files m)" by (metis map_of_eq_None_iff option.distinct(1))
  then have "map_of (described cd files) f = map_of (mf_Files m) f" using assms unfolding matchManifest_iff by blast
  then show ?thesis by simp
next
  case None
  then have "f \<notin> fst ` set files" using assms unfolding matchManifest_iff by auto
  then show ?thesis using None by (simp add: map_of_eq_None_iff [THEN iffD2])
qed

lemma readArchive_sound:
  assumes "readArchive cd alive arch True = Inr (m, got, files)"
  shows "distinct (map fst files)" and "\<forall>(f, _) \<in> set files. safeName f = Some f \<and> f \<noteq> manifestName"
    and "map_of (mf_Files m) f = map_option (describe cd) (map_of files f)"
proof -
  obtain a st where a: "arch = Some a"
      "read_entries cd alive (ar_entries a) (ar_ends a) \<lparr>rd_manifest = None, rd_got = [], rd_files = Some []\<rparr> = Inr st"
      "rd_manifest st = Some m" "matchManifest m (rd_got st)" "files = (case rd_files st of None \<Rightarrow> [] | Some files \<Rightarrow> files)"
    using assms by (auto simp: readArchive_def split: option.splits if_splits sum.splits)
  have "reading_ok cd \<lparr>rd_manifest = None, rd_got = [], rd_files = Some []\<rparr>" by (simp add: reading_ok_def)
  from read_entries_ok [OF a(2) this] have ok: "reading_ok cd st" "rd_files st = Some files" using a(5) by (auto split: option.splits)
  then have got: "rd_got st = described cd files" by (simp add: reading_ok_def)
  show "distinct (map fst files)" using ok(1) got by (simp add: reading_ok_def)
  show "\<forall>(f, _) \<in> set files. safeName f = Some f \<and> f \<noteq> manifestName" using ok(1) got by (auto simp: reading_ok_def)
  show "map_of (mf_Files m) f = map_option (describe cd) (map_of files f)" using a(4) got by (intro matchManifest_files) simp
qed

section \<open>What restoring changes\<close>

lemma io_fault_keeps: "io_fault n = (b, n') \<Longrightarrow> bn_dirs n' = bn_dirs n \<and> bn_meta n' = bn_meta n \<and> bn_loaded n' = bn_loaded n"
  by (auto simp: io_fault_def split: list.splits)

lemma move_each_effect:
  "move_each files ts moved n = ((r, moved'), n') \<Longrightarrow> distinct ts \<Longrightarrow>
    \<exists>us vs. ts = us @ vs \<and> moved' = moved @ us \<and> bn_dirs n' = bn_dirs n @ map (\<lambda>t. (t, subtree files t)) us \<and> bn_meta n' = bn_meta n \<and>
      (\<forall>t \<in> set us. t \<notin> fst ` set (bn_dirs n)) \<and> (r = None \<longleftrightarrow> vs = [])"
proof (induction ts arbitrary: moved n)
  case Nil
  then show ?case by auto
next
  case (Cons t ts)
  obtain b n1 where f: "io_fault n = (b, n1)" by (cases "io_fault n")
  note k = io_fault_keeps [OF f]
  show ?case
  proof (cases "map_of (bn_dirs n) t \<noteq> None \<or> b")
    case True
    then have "r \<noteq> None" "moved' = moved" "bn_dirs n' = bn_dirs n" "bn_meta n' = bn_meta n" using Cons.prems f k by (auto split: if_splits)
    then show ?thesis by (intro exI [of _ "[]"] exI [of _ "t # ts"]) simp
  next
    case False
    let ?n2 = "n1\<lparr>bn_dirs := bn_dirs n1 @ [(t, subtree files t)]\<rparr>"
    have "move_each files ts (moved @ [t]) ?n2 = ((r, moved'), n')" using Cons.prems False f by auto
    from Cons.IH [OF this] Cons.prems(2) obtain us vs where u: "ts = us @ vs" "moved' = (moved @ [t]) @ us"
        "bn_dirs n' = bn_dirs ?n2 @ map (\<lambda>t. (t, subtree files t)) us" "bn_meta n' = bn_meta ?n2" "\<forall>t \<in> set us. t \<notin> fst ` set (bn_dirs ?n2)" "r = None \<longleftrightarrow> vs = []"
      by auto
    have "t \<notin> fst ` set (bn_dirs n)" using False by (simp add: map_of_eq_None_iff)
    then show ?thesis using u k by (intro exI [of _ "t # us"] exI [of _ vs]) auto
  qed
qed

lemma tops_distinct: "distinct (tops files)"
  by (simp add: tops_def)

lemma moveIndexes_effect:
  assumes "moveIndexes files n = ((r, moved), n')"
  shows "bn_meta n' = bn_meta n" and "bn_dirs (undo_moves moved n') = bn_dirs n"
    and "r = None \<Longrightarrow> moved = tops files \<and> bn_dirs n' = bn_dirs n @ map (\<lambda>t. (t, subtree files t)) (tops files)"
proof -
  obtain b n1 where f: "io_fault n = (b, n1)" by (cases "io_fault n")
  note k = io_fault_keeps [OF f]
  have "bn_meta n' = bn_meta n \<and> bn_dirs (undo_moves moved n') = bn_dirs n \<and>
      (r = None \<longrightarrow> moved = tops files \<and> bn_dirs n' = bn_dirs n @ map (\<lambda>t. (t, subtree files t)) (tops files))"
  proof (cases "tops files = [] \<or> b")
    case True
    then show ?thesis using assms f k by (auto simp: moveIndexes_def undo_moves_def split: if_splits)
  next
    case False
    then have "move_each files (tops files) [] n1 = ((r, moved), n')" using assms f by (simp add: moveIndexes_def)
    from move_each_effect [OF this tops_distinct] obtain us vs where u: "tops files = us @ vs" "moved = us"
        "bn_dirs n' = bn_dirs n1 @ map (\<lambda>t. (t, subtree files t)) us" "bn_meta n' = bn_meta n1" "\<forall>t \<in> set us. t \<notin> fst ` set (bn_dirs n1)" "r = None \<longleftrightarrow> vs = []"
      by auto
    have "filter (\<lambda>(t, _). t \<notin> set us) (bn_dirs n1) = bn_dirs n1" using u(5) by (intro filter_True) force
    moreover have "filter (\<lambda>(t, _). t \<notin> set us) (map (\<lambda>t. (t, subtree files t)) us) = []" by (simp add: filter_empty_conv)
    ultimately show ?thesis using u k by (simp add: undo_moves_def)
  qed
  then show "bn_meta n' = bn_meta n" and "bn_dirs (undo_moves moved n') = bn_dirs n"
    and "r = None \<Longrightarrow> moved = tops files \<and> bn_dirs n' = bn_dirs n @ map (\<lambda>t. (t, subtree files t)) (tops files)"
    by simp_all
qed

lemma delete_keys_effect:
  "delete_keys ks n = (ok, n') \<Longrightarrow> bn_dirs n' = bn_dirs n \<and> (ok \<longrightarrow> map_of (bn_meta n') = (\<lambda>k. if k \<in> set ks then None else map_of (bn_meta n) k))"
proof (induction ks arbitrary: n)
  case (Cons k ks)
  obtain b n1 where f: "io_fault n = (b, n1)" by (cases "io_fault n")
  show ?case
    using Cons.IH [of "n1\<lparr>bn_meta := AList.delete k (bn_meta n1)\<rparr>"] Cons.prems f io_fault_keeps [OF f] by (cases b) (auto simp: delete_conv' fun_eq_iff)
qed auto

lemma set_keys_effect:
  "set_keys kvs n = (ok, n') \<Longrightarrow> bn_dirs n' = bn_dirs n \<and> (ok \<longrightarrow> map_of (bn_meta n') = map_of (bn_meta n) ++ map_of (rev kvs))"
proof (induction kvs arbitrary: n)
  case (Cons p kvs)
  obtain k v where p: "p = (k, v)" by (cases p)
  obtain b n1 where f: "io_fault n = (b, n1)" by (cases "io_fault n")
  show ?case
    using Cons.IH [of "n1\<lparr>bn_meta := AList.update k v (bn_meta n1)\<rparr>"] Cons.prems f io_fault_keeps [OF f]
    by (cases b) (auto simp: p update_conv' map_add_assoc [symmetric], simp add: fun_upd_def)
qed auto

lemma metadata_Load_effect:
  assumes "metadata_Load entries n = (ok, n')" and "distinct (map fst entries)"
  shows "bn_dirs n' = bn_dirs n" and "ok \<Longrightarrow> map_of (bn_meta n') = map_of entries"
proof -
  obtain b n1 where f: "io_fault n = (b, n1)" by (cases "io_fault n")
  note k = io_fault_keeps [OF f]
  let ?ks = "filter (\<lambda>k. map_of entries k = None) (map fst (bn_meta n1))"
  obtain o2 n2 where d: "delete_keys ?ks n1 = (o2, n2)" by (cases "delete_keys ?ks n1")
  note de = delete_keys_effect [OF d]
  have "bn_dirs n' = bn_dirs n \<and> (ok \<longrightarrow> map_of (bn_meta n') = map_of entries)"
  proof (cases "b \<or> \<not> o2")
    case True
    then show ?thesis using assms(1) f k d de by (auto simp: metadata_Load_def split: bool.splits)
  next
    case False
    then have s: "set_keys entries n2 = (ok, n')" using assms(1) f d by (simp add: metadata_Load_def)
    have rev: "map_of (rev entries) = map_of entries" using assms(2) by (intro map_of_inject_set [THEN iffD2]) (simp_all add: rev_map [symmetric])
    have "map_of (bn_meta n2) k = None" if e: "map_of entries k = None" for k
    proof (cases "k \<in> fst ` set (bn_meta n1)")
      case True
      then show ?thesis using de False e by simp
    next
      case out: False
      then have "map_of (bn_meta n1) k = None" by (simp add: map_of_eq_None_iff)
      then show ?thesis using de False by simp
    qed
    then have "map_of (bn_meta n2) ++ map_of entries = map_of entries" by (auto simp: fun_eq_iff map_add_def split: option.splits)
    then show ?thesis using set_keys_effect [OF s] de k rev by simp
  qed
  then show "bn_dirs n' = bn_dirs n" and "ok \<Longrightarrow> map_of (bn_meta n') = map_of entries" by simp_all
qed

lemma checkEmpty_keeps: "checkEmpty n = (r, n1) \<Longrightarrow> bn_dirs n1 = bn_dirs n \<and> bn_meta n1 = bn_meta n \<and> (r = None \<longrightarrow> bn_loaded n = 0)"
proof -
  assume c: "checkEmpty n = (r, n1)"
  obtain b n2 where f: "io_fault n = (b, n2)" by (cases "io_fault n")
  show ?thesis using c f io_fault_keeps [OF f] by (cases b) (auto simp: checkEmpty_def split: if_splits)
qed


text \<open>An archive of one index and its metadata, for a hash that counts.\<close>

definition ex_manifest :: Manifest where
  "ex_manifest = \<lparr>mf_Version = 1, mf_CreatedAt = (2024, 1, 2, 3, 4, 5), mf_LastApplied = 7, mf_Indexes = [''i''], mf_Docs = [(''i'', 1)],
     mf_Files = [(''data/i/s/x'', \<lparr>fi_Size = 2, fi_SHA256 = ''h''\<rparr>), (metadataName, \<lparr>fi_Size = 4, fi_SHA256 = ''h''\<rparr>)]\<rparr>"

definition ex_codec :: codec where
  "ex_codec = \<lparr>cd_hash = (\<lambda>_. ''h''), cd_manifest = (\<lambda>_. Some ex_manifest),
     cd_metadata = (\<lambda>_. Some [(''stream_offset'', ''7''), (''/index/i'', ''{}'')])\<rparr>"

definition ex_entry :: "string \<Rightarrow> bytes \<Rightarrow> tar_entry" where
  "ex_entry name data = \<lparr>te_Name = name, te_Type = TypeReg, te_data = data, te_broken = False\<rparr>"

definition ex_archive :: archive where
  "ex_archive = \<lparr>ar_gzip = True, ar_entries = [ex_entry ''data/i/s/x'' ''ab'', ex_entry metadataName ''meta'', ex_entry manifestName ''{}''],
     ar_ends = True, ar_sum = True\<rparr>"

definition ex_new :: "bool list \<Rightarrow> bnode" where
  "ex_new faults = \<lparr>bn_loaded = 0, bn_dirs = [(''_metadata.bolt'', [([], [])])], bn_meta = [(''version'', ''1'')], bn_faults = faults\<rparr>"


text \<open>
  When the last write of the metadata fails, the restore reports an error and has removed the
  directories again, but the stream offset of the backup stays in the metadata: a consumer started on
  that node continues after messages the node does not have.
\<close>
theorem failed_restore_keeps_offset:
  "\<exists>n'. Restore ex_codec 9 (Some ex_archive) (ex_new [False, False, False, False, False, False, False, True]) = (Inl ErrIO, n') \<and>
     bn_dirs n' = [(''_metadata.bolt'', [([], [])])] \<and> bn_meta n' = [(''stream_offset'', ''7'')]"
proof -
  let ?r = "Restore ex_codec 9 (Some ex_archive) (ex_new [False, False, False, False, False, False, False, True])"
  have "fst ?r = Inl ErrIO" "bn_dirs (snd ?r) = [(''_metadata.bolt'', [([], [])])]" "bn_meta (snd ?r) = [(''stream_offset'', ''7'')]" by code_simp+
  then show ?thesis by (metis prod.collapse)
qed

end
