(* ===== verification/Node_Backup.thy ===== *)
theory Node_Backup
  imports Node_Restore
begin

text \<open>
  Making backups of a node and keeping them in a directory (\<open>create.go\<close> and \<open>store.go\<close> of
  \<open>pkg/backup\<close>, \<open>BackupShards\<close>). What the node shows at each moment of the backup is an argument: the
  shards are copied one after another, and the node may change in between. The library's copy of a
  shard, JSON and the answers of the file system are arguments too.
\<close>

section \<open>The directory of backups\<close>

record ArchiveInfo =
  in_Name :: string
  in_Size :: nat
  in_SHA256 :: string
  in_CreatedAt :: instant
  in_LastApplied :: u64
  in_Indexes :: "string list"

text \<open>Archives by their names, descriptions by the names of their files.\<close>

record backup_dir =
  bd_archives :: "(string \<times> archive) list"
  bd_sidecars :: "(string \<times> bytes) list"

record encoder =
  en_manifest :: "Manifest \<Rightarrow> bytes"
  en_metadata :: "(string \<times> bytes) list \<Rightarrow> bytes"
  en_info :: "ArchiveInfo \<Rightarrow> bytes"
  en_decode :: "bytes \<Rightarrow> ArchiveInfo option"
  en_gzip :: "archive \<Rightarrow> bytes"

definition digits :: "string \<Rightarrow> bool" where
  "digits s \<longleftrightarrow> s \<noteq> [] \<and> list_all (\<lambda>c. char_digit c \<noteq> None) s"

text \<open>The regular expression of names: a prefix, a time, the offset and perhaps a counter.\<close>

definition ValidBackupName :: "string \<Rightarrow> bool" where
  "ValidBackupName name \<longleftrightarrow>
     HasPrefix name ''zincsearch-'' \<and>
     (let r = drop 11 name in
      17 \<le> length r \<and> digits (take 8 r) \<and> r ! 8 = CHR ''T'' \<and> digits (take 6 (drop 9 r)) \<and> r ! 15 = CHR ''Z'' \<and> r ! 16 = CHR ''-'' \<and>
      HasSuffix (drop 17 r) ''.tgz'' \<and>
      (case Split_char (CHR ''-'') (take (length (drop 17 r) - 4) (drop 17 r)) of
         [a] \<Rightarrow> digits a
       | [a, b] \<Rightarrow> digits a \<and> digits b
       | _ \<Rightarrow> False))"

definition sidecarPath :: "string \<Rightarrow> string" where
  "sidecarPath name = name @ ''.json''"

definition readInfo :: "encoder \<Rightarrow> string \<Rightarrow> backup_dir \<Rightarrow> ArchiveInfo option" where
  "readInfo en name d =
     (case map_of (bd_sidecars d) (sidecarPath name) of
        None \<Rightarrow> None
      | Some raw \<Rightarrow> (case en_decode en raw of None \<Rightarrow> None | Some info \<Rightarrow> if in_Name info \<noteq> name then None else Some info))"

definition TrimSuffix :: "string \<Rightarrow> string \<Rightarrow> string" where
  "TrimSuffix s p = (if HasSuffix s p then take (length s - length p) s else s)"

definition info_less :: "ArchiveInfo \<Rightarrow> ArchiveInfo \<Rightarrow> bool" where
  "info_less a b = (if in_CreatedAt a \<noteq> in_CreatedAt b then
     (case (in_CreatedAt a, in_CreatedAt b) of ((y, mo, d, h, mi, s), (y', mo', d', h', mi', s')) \<Rightarrow> [y, mo, d, h, mi, s] < [y', mo', d', h', mi', s'])
     else in_Name a < in_Name b)"

definition backup_List :: "encoder \<Rightarrow> backup_dir \<Rightarrow> ArchiveInfo list" where
  "backup_List en d =
     sort_Slice info_less
       (List.map_filter (\<lambda>f. let name = TrimSuffix f ''.json'' in if name = f \<or> \<not> ValidBackupName name then None else readInfo en name d)
         (sort (map fst (bd_sidecars d) @ map fst (bd_archives d))))"

definition backup_Open :: "encoder \<Rightarrow> string \<Rightarrow> backup_dir \<Rightarrow> (archive \<times> ArchiveInfo) option" where
  "backup_Open en name d =
     (if \<not> ValidBackupName name then None
      else case readInfo en name d of
        None \<Rightarrow> None
      | Some info \<Rightarrow> (case map_of (bd_archives d) name of None \<Rightarrow> None | Some a \<Rightarrow> Some (a, info)))"

text \<open>\<open>removes\<close> says whether removing the description and the archive succeeds.\<close>

definition backup_Delete :: "encoder \<Rightarrow> string \<Rightarrow> bool \<times> bool \<Rightarrow> backup_dir \<Rightarrow> nb_error option \<times> backup_dir" where
  "backup_Delete en name removes d =
     (if \<not> ValidBackupName name then (Some ErrNotFound, d)
      else case readInfo en name d of
        None \<Rightarrow> (Some ErrNotFound, d)
      | Some _ \<Rightarrow>
          if \<not> fst removes then (Some ErrIO, d)
          else (let d1 = d\<lparr>bd_sidecars := AList.delete (sidecarPath name) (bd_sidecars d)\<rparr> in
                if \<not> snd removes \<and> map_of (bd_archives d) name \<noteq> None then (Some ErrIO, d1)
                else (None, d1\<lparr>bd_archives := AList.delete name (bd_archives d1)\<rparr>)))"

section \<open>Making a backup\<close>

text \<open>
  The copy of an index below \<open>data/<index>\<close>: every part of every shard in turn, the shards by name. A
  part is copied by the library, which may fail.
\<close>

definition hex_char :: "nat \<Rightarrow> char" where
  "hex_char d = ''0123456789abcdef'' ! d"

fun FormatHex :: "nat \<Rightarrow> string" where
  "FormatHex n = (if n < 16 then [hex_char n] else FormatHex (n div 16) @ [hex_char (n mod 16)])"

declare FormatHex.simps [simp del]

definition second_name :: "nat \<Rightarrow> string" where
  "second_name k = (let s = FormatHex k in replicate (6 - length s) (CHR ''0'') @ s)"

record index_view =
  iv_storage :: string
  iv_shards :: "(string \<times> nat) list"
  iv_second :: "string \<Rightarrow> nat \<Rightarrow> file_tree option"

fun copy_seconds :: "(string \<Rightarrow> nat \<Rightarrow> file_tree option) \<Rightarrow> (string \<times> nat) list \<Rightarrow> file_tree option" where
  "copy_seconds second [] = Some []"
| "copy_seconds second ((s, k) # rest) =
     (case second s k of
        None \<Rightarrow> None
      | Some fs \<Rightarrow>
          (case copy_seconds second rest of
             None \<Rightarrow> None
           | Some others \<Rightarrow> Some (map (\<lambda>(p, b). (s @ ''/'' @ second_name k @ ''/'' @ p, b)) fs @ others)))"

definition seconds :: "(string \<times> nat) list \<Rightarrow> (string \<times> nat) list" where
  "seconds shards = [(s, k). (s, num) \<leftarrow> sort_key fst shards, k \<leftarrow> [0..<num]]"

definition BackupShards :: "index_view \<Rightarrow> file_tree option" where
  "BackupShards v = (if iv_storage v \<noteq> ''disk'' then None else copy_seconds (iv_second v) (seconds (iv_shards v)))"

text \<open>The node at one moment.\<close>

record node_view =
  nv_pending :: "u64 option"
  nv_offset :: "u64 option"
  nv_indexes :: "string list"
  nv_index :: "string \<Rightarrow> index_view"
  nv_docs :: "string \<Rightarrow> nat option"
  nv_dump :: "(string \<times> bytes) list option"

definition nv_copy :: "node_view \<Rightarrow> string \<Rightarrow> file_tree option" where
  "nv_copy v i = BackupShards (nv_index v i)"

definition currentState :: "node_view \<Rightarrow> (u64 \<times> u64) option" where
  "currentState v = (case nv_pending v of None \<Rightarrow> None | Some p \<Rightarrow> (case nv_offset v of None \<Rightarrow> None | Some q \<Rightarrow> Some (p, q)))"

record dir_env =
  de_Abs :: "string \<Rightarrow> string option"
  de_DataPath :: string
  de_MkdirAll :: "string \<Rightarrow> bool"
  de_EvalSymlinks :: "string \<Rightarrow> string option"

definition prepareDir :: "dir_env \<Rightarrow> string \<Rightarrow> nb_error + string" where
  "prepareDir env dir =
     (if dir = [] then Inl ErrDir
      else case de_Abs env dir of
        None \<Rightarrow> Inl ErrIO
      | Some target \<Rightarrow>
          (case de_Abs env (de_DataPath env) of
             None \<Rightarrow> Inl ErrIO
           | Some dataPath \<Rightarrow>
               if inside dataPath target then Inl ErrDir
               else if \<not> de_MkdirAll env target then Inl ErrIO
               else (case de_EvalSymlinks env target of
                       None \<Rightarrow> Inr target
                     | Some resolved \<Rightarrow>
                         (case de_EvalSymlinks env dataPath of
                            None \<Rightarrow> Inr target
                          | Some resolvedData \<Rightarrow> if inside resolvedData resolved then Inl ErrDir else Inr target))))"

text \<open>The indexes are copied and counted in turn, from moment \<open>t\<close> on.\<close>

fun stage :: "(nat \<Rightarrow> node_view) \<Rightarrow> nat \<Rightarrow> string list \<Rightarrow> (file_tree \<times> (string \<times> nat) list) option" where
  "stage view t [] = Some ([], [])"
| "stage view t (i # is) =
     (case nv_copy (view t) i of
        None \<Rightarrow> None
      | Some fs \<Rightarrow>
          (case nv_docs (view t) i of
             None \<Rightarrow> None
           | Some c \<Rightarrow>
               (case stage view (t + 1) is of
                  None \<Rightarrow> None
                | Some (files, docs) \<Rightarrow> Some (map (\<lambda>(p, b). (dataPrefix @ i @ ''/'' @ p, b)) fs @ files, (i, c) # docs))))"

definition pad :: "nat \<Rightarrow> nat \<Rightarrow> string" where
  "pad w n = (let s = FormatUint n in replicate (w - length s) (CHR ''0'') @ s)"

definition time_stamp :: "instant \<Rightarrow> string" where
  "time_stamp t = (case t of (y, mo, d, h, mi, s) \<Rightarrow> pad 4 y @ pad 2 mo @ pad 2 d @ ''T'' @ pad 2 h @ pad 2 mi @ pad 2 s @ ''Z'')"

definition archiveName :: "Manifest \<Rightarrow> string" where
  "archiveName m = ''zincsearch-'' @ time_stamp (mf_CreatedAt m) @ ''-'' @ FormatUint (unat (mf_LastApplied m)) @ ''.tgz''"

text \<open>The names that are tried: the first without a counter, then from 2 on.\<close>

definition name_at :: "Manifest \<Rightarrow> nat \<Rightarrow> string" where
  "name_at m i = (if i \<le> 1 then archiveName m else TrimSuffix (archiveName m) ''.tgz'' @ ''-'' @ FormatUint i @ ''.tgz'')"

datatype lstat = Exists | NotExist | LstatError

partial_function (option) pick_name :: "(string \<Rightarrow> lstat) \<Rightarrow> Manifest \<Rightarrow> nat \<Rightarrow> string option" where
  "pick_name stat m i = (if stat (name_at m i) = NotExist then Some (name_at m i) else pick_name stat m (i + 1))"

declare pick_name.simps [code]

text \<open>The order of \<open>filepath.WalkDir\<close>: by elements.\<close>

definition walk :: "file_tree \<Rightarrow> file_tree" where
  "walk files = sort_key (\<lambda>(p, _). Split_char slash p) files"

definition regular :: "string \<Rightarrow> bytes \<Rightarrow> tar_entry" where
  "regular name data = \<lparr>te_Name = name, te_Type = TypeReg, te_data = data, te_broken = False\<rparr>"

definition pack :: "encoder \<Rightarrow> Manifest \<Rightarrow> file_tree \<Rightarrow> archive" where
  "pack en m files =
     \<lparr>ar_gzip = True, ar_entries = map (\<lambda>(f, b). regular f b) (walk files) @ [regular manifestName (en_manifest en m)], ar_ends = True, ar_sum = True\<rparr>"

text \<open>Which steps of writing the archive succeed: packing, looking at it and renaming it, its description.\<close>

record write_io =
  wi_pack :: bool
  wi_place :: bool
  wi_sidecar :: bool
  wi_stat :: "string \<Rightarrow> bool"

definition lstat_of :: "write_io \<Rightarrow> backup_dir \<Rightarrow> string \<Rightarrow> lstat" where
  "lstat_of io d name = (if \<not> wi_stat io name then LstatError else if map_of (bd_archives d) name = None then NotExist else Exists)"

definition writeArchive :: "codec \<Rightarrow> encoder \<Rightarrow> write_io \<Rightarrow> file_tree \<Rightarrow> Manifest \<Rightarrow> backup_dir \<Rightarrow> ((nb_error + ArchiveInfo) \<times> backup_dir) option" where
  "writeArchive cd en io files m d =
     (if \<not> wi_pack io then Some (Inl ErrIO, d)
      else let m1 = m\<lparr>mf_Files := map (\<lambda>(f, b). (f, describe cd b)) (walk files)\<rparr>;
               a = pack en m1 files;
               raw = en_gzip en a
           in case pick_name (lstat_of io d) m1 1 of
                None \<Rightarrow> None
              | Some name \<Rightarrow>
                  if \<not> wi_place io then Some (Inl ErrIO, d)
                  else let info = \<lparr>in_Name = name, in_Size = length raw, in_SHA256 = cd_hash cd raw, in_CreatedAt = mf_CreatedAt m1,
                              in_LastApplied = mf_LastApplied m1, in_Indexes = mf_Indexes m1\<rparr>
                       in if \<not> wi_sidecar io then Some (Inl ErrIO, d)
                          else Some (Inr info, d\<lparr>bd_archives := AList.update name a (bd_archives d),
                                 bd_sidecars := AList.update (sidecarPath name) (en_info en info) (bd_sidecars d)\<rparr>))"

text \<open>\<open>Create\<close>; the result is \<open>None\<close> when the search for a name does not end. \<open>staged\<close> says whether the staging directory can be made.\<close>

definition Create ::
  "codec \<Rightarrow> encoder \<Rightarrow> dir_env \<Rightarrow> write_io \<Rightarrow> bool \<Rightarrow> bool \<Rightarrow> string \<Rightarrow> instant \<Rightarrow> (nat \<Rightarrow> node_view) \<Rightarrow> backup_dir \<Rightarrow>
   ((nb_error + ArchiveInfo) \<times> backup_dir) option" where
  "Create cd en env io busy staged dir now view d =
     (if busy then Some (Inl ErrBusy, d)
      else case prepareDir env dir of
        Inl err \<Rightarrow> Some (Inl err, d)
      | Inr _ \<Rightarrow>
          (case currentState (view 0) of
             None \<Rightarrow> Some (Inl ErrIO, d)
           | Some before \<Rightarrow>
               if fst before \<noteq> 0 then Some (Inl ErrNotQuiescent, d)
               else if \<not> staged then Some (Inl ErrIO, d)
               else let names = sort (nv_indexes (view 0)); t = length names + 1 in
                 case stage view 1 names of
                   None \<Rightarrow> Some (Inl ErrIO, d)
                 | Some (files, docs) \<Rightarrow>
                     (case nv_dump (view t) of
                        None \<Rightarrow> Some (Inl ErrIO, d)
                      | Some entries \<Rightarrow>
                          (case currentState (view (t + 1)) of
                             None \<Rightarrow> Some (Inl ErrIO, d)
                           | Some after \<Rightarrow>
                               if after \<noteq> before then Some (Inl ErrNotQuiescent, d)
                               else writeArchive cd en io (files @ [(metadataName, en_metadata en entries)])
                                 \<lparr>mf_Version = FormatVersion, mf_CreatedAt = now, mf_LastApplied = snd before, mf_Indexes = names,
                                  mf_Docs = docs, mf_Files = []\<rparr> d))))"

end
