(* ===== verification/Node_Names.thy ===== *)
theory Node_Names
  imports Node_Backup
begin

text \<open>
  The names of backups: every name that is given is valid, no valid name leaves the directory, the
  names that are tried differ, and the search for an unused one ends.
\<close>

section \<open>Valid names\<close>

lemma digits_FormatUint [simp]: "digits (FormatUint n)"
proof -
  have "char_digit c \<noteq> None" if "c \<in> set (FormatUint n)" for c using FormatUint_digits [OF that] by auto
  then show ?thesis by (auto simp: digits_def list_all_iff)
qed

lemma length_pad: "0 < w \<Longrightarrow> n < 10 ^ w \<Longrightarrow> length (pad w n) = w"
  using length_FormatUint [of w n] by (simp add: pad_def Let_def)

lemma digits_pad: "digits (pad w n)"
proof -
  have "char_digit (CHR ''0'') \<noteq> None" by code_simp
  then show ?thesis using digits_FormatUint [of n] by (auto simp: pad_def Let_def digits_def list_all_iff)
qed

lemma digits_append: "digits a \<Longrightarrow> digits b \<Longrightarrow> digits (a @ b)"
  by (simp add: digits_def)

definition valid_instant :: "instant \<Rightarrow> bool" where
  "valid_instant t = (case t of (y, mo, d, h, mi, s) \<Rightarrow> y < 10000 \<and> mo < 100 \<and> d < 100 \<and> h < 100 \<and> mi < 100 \<and> s < 100)"

lemma time_stamp_shape:
  assumes "valid_instant t"
  obtains a b where "time_stamp t = a @ ''T'' @ b @ ''Z''" and "length a = 8" and "length b = 6" and "digits a" and "digits b"
proof -
  obtain y mo d h mi s where t: "t = (y, mo, d, h, mi, s)" by (cases t) auto
  have l: "length (pad 4 y) = 4" "length (pad 2 mo) = 2" "length (pad 2 d) = 2" "length (pad 2 h) = 2" "length (pad 2 mi) = 2" "length (pad 2 s) = 2"
    using assms by (simp_all add: valid_instant_def t length_pad)
  show ?thesis
    by (rule that [of "pad 4 y @ pad 2 mo @ pad 2 d" "pad 2 h @ pad 2 mi @ pad 2 s"]) (simp_all add: time_stamp_def t l digits_append digits_pad)
qed

text \<open>A name is its head, the offset and a counter that may be missing.\<close>

definition tail_ok :: "string \<Rightarrow> bool" where
  "tail_ok t \<longleftrightarrow> (case Split_char (CHR ''-'') t of [a] \<Rightarrow> digits a | [a, b] \<Rightarrow> digits a \<and> digits b | _ \<Rightarrow> False)"

lemma ValidBackupName_I:
  assumes "length a = 8" and "length b = 6" and "digits a" and "digits b" and "tail_ok t"
  shows "ValidBackupName (''zincsearch-'' @ a @ ''T'' @ b @ ''Z-'' @ t @ ''.tgz'')"
proof -
  have "HasSuffix (t @ ''.tgz'') ''.tgz''" by (auto simp: HasSuffix_iff suffix_def)
  then show ?thesis
    using assms by (simp add: ValidBackupName_def HasPrefix_def Let_def nth_append tail_ok_def)
qed

lemma digits_no_sep: "digits s \<Longrightarrow> CHR ''-'' \<notin> set s"
proof
  assume "digits s" and "CHR ''-'' \<in> set s"
  then have "char_digit (CHR ''-'') \<noteq> None" by (auto simp: digits_def list_all_iff)
  moreover have "char_digit (CHR ''-'') = None" by code_simp
  ultimately show False by simp
qed

lemma name_at_eq: "name_at m i = ''zincsearch-'' @ time_stamp (mf_CreatedAt m) @ ''-'' @ FormatUint (unat (mf_LastApplied m)) @
    (if i \<le> 1 then [] else ''-'' @ FormatUint i) @ ''.tgz''"
proof -
  have "TrimSuffix (s @ ''.tgz'') ''.tgz'' = s" for s
    using HasSuffix_iff [of "s @ ''.tgz''" "''.tgz''"] by (auto simp: TrimSuffix_def suffix_def)
  from this [of "''zincsearch-'' @ time_stamp (mf_CreatedAt m) @ ''-'' @ FormatUint (unat (mf_LastApplied m))"]
  show ?thesis by (simp add: name_at_def archiveName_def)
qed

lemma name_at_valid:
  assumes "valid_instant (mf_CreatedAt m)"
  shows "ValidBackupName (name_at m i)"
proof -
  obtain a b where s: "time_stamp (mf_CreatedAt m) = a @ ''T'' @ b @ ''Z''" "length a = 8" "length b = 6" "digits a" "digits b"
    by (rule time_stamp_shape [OF assms])
  have d: "CHR ''-'' \<notin> set (FormatUint n)" for n using digits_no_sep [OF digits_FormatUint] .
  have "tail_ok (FormatUint (unat (mf_LastApplied m)) @ (if i \<le> 1 then [] else ''-'' @ FormatUint i))"
    using d by (simp add: tail_ok_def Split_char_none Split_char_append)
  from ValidBackupName_I [OF s(2-5) this] show ?thesis unfolding name_at_eq s(1) by simp
qed

lemma name_at_inj: "1 \<le> i \<Longrightarrow> 1 \<le> j \<Longrightarrow> name_at m i = name_at m j \<Longrightarrow> i = j"
  unfolding name_at_eq by (auto simp: FormatUint_inj split: if_splits)

lemma set_Split_char: "set s \<subseteq> insert c (\<Union> (set ` set (Split_char c s)))"
proof (induction s)
  case (Cons x s)
  then show ?case by (cases "Split_char c s") (auto split: if_splits)
qed simp

lemma digits_no_slash: "digits s \<Longrightarrow> slash \<notin> set s"
proof
  assume "digits s" and "slash \<in> set s"
  then have "char_digit slash \<noteq> None" by (auto simp: digits_def list_all_iff)
  moreover have "char_digit slash = None" by code_simp
  ultimately show False by simp
qed

lemma tail_no_slash: "tail_ok t \<Longrightarrow> slash \<notin> set t"
proof -
  assume "tail_ok t"
  then consider a where "Split_char (CHR ''-'') t = [a]" "digits a" | a b where "Split_char (CHR ''-'') t = [a, b]" "digits a" "digits b"
    by (auto simp: tail_ok_def split: list.splits)
  then show ?thesis using set_Split_char [of t "CHR ''-''"] digits_no_slash by cases auto
qed

lemma ValidBackupName_no_slash: "ValidBackupName name \<Longrightarrow> slash \<notin> set name"
proof -
  assume valid: "ValidBackupName name"
  let ?r = "drop 11 name"
  let ?t = "drop 17 ?r"
  have v: "HasPrefix name ''zincsearch-''" "17 \<le> length ?r" "digits (take 8 ?r)" "?r ! 8 = CHR ''T''" "digits (take 6 (drop 9 ?r))" "?r ! 15 = CHR ''Z''" "?r ! 16 = CHR ''-''"
      "HasSuffix ?t ''.tgz''" "tail_ok (take (length ?t - 4) ?t)"
    using valid unfolding ValidBackupName_def Let_def tail_ok_def by blast+
  obtain zs where zs: "name = ''zincsearch-'' @ zs" using v(1) by (auto simp: HasPrefix_iff prefix_def)
  then have name: "name = ''zincsearch-'' @ ?r" by simp
  have split: "drop k ?r = ?r ! k # drop (Suc k) ?r" if "k < 17" for k by (rule Cons_nth_drop_Suc [symmetric]) (use v(2) that in linarith)
  have "set ?r = set (take 8 ?r) \<union> set (drop 8 ?r)" by (metis append_take_drop_id set_append)
  also have "set (drop 8 ?r) = insert (CHR ''T'') (set (drop 9 ?r))" using split [of 8] v(4) by simp
  also have "set (drop 9 ?r) = set (take 6 (drop 9 ?r)) \<union> set (drop 6 (drop 9 ?r))" by (metis append_take_drop_id set_append)
  also have "drop 6 (drop 9 ?r) = CHR ''Z'' # CHR ''-'' # ?t" using split [of 15] split [of 16] v(6,7) by simp
  also have "?t = take (length ?t - 4) ?t @ ''.tgz''"
    using v(8) append_take_drop_id [of "length ?t - 4" ?t] by (simp add: HasSuffix_def)
  finally have "slash \<notin> set ?r" using digits_no_slash [OF v(3)] digits_no_slash [OF v(5)] tail_no_slash [OF v(9)] by auto
  then show ?thesis by (subst name) simp
qed

section \<open>The search for a name\<close>

lemma pick_name_found:
  "stat (name_at m (i + k)) = NotExist \<Longrightarrow> \<forall>j < k. stat (name_at m (i + j)) \<noteq> NotExist \<Longrightarrow> pick_name stat m i = Some (name_at m (i + k))"
proof (induction k arbitrary: i)
  case 0
  then show ?case by (subst pick_name.simps) simp
next
  case (Suc k)
  have "stat (name_at m i) \<noteq> NotExist" using Suc.prems(2) by force
  moreover have "pick_name stat m (i + 1) = Some (name_at m ((i + 1) + k))" using Suc.prems by (intro Suc.IH) auto
  ultimately show ?case by (subst pick_name.simps) simp
qed

lemma pick_name_Some:
  assumes "pick_name stat m i = Some name"
  shows "\<exists>j \<ge> i. name = name_at m j \<and> stat (name_at m j) = NotExist"
proof (rule pick_name.raw_induct [of "\<lambda>stat m i name. \<exists>j \<ge> i. name = name_at m j \<and> stat (name_at m j) = NotExist", OF _ assms])
  fix pick stat m i name
  assume IH: "\<And>stat m i name. pick stat m i = Some name \<Longrightarrow> \<exists>j \<ge> i. name = name_at m j \<and> stat (name_at m j) = NotExist"
    and eq: "(if stat (name_at m i) = NotExist then Some (name_at m i) else pick stat m (i + 1)) = Some name"
  show "\<exists>j \<ge> i. name = name_at m j \<and> stat (name_at m j) = NotExist"
  proof (cases "stat (name_at m i) = NotExist")
    case False
    then obtain j where "i + 1 \<le> j" "name = name_at m j" "stat (name_at m j) = NotExist" using IH [of stat m "i + 1" name] eq by auto
    then show ?thesis by (intro exI [of _ j]) simp
  qed (use eq in auto)
qed

lemma unused_name:
  assumes "finite used"
  shows "\<exists>k. name_at m (1 + k) \<notin> used \<and> (\<forall>j < k. name_at m (1 + j) \<in> used)"
proof -
  have "inj (\<lambda>k. name_at m (1 + k))" by (intro injI) (auto dest: name_at_inj [rotated 2])
  then have "infinite (range (\<lambda>k. name_at m (1 + k)))" using finite_imageD infinite_UNIV_nat by blast
  then obtain k where "name_at m (1 + k) \<notin> used" using assms by (meson finite_subset image_subsetI)
  then show ?thesis using exists_least_iff [of "\<lambda>k. name_at m (1 + k) \<notin> used"] by auto
qed

text \<open>
  C30. The search for the name of a new archive ends: with a file system that answers, it returns the
  first of the names that no stored archive has, and that name is valid and without a slash. When
  looking for a name fails with an error instead, the loop goes on for ever.
\<close>
theorem name_search_ends:
  assumes "valid_instant (mf_CreatedAt m)"
  shows "((\<forall>name. wi_stat io name) \<longrightarrow>
      (\<exists>k \<ge> 1. pick_name (lstat_of io d) m 1 = Some (name_at m k) \<and> map_of (bd_archives d) (name_at m k) = None \<and>
        (\<forall>j. 1 \<le> j \<and> j < k \<longrightarrow> map_of (bd_archives d) (name_at m j) \<noteq> None) \<and> ValidBackupName (name_at m k) \<and> slash \<notin> set (name_at m k))) \<and>
    ((\<forall>name. \<not> wi_stat io name) \<longrightarrow> pick_name (lstat_of io d) m 1 = None)"
proof (intro conjI impI)
  assume io: "\<forall>name. wi_stat io name"
  obtain k where k: "name_at m (1 + k) \<notin> fst ` set (bd_archives d)" "\<forall>j < k. name_at m (1 + j) \<in> fst ` set (bd_archives d)"
    using unused_name [of "fst ` set (bd_archives d)" m] by auto
  have used: "lstat_of io d name = NotExist \<longleftrightarrow> name \<notin> fst ` set (bd_archives d)" for name using io by (simp add: lstat_of_def map_of_eq_None_iff)
  have "pick_name (lstat_of io d) m 1 = Some (name_at m (1 + k))" by (rule pick_name_found) (use k used in auto)
  moreover have "map_of (bd_archives d) (name_at m j) \<noteq> None" if "1 \<le> j" "j < 1 + k" for j
  proof -
    have "name_at m (1 + (j - 1)) \<in> fst ` set (bd_archives d)" using k(2) that by (intro k(2) [rule_format]) simp
    then show ?thesis using that unfolding map_of_eq_None_iff by simp
  qed
  moreover have "map_of (bd_archives d) (name_at m (1 + k)) = None" using k(1) by (simp add: map_of_eq_None_iff)
  ultimately show "\<exists>k \<ge> 1. pick_name (lstat_of io d) m 1 = Some (name_at m k) \<and> map_of (bd_archives d) (name_at m k) = None \<and>
        (\<forall>j. 1 \<le> j \<and> j < k \<longrightarrow> map_of (bd_archives d) (name_at m j) \<noteq> None) \<and> ValidBackupName (name_at m k) \<and> slash \<notin> set (name_at m k)"
    using name_at_valid [OF assms] ValidBackupName_no_slash [OF name_at_valid [OF assms]] by (intro exI [of _ "1 + k"]) auto
next
  assume "\<forall>name. \<not> wi_stat io name"
  then have "lstat_of io d name = LstatError" for name by (simp add: lstat_of_def)
  then show "pick_name (lstat_of io d) m 1 = None" using pick_name_Some [of "lstat_of io d" m 1] by (cases "pick_name (lstat_of io d) m 1") auto
qed

definition ex_dir :: backup_dir where
  "ex_dir = \<lparr>bd_archives = [(''zincsearch-20240102T030405Z-7.tgz'', ex_archive)], bd_sidecars = []\<rparr>"

definition ex_io :: write_io where
  "ex_io = \<lparr>wi_pack = True, wi_place = True, wi_sidecar = True, wi_stat = (\<lambda>_. True)\<rparr>"

theorem name_search_ends_witness:
  "\<exists>k \<ge> 1. pick_name (lstat_of ex_io ex_dir) ex_manifest 1 = Some (name_at ex_manifest k) \<and> 2 \<le> k \<and> ValidBackupName (name_at ex_manifest k)"
proof -
  have "valid_instant (mf_CreatedAt ex_manifest)" by code_simp
  from name_search_ends [OF this, of ex_io ex_dir] obtain k where k: "k \<ge> 1" "pick_name (lstat_of ex_io ex_dir) ex_manifest 1 = Some (name_at ex_manifest k)"
      "map_of (bd_archives ex_dir) (name_at ex_manifest k) = None" "ValidBackupName (name_at ex_manifest k)"
    by (auto simp: ex_io_def)
  have "map_of (bd_archives ex_dir) (name_at ex_manifest 1) \<noteq> None" by code_simp
  then have "k \<noteq> 1" using k(3) by auto
  then show ?thesis using k by (intro exI [of _ k]) auto
qed

end
