(* ===== verification/Node_Roundtrip.thy ===== *)
theory Node_Roundtrip
  imports Node_Names
begin

text \<open>
  A backup that was made is listed, can be opened and deleted, and restoring it gives the node that
  was backed up; and what the check for a quiet node does not notice.
\<close>

section \<open>Stored backups\<close>

lemma TrimSuffix_sidecar: "TrimSuffix (sidecarPath name) ''.json'' = name"
  using HasSuffix_iff [of "name @ ''.json''" "''.json''"] by (auto simp: TrimSuffix_def sidecarPath_def suffix_def)

lemma readInfo_name: "readInfo en name d = Some info \<Longrightarrow> in_Name info = name"
  by (auto simp: readInfo_def split: option.splits if_splits)

lemma backup_List_mem:
  "info \<in> set (backup_List en d) \<longleftrightarrow> (\<exists>f \<in> fst ` set (bd_sidecars d) \<union> fst ` set (bd_archives d).
     TrimSuffix f ''.json'' \<noteq> f \<and> ValidBackupName (TrimSuffix f ''.json'') \<and> readInfo en (TrimSuffix f ''.json'') d = Some info)"
proof -
  have mf: "y \<in> set (List.map_filter g xs) \<longleftrightarrow> (\<exists>x \<in> set xs. g x = Some y)" for g :: "string \<Rightarrow> ArchiveInfo option" and xs y
    by (induction xs) (auto simp: List.map_filter_simps split: option.splits)
  show ?thesis unfolding backup_List_def set_sort_Slice mf set_sort set_append set_map Let_def by (auto split: if_splits)
qed

lemma writeArchive_stored:
  assumes "writeArchive cd en io files m d = Some (Inr info, d')" and "valid_instant (mf_CreatedAt m)"
  shows "ValidBackupName (in_Name info)" and "map_of (bd_archives d) (in_Name info) = None"
    and "d' = d\<lparr>bd_archives := AList.update (in_Name info) (pack en (m\<lparr>mf_Files := map (\<lambda>(f, b). (f, describe cd b)) (walk files)\<rparr>) files) (bd_archives d),
      bd_sidecars := AList.update (sidecarPath (in_Name info)) (en_info en info) (bd_sidecars d)\<rparr>"
    and "in_LastApplied info = mf_LastApplied m"
proof -
  let ?m = "m\<lparr>mf_Files := map (\<lambda>(f, b). (f, describe cd b)) (walk files)\<rparr>"
  obtain name where p: "pick_name (lstat_of io d) ?m 1 = Some name" and i: "in_Name info = name"
      and d: "d' = d\<lparr>bd_archives := AList.update name (pack en ?m files) (bd_archives d),
        bd_sidecars := AList.update (sidecarPath name) (en_info en info) (bd_sidecars d)\<rparr>" and l: "in_LastApplied info = mf_LastApplied m"
    using assms(1) by (auto simp: writeArchive_def Let_def split: if_splits option.splits)
  obtain j where j: "name = name_at ?m j" "lstat_of io d (name_at ?m j) = NotExist" using pick_name_Some [OF p] by blast
  show "ValidBackupName (in_Name info)" using name_at_valid [of ?m j] assms(2) i j(1) by simp
  show "map_of (bd_archives d) (in_Name info) = None" using j i by (auto simp: lstat_of_def split: if_splits)
  show "d' = d\<lparr>bd_archives := AList.update (in_Name info) (pack en ?m files) (bd_archives d),
      bd_sidecars := AList.update (sidecarPath (in_Name info)) (en_info en info) (bd_sidecars d)\<rparr>" using d i by simp
  show "in_LastApplied info = mf_LastApplied m" by (rule l)
qed

lemma Create_writes:
  assumes "Create cd en env io busy staged dir now view d = Some (Inr info, d')"
  obtains files m where "writeArchive cd en io files m d = Some (Inr info, d')" and "mf_CreatedAt m = now"
  using assms by (auto simp: Create_def Let_def split: if_splits sum.splits option.splits)

lemma readInfo_delete: "sidecarPath a \<noteq> f \<Longrightarrow> readInfo en a (d\<lparr>bd_sidecars := AList.delete f (bd_sidecars d)\<rparr>) = readInfo en a d"
  by (simp add: readInfo_def delete_conv')

lemma readInfo_update: "sidecarPath a \<noteq> f \<Longrightarrow> readInfo en a (d\<lparr>bd_sidecars := AList.update f raw (bd_sidecars d)\<rparr>) = readInfo en a d"
  by (simp add: readInfo_def update_conv')

lemma readInfo_archives [simp]: "readInfo en a (d\<lparr>bd_archives := x\<rparr>) = readInfo en a d"
  by (simp add: readInfo_def)

lemma sidecarPath_inj [simp]: "sidecarPath a = sidecarPath b \<longleftrightarrow> a = b"
  by (simp add: sidecarPath_def)

text \<open>
  A backup that was made successfully is in the list and can be opened; after it is deleted it is
  neither, and every other backup can be opened as before it was made.
\<close>
theorem backup_lifecycle:
  assumes "Create cd en env io busy staged dir now view d = Some (Inr info, d1)" and "valid_instant now"
    and "en_decode en (en_info en info) = Some info" and "backup_Delete en (in_Name info) (True, True) d1 = (r, d2)"
  shows "info \<in> set (backup_List en d1) \<and> (\<exists>a. backup_Open en (in_Name info) d1 = Some (a, info)) \<and>
    r = None \<and> (\<forall>i \<in> set (backup_List en d2). in_Name i \<noteq> in_Name info) \<and> backup_Open en (in_Name info) d2 = None \<and>
    (\<forall>name. name \<noteq> in_Name info \<longrightarrow> backup_Open en name d2 = backup_Open en name d)"
proof -
  let ?n = "in_Name info"
  obtain files m where w: "writeArchive cd en io files m d = Some (Inr info, d1)" "mf_CreatedAt m = now" by (rule Create_writes [OF assms(1)])
  note s = writeArchive_stored [OF w(1)]
  have valid: "ValidBackupName ?n" using s(1) w(2) assms(2) by simp
  obtain a where d1: "d1 = d\<lparr>bd_archives := AList.update ?n a (bd_archives d), bd_sidecars := AList.update (sidecarPath ?n) (en_info en info) (bd_sidecars d)\<rparr>"
    using s(3) w(2) assms(2) by blast
  have read: "readInfo en ?n d1 = Some info" using assms(3) by (simp add: readInfo_def d1 update_conv')
  have "sidecarPath ?n \<in> fst ` set (bd_sidecars d1)" by (simp add: d1 dom_map_of_conv_image_fst [symmetric] update_conv')
  moreover have "?n \<noteq> sidecarPath ?n" by (simp add: sidecarPath_def)
  ultimately have listed: "info \<in> set (backup_List en d1)"
    unfolding backup_List_mem using valid read TrimSuffix_sidecar by (intro bexI [of _ "sidecarPath ?n"]) auto
  have opened: "backup_Open en ?n d1 = Some (a, info)" using valid read by (simp add: backup_Open_def d1 update_conv')
  have d2: "r = None" "d2 = d1\<lparr>bd_sidecars := AList.delete (sidecarPath ?n) (bd_sidecars d1), bd_archives := AList.delete ?n (bd_archives d1)\<rparr>"
    using assms(4) valid read by (simp_all add: backup_Delete_def Let_def)
  have gone: "readInfo en ?n d2 = None" by (simp add: readInfo_def d2(2) delete_conv')
  then have "\<forall>i \<in> set (backup_List en d2). in_Name i \<noteq> ?n" 
  proof (intro ballI)
    fix i assume "i \<in> set (backup_List en d2)"
    then obtain f where "readInfo en (TrimSuffix f ''.json'') d2 = Some i" unfolding backup_List_mem by blast
    then show "in_Name i \<noteq> ?n" using readInfo_name gone by force
  qed
  moreover have "backup_Open en ?n d2 = None" using gone by (simp add: backup_Open_def)
  moreover have "backup_Open en name d2 = backup_Open en name d" if "name \<noteq> ?n" for name
  proof -
    have "readInfo en name d2 = readInfo en name d" using that by (simp add: readInfo_def d2(2) d1 delete_conv' update_conv')
    moreover have "map_of (bd_archives d2) name = map_of (bd_archives d) name" using that by (simp add: d2(2) d1 delete_conv' update_conv')
    ultimately show ?thesis by (simp add: backup_Open_def split: option.split)
  qed
  ultimately show ?thesis using listed opened d2(1) by blast
qed

section \<open>From a backup to a node\<close>

text \<open>Files that can lie in one directory: different safe names, none of them a directory of another.\<close>

definition tree_ok :: "file_tree \<Rightarrow> bool" where
  "tree_ok files \<longleftrightarrow> distinct (map fst files) \<and> (\<forall>f \<in> fst ` set files. safeName f = Some f \<and> f \<noteq> manifestName \<and> (\<forall>g \<in> fst ` set files. \<not> HasPrefix g (f @ ''/'')))"

lemma tree_ok_not_blocked:
  assumes "tree_ok (done @ (f, b) # rest)"
  shows "\<not> blocked done f" and "safeName f = Some f" and "f \<noteq> manifestName" and "map_of done f = None"
proof -
  let ?all = "fst ` set (done @ (f, b) # rest)"
  have sep: "\<not> HasPrefix g (h @ ''/'')" if "g \<in> ?all" "h \<in> ?all" for g h using assms that unfolding tree_ok_def by blast
  have f: "f \<in> ?all" by simp
  have new: "f \<notin> fst ` set done" using assms by (simp add: tree_ok_def)
  then show "map_of done f = None" by (simp add: map_of_eq_None_iff)
  have "\<not> (g = f \<or> HasPrefix f (g @ ''/'') \<or> HasPrefix g (f @ ''/''))" if "(g, x) \<in> set done" for g x
  proof -
    have "g \<in> ?all" "g \<in> fst ` set done" using that by force+
    then show ?thesis using sep f new by blast
  qed
  then show "\<not> blocked done f" unfolding blocked_def list_ex_iff by fast
  show "safeName f = Some f" "f \<noteq> manifestName" using assms f unfolding tree_ok_def by blast+
qed

lemma read_packed:
  "tree_ok (done @ files) \<Longrightarrow>
    read_entries cd (length files + Suc k) (map (\<lambda>(f, b). regular f b) files @ es) ends
      \<lparr>rd_manifest = None, rd_got = described cd done, rd_files = Some done\<rparr> =
    read_entries cd (Suc k) es ends \<lparr>rd_manifest = None, rd_got = described cd (done @ files), rd_files = Some (done @ files)\<rparr>"
proof (induction files arbitrary: "done")
  case (Cons p files)
  obtain f b where p: "p = (f, b)" by (cases p)
  have t: "\<not> blocked done f" "safeName f = Some f" "f \<noteq> manifestName" "map_of done f = None" using tree_ok_not_blocked [OF Cons.prems [unfolded p]] by blast+
  have "read_one cd (regular f b) \<lparr>rd_manifest = None, rd_got = described cd done, rd_files = Some done\<rparr> =
      Inr \<lparr>rd_manifest = None, rd_got = described cd (done @ [p]), rd_files = Some (done @ [p])\<rparr>"
    using t by (simp add: read_one_def readEntry_def regular_def p)
  then show ?case using Cons.IH [of "done @ [p]"] Cons.prems by (simp add: p)
qed simp

lemma walk_set: "set (walk files) = set files" "distinct (map fst (walk files)) \<longleftrightarrow> distinct (map fst files)"
proof -
  show "set (walk files) = set files" by (simp add: walk_def)
  show "distinct (map fst (walk files)) \<longleftrightarrow> distinct (map fst files)" by (simp add: walk_def distinct_map)
qed

lemma tree_ok_walk: "tree_ok (walk files) = tree_ok files"
  by (simp add: tree_ok_def walk_set)

lemma matchManifest_own: "distinct (map fst files) \<Longrightarrow> mf_Files m = described cd files \<Longrightarrow> matchManifest m (described cd files)"
  unfolding matchManifest_iff by (auto simp: map_of_eq_None_iff)

lemma read_pack:
  assumes "tree_ok files" and "mf_Files m = map (\<lambda>(f, b). (f, describe cd b)) (walk files)" and "mf_Version m = FormatVersion"
    and "cd_manifest cd (en_manifest en m) = Some m" and "int (length (en_manifest en m)) \<le> maxManifestSize"
  shows "readArchive cd (length files + 2) (Some (pack en m files)) True = Inr (m, described cd (walk files), walk files)"
proof -
  have t: "tree_ok ([] @ walk files)" using assms(1) by (simp add: tree_ok_walk)
  have files: "mf_Files m = described cd (walk files)" using assms(2) by (simp add: described_def)
  have safe: "safeName manifestName = Some manifestName" by code_simp
  have no: "map_of (described cd (walk files)) manifestName = None" using t by (auto simp: tree_ok_def map_of_eq_None_iff)
  have "read_entries cd (length (walk files) + Suc 1) (ar_entries (pack en m files)) True \<lparr>rd_manifest = None, rd_got = [], rd_files = Some []\<rparr> =
      Inr \<lparr>rd_manifest = Some m, rd_got = described cd (walk files), rd_files = Some (walk files)\<rparr>"
    using read_packed [OF t, of cd 1] no assms(4,5) safe by (simp add: pack_def regular_def read_one_def LimitReader_def)
  moreover have "length (walk files) = length files" by (simp add: walk_def)
  moreover have "matchManifest m (described cd (walk files))" using t files by (intro matchManifest_own) (simp_all add: tree_ok_def)
  ultimately show ?thesis using assms(3) by (simp add: readArchive_def pack_def)
qed

text \<open>The path of a file of an index.\<close>

definition data_path :: "string \<Rightarrow> string \<Rightarrow> string" where
  "data_path i p = dataPrefix @ i @ ''/'' @ p"

lemma cut_unique: "slash \<notin> set i \<Longrightarrow> slash \<notin> set j \<Longrightarrow> i @ slash # p = j @ slash # q \<Longrightarrow> i = j \<and> p = q"
  by (metis Pair_inject cut_at_append option.inject)

lemma data_path_eq: "proper i \<Longrightarrow> proper j \<Longrightarrow> data_path i p = data_path j q \<Longrightarrow> i = j \<and> p = q"
  using cut_unique [of i j p q] by (simp add: data_path_def dataPrefix_def proper_def)

lemma data_path_below: "proper i \<Longrightarrow> proper j \<Longrightarrow> HasPrefix (data_path j q) (data_path i p @ ''/'') \<Longrightarrow> i = j \<and> HasPrefix q (p @ ''/'')"
proof -
  assume i: "proper i" "proper j" and "HasPrefix (data_path j q) (data_path i p @ ''/'')"
  then obtain zs where "j @ slash # q = i @ slash # (p @ slash # zs)" by (auto simp: HasPrefix_iff prefix_def data_path_def dataPrefix_def)
  then show ?thesis using cut_unique [of j i q "p @ slash # zs"] i by (auto simp: proper_def HasPrefix_iff prefix_def)
qed

lemma safeName_data:
  assumes "proper i" and "list_all proper (Split_char slash p)" and "CHR 0x5C \<notin> set i" and "CHR 0x5C \<notin> set p"
  shows "safeName (data_path i p) = Some (data_path i p)"
proof -
  let ?es = "''data'' # i # Split_char slash p"
  have "data_path i p = join_slash ?es"
    using join_append [of "[''data'', i]" "Split_char slash p"] by (simp add: data_path_def dataPrefix_def join_Split)
  moreover have "list_all proper ?es" using assms by (simp add: proper_def)
  ultimately have "Clean (data_path i p) = data_path i p" using Clean_join [of ?es] by simp
  moreover have "\<not> Contains (data_path i p) [CHR 0x5C]" 
  proof
    assume "Contains (data_path i p) [CHR 0x5C]"
    then have "CHR 0x5C \<in> set (data_path i p)" by (auto simp: Contains_iff)
    then show False using assms(3,4) by (simp add: data_path_def dataPrefix_def)
  qed
  ultimately show ?thesis by (simp add: safeName_def Let_def data_path_def dataPrefix_def HasPrefix_def)
qed

text \<open>What a copy of an index looks like, and a node all of whose indexes can be copied.\<close>

definition copy_ok :: "file_tree \<Rightarrow> bool" where
  "copy_ok fs \<longleftrightarrow> distinct (map fst fs) \<and> (\<forall>p \<in> fst ` set fs. list_all proper (Split_char slash p) \<and> CHR 0x5C \<notin> set p \<and> (\<forall>q \<in> fst ` set fs. \<not> HasPrefix q (p @ ''/'')))"

definition index_ok :: "index_view \<Rightarrow> bool" where
  "index_ok v \<longleftrightarrow> distinct (map fst (iv_shards v)) \<and>
     (\<forall>s \<in> fst ` set (iv_shards v). proper s \<and> CHR 0x5C \<notin> set s \<and>
        (\<forall>k fs. iv_second v s k = Some fs \<longrightarrow> distinct (map fst fs) \<and> (\<forall>p \<in> fst ` set fs. proper p \<and> CHR 0x5C \<notin> set p)))"

definition view_ok :: "node_view \<Rightarrow> bool" where
  "view_ok v \<longleftrightarrow> distinct (nv_indexes v) \<and> (\<forall>i \<in> set (nv_indexes v). proper i \<and> CHR 0x5C \<notin> set i \<and> index_ok (nv_index v i))"

definition hex_value :: "char \<Rightarrow> nat" where
  "hex_value c = (if CHR ''a'' \<le> c then of_char c - 87 else of_char c - 48)"

lemma hex_value_char: "d < 16 \<Longrightarrow> hex_value (hex_char d) = d \<and> hex_char d \<noteq> slash \<and> hex_char d \<noteq> CHR 0x5C \<and> hex_char d \<noteq> CHR ''.''"
proof -
  have "\<forall>d \<in> set [0..<16]. hex_value (hex_char d) = d \<and> hex_char d \<noteq> slash \<and> hex_char d \<noteq> CHR 0x5C \<and> hex_char d \<noteq> CHR ''.''" by code_simp
  moreover assume "d < 16"
  ultimately show ?thesis by simp
qed

lemma FormatHex_value: "foldl (\<lambda>a c. 16 * a + hex_value c) 0 (FormatHex n) = n"
proof (induction n rule: FormatHex.induct)
  case (1 n)
  then show ?case by (subst FormatHex.simps) (simp add: hex_value_char)
qed

lemma FormatHex_chars: "c \<in> set (FormatHex n) \<Longrightarrow> c \<noteq> slash \<and> c \<noteq> CHR 0x5C \<and> c \<noteq> CHR ''.''"
proof (induction n rule: FormatHex.induct)
  case (1 n)
  show ?case
  proof (cases "n < 16")
    case True
    then show ?thesis using 1(2) hex_value_char by (subst (asm) FormatHex.simps) auto
  next
    case False
    then show ?thesis using 1 hex_value_char [of "n mod 16"] by (subst (asm) (2) FormatHex.simps) auto
  qed
qed

lemma second_name_inj: "second_name j = second_name k \<Longrightarrow> j = k"
proof -
  have zero: "foldl (\<lambda>a c. 16 * a + hex_value c) 0 (replicate n (CHR ''0'')) = 0" for n
  proof (induction n)
    case (Suc n)
    have "hex_value (CHR ''0'') = 0" by code_simp
    then show ?case using Suc by simp
  qed simp
  have "foldl (\<lambda>a c. 16 * a + hex_value c) 0 (second_name k) = k" for k by (simp add: second_name_def Let_def zero FormatHex_value)
  then show "second_name j = second_name k \<Longrightarrow> j = k" by metis
qed

lemma second_name_proper: "proper (second_name k)" "CHR 0x5C \<notin> set (second_name k)"
proof -
  have c: "c \<noteq> slash \<and> c \<noteq> CHR 0x5C \<and> c \<noteq> CHR ''.''" if "c \<in> set (second_name k)" for c
    using that FormatHex_chars [of c k] by (auto simp: second_name_def Let_def)
  have "second_name k \<noteq> []" by (subst second_name_def, subst FormatHex.simps) (simp add: Let_def)
  then show "proper (second_name k)" using c unfolding proper_def by fastforce
  show "CHR 0x5C \<notin> set (second_name k)" using c by blast
qed

text \<open>A part of a shard has a path of three elements.\<close>

definition second_path :: "string \<Rightarrow> nat \<Rightarrow> string \<Rightarrow> string" where
  "second_path s k p = s @ ''/'' @ second_name k @ ''/'' @ p"

lemma second_path_eq: "slash \<notin> set s \<Longrightarrow> slash \<notin> set t \<Longrightarrow> second_path s j p = second_path t k q \<Longrightarrow> s = t \<and> j = k \<and> p = q"
proof -
  assume st: "slash \<notin> set s" "slash \<notin> set t" and eq: "second_path s j p = second_path t k q"
  have sl: "slash \<notin> set (second_name n)" for n using second_name_proper(1) [of n] by (simp add: proper_def)
  have "s = t \<and> second_name j @ slash # p = second_name k @ slash # q" using cut_unique [OF st] eq by (simp add: second_path_def)
  moreover from this have "second_name j = second_name k \<and> p = q" using cut_unique [OF sl sl] by blast
  ultimately show ?thesis using second_name_inj by blast
qed

lemma second_path_flat:
  assumes "slash \<notin> set s" and "slash \<notin> set p" and "slash \<notin> set t" and "slash \<notin> set q"
  shows "\<not> HasPrefix (second_path t k q) (second_path s j p @ ''/'')"
proof
  have none: "slash \<notin> set x \<Longrightarrow> count_list x slash = 0" for x by simp
  have sl: "slash \<notin> set (second_name n)" for n using second_name_proper(1) [of n] by (simp add: proper_def)
  assume "HasPrefix (second_path t k q) (second_path s j p @ ''/'')"
  then obtain zs where "second_path t k q = second_path s j p @ slash # zs" by (auto simp: HasPrefix_iff prefix_def)
  then have "count_list (second_path t k q) slash = count_list (second_path s j p) slash + Suc (count_list zs slash)" by simp
  then show False using assms sl by (simp add: second_path_def none)
qed

lemma copy_seconds_mem:
  "copy_seconds second ks = Some files \<Longrightarrow> (f, b) \<in> set files \<Longrightarrow> \<exists>s k fs p. (s, k) \<in> set ks \<and> second s k = Some fs \<and> (p, b) \<in> set fs \<and> f = second_path s k p"
proof (induction second ks arbitrary: files rule: copy_seconds.induct)
  case (2 second s k rest)
  then obtain fs others where c: "second s k = Some fs" "copy_seconds second rest = Some others"
      "files = map (\<lambda>(p, b). (second_path s k p, b)) fs @ others" by (auto simp: second_path_def split: option.splits)
  show ?case
  proof (cases "(f, b) \<in> set others")
    case True
    then show ?thesis using 2(1) [OF c(1,2)] by fastforce
  next
    case False
    then obtain p where "(p, b) \<in> set fs" "f = second_path s k p" using 2(3) c(3) by auto
    then show ?thesis using c(1) by auto
  qed
qed simp

lemma copy_seconds_distinct:
  assumes "copy_seconds second ks = Some files" and "distinct ks"
    and "\<forall>(s, k) \<in> set ks. slash \<notin> set s \<and> (\<forall>fs. second s k = Some fs \<longrightarrow> distinct (map fst fs))"
  shows "distinct (map fst files)"
  using assms
proof (induction second ks arbitrary: files rule: copy_seconds.induct)
  case (2 second s k rest)
  then obtain fs others where c: "second s k = Some fs" "copy_seconds second rest = Some others"
      "files = map (\<lambda>(p, b). (second_path s k p, b)) fs @ others" by (auto simp: second_path_def split: option.splits)
  have sl: "slash \<notin> set s" using 2 by simp
  have "distinct (map fst others)" using 2 c by auto
  moreover have "distinct (map (second_path s k) (map fst fs))"
    unfolding distinct_map [of "second_path s k"] using 2(4) c(1) by (auto simp: inj_on_def second_path_def)
  moreover have "second_path s k p \<notin> fst ` set others" for p
  proof
    assume "second_path s k p \<in> fst ` set others"
    then obtain b where "(second_path s k p, b) \<in> set others" by auto
    from copy_seconds_mem [OF c(2) this] obtain t j q where t: "(t, j) \<in> set rest" "second_path s k p = second_path t j q" by blast
    have "slash \<notin> set t" using 2(4) t(1) by auto
    then show False using second_path_eq [OF sl _ t(2)] t(1) 2(3) by auto
  qed
  ultimately show ?case by (auto simp: c(3) comp_def case_prod_unfold)
qed simp

lemma seconds_distinct: "distinct (map fst shards) \<Longrightarrow> distinct (seconds shards)" "(s, k) \<in> set (seconds shards) \<Longrightarrow> s \<in> fst ` set shards"
proof -
  have pairs: "distinct (map fst xs) \<Longrightarrow> distinct [(s, k). (s, num) \<leftarrow> xs, k \<leftarrow> [0..<num]]" for xs :: "(string \<times> nat) list"
  proof (induction xs)
    case (Cons x xs)
    then show ?case by (cases x) (auto simp: distinct_map inj_on_def, force)
  qed simp
  assume "distinct (map fst shards)"
  then have "distinct (map fst (sort_key fst shards))" by (simp add: distinct_map)
  then show "distinct (seconds shards)" unfolding seconds_def by (rule pairs)
next
  assume "(s, k) \<in> set (seconds shards)"
  then show "s \<in> fst ` set shards" by (force simp: seconds_def)
qed

lemma BackupShards_copy_ok:
  assumes "BackupShards v = Some fs" and "index_ok v"
  shows "copy_ok fs"
proof -
  have c: "copy_seconds (iv_second v) (seconds (iv_shards v)) = Some fs" using assms(1) by (simp add: BackupShards_def split: if_splits)
  have shard: "proper s \<and> CHR 0x5C \<notin> set s \<and> (\<forall>ps. iv_second v s k = Some ps \<longrightarrow> distinct (map fst ps) \<and> (\<forall>p \<in> fst ` set ps. proper p \<and> CHR 0x5C \<notin> set p))"
    if "(s, k) \<in> set (seconds (iv_shards v))" for s k
    using seconds_distinct(2) [OF that] assms(2) unfolding index_ok_def by blast
  have "distinct (seconds (iv_shards v))" using assms(2) by (intro seconds_distinct) (simp add: index_ok_def)
  moreover have "\<forall>(s, k) \<in> set (seconds (iv_shards v)). slash \<notin> set s \<and> (\<forall>fs. iv_second v s k = Some fs \<longrightarrow> distinct (map fst fs))"
    using shard by (auto simp: proper_def)
  ultimately have dist: "distinct (map fst fs)" by (rule copy_seconds_distinct [OF c])
  have mem: "\<exists>s k p. f = second_path s k p \<and> proper s \<and> proper p \<and> CHR 0x5C \<notin> set s \<and> CHR 0x5C \<notin> set p" if f: "f \<in> fst ` set fs" for f
  proof -
    obtain b where "(f, b) \<in> set fs" using f by auto
    from copy_seconds_mem [OF c this] obtain s k ps p where s: "(s, k) \<in> set (seconds (iv_shards v))" "iv_second v s k = Some ps" "(p, b) \<in> set ps" "f = second_path s k p"
      by blast
    have "p \<in> fst ` set ps" using s(3) by force
    then show ?thesis using shard [OF s(1)] s by blast
  qed
  have "list_all proper (Split_char slash f) \<and> CHR 0x5C \<notin> set f" if f: "f \<in> fst ` set fs" for f
  proof -
    obtain s k p where s: "f = second_path s k p" "proper s" "proper p" "CHR 0x5C \<notin> set s" "CHR 0x5C \<notin> set p" using mem [OF f] by blast
    have "f = join_slash [s, second_name k, p]" by (simp add: s(1) second_path_def)
    moreover have "\<forall>e \<in> set [s, second_name k, p]. slash \<notin> set e" using s(2,3) second_name_proper(1) [of k] by (simp add: proper_def)
    ultimately have "Split_char slash f = [s, second_name k, p]" using Split_join [of "[s, second_name k, p]"] by simp
    then show ?thesis using s second_name_proper [of k] by (simp add: second_path_def)
  qed
  moreover have "\<not> HasPrefix g (f @ ''/'')" if "f \<in> fst ` set fs" "g \<in> fst ` set fs" for f g
    using mem [OF that(1)] mem [OF that(2)] second_path_flat by (auto simp: proper_def)
  ultimately show ?thesis using dist unfolding copy_ok_def by blast
qed

lemma view_ok_copies:
  assumes "view_ok v"
  shows "\<forall>i \<in> set (nv_indexes v). proper i \<and> CHR 0x5C \<notin> set i \<and> (\<forall>fs. nv_copy v i = Some fs \<longrightarrow> copy_ok fs)"
  using assms BackupShards_copy_ok unfolding view_ok_def nv_copy_def by blast

definition copies :: "node_view \<Rightarrow> string \<Rightarrow> file_tree" where
  "copies v i = (case nv_copy v i of None \<Rightarrow> [] | Some fs \<Rightarrow> map (\<lambda>(p, b). (data_path i p, b)) fs)"

lemma stage_quiet: "stage (\<lambda>_. v) t names = Some (files, docs) \<Longrightarrow> files = concat (map (copies v) names)"
  by (induction names arbitrary: t files docs) (auto simp: copies_def data_path_def split: option.splits)

lemma copies_mem: "(f, b) \<in> set (copies v i) \<longleftrightarrow> (\<exists>fs p. nv_copy v i = Some fs \<and> (p, b) \<in> set fs \<and> f = data_path i p)"
  by (cases "nv_copy v i") (force simp: copies_def)+

lemma copies_distinct:
  assumes "distinct names" and "\<forall>i \<in> set names. proper i \<and> (\<forall>fs. nv_copy v i = Some fs \<longrightarrow> copy_ok fs)"
  shows "distinct (map fst (concat (map (copies v) names)))"
  using assms
proof (induction names)
  case (Cons i names)
  have "distinct (map fst (copies v i))"
  proof (cases "nv_copy v i")
    case (Some fs)
    then have "distinct (map (data_path i) (map fst fs))"
      unfolding distinct_map [of "data_path i"] using Cons.prems by (auto simp: copy_ok_def inj_on_def data_path_def)
    then show ?thesis by (simp add: copies_def Some case_prod_unfold comp_def)
  qed (simp add: copies_def)
  moreover have "fst ` set (copies v i) \<inter> fst ` set (concat (map (copies v) names)) = {}"
  proof -
    have "f \<notin> fst ` set (concat (map (copies v) names))" if f: "(f, b) \<in> set (copies v i)" for f b
    proof
      assume "f \<in> fst ` set (concat (map (copies v) names))"
      then obtain j c where j: "j \<in> set names" "(f, c) \<in> set (copies v j)" by auto
      then obtain p q where "f = data_path i p" "f = data_path j q" using f unfolding copies_mem by blast
      moreover have "proper i" "proper j" "i \<noteq> j" using Cons.prems j(1) by auto
      ultimately show False using data_path_eq [of i j p q] by simp
    qed
    then show ?thesis by force
  qed
  ultimately show ?case using Cons by simp
qed simp

lemma staged_tree_ok:
  assumes "view_ok v" and "names = sort (nv_indexes v)"
  shows "tree_ok (concat (map (copies v) names) @ [(metadataName, raw)])"
proof -
  have n: "distinct names" "\<forall>i \<in> set names. proper i \<and> CHR 0x5C \<notin> set i \<and> (\<forall>fs. nv_copy v i = Some fs \<longrightarrow> copy_ok fs)"
    using assms view_ok_copies [OF assms(1)] by (simp_all add: view_ok_def)
  have mem: "\<exists>i p fs b. i \<in> set names \<and> nv_copy v i = Some fs \<and> (p, b) \<in> set fs \<and> f = data_path i p" if "f \<in> fst ` set (concat (map (copies v) names))" for f
  proof -
    obtain i b where "i \<in> set names" "(f, b) \<in> set (copies v i)" using \<open>f \<in> fst ` set (concat (map (copies v) names))\<close> by auto
    then show ?thesis unfolding copies_mem by blast
  qed
  have hd: "f \<noteq> metadataName \<and> f \<noteq> manifestName \<and> \<not> HasPrefix f (metadataName @ ''/'') \<and> \<not> HasPrefix metadataName (f @ ''/'')"
    if "f \<in> fst ` set (concat (map (copies v) names))" for f
    using mem [OF that] by (auto simp: data_path_def dataPrefix_def metadataName_def manifestName_def HasPrefix_def)
  have safe: "safeName f = Some f" if f: "f \<in> fst ` set (concat (map (copies v) names))" for f
  proof -
    obtain i p fs b where i: "i \<in> set names" "nv_copy v i = Some fs" "(p, b) \<in> set fs" "f = data_path i p" using mem [OF f] by blast
    have "p \<in> fst ` set fs" using i(3) by force
    then show ?thesis using i n(2) by (auto simp: copy_ok_def intro!: safeName_data)
  qed
  have sep: "\<not> HasPrefix g (f @ ''/'')"
    if f: "f \<in> fst ` set (concat (map (copies v) names))" and g: "g \<in> fst ` set (concat (map (copies v) names))" for f g
  proof
    assume pre: "HasPrefix g (f @ ''/'')"
    obtain i p fs b where i: "i \<in> set names" "nv_copy v i = Some fs" "(p, b) \<in> set fs" "f = data_path i p" using mem [OF f] by blast
    obtain j q gs c where j: "j \<in> set names" "nv_copy v j = Some gs" "(q, c) \<in> set gs" "g = data_path j q" using mem [OF g] by blast
    have "i = j \<and> HasPrefix q (p @ ''/'')" using data_path_below [of i j q p] pre i j n(2) by blast
    moreover have "p \<in> fst ` set fs" "q \<in> fst ` set gs" using i(3) j(3) by force+
    ultimately show False using i j n(2) by (auto simp: copy_ok_def)
  qed
  have meta: "safeName metadataName = Some metadataName" "metadataName \<noteq> manifestName" "\<not> HasPrefix metadataName (metadataName @ ''/'')" by code_simp+
  have "distinct (map fst (concat (map (copies v) names)))" using n by (intro copies_distinct) auto
  then show ?thesis using hd safe sep meta unfolding tree_ok_def by simp blast
qed

text \<open>What is moved into the data directory.\<close>

lemma subtree_index:
  assumes "\<forall>(f, b) \<in> set files. f = metadataName \<or> (\<exists>j \<in> set names. (f, b) \<in> set (copies v j))" and "\<forall>j \<in> set names. proper j"
    and "i \<in> set names" and "nv_copy v i = Some fs" and "set (copies v i) \<subseteq> set files"
  shows "set (subtree files i) = (\<lambda>(p, b). (''/'' @ p, b)) ` set fs"
proof -
  have i: "proper i" using assms(2,3) by blast
  have "(f, b) \<in> set (copies v i) \<longleftrightarrow> (f, b) \<in> set files \<and> (f = dataPrefix @ i \<or> HasPrefix f (dataPrefix @ i @ ''/''))" for f b
  proof
    assume "(f, b) \<in> set (copies v i)"
    then show "(f, b) \<in> set files \<and> (f = dataPrefix @ i \<or> HasPrefix f (dataPrefix @ i @ ''/''))"
      using assms(5) by (auto simp: copies_mem data_path_def HasPrefix_iff)
  next
    assume f: "(f, b) \<in> set files \<and> (f = dataPrefix @ i \<or> HasPrefix f (dataPrefix @ i @ ''/''))"
    have "f \<noteq> metadataName" using f by (auto simp: dataPrefix_def metadataName_def HasPrefix_def)
    then obtain j where j: "j \<in> set names" "(f, b) \<in> set (copies v j)" using assms(1) f by auto
    then obtain p where p: "f = data_path j p" unfolding copies_mem by blast
    have pj: "slash \<notin> set j" "slash \<notin> set i" using assms(2) j(1) i by (auto simp: proper_def)
    have "f \<noteq> dataPrefix @ i" using pj(2) by (auto simp: p data_path_def)
    then obtain zs where "j @ slash # p = i @ slash # zs" using f by (auto simp: HasPrefix_iff prefix_def p data_path_def)
    then have "j = i" using cut_unique pj by blast
    then show "(f, b) \<in> set (copies v i)" using j(2) by simp
  qed
  then have "set (subtree files i) = (\<lambda>(f, b). (drop (length dataPrefix + length i) f, b)) ` set (copies v i)"
    unfolding subtree_def by (force simp: image_iff)
  also have "\<dots> = (\<lambda>(p, b). (''/'' @ p, b)) ` set fs" by (force simp: copies_def assms(4) data_path_def image_iff)
  finally show ?thesis .
qed

lemma tops_staged:
  assumes "\<forall>(f, b) \<in> set files. f = metadataName \<or> (\<exists>j \<in> set names. (f, b) \<in> set (copies v j))" and "\<forall>j \<in> set names. proper j"
    and "\<forall>j \<in> set names. set (copies v j) \<subseteq> set files"
  shows "set (tops files) = {i \<in> set names. copies v i \<noteq> []}"
proof -
  have top: "top_name (data_path j p) = j \<and> HasPrefix (data_path j p) dataPrefix" if "j \<in> set names" for j p
    using assms(2) that cut_at_append [of slash j p] by (auto simp: top_name_def data_path_def proper_def HasPrefix_iff)
  have "t \<in> set (tops files) \<longleftrightarrow> (\<exists>f b. (f, b) \<in> set files \<and> HasPrefix f dataPrefix \<and> t = top_name f)" for t
    by (auto simp: tops_def)
  moreover have "(\<exists>f b. (f, b) \<in> set files \<and> HasPrefix f dataPrefix \<and> t = top_name f) \<longleftrightarrow> t \<in> set names \<and> copies v t \<noteq> []" for t
  proof
    assume "\<exists>f b. (f, b) \<in> set files \<and> HasPrefix f dataPrefix \<and> t = top_name f"
    then obtain f b where f: "(f, b) \<in> set files" "HasPrefix f dataPrefix" "t = top_name f" by blast
    have "f \<noteq> metadataName" using f(2) by (auto simp: metadataName_def dataPrefix_def HasPrefix_def)
    then obtain j where j: "j \<in> set names" "(f, b) \<in> set (copies v j)" using assms(1) f(1) by auto
    then obtain p where "f = data_path j p" unfolding copies_mem by blast
    then show "t \<in> set names \<and> copies v t \<noteq> []" using top [OF j(1), of p] f(3) j by auto
  next
    assume t: "t \<in> set names \<and> copies v t \<noteq> []"
    then obtain f b where f: "(f, b) \<in> set (copies v t)" by (cases "copies v t") auto
    then obtain p where "f = data_path t p" unfolding copies_mem by blast
    then show "\<exists>f b. (f, b) \<in> set files \<and> HasPrefix f dataPrefix \<and> t = top_name f"
      using f top [of t p] t assms(3) by (intro exI [of _ f] exI [of _ b]) auto
  qed
  ultimately show ?thesis by auto
qed

text \<open>Without storage errors every step of a restore succeeds.\<close>

lemma io_fault_none [simp]: "bn_faults n = [] \<Longrightarrow> io_fault n = (False, n)"
  by (simp add: io_fault_def)

lemma move_each_works:
  "bn_faults n = [] \<Longrightarrow> distinct ts \<Longrightarrow> \<forall>t \<in> set ts. t \<notin> fst ` set (bn_dirs n) \<Longrightarrow>
    \<exists>n'. move_each files ts moved n = ((None, moved @ ts), n') \<and> bn_faults n' = []"
proof (induction ts arbitrary: moved n)
  case (Cons t ts)
  let ?n = "n\<lparr>bn_dirs := bn_dirs n @ [(t, subtree files t)]\<rparr>"
  have "\<exists>n'. move_each files ts (moved @ [t]) ?n = ((None, (moved @ [t]) @ ts), n') \<and> bn_faults n' = []" using Cons.prems by (intro Cons.IH) auto
  moreover have "map_of (bn_dirs n) t = None" using Cons.prems(3) by (simp add: map_of_eq_None_iff)
  ultimately show ?case using Cons.prems(1) by simp
qed simp

lemma delete_keys_works: "bn_faults n = [] \<Longrightarrow> \<exists>n'. delete_keys ks n = (True, n') \<and> bn_faults n' = []"
  by (induction ks arbitrary: n) auto

lemma set_keys_works: "bn_faults n = [] \<Longrightarrow> \<exists>n'. set_keys kvs n = (True, n')"
  by (induction kvs arbitrary: n) auto

lemma metadata_Load_works: "bn_faults n = [] \<Longrightarrow> \<exists>n'. metadata_Load entries n = (True, n')"
  using delete_keys_works [of n "filter (\<lambda>k. map_of entries k = None) (map fst (bn_meta n))"] set_keys_works [of _ entries]
  by (fastforce simp: metadata_Load_def)

lemma Restore_works:
  assumes "bn_loaded n = 0" and "bn_faults n = []" and "\<forall>(t, _) \<in> set (bn_dirs n). HasPrefix t ''_'' \<or> HasPrefix t ''.''"
    and "readArchive cd alive arch True = Inr (m, got, files)" and "readMetadata cd files = Some entries"
    and "\<forall>t \<in> set (tops files). t \<notin> fst ` set (bn_dirs n)" and "distinct (map fst entries)"
  shows "\<exists>n'. Restore cd alive arch n = (Inr m, n') \<and> bn_dirs n' = bn_dirs n @ map (\<lambda>t. (t, subtree files t)) (tops files) \<and>
    map_of (bn_meta n') = map_of entries"
proof -
  have c: "checkEmpty n = (None, n)" using assms(1-3) by (auto simp: checkEmpty_def list_ex_iff)
  have "\<exists>moved n3. moveIndexes files n = ((None, moved), n3) \<and> bn_faults n3 = []"
    using move_each_works [OF assms(2) tops_distinct assms(6), of files "[]"] assms(2) by (auto simp: moveIndexes_def)
  then obtain moved n3 where m: "moveIndexes files n = ((None, moved), n3)" "bn_faults n3 = []" by blast
  obtain n4 where l: "metadata_Load entries n3 = (True, n4)" using metadata_Load_works [OF m(2)] by blast
  have "Restore cd alive arch n = (Inr m, n4)" using c assms(2,4,5) m(1) l by (simp add: Restore_def)
  then show ?thesis using moveIndexes_effect(3) [OF m(1)] metadata_Load_effect [OF l assms(7)] by simp
qed

section \<open>The round trip\<close>

text \<open>The files and the manifest of a backup of a node that does not change.\<close>

definition quiet_files :: "encoder \<Rightarrow> node_view \<Rightarrow> file_tree" where
  "quiet_files en v = concat (map (copies v) (sort (nv_indexes v))) @ [(metadataName, en_metadata en (case nv_dump v of None \<Rightarrow> [] | Some es \<Rightarrow> es))]"

definition quiet_manifest :: "codec \<Rightarrow> encoder \<Rightarrow> instant \<Rightarrow> node_view \<Rightarrow> Manifest" where
  "quiet_manifest cd en now v =
     \<lparr>mf_Version = FormatVersion, mf_CreatedAt = now, mf_LastApplied = (case nv_offset v of None \<Rightarrow> 0 | Some q \<Rightarrow> q), mf_Indexes = sort (nv_indexes v),
      mf_Docs = map (\<lambda>i. (i, case nv_docs v i of None \<Rightarrow> 0 | Some c \<Rightarrow> c)) (sort (nv_indexes v)), mf_Files = described cd (walk (quiet_files en v))\<rparr>"

text \<open>The directory of an index after restoring; an index without files has none.\<close>

definition restored :: "file_tree option \<Rightarrow> (string \<times> bytes) set option" where
  "restored copy = (case copy of None \<Rightarrow> None | Some fs \<Rightarrow> if fs = [] then None else Some ((\<lambda>(p, b). (''/'' @ p, b)) ` set fs))"

lemma stage_quiet_docs: "stage (\<lambda>_. v) t names = Some (files, docs) \<Longrightarrow>
    docs = map (\<lambda>i. (i, case nv_docs v i of None \<Rightarrow> 0 | Some c \<Rightarrow> c)) names \<and> (\<forall>i \<in> set names. nv_copy v i \<noteq> None \<and> nv_docs v i \<noteq> None)"
  by (induction names arbitrary: t files docs) (auto split: option.splits)

lemma Create_quiet:
  assumes "Create cd en env io busy staged dir now (\<lambda>_. v) d = Some (Inr info, d')" and "valid_instant now"
  shows "\<exists>q es. nv_offset v = Some q \<and> nv_dump v = Some es \<and> (\<forall>i \<in> set (nv_indexes v). nv_copy v i \<noteq> None \<and> nv_docs v i \<noteq> None)"
    and "ValidBackupName (in_Name info) \<and> map_of (bd_archives d') (in_Name info) = Some (pack en (quiet_manifest cd en now v) (quiet_files en v)) \<and>
      map_of (bd_sidecars d') (sidecarPath (in_Name info)) = Some (en_info en info)"
proof -
  obtain p q files docs es where c: "nv_pending v = Some p" "nv_offset v = Some q" "stage (\<lambda>_. v) 1 (sort (nv_indexes v)) = Some (files, docs)" "nv_dump v = Some es"
      "writeArchive cd en io (files @ [(metadataName, en_metadata en es)])
         \<lparr>mf_Version = FormatVersion, mf_CreatedAt = now, mf_LastApplied = q, mf_Indexes = sort (nv_indexes v), mf_Docs = docs, mf_Files = []\<rparr> d = Some (Inr info, d')"
    using assms(1) by (auto simp: Create_def currentState_def Let_def split: if_splits sum.splits option.splits)
  show "\<exists>q es. nv_offset v = Some q \<and> nv_dump v = Some es \<and> (\<forall>i \<in> set (nv_indexes v). nv_copy v i \<noteq> None \<and> nv_docs v i \<noteq> None)"
    using c(2,4) stage_quiet_docs [OF c(3)] by auto
  have "files @ [(metadataName, en_metadata en es)] = quiet_files en v" using stage_quiet [OF c(3)] c(4) by (simp add: quiet_files_def)
  then show "ValidBackupName (in_Name info) \<and> map_of (bd_archives d') (in_Name info) = Some (pack en (quiet_manifest cd en now v) (quiet_files en v)) \<and>
      map_of (bd_sidecars d') (sidecarPath (in_Name info)) = Some (en_info en info)"
    using writeArchive_stored [OF c(5)] assms(2) c(2) stage_quiet_docs [OF c(3)] by (simp add: quiet_manifest_def described_def update_conv')
qed

lemma quiet_files_mem:
  "\<forall>(f, b) \<in> set (walk (quiet_files en v)). f = metadataName \<or> (\<exists>j \<in> set (nv_indexes v). (f, b) \<in> set (copies v j))"
  "\<forall>j \<in> set (nv_indexes v). set (copies v j) \<subseteq> set (walk (quiet_files en v))"
  by (auto simp: quiet_files_def walk_set)

lemma map_of_appended:
  assumes "\<forall>t \<in> set ts. t \<notin> fst ` set ds"
  shows "map_of (ds @ map (\<lambda>t. (t, f t)) ts) t = (if t \<in> set ts then Some (f t) else map_of ds t)"
proof (cases "t \<in> set ts")
  case True
  then have "map_of ds t = None" using assms unfolding map_of_eq_None_iff by blast
  then show ?thesis using True by (simp add: map_add_def map_of_map_restrict split: option.split)
qed (simp add: map_add_def map_of_map_restrict split: option.split)

text \<open>
  C10. A backup of a node that does not change, restored on an empty node without storage errors, gives
  that node back: the metadata, the directory of every index with exactly the files that were copied,
  nothing else, and the offset of the stream. Deep verification of the archive succeeds too, with an
  engine that loads what it dumped and counts what it copied.
\<close>
theorem backup_roundtrip:
  assumes "Create cd en env io busy staged dir now (\<lambda>_. v) d = Some (Inr info, d1)" and "valid_instant now" and "view_ok v"
    and "cd_manifest cd (en_manifest en (quiet_manifest cd en now v)) = Some (quiet_manifest cd en now v)"
    and "int (length (en_manifest en (quiet_manifest cd en now v))) \<le> maxManifestSize"
    and "\<forall>es. nv_dump v = Some es \<longrightarrow> cd_metadata cd (en_metadata en es) = Some es \<and> distinct (map fst es)"
    and "en_decode en (en_info en info) = Some info"
    and "bn_loaded n = 0" and "bn_faults n = []" and "\<forall>(t, _) \<in> set (bn_dirs n). HasPrefix t ''_'' \<or> HasPrefix t ''.''"
    and "\<forall>i \<in> set (nv_indexes v). i \<notin> fst ` set (bn_dirs n)"
    and "\<forall>x. map_of (bn_meta x) = map_of (the (nv_dump v)) \<longrightarrow> eg_load eg x"
    and "\<forall>x. \<forall>i \<in> set (nv_indexes v). map_option set (map_of (bn_dirs x) i) = restored (BackupShards (nv_index v i)) \<longrightarrow> eg_count eg x i = nv_docs v i"
  shows "\<exists>a m n'. backup_Open en (in_Name info) d1 = Some (a, info) \<and> Restore cd (length (ar_entries a) + 1) (Some a) n = (Inr m, n') \<and>
    VerifyDeep cd eg (length (ar_entries a) + 1) (Some a) n = (Inr m, n') \<and>
    nv_offset v = Some (mf_LastApplied m) \<and> nv_dump v \<noteq> None \<and> map_of (bn_meta n') = map_of (the (nv_dump v)) \<and>
    (\<forall>i \<in> set (nv_indexes v). BackupShards (nv_index v i) \<noteq> None \<and> map_option set (map_of (bn_dirs n') i) = restored (BackupShards (nv_index v i))) \<and>
    (\<forall>t. t \<notin> set (nv_indexes v) \<longrightarrow> map_of (bn_dirs n') t = map_of (bn_dirs n) t)"
proof -
  let ?m = "quiet_manifest cd en now v" and ?fs = "quiet_files en v"
  let ?w = "walk ?fs" and ?a = "pack en ?m ?fs"
  obtain q es where v: "nv_offset v = Some q" "nv_dump v = Some es" "\<forall>i \<in> set (nv_indexes v). nv_copy v i \<noteq> None \<and> nv_docs v i \<noteq> None"
    using Create_quiet(1) [OF assms(1,2)] by blast
  note st = Create_quiet(2) [OF assms(1,2)]
  have opened: "backup_Open en (in_Name info) d1 = Some (?a, info)" using st assms(7) by (simp add: backup_Open_def readInfo_def)
  have tree: "tree_ok ?fs" unfolding quiet_files_def by (rule staged_tree_ok [OF assms(3) refl])
  have ip: "\<forall>j \<in> set (nv_indexes v). proper j" using assms(3) by (simp add: view_ok_def)
  have len: "length (ar_entries ?a) + 1 = length ?fs + 2" by (simp add: pack_def walk_def)
  have rd: "readArchive cd (length ?fs + 2) (Some ?a) True = Inr (?m, described cd ?w, ?w)"
    by (rule read_pack [OF tree _ _ assms(4,5)]) (simp_all add: quiet_manifest_def described_def)
  have "distinct (map fst ?w)" using tree by (simp add: tree_ok_def walk_set)
  moreover have "(metadataName, en_metadata en es) \<in> set ?w" by (simp add: quiet_files_def walk_set v(2))
  ultimately have "map_of ?w metadataName = Some (en_metadata en es)" by simp
  then have md: "readMetadata cd ?w = Some es" using assms(6) v(2) by (simp add: readMetadata_def)
  have tops: "set (tops ?w) = {i \<in> set (nv_indexes v). copies v i \<noteq> []}" by (rule tops_staged [OF quiet_files_mem(1) ip quiet_files_mem(2)])
  obtain n' where R: "Restore cd (length ?fs + 2) (Some ?a) n = (Inr ?m, n')" "bn_dirs n' = bn_dirs n @ map (\<lambda>t. (t, subtree ?w t)) (tops ?w)"
      "map_of (bn_meta n') = map_of es"
    using Restore_works [OF assms(8-10) rd md] tops assms(6,11) v(2) by auto
  have look: "map_of (bn_dirs n') t = (if t \<in> set (tops ?w) then Some (subtree ?w t) else map_of (bn_dirs n) t)" for t
    unfolding R(2) by (rule map_of_appended) (use tops assms(11) in auto)
  have dirs: "BackupShards (nv_index v i) \<noteq> None \<and> map_option set (map_of (bn_dirs n') i) = restored (BackupShards (nv_index v i))"
    if i: "i \<in> set (nv_indexes v)" for i
  proof -
    obtain fs where fs: "nv_copy v i = Some fs" using v(3) i by blast
    have "map_of (bn_dirs n) i = None" using assms(11) i unfolding map_of_eq_None_iff by blast
    moreover have "set (subtree ?w i) = (\<lambda>(p, b). (''/'' @ p, b)) ` set fs"
      using i quiet_files_mem(2) by (intro subtree_index [OF quiet_files_mem(1) ip i fs]) auto
    moreover have "copies v i = [] \<longleftrightarrow> fs = []" by (simp add: copies_def fs)
    ultimately show ?thesis using fs i look [of i] tops by (auto simp: nv_copy_def restored_def)
  qed
  have "VerifyDeep cd eg (length ?fs + 2) (Some ?a) n = (Inr ?m, n')"
  proof -
    have "eg_count eg n' i = Some (case map_of (mf_Docs ?m) i of None \<Rightarrow> 0 | Some c \<Rightarrow> c)" if i: "i \<in> set (nv_indexes v)" for i
    proof -
      have "map_of (mf_Docs ?m) i = Some (case nv_docs v i of None \<Rightarrow> 0 | Some c \<Rightarrow> c)" using i by (simp add: quiet_manifest_def map_of_map_restrict)
      then show ?thesis using assms(13) dirs [OF i] i v(3) by auto
    qed
    then show ?thesis using R(1,3) assms(12) v(2) by (simp add: VerifyDeep_def list_all_iff quiet_manifest_def)
  qed
  moreover have "map_of (bn_dirs n') t = map_of (bn_dirs n) t" if "t \<notin> set (nv_indexes v)" for t using that look [of t] tops by simp
  moreover have "nv_offset v = Some (mf_LastApplied ?m)" by (simp add: quiet_manifest_def v(1))
  ultimately show ?thesis using opened R(1,3) v(2) dirs unfolding len [symmetric] by (intro exI [of _ ?a] exI [of _ ?m] exI [of _ n']) simp
qed

text \<open>A node with one index of one shard with two parts, and one with an index that has no files.\<close>

definition ex_index :: "bytes \<Rightarrow> index_view" where
  "ex_index seg = \<lparr>iv_storage = ''disk'', iv_shards = [(''s1'', 2)],
     iv_second = (\<lambda>s k. Some [(''seg'', if k = 0 then seg else ''b''), (''snp'', ''c'')])\<rparr>"

definition ex_view :: "bytes \<Rightarrow> bytes \<Rightarrow> node_view" where
  "ex_view x y = \<lparr>nv_pending = Some 0, nv_offset = Some 7, nv_indexes = [''j'', ''i''], nv_index = (\<lambda>i. ex_index (if i = ''i'' then x else y)),
     nv_docs = (\<lambda>_. Some 2), nv_dump = Some [(''stream_offset'', ''7''), (''/index/i'', ''{}''), (''/index/j'', ''{}'')]\<rparr>"

definition ex_now :: instant where
  "ex_now = (2024, 1, 2, 3, 4, 5)"

definition ex_info :: ArchiveInfo where
  "ex_info = \<lparr>in_Name = ''zincsearch-20240102T030405Z-7-2.tgz'', in_Size = 9, in_SHA256 = ''h'', in_CreatedAt = ex_now, in_LastApplied = 7, in_Indexes = [''i'', ''j'']\<rparr>"

definition ex_encoder :: encoder where
  "ex_encoder = \<lparr>en_manifest = (\<lambda>_. ''{}''), en_metadata = (\<lambda>_. ''meta''), en_info = (\<lambda>_. ''info''), en_decode = (\<lambda>_. Some ex_info), en_gzip = (\<lambda>_. ''123456789'')\<rparr>"

definition ex_codec2 :: codec where
  "ex_codec2 = \<lparr>cd_hash = (\<lambda>_. ''h''), cd_manifest = (\<lambda>_. Some (quiet_manifest ex_codec ex_encoder ex_now (ex_view ''a'' ''a''))), cd_metadata = (\<lambda>_. nv_dump (ex_view [] []))\<rparr>"

definition ex_engine :: engine where
  "ex_engine = \<lparr>eg_load = (\<lambda>n. map_of (bn_meta n) ''/index/i'' \<noteq> None), eg_count = (\<lambda>n i. map_option (\<lambda>_. 2) (map_of (bn_dirs n) i))\<rparr>"

definition ex_env :: dir_env where
  "ex_env = \<lparr>de_Abs = Some, de_DataPath = ''/zinc/data'', de_MkdirAll = (\<lambda>_. True), de_EvalSymlinks = (\<lambda>_. None)\<rparr>"

definition ex_create :: "(nat \<Rightarrow> node_view) \<Rightarrow> ((nb_error + ArchiveInfo) \<times> backup_dir) option" where
  "ex_create view = Create ex_codec2 ex_encoder ex_env ex_io False True ''/backups'' ex_now view ex_dir"

lemma ex_pick:
  assumes "mf_CreatedAt m = ex_now" and "mf_LastApplied m = 7"
  shows "pick_name (lstat_of ex_io ex_dir) m 1 = Some (in_Name ex_info)"
proof -
  have "time_stamp ex_now = ''20240102T030405Z''" "FormatUint 7 = ''7''" "FormatUint (Suc (Suc 0)) = ''2''" by code_simp+
  then have names: "name_at m 1 = ''zincsearch-20240102T030405Z-7.tgz''" "name_at m (1 + 1) = in_Name ex_info"
    using assms by (simp_all add: name_at_eq ex_info_def)
  have stat: "lstat_of ex_io ex_dir x = (if x = ''zincsearch-20240102T030405Z-7.tgz'' then Exists else NotExist)" for x
    by (simp add: lstat_of_def ex_io_def ex_dir_def)
  have free: "lstat_of ex_io ex_dir (in_Name ex_info) = NotExist" unfolding stat by (simp add: ex_info_def)
  have "pick_name (lstat_of ex_io ex_dir) m 1 = Some (name_at m (1 + 1))"
  proof (rule pick_name_found)
    show "lstat_of ex_io ex_dir (name_at m (1 + 1)) = NotExist" unfolding names(2) by (rule free)
    show "\<forall>j < 1. lstat_of ex_io ex_dir (name_at m (1 + j)) \<noteq> NotExist" using names(1) by (simp add: stat)
  qed
  then show ?thesis unfolding names(2) .
qed

text \<open>The example with the index \<open>i\<close> copied first and \<open>j\<close> at the next moment.\<close>

lemma ex_creates:
  assumes "view = (\<lambda>t. if t \<le> 1 then ex_view x x else ex_view y y)"
  shows "\<exists>m d1. ex_create view = Some (Inr ex_info, d1) \<and> map_of (bd_archives d1) (in_Name ex_info) =
    Some (pack ex_encoder m (copies (ex_view x x) ''i'' @ copies (ex_view y y) ''j'' @ [(metadataName, ''meta'')]))"
proof -
  have dir: "prepareDir ex_env ''/backups'' = Inr ''/backups''" by code_simp
  have names: "sort [''j'', ''i''] = [''i'', ''j'']" by code_simp
  have copy: "nv_copy (ex_view a b) i \<noteq> None" for a b i by (simp add: nv_copy_def BackupShards_def ex_view_def ex_index_def seconds_def eval_nat_numeral)
  obtain f g where fg: "nv_copy (ex_view x x) ''i'' = Some f" "nv_copy (ex_view y y) ''j'' = Some g" using copy by blast
  have views: "view 0 = ex_view x x" "view 1 = ex_view x x" "view 2 = ex_view y y" "view 3 = ex_view y y" "view 4 = ex_view y y" by (simp_all add: assms)
  let ?files = "copies (ex_view x x) ''i'' @ copies (ex_view y y) ''j''"
  have st: "stage view 1 [''i'', ''j''] = Some (?files, [(''i'', 2), (''j'', 2)])"
    using fg views by (simp add: copies_def data_path_def numeral_2_eq_2) (simp add: ex_view_def)
  let ?m = "\<lparr>mf_Version = FormatVersion, mf_CreatedAt = ex_now, mf_LastApplied = 7, mf_Indexes = [''i'', ''j''], mf_Docs = [(''i'', 2), (''j'', 2)], mf_Files = []\<rparr>"
  let ?all = "?files @ [(metadataName, ''meta'')]"
  have pick: "pick_name (lstat_of ex_io ex_dir) (?m\<lparr>mf_Files := fs\<rparr>) 1 = Some (in_Name ex_info)" for fs by (rule ex_pick) simp_all
  have "\<exists>m d1. writeArchive ex_codec2 ex_encoder ex_io ?all ?m ex_dir = Some (Inr ex_info, d1) \<and> map_of (bd_archives d1) (in_Name ex_info) = Some (pack ex_encoder m ?all)"
    unfolding writeArchive_def Let_def pick by (simp add: ex_io_def update_conv' ex_info_def ex_encoder_def ex_codec2_def) blast?
  moreover have "ex_create view = writeArchive ex_codec2 ex_encoder ex_io ?all ?m ex_dir"
  proof -
    have v: "currentState (view 0) = Some (0, 7)" "currentState (view 4) = Some (0, 7)" "nv_indexes (view 0) = [''j'', ''i'']" "nv_dump (view 3) \<noteq> None" 
      unfolding views by (simp_all add: currentState_def ex_view_def)
    have "en_metadata ex_encoder es = ''meta''" for es by (simp add: ex_encoder_def)
    then show ?thesis using dir names st v unfolding ex_create_def Create_def by (auto simp: Let_def eval_nat_numeral)
  qed
  ultimately show ?thesis by simp
qed

lemma ex_created: "\<exists>d1. ex_create (\<lambda>_. ex_view ''a'' ''a'') = Some (Inr ex_info, d1)"
  using ex_creates [of _ "''a''" "''a''", OF refl] by auto

theorem backup_lifecycle_witness:
  "\<exists>d1 d2. ex_create (\<lambda>_. ex_view ''a'' ''a'') = Some (Inr ex_info, d1) \<and> backup_Delete ex_encoder (in_Name ex_info) (True, True) d1 = (None, d2) \<and>
     backup_Open ex_encoder (in_Name ex_info) d2 = None"
proof -
  obtain d1 where c: "ex_create (\<lambda>_. ex_view ''a'' ''a'') = Some (Inr ex_info, d1)" using ex_created by blast
  obtain r d2 where d: "backup_Delete ex_encoder (in_Name ex_info) (True, True) d1 = (r, d2)" by (cases "backup_Delete ex_encoder (in_Name ex_info) (True, True) d1")
  have "valid_instant ex_now" by code_simp
  moreover have "en_decode ex_encoder (en_info ex_encoder ex_info) = Some ex_info" by (simp add: ex_encoder_def)
  ultimately show ?thesis using backup_lifecycle [OF c [unfolded ex_create_def] _ _ d] c d by auto
qed

theorem backup_roundtrip_witness:
  "\<exists>d1 a m n'. ex_create (\<lambda>_. ex_view ''a'' ''a'') = Some (Inr ex_info, d1) \<and> backup_Open ex_encoder (in_Name ex_info) d1 = Some (a, ex_info) \<and>
     VerifyDeep ex_codec2 ex_engine (length (ar_entries a) + 1) (Some a) (ex_new []) = (Inr m, n') \<and> mf_LastApplied m = 7 \<and>
     map_option set (map_of (bn_dirs n') ''i'') = Some {(''/s1/000000/seg'', ''a''), (''/s1/000000/snp'', ''c''), (''/s1/000001/seg'', ''b''), (''/s1/000001/snp'', ''c'')}"
proof -
  obtain d1 where c: "ex_create (\<lambda>_. ex_view ''a'' ''a'') = Some (Inr ex_info, d1)" using ex_created by blast
  have now: "valid_instant ex_now" by code_simp
  have view: "view_ok (ex_view ''a'' ''a'')" by (simp add: view_ok_def ex_view_def index_ok_def ex_index_def proper_def)
  have m: "cd_manifest ex_codec2 (en_manifest ex_encoder (quiet_manifest ex_codec2 ex_encoder ex_now (ex_view ''a'' ''a''))) =
      Some (quiet_manifest ex_codec2 ex_encoder ex_now (ex_view ''a'' ''a''))"
    by (simp add: ex_codec2_def ex_codec_def quiet_manifest_def described_def describe_def)
  have size: "int (length (en_manifest ex_encoder (quiet_manifest ex_codec2 ex_encoder ex_now (ex_view ''a'' ''a'')))) \<le> maxManifestSize"
    by (simp add: ex_encoder_def maxManifestSize_def)
  have es: "\<forall>es. nv_dump (ex_view ''a'' ''a'') = Some es \<longrightarrow> cd_metadata ex_codec2 (en_metadata ex_encoder es) = Some es \<and> distinct (map fst es)"
    by (simp add: ex_view_def ex_codec2_def)
  have dec: "en_decode ex_encoder (en_info ex_encoder ex_info) = Some ex_info" by (simp add: ex_encoder_def)
  have new: "bn_loaded (ex_new []) = 0" "bn_faults (ex_new []) = []" "\<forall>(t, _) \<in> set (bn_dirs (ex_new [])). HasPrefix t ''_'' \<or> HasPrefix t ''.''"
      "\<forall>i \<in> set (nv_indexes (ex_view ''a'' ''a'')). i \<notin> fst ` set (bn_dirs (ex_new []))"
    by (simp_all add: ex_new_def ex_view_def HasPrefix_def)
  have "BackupShards (ex_index ''a'') =
      Some [(''s1/000000/seg'', ''a''), (''s1/000000/snp'', ''c''), (''s1/000001/seg'', ''b''), (''s1/000001/snp'', ''c'')]" by code_simp
  then have copy: "BackupShards (nv_index (ex_view ''a'' ''a'') i) =
      Some [(''s1/000000/seg'', ''a''), (''s1/000000/snp'', ''c''), (''s1/000001/seg'', ''b''), (''s1/000001/snp'', ''c'')]" for i
    by (simp add: ex_view_def)
  have mem: "''i'' \<in> set (nv_indexes (ex_view ''a'' ''a''))" and off: "nv_offset (ex_view ''a'' ''a'') = Some 7" by (simp_all add: ex_view_def)
  have load: "\<forall>x. map_of (bn_meta x) = map_of (the (nv_dump (ex_view ''a'' ''a''))) \<longrightarrow> eg_load ex_engine x"
    by (simp add: ex_engine_def ex_view_def)
  have count: "\<forall>x. \<forall>i \<in> set (nv_indexes (ex_view ''a'' ''a'')). map_option set (map_of (bn_dirs x) i) = restored (BackupShards (nv_index (ex_view ''a'' ''a'') i)) \<longrightarrow>
      eg_count ex_engine x i = nv_docs (ex_view ''a'' ''a'') i"
    unfolding copy by (auto simp: ex_engine_def restored_def ex_view_def)
  obtain a m n' where r: "backup_Open ex_encoder (in_Name ex_info) d1 = Some (a, ex_info)"
      "VerifyDeep ex_codec2 ex_engine (length (ar_entries a) + 1) (Some a) (ex_new []) = (Inr m, n')" "nv_offset (ex_view ''a'' ''a'') = Some (mf_LastApplied m)"
      "\<forall>i \<in> set (nv_indexes (ex_view ''a'' ''a'')). map_option set (map_of (bn_dirs n') i) = restored (BackupShards (nv_index (ex_view ''a'' ''a'') i))"
    using backup_roundtrip [OF c [unfolded ex_create_def] now view m size es dec new load count] by blast
  show ?thesis
    using c r(1,2) r(3) off r(4) [rule_format, OF mem] unfolding copy
    by (intro exI [of _ d1] exI [of _ a] exI [of _ m] exI [of _ n']) (auto simp: image_def restored_def)
qed

text \<open>
  The check that the node is quiet compares the offset and the number of pending entries before
  and after copying. A document that is written and applied between the copies of two indexes changes
  neither: the backup succeeds, and it holds the first index from before and the second from after.
\<close>
theorem quiet_check_misses_change:
  "\<exists>d1 a. ex_create (\<lambda>t. if t \<le> 1 then ex_view ''a'' ''a'' else ex_view ''n'' ''n'') = Some (Inr ex_info, d1) \<and> map_of (bd_archives d1) (in_Name ex_info) = Some a \<and>
     regular ''data/i/s1/000000/seg'' ''a'' \<in> set (ar_entries a) \<and> regular ''data/j/s1/000000/seg'' ''n'' \<in> set (ar_entries a)"
proof -
  let ?files = "copies (ex_view ''a'' ''a'') ''i'' @ copies (ex_view ''n'' ''n'') ''j'' @ [(metadataName, ''meta'')]"
  have "(''data/i/s1/000000/seg'', ''a'') \<in> set ?files" "(''data/j/s1/000000/seg'', ''n'') \<in> set ?files" by code_simp+
  then have "regular ''data/i/s1/000000/seg'' ''a'' \<in> set (ar_entries (pack ex_encoder m ?files))" "regular ''data/j/s1/000000/seg'' ''n'' \<in> set (ar_entries (pack ex_encoder m ?files))" for m
    by (auto simp: pack_def walk_set)
  then show ?thesis using ex_creates [of _ "''a''" "''n''", OF refl] by auto
qed

end
