(* ===== verification/Doc_Values.thy ===== *)
theory Doc_Values
  imports Index_Mappings
begin

text \<open>
  The values of documents: conversions between the types of fields (\<open>pkg/zutils/strconv.go\<close>), times
  (\<open>pkg/zutils/time.go\<close>, \<open>time_zone.go\<close>, \<open>isDateProperty\<close>), and the flat form of a document
  (\<open>pkg/zutils/flatten\<close>). A number is its text, as in the theory of JSON; what \<open>strconv\<close> and \<open>time\<close>
  make of floating point numbers and of layouts is an argument. An instant is the number of
  nanoseconds since 1970.
\<close>

record value_env =
  ve_ParseFloat :: "string \<Rightarrow> string option"
  ve_FormatFloat :: "string \<Rightarrow> string"
  ve_isZero :: "string \<Rightarrow> bool"
  ve_Sprint :: "json \<Rightarrow> string"
  ve_int64 :: "string \<Rightarrow> int"
  ve_LoadLocation :: "string \<Rightarrow> bool"
  ve_ParseInLocation :: "string \<Rightarrow> string \<Rightarrow> string \<Rightarrow> int option"

section \<open>Conversions\<close>

definition FormatBool :: "bool \<Rightarrow> string" where
  "FormatBool b = (if b then ''true'' else ''false'')"

definition ParseBool :: "string \<Rightarrow> bool option" where
  "ParseBool s =
     (if s \<in> {''1'', ''t'', ''T'', ''TRUE'', ''true'', ''True''} then Some True
      else if s \<in> {''0'', ''f'', ''F'', ''FALSE'', ''false'', ''False''} then Some False
      else None)"

fun ToString :: "value_env \<Rightarrow> json \<Rightarrow> string" where
  "ToString env (JStr s) = s"
| "ToString env (JNum n) = ve_FormatFloat env n"
| "ToString env (JBool b) = FormatBool b"
| "ToString env JNull = ''<nil>''"
| "ToString env v = ve_Sprint env v"

fun ToFloat64 :: "value_env \<Rightarrow> json \<Rightarrow> string option" where
  "ToFloat64 env (JNum n) = Some n"
| "ToFloat64 env (JStr s) = ve_ParseFloat env s"
| "ToFloat64 env (JBool b) = Some (if b then ''1'' else ''0'')"
| "ToFloat64 env _ = None"

fun ToBool :: "value_env \<Rightarrow> json \<Rightarrow> bool option" where
  "ToBool env (JBool b) = Some b"
| "ToBool env (JStr s) = ParseBool s"
| "ToBool env (JNum n) = Some (\<not> ve_isZero env n)"
| "ToBool env _ = None"

section \<open>Times\<close>

definition wrap64 :: "int \<Rightarrow> int" where
  "wrap64 n = (n + 2 ^ 63) mod 2 ^ 64 - 2 ^ 63"

text \<open>\<open>Unix\<close>: the unit is guessed from the size.\<close>

definition Unix :: "int \<Rightarrow> int" where
  "Unix n =
     (if n = 0 then 0
      else if n > 10 ^ 18 then n
      else if n > 10 ^ 15 then n * 10 ^ 3
      else if n > 10 ^ 12 then n * 10 ^ 6
      else n * 10 ^ 9)"

text \<open>The zero value of \<open>time.Time\<close> is the first of January of the year 1.\<close>

definition zero_time :: int where
  "zero_time = - 62135596800 * 10 ^ 9"

definition parseNumericTime :: "int \<Rightarrow> int option" where
  "parseNumericTime n = (if Unix n = zero_time \<and> n \<noteq> 0 then None else Some (Unix n))"

definition ParseInt :: "string \<Rightarrow> int option" where
  "ParseInt s =
     (let (neg, ds) = (case s of c # r \<Rightarrow> if c = CHR ''-'' then (True, r) else if c = CHR ''+'' then (False, r) else (False, s) | [] \<Rightarrow> (False, s))
      in case ParseUint ds of
           None \<Rightarrow> None
         | Some n \<Rightarrow> if neg then (if n \<le> 2 ^ 63 then Some (- int n) else None) else if n < 2 ^ 63 then Some (int n) else None)"

text \<open>
  \<open>strings.ToUpper\<close> as far as its result can be one of the three names: besides the letters of ASCII
  there is the long s.
\<close>

definition upper_char :: "char \<Rightarrow> char" where
  "upper_char c = (let n = of_char c :: nat in if 97 \<le> n \<and> n \<le> 122 then char_of (n - 32) else c)"

fun ToUpper :: "string \<Rightarrow> string" where
  "ToUpper [] = []"
| "ToUpper (c # s) = (if HasPrefix (c # s) [CHR 0xC5, CHR 0xBF] then CHR ''S'' # ToUpper (drop 1 s) else upper_char c # ToUpper s)"

text \<open>\<open>parseTimeZone\<close>, whether it succeeds; the zone itself is known to \<open>ve_ParseInLocation\<close> by its name.\<close>

definition parseTimeZone :: "value_env \<Rightarrow> string \<Rightarrow> bool" where
  "parseTimeZone env zone \<longleftrightarrow> zone = [] \<or> ToUpper zone \<in> {''UTC'', [], ''LOCAL'', ''SYSTEM''} \<or> ve_LoadLocation env zone"

text \<open>
  The exported \<open>ParseTimeZone\<close>, which mapping requests and queries use, knows offsets like \<open>+08:00\<close>
  too. Only strings of two bytes reach \<open>StringToInt\<close> here, so \<open>Atoi\<close> never overflows.
\<close>

datatype zone = UTC | Local | FixedZone string int | Location string

definition StringToInt :: "string \<Rightarrow> int" where
  "StringToInt s = (case ParseInt (TrimSpace s) of None \<Rightarrow> 0 | Some n \<Rightarrow> n)"

definition zone_offset :: "string \<Rightarrow> int" where
  "zone_offset name =
     (let ln = length name;
          hours = (if 3 \<le> ln then 60 * 60 * StringToInt (take 2 (drop 1 name)) else 0);
          minutes = (if ln = 5 then 60 * StringToInt (take 2 (drop 3 name))
                     else if ln = 6 \<and> name ! 3 = CHR '':'' then 60 * StringToInt (take 2 (drop 4 name))
                     else 0)
      in if name ! 0 = CHR ''-'' then - (hours + minutes) else hours + minutes)"

definition ParseTimeZone :: "value_env \<Rightarrow> string \<Rightarrow> zone option" where
  "ParseTimeZone env name =
     (if name \<noteq> [] \<and> (name ! 0 = CHR ''+'' \<or> name ! 0 = CHR ''-'') then Some (FixedZone name (zone_offset name))
      else if ToUpper name = [] \<or> ToUpper name = ''UTC'' then Some UTC
      else if ToUpper name = ''LOCAL'' then Some Local
      else if ve_LoadLocation env name then Some (Location name)
      else None)"

definition RFC3339 :: string where
  "RFC3339 = ''2006-01-02T15:04:05Z07:00''"

definition parseStringTime :: "value_env \<Rightarrow> string \<Rightarrow> string \<Rightarrow> string \<Rightarrow> int option" where
  "parseStringTime env v format zone =
     (if v = [] then None
      else if format = ''epoch_millis'' then (case ParseInt v of None \<Rightarrow> None | Some n \<Rightarrow> parseNumericTime n)
      else if \<not> parseTimeZone env zone then None
      else ve_ParseInLocation env (if format = [] then RFC3339 else format) zone v)"

fun ParseTime :: "value_env \<Rightarrow> json \<Rightarrow> string \<Rightarrow> string \<Rightarrow> int option" where
  "ParseTime env (JNum n) format zone = parseNumericTime (ve_int64 env n)"
| "ParseTime env (JStr s) format zone = parseStringTime env s format zone"
| "ParseTime env _ format zone = None"

definition Index_of :: "char \<Rightarrow> string \<Rightarrow> nat option" where
  "Index_of c s = (if c \<in> set s then Some (length (takeWhile (\<lambda>x. x \<noteq> c) s)) else None)"

definition detectTimeLayout :: "string \<Rightarrow> string" where
  "detectTimeLayout v =
     (if length v = 19 \<and> Index_of (CHR '' '') v = Some 10 then ''2006-01-02 15:04:05''
      else if length v = 19 \<and> Index_of (CHR ''T'') v = Some 10 then ''2006-01-02T15:04:05''
      else if length v = 25 \<and> Index_of (CHR ''T'') v = Some 10 then RFC3339
      else if length v = 29 \<and> Index_of (CHR ''T'') v = Some 10 \<and> Index_of (CHR ''.'') v = Some 19 then ''2006-01-02T15:04:05.999Z07:00''
      else [])"

definition isDateProperty :: "value_env \<Rightarrow> string \<Rightarrow> string option" where
  "isDateProperty env v =
     (let layout = detectTimeLayout v in
      if layout = [] then None else if ve_ParseInLocation env layout [] v = None then None else Some layout)"

section \<open>Flat documents\<close>

text \<open>
  A flat document remembers where in the document a value comes from: an array that stays an array is
  shared between both.
\<close>

type_synonym place = "nat list"

fun nested :: "json \<Rightarrow> bool" where
  "nested (JObj _) = True"
| "nested (JArr _) = True"
| "nested _ = False"

definition enkey :: "bool \<Rightarrow> string \<Rightarrow> string \<Rightarrow> string" where
  "enkey outer pre subkey = (if outer then pre @ subkey else pre @ ''.'' @ subkey)"

function flat_value :: "string \<Rightarrow> place \<Rightarrow> json \<Rightarrow> (string \<times> place \<times> json) list"
  and flat_fields :: "bool \<Rightarrow> string \<Rightarrow> place \<Rightarrow> nat \<Rightarrow> object \<Rightarrow> (string \<times> place \<times> json) list"
  and flat_items :: "string \<Rightarrow> place \<Rightarrow> nat \<Rightarrow> json list \<Rightarrow> (string \<times> place \<times> json) list" where
  "flat_value key at (JObj kvs) = flat_fields False key at 0 kvs"
| "flat_value key at (JArr vs) = (if list_all nested vs then flat_items key at 0 vs else [(key, at, JArr vs)])"
| "flat_value key at JNull = [(key, at, JNull)]"
| "flat_value key at (JBool b) = [(key, at, JBool b)]"
| "flat_value key at (JNum n) = [(key, at, JNum n)]"
| "flat_value key at (JStr s) = [(key, at, JStr s)]"
| "flat_fields outer pre at i [] = []"
| "flat_fields outer pre at i ((k, v) # kvs) = flat_value (enkey outer pre k) (at @ [i]) v @ flat_fields outer pre at (i + 1) kvs"
| "flat_items pre at i [] = []"
| "flat_items pre at i (v # vs) = flat_value (enkey False pre (FormatUint i)) (at @ [i]) v @ flat_items pre at (i + 1) vs"
  by pat_completeness auto
termination
  by (relation "measure (\<lambda>x. case x of Inl (_, _, v) \<Rightarrow> 2 * size v
    | Inr (Inl (_, _, _, _, kvs)) \<Rightarrow> 2 * size_list (size_prod (\<lambda>_. 0) size) kvs + 1
    | Inr (Inr (_, _, _, vs)) \<Rightarrow> 2 * size_list size vs + 1)") auto

text \<open>\<open>Flatten\<close>: of two values with the same key the one visited later stays.\<close>

definition Flatten :: "object \<Rightarrow> (string \<times> place \<times> json) list" where
  "Flatten doc = foldl (\<lambda>m (k, pv). AList.update k pv m) [] (flat_fields True [] [] 0 doc)"

lemma foldl_update_distinct: "distinct (map fst m) \<Longrightarrow> distinct (map fst (foldl (\<lambda>m (k, pv). AList.update k pv m) m xs))"
  by (induction xs arbitrary: m) (auto simp: distinct_update)

lemma Flatten_distinct: "distinct (map fst (Flatten doc))"
  unfolding Flatten_def by (rule foldl_update_distinct) simp

text \<open>Writing a value to its place.\<close>

fun put_at :: "place \<Rightarrow> json \<Rightarrow> json \<Rightarrow> json" where
  "put_at [] new old = new"
| "put_at (i # at) new (JObj kvs) = (if i < length kvs then JObj (kvs[i := (fst (kvs ! i), put_at at new (snd (kvs ! i)))]) else JObj kvs)"
| "put_at (i # at) new (JArr vs) = (if i < length vs then JArr (vs[i := put_at at new (vs ! i)]) else JArr vs)"
| "put_at (i # at) new old = old"

text \<open>\<open>json.Marshal\<close> refuses numbers that are not finite.\<close>

fun Marshals :: "json \<Rightarrow> bool" where
  "Marshals (JNum n) \<longleftrightarrow> n \<notin> {''NaN'', ''+Inf'', ''-Inf''}"
| "Marshals (JArr vs) \<longleftrightarrow> list_all Marshals vs"
| "Marshals (JObj kvs) \<longleftrightarrow> list_all (\<lambda>kv. Marshals (snd kv)) kvs"
| "Marshals _ \<longleftrightarrow> True"

end
