(* ===== verification/Documents.thy ===== *)
theory Documents
  imports Doc_Values
begin

text \<open>
  How a document enters an index (\<open>pkg/core/index_shards_document.go\<close>): \<open>CheckDocument\<close> flattens it,
  extends the mappings, converts the values and makes the entry of the log; later
  \<open>BuildBlugeDocumentFromJSON\<close> makes the document of the index library from the entry, with type
  assertions that panic on a value of another type. Where Go iterates over a map, the order is an
  argument.
\<close>

section \<open>Checking a document\<close>

definition ptype :: "Property \<Rightarrow> string" where
  "ptype p = po_Type (pr_opts p)"

definition text_property :: "bool \<Rightarrow> string \<Rightarrow> Properties \<Rightarrow> Properties" where
  "text_property keyword key m =
     (if keyword then
        AList.update key (AddField ''keyword'' (NewProperty ''keyword'') (NewProperty ''text'')) (AList.update (key @ ''.keyword'') (NewProperty ''keyword'') m)
      else AList.update key (NewProperty ''text'') m)"

definition date_property :: "string \<Rightarrow> Property" where
  "date_property layout = Property ((pr_opts (NewProperty ''date''))\<lparr>po_Format := layout\<rparr>) (Some [])"

text \<open>The property a value that is not an array suggests.\<close>

fun guess_property :: "value_env \<Rightarrow> bool \<Rightarrow> string \<Rightarrow> json \<Rightarrow> Properties \<Rightarrow> Properties" where
  "guess_property env keyword key (JStr s) m =
     (case isDateProperty env s of Some layout \<Rightarrow> AList.update key (date_property layout) m | None \<Rightarrow> text_property keyword key m)"
| "guess_property env keyword key (JNum n) m = AList.update key (NewProperty ''numeric'') m"
| "guess_property env keyword key (JBool b) m = AList.update key (NewProperty ''bool'') m"
| "guess_property env keyword key _ m = m"

definition checkProperty :: "value_env \<Rightarrow> bool \<Rightarrow> string \<Rightarrow> json \<Rightarrow> Properties \<Rightarrow> bool \<times> Properties" where
  "checkProperty env keyword key v m =
     (if (case map_of m key of
            None \<Rightarrow> False
          | Some p \<Rightarrow> if keyword \<and> ptype p = ''text'' then map_of m (key @ ''.keyword'') \<noteq> None else True)
      then (False, m)
      else (True, case v of JArr (x # _) \<Rightarrow> guess_property env keyword key x m | _ \<Rightarrow> guess_property env keyword key v m))"

text \<open>The value converted to the type of the field; a type that is not known gives nil.\<close>

definition checkField :: "value_env \<Rightarrow> Property \<Rightarrow> json \<Rightarrow> json option" where
  "checkField env p v =
     (if ptype p = ''text'' \<or> ptype p = ''keyword'' then Some (JStr (ToString env v))
      else if ptype p = ''numeric'' then map_option JNum (ToFloat64 env v)
      else if ptype p = ''bool'' then map_option JBool (ToBool env v)
      else if ptype p = ''date'' \<or> ptype p = ''time'' then
        (if ParseTime env v (po_Format (pr_opts p)) (po_TimeZone (pr_opts p)) = None then None else Some v)
      else Some JNull)"

fun check_items :: "value_env \<Rightarrow> Property \<Rightarrow> json list \<Rightarrow> json list option" where
  "check_items env p [] = Some []"
| "check_items env p (v # vs) =
     (case checkField env p v of
        None \<Rightarrow> None
      | Some w \<Rightarrow> (case check_items env p vs of None \<Rightarrow> None | Some ws \<Rightarrow> Some (w # ws)))"

definition check_value :: "value_env \<Rightarrow> Property \<Rightarrow> json \<Rightarrow> json option" where
  "check_value env p v = (case v of JArr vs \<Rightarrow> map_option JArr (check_items env p vs) | _ \<Rightarrow> checkField env p v)"

text \<open>
  The loop over the flat document, in the order of \<open>keys\<close>. The mappings are those of the index: they
  are changed also when the document is refused.
\<close>

type_synonym flat = "(string \<times> place \<times> json) list"

fun check_keys :: "value_env \<Rightarrow> bool \<Rightarrow> string list \<Rightarrow> bool \<Rightarrow> flat \<Rightarrow> Properties \<Rightarrow> (bool \<times> flat) option \<times> Properties" where
  "check_keys env keyword [] dirty flat m = (Some (dirty, flat), m)"
| "check_keys env keyword (key # keys) dirty flat m =
     (case map_of flat key of
        None \<Rightarrow> check_keys env keyword keys dirty flat m
      | Some (at, v) \<Rightarrow>
          if v = JNull then check_keys env keyword keys dirty flat m
          else (case checkProperty env keyword key v m of
                  (new, m1) \<Rightarrow>
                    (case map_of m1 key of
                       None \<Rightarrow> check_keys env keyword keys (dirty \<or> new) flat m1
                     | Some p \<Rightarrow>
                         if \<not> po_Index (pr_opts p) then check_keys env keyword keys (dirty \<or> new) flat m1
                         else (case check_value env p v of
                                 None \<Rightarrow> (None, m1)
                               | Some w \<Rightarrow> check_keys env keyword keys (dirty \<or> new) (AList.update key (at, w) flat) m1))))"

definition TimeFieldName :: string where "TimeFieldName = ''@timestamp''"
definition IDFieldName :: string where "IDFieldName = ''@_id''"
definition ActionFieldName :: string where "ActionFieldName = ''@_action''"
definition ShardFieldName :: string where "ShardFieldName = ''@_shard''"
definition SourceFieldName :: string where "SourceFieldName = ''@_source''"

lemmas field_name_defs = TimeFieldName_def IDFieldName_def ActionFieldName_def ShardFieldName_def SourceFieldName_def

definition FormatInt :: "int \<Rightarrow> string" where
  "FormatInt n = (if n < 0 then ''-'' @ FormatUint (nat (- n)) else FormatUint (nat n))"

text \<open>The arrays of the flat document are those of the document itself.\<close>

definition shared_arrays :: "flat \<Rightarrow> object \<Rightarrow> object" where
  "shared_arrays flat doc =
     (case foldl (\<lambda>j (key, at, v). case v of JArr vs \<Rightarrow> put_at at v j | _ \<Rightarrow> j) (JObj doc) flat of JObj kvs \<Rightarrow> kvs | _ \<Rightarrow> doc)"

datatype check_error = EInvalid | EStore | EMarshal

text \<open>\<open>stored\<close> says whether storing the index with its new mappings succeeds.\<close>

definition CheckDocument ::
  "value_env \<Rightarrow> bool \<Rightarrow> (flat \<Rightarrow> string list) \<Rightarrow> bool \<Rightarrow> int \<Rightarrow> string \<Rightarrow> object \<Rightarrow> bool \<Rightarrow> int \<Rightarrow> Properties \<Rightarrow> (check_error + object) \<times> Properties" where
  "CheckDocument env keyword order stored now docID doc update shard m =
     (let flat = Flatten doc in
      case check_keys env keyword (order flat) False flat m of
        (None, m1) \<Rightarrow> (Inl EInvalid, m1)
      | (Some (dirty, flat1), m1) \<Rightarrow>
          (let m2 = (if dirty then SetMappings (Some m1) m1 else m1) in
           if dirty \<and> \<not> stored then (Inl EStore, m2)
           else
             (let source = shared_arrays flat1 doc;
                  p = (case map_of m2 TimeFieldName of None \<Rightarrow> zero_property | Some p \<Rightarrow> p);
                  time = (case map_of flat1 TimeFieldName of
                            None \<Rightarrow> Some now
                          | Some (_, v) \<Rightarrow> ParseTime env v (po_Format (pr_opts p)) (po_TimeZone (pr_opts p)))
              in case time of
                   None \<Rightarrow> (Inl EInvalid, m2)
                 | Some t \<Rightarrow>
                     (let source1 = (if map_of flat1 TimeFieldName \<noteq> None then AList.delete TimeFieldName source else source);
                          entry = AList.update SourceFieldName (JObj source1) (AList.update TimeFieldName (JNum (FormatInt (wrap64 t)))
                                    (AList.update ShardFieldName (JNum (FormatInt shard)) (AList.update IDFieldName (JStr docID)
                                      (AList.update ActionFieldName (JStr (if update then ''update'' else ''insert'')) (map (\<lambda>(k, _, v). (k, v)) flat1)))))
                      in if Marshals (JObj entry) then (Inr entry, m2) else (Inl EMarshal, m2)))))"

section \<open>Building the document of the index\<close>

datatype kind = KText | KNumeric | KKeyword | KDate | KNil

record built_field =
  bf_name :: string
  bf_kind :: kind
  bf_value :: json
  bf_store :: bool
  bf_highlight :: bool
  bf_sortable :: bool
  bf_aggregatable :: bool

text \<open>The field for one value, \<open>None\<close> for an empty string; the flag says that the sub-fields are built too.\<close>

definition own_field :: "value_env \<Rightarrow> Property \<Rightarrow> json \<Rightarrow> (kind \<times> json) option outcome" where
  "own_field env p v =
     (if ptype p = ''text'' then (case v of JStr s \<Rightarrow> Gives (if s = [] then None else Some (KText, v)) | _ \<Rightarrow> Panics)
      else if ptype p = ''numeric'' then (case v of JNum n \<Rightarrow> Gives (Some (KNumeric, v)) | _ \<Rightarrow> Panics)
      else if ptype p = ''keyword'' then (case v of JStr s \<Rightarrow> Gives (if s = [] then None else Some (KKeyword, v)) | _ \<Rightarrow> Panics)
      else if ptype p = ''bool'' then (case v of JBool b \<Rightarrow> Gives (Some (KKeyword, JStr (FormatBool b))) | _ \<Rightarrow> Panics)
      else if ptype p = ''date'' \<or> ptype p = ''time'' then
        (case ParseTime env v (po_Format (pr_opts p)) (po_TimeZone (pr_opts p)) of None \<Rightarrow> Fails | Some t \<Rightarrow> Gives (Some (KDate, JNum (FormatInt t))))
      else if po_Store (pr_opts p) \<or> po_Highlightable (pr_opts p) \<or> po_Sortable (pr_opts p) \<or> po_Aggregatable (pr_opts p) then Panics
      else Gives (Some (KNil, JNull)))"

definition make_field :: "string \<Rightarrow> Property \<Rightarrow> kind \<Rightarrow> json \<Rightarrow> built_field" where
  "make_field key p k v =
     \<lparr>bf_name = key, bf_kind = k, bf_value = v, bf_store = (po_Store (pr_opts p) \<or> po_Highlightable (pr_opts p)), bf_highlight = po_Highlightable (pr_opts p),
      bf_sortable = po_Sortable (pr_opts p), bf_aggregatable = po_Aggregatable (pr_opts p)\<rparr>"

definition sub_names :: "Property \<Rightarrow> string list" where
  "sub_names p = (case pr_Fields p of None \<Rightarrow> [] | Some fs \<Rightarrow> map fst fs)"

definition longest :: "Properties \<Rightarrow> nat" where
  "longest m = foldr (\<lambda>(k, _). max (length k)) m 0"

lemma longest_bound: "map_of m k = Some p \<Longrightarrow> length k \<le> longest m"
  by (induction m) (auto simp: longest_def split: if_splits)

text \<open>
  \<open>buildField\<close>. The property of a sub-field is looked up by its full name, so its own sub-fields are
  built as well; the names grow, and only those in the mappings have sub-fields, so no name that is
  longer than all of these is reached.
\<close>

function buildField :: "value_env \<Rightarrow> Properties \<Rightarrow> string \<Rightarrow> json \<Rightarrow> built_field list outcome"
  and build_subs :: "value_env \<Rightarrow> Properties \<Rightarrow> string \<Rightarrow> string list \<Rightarrow> json \<Rightarrow> built_field list outcome" where
  "buildField env m key v =
     (let p = (case map_of m key of None \<Rightarrow> zero_property | Some p \<Rightarrow> p) in
      case own_field env p v of
        Panics \<Rightarrow> Panics
      | Fails \<Rightarrow> Fails
      | Gives None \<Rightarrow> Gives []
      | Gives (Some (k, w)) \<Rightarrow>
          if map_of m key = None then Gives [make_field key p k w]
          else (case build_subs env m key (sub_names p) v of
                  Panics \<Rightarrow> Panics
                | Fails \<Rightarrow> Fails
                | Gives fs \<Rightarrow> Gives (make_field key p k w # fs)))"
| "build_subs env m key [] v = Gives []"
| "build_subs env m key (s # ss) v =
     (if longest m < length key then Gives []
      else case buildField env m (key @ ''.'' @ s) v of
        Panics \<Rightarrow> Panics
      | Fails \<Rightarrow> Fails
      | Gives fs \<Rightarrow>
          (case build_subs env m key ss v of
             Panics \<Rightarrow> Panics
           | Fails \<Rightarrow> Fails
           | Gives gs \<Rightarrow> Gives (fs @ gs)))"
  by pat_completeness auto
termination
proof (relation "inv_image (less_than <*lex*> less_than <*lex*> less_than)
    (\<lambda>x. case x of Inl (_, m, key, _) \<Rightarrow> (Suc (longest m) - length key, 1 :: nat, 0) | Inr (_, m, key, ss, _) \<Rightarrow> (Suc (longest m) - length key, 0, length ss))", goal_cases)
  case 1
  show ?case by auto
qed (auto dest: longest_bound)

declare buildField.simps [simp del]

fun build_items :: "value_env \<Rightarrow> Properties \<Rightarrow> string \<Rightarrow> json list \<Rightarrow> built_field list outcome" where
  "build_items env m key [] = Gives []"
| "build_items env m key (v # vs) =
     (case buildField env m key v of
        Panics \<Rightarrow> Panics
      | Fails \<Rightarrow> Fails
      | Gives fs \<Rightarrow> (case build_items env m key vs of Panics \<Rightarrow> Panics | Fails \<Rightarrow> Fails | Gives gs \<Rightarrow> Gives (fs @ gs)))"

definition build_value :: "value_env \<Rightarrow> Properties \<Rightarrow> string \<Rightarrow> json \<Rightarrow> built_field list outcome" where
  "build_value env m key v = (case v of JArr vs \<Rightarrow> build_items env m key vs | _ \<Rightarrow> buildField env m key v)"

fun build_keys :: "value_env \<Rightarrow> Properties \<Rightarrow> object \<Rightarrow> built_field list outcome" where
  "build_keys env m [] = Gives []"
| "build_keys env m ((key, v) # kvs) =
     (if v = JNull \<or> key = TimeFieldName \<or> key = SourceFieldName \<or> (case map_of m key of None \<Rightarrow> True | Some p \<Rightarrow> \<not> po_Index (pr_opts p))
      then build_keys env m kvs
      else case build_value env m key v of
        Panics \<Rightarrow> Panics
      | Fails \<Rightarrow> Fails
      | Gives fs \<Rightarrow> (case build_keys env m kvs of Panics \<Rightarrow> Panics | Fails \<Rightarrow> Fails | Gives gs \<Rightarrow> Gives (fs @ gs)))"

record built_doc =
  bd_fields :: "built_field list"
  bd_time :: int
  bd_source :: json

text \<open>The entry is the list of its members in the order in which Go visits them.\<close>

definition BuildBlugeDocumentFromJSON :: "value_env \<Rightarrow> int \<Rightarrow> object \<Rightarrow> Properties \<Rightarrow> built_doc outcome" where
  "BuildBlugeDocumentFromJSON env now entry m =
     (let doc = filter (\<lambda>(k, _). k \<notin> {ActionFieldName, IDFieldName, ShardFieldName}) entry in
      case build_keys env m doc of
        Panics \<Rightarrow> Panics
      | Fails \<Rightarrow> Fails
      | Gives fs \<Rightarrow>
          (case (case map_of doc TimeFieldName of None \<Rightarrow> Some now | Some (JNum n) \<Rightarrow> Some (ve_int64 env n) | Some _ \<Rightarrow> None) of
             None \<Rightarrow> Panics
           | Some t \<Rightarrow>
               Gives \<lparr>bd_fields = fs, bd_time = t,
                      bd_source = (case map_of doc SourceFieldName of
                                     Some v \<Rightarrow> if v \<noteq> JNull then v else JObj (filter (\<lambda>(k, _). k \<notin> {TimeFieldName, SourceFieldName}) doc)
                                   | None \<Rightarrow> JObj (filter (\<lambda>(k, _). k \<noteq> TimeFieldName) doc))\<rparr>))"

section \<open>Values that fit their fields\<close>

definition known :: "Property \<Rightarrow> bool" where
  "known p \<longleftrightarrow> ptype p \<in> {''text'', ''keyword'', ''numeric'', ''bool'', ''date'', ''time''}"

definition stringy :: "Property \<Rightarrow> bool" where
  "stringy p \<longleftrightarrow> ptype p = ''text'' \<or> ptype p = ''keyword''"

definition fits :: "value_env \<Rightarrow> Property \<Rightarrow> json \<Rightarrow> bool" where
  "fits env p v \<longleftrightarrow>
     (if stringy p then (case v of JStr _ \<Rightarrow> True | _ \<Rightarrow> False)
      else if ptype p = ''numeric'' then (case v of JNum _ \<Rightarrow> True | _ \<Rightarrow> False)
      else if ptype p = ''bool'' then (case v of JBool _ \<Rightarrow> True | _ \<Rightarrow> False)
      else ParseTime env v (po_Format (pr_opts p)) (po_TimeZone (pr_opts p)) \<noteq> None)"

definition value_fits :: "value_env \<Rightarrow> Property \<Rightarrow> json \<Rightarrow> bool" where
  "value_fits env p v = (case v of JArr vs \<Rightarrow> list_all (fits env p) vs | _ \<Rightarrow> fits env p v)"

text \<open>Mappings in which sub-fields, and the fields they belong to, are made of strings.\<close>

definition mapping_ok :: "Properties \<Rightarrow> bool" where
  "mapping_ok m \<longleftrightarrow> distinct (map fst m) \<and>
     list_all (\<lambda>(k, p). known p \<and>
       list_all (\<lambda>s. stringy p \<and> (case map_of m (k @ ''.'' @ s) of None \<Rightarrow> False | Some q \<Rightarrow> stringy q)) (sub_names p)) m \<and>
     (case map_of m ''_id'' of None \<Rightarrow> False | Some p \<Rightarrow> ptype p = ''keyword'' \<and> po_Index (pr_opts p) \<and> sub_names p = [])"

lemma mapping_okD:
  assumes "mapping_ok m" and "map_of m k = Some p"
  shows "known p" and "s \<in> set (sub_names p) \<Longrightarrow> stringy p \<and> (\<exists>q. map_of m (k @ ''.'' @ s) = Some q \<and> stringy q)"
proof -
  have "(k, p) \<in> set m" using assms(2) by (rule map_of_SomeD)
  then have "known p \<and> list_all (\<lambda>s. stringy p \<and> (case map_of m (k @ ''.'' @ s) of None \<Rightarrow> False | Some q \<Rightarrow> stringy q)) (sub_names p)"
    using assms(1) unfolding mapping_ok_def list_all_iff by fast
  then show "known p" and "s \<in> set (sub_names p) \<Longrightarrow> stringy p \<and> (\<exists>q. map_of m (k @ ''.'' @ s) = Some q \<and> stringy q)"
    by (auto simp: list_all_iff split: option.splits)
qed

lemma checkField_fits: "checkField env p v = Some w \<Longrightarrow> known p \<Longrightarrow> fits env p w"
  by (auto simp: checkField_def fits_def stringy_def known_def split: if_splits)

lemma check_items_fit: "check_items env p vs = Some ws \<Longrightarrow> known p \<Longrightarrow> list_all (fits env p) ws"
  by (induction vs arbitrary: ws) (auto dest: checkField_fits split: option.splits)

lemma fits_value: "fits env p v \<Longrightarrow> value_fits env p v"
  by (cases v) (auto simp: value_fits_def fits_def split: if_splits)

lemma check_value_fits: "check_value env p v = Some w \<Longrightarrow> known p \<Longrightarrow> value_fits env p w"
proof (cases v)
  case (JArr vs)
  then show "check_value env p v = Some w \<Longrightarrow> known p \<Longrightarrow> value_fits env p w" by (auto simp: check_value_def value_fits_def dest: check_items_fit)
qed (simp_all add: check_value_def checkField_fits fits_value)

lemma own_field_fits: "fits env p v \<Longrightarrow> known p \<Longrightarrow> own_field env p v = Gives None \<or> (\<exists>k w. own_field env p v = Gives (Some (k, w)) \<and> k \<noteq> KNil)"
  by (auto simp: fits_def own_field_def stringy_def known_def split: json.splits if_splits)

lemma fits_string: "fits env p v \<Longrightarrow> stringy p \<Longrightarrow> stringy q \<Longrightarrow> fits env q v"
  by (auto simp: fits_def)

lemma buildField_fits:
  "mapping_ok m \<Longrightarrow> map_of m key = Some p \<Longrightarrow> fits env p v \<Longrightarrow> \<exists>fs. buildField env m key v = Gives fs \<and> KNil \<notin> bf_kind ` set fs"
  "mapping_ok m \<Longrightarrow> \<forall>s \<in> set ss. \<exists>q. map_of m (key @ ''.'' @ s) = Some q \<and> fits env q v \<Longrightarrow>
    \<exists>fs. build_subs env m key ss v = Gives fs \<and> KNil \<notin> bf_kind ` set fs"
proof (induction env m key v and env m key ss v arbitrary: p and rule: buildField_build_subs.induct)
  case (1 env m key v)
  note known = mapping_okD(1) [OF 1(2,3)]
  consider "own_field env p v = Gives None" | k w where "own_field env p v = Gives (Some (k, w))" "k \<noteq> KNil"
    using own_field_fits [OF 1(4) known] by blast
  then show ?case
  proof cases
    case 1
    then show ?thesis using \<open>map_of m key = Some p\<close> by (simp add: buildField.simps)
  next
    case 2
    have subs: "\<forall>s \<in> set (sub_names p). \<exists>q. map_of m (key @ ''.'' @ s) = Some q \<and> fits env q v"
      using mapping_okD(2) [OF 1(2,3)] fits_string [OF 1(4)] by blast
    have "\<exists>fs. build_subs env m key (sub_names p) v = Gives fs \<and> KNil \<notin> bf_kind ` set fs"
      using 1(1) [OF _ 2(1) refl refl _ 1(2)] subs \<open>map_of m key = Some p\<close> by simp
    then show ?thesis using 2 \<open>map_of m key = Some p\<close> by (auto simp: buildField.simps make_field_def)
  qed
next
  case (3 env m key s ss v)
  show ?case
  proof (cases "longest m < length key")
    case False
    obtain q where q: "map_of m (key @ ''.'' @ s) = Some q" "fits env q v" using 3(4) by auto
    obtain fs where fs: "buildField env m (key @ ''.'' @ s) v = Gives fs" "KNil \<notin> bf_kind ` set fs" using 3(1) [OF False 3(3) q] by blast
    obtain gs where "build_subs env m key ss v = Gives gs" "KNil \<notin> bf_kind ` set gs" using 3(2) [OF False fs(1) 3(3)] 3(4) by auto
    then show ?thesis using fs False by auto
  qed simp
qed simp

end
