(* ===== verification/Doc_Types.thy ===== *)
theory Doc_Types
  imports Documents
begin

text \<open>
  Type soundness of the way of a document: what \<open>CheckDocument\<close> accepts never makes the later
  \<open>BuildBlugeDocumentFromJSON\<close> panic or fail, whatever the document and the orders of the maps, as long
  as sub-fields are made of strings; and the documents for which this is not so.
\<close>

section \<open>The mappings while a document is checked\<close>

lemma sub_names_new [simp]: "sub_names (NewProperty t) = []" "sub_names (date_property l) = []" "ptype (NewProperty t) = t" "ptype (date_property l) = ''date''"
    "po_Index (pr_opts (NewProperty t))"
  by (simp_all add: sub_names_def NewProperty_def date_property_def ptype_def)

lemma guess_property_new: "guess_property env False key v m = m \<or> (\<exists>q. guess_property env False key v m = AList.update key q m \<and> known q \<and> sub_names q = [])"
proof (cases v)
  case (JStr s)
  then show ?thesis by (cases "isDateProperty env s") (auto simp: text_property_def known_def)
qed (auto simp: known_def)

lemma checkProperty_new:
  "checkProperty env False key v m = (new, m1) \<Longrightarrow>
    m1 = m \<or> map_of m key = None \<and> (\<exists>q. m1 = AList.update key q m \<and> known q \<and> sub_names q = [])"
proof -
  assume "checkProperty env False key v m = (new, m1)"
  then have "m1 = m \<or> map_of m key = None \<and> (\<exists>x. m1 = guess_property env False key x m)"
    by (auto simp: checkProperty_def simp del: guess_property.simps split: option.splits if_splits json.splits list.splits)
  then show ?thesis using guess_property_new [of env key _ m] by blast
qed

lemma checkProperty_clean: "checkProperty env False key v m = (False, m1) \<Longrightarrow> m1 = m"
  by (auto simp: checkProperty_def split: if_splits)

lemma mapping_ok_update:
  assumes "mapping_ok m" and "map_of m key = None" and "known q" and "sub_names q = []"
  shows "mapping_ok (AList.update key q m)"
proof -
  have new: "key \<notin> fst ` set m" using assms(2) by (simp add: map_of_eq_None_iff)
  have up: "AList.update key q m = m @ [(key, q)]" using new by (induction m) auto
  have "map_of (AList.update key q m) k = Some p" if "map_of m k = Some p" for k p using that assms(2) by (auto simp: update_conv')
  then have keep: "stringy p \<and> (case map_of m (k @ ''.'' @ s) of None \<Rightarrow> False | Some q \<Rightarrow> stringy q) \<Longrightarrow>
      stringy p \<and> (case map_of (AList.update key q m) (k @ ''.'' @ s) of None \<Rightarrow> False | Some q \<Rightarrow> stringy q)" for p k s
    by (cases "map_of m (k @ ''.'' @ s)") auto
  have "\<forall>(k, p) \<in> set m. known p \<and> list_all (\<lambda>s. stringy p \<and> (case map_of (AList.update key q m) (k @ ''.'' @ s) of None \<Rightarrow> False | Some q \<Rightarrow> stringy q)) (sub_names p)"
    using assms(1) keep unfolding mapping_ok_def list_all_iff by fast
  moreover have "distinct (map fst (AList.update key q m))" using assms(1) by (simp add: mapping_ok_def distinct_update)
  moreover have "case map_of (AList.update key q m) ''_id'' of None \<Rightarrow> False | Some p \<Rightarrow> ptype p = ''keyword'' \<and> po_Index (pr_opts p) \<and> sub_names p = []"
    using assms(1,2) by (auto simp: mapping_ok_def update_conv' split: option.splits)
  ultimately show ?thesis unfolding mapping_ok_def up using assms(3,4) by (auto simp: list_all_iff)
qed

text \<open>What is true of the keys that were checked.\<close>

definition checked :: "value_env \<Rightarrow> Properties \<Rightarrow> flat \<Rightarrow> string \<Rightarrow> bool" where
  "checked env m flat key \<longleftrightarrow>
     (\<forall>at v p. map_of flat key = Some (at, v) \<longrightarrow> v \<noteq> JNull \<longrightarrow> map_of m key = Some p \<longrightarrow> po_Index (pr_opts p) \<longrightarrow> value_fits env p v)"

lemma check_keys_sound:
  assumes "check_keys env False keys dirty flat m = (Some (d, flat'), m')" and "mapping_ok m" and "distinct keys"
  shows "mapping_ok m' \<and> (\<forall>k. k \<notin> set keys \<longrightarrow> map_of m' k = map_of m k \<and> map_of flat' k = map_of flat k) \<and>
    (\<forall>k p. map_of m k = Some p \<longrightarrow> map_of m' k = Some p) \<and> (\<forall>k \<in> set keys. checked env m' flat' k) \<and> (\<not> d \<longrightarrow> m' = m \<and> \<not> dirty) \<and>
    dom (map_of flat') = dom (map_of flat)"
  using assms
proof (induction env "False" keys dirty flat m arbitrary: d flat' m' rule: check_keys.induct)
  case (1 env dirty flat m)
  then show ?case by simp
next
  case (2 env key keys dirty flat m)
  have dist: "key \<notin> set keys" "distinct keys" using 2(8) by simp_all
  show ?case
  proof (cases "\<exists>at v. map_of flat key = Some (at, v) \<and> v \<noteq> JNull")
    case False
    then have rec: "check_keys env False keys dirty flat m = (Some (d, flat'), m')" using 2(6) by (auto split: option.splits if_splits)
    have "map_of flat key = None \<or> (\<exists>at. map_of flat key = Some (at, JNull))" using False by (cases "map_of flat key") auto
    then show ?thesis using 2(1,2) rec 2(7) dist by (elim disjE exE) (auto simp: checked_def)
  next
    case True
    then obtain at v where v: "map_of flat key = Some (at, v)" "v \<noteq> JNull" by blast
    obtain new m1 where cp: "checkProperty env False key v m = (new, m1)" by (cases "checkProperty env False key v m")
    have m1: "m1 = m \<or> map_of m key = None \<and> (\<exists>q. m1 = AList.update key q m \<and> known q \<and> sub_names q = [])" by (rule checkProperty_new [OF cp])
    have ok1: "mapping_ok m1" using m1 mapping_ok_update [OF 2(7)] 2(7) by auto
    have keep1: "\<forall>k. k \<noteq> key \<longrightarrow> map_of m1 k = map_of m k" "\<forall>k p. map_of m k = Some p \<longrightarrow> map_of m1 k = Some p" using m1 by (auto simp: update_conv')
    have clean1: "\<not> new \<longrightarrow> m1 = m" using cp checkProperty_clean by (cases new) auto
    show ?thesis
    proof (cases "map_of m1 key")
      case None
      then have rec: "check_keys env False keys (dirty \<or> new) flat m1 = (Some (d, flat'), m')" using 2(6) v cp by simp
      from 2(3) [OF v(1) refl v(2) cp [symmetric] None rec ok1 dist(2)] show ?thesis using keep1 clean1 None dist by (auto simp: checked_def)
    next
      case (Some p)
      show ?thesis
      proof (cases "po_Index (pr_opts p)")
        case False
        then have rec: "check_keys env False keys (dirty \<or> new) flat m1 = (Some (d, flat'), m')" using 2(6) v cp Some by simp
        from 2(4) [OF v(1) refl v(2) cp [symmetric] Some _ rec ok1 dist(2)] show ?thesis using False keep1 clean1 Some dist by (auto simp: checked_def)
      next
        case True
        obtain w where w: "check_value env p v = Some w" using 2(6) v cp Some True by (cases "check_value env p v") auto
        let ?flat = "AList.update key (at, w) flat"
        have rec: "check_keys env False keys (dirty \<or> new) ?flat m1 = (Some (d, flat'), m')" using 2(6) v cp Some True w by simp
        note IH = 2(5) [OF v(1) refl v(2) cp [symmetric] Some _ w rec ok1 dist(2)]
        have fit: "value_fits env p w" using w mapping_okD(1) [OF ok1 Some] by (rule check_value_fits)
        have dom: "dom (map_of ?flat) = dom (map_of flat)" using v(1) by (auto simp: update_conv')
        show ?thesis using IH True keep1 clean1 Some dist fit dom by (auto simp: checked_def update_conv')
      qed
    qed
  qed
qed

section \<open>Storing the new mappings\<close>

lemma map_of_update_all: "map_of (foldl (\<lambda>m (f, p). AList.update f p m) cur xs) = map_of cur ++ map_of (rev xs)"
  by (induction xs arbitrary: cur) (auto simp: update_conv' map_add_def fun_eq_iff split: option.splits)

lemma map_of_rev: "distinct (map fst xs) \<Longrightarrow> map_of (rev xs) = map_of xs"
  by (intro map_of_inject_set [THEN iffD2]) (simp_all add: rev_map [symmetric])

lemma SetMappings_own:
  assumes "distinct (map fst m)"
  shows "map_of (SetMappings (Some m) m) k =
    (if k = ''@timestamp'' then Some (time_property (map_option no_analyzers (map_of m k)))
     else if k = ''_id'' then Some (NewProperty ''keyword'') else map_option no_analyzers (map_of m k))"
proof -
  let ?r1 = "map (\<lambda>(f, p). (f, no_analyzers p)) m"
  let ?r2 = "AList.update ''_id'' (NewProperty ''keyword'') ?r1"
  let ?r3 = "AList.update ''@timestamp'' (time_property (map_of ?r2 ''@timestamp'')) ?r2"
  have r1: "map_of ?r1 k = map_option no_analyzers (map_of m k)" for k by (simp add: map_of_map)
  have "distinct (map fst ?r1)" using assms by (simp add: case_prod_unfold comp_def)
  then have "distinct (map fst ?r3)" by (simp add: distinct_update)
  then have "map_of (SetMappings (Some m) m) k = (case map_of ?r3 k of None \<Rightarrow> map_of m k | Some p \<Rightarrow> Some p)"
    by (simp add: SetMappings_def Let_def map_of_update_all map_of_rev map_add_def)
  then show ?thesis using r1 by (cases "map_of m k") (auto simp: update_conv')
qed

lemma same_kind [simp]:
  "ptype (no_analyzers p) = ptype p" "sub_names (no_analyzers p) = sub_names p" "po_Index (pr_opts (no_analyzers p)) = po_Index (pr_opts p)"
  "po_Format (pr_opts (no_analyzers p)) = po_Format (pr_opts p)" "po_TimeZone (pr_opts (no_analyzers p)) = po_TimeZone (pr_opts p)"
  "ptype (time_property q) = (case q of None \<Rightarrow> ''date'' | Some p \<Rightarrow> ptype p)" "sub_names (time_property q) = (case q of None \<Rightarrow> [] | Some p \<Rightarrow> sub_names p)"
  by (auto simp: no_analyzers_def time_property_def ptype_def sub_names_def NewProperty_def split: option.splits)

lemma known_ptype: "ptype p = ptype q \<Longrightarrow> known p = known q" "ptype p = ptype q \<Longrightarrow> stringy p = stringy q"
  by (simp_all add: known_def stringy_def)

lemma mapping_ok_iff:
  "mapping_ok m \<longleftrightarrow> distinct (map fst m) \<and>
     (\<forall>k p. map_of m k = Some p \<longrightarrow> known p \<and> (\<forall>s \<in> set (sub_names p). stringy p \<and> (\<exists>q. map_of m (k @ ''.'' @ s) = Some q \<and> stringy q))) \<and>
     (\<exists>p. map_of m ''_id'' = Some p \<and> ptype p = ''keyword'' \<and> po_Index (pr_opts p) \<and> sub_names p = [])" (is "?l \<longleftrightarrow> ?r")
proof
  assume l: ?l
  then have "distinct (map fst m)" "\<exists>p. map_of m ''_id'' = Some p \<and> ptype p = ''keyword'' \<and> po_Index (pr_opts p) \<and> sub_names p = []"
    unfolding mapping_ok_def by (simp, cases "map_of m ''_id''") simp_all
  then show ?r using mapping_okD [OF l] by blast
next
  assume r: ?r
  then have "known p \<and> list_all (\<lambda>s. stringy p \<and> (case map_of m (k @ ''.'' @ s) of None \<Rightarrow> False | Some q \<Rightarrow> stringy q)) (sub_names p)" if "(k, p) \<in> set m" for k p
  proof -
    have "map_of m k = Some p" using r that by simp
    then have "known p" "\<forall>s \<in> set (sub_names p). stringy p \<and> (\<exists>q. map_of m (k @ ''.'' @ s) = Some q \<and> stringy q)" using r by blast+
    then show ?thesis unfolding list_all_iff by force
  qed
  then show ?l using r unfolding mapping_ok_def by (auto simp: list_all_iff)
qed

lemma mapping_ok_SetMappings:
  assumes "mapping_ok m"
  shows "mapping_ok (SetMappings (Some m) m)"
proof -
  have m: "distinct (map fst m)" using assms by (simp add: mapping_ok_def)
  let ?m = "SetMappings (Some m) m"
  note own = SetMappings_own [OF m]
  have dot: "k @ ''.'' @ s \<noteq> ''@timestamp''" "k @ ''.'' @ s \<noteq> ''_id''" for k s
  proof -
    have "CHR ''.'' \<in> set (k @ ''.'' @ s)" "CHR ''.'' \<notin> set ''@timestamp''" "CHR ''.'' \<notin> set ''_id''" by simp_all
    then show "k @ ''.'' @ s \<noteq> ''@timestamp''" "k @ ''.'' @ s \<noteq> ''_id''" by metis+
  qed
  have sub: "map_of ?m (k @ ''.'' @ s) = map_option no_analyzers (map_of m (k @ ''.'' @ s))" for k s using dot by (simp add: own)
  have "known p \<and> (\<forall>s \<in> set (sub_names p). stringy p \<and> (\<exists>q. map_of ?m (k @ ''.'' @ s) = Some q \<and> stringy q))" if p: "map_of ?m k = Some p" for k p
  proof (cases "sub_names p = [] \<and> known p")
    case False
    have new: "known (NewProperty ''keyword'')" "known (time_property None)" by (simp_all add: known_def)
    obtain p0 where p0: "map_of m k = Some p0" "ptype p = ptype p0" "sub_names p = sub_names p0"
      using p False new by (cases "map_of m k") (auto simp: own split: if_splits)
    have "known p0" "\<forall>s \<in> set (sub_names p0). stringy p0 \<and> (\<exists>q. map_of m (k @ ''.'' @ s) = Some q \<and> stringy q)" using mapping_okD [OF assms p0(1)] by blast+
    then show ?thesis using p0 known_ptype [OF p0(2)] known_ptype(2) [of "no_analyzers _"] unfolding sub by fastforce
  qed simp
  moreover have "distinct (map fst ?m)"
  proof -
    have "distinct (map fst xs) \<Longrightarrow> distinct (map fst (foldl (\<lambda>m (f, p). AList.update f p m) xs ys))" for xs ys :: Properties
      by (induction ys arbitrary: xs) (auto simp: distinct_update)
    then show ?thesis using m by (simp add: SetMappings_def Let_def)
  qed
  ultimately show ?thesis unfolding mapping_ok_iff by (simp add: own)
qed

section \<open>Soundness\<close>

lemma build_value_fits:
  assumes "mapping_ok m" and "map_of m key = Some p" and "value_fits env p v"
  shows "\<exists>fs. build_value env m key v = Gives fs \<and> KNil \<notin> bf_kind ` set fs"
proof -
  have items: "list_all (fits env p) vs \<Longrightarrow> \<exists>fs. build_items env m key vs = Gives fs \<and> KNil \<notin> bf_kind ` set fs" for vs
  proof (induction vs)
    case (Cons v vs)
    then obtain gs where "build_items env m key vs = Gives gs" "KNil \<notin> bf_kind ` set gs" by auto
    then show ?case using buildField_fits(1) [OF assms(1,2), of env v] Cons.prems by auto
  qed simp
  show ?thesis
  proof (cases v)
    case (JArr vs)
    then show ?thesis using items assms(3) by (simp add: value_fits_def build_value_def)
  qed (use buildField_fits(1) [OF assms(1,2), of env v] assms(3) in \<open>simp_all add: value_fits_def build_value_def\<close>)
qed

lemma build_keys_fits:
  assumes "mapping_ok m"
    and "\<forall>(k, v) \<in> set kvs. \<forall>p. v \<noteq> JNull \<longrightarrow> k \<noteq> TimeFieldName \<longrightarrow> map_of m k = Some p \<longrightarrow> po_Index (pr_opts p) \<longrightarrow> k \<noteq> SourceFieldName \<longrightarrow> value_fits env p v"
  shows "\<exists>fs. build_keys env m kvs = Gives fs \<and> KNil \<notin> bf_kind ` set fs"
  using assms(2)
proof (induction kvs)
  case (Cons kv kvs)
  obtain k v where kv: "kv = (k, v)" by (cases kv)
  obtain gs where gs: "build_keys env m kvs = Gives gs" "KNil \<notin> bf_kind ` set gs" using Cons by auto
  show ?case
  proof (cases "v = JNull \<or> k = TimeFieldName \<or> k = SourceFieldName \<or> (case map_of m k of None \<Rightarrow> True | Some p \<Rightarrow> \<not> po_Index (pr_opts p))")
    case False
    then obtain p where p: "map_of m k = Some p" "po_Index (pr_opts p)" by (auto split: option.splits)
    have "value_fits env p v" using Cons.prems False p by (auto simp: kv)
    then obtain fs where "build_value env m k v = Gives fs" "KNil \<notin> bf_kind ` set fs" using build_value_fits [OF assms(1) p(1)] by blast
    then show ?thesis using False gs by (auto simp: kv)
  qed (use gs in \<open>simp add: kv\<close>)
qed simp

lemma value_fits_same:
  "value_fits env p v \<Longrightarrow> ptype p = ptype q \<Longrightarrow> stringy q \<or> po_Format (pr_opts p) = po_Format (pr_opts q) \<and> po_TimeZone (pr_opts p) = po_TimeZone (pr_opts q) \<Longrightarrow> value_fits env q v"
proof -
  assume same: "ptype p = ptype q" "stringy q \<or> po_Format (pr_opts p) = po_Format (pr_opts q) \<and> po_TimeZone (pr_opts p) = po_TimeZone (pr_opts q)"
  have "fits env p v = fits env q v" for v using same by (auto simp: fits_def stringy_def)
  then show "value_fits env p v \<Longrightarrow> value_fits env q v" by (cases v) (simp_all add: value_fits_def list_all_iff)
qed

text \<open>The mappings after the document, compared with those its values were checked against.\<close>

lemma stored_same:
  assumes "mapping_ok m" and "map_of (SetMappings (Some m) m) k = Some q" and "k \<noteq> TimeFieldName"
  shows "\<exists>p. map_of m k = Some p \<and> ptype p = ptype q \<and> po_Index (pr_opts p) = po_Index (pr_opts q) \<and>
    (stringy q \<or> po_Format (pr_opts p) = po_Format (pr_opts q) \<and> po_TimeZone (pr_opts p) = po_TimeZone (pr_opts q))"
proof -
  have d: "distinct (map fst m)" using assms(1) by (simp add: mapping_ok_def)
  obtain i where "map_of m ''_id'' = Some i" "ptype i = ''keyword''" "po_Index (pr_opts i)" using assms(1) by (auto simp: mapping_ok_iff)
  then show ?thesis using assms(2,3) by (auto simp: SetMappings_own [OF d] TimeFieldName_def stringy_def split: if_splits)
qed

text \<open>The entry of an accepted document.\<close>

lemma CheckDocument_entry:
  assumes "CheckDocument env keyword order stored now docID doc upd shard m = (Inr entry, m')"
  obtains d flat1 m1 t src where "check_keys env keyword (order (Flatten doc)) False (Flatten doc) m = (Some (d, flat1), m1)"
    and "m' = (if d then SetMappings (Some m1) m1 else m1)"
    and "entry = AList.update SourceFieldName (JObj src) (AList.update TimeFieldName (JNum t) (AList.update ShardFieldName (JNum (FormatInt shard))
       (AList.update IDFieldName (JStr docID) (AList.update ActionFieldName (JStr (if upd then ''update'' else ''insert'')) (map (\<lambda>(k, _, v). (k, v)) flat1)))))"
  using assms by (auto simp: CheckDocument_def Let_def split: prod.splits option.splits if_splits)

lemma check_keys_keys: "check_keys env keyword keys dirty flat m = (Some (d, flat'), m') \<Longrightarrow> map fst flat' = map fst flat"
proof (induction env keyword keys dirty flat m rule: check_keys.induct)
  case (2 env keyword key keys dirty flat m)
  have up: "map_of flat key = Some (at, v) \<Longrightarrow> map fst (AList.update key x flat) = map fst flat" for at v x
    by (force simp: update_keys dest!: map_of_SomeD)
  show ?case using 2 up by (auto split: option.splits if_splits prod.splits)
qed simp

text \<open>
  C11. A document that was accepted never makes the step that writes it to the index panic or fail: for
  every document, whatever the orders in which the maps are visited, when the value of a field with
  sub-fields is a string for all of them (and the dynamic keyword sub-fields are off). The mappings
  keep that property, the types of existing fields stay, and the source that is stored is the
  one in the entry.
\<close>
theorem checked_documents_build:
  assumes "mapping_ok m" and "distinct (order (Flatten doc))" and "set (order (Flatten doc)) = fst ` set (Flatten doc)"
    and "CheckDocument env False order stored now docID doc upd shard m = (Inr entry, m')"
    and "set members = set entry" and "distinct (map fst members)"
  shows "mapping_ok m' \<and> (\<forall>k p. map_of m k = Some p \<longrightarrow> (\<exists>q. map_of m' k = Some q \<and> ptype q = ptype p)) \<and>
    (\<exists>b. BuildBlugeDocumentFromJSON env later members m' = Gives b \<and> KNil \<notin> bf_kind ` set (bd_fields b) \<and> map_of entry SourceFieldName = Some (bd_source b))"
proof -
  obtain d flat1 m1 t src where c: "check_keys env False (order (Flatten doc)) False (Flatten doc) m = (Some (d, flat1), m1)"
      "m' = (if d then SetMappings (Some m1) m1 else m1)"
      "entry = AList.update SourceFieldName (JObj src) (AList.update TimeFieldName (JNum t) (AList.update ShardFieldName (JNum (FormatInt shard))
       (AList.update IDFieldName (JStr docID) (AList.update ActionFieldName (JStr (if upd then ''update'' else ''insert'')) (map (\<lambda>(k, _, v). (k, v)) flat1)))))"
    by (rule CheckDocument_entry [OF assms(4)])
  have s: "mapping_ok m1" "\<forall>k p. map_of m k = Some p \<longrightarrow> map_of m1 k = Some p" "\<forall>k \<in> fst ` set (Flatten doc). checked env m1 flat1 k"
    using check_keys_sound [OF c(1) assms(1,2)] unfolding assms(3) by blast+
  have keys1: "map fst flat1 = map fst (Flatten doc)" by (rule check_keys_keys [OF c(1)])
  have ok': "mapping_ok m'" using s(1) c(2) mapping_ok_SetMappings by simp
  have types: "\<exists>q. map_of m' k = Some q \<and> ptype q = ptype p" if p: "map_of m k = Some p" for k p
  proof -
    have "map_of m1 k = Some p" using s(2) p by blast
    moreover have "ptype i = ''keyword''" if "map_of m1 ''_id'' = Some i" for i using s(1) that by (auto simp: mapping_ok_iff)
    ultimately show ?thesis using s(1) by (auto simp: c(2) SetMappings_own mapping_ok_def)
  qed
  have dist: "distinct (map fst entry)" using keys1 Flatten_distinct by (simp add: c(3) distinct_update comp_def case_prod_unfold)
  have same: "map_of members = map_of entry" using assms(5,6) dist by (intro map_of_inject_set [THEN iffD2])
  let ?doc = "filter (\<lambda>(k, _). k \<notin> {ActionFieldName, IDFieldName, ShardFieldName}) members"
  have fit: "value_fits env q v" if kv: "(k, v) \<in> set ?doc" "v \<noteq> JNull" "k \<noteq> TimeFieldName" "map_of m' k = Some q" "po_Index (pr_opts q)" "k \<noteq> SourceFieldName" for k v q
  proof -
    have "map_of entry k = Some v" using kv(1) assms(5) dist by auto
    then have "map_of (map (\<lambda>(k, _, v). (k, v)) flat1) k = Some v" using kv by (auto simp: c(3) update_conv')
    then obtain at where at: "map_of flat1 k = Some (at, v)" by (induction flat1) (auto split: if_splits)
    have "k \<in> fst ` set (Flatten doc)" using at keys1 by (metis dom_map_of_conv_image_fst domI list.set_map)
    then have ch: "checked env m1 flat1 k" using s(3) by blast
    obtain p where p: "map_of m1 k = Some p" "ptype p = ptype q" "po_Index (pr_opts p) = po_Index (pr_opts q)"
        "stringy q \<or> po_Format (pr_opts p) = po_Format (pr_opts q) \<and> po_TimeZone (pr_opts p) = po_TimeZone (pr_opts q)"
      using stored_same [OF s(1) _ kv(3)] kv(4) c(2) by (cases d) auto
    have "value_fits env p v" using ch at kv(2,5) p(1,3) unfolding checked_def by blast
    then show ?thesis by (rule value_fits_same [OF _ p(2,4)])
  qed
  obtain fs where fs: "build_keys env m' ?doc = Gives fs" "KNil \<notin> bf_kind ` set fs" using build_keys_fits [OF ok', of ?doc env] fit by blast
  have look: "map_of ?doc k = (if k \<in> {ActionFieldName, IDFieldName, ShardFieldName} then None else map_of entry k)" for k
    using map_of_filter_fst [of "\<lambda>k. k \<notin> {ActionFieldName, IDFieldName, ShardFieldName}" members k] same by simp
  have time: "map_of ?doc TimeFieldName = Some (JNum t)" unfolding look by (simp add: c(3) update_conv' field_name_defs)
  have src: "map_of ?doc SourceFieldName = Some (JObj src)" "map_of entry SourceFieldName = Some (JObj src)"
    unfolding look by (simp_all add: c(3) update_conv' field_name_defs)
  have "\<exists>b. BuildBlugeDocumentFromJSON env later members m' = Gives b \<and> bd_fields b = fs \<and> bd_source b = JObj src"
    unfolding BuildBlugeDocumentFromJSON_def Let_def using fs(1) time src(1) by simp
  then show ?thesis using ok' types fs(2) src(2) by auto
qed

section \<open>Examples\<close>

definition ex_values :: value_env where
  "ex_values = \<lparr>ve_ParseFloat = (\<lambda>s. if s = ''NaN'' then Some s else None), ve_FormatFloat = (\<lambda>s. s), ve_isZero = (\<lambda>s. s = ''0''), ve_Sprint = (\<lambda>_. ''[]''),
     ve_int64 = (\<lambda>s. case ParseInt s of None \<Rightarrow> 0 | Some n \<Rightarrow> n), ve_LoadLocation = (\<lambda>z. z = ''Europe/Rome''), ve_ParseInLocation = (\<lambda>_ _ _. None)\<rparr>"

definition ex_request_env :: "bool \<Rightarrow> request_env" where
  "ex_request_env keyword =
     \<lparr>re_sql_enabled = False, re_sql = (\<lambda>_. None), re_text_keyword = keyword, re_time_zone = (\<lambda>z. ParseTimeZone ex_values z \<noteq> None), re_analyzer = (\<lambda>_. True),
      re_fields = (\<lambda>fs. Some (map (\<lambda>(k, j). case j of JObj o1 \<Rightarrow> (k, Property ((pr_opts zero_property)\<lparr>po_Type := (case map_of o1 ''type'' of Some (JStr s) \<Rightarrow> s | _ \<Rightarrow> [])\<rparr>) None)
        | _ \<Rightarrow> (k, zero_property)) fs))\<rparr>"

text \<open>The mappings of a new index made with a request.\<close>

definition ex_mappings :: "bool \<Rightarrow> object \<Rightarrow> Properties" where
  "ex_mappings keyword props = (case Request (ex_request_env keyword) [(''properties'', JObj props)] of Gives r \<Rightarrow> SetMappings r [] | _ \<Rightarrow> [])"

definition ex_fields :: "string \<Rightarrow> object" where
  "ex_fields sub = [(''a'', JObj [(''type'', JStr ''text''), (''fields'', JObj [(''s'', JObj [(''type'', JStr sub)])])])]"

definition ex_check :: "bool \<Rightarrow> object \<Rightarrow> Properties \<Rightarrow> (check_error + object) \<times> Properties" where
  "ex_check keyword doc m = CheckDocument ex_values keyword (map fst) True 7 ''1'' doc True (-2) m"

theorem checked_documents_build_witness:
  "\<exists>entry m' b. ex_check False [(''a'', JStr ''x''), (''n'', JNum ''5''), (''l'', JArr [JBool True, JNum ''0''])] (ex_mappings False (ex_fields ''keyword'')) = (Inr entry, m') \<and>
     BuildBlugeDocumentFromJSON ex_values 8 entry m' = Gives b \<and> KNil \<notin> bf_kind ` set (bd_fields b)"
proof -
  let ?doc = "[(''a'', JStr ''x''), (''n'', JNum ''5''), (''l'', JArr [JBool True, JNum ''0''])]"
  let ?m = "ex_mappings False (ex_fields ''keyword'')"
  let ?entry = "projr (fst (ex_check False ?doc ?m))"
  have m: "mapping_ok ?m" by code_simp
  have ord: "distinct (map fst (Flatten ?doc))" "set (map fst (Flatten ?doc)) = fst ` set (Flatten ?doc)" by (rule Flatten_distinct) simp
  have "case fst (ex_check False ?doc ?m) of Inr entry \<Rightarrow> distinct (map fst entry) | Inl _ \<Rightarrow> False" by code_simp
  then obtain entry where e: "fst (ex_check False ?doc ?m) = Inr entry" "distinct (map fst entry)" by (auto split: sum.splits)
  then obtain m' where c: "ex_check False ?doc ?m = (Inr entry, m')" by (cases "ex_check False ?doc ?m") auto
  from checked_documents_build [OF m ord c [unfolded ex_check_def] refl e(2), of 8] c show ?thesis by blast
qed



text \<open>
  The two functions that read time zones disagree. A date field may be mapped with an offset as its
  time zone; where the zone database has no zone of that name, every string in that field is then
  refused, whatever its format, unless the format is that of milliseconds.
\<close>
theorem offset_zones_refuse_strings:
  assumes "c = CHR ''+'' \<or> c = CHR ''-''" and "\<not> ve_LoadLocation env (c # z)" and "format \<noteq> ''epoch_millis''"
  shows "ParseTimeZone env (c # z) \<noteq> None \<and> ParseTime env (JStr s) format (c # z) = None"
proof -
  have upper: "hd (ToUpper (c # z)) = c" using assms(1) by (auto simp: upper_char_def HasPrefix_def Let_def)
  have "ToUpper (c # z) \<notin> {''UTC'', [], ''LOCAL'', ''SYSTEM''}"
  proof
    assume "ToUpper (c # z) \<in> {''UTC'', [], ''LOCAL'', ''SYSTEM''}"
    moreover have "ToUpper (c # z) \<noteq> []" by simp
    ultimately have "hd (ToUpper (c # z)) \<in> {CHR ''U'', CHR ''L'', CHR ''S''}" by auto
    then show False using upper assms(1) by auto
  qed
  then have "\<not> parseTimeZone env (c # z)" using assms(2) by (simp only: parseTimeZone_def) simp
  then show ?thesis using assms(1,3) by (auto simp: ParseTimeZone_def parseStringTime_def)
qed

theorem offset_zones_refuse_strings_witness:
  "ParseTimeZone ex_values ''+08:00'' \<noteq> None \<and> ParseTime ex_values (JStr ''2024-01-02T03:04:05Z'') [] ''+08:00'' = None"
  by (rule offset_zones_refuse_strings) (simp_all add: ex_values_def)

end
