(* ===== verification/Shard_Times.thy ===== *)
theory Shard_Times
  imports Prelude
begin

text \<open>
  The statistics of a shard and its second-layer shards, and the readers a search with a time range
  opens (\<open>SetTimestamp\<close>, \<open>NewShard\<close> and \<open>GetReaders\<close> of \<open>pkg/core/index_shards.go\<close>,
  \<open>UpdateMetadataByShard\<close>, \<open>UpdateStatsBySecondShard\<close>, \<open>UpdateMetadata\<close> and \<open>GetReaders\<close> of
  \<open>index.go\<close>). Times are nanoseconds since 1970; 0 stands for none. What an open writer reports, its
  number of documents and its size, is an argument.
\<close>

section \<open>Statistics\<close>

record IndexStat =
  is_DocTimeMin :: int
  is_DocTimeMax :: int
  is_DocNum :: u64
  is_StorageSize :: u64
  is_WALSize :: u64

definition no_stat :: IndexStat where
  "no_stat = \<lparr>is_DocTimeMin = 0, is_DocTimeMax = 0, is_DocNum = 0, is_StorageSize = 0, is_WALSize = 0\<rparr>"

text \<open>The statistics of the shard and of its second-layer shards, of which there is always one.\<close>

record shard_stats =
  ss_Stats :: IndexStat
  ss_Shards :: "IndexStat list"

definition new_shard :: shard_stats where
  "new_shard = \<lparr>ss_Stats = no_stat, ss_Shards = [no_stat]\<rparr>"

definition SetTimestamp :: "int \<Rightarrow> shard_stats \<Rightarrow> shard_stats" where
  "SetTimestamp t s =
     (let st = ss_Stats s in
      s\<lparr>ss_Stats :=
        (if is_DocTimeMin st = 0 then st\<lparr>is_DocTimeMin := t, is_DocTimeMax := t\<rparr>
         else if t < is_DocTimeMin st then st\<lparr>is_DocTimeMin := t\<rparr>
         else if t > is_DocTimeMax st then st\<lparr>is_DocTimeMax := t\<rparr>
         else st)\<rparr>)"

text \<open>What a writer reports: its size, and its number of documents when that can be read.\<close>

type_synonym writer_stats = "nat \<Rightarrow> (u64 \<times> u64 option) option"

definition second_counts :: "(u64 \<times> u64 option) option \<Rightarrow> IndexStat \<Rightarrow> IndexStat" where
  "second_counts w st =
     (case w of
        None \<Rightarrow> st
      | Some (sz, docNum) \<Rightarrow>
          (let st1 = (case docNum of Some n \<Rightarrow> if 0 < n then st\<lparr>is_DocNum := n\<rparr> else st | None \<Rightarrow> st)
           in if 0 < sz then st1\<lparr>is_StorageSize := sz\<rparr> else st1))"

definition UpdateStatsBySecondShard :: "writer_stats \<Rightarrow> nat \<Rightarrow> shard_stats \<Rightarrow> shard_stats" where
  "UpdateStatsBySecondShard ws i s = s\<lparr>ss_Shards := (ss_Shards s)[i := second_counts (ws i) (ss_Shards s ! i)]\<rparr>"

definition set_times :: "int \<Rightarrow> int \<Rightarrow> IndexStat \<Rightarrow> IndexStat" where
  "set_times lo hi st = st\<lparr>is_DocTimeMin := lo, is_DocTimeMax := hi\<rparr>"

text \<open>The latest second-layer shard gets the times of the shard.\<close>

definition times_to_latest :: "shard_stats \<Rightarrow> shard_stats" where
  "times_to_latest s =
     (let i = length (ss_Shards s) - 1 in
      s\<lparr>ss_Shards := (ss_Shards s)[i := set_times (is_DocTimeMin (ss_Stats s)) (is_DocTimeMax (ss_Stats s)) (ss_Shards s ! i)]\<rparr>)"

text \<open>Adding a second-layer shard, which is done before the index is stored and the writer opened.\<close>

definition add_second :: "writer_stats \<Rightarrow> shard_stats \<Rightarrow> shard_stats" where
  "add_second ws s =
     (let s1 = times_to_latest (UpdateStatsBySecondShard ws (length (ss_Shards s) - 1) s)
      in s1\<lparr>ss_Stats := set_times 0 0 (ss_Stats s1), ss_Shards := ss_Shards s1 @ [no_stat]\<rparr>)"

definition NewShard :: "writer_stats \<Rightarrow> bool \<Rightarrow> bool \<Rightarrow> shard_stats \<Rightarrow> bool \<times> shard_stats" where
  "NewShard ws stored opened s = (let s1 = add_second ws s in if \<not> stored then (False, s1) else (opened, s1))"

definition UpdateMetadataByShard :: "writer_stats \<Rightarrow> shard_stats \<Rightarrow> shard_stats" where
  "UpdateMetadataByShard ws s =
     (let s1 = fold (UpdateStatsBySecondShard ws) [0..<length (ss_Shards s)] s;
          docs = sum_list (map is_DocNum (ss_Shards s1));
          sz = sum_list (map is_StorageSize (ss_Shards s1));
          s2 = (if 0 < docs \<and> 0 < sz then s1\<lparr>ss_Stats := (ss_Stats s1)\<lparr>is_DocNum := docs, is_StorageSize := sz\<rparr>\<rparr> else s1)
      in times_to_latest s2)"

definition UpdateMetadata :: "bool \<Rightarrow> shard_stats list \<Rightarrow> IndexStat \<Rightarrow> bool \<times> IndexStat" where
  "UpdateMetadata stored shards st =
     (let docs = sum_list (map (\<lambda>s. is_DocNum (ss_Stats s)) shards); sz = sum_list (map (\<lambda>s. is_StorageSize (ss_Stats s)) shards)
      in (stored, if 0 < docs \<and> 0 < sz then st\<lparr>is_DocNum := docs, is_StorageSize := sz\<rparr> else st))"

definition UpdateWALSize :: "u64 \<Rightarrow> IndexStat \<Rightarrow> IndexStat" where
  "UpdateWALSize n st = st\<lparr>is_WALSize := n\<rparr>"

section \<open>Readers for a time range\<close>

text \<open>From the latest second-layer shard down; a shard outside the range is left out, and one that begins before it is the last.\<close>

fun wanted :: "int \<Rightarrow> int \<Rightarrow> (nat \<times> IndexStat) list \<Rightarrow> nat list" where
  "wanted timeMin timeMax [] = []"
| "wanted timeMin timeMax ((i, st) # rest) =
     (if 0 < timeMin \<and> 0 < is_DocTimeMax st \<and> is_DocTimeMax st < timeMin \<or> 0 < timeMax \<and> 0 < is_DocTimeMin st \<and> timeMax < is_DocTimeMin st
      then wanted timeMin timeMax rest
      else if 0 < is_DocTimeMin st \<and> is_DocTimeMin st < timeMin then [i]
      else i # wanted timeMin timeMax rest)"

text \<open>\<open>opens\<close> says which writers can be opened and read; one that cannot makes the search fail.\<close>

definition shard_GetReaders :: "(nat \<Rightarrow> bool) \<Rightarrow> int \<Rightarrow> int \<Rightarrow> shard_stats \<Rightarrow> nat list option" where
  "shard_GetReaders opens timeMin timeMax s =
     (let is = wanted timeMin timeMax (rev (enumerate 0 (ss_Shards s))) in if list_all opens is then Some is else None)"

text \<open>The readers of an index: those of its shards in turn.\<close>

fun index_GetReaders :: "(nat \<Rightarrow> nat \<Rightarrow> bool) \<Rightarrow> int \<Rightarrow> int \<Rightarrow> (nat \<times> shard_stats) list \<Rightarrow> (nat \<times> nat) list option" where
  "index_GetReaders opens timeMin timeMax [] = Some []"
| "index_GetReaders opens timeMin timeMax ((j, s) # rest) =
     (case shard_GetReaders (opens j) timeMin timeMax s of
        None \<Rightarrow> None
      | Some is \<Rightarrow> (case index_GetReaders opens timeMin timeMax rest of None \<Rightarrow> None | Some ps \<Rightarrow> Some (map (Pair j) is @ ps)))"

section \<open>Which documents are found\<close>

text \<open>
  A history of a shard: a document written to a second-layer shard with its time, a second-layer
  shard added (also when storing the index or opening the writer then fails), the metadata updated. \<open>kept\<close> collects the times of the documents each shard holds.
\<close>

datatype shard_event = Written nat int | Split writer_stats bool bool | Recorded writer_stats

record shard_history =
  hs_stats :: shard_stats
  hs_kept :: "int list list"

definition happen :: "shard_event \<Rightarrow> shard_history \<Rightarrow> shard_history" where
  "happen e h =
     (case e of
        Written i t \<Rightarrow> h\<lparr>hs_stats := SetTimestamp t (hs_stats h), hs_kept := (hs_kept h)[i := hs_kept h ! i @ [t]]\<rparr>
      | Split ws stored opened \<Rightarrow> h\<lparr>hs_stats := snd (NewShard ws stored opened (hs_stats h)), hs_kept := hs_kept h @ [[]]\<rparr>
      | Recorded ws \<Rightarrow> h\<lparr>hs_stats := UpdateMetadataByShard ws (hs_stats h)\<rparr>)"

definition history :: "shard_event list \<Rightarrow> shard_history" where
  "history es = foldl (\<lambda>h e. happen e h) \<lparr>hs_stats = new_shard, hs_kept = [[]]\<rparr> es"

text \<open>Documents arrive in the order of their times, each at the latest second-layer shard.\<close>

fun in_order :: "nat \<Rightarrow> int \<Rightarrow> shard_event list \<Rightarrow> bool" where
  "in_order latest t [] \<longleftrightarrow> True"
| "in_order latest t (Written i u # es) \<longleftrightarrow> i = latest \<and> t \<le> u \<and> in_order latest u es"
| "in_order latest t (Split _ _ _ # es) \<longleftrightarrow> in_order (latest + 1) t es"
| "in_order latest t (Recorded _ # es) \<longleftrightarrow> in_order latest t es"

definition in_range :: "int \<Rightarrow> int \<Rightarrow> int \<Rightarrow> bool" where
  "in_range timeMin timeMax t \<longleftrightarrow> (0 < timeMin \<longrightarrow> timeMin \<le> t) \<and> (0 < timeMax \<longrightarrow> t \<le> timeMax)"

text \<open>The recorded times of the second-layer shards, and of the shard.\<close>

definition times :: "IndexStat \<Rightarrow> int \<times> int" where
  "times st = (is_DocTimeMin st, is_DocTimeMax st)"

definition recorded :: "shard_stats \<Rightarrow> (int \<times> int) list" where
  "recorded s = map times (ss_Shards s)"

lemma times_simps [simp]: "times (second_counts w st) = times st" "times (set_times lo hi st) = (lo, hi)" "times no_stat = (0, 0)"
  by (auto simp: times_def second_counts_def set_times_def no_stat_def Let_def split: option.splits)

lemma recorded_counts [simp]:
  "recorded (UpdateStatsBySecondShard ws i s) = recorded s" "ss_Stats (UpdateStatsBySecondShard ws i s) = ss_Stats s"
  "length (ss_Shards (UpdateStatsBySecondShard ws i s)) = length (ss_Shards s)"
proof -
  have "(map times (ss_Shards s))[i := times (ss_Shards s ! i)] = map times (ss_Shards s)"
    by (cases "i < length (ss_Shards s)") (simp_all add: list_update_same_conv list_update_beyond not_less)
  then show "recorded (UpdateStatsBySecondShard ws i s) = recorded s" by (simp add: recorded_def UpdateStatsBySecondShard_def map_update)
qed (simp_all add: UpdateStatsBySecondShard_def)

lemma recorded_all_counts [simp]:
  "recorded (fold (UpdateStatsBySecondShard ws) is s) = recorded s" "ss_Stats (fold (UpdateStatsBySecondShard ws) is s) = ss_Stats s"
  "length (ss_Shards (fold (UpdateStatsBySecondShard ws) is s)) = length (ss_Shards s)"
  by (induction "is" arbitrary: s) simp_all

lemma recorded_latest: "recorded (times_to_latest s) = (recorded s)[length (recorded s) - 1 := times (ss_Stats s)]"
  by (simp add: times_to_latest_def recorded_def Let_def map_update) (simp add: times_def)

lemma recorded_add_second: "recorded (add_second ws s) = (recorded s)[length (recorded s) - 1 := times (ss_Stats s)] @ [(0, 0)]" "times (ss_Stats (add_second ws s)) = (0, 0)"
proof -
  let ?s = "UpdateStatsBySecondShard ws (length (ss_Shards s) - 1) s"
  have "recorded (add_second ws s) = recorded (times_to_latest ?s) @ [(0, 0)]" by (simp add: add_second_def Let_def recorded_def)
  then show "recorded (add_second ws s) = (recorded s)[length (recorded s) - 1 := times (ss_Stats s)] @ [(0, 0)]" by (simp add: recorded_latest)
  show "times (ss_Stats (add_second ws s)) = (0, 0)" by (simp add: add_second_def Let_def)
qed

lemma NewShard_state [simp]: "snd (NewShard ws stored opened s) = add_second ws s"
  by (simp add: NewShard_def Let_def)

lemma recorded_UpdateMetadata:
  "recorded (UpdateMetadataByShard ws s) = (recorded s)[length (recorded s) - 1 := times (ss_Stats s)]" "times (ss_Stats (UpdateMetadataByShard ws s)) = times (ss_Stats s)"
proof -
  let ?s = "fold (UpdateStatsBySecondShard ws) [0..<length (ss_Shards s)] s"
  obtain st where st: "UpdateMetadataByShard ws s = times_to_latest (?s\<lparr>ss_Stats := st\<rparr>)" "times st = times (ss_Stats s)"
  proof (cases "0 < sum_list (map is_DocNum (ss_Shards ?s)) \<and> 0 < sum_list (map is_StorageSize (ss_Shards ?s))")
    case True
    then show ?thesis
      by (intro that [of "(ss_Stats s)\<lparr>is_DocNum := sum_list (map is_DocNum (ss_Shards ?s)), is_StorageSize := sum_list (map is_StorageSize (ss_Shards ?s))\<rparr>"])
        (auto simp: UpdateMetadataByShard_def Let_def times_def)
  next
    case False
    have same: "?s\<lparr>ss_Stats := ss_Stats s\<rparr> = ?s" by (rule shard_stats.equality) simp_all
    have "UpdateMetadataByShard ws s = times_to_latest ?s" using False by (auto simp: UpdateMetadataByShard_def Let_def)
    then show ?thesis by (rule that [of "ss_Stats s", unfolded same]) (rule refl)
  qed
  have "recorded (?s\<lparr>ss_Stats := st\<rparr>) = recorded s" by (simp add: recorded_def [of "_\<lparr>ss_Stats := _\<rparr>"]) (simp add: recorded_def [symmetric])
  then show "recorded (UpdateMetadataByShard ws s) = (recorded s)[length (recorded s) - 1 := times (ss_Stats s)]" by (simp add: st recorded_latest)
  show "times (ss_Stats (UpdateMetadataByShard ws s)) = times (ss_Stats s)" by (simp add: st times_to_latest_def Let_def)
qed

text \<open>A recorded range is that of some documents.\<close>

fun covers :: "int \<times> int \<Rightarrow> int list \<Rightarrow> bool" where
  "covers (lo, hi) ts \<longleftrightarrow> (if ts = [] then lo = 0 \<and> hi = 0 else 0 < lo \<and> lo \<in> set ts \<and> (\<forall>t \<in> set ts. lo \<le> t \<and> t \<le> hi))"

definition hist_ok :: "int \<Rightarrow> shard_history \<Rightarrow> bool" where
  "hist_ok now h \<longleftrightarrow>
     (let ks = hs_kept h; rs = recorded (hs_stats h); n = length ks in
      length rs = n \<and> 0 < n \<and> (\<forall>i < n - 1. covers (rs ! i) (ks ! i)) \<and> covers (times (ss_Stats (hs_stats h))) (ks ! (n - 1)) \<and>
      (\<forall>i < n. \<forall>t \<in> set (ks ! i). t \<le> now) \<and> (\<forall>j < n. \<forall>i < j. \<forall>t \<in> set (ks ! i). \<forall>u \<in> set (ks ! j). t \<le> u))"

lemma covers_add:
  assumes "covers (times (ss_Stats s)) ts" and "0 < t" and "\<forall>u \<in> set ts. u \<le> t"
  shows "covers (times (ss_Stats (SetTimestamp t s))) (ts @ [t])"
  using assms by (auto simp: SetTimestamp_def times_def Let_def split: if_splits)

lemma hist_ok_happen:
  assumes "hist_ok now h" and "0 < now" and "in_order (length (hs_kept h) - 1) now (e # es)"
  shows "\<exists>now' \<ge> now. hist_ok now' (happen e h) \<and> in_order (length (hs_kept (happen e h)) - 1) now' es"
proof -
  let ?ks = "hs_kept h" and ?s = "hs_stats h"
  let ?n = "length ?ks"
  have h: "length (recorded ?s) = ?n" "0 < ?n" "\<forall>i < ?n - 1. covers (recorded ?s ! i) (?ks ! i)" "covers (times (ss_Stats ?s)) (?ks ! (?n - 1))"
      "\<forall>i < ?n. \<forall>t \<in> set (?ks ! i). t \<le> now" "\<forall>j < ?n. \<forall>i < j. \<forall>t \<in> set (?ks ! i). \<forall>u \<in> set (?ks ! j). t \<le> u"
    using assms(1) by (simp_all add: hist_ok_def Let_def)
  show ?thesis
  proof (cases e)
    case (Written i t)
    have i: "i = ?n - 1" "now \<le> t" "in_order (?n - 1) t es" using assms(3) by (simp_all add: Written)
    let ?kt = "?ks[?n - 1 := ?ks ! (?n - 1) @ [t]]"
    have le: "\<forall>u \<in> set (?ks ! j). u \<le> t" if "j < ?n" for j using h(5) i(2) that by force
    have rec: "recorded (SetTimestamp t ?s) = recorded ?s" by (simp add: SetTimestamp_def recorded_def Let_def)
    have "covers (times (ss_Stats (SetTimestamp t ?s))) (?kt ! (?n - 1))"
      using covers_add [OF h(4)] assms(2) i(2) le [of "?n - 1"] h(2) by simp
    moreover have "\<forall>j < ?n. \<forall>u \<in> set (?kt ! j). u \<le> t" using le by (auto simp: nth_list_update)
    moreover have "\<forall>j < ?n. \<forall>k < j. \<forall>u \<in> set (?kt ! k). \<forall>w \<in> set (?kt ! j). u \<le> w"
    proof (intro allI impI ballI)
      fix j k u w
      assume j: "j < ?n" "k < j" "u \<in> set (?kt ! k)" "w \<in> set (?kt ! j)"
      then have "u \<in> set (?ks ! k)" "k < ?n" "w \<in> set (?ks ! j) \<or> w = t" by (auto simp: nth_list_update split: if_splits)
      then show "u \<le> w" using h(6) le [of k] j(1,2) by blast
    qed
    ultimately have "hist_ok t (happen e h)" using h(1-3) i(1) rec by (auto simp: hist_ok_def happen_def Written Let_def nth_list_update)
    then show ?thesis using i by (intro exI [of _ t]) (simp add: happen_def Written)
  next
    case (Split ws stored opened)
    have "covers ((recorded ?s)[?n - 1 := times (ss_Stats ?s)] ! i) (?ks ! i)" if "i < ?n" for i
      using h(1,3,4) that by (cases "i = ?n - 1") auto
    then have "hist_ok now (happen e h)"
      using h(1,2,5,6) by (auto simp: hist_ok_def happen_def Split Let_def recorded_add_second nth_append less_Suc_eq)
    then show ?thesis using assms(3) h(2) by (intro exI [of _ now]) (auto simp: happen_def Split)
  next
    case (Recorded ws)
    have "hist_ok now (happen e h)" using h by (auto simp: hist_ok_def happen_def Recorded Let_def recorded_UpdateMetadata nth_list_update)
    then show ?thesis using assms(3) by (intro exI [of _ now]) (simp add: happen_def Recorded)
  qed
qed

lemma hist_ok_history:
  "hist_ok now h \<Longrightarrow> 0 < now \<Longrightarrow> in_order (length (hs_kept h) - 1) now es \<Longrightarrow> \<exists>now'. hist_ok now' (foldl (\<lambda>h e. happen e h) h es)"
proof (induction es arbitrary: now h)
  case (Cons e es)
  obtain now' where n: "now \<le> now'" "hist_ok now' (happen e h)" "in_order (length (hs_kept (happen e h)) - 1) now' es" using hist_ok_happen [OF Cons.prems] by blast
  then show ?case using Cons.IH [OF n(2) _ n(3)] Cons.prems(2) by simp
qed auto

text \<open>The loop finds every shard that holds a document in the range, when later shards hold later documents.\<close>

lemma wanted_complete:
  assumes "sorted_wrt (\<lambda>(j, _) (i, _). i < j) xs" and "\<forall>(i, st) \<in> set xs. covers (times st) (kept i)"
    and "\<forall>j sj i si. (j, sj) \<in> set xs \<longrightarrow> (i, si) \<in> set xs \<longrightarrow> i < j \<longrightarrow> (\<forall>t \<in> set (kept i). \<forall>u \<in> set (kept j). t \<le> u)"
    and "(i, st) \<in> set xs" and "t \<in> set (kept i)" and "in_range timeMin timeMax t"
  shows "i \<in> set (wanted timeMin timeMax xs)"
  using assms
proof (induction xs)
  case (Cons x xs)
  obtain j sj where x: "x = (j, sj)" by (cases x)
  have cov: "covers (times sj) (kept j)" using Cons.prems(2) by (simp add: x)
  show ?case
  proof (cases "(i, st) = x")
    case True
    then have "0 < is_DocTimeMin sj \<and> is_DocTimeMin sj \<le> t \<and> t \<le> is_DocTimeMax sj" using cov Cons.prems(5) by (auto simp: x times_def split: if_splits)
    then show ?thesis using True Cons.prems(6) by (auto simp: x in_range_def)
  next
    case False
    then have mem: "(i, st) \<in> set xs" using Cons.prems(4) by auto
    then have ij: "i < j" using Cons.prems(1) by (auto simp: x)
    have "\<forall>j sj i si. (j, sj) \<in> set xs \<longrightarrow> (i, si) \<in> set xs \<longrightarrow> i < j \<longrightarrow> (\<forall>t \<in> set (kept i). \<forall>u \<in> set (kept j). t \<le> u)"
      using Cons.prems(3) by (meson list.set_intros(2))
    then have rest: "i \<in> set (wanted timeMin timeMax xs)" using Cons.prems(1,2,5,6) mem by (intro Cons.IH) auto
    have "\<not> (0 < is_DocTimeMin sj \<and> is_DocTimeMin sj < timeMin)"
    proof
      assume b: "0 < is_DocTimeMin sj \<and> is_DocTimeMin sj < timeMin"
      then have "is_DocTimeMin sj \<in> set (kept j)" using cov by (auto simp: times_def split: if_splits)
      moreover have "(j, sj) \<in> set (x # xs)" "(i, st) \<in> set (x # xs)" using mem by (simp_all add: x)
      ultimately have "t \<le> is_DocTimeMin sj" using Cons.prems(3,5) ij by blast
      then show False using b Cons.prems(6) by (simp add: in_range_def)
    qed
    then show ?thesis using rest by (auto simp: x)
  qed
qed simp

text \<open>
  When documents arrive in the order of their times and the metadata was updated after the last
  one, a search over a range of times reads every second-layer shard that holds a document of the
  range, whatever the range and however the documents are divided among the shards. A range that is
  open on a side is given as 0.
\<close>
lemma readers_complete:
  assumes "in_order 0 first es" and "0 < first" and "h = history (es @ [Recorded ws])"
    and "i < length (hs_kept h)" and "t \<in> set (hs_kept h ! i)" and "in_range timeMin timeMax t" and "\<forall>j. opens j"
  shows "\<exists>rs. shard_GetReaders opens timeMin timeMax (hs_stats h) = Some rs \<and> i \<in> set rs"
proof -
  let ?g = "history es"
  have "hist_ok first \<lparr>hs_stats = new_shard, hs_kept = [[]]\<rparr>" by (simp add: hist_ok_def new_shard_def recorded_def)
  from hist_ok_history [OF this assms(2)] obtain now where ok: "hist_ok now ?g" using assms(1) by (auto simp: history_def)
  have h: "h = happen (Recorded ws) ?g" by (simp add: assms(3) history_def)
  let ?ks = "hs_kept h" and ?ss = "ss_Shards (hs_stats h)"
  have len: "length (recorded (hs_stats h)) = length ?ks" "0 < length ?ks" and ordered: "\<forall>j < length ?ks. \<forall>i < j. \<forall>t \<in> set (?ks ! i). \<forall>u \<in> set (?ks ! j). t \<le> u"
    using ok by (simp_all add: h happen_def hist_ok_def Let_def recorded_UpdateMetadata)
  have cov: "covers (recorded (hs_stats h) ! j) (?ks ! j)" if "j < length ?ks" for j
    using ok that by (cases "j = length ?ks - 1") (auto simp: h happen_def hist_ok_def Let_def recorded_UpdateMetadata)
  let ?xs = "rev (enumerate 0 ?ss)"
  have n: "length ?ss = length ?ks" using len(1) by (simp add: recorded_def)
  have mem: "(j, st) \<in> set ?xs \<longleftrightarrow> j < length ?ks \<and> st = ?ss ! j" for j st using n by (auto simp: in_set_enumerate_eq)
  have "sorted_wrt (\<lambda>x y. fst x < fst y) (enumerate 0 ?ss)" by (simp add: sorted_wrt_iff_nth_less nth_enumerate_eq)
  then have "sorted_wrt (\<lambda>(j, _) (i, _). i < j) ?xs" by (simp add: sorted_wrt_rev case_prod_unfold)
  moreover have "\<forall>(j, st) \<in> set ?xs. covers (times st) (?ks ! j)"
  proof clarify
    fix j st assume "(j, st) \<in> set ?xs"
    then have "j < length ?ks" "st = ?ss ! j" using mem by blast+
    then show "covers (times st) (?ks ! j)" using cov [of j] n by (simp add: recorded_def)
  qed
  moreover have "\<forall>j sj k sk. (j, sj) \<in> set ?xs \<longrightarrow> (k, sk) \<in> set ?xs \<longrightarrow> k < j \<longrightarrow> (\<forall>t \<in> set (?ks ! k). \<forall>u \<in> set (?ks ! j). t \<le> u)" using ordered mem by blast
  ultimately have "i \<in> set (wanted timeMin timeMax ?xs)"
    using mem [of i "?ss ! i"] assms(4-6) by (intro wanted_complete [where st = "?ss ! i" and t = t and kept = "\<lambda>j. ?ks ! j"]) blast+
  then show ?thesis using assms(7) by (auto simp: shard_GetReaders_def Let_def list_all_iff)
qed

text \<open>A shard of two second-layer shards, with the given times in each.\<close>

definition ex_writers :: writer_stats where
  "ex_writers _ = Some (100, Some 3)"

theorem readers_complete_witness:
  "\<exists>rs. shard_GetReaders (\<lambda>_. True) 15 25 (hs_stats (history ([Written 0 10, Written 0 20, Split ex_writers True True, Written 1 30] @ [Recorded ex_writers]))) = Some rs \<and> 0 \<in> set rs"
proof -
  let ?es = "[Written 0 10, Written 0 20, Split ex_writers True True, Written 1 30]"
  have "0 < length (hs_kept (history (?es @ [Recorded ex_writers])))" "20 \<in> set (hs_kept (history (?es @ [Recorded ex_writers])) ! 0)" by code_simp+
  then show ?thesis by (intro readers_complete [OF _ _ refl, where first = 1 and t = 20]) (simp_all add: in_range_def)
qed

text \<open>
  When documents do not arrive in the order of their times, a search over a range can leave out
  shards that hold documents of the range. A late document in a newer shard makes the loop stop
  before the older ones; and an update of a document in an older shard is recorded for the latest
  shard, so the older one is left out.
\<close>
theorem readers_leave_out_documents:
  "(20 \<in> set (hs_kept (history [Written 0 10, Written 0 20, Split ex_writers True True, Written 1 5, Written 1 30, Recorded ex_writers]) ! 0) \<and>
    shard_GetReaders (\<lambda>_. True) 15 25 (hs_stats (history [Written 0 10, Written 0 20, Split ex_writers True True, Written 1 5, Written 1 30, Recorded ex_writers])) = Some [1]) \<and>
   (40 \<in> set (hs_kept (history [Written 0 10, Split ex_writers True True, Written 0 40, Recorded ex_writers]) ! 0) \<and>
    shard_GetReaders (\<lambda>_. True) 35 45 (hs_stats (history [Written 0 10, Split ex_writers True True, Written 0 40, Recorded ex_writers])) = Some [1])"
  by (intro conjI) code_simp+

end
