(* ===== verification/Min_Should.thy ===== *)
theory Min_Should
  imports Doc_Values
begin

text \<open>
  How many of the optional clauses of a query have to match (\<open>pkg/zutils/min_should.go\<close>): a number, a percentage, or
  conditions like \<open>2<75% 5<4\<close>. The value is the JSON of the request. What floating point makes of it is
  an argument: \<open>floor\<close> rounds a number down, \<open>percent n p\<close> is \<open>int(float64(n) * float64(p) / 100)\<close>.
\<close>

record combination =
  cb_condition :: int
  cb_count :: int

definition getPartValue :: "(int \<Rightarrow> int \<Rightarrow> int) \<Rightarrow> int \<Rightarrow> string \<Rightarrow> int option" where
  "getPartValue percent termCount part =
     (if Contains part ''%'' then
        (case ParseInt (butlast part) of
           None \<Rightarrow> None
         | Some p \<Rightarrow> Some (if p < 0 then termCount - percent termCount (wrap64 (- p)) else percent termCount p))
      else (case ParseInt part of
           None \<Rightarrow> None
         | Some n \<Rightarrow> Some (if n < 0 then termCount + n else n)))"

text \<open>The regular expression \<open>(\d+)<([-+]?\d+%?)\<close>: its match at the beginning of a string, and the first one in it.\<close>

definition is_digit :: "char \<Rightarrow> bool" where
  "is_digit c \<longleftrightarrow> char_digit c \<noteq> None"

definition match_right :: "string \<Rightarrow> string option" where
  "match_right s =
     (let sign = (case s of c # _ \<Rightarrow> if c = CHR ''-'' \<or> c = CHR ''+'' then [c] else [] | [] \<Rightarrow> []);
          r = drop (length sign) s; ds = takeWhile is_digit r; rest = dropWhile is_digit r
      in if ds = [] then None else Some (sign @ ds @ (if HasPrefix rest ''%'' then ''%'' else [])))"

definition match_here :: "string \<Rightarrow> (string \<times> string) option" where
  "match_here s =
     (let ds = takeWhile is_digit s; rest = dropWhile is_digit s
      in if ds = [] \<or> \<not> HasPrefix rest ''<'' then None else map_option (\<lambda>r. (ds, r)) (match_right (tl rest)))"

fun FindStringSubmatch :: "string \<Rightarrow> (string \<times> string) option" where
  "FindStringSubmatch [] = None"
| "FindStringSubmatch (c # s) = (case match_here (c # s) of None \<Rightarrow> FindStringSubmatch s | Some m \<Rightarrow> Some m)"

definition parse_combination :: "(int \<Rightarrow> int \<Rightarrow> int) \<Rightarrow> int \<Rightarrow> string \<Rightarrow> combination option" where
  "parse_combination percent subCount str =
     (case FindStringSubmatch str of
        None \<Rightarrow> None
      | Some (l, r) \<Rightarrow>
          (case (ParseInt l, getPartValue percent subCount r) of
             (Some condition, Some count) \<Rightarrow> Some \<lparr>cb_condition = condition, cb_count = count\<rparr>
           | _ \<Rightarrow> None))"

fun parse_combinations :: "(int \<Rightarrow> int \<Rightarrow> int) \<Rightarrow> int \<Rightarrow> string list \<Rightarrow> combination list option" where
  "parse_combinations percent subCount [] = Some []"
| "parse_combinations percent subCount (s # ss) =
     (case parse_combination percent subCount s of
        None \<Rightarrow> None
      | Some c \<Rightarrow> map_option ((#) c) (parse_combinations percent subCount ss))"

text \<open>The loop over the sorted conditions.\<close>

fun first_match :: "int \<Rightarrow> combination list \<Rightarrow> int option" where
  "first_match subCount [] = None"
| "first_match subCount (c # cs) =
     (if subCount \<le> cb_condition c then Some subCount
      else case cs of
        [] \<Rightarrow> Some (cb_count c)
      | d # _ \<Rightarrow> if subCount \<le> cb_condition d then Some (cb_count c) else first_match subCount cs)"

definition calculate_strings :: "(int \<Rightarrow> int \<Rightarrow> int) \<Rightarrow> int \<Rightarrow> string list \<Rightarrow> int option" where
  "calculate_strings percent subCount x =
     (case parse_combinations percent subCount x of
        None \<Rightarrow> None
      | Some conditions \<Rightarrow> first_match subCount (sort_Slice (\<lambda>a b. cb_condition a < cb_condition b) conditions))"

definition calculate_string :: "(int \<Rightarrow> int \<Rightarrow> int) \<Rightarrow> int \<Rightarrow> string \<Rightarrow> int option" where
  "calculate_string percent subCount x =
     (case getPartValue percent subCount x of
        Some res \<Rightarrow> Some res
      | None \<Rightarrow>
          (case parse_combination percent subCount x of
             None \<Rightarrow> None
           | Some c \<Rightarrow> Some (if subCount \<le> cb_condition c then subCount else cb_count c)))"

text \<open>The deferred function, which keeps the result between 1 and the number of clauses.\<close>

definition within :: "int \<Rightarrow> int \<Rightarrow> int" where
  "within subCount res = (if res \<le> 1 then 1 else if subCount \<le> res then subCount else res)"

definition CalculateMin :: "(string \<Rightarrow> int) \<Rightarrow> (int \<Rightarrow> int \<Rightarrow> int) \<Rightarrow> int \<Rightarrow> json \<Rightarrow> int option" where
  "CalculateMin floor percent subCount v =
     (if subCount = 0 then Some 1
      else map_option (within subCount)
        (case v of
           JNum n \<Rightarrow> Some (let m = floor n in if m < 0 then subCount + m else m)
         | JStr x \<Rightarrow>
             (let combinations = Split_char CHR '' '' x in
              if 1 < length combinations then map_option (within subCount) (calculate_strings percent subCount combinations)
              else calculate_string percent subCount x)
         | _ \<Rightarrow> None))"

section \<open>Conditions\<close>

lemma within_range: "0 < n \<Longrightarrow> 1 \<le> within n r \<and> within n r \<le> n"
  by (simp add: within_def)

lemma within_within [simp]: "0 < n \<Longrightarrow> within n (within n r) = within n r"
  by (simp add: within_def)

lemma first_match_none: "cs \<noteq> [] \<Longrightarrow> \<forall>c \<in> set cs. n \<le> cb_condition c \<Longrightarrow> first_match n cs = Some n"
  by (cases cs) auto

lemma first_match_greatest:
  "sorted (map cb_condition cs) \<Longrightarrow> distinct (map cb_condition cs) \<Longrightarrow> c \<in> set cs \<Longrightarrow> cb_condition c < n \<Longrightarrow>
   \<forall>d \<in> set cs. cb_condition d < n \<longrightarrow> cb_condition d \<le> cb_condition c \<Longrightarrow> first_match n cs = Some (cb_count c)"
proof (induction n cs rule: first_match.induct)
  case (2 n b cs)
  have b: "cb_condition b < n" using 2(2,4,5) by auto
  show ?case
  proof (cases cs)
    case Nil
    then show ?thesis using 2(4) b by simp
  next
    case (Cons d ds)
    show ?thesis
    proof (cases "n \<le> cb_condition d")
      case True
      then have "\<forall>e \<in> set cs. n \<le> cb_condition e" using 2(2) Cons by auto
      then have "c = b" using 2(4,5) by auto
      then show ?thesis using b True Cons by simp
    next
      case False
      then have "c \<noteq> b" using 2(2,3,6) Cons by fastforce
      then have "first_match n cs = Some (cb_count c)" using 2 b Cons False by (intro 2(1)) auto
      then show ?thesis using b False Cons by simp
    qed
  qed
qed simp

lemma parse_combinations_empty: "parse_combinations pc n ss = Some [] \<longleftrightarrow> ss = []"
  by (cases ss) (auto split: option.splits)

text \<open>
  The number of clauses that have to match lies between one and the number of clauses. Of several conditions
  the one with the greatest bound below the number of clauses decides; when no bound is below it, all clauses have to match.
\<close>
theorem CalculateMin_rule:
  assumes "0 < n"
  shows "(CalculateMin fl pc n v = Some r \<longrightarrow> 1 \<le> r \<and> r \<le> n) \<and>
    (1 < length (Split_char CHR '' '' x) \<and> parse_combinations pc n (Split_char CHR '' '' x) = Some cs \<and> distinct (map cb_condition cs) \<longrightarrow>
       ((\<forall>c \<in> set cs. n \<le> cb_condition c) \<longrightarrow> CalculateMin fl pc n (JStr x) = Some n) \<and>
       (\<forall>c \<in> set cs. cb_condition c < n \<and> (\<forall>d \<in> set cs. cb_condition d < n \<longrightarrow> cb_condition d \<le> cb_condition c) \<longrightarrow>
          CalculateMin fl pc n (JStr x) = Some (within n (cb_count c))))"
proof -
  let ?lt = "\<lambda>a b. cb_condition a < cb_condition b"
  have "1 \<le> r \<and> r \<le> n" if "CalculateMin fl pc n v = Some r"
    using that assms within_range [OF assms] by (auto simp: CalculateMin_def)
  moreover have "((\<forall>c \<in> set cs. n \<le> cb_condition c) \<longrightarrow> CalculateMin fl pc n (JStr x) = Some n) \<and>
       (\<forall>c \<in> set cs. cb_condition c < n \<and> (\<forall>d \<in> set cs. cb_condition d < n \<longrightarrow> cb_condition d \<le> cb_condition c) \<longrightarrow>
          CalculateMin fl pc n (JStr x) = Some (within n (cb_count c)))"
    if len: "1 < length (Split_char CHR '' '' x)" and cs: "parse_combinations pc n (Split_char CHR '' '' x) = Some cs"
      and d: "distinct (map cb_condition cs)"
  proof -
    have ne: "cs \<noteq> []" using cs len parse_combinations_empty [of pc n] by fastforce
    have eq: "CalculateMin fl pc n (JStr x) = map_option (within n) (first_match n (sort_Slice ?lt cs))"
      using assms len cs by (simp add: CalculateMin_def calculate_strings_def option.map_comp comp_def)
    have "first_match n (sort_Slice ?lt cs) = Some n" if "\<forall>c \<in> set cs. n \<le> cb_condition c"
      using that ne by (intro first_match_none) (metis length_0_conv length_sort_Slice, simp)
    moreover have "first_match n (sort_Slice ?lt cs) = Some (cb_count c)"
      if "c \<in> set cs" "cb_condition c < n" "\<forall>d \<in> set cs. cb_condition d < n \<longrightarrow> cb_condition d \<le> cb_condition c" for c
      using that d by (intro first_match_greatest) (simp_all add: sorted_map_sort_Slice)
    moreover have "within n n = n" using assms by (simp add: within_def)
    ultimately show ?thesis using eq by auto
  qed
  ultimately show ?thesis by blast
qed

theorem CalculateMin_rule_witness:
  "CalculateMin (\<lambda>_. 0) (\<lambda>n p. n * p div 100) 8 (JStr ''9<5 2<75%'') = Some 6"
proof -
  let ?pc = "\<lambda>n p :: int. n * p div 100" and ?x = "''9<5 2<75%''"
  let ?cs = "[\<lparr>cb_condition = 9, cb_count = 5\<rparr>, \<lparr>cb_condition = 2, cb_count = 6\<rparr>]"
  have digits: "is_digit CHR ''9''" "is_digit CHR ''5''" "is_digit CHR ''2''" "is_digit CHR ''7''" "\<not> is_digit CHR ''<''" "\<not> is_digit CHR ''%''"
    by (simp_all add: is_digit_def char_digit_def)
  have split: "Split_char CHR '' '' ?x = [''9<5'', ''2<75%'']" by simp
  moreover have "FindStringSubmatch ''9<5'' = Some (''9'', ''5'')" "FindStringSubmatch ''2<75%'' = Some (''2'', ''75%'')"
    by (simp_all add: match_here_def match_right_def digits HasPrefix_def)
  moreover have "ParseInt ''9'' = Some 9" "ParseInt ''5'' = Some 5" "ParseInt ''2'' = Some 2" "ParseInt ''75'' = Some 75"
    by (simp_all add: ParseInt_def ParseUint_def char_digit_def)
  ultimately have "parse_combinations ?pc 8 (Split_char CHR '' '' ?x) = Some ?cs" "1 < length (Split_char CHR '' '' ?x)"
    by (simp_all add: parse_combination_def getPartValue_def HasPrefix_def)
  then have "CalculateMin (\<lambda>_. 0) ?pc 8 (JStr ?x) = Some (within 8 6)"
    using CalculateMin_rule [where n = 8 and fl = "\<lambda>_. 0" and pc = ?pc and x = ?x and cs = ?cs] by simp
  then show ?thesis by (simp add: within_def)
qed

end
