(* ===== verification/Queries.thy ===== *)
theory Queries
  imports Documents Shard_Times Min_Should
begin

text \<open>
  From the query of a search to the parts of the shards that are read: the translation of queries into
  those of the index library (\<open>Query\<close>, \<open>BoolQuery\<close> and \<open>RangeQuery\<close> of \<open>pkg/uquery/query\<close>), the time range
  that is derived from the query separately (\<open>pkg/uquery/timerange\<close>), and the beginning of \<open>Search\<close>.
  A query is its JSON, an object the list of its members in the order in which Go visits them. The
  other kinds of queries are an argument; the boost of a range, which only
  changes scores, is left out of the translation.
\<close>

section \<open>Translation\<close>

text \<open>The queries of the index library. A query that is nil is \<open>NilQuery\<close>.\<close>

datatype rquery =
    NilQuery
  | DateRange string int int bool bool
  | NumericRange string string string bool bool
  | BooleanQuery "rquery list" "rquery list" "rquery list" int
  | OtherQuery string json

text \<open>\<open>None\<close> for a location is nil.\<close>

record query_env =
  qe_ParseInLocation :: "string \<Rightarrow> zone option \<Rightarrow> string \<Rightarrow> int outcome"
  qe_positive :: "string \<Rightarrow> bool"
  qe_leaf :: "string \<Rightarrow> object \<Rightarrow> rquery outcome"
  qe_floor :: "string \<Rightarrow> int"
  qe_percent :: "int \<Rightarrow> int \<Rightarrow> int"
  qe_now :: int

record RangeQuery =
  rq_GT :: json
  rq_GTE :: json
  rq_LT :: json
  rq_LTE :: json
  rq_Format :: string
  rq_TimeZone :: string
  rq_Boost :: string

definition new_range :: RangeQuery where
  "new_range = \<lparr>rq_GT = JNull, rq_GTE = JNull, rq_LT = JNull, rq_LTE = JNull, rq_Format = [], rq_TimeZone = [], rq_Boost = ''0''\<rparr>"

subsection \<open>Ranges\<close>

definition float_or_zero :: "value_env \<Rightarrow> json \<Rightarrow> string" where
  "float_or_zero env v = (case ToFloat64 env v of None \<Rightarrow> ''0'' | Some n \<Rightarrow> n)"

definition numeric_member :: "value_env \<Rightarrow> string \<times> json \<Rightarrow> RangeQuery \<Rightarrow> RangeQuery" where
  "numeric_member env kv r =
     (let k = ToLower (fst kv); v = JNum (float_or_zero env (snd kv)) in
      if k = ''gt'' then r\<lparr>rq_GT := v\<rparr>
      else if k = ''gte'' then r\<lparr>rq_GTE := v\<rparr>
      else if k = ''lt'' then r\<lparr>rq_LT := v\<rparr>
      else if k = ''lte'' then r\<lparr>rq_LTE := v\<rparr>
      else if k = ''boost'' then r\<lparr>rq_Boost := float_or_zero env (snd kv)\<rparr>
      else r)"

text \<open>A bound counts only when it is positive; without an upper one it is the greatest 64-bit integer.\<close>

definition positive_bound :: "query_env \<Rightarrow> json \<Rightarrow> string option" where
  "positive_bound qe v = (case v of JNum n \<Rightarrow> if qe_positive qe n then Some n else None | _ \<Rightarrow> None)"

definition RangeQueryNumeric :: "value_env \<Rightarrow> query_env \<Rightarrow> string \<Rightarrow> object \<Rightarrow> rquery" where
  "RangeQueryNumeric env qe field query =
     (let r = fold (numeric_member env) query (new_range\<lparr>rq_Boost := ''-1''\<rparr>);
          (lo, loInclusive) = (case positive_bound qe (rq_GTE r) of Some n \<Rightarrow> (n, True)
                               | None \<Rightarrow> (case positive_bound qe (rq_GT r) of Some n \<Rightarrow> (n, False) | None \<Rightarrow> (''0'', False)));
          (hi, hiInclusive) = (case positive_bound qe (rq_LTE r) of Some n \<Rightarrow> (n, True)
                               | None \<Rightarrow> (case positive_bound qe (rq_LT r) of Some n \<Rightarrow> (n, False) | None \<Rightarrow> (''9223372036854775807'', False)))
      in NumericRange field lo hi loInclusive hiInclusive)"

definition time_member :: "value_env \<Rightarrow> string \<times> json \<Rightarrow> RangeQuery \<Rightarrow> RangeQuery" where
  "time_member env kv r =
     (let k = ToLower (fst kv); v = snd kv in
      if k = ''gt'' then r\<lparr>rq_GT := v\<rparr>
      else if k = ''gte'' then r\<lparr>rq_GTE := v\<rparr>
      else if k = ''lt'' then r\<lparr>rq_LT := v\<rparr>
      else if k = ''lte'' then r\<lparr>rq_LTE := v\<rparr>
      else if k = ''format'' then r\<lparr>rq_Format := ToString env v\<rparr>
      else if k = ''time_zone'' then r\<lparr>rq_TimeZone := ToString env v\<rparr>
      else if k = ''boost'' then r\<lparr>rq_Boost := float_or_zero env v\<rparr>
      else r)"

text \<open>A bound that is given replaces the one before it.\<close>

definition query_bound :: "value_env \<Rightarrow> query_env \<Rightarrow> string \<Rightarrow> zone option \<Rightarrow> json \<Rightarrow> int \<Rightarrow> int outcome" where
  "query_bound env qe format zone v before =
     (if v = JNull then Gives before
      else if format = ''epoch_millis'' then (case ToFloat64 env v of None \<Rightarrow> Fails | Some n \<Rightarrow> Gives (ve_int64 env n * 10 ^ 6))
      else qe_ParseInLocation qe format zone (ToString env v))"

fun bind_outcome :: "'a outcome \<Rightarrow> ('a \<Rightarrow> 'b outcome) \<Rightarrow> 'b outcome" where
  "bind_outcome (Gives x) f = f x"
| "bind_outcome Fails f = Fails"
| "bind_outcome Panics f = Panics"

definition q_RangeQueryTime :: "value_env \<Rightarrow> query_env \<Rightarrow> string \<Rightarrow> object \<Rightarrow> Properties \<Rightarrow> rquery outcome" where
  "q_RangeQueryTime env qe field query m =
     (let r = fold (time_member env) query (new_range\<lparr>rq_Boost := ''-1''\<rparr>);
          p = (case map_of m field of None \<Rightarrow> zero_property | Some p \<Rightarrow> p);
          format = (if rq_Format r \<noteq> [] then rq_Format r else if po_Format (pr_opts p) \<noteq> [] then po_Format (pr_opts p) else RFC3339);
          zone = (if rq_TimeZone r \<noteq> [] then ParseTimeZone env (rq_TimeZone r)
                  else if po_TimeZone (pr_opts p) \<noteq> [] then ParseTimeZone env (po_TimeZone (pr_opts p)) else Some UTC)
      in if rq_TimeZone r \<noteq> [] \<and> zone = None then Fails
         else
           bind_outcome (query_bound env qe format zone (rq_GT r) zero_time) (\<lambda>gt.
           bind_outcome (query_bound env qe format zone (rq_GTE r) gt) (\<lambda>lo.
           bind_outcome (query_bound env qe format zone (rq_LT r) zero_time) (\<lambda>lt.
           bind_outcome (query_bound env qe format zone (rq_LTE r) lt) (\<lambda>hi.
             Gives (DateRange field lo (if hi = zero_time then qe_now qe else hi) (rq_GTE r \<noteq> JNull) (rq_LTE r \<noteq> JNull)))))))"

definition q_RangeQuery :: "value_env \<Rightarrow> query_env \<Rightarrow> object \<Rightarrow> Properties \<Rightarrow> rquery outcome" where
  "q_RangeQuery env qe query m =
     (if 1 < length query then Fails
      else case query of
        [] \<Rightarrow> Gives NilQuery
      | (field, JObj v) # _ \<Rightarrow>
          (let t = ptype (case map_of m field of None \<Rightarrow> zero_property | Some p \<Rightarrow> p) in
           if t = ''numeric'' then Gives (RangeQueryNumeric env qe field v)
           else if t = ''date'' \<or> t = ''time'' then q_RangeQueryTime env qe field v m
           else Fails)
      | _ \<Rightarrow> Fails)"

subsection \<open>Boolean queries\<close>

record bool_query =
  bq_must :: "rquery list"
  bq_should :: "rquery list"
  bq_must_not :: "rquery list"
  bq_minimum :: json

definition finish_bool :: "query_env \<Rightarrow> bool_query \<Rightarrow> rquery outcome" where
  "finish_bool qe b =
     (if bq_minimum b = JNull then Gives (BooleanQuery (bq_must b) (bq_should b) (bq_must_not b) 0)
      else case CalculateMin (qe_floor qe) (qe_percent qe) (int (length (bq_should b))) (bq_minimum b) of
        None \<Rightarrow> Fails
      | Some n \<Rightarrow> Gives (BooleanQuery (bq_must b) (bq_should b) (bq_must_not b) n))"

text \<open>The queries under one member, added to the query so far; \<open>None\<close> for a member that is not known.\<close>

definition add_clause :: "string \<Rightarrow> rquery list \<Rightarrow> bool_query \<Rightarrow> bool_query option" where
  "add_clause k qs b =
     (if k = ''should'' then Some (b\<lparr>bq_should := bq_should b @ qs\<rparr>)
      else if k = ''must'' then Some (b\<lparr>bq_must := bq_must b @ qs\<rparr>)
      else if k = ''must_not'' then Some (b\<lparr>bq_must_not := bq_must_not b @ qs\<rparr>)
      else if k = ''filter'' then Some (b\<lparr>bq_must := bq_must b @ [BooleanQuery qs [] [] 0]\<rparr>)
      else None)"

function q_Query :: "value_env \<Rightarrow> query_env \<Rightarrow> Properties \<Rightarrow> json \<Rightarrow> rquery outcome"
  and q_members :: "value_env \<Rightarrow> query_env \<Rightarrow> Properties \<Rightarrow> object \<Rightarrow> rquery \<Rightarrow> string \<Rightarrow> rquery outcome"
  and q_BoolQuery :: "value_env \<Rightarrow> query_env \<Rightarrow> Properties \<Rightarrow> object \<Rightarrow> bool_query \<Rightarrow> rquery outcome"
  and q_list :: "value_env \<Rightarrow> query_env \<Rightarrow> Properties \<Rightarrow> json list \<Rightarrow> rquery list outcome" where
  "q_Query env qe m (JObj q) = q_members env qe m q NilQuery []"
| "q_Query env qe m JNull = qe_leaf qe ''match_all'' []"
| "q_Query env qe m (JBool b) = Fails"
| "q_Query env qe m (JNum n) = Fails"
| "q_Query env qe m (JStr s) = Fails"
| "q_Query env qe m (JArr vs) = Fails"
| "q_members env qe m [] subq cmd = Gives subq"
| "q_members env qe m ((key, JObj v) # q) subq cmd =
     (if subq \<noteq> NilQuery \<and> cmd \<noteq> [] then Fails
      else let k = ToLower key in
        bind_outcome
          (if k = ''bool'' then q_BoolQuery env qe m v \<lparr>bq_must = [], bq_should = [], bq_must_not = [], bq_minimum = JNull\<rparr>
           else if k = ''range'' then q_RangeQuery env qe v m
           else qe_leaf qe k v)
          (\<lambda>sq. q_members env qe m q sq k))"
| "q_members env qe m ((key, JNull) # q) subq cmd = Fails"
| "q_members env qe m ((key, JBool b) # q) subq cmd = Fails"
| "q_members env qe m ((key, JNum n) # q) subq cmd = Fails"
| "q_members env qe m ((key, JStr s) # q) subq cmd = Fails"
| "q_members env qe m ((key, JArr vs) # q) subq cmd = Fails"
| "q_BoolQuery env qe m [] b = finish_bool qe b"
| "q_BoolQuery env qe m ((key, v) # q) b =
     (let k = ToLower key in
      if k = ''minimum_should_match'' then q_BoolQuery env qe m q (b\<lparr>bq_minimum := v\<rparr>)
      else if add_clause k [] b = None then Fails
      else bind_outcome (case v of JObj kvs \<Rightarrow> q_list env qe m [v] | JArr vs \<Rightarrow> q_list env qe m vs | _ \<Rightarrow> Fails)
        (\<lambda>qs. case add_clause k qs b of None \<Rightarrow> Fails | Some b1 \<Rightarrow> q_BoolQuery env qe m q b1))"
| "q_list env qe m [] = Gives []"
| "q_list env qe m (v # vs) =
     (case v of
        JObj kvs \<Rightarrow> bind_outcome (q_Query env qe m v) (\<lambda>q. bind_outcome (q_list env qe m vs) (\<lambda>qs. Gives (q # qs)))
      | _ \<Rightarrow> Panics)"
  by pat_completeness auto
termination
  by (relation "measure (\<lambda>x. case x of
      Inl (Inl (_, _, _, v)) \<Rightarrow> 3 * size v
    | Inl (Inr (_, _, _, kvs, _)) \<Rightarrow> 3 * size_list (size_prod (\<lambda>_. 0) size) kvs + 2
    | Inr (Inl (_, _, _, kvs, _)) \<Rightarrow> 3 * size_list (size_prod (\<lambda>_. 0) size) kvs + 2
    | Inr (Inr (_, _, _, vs)) \<Rightarrow> 3 * size_list size vs + 1)") auto

end
