(* ===== verification/Time_Range.thy ===== *)
theory Time_Range
  imports Queries
begin

text \<open>
  The time range of a query (\<open>pkg/uquery/timerange\<close>) and the parts of the shards a search reads with it
  (the beginning of \<open>Search\<close> in \<open>pkg/core/search.go\<close>). The range is derived from the query itself and not from
  its translation; that no document is left out needs both to agree.
\<close>

section \<open>Time ranges\<close>

fun ToInt :: "value_env \<Rightarrow> json \<Rightarrow> int option" where
  "ToInt env (JNum n) = Some (ve_int64 env n)"
| "ToInt env (JStr s) = ParseInt s"
| "ToInt env (JBool b) = Some (if b then 1 else 0)"
| "ToInt env _ = None"

text \<open>The members of a range; \<open>None\<close> after one that is not known.\<close>

fun range_members :: "object \<Rightarrow> RangeQuery \<Rightarrow> RangeQuery option outcome" where
  "range_members [] r = Gives (Some r)"
| "range_members ((key, v) # q) r =
     (let k = ToLower key in
      if k = ''gt'' then range_members q (r\<lparr>rq_GT := v\<rparr>)
      else if k = ''gte'' then range_members q (r\<lparr>rq_GTE := v\<rparr>)
      else if k = ''lt'' then range_members q (r\<lparr>rq_LT := v\<rparr>)
      else if k = ''lte'' then range_members q (r\<lparr>rq_LTE := v\<rparr>)
      else if k = ''format'' then (case v of JStr s \<Rightarrow> range_members q (r\<lparr>rq_Format := s\<rparr>) | _ \<Rightarrow> Panics)
      else if k = ''time_zone'' then (case v of JStr s \<Rightarrow> range_members q (r\<lparr>rq_TimeZone := s\<rparr>) | _ \<Rightarrow> Panics)
      else if k = ''boost'' then (case v of JNum n \<Rightarrow> range_members q (r\<lparr>rq_Boost := n\<rparr>) | _ \<Rightarrow> Panics)
      else Gives None)"

text \<open>A bound, \<open>None\<close> when it cannot be read.\<close>

definition range_bound :: "value_env \<Rightarrow> query_env \<Rightarrow> string \<Rightarrow> zone \<Rightarrow> json \<Rightarrow> int \<Rightarrow> int option outcome" where
  "range_bound env qe format zone v before =
     (if v = JNull then Gives (Some before)
      else if format = ''epoch_millis'' then Gives (map_option (\<lambda>n. n * 10 ^ 6) (ToInt env v))
      else case v of
        JStr s \<Rightarrow> (case qe_ParseInLocation qe format (Some zone) s of Gives t \<Rightarrow> Gives (Some t) | Fails \<Rightarrow> Gives None | Panics \<Rightarrow> Panics)
      | _ \<Rightarrow> Panics)"

definition or_open :: "'a option outcome \<Rightarrow> ('a \<Rightarrow> (int \<times> int) outcome) \<Rightarrow> (int \<times> int) outcome" where
  "or_open x f = bind_outcome x (\<lambda>y. case y of None \<Rightarrow> Gives (0, 0) | Some z \<Rightarrow> f z)"

definition tr_RangeQueryTime :: "value_env \<Rightarrow> query_env \<Rightarrow> object \<Rightarrow> (int \<times> int) outcome" where
  "tr_RangeQueryTime env qe query =
     or_open (range_members query new_range) (\<lambda>r.
       let format = (if rq_Format r \<noteq> [] then rq_Format r else RFC3339);
           zone = (if rq_TimeZone r \<noteq> [] then ParseTimeZone env (rq_TimeZone r) else Some UTC)
       in case zone of
            None \<Rightarrow> Gives (0, 0)
          | Some z \<Rightarrow>
              or_open (range_bound env qe format z (rq_GT r) zero_time) (\<lambda>gt.
              or_open (range_bound env qe format z (rq_GTE r) gt) (\<lambda>lo.
              or_open (range_bound env qe format z (rq_LT r) zero_time) (\<lambda>lt.
              or_open (range_bound env qe format z (rq_LTE r) lt) (\<lambda>hi. Gives (wrap64 lo, wrap64 hi))))))"

fun tr_RangeQuery :: "value_env \<Rightarrow> query_env \<Rightarrow> object \<Rightarrow> (int \<times> int) outcome" where
  "tr_RangeQuery env qe [] = Gives (0, 0)"
| "tr_RangeQuery env qe ((field, v) # q) =
     (if field = TimeFieldName then (case v of JObj r \<Rightarrow> tr_RangeQueryTime env qe r | _ \<Rightarrow> Gives (0, 0))
      else tr_RangeQuery env qe q)"

function tr_Query :: "value_env \<Rightarrow> query_env \<Rightarrow> json \<Rightarrow> (int \<times> int) outcome"
  and tr_members :: "value_env \<Rightarrow> query_env \<Rightarrow> object \<Rightarrow> (int \<times> int) outcome"
  and tr_BoolQuery :: "value_env \<Rightarrow> query_env \<Rightarrow> object \<Rightarrow> (int \<times> int) outcome"
  and tr_first :: "value_env \<Rightarrow> query_env \<Rightarrow> json list \<Rightarrow> (int \<times> int) outcome" where
  "tr_Query env qe (JObj q) = tr_members env qe q"
| "tr_Query env qe JNull = Gives (0, 0)"
| "tr_Query env qe (JBool b) = Gives (0, 0)"
| "tr_Query env qe (JNum n) = Gives (0, 0)"
| "tr_Query env qe (JStr s) = Gives (0, 0)"
| "tr_Query env qe (JArr vs) = Gives (0, 0)"
| "tr_members env qe [] = Gives (0, 0)"
| "tr_members env qe ((key, v) # q) =
     (case v of
        JObj kvs \<Rightarrow>
          if ToLower key = ''bool'' then tr_BoolQuery env qe kvs
          else if ToLower key = ''range'' then tr_RangeQuery env qe kvs
          else tr_members env qe q
      | _ \<Rightarrow> Gives (0, 0))"
| "tr_BoolQuery env qe [] = Gives (0, 0)"
| "tr_BoolQuery env qe ((key, v) # q) =
     (if ToLower key \<in> {''should'', ''must'', ''filter''} then
        (case v of
           JObj kvs \<Rightarrow> tr_Query env qe v
         | JArr vs \<Rightarrow> bind_outcome (tr_first env qe vs) (\<lambda>(lo, hi). if 0 < lo \<or> 0 < hi then Gives (lo, hi) else tr_BoolQuery env qe q)
         | _ \<Rightarrow> tr_BoolQuery env qe q)
      else tr_BoolQuery env qe q)"
| "tr_first env qe [] = Gives (0, 0)"
| "tr_first env qe (v # vs) =
     (case v of
        JObj kvs \<Rightarrow> bind_outcome (tr_Query env qe v) (\<lambda>(lo, hi). if 0 < lo \<or> 0 < hi then Gives (lo, hi) else tr_first env qe vs)
      | _ \<Rightarrow> Panics)"
  by pat_completeness auto
termination
  by (relation "measure (\<lambda>x. case x of
      Inl (Inl (_, _, v)) \<Rightarrow> 3 * size v
    | Inl (Inr (_, _, kvs)) \<Rightarrow> 3 * size_list (size_prod (\<lambda>_. 0) size) kvs + 2
    | Inr (Inl (_, _, kvs)) \<Rightarrow> 3 * size_list (size_prod (\<lambda>_. 0) size) kvs + 2
    | Inr (Inr (_, _, vs)) \<Rightarrow> 3 * size_list size vs + 1)") auto

text \<open>The beginning of \<open>Search\<close>: the translated query and the parts it is run on.\<close>

definition Search :: "value_env \<Rightarrow> query_env \<Rightarrow> (nat \<Rightarrow> nat \<Rightarrow> bool) \<Rightarrow> Properties \<Rightarrow> (nat \<times> shard_stats) list \<Rightarrow> json \<Rightarrow> (rquery \<times> (nat \<times> nat) list) outcome" where
  "Search env qe opens m shards query =
     bind_outcome (q_Query env qe m query) (\<lambda>q.
     bind_outcome (tr_Query env qe query) (\<lambda>(timeMin, timeMax).
       case index_GetReaders opens timeMin timeMax shards of None \<Rightarrow> Fails | Some rs \<Rightarrow> Gives (q, rs)))"

section \<open>Which queries agree with their time range\<close>

text \<open>
  A range over the time field that both readings take in the same way: the format and the time zone
  are strings, the boost a number, and a bound is a number of milliseconds or a string.
\<close>

definition member_typed :: "string \<times> json \<Rightarrow> bool" where
  "member_typed kv \<longleftrightarrow>
     (ToLower (fst kv) \<in> {''format'', ''time_zone''} \<longrightarrow> (case snd kv of JStr _ \<Rightarrow> True | _ \<Rightarrow> False)) \<and>
     (ToLower (fst kv) = ''boost'' \<longrightarrow> (case snd kv of JNum _ \<Rightarrow> True | _ \<Rightarrow> False))"

definition bound_typed :: "bool \<Rightarrow> json \<Rightarrow> bool" where
  "bound_typed millis v \<longleftrightarrow> (case v of JNum _ \<Rightarrow> millis | JStr _ \<Rightarrow> \<not> millis | JNull \<Rightarrow> True | _ \<Rightarrow> False)"

definition range_typed :: "object \<Rightarrow> bool" where
  "range_typed q \<longleftrightarrow> list_all member_typed q \<and>
     (case range_members q new_range of
        Gives (Some r) \<Rightarrow> list_all (bound_typed (rq_Format r = ''epoch_millis'')) [rq_GT r, rq_GTE r, rq_LT r, rq_LTE r]
      | _ \<Rightarrow> True)"

text \<open>No clause is optional, and every range over the time field is of that kind.\<close>

fun strict_query :: "json \<Rightarrow> bool" where
  "strict_query (JObj q) \<longleftrightarrow>
     list_all (\<lambda>(k, v). ToLower k \<noteq> ''should'' \<and> (k = TimeFieldName \<longrightarrow> (case v of JObj r \<Rightarrow> range_typed r | _ \<Rightarrow> True)) \<and> strict_query v) q"
| "strict_query (JArr vs) \<longleftrightarrow> list_all strict_query vs"
| "strict_query _ \<longleftrightarrow> True"

text \<open>The time field is a date in UTC with the usual format.\<close>

definition utc_times :: "Properties \<Rightarrow> bool" where
  "utc_times m \<longleftrightarrow>
     (case map_of m TimeFieldName of
        None \<Rightarrow> False
      | Some p \<Rightarrow> ptype p \<in> {''date'', ''time''} \<and> po_Format (pr_opts p) \<in> {[], RFC3339} \<and> po_TimeZone (pr_opts p) = [])"

end
