(* ===== verification/Search_Times.thy ===== *)
theory Search_Times
  imports Time_Range
begin

text \<open>
  A search reads every part of a shard that holds a document that matches its query, when no clause of the
  query is optional and the time field is an ordinary date; and what happens otherwise.
\<close>

section \<open>The index library\<close>

definition fits64 :: "int \<Rightarrow> bool" where
  "fits64 n \<longleftrightarrow> - (2 ^ 63) \<le> n \<and> n < 2 ^ 63"

text \<open>
  What is relied on: a document that matches a boolean query matches every clause under \<open>must\<close>, and one
  that matches a range over the time field has a time in it. The zero time is no bound, and a bound that is no
  64-bit number of nanoseconds is refused.
\<close>

locale index_library =
  fixes matches :: "rquery \<Rightarrow> 'd \<Rightarrow> bool" and time_of :: "'d \<Rightarrow> int"
  assumes must: "matches (BooleanQuery ms ss ns n) d \<Longrightarrow> q \<in> set ms \<Longrightarrow> matches q d"
    and date: "matches (DateRange TimeFieldName lo hi a b) d \<Longrightarrow>
      (lo = zero_time \<or> fits64 lo \<and> lo \<le> time_of d) \<and> (hi = zero_time \<or> fits64 hi \<and> time_of d \<le> hi)"

section \<open>Both readings of a range\<close>

definition same_range :: "RangeQuery \<Rightarrow> RangeQuery \<Rightarrow> bool" where
  "same_range r s \<longleftrightarrow> rq_GT r = rq_GT s \<and> rq_GTE r = rq_GTE s \<and> rq_LT r = rq_LT s \<and> rq_LTE r = rq_LTE s \<and>
     rq_Format r = rq_Format s \<and> rq_TimeZone r = rq_TimeZone s"

lemma same_range_update:
  assumes "same_range r s"
  shows "same_range (r\<lparr>rq_GT := v\<rparr>) (s\<lparr>rq_GT := v\<rparr>)" "same_range (r\<lparr>rq_GTE := v\<rparr>) (s\<lparr>rq_GTE := v\<rparr>)"
    "same_range (r\<lparr>rq_LT := v\<rparr>) (s\<lparr>rq_LT := v\<rparr>)" "same_range (r\<lparr>rq_LTE := v\<rparr>) (s\<lparr>rq_LTE := v\<rparr>)"
    "same_range (r\<lparr>rq_Format := x\<rparr>) (s\<lparr>rq_Format := x\<rparr>)" "same_range (r\<lparr>rq_TimeZone := x\<rparr>) (s\<lparr>rq_TimeZone := x\<rparr>)"
    "same_range (r\<lparr>rq_Boost := x\<rparr>) (s\<lparr>rq_Boost := y\<rparr>)"
  using assms by (simp_all add: same_range_def)

definition agree :: "RangeQuery option outcome \<Rightarrow> RangeQuery \<Rightarrow> bool" where
  "agree x s \<longleftrightarrow> x = Gives None \<or> (\<exists>r. x = Gives (Some r) \<and> same_range r s)"

lemma range_members_agree:
  assumes "list_all member_typed q" and "same_range r s"
  shows "agree (range_members q r) (fold (time_member env) q s)"
  using assms
proof (induction q arbitrary: r s)
  case (Cons kv q)
  obtain k v where kv: "kv = (k, v)" by (cases kv)
  have t: "member_typed (k, v)" "list_all member_typed q" using Cons.prems(1) by (simp_all add: kv)
  note step = Cons.IH [OF t(2)] same_range_update [OF Cons.prems(2)]
  consider "ToLower k \<in> {''gt'', ''gte'', ''lt'', ''lte''}" | "ToLower k \<in> {''format'', ''time_zone''}" | "ToLower k = ''boost''"
    | "ToLower k \<notin> {''gt'', ''gte'', ''lt'', ''lte'', ''format'', ''time_zone'', ''boost''}" by blast
  then show ?case
  proof cases
    case 1
    then show ?thesis unfolding kv by (elim insertE emptyE; simp add: time_member_def [of env "(k, w)" s for w] Let_def step)
  next
    case 2
    then obtain x where "v = JStr x" using t(1) by (auto simp: member_typed_def split: json.splits)
    then show ?thesis unfolding kv using 2 by (elim insertE emptyE; simp add: time_member_def [of env "(k, w)" s for w] Let_def step)
  next
    case 3
    then obtain x where "v = JNum x" using t(1) by (auto simp: member_typed_def split: json.splits)
    then show ?thesis unfolding kv using 3 by (simp add: time_member_def [of env "(k, w)" s for w] Let_def step)
  next
    case 4
    then show ?thesis unfolding kv by (simp add: Let_def agree_def)
  qed
qed (simp add: agree_def)

lemma bounds_agree:
  assumes "bound_typed (format = ''epoch_millis'') v" and "query_bound env qe format (Some z) v before = Gives t"
  shows "range_bound env qe format z v before = Gives (Some t)"
  using assms by (cases v) (auto simp: bound_typed_def query_bound_def range_bound_def split: if_splits)

lemma bind_outcome_Gives: "bind_outcome x f = Gives y \<longleftrightarrow> (\<exists>z. x = Gives z \<and> f z = Gives y)"
  by (cases x) auto

lemma or_open_simps [simp]: "or_open (Gives (Some x)) f = f x" "or_open (Gives None) f = Gives (0, 0)"
  by (simp_all add: or_open_def)

lemma wrap64_fits: "fits64 n \<Longrightarrow> wrap64 n = n"
  by (simp add: fits64_def wrap64_def)

lemma wrap64_zero_time: "wrap64 zero_time < 0"
  by (simp add: wrap64_def zero_time_def)

lemma in_range_open [simp]: "in_range 0 0 t"
  by (simp add: in_range_def)

section \<open>The time range covers what matches\<close>

lemma q_rest:
  assumes "q_members env qe m rest q k = Gives q'" and "q \<noteq> NilQuery" and "k \<noteq> []"
  shows "q' = q"
proof (cases rest)
  case (Cons kv kvs)
  then show ?thesis using assms by (cases kv; cases "snd kv") auto
qed (use assms in simp)

context index_library
begin

definition covers :: "rquery \<Rightarrow> (int \<times> int) outcome \<Rightarrow> bool" where
  "covers q x \<longleftrightarrow> (\<exists>lo hi. x = Gives (lo, hi) \<and> (\<forall>d. matches q d \<longrightarrow> in_range lo hi (time_of d)))"

lemma covers_open [simp]: "covers q (Gives (0, 0))"
  by (simp add: covers_def)

lemma range_time_covers:
  assumes "q_RangeQueryTime env qe TimeFieldName query m = Gives q" and "range_typed query" and "utc_times m"
  shows "covers q (tr_RangeQueryTime env qe query)"
proof -
  let ?r = "fold (time_member env) query (new_range\<lparr>rq_Boost := ''-1''\<rparr>)"
  obtain p where p: "map_of m TimeFieldName = Some p" "po_Format (pr_opts p) \<in> {[], RFC3339}" "po_TimeZone (pr_opts p) = []"
    using assms(3) by (auto simp: utc_times_def split: option.splits)
  have "same_range new_range (new_range\<lparr>rq_Boost := ''-1''\<rparr>)" by (simp add: same_range_def)
  then have "agree (range_members query new_range) ?r" using assms(2) by (intro range_members_agree) (simp_all add: range_typed_def)
  then consider "range_members query new_range = Gives None" | r where "range_members query new_range = Gives (Some r)" "same_range r ?r"
    unfolding agree_def by blast
  then show ?thesis
  proof cases
    case 1
    then show ?thesis by (simp add: tr_RangeQueryTime_def)
  next
    case (2 r)
    let ?format = "if rq_Format r \<noteq> [] then rq_Format r else RFC3339"
    let ?zone = "if rq_TimeZone r \<noteq> [] then ParseTimeZone env (rq_TimeZone r) else Some UTC"
    have ep: "?format = ''epoch_millis'' \<longleftrightarrow> rq_Format r = ''epoch_millis''" by (simp add: RFC3339_def)
    have ty: "bound_typed (?format = ''epoch_millis'') (rq_GT r)" "bound_typed (?format = ''epoch_millis'') (rq_GTE r)"
      "bound_typed (?format = ''epoch_millis'') (rq_LT r)" "bound_typed (?format = ''epoch_millis'') (rq_LTE r)"
      unfolding ep using assms(2) 2(1) by (simp_all add: range_typed_def)
    have eqs: "rq_GT ?r = rq_GT r" "rq_GTE ?r = rq_GTE r" "rq_LT ?r = rq_LT r" "rq_LTE ?r = rq_LTE r" "rq_Format ?r = rq_Format r" "rq_TimeZone ?r = rq_TimeZone r"
      using 2(2) by (simp_all add: same_range_def)
    have fm: "(if rq_Format r \<noteq> [] then rq_Format r else if po_Format (pr_opts p) \<noteq> [] then po_Format (pr_opts p) else RFC3339) = ?format" using p(2) by auto
    have zn: "(if rq_TimeZone r \<noteq> [] then ParseTimeZone env (rq_TimeZone r) else if po_TimeZone (pr_opts p) \<noteq> [] then ParseTimeZone env (po_TimeZone (pr_opts p)) else Some UTC) = ?zone"
      using p(3) by simp
    obtain z where z: "?zone = Some z" using assms(1) unfolding q_RangeQueryTime_def Let_def eqs p(1) option.case fm zn by (auto split: if_splits)
    obtain gt lo lt hi where b: "query_bound env qe ?format (Some z) (rq_GT r) zero_time = Gives gt" "query_bound env qe ?format (Some z) (rq_GTE r) gt = Gives lo"
        "query_bound env qe ?format (Some z) (rq_LT r) zero_time = Gives lt" "query_bound env qe ?format (Some z) (rq_LTE r) lt = Gives hi"
      and q: "\<exists>a b. q = DateRange TimeFieldName lo (if hi = zero_time then qe_now qe else hi) a b"
      using assms(1) unfolding q_RangeQueryTime_def Let_def eqs p(1) option.case fm zn z by (auto simp: bind_outcome_Gives split: if_splits)
    have "tr_RangeQueryTime env qe query = Gives (wrap64 lo, wrap64 hi)"
      unfolding tr_RangeQueryTime_def 2(1) Let_def or_open_simps z option.case
      by (simp only: bounds_agree [OF ty(1) b(1)] bounds_agree [OF ty(2) b(2)] bounds_agree [OF ty(3) b(3)] bounds_agree [OF ty(4) b(4)] or_open_simps)
    moreover have "in_range (wrap64 lo) (wrap64 hi) (time_of d)" if "matches q d" for d
      using q that date [of lo "if hi = zero_time then qe_now qe else hi" _ _ d] wrap64_zero_time
      by (cases "lo = zero_time"; cases "hi = zero_time") (auto simp: in_range_def wrap64_fits)
    ultimately show ?thesis by (simp add: covers_def)
  qed
qed

lemma range_covers:
  assumes "q_RangeQuery env qe v m = Gives q" and "strict_query (JObj v)" and "utc_times m" and "q_members env qe m rest q k = Gives q'" and "k \<noteq> []"
  shows "covers q' (tr_RangeQuery env qe v)"
proof (cases v)
  case (Cons kv rest')
  obtain field w where v: "v = [(field, JObj w)]"
    using assms(1) Cons by (cases kv; cases "snd kv") (auto simp: q_RangeQuery_def split: if_splits)
  show ?thesis
  proof (cases "field = TimeFieldName")
    case True
    have t: "q_RangeQueryTime env qe TimeFieldName w m = Gives q"
      using assms(1,3) by (auto simp: v True q_RangeQuery_def utc_times_def Let_def split: option.splits)
    then have "q \<noteq> NilQuery" by (auto simp: q_RangeQueryTime_def Let_def bind_outcome_Gives split: if_splits)
    then have "q' = q" using q_rest [OF assms(4) _ assms(5)] by simp
    moreover have "range_typed w" using assms(2) by (simp add: v True)
    ultimately show ?thesis using range_time_covers [OF t _ assms(3)] by (simp add: v True)
  qed (simp add: v)
qed simp

lemma first_covers:
  assumes "list_all2 (\<lambda>v q. (\<exists>kvs. v = JObj kvs) \<and> covers q (tr_Query env qe v)) vs qs"
  shows "\<exists>lo hi. tr_first env qe vs = Gives (lo, hi) \<and> (\<forall>d. (\<forall>q \<in> set qs. matches q d) \<longrightarrow> in_range lo hi (time_of d))"
  using assms
proof (induction rule: list_all2_induct)
  case (Cons v vs q qs)
  obtain lo hi where t: "tr_Query env qe v = Gives (lo, hi)" "\<forall>d. matches q d \<longrightarrow> in_range lo hi (time_of d)" using Cons(1) by (auto simp: covers_def)
  then show ?case using Cons(1,3) by (cases "0 < lo \<or> 0 < hi") auto
qed simp

lemma clause_covers:
  assumes "list_all2 (\<lambda>v q. (\<exists>kvs. v = JObj kvs) \<and> covers q (tr_Query env qe v)) (case v of JArr vs \<Rightarrow> vs | _ \<Rightarrow> [v]) qs"
    and "\<And>d. matches r d \<Longrightarrow> \<forall>q \<in> set qs. matches q d" and "covers r (tr_BoolQuery env qe rest)" and "ToLower key \<in> {''must'', ''filter''}"
  shows "covers r (tr_BoolQuery env qe ((key, v) # rest))"
proof (cases v)
  case (JArr vs)
  then obtain lo hi where t: "tr_first env qe vs = Gives (lo, hi)" "\<forall>d. (\<forall>q \<in> set qs. matches q d) \<longrightarrow> in_range lo hi (time_of d)"
    using first_covers [of env qe vs qs] assms(1) by auto
  show ?thesis
  proof (cases "0 < lo \<or> 0 < hi")
    case True
    then have "tr_BoolQuery env qe ((key, v) # rest) = Gives (lo, hi)" using assms(4) t(1) by (auto simp: JArr)
    then show ?thesis using t(2) assms(2) by (auto simp: covers_def)
  next
    case False
    then have "tr_BoolQuery env qe ((key, v) # rest) = tr_BoolQuery env qe rest" using assms(4) t(1) by (auto simp: JArr)
    then show ?thesis using assms(3) by simp
  qed
next
  case (JObj kvs)
  then obtain q where "qs = [q]" "covers q (tr_Query env qe v)" using assms(1) by (auto simp: list_all2_Cons1)
  moreover have "tr_BoolQuery env qe ((key, v) # rest) = tr_Query env qe v" using assms(4) by (auto simp: JObj)
  ultimately show ?thesis using assms(2) by (fastforce simp: covers_def)
qed (use assms(1) in \<open>auto simp: list_all2_Cons1\<close>)

lemma bool_step:
  assumes "add_clause k qs b = Some b1" and "k \<noteq> ''should''" and "q = BooleanQuery ms ss ns n" and "set (bq_must b1) \<subseteq> set ms"
  shows "set (bq_must b) \<subseteq> set ms" and "k \<in> {''must'', ''filter''} \<Longrightarrow> matches q d \<Longrightarrow> \<forall>x \<in> set qs. matches x d" and "k \<in> {''must'', ''must_not'', ''filter''}"
proof -
  show k: "k \<in> {''must'', ''must_not'', ''filter''}" using assms(1,2) by (auto simp: add_clause_def split: if_splits)
  show "set (bq_must b) \<subseteq> set ms" using assms(1,4) by (auto simp: add_clause_def split: if_splits)
  assume a: "k \<in> {''must'', ''filter''}" "matches q d"
  show "\<forall>x \<in> set qs. matches x d"
  proof (cases "k = ''must''")
    case True
    then show ?thesis using a(2) assms by (auto simp: add_clause_def intro: must)
  next
    case False
    then have "BooleanQuery qs [] [] 0 \<in> set ms" using a(1) assms(1,4) by (auto simp: add_clause_def)
    then have "matches (BooleanQuery qs [] [] 0) d" using a(2) assms(3) must by blast
    then show ?thesis using must by blast
  qed
qed

lemma query_covers:
  "q_Query env qe m v = Gives q \<Longrightarrow> strict_query v \<Longrightarrow> utc_times m \<Longrightarrow> covers q (tr_Query env qe v)"
  "q_members env qe m kvs subq cmd = Gives q \<Longrightarrow> strict_query (JObj kvs) \<Longrightarrow> utc_times m \<Longrightarrow> covers q (tr_members env qe kvs)"
  "q_BoolQuery env qe m kvs b = Gives q \<Longrightarrow> strict_query (JObj kvs) \<Longrightarrow> utc_times m \<Longrightarrow>
     (\<exists>ms ss ns n. q = BooleanQuery ms ss ns n \<and> set (bq_must b) \<subseteq> set ms) \<and> covers q (tr_BoolQuery env qe kvs)"
  "q_list env qe m vs = Gives qs \<Longrightarrow> list_all strict_query vs \<Longrightarrow> utc_times m \<Longrightarrow>
     list_all2 (\<lambda>v q. (\<exists>kvs. v = JObj kvs) \<and> covers q (tr_Query env qe v)) vs qs"
proof (induction env qe m v and env qe m kvs subq cmd and env qe m kvs b and env qe m vs arbitrary: q and q and q and qs
    rule: q_Query_q_members_q_BoolQuery_q_list.induct)
  case (8 env qe m key v rest subq cmd)
  let ?k = "ToLower key" and ?b = "\<lparr>bq_must = [], bq_should = [], bq_must_not = [], bq_minimum = JNull\<rparr>"
  have g: "\<not> (subq \<noteq> NilQuery \<and> cmd \<noteq> [])" using 8(3) by (cases "subq \<noteq> NilQuery \<and> cmd \<noteq> []") simp_all
  have sv: "strict_query (JObj v)" "strict_query (JObj rest)" using 8(4) by simp_all
  obtain sq where sq: "(if ?k = ''bool'' then q_BoolQuery env qe m v ?b else if ?k = ''range'' then q_RangeQuery env qe v m else qe_leaf qe ?k v) = Gives sq"
      "q_members env qe m rest sq ?k = Gives q"
    using 8(3) g by (auto simp: Let_def bind_outcome_Gives split del: if_split)
  show ?case
  proof (cases "?k = ''bool''")
    case True
    then have c: "(\<exists>ms ss ns n. sq = BooleanQuery ms ss ns n) \<and> covers sq (tr_BoolQuery env qe v)" using 8(1) [OF g refl True _ sv(1) 8(5)] sq(1) by auto
    then have "q = sq" using q_rest [OF sq(2)] True by auto
    then show ?thesis using c True by simp
  next
    case nb: False
    show ?thesis
    proof (cases "?k = ''range''")
      case True
      then show ?thesis using range_covers [OF _ sv(1) 8(5) sq(2)] sq(1) by simp
    next
      case False
      then show ?thesis using 8(2) [OF g refl sq(2) sv(2) 8(5)] nb by simp
    qed
  qed
next
  case (15 env qe m key v rest b)
  let ?k = "ToLower key" and ?vs = "case v of JArr vs \<Rightarrow> vs | _ \<Rightarrow> [v]"
  have sv: "?k \<noteq> ''should''" "strict_query v" "strict_query (JObj rest)" using 15(6) by simp_all
  show ?case
  proof (cases "?k = ''minimum_should_match''")
    case True
    then show ?thesis using 15(1) [OF refl True _ sv(3) 15(7)] 15(5) by (simp add: Let_def)
  next
    case km: False
    have a: "add_clause ?k [] b \<noteq> None" using 15(5) km by (cases "add_clause ?k [] b = None") (simp_all add: Let_def)
    obtain qs b1 where l: "(case v of JObj kvs \<Rightarrow> q_list env qe m [v] | JArr vs \<Rightarrow> q_list env qe m vs | _ \<Rightarrow> Fails) = Gives qs"
        and b1: "add_clause ?k qs b = Some b1" and r: "q_BoolQuery env qe m rest b1 = Gives q"
      using 15(5) km a by (auto simp: Let_def bind_outcome_Gives split: option.splits)
    have cl: "list_all2 (\<lambda>v q. (\<exists>kvs. v = JObj kvs) \<and> covers q (tr_Query env qe v)) ?vs qs"
    proof (cases v)
      case (JArr vs)
      then show ?thesis using 15(2) [OF refl km a JArr _ _ 15(7), of qs] l sv(2) by simp
    next
      case (JObj kvs)
      then show ?thesis using 15(3) [OF refl km a JObj _ _ 15(7), of qs] l sv(2) by simp
    qed (use l in simp_all)
    obtain ms ss ns n where q: "q = BooleanQuery ms ss ns n" "set (bq_must b1) \<subseteq> set ms" and cr: "covers q (tr_BoolQuery env qe rest)"
      using 15(4) [OF refl km a b1 r sv(3) 15(7)] by blast
    note st = bool_step [OF b1 sv(1) q]
    have "covers q (tr_BoolQuery env qe ((key, v) # rest))"
    proof (cases "?k \<in> {''must'', ''filter''}")
      case True
      show ?thesis by (rule clause_covers [OF cl st(2) [OF True] cr True])
    next
      case False
      then show ?thesis using cr sv(1) by simp
    qed
    then show ?thesis using st(1) q(1) by blast
  qed
next
  case (17 env qe m v vs)
  then obtain kvs q qs' where "v = JObj kvs" "q_Query env qe m v = Gives q" "q_list env qe m vs = Gives qs'" "qs = q # qs'"
    by (cases v) (auto simp: bind_outcome_Gives)
  then show ?case using 17(1,2,4,5) by auto
qed (auto simp: finish_bool_def split: option.splits if_splits)

end

section \<open>A reference library\<close>

text \<open>A document is its time and a tag; the queries that are not ranges or boolean look at the tag.\<close>

fun ref_matches :: "(string \<Rightarrow> json \<Rightarrow> nat \<Rightarrow> bool) \<Rightarrow> rquery \<Rightarrow> int \<times> nat \<Rightarrow> bool" where
  "ref_matches leaf NilQuery d \<longleftrightarrow> False"
| "ref_matches leaf (DateRange field lo hi a b) d \<longleftrightarrow> field = TimeFieldName \<and>
     (lo = zero_time \<or> fits64 lo \<and> (lo < fst d \<or> a \<and> lo = fst d)) \<and> (hi = zero_time \<or> fits64 hi \<and> (fst d < hi \<or> b \<and> fst d = hi))"
| "ref_matches leaf (NumericRange field lo hi a b) d \<longleftrightarrow> False"
| "ref_matches leaf (BooleanQuery ms ss ns n) d \<longleftrightarrow>
     list_all (\<lambda>q. ref_matches leaf q d) ms \<and> \<not> list_ex (\<lambda>q. ref_matches leaf q d) ns \<and>
     (ss = [] \<or> max n (if ms = [] then 1 else 0) \<le> int (length (filter (\<lambda>q. ref_matches leaf q d) ss)))"
| "ref_matches leaf (OtherQuery k v) d \<longleftrightarrow> leaf k v (snd d)"

interpretation ref_index: index_library "ref_matches leaf" fst
  for leaf
  by unfold_locales (auto simp: list_all_iff)

section \<open>Searches\<close>

lemma index_readers:
  assumes "\<forall>j i. opens j i" and "(j, s) \<in> set shards" and "shard_GetReaders (opens j) lo hi s = Some is" and "i \<in> set is"
  shows "\<exists>rs. index_GetReaders opens lo hi shards = Some rs \<and> (j, i) \<in> set rs"
proof -
  have some: "\<exists>is. shard_GetReaders (opens k) lo hi x = Some is" for k x using assms(1) by (simp add: shard_GetReaders_def Let_def list_all_iff)
  then have "\<exists>rs. index_GetReaders opens lo hi xs = Some rs" for xs
    by (induction xs) (use some in \<open>auto split: option.splits\<close>)
  then show ?thesis using assms(2-4) some
    by (induction shards) (fastforce split: option.splits)+
qed

text \<open>
  C15. A search reads every part of every shard that holds a document which matches its query, in every index
  library that treats boolean queries and ranges as documented, when no clause of the query is
  optional (\<open>should\<close>), ranges over the time field are well typed, the time field is an ordinary date, and documents arrived in the order of
  their times: the time range that is derived from the query never leaves out a match.
\<close>
theorem search_reads_matches:
  assumes "index_library matches time_of" and "q_Query env qe m query = Gives q" and "strict_query query" and "utc_times m"
    and "\<forall>j i. opens j i" and "(j, hs_stats h) \<in> set shards"
    and "in_order 0 first es" and "0 < first" and "h = history (es @ [Recorded ws])" and "i < length (hs_kept h)"
    and "time_of d \<in> set (hs_kept h ! i)" and "matches q d"
  shows "\<exists>rs. Search env qe opens m shards query = Gives (q, rs) \<and> (j, i) \<in> set rs"
proof -
  obtain lo hi where t: "tr_Query env qe query = Gives (lo, hi)" "in_range lo hi (time_of d)"
    using index_library.query_covers(1) [OF assms(1-4)] assms(12) unfolding index_library.covers_def [OF assms(1)] by blast
  have "\<forall>i. opens j i" using assms(5) by blast
  from readers_complete [OF assms(7-11) t(2) this]
  obtain ps where "shard_GetReaders (opens j) lo hi (hs_stats h) = Some ps" "i \<in> set ps" by blast
  from index_readers [OF assms(5,6) this] t(1) assms(2) show ?thesis by (auto simp: Search_def)
qed

text \<open>An example: the texts of times are seconds, the only zone is a minute ahead, the tag of a document is what \<open>term\<close> queries look for.\<close>

definition ex_int64 :: "string \<Rightarrow> int" where
  "ex_int64 n = (case ParseInt n of None \<Rightarrow> 0 | Some i \<Rightarrow> i)"

definition ex_query_values :: value_env where
  "ex_query_values = \<lparr>ve_ParseFloat = (\<lambda>_. None), ve_FormatFloat = (\<lambda>n. n), ve_isZero = (\<lambda>n. n = ''0''), ve_Sprint = (\<lambda>_. []),
     ve_int64 = ex_int64, ve_LoadLocation = (\<lambda>z. z = ''Zone''), ve_ParseInLocation = (\<lambda>_ _ _. None)\<rparr>"

definition ex_offset :: "zone option \<Rightarrow> int" where
  "ex_offset z = (case z of Some (Location _) \<Rightarrow> 60 | _ \<Rightarrow> 0)"

definition ex_seconds :: "string \<Rightarrow> zone option \<Rightarrow> string \<Rightarrow> int outcome" where
  "ex_seconds format z s =
     (case map_of [(''5'', 5), (''15'', 15), (''65'', 65)] s of None \<Rightarrow> Fails | Some n \<Rightarrow> Gives ((n - ex_offset z) * 10 ^ 9))"

definition ex_positive :: "string \<Rightarrow> bool" where
  "ex_positive n \<longleftrightarrow> n \<noteq> ''0'' \<and> take 1 n \<noteq> ''-''"

definition ex_query_env :: query_env where
  "ex_query_env = \<lparr>qe_ParseInLocation = ex_seconds, qe_positive = ex_positive,
     qe_leaf = (\<lambda>k v. Gives (OtherQuery k (JObj v))), qe_floor = (\<lambda>_. 1), qe_percent = (\<lambda>n p. n * p div 100), qe_now = 10 ^ 12\<rparr>"

definition ex_leaf :: "string \<Rightarrow> json \<Rightarrow> nat \<Rightarrow> bool" where
  "ex_leaf k v x \<longleftrightarrow> k = ''term'' \<and> v = JObj [(''tag'', JNum (FormatUint x))]"

definition ex_times :: "string \<Rightarrow> Properties" where
  "ex_times zone = [(TimeFieldName, Property ((pr_opts (NewProperty ''date''))\<lparr>po_TimeZone := zone\<rparr>) (Some [])), (''x'', NewProperty ''numeric'')]"

definition ex_range :: "string \<Rightarrow> json \<Rightarrow> json" where
  "ex_range field v = JObj [(''range'', JObj [(field, JObj [(''gte'', v)])])]"

definition ex_term :: json where
  "ex_term = JObj [(''term'', JObj [(''tag'', JNum ''1'')])]"

definition ex_bool :: "string \<Rightarrow> json" where
  "ex_bool clause = JObj [(''bool'', JObj [(clause, JArr [ex_range TimeFieldName (JStr ''15''), ex_term])])]"

text \<open>A document at ten seconds in the first part, one at twenty in the second.\<close>

definition ex_history :: shard_history where
  "ex_history = history ([Written 0 (10 * 10 ^ 9), Split ex_writers True True, Written 1 (20 * 10 ^ 9)] @ [Recorded ex_writers])"

definition ex_search :: "string \<Rightarrow> json \<Rightarrow> (rquery \<times> (nat \<times> nat) list) outcome" where
  "ex_search zone query = Search ex_query_values ex_query_env (\<lambda>_ _. True) (ex_times zone) [(0, hs_stats ex_history)] query"

theorem search_reads_matches_witness:
  "\<exists>q rs. ref_matches ex_leaf q (20 * 10 ^ 9, 1) \<and> ex_search [] (ex_bool ''must'') = Gives (q, rs) \<and> (0, 1) \<in> set rs"
proof -
  let ?q = "BooleanQuery [DateRange TimeFieldName (15 * 10 ^ 9) (10 ^ 12) True False, OtherQuery ''term'' (JObj [(''tag'', JNum ''1'')])] [] [] 0"
  have q: "q_Query ex_query_values ex_query_env (ex_times []) (ex_bool ''must'') = Gives ?q" by code_simp
  have ok: "strict_query (ex_bool ''must'')" "utc_times (ex_times [])" by code_simp+
  have mt: "ref_matches ex_leaf ?q (20 * 10 ^ 9, 1)" by code_simp
  let ?es = "[Written 0 (10 * 10 ^ 9), Split ex_writers True True, Written 1 (20 * 10 ^ 9)]"
  have o: "in_order 0 (10 * 10 ^ 9) ?es" by simp
  have k: "1 < length (hs_kept ex_history)" "fst (20 * 10 ^ 9 :: int, 1 :: nat) \<in> set (hs_kept ex_history ! 1)" by code_simp+
  have s: "\<forall>(j :: nat) (i :: nat). True" "(0, hs_stats ex_history) \<in> set [(0, hs_stats ex_history)]" "0 < (10 * 10 ^ 9 :: int)" by simp_all
  note search_reads_matches [of "ref_matches ex_leaf" fst ex_query_values ex_query_env "ex_times []" "ex_bool ''must''" ?q "\<lambda>_ _. True" 0 ex_history
      "[(0, hs_stats ex_history)]" "10 * 10 ^ 9" ?es ex_writers 1 "(20 * 10 ^ 9, 1)", OF ref_index.index_library_axioms q ok s(1,2) o s(3) ex_history_def k mt]
  then show ?thesis using mt unfolding ex_search_def by blast
qed


end
