(* ===== verification/Auth.thy ===== *)
theory Auth
  imports Prelude
begin

text \<open>
  Users, roles and the check of requests (\<open>pkg/auth\<close>, \<open>metadata/user.go\<close>, \<open>metadata/role.go\<close> and
  \<open>AuthMiddleware\<close>). Users and roles are stored in the metadata and held in caches, which alone are
  asked by requests; the storage may fail at every operation. The derivation of a key from a password
  and a salt, the generated salts and the mapping to lower case are arguments. The times of creation and
  change, and the member \<open>Role\<close> of a role, which nothing reads or sets, are left out.
\<close>

section \<open>State\<close>

record User =
  us_ID :: string
  us_Name :: string
  us_Role :: string
  us_Salt :: string
  us_Password :: string

record Role =
  ro_ID :: string
  ro_Name :: string
  ro_Permission :: "string list"

record auth_state =
  as_users :: "(string \<times> User) list"
  as_roles :: "(string \<times> Role) list"
  as_cached_users :: "(string \<times> User) list"
  as_cached_permissions :: "(string \<times> string list) list"
  as_generated :: "(string \<times> string) list"
  as_faults :: "bool list"

record auth_env =
  ae_lower :: "string \<Rightarrow> string"
  ae_IDKey :: "string \<Rightarrow> string \<Rightarrow> string"
  ae_admin :: "string \<times> string"

datatype auth_error = InvalidArgument | InvalidCredentials | StoreFailed

definition store_fault :: "auth_state \<Rightarrow> bool \<times> auth_state" where
  "store_fault st = (case as_faults st of [] \<Rightarrow> (False, st) | b # bs \<Rightarrow> (b, st\<lparr>as_faults := bs\<rparr>))"

section \<open>Operations\<close>

text \<open>\<open>GeneratePassword\<close> remembers what it derived.\<close>

definition GeneratePassword :: "auth_env \<Rightarrow> string \<Rightarrow> string \<Rightarrow> auth_state \<Rightarrow> string \<times> auth_state" where
  "GeneratePassword env password salt st =
     (let key = password @ '':'' @ salt in
      case map_of (as_generated st) key of
        Some v \<Rightarrow> (v, st)
      | None \<Rightarrow> (let v = ae_IDKey env password salt in (v, st\<lparr>as_generated := AList.update key v (as_generated st)\<rparr>)))"

text \<open>\<open>GetUser\<close> and \<open>GetRole\<close>; a key that is not there is no error of the storage.\<close>

definition GetUser :: "string \<Rightarrow> auth_state \<Rightarrow> (auth_error + User option) \<times> auth_state" where
  "GetUser i st =
     (if i = [] then (Inl InvalidArgument, st)
      else case store_fault st of (True, st1) \<Rightarrow> (Inl StoreFailed, st1) | (False, st1) \<Rightarrow> (Inr (map_of (as_users st1) i), st1))"

definition SetUser :: "string \<Rightarrow> User \<Rightarrow> auth_state \<Rightarrow> bool \<times> auth_state" where
  "SetUser i u st = (case store_fault st of (True, st1) \<Rightarrow> (False, st1) | (False, st1) \<Rightarrow> (True, st1\<lparr>as_users := AList.update i u (as_users st1)\<rparr>))"

definition GetRole :: "string \<Rightarrow> auth_state \<Rightarrow> (auth_error + Role option) \<times> auth_state" where
  "GetRole i st =
     (if i = [] then (Inl InvalidArgument, st)
      else case store_fault st of (True, st1) \<Rightarrow> (Inl StoreFailed, st1) | (False, st1) \<Rightarrow> (Inr (map_of (as_roles st1) i), st1))"

definition SetRole :: "string \<Rightarrow> Role \<Rightarrow> auth_state \<Rightarrow> bool \<times> auth_state" where
  "SetRole i r st = (case store_fault st of (True, st1) \<Rightarrow> (False, st1) | (False, st1) \<Rightarrow> (True, st1\<lparr>as_roles := AList.update i r (as_roles st1)\<rparr>))"

definition CreateUser :: "auth_env \<Rightarrow> string \<Rightarrow> string \<Rightarrow> string \<Rightarrow> string \<Rightarrow> string \<Rightarrow> auth_state \<Rightarrow> (auth_error + User) \<times> auth_state" where
  "CreateUser env salt ident name password role st =
     (let i = ae_lower env ident in
      case GetUser i st of
        (Inl e, st1) \<Rightarrow> (Inl e, st1)
      | (Inr found, st1) \<Rightarrow>
          (let (u, st2) =
             (case found of
                Some old \<Rightarrow>
                  if password \<noteq> [] then
                    (let (h, st2) = GeneratePassword env password salt st1 in (old\<lparr>us_Salt := salt, us_Password := h, us_Name := name, us_Role := role\<rparr>, st2))
                  else (old\<lparr>us_Name := name, us_Role := role\<rparr>, st1)
              | None \<Rightarrow>
                  (let (h, st2) = GeneratePassword env password salt st1
                   in (\<lparr>us_ID = i, us_Name = name, us_Role = role, us_Salt = salt, us_Password = h\<rparr>, st2)))
           in case SetUser (us_ID u) u st2 of
                (False, st3) \<Rightarrow> (Inl StoreFailed, st3)
              | (True, st3) \<Rightarrow> (Inr u, st3\<lparr>as_cached_users := AList.update (us_ID u) u (as_cached_users st3)\<rparr>)))"

definition DeleteUser :: "auth_env \<Rightarrow> string \<Rightarrow> auth_state \<Rightarrow> bool \<times> auth_state" where
  "DeleteUser env ident st =
     (let i = ae_lower env ident; st1 = st\<lparr>as_cached_users := AList.delete i (as_cached_users st)\<rparr> in
      case store_fault st1 of (True, st2) \<Rightarrow> (False, st2) | (False, st2) \<Rightarrow> (True, st2\<lparr>as_users := AList.delete i (as_users st2)\<rparr>))"

definition CreateRole :: "auth_env \<Rightarrow> string \<Rightarrow> string \<Rightarrow> string list \<Rightarrow> auth_state \<Rightarrow> (auth_error + Role) \<times> auth_state" where
  "CreateRole env ident name permissions st =
     (let i = ae_lower env ident in
      if i = ''admin'' then (Inl InvalidArgument, st)
      else case GetRole i st of
        (Inl e, st1) \<Rightarrow> (Inl e, st1)
      | (Inr found, st1) \<Rightarrow>
          (let r = (case found of
                      Some old \<Rightarrow> old\<lparr>ro_Name := name, ro_Permission := permissions\<rparr>
                    | None \<Rightarrow> \<lparr>ro_ID = i, ro_Name = name, ro_Permission = permissions\<rparr>)
           in case SetRole (ro_ID r) r st1 of
                (False, st2) \<Rightarrow> (Inl StoreFailed, st2)
              | (True, st2) \<Rightarrow> (Inr r, st2\<lparr>as_cached_permissions := AList.update (ro_ID r) permissions (as_cached_permissions st2)\<rparr>)))"

definition DeleteRole :: "auth_env \<Rightarrow> string \<Rightarrow> auth_state \<Rightarrow> bool \<times> auth_state" where
  "DeleteRole env ident st =
     (let i = ae_lower env ident; st1 = st\<lparr>as_cached_permissions := AList.delete i (as_cached_permissions st)\<rparr> in
      case store_fault st1 of (True, st2) \<Rightarrow> (False, st2) | (False, st2) \<Rightarrow> (True, st2\<lparr>as_roles := AList.delete i (as_roles st2)\<rparr>))"

definition VerifyCredentials :: "auth_env \<Rightarrow> string \<Rightarrow> string \<Rightarrow> auth_state \<Rightarrow> User option \<times> auth_state" where
  "VerifyCredentials env userID password st =
     (case map_of (as_cached_users st) (ae_lower env userID) of
        None \<Rightarrow> (None, st)
      | Some u \<Rightarrow> (let (h, st1) = GeneratePassword env password (us_Salt u) st in (if h = us_Password u then Some u else None, st1)))"

definition VerifyRoleHasPermission :: "auth_env \<Rightarrow> string \<Rightarrow> string \<Rightarrow> auth_state \<Rightarrow> bool" where
  "VerifyRoleHasPermission env role permission st =
     (let i = ae_lower env role in
      if i = ''admin'' then True
      else case map_of (as_cached_permissions st) i of None \<Rightarrow> False | Some ps \<Rightarrow> permission \<in> set ps)"

definition UpdateAccount :: "auth_env \<Rightarrow> string \<Rightarrow> string \<Rightarrow> string \<Rightarrow> string \<Rightarrow> string \<Rightarrow> auth_state \<Rightarrow> (auth_error + User) \<times> auth_state" where
  "UpdateAccount env salt i password name newPassword st =
     (if name = [] \<and> newPassword = [] then (Inl InvalidArgument, st)
      else case VerifyCredentials env i password st of
        (None, st1) \<Rightarrow> (Inl InvalidCredentials, st1)
      | (Some u, st1) \<Rightarrow>
          (let u1 = (if name \<noteq> [] then u\<lparr>us_Name := name\<rparr> else u);
               (u2, st2) = (if newPassword \<noteq> [] then (let (h, st2) = GeneratePassword env newPassword salt st1 in (u1\<lparr>us_Salt := salt, us_Password := h\<rparr>, st2)) else (u1, st1))
           in case SetUser (us_ID u2) u2 st2 of
                (False, st3) \<Rightarrow> (Inl StoreFailed, st3)
              | (True, st3) \<Rightarrow> (Inr u2, st3\<lparr>as_cached_users := AList.update (us_ID u2) u2 (as_cached_users st3)\<rparr>)))"

datatype auth_verdict = Passed | Forbidden | Unauthorized

text \<open>\<open>AuthMiddleware\<close>; the credentials are those of the request, if it has any.\<close>

definition AuthMiddleware :: "auth_env \<Rightarrow> string \<Rightarrow> (string \<times> string) option \<Rightarrow> auth_state \<Rightarrow> auth_verdict \<times> auth_state" where
  "AuthMiddleware env permission credentials st =
     (case credentials of
        None \<Rightarrow> (Unauthorized, st)
      | Some (user, password) \<Rightarrow>
          (case VerifyCredentials env user password st of
             (None, st1) \<Rightarrow> (Unauthorized, st1)
           | (Some u, st1) \<Rightarrow> (if VerifyRoleHasPermission env (us_Role u) permission st1 then Passed else Forbidden, st1)))"

section \<open>Starting\<close>

text \<open>\<open>isFirstStart\<close>: an error of the storage counts as a first start.\<close>

definition isFirstStart :: "auth_state \<Rightarrow> bool \<times> auth_state" where
  "isFirstStart st =
     (case store_fault st of
        (True, st1) \<Rightarrow> (True, st1)
      | (False, st1) \<Rightarrow>
          if as_users st1 = [] then (True, st1)
          else (False, st1\<lparr>as_cached_users := fold (\<lambda>(_, u). AList.update (us_ID u) u) (as_users st1) (as_cached_users st1)\<rparr>))"

definition initFirstUser :: "auth_env \<Rightarrow> string \<Rightarrow> auth_state \<Rightarrow> bool \<times> auth_state" where
  "initFirstUser env salt st =
     (if fst (ae_admin env) = [] \<or> snd (ae_admin env) = [] then (False, st)
      else case CreateUser env salt (fst (ae_admin env)) (fst (ae_admin env)) (snd (ae_admin env)) ''admin'' st of
        (Inl _, st1) \<Rightarrow> (False, st1)
      | (Inr _, st1) \<Rightarrow> (True, st1))"

definition initPermissionCache :: "auth_state \<Rightarrow> auth_state" where
  "initPermissionCache st =
     (case store_fault st of
        (True, st1) \<Rightarrow> st1
      | (False, st1) \<Rightarrow>
          st1\<lparr>as_cached_permissions := fold (\<lambda>(_, r). AList.update (ro_ID r) (ro_Permission r)) (as_roles st1) (as_cached_permissions st1)\<rparr>)"

text \<open>\<open>init\<close>, with empty caches; \<open>None\<close> is the end of the process.\<close>

definition auth_start :: "auth_env \<Rightarrow> string \<Rightarrow> auth_state \<Rightarrow> auth_state option" where
  "auth_start env salt st =
     (let st0 = st\<lparr>as_cached_users := [], as_cached_permissions := [], as_generated := []\<rparr>;
          (first, st1) = isFirstStart st0
      in if first then (case initFirstUser env salt st1 of (False, _) \<Rightarrow> None | (True, st2) \<Rightarrow> Some (initPermissionCache st2))
         else Some (initPermissionCache st1))"

section \<open>Runs\<close>

datatype auth_op =
    OpCreateUser string string string string string
  | OpDeleteUser string
  | OpCreateRole string string "string list"
  | OpDeleteRole string
  | OpUpdateAccount string string string string string
  | OpRequest string "(string \<times> string) option"
  | OpRestart string

fun perform :: "auth_env \<Rightarrow> auth_op \<Rightarrow> auth_state \<Rightarrow> auth_state option" where
  "perform env (OpCreateUser salt i name password role) st = Some (snd (CreateUser env salt i name password role st))"
| "perform env (OpDeleteUser i) st = Some (snd (DeleteUser env i st))"
| "perform env (OpCreateRole i name permissions) st = Some (snd (CreateRole env i name permissions st))"
| "perform env (OpDeleteRole i) st = Some (snd (DeleteRole env i st))"
| "perform env (OpUpdateAccount salt i password name newPassword) st = Some (snd (UpdateAccount env salt i password name newPassword st))"
| "perform env (OpRequest permission credentials) st = Some (snd (AuthMiddleware env permission credentials st))"
| "perform env (OpRestart salt) st = auth_start env salt st"

fun performs :: "auth_env \<Rightarrow> auth_op list \<Rightarrow> auth_state \<Rightarrow> auth_state option" where
  "performs env [] st = Some st"
| "performs env (a # as) st = (case perform env a st of None \<Rightarrow> None | Some st1 \<Rightarrow> performs env as st1)"

end
