(* ===== verification/Auth_Safety.thy ===== *)
theory Auth_Safety
  imports Auth
begin

text \<open>
  Requests are let through only for users and permissions that are stored, whatever the order of the
  operations and the errors of the storage; without errors the caches are exactly the store.
\<close>

section \<open>The invariant\<close>

definition users_ok :: "(string \<times> User) list \<Rightarrow> bool" where
  "users_ok us \<longleftrightarrow> distinct (map fst us) \<and> list_all (\<lambda>(k, u). us_ID u = k \<and> CHR '':'' \<notin> set (us_Salt u)) us"

definition roles_ok :: "(string \<times> Role) list \<Rightarrow> bool" where
  "roles_ok rs \<longleftrightarrow> distinct (map fst rs) \<and> list_all (\<lambda>(k, r). ro_ID r = k) rs"

definition generated_ok :: "auth_env \<Rightarrow> (string \<times> string) list \<Rightarrow> bool" where
  "generated_ok env g \<longleftrightarrow> (\<forall>password salt h. CHR '':'' \<notin> set salt \<longrightarrow> map_of g (password @ '':'' @ salt) = Some h \<longrightarrow> h = ae_IDKey env password salt)"

definition auth_ok :: "auth_env \<Rightarrow> auth_state \<Rightarrow> bool" where
  "auth_ok env st \<longleftrightarrow> users_ok (as_users st) \<and> roles_ok (as_roles st) \<and> generated_ok env (as_generated st) \<and>
     (\<forall>k u. map_of (as_cached_users st) k = Some u \<longrightarrow> map_of (as_users st) k = Some u) \<and>
     (\<forall>k ps. map_of (as_cached_permissions st) k = Some ps \<longrightarrow> map_option ro_Permission (map_of (as_roles st) k) = Some ps)"

definition users_cached :: "auth_state \<Rightarrow> bool" where
  "users_cached st \<longleftrightarrow> map_of (as_cached_users st) = map_of (as_users st)"

definition permissions_cached :: "auth_state \<Rightarrow> bool" where
  "permissions_cached st \<longleftrightarrow> (\<forall>k. map_of (as_cached_permissions st) k = map_option ro_Permission (map_of (as_roles st) k))"

lemmas cached_defs = users_cached_def permissions_cached_def

definition keeps :: "auth_env \<Rightarrow> auth_state \<Rightarrow> auth_state \<Rightarrow> bool" where
  "keeps env st st' \<longleftrightarrow> auth_ok env st' \<and>
     (as_faults st = [] \<longrightarrow> as_faults st' = [] \<and> (users_cached st \<longrightarrow> users_cached st') \<and> (permissions_cached st \<longrightarrow> permissions_cached st'))"

lemma keeps_refl: "auth_ok env st \<Longrightarrow> keeps env st st"
  by (simp add: keeps_def)

lemma keeps_trans: "keeps env st1 st2 \<Longrightarrow> keeps env st2 st3 \<Longrightarrow> keeps env st1 st3"
  by (simp add: keeps_def)

lemma keeps_ok: "keeps env st st' \<Longrightarrow> auth_ok env st'"
  by (simp add: keeps_def)

text \<open>The last colon separates the password from the salt.\<close>

lemma key_unique: "CHR '':'' \<notin> set s \<Longrightarrow> CHR '':'' \<notin> set t \<Longrightarrow> p @ '':'' @ s = q @ '':'' @ t \<Longrightarrow> p = q \<and> s = t"
  by (auto simp: append_eq_append_conv2 append_eq_Cons_conv Cons_eq_append_conv)

lemma GeneratePassword_derives:
  assumes "GeneratePassword env password salt st = (h, st1)" and "auth_ok env st" and "CHR '':'' \<notin> set salt"
  shows "h = ae_IDKey env password salt" and "keeps env st st1" and "\<exists>g. st1 = st\<lparr>as_generated := g\<rparr>"
proof -
  have g: "generated_ok env (as_generated st)" using assms(2) by (simp add: auth_ok_def)
  have "h = ae_IDKey env password salt \<and> (st1 = st \<or> st1 = st\<lparr>as_generated := AList.update (password @ '':'' @ salt) h (as_generated st)\<rparr>)"
    using assms(1,3) g by (auto simp: GeneratePassword_def generated_ok_def Let_def split: option.splits)
  moreover have "generated_ok env (AList.update (password @ '':'' @ salt) (ae_IDKey env password salt) (as_generated st))"
    unfolding generated_ok_def
  proof (intro allI impI)
    fix p s v
    assume s: "CHR '':'' \<notin> set s" and m: "map_of (AList.update (password @ '':'' @ salt) (ae_IDKey env password salt) (as_generated st)) (p @ '':'' @ s) = Some v"
    show "v = ae_IDKey env p s"
    proof (cases "p @ '':'' @ s = password @ '':'' @ salt")
      case True
      then have "p = password \<and> s = salt" using key_unique [OF s assms(3)] by blast
      then show ?thesis using m by (simp add: update_conv')
    next
      case False
      then show ?thesis using m g s by (auto simp: update_conv' generated_ok_def)
    qed
  qed
  ultimately show "h = ae_IDKey env password salt" "keeps env st st1" "\<exists>g. st1 = st\<lparr>as_generated := g\<rparr>"
    using assms(2) by (auto simp: keeps_def auth_ok_def cached_defs) (rule exI [of _ "as_generated st"], simp)
qed

lemma store_fault_keeps:
  assumes "store_fault st = (b, st1)" and "auth_ok env st"
  shows "keeps env st st1" and "\<exists>fs. st1 = st\<lparr>as_faults := fs\<rparr>" and "as_faults st = [] \<Longrightarrow> \<not> b \<and> st1 = st"
proof -
  have "st1 = st \<or> (\<exists>fs. st1 = st\<lparr>as_faults := fs\<rparr>)" using assms(1) by (auto simp: store_fault_def split: list.splits)
  then have k: "\<exists>fs. st1 = st\<lparr>as_faults := fs\<rparr>" by (metis auth_state.surjective auth_state.update_convs(6))
  then show "\<exists>fs. st1 = st\<lparr>as_faults := fs\<rparr>" .
  show none: "as_faults st = [] \<Longrightarrow> \<not> b \<and> st1 = st" using assms(1) by (simp add: store_fault_def)
  show "keeps env st st1" using k none assms(2) by (auto simp: keeps_def auth_ok_def)
qed

lemma users_ok_update: "users_ok us \<Longrightarrow> us_ID u = k \<Longrightarrow> CHR '':'' \<notin> set (us_Salt u) \<Longrightarrow> users_ok (AList.update k u us)"
  unfolding users_ok_def by (simp add: distinct_update) (induction us; auto)

lemma roles_ok_update: "roles_ok rs \<Longrightarrow> ro_ID r = k \<Longrightarrow> roles_ok (AList.update k r rs)"
  unfolding roles_ok_def by (simp add: distinct_update) (induction rs; auto)

lemma ok_delete: "users_ok us \<Longrightarrow> users_ok (AList.delete k us)" "roles_ok rs \<Longrightarrow> roles_ok (AList.delete k rs)"
  by (auto simp: users_ok_def roles_ok_def distinct_map_filter list_all_iff AList.delete_eq)

lemma users_okD: "users_ok us \<Longrightarrow> map_of us k = Some u \<Longrightarrow> us_ID u = k \<and> CHR '':'' \<notin> set (us_Salt u)"
  unfolding users_ok_def list_all_iff by (auto dest!: map_of_SomeD)

lemma SetUser_cached:
  assumes "SetUser k u st = (ok, st1)" and "auth_ok env st" and "us_ID u = k" and "CHR '':'' \<notin> set (us_Salt u)"
  shows "keeps env st (if ok then st1\<lparr>as_cached_users := AList.update k u (as_cached_users st1)\<rparr> else st1)"
proof -
  obtain b st2 where f: "store_fault st = (b, st2)" by (cases "store_fault st")
  note k = store_fault_keeps [OF f assms(2)]
  show ?thesis
  proof (cases b)
    case True
    then show ?thesis using assms(1) f k(1) by (simp add: SetUser_def)
  next
    case False
    then have s: "ok" "st1 = st2\<lparr>as_users := AList.update k u (as_users st2)\<rparr>" using assms(1) f by (simp_all add: SetUser_def)
    have "keeps env st2 (st1\<lparr>as_cached_users := AList.update k u (as_cached_users st1)\<rparr>)"
      using keeps_ok [OF k(1)] users_ok_update assms(3,4) by (auto simp: s(2) keeps_def auth_ok_def cached_defs update_conv')
    then show ?thesis using k(1) s(1) by (auto intro: keeps_trans)
  qed
qed

section \<open>Every operation keeps it\<close>

lemma GetUser_keeps:
  assumes "GetUser i st = (r, st1)" and "auth_ok env st"
  shows "keeps env st st1" and "r = Inr (Some u) \<Longrightarrow> us_ID u = i \<and> CHR '':'' \<notin> set (us_Salt u)" and "r = Inr found \<Longrightarrow> found = map_of (as_users st1) i"
proof -
  obtain b st2 where f: "store_fault st = (b, st2)" by (cases "store_fault st")
  note k = store_fault_keeps [OF f assms(2)]
  show "keeps env st st1" using assms f k(1) by (auto simp: GetUser_def keeps_refl split: if_splits bool.splits)
  show found: "r = Inr found \<Longrightarrow> found = map_of (as_users st1) i" for found using assms(1) f by (auto simp: GetUser_def split: if_splits bool.splits)
  have "users_ok (as_users st1)" using keeps_ok [OF \<open>keeps env st st1\<close>] by (simp add: auth_ok_def)
  then show "r = Inr (Some u) \<Longrightarrow> us_ID u = i \<and> CHR '':'' \<notin> set (us_Salt u)" using found [of "Some u"] users_okD by metis
qed

lemma CreateUser_keeps:
  assumes "auth_ok env st" and "CHR '':'' \<notin> set salt"
  shows "keeps env st (snd (CreateUser env salt ident name password role st))"
proof -
  let ?i = "ae_lower env ident"
  obtain r st1 where g: "GetUser ?i st = (r, st1)" by (cases "GetUser ?i st")
  note gk = GetUser_keeps [OF g assms(1)]
  show ?thesis
  proof (cases r)
    case (Inl e)
    then show ?thesis using g gk(1) by (simp add: CreateUser_def Let_def)
  next
    case (Inr found)
    obtain h st2 where p: "GeneratePassword env password salt st1 = (h, st2)" by (cases "GeneratePassword env password salt st1")
    note pk = GeneratePassword_derives [OF p keeps_ok [OF gk(1)] assms(2)]
    obtain u st3 where u: "us_ID u = ?i" "CHR '':'' \<notin> set (us_Salt u)" "keeps env st st3"
        "snd (CreateUser env salt ident name password role st) =
           (let (ok, st4) = SetUser (us_ID u) u st3 in if ok then st4\<lparr>as_cached_users := AList.update (us_ID u) u (as_cached_users st4)\<rparr> else st4)"
    proof (cases "found \<noteq> None \<and> password = []")
      case True
      then obtain old where old: "found = Some old" by auto
      have "us_ID old = ?i \<and> CHR '':'' \<notin> set (us_Salt old)" using gk(2) Inr old by simp
      then show ?thesis using True gk(1) g Inr old
        by (intro that [of "old\<lparr>us_Name := name, us_Role := role\<rparr>" st1]) (auto simp: CreateUser_def Let_def split: prod.splits bool.splits)
    next
      case False
      let ?u = "case found of Some old \<Rightarrow> old\<lparr>us_Salt := salt, us_Password := h, us_Name := name, us_Role := role\<rparr>
        | None \<Rightarrow> \<lparr>us_ID = ?i, us_Name = name, us_Role = role, us_Salt = salt, us_Password = h\<rparr>"
      have "us_ID ?u = ?i" "CHR '':'' \<notin> set (us_Salt ?u)" using gk(2) Inr assms(2) by (auto split: option.splits)
      then show ?thesis using False gk(1) pk(2) g Inr p
        by (intro that [of ?u st2]) (auto simp: CreateUser_def Let_def intro: keeps_trans split: prod.splits bool.splits option.splits)
    qed
    obtain ok st4 where s: "SetUser (us_ID u) u st3 = (ok, st4)" by (cases "SetUser (us_ID u) u st3")
    show ?thesis using SetUser_cached [OF s keeps_ok [OF u(3)] refl u(2)] u(3,4) s by (auto intro: keeps_trans)
  qed
qed

lemma DeleteUser_keeps:
  assumes "auth_ok env st"
  shows "keeps env st (snd (DeleteUser env ident st))"
proof -
  let ?i = "ae_lower env ident"
  let ?st = "st\<lparr>as_cached_users := AList.delete ?i (as_cached_users st)\<rparr>"
  have ok: "auth_ok env ?st" using assms by (auto simp: auth_ok_def delete_conv' split: if_splits)
  obtain b st2 where f: "store_fault ?st = (b, st2)" by (cases "store_fault ?st")
  note k = store_fault_keeps [OF f ok]
  show ?thesis
  proof (cases b)
    case True
    then have "as_faults st \<noteq> []" using k(3) by auto
    then show ?thesis using True f keeps_ok [OF k(1)] by (simp add: DeleteUser_def Let_def keeps_def)
  next
    case False
    obtain fs where fs: "st2 = ?st\<lparr>as_faults := fs\<rparr>" using k(2) by blast
    have "auth_ok env (st2\<lparr>as_users := AList.delete ?i (as_users st2)\<rparr>)"
      using assms ok_delete(1) by (auto simp: fs auth_ok_def delete_conv' split: if_splits)
    then show ?thesis using False f k(3) by (auto simp: DeleteUser_def Let_def keeps_def cached_defs delete_conv' fun_eq_iff)
  qed
qed

lemma DeleteRole_keeps:
  assumes "auth_ok env st"
  shows "keeps env st (snd (DeleteRole env ident st))"
proof -
  let ?i = "ae_lower env ident"
  let ?st = "st\<lparr>as_cached_permissions := AList.delete ?i (as_cached_permissions st)\<rparr>"
  have ok: "auth_ok env ?st" using assms by (auto simp: auth_ok_def delete_conv' split: if_splits)
  obtain b st2 where f: "store_fault ?st = (b, st2)" by (cases "store_fault ?st")
  note k = store_fault_keeps [OF f ok]
  show ?thesis
  proof (cases b)
    case True
    then have "as_faults st \<noteq> []" using k(3) by auto
    then show ?thesis using True f keeps_ok [OF k(1)] by (simp add: DeleteRole_def Let_def keeps_def)
  next
    case False
    obtain fs where fs: "st2 = ?st\<lparr>as_faults := fs\<rparr>" using k(2) by blast
    have "auth_ok env (st2\<lparr>as_roles := AList.delete ?i (as_roles st2)\<rparr>)"
      using assms ok_delete(2) by (auto simp: fs auth_ok_def delete_conv' split: if_splits)
    then show ?thesis using False f k(3) by (auto simp: DeleteRole_def Let_def keeps_def cached_defs delete_conv' fun_eq_iff)
  qed
qed

lemma CreateRole_keeps:
  assumes "auth_ok env st"
  shows "keeps env st (snd (CreateRole env ident name permissions st))"
proof -
  let ?i = "ae_lower env ident"
  obtain b st1 where f: "store_fault st = (b, st1)" by (cases "store_fault st")
  note k = store_fault_keeps [OF f assms]
  show ?thesis
  proof (cases "?i = ''admin'' \<or> ?i = [] \<or> b")
    case True
    then show ?thesis using f k(1) assms by (auto simp: CreateRole_def GetRole_def Let_def keeps_refl split: bool.splits)
  next
    case False
    let ?r = "case map_of (as_roles st1) ?i of Some old \<Rightarrow> old\<lparr>ro_Name := name, ro_Permission := permissions\<rparr> | None \<Rightarrow> \<lparr>ro_ID = ?i, ro_Name = name, ro_Permission = permissions\<rparr>"
    have ok1: "auth_ok env st1" using keeps_ok [OF k(1)] .
    have r: "ro_ID ?r = ?i" "ro_Permission ?r = permissions"
      using ok1 by (auto simp: auth_ok_def roles_ok_def list_all_iff dest!: map_of_SomeD split: option.splits)
    obtain c st2 where f2: "store_fault st1 = (c, st2)" by (cases "store_fault st1")
    note k2 = store_fault_keeps [OF f2 ok1]
    have res: "snd (CreateRole env ident name permissions st) =
        (if c then st2 else st2\<lparr>as_roles := AList.update ?i ?r (as_roles st2), as_cached_permissions := AList.update ?i permissions (as_cached_permissions st2)\<rparr>)"
      using False f f2 r(1) by (simp add: CreateRole_def GetRole_def SetRole_def Let_def)
    have "keeps env st2 (st2\<lparr>as_roles := AList.update ?i ?r (as_roles st2), as_cached_permissions := AList.update ?i permissions (as_cached_permissions st2)\<rparr>)"
      using keeps_ok [OF k2(1)] roles_ok_update [of "as_roles st2" ?r ?i] r by (auto simp: keeps_def auth_ok_def cached_defs update_conv')
    then show ?thesis unfolding res using keeps_trans [OF k(1) k2(1)] by (auto intro: keeps_trans)
  qed
qed

lemma VerifyCredentials_keeps:
  assumes "VerifyCredentials env userID password st = (r, st1)" and "auth_ok env st"
  shows "keeps env st st1" and "r = (case map_of (as_cached_users st) (ae_lower env userID) of
      Some u \<Rightarrow> if ae_IDKey env password (us_Salt u) = us_Password u then Some u else None | None \<Rightarrow> None)"
    and "\<exists>g. st1 = st\<lparr>as_generated := g\<rparr>"
proof -
  have "keeps env st st1 \<and> r = (case map_of (as_cached_users st) (ae_lower env userID) of
      Some u \<Rightarrow> if ae_IDKey env password (us_Salt u) = us_Password u then Some u else None | None \<Rightarrow> None) \<and> (\<exists>g. st1 = st\<lparr>as_generated := g\<rparr>)"
  proof (cases "map_of (as_cached_users st) (ae_lower env userID)")
    case None
    then show ?thesis using assms by (auto simp: VerifyCredentials_def keeps_refl) (rule exI [of _ "as_generated st1"], simp)
  next
    case (Some u)
    then have "map_of (as_users st) (ae_lower env userID) = Some u" using assms(2) by (simp add: auth_ok_def)
    then have salt: "CHR '':'' \<notin> set (us_Salt u)" using assms(2) users_okD by (auto simp: auth_ok_def)
    obtain h st2 where p: "GeneratePassword env password (us_Salt u) st = (h, st2)" by (cases "GeneratePassword env password (us_Salt u) st")
    note pk = GeneratePassword_derives [OF p assms(2) salt]
    show ?thesis using assms(1) Some p pk by (auto simp: VerifyCredentials_def)
  qed
  then show "keeps env st st1" and "r = (case map_of (as_cached_users st) (ae_lower env userID) of
      Some u \<Rightarrow> if ae_IDKey env password (us_Salt u) = us_Password u then Some u else None | None \<Rightarrow> None)"
    and "\<exists>g. st1 = st\<lparr>as_generated := g\<rparr>" by simp_all
qed

lemma UpdateAccount_keeps:
  assumes "auth_ok env st" and "CHR '':'' \<notin> set salt"
  shows "keeps env st (snd (UpdateAccount env salt i password name newPassword st))"
proof -
  obtain r st1 where v: "VerifyCredentials env i password st = (r, st1)" by (cases "VerifyCredentials env i password st")
  note vk = VerifyCredentials_keeps [OF v assms(1)]
  show ?thesis
  proof (cases "name = [] \<and> newPassword = [] \<or> r = None")
    case True
    then show ?thesis using v vk(1) assms(1) by (auto simp: UpdateAccount_def keeps_refl)
  next
    case False
    then obtain u where u: "r = Some u" by auto
    have "map_of (as_cached_users st) (ae_lower env i) = Some u" using vk(2) u by (auto split: option.splits if_splits)
    then have "map_of (as_users st) (ae_lower env i) = Some u" using assms(1) by (simp add: auth_ok_def)
    then have old: "CHR '':'' \<notin> set (us_Salt u)" using assms(1) users_okD by (auto simp: auth_ok_def)
    let ?u1 = "if name \<noteq> [] then u\<lparr>us_Name := name\<rparr> else u"
    obtain h st2 where p: "GeneratePassword env newPassword salt st1 = (h, st2)" by (cases "GeneratePassword env newPassword salt st1")
    note pk = GeneratePassword_derives [OF p keeps_ok [OF vk(1)] assms(2)]
    let ?u2 = "if newPassword \<noteq> [] then ?u1\<lparr>us_Salt := salt, us_Password := h\<rparr> else ?u1" and ?st2 = "if newPassword \<noteq> [] then st2 else st1"
    obtain ok st3 where s: "SetUser (us_ID ?u2) ?u2 ?st2 = (ok, st3)" by (cases "SetUser (us_ID ?u2) ?u2 ?st2")
    have k2: "keeps env st ?st2" using vk(1) pk(2) by (auto intro: keeps_trans)
    have salt2: "CHR '':'' \<notin> set (us_Salt ?u2)" using old assms(2) by simp
    have res: "snd (UpdateAccount env salt i password name newPassword st) =
        (if ok then st3\<lparr>as_cached_users := AList.update (us_ID ?u2) ?u2 (as_cached_users st3)\<rparr> else st3)"
      using False v u p s by (cases "newPassword = []"; cases ok) (auto simp: UpdateAccount_def Let_def split: prod.splits)
    show ?thesis unfolding res using SetUser_cached [OF s keeps_ok [OF k2] refl salt2] k2 by (rule keeps_trans [rotated])
  qed
qed

lemma AuthMiddleware_verdict:
  assumes "AuthMiddleware env permission credentials st = (v, st1)" and "auth_ok env st"
  shows "keeps env st st1" and "v = Passed \<longleftrightarrow> (\<exists>user password u. credentials = Some (user, password) \<and> map_of (as_cached_users st) (ae_lower env user) = Some u \<and>
      ae_IDKey env password (us_Salt u) = us_Password u \<and>
      (ae_lower env (us_Role u) = ''admin'' \<or> (\<exists>ps. map_of (as_cached_permissions st) (ae_lower env (us_Role u)) = Some ps \<and> permission \<in> set ps)))"
proof -
  have "keeps env st st1 \<and> (v = Passed \<longleftrightarrow> (\<exists>user password u. credentials = Some (user, password) \<and> map_of (as_cached_users st) (ae_lower env user) = Some u \<and>
      ae_IDKey env password (us_Salt u) = us_Password u \<and>
      (ae_lower env (us_Role u) = ''admin'' \<or> (\<exists>ps. map_of (as_cached_permissions st) (ae_lower env (us_Role u)) = Some ps \<and> permission \<in> set ps))))"
  proof (cases credentials)
    case None
    then show ?thesis using assms by (auto simp: AuthMiddleware_def keeps_refl)
  next
    case (Some c)
    obtain user password where c: "c = (user, password)" by (cases c)
    obtain r st2 where vc: "VerifyCredentials env user password st = (r, st2)" by (cases "VerifyCredentials env user password st")
    note vk = VerifyCredentials_keeps [OF vc assms(2)]
    obtain g where g: "st2 = st\<lparr>as_generated := g\<rparr>" using vk(3) by blast
    have st1: "st1 = st2" using assms(1) vc by (auto simp: AuthMiddleware_def Some c split: option.splits)
    have perm: "VerifyRoleHasPermission env role permission st2 \<longleftrightarrow>
        ae_lower env role = ''admin'' \<or> (\<exists>ps. map_of (as_cached_permissions st) (ae_lower env role) = Some ps \<and> permission \<in> set ps)" for role
      by (auto simp: VerifyRoleHasPermission_def Let_def g split: option.splits)
    have "v = Passed \<longleftrightarrow> (\<exists>u. r = Some u \<and> VerifyRoleHasPermission env (us_Role u) permission st2)"
      using assms(1) vc by (auto simp: AuthMiddleware_def Some c split: option.splits if_splits)
    also have "\<dots> \<longleftrightarrow> (\<exists>u. map_of (as_cached_users st) (ae_lower env user) = Some u \<and> ae_IDKey env password (us_Salt u) = us_Password u \<and>
        VerifyRoleHasPermission env (us_Role u) permission st2)"
      by (auto simp: vk(2) split: option.splits if_splits)
    finally show ?thesis using vk(1) st1 perm by (auto simp: Some c)
  qed
  then show "keeps env st st1" and "v = Passed \<longleftrightarrow> (\<exists>user password u. credentials = Some (user, password) \<and> map_of (as_cached_users st) (ae_lower env user) = Some u \<and>
      ae_IDKey env password (us_Salt u) = us_Password u \<and>
      (ae_lower env (us_Role u) = ''admin'' \<or> (\<exists>ps. map_of (as_cached_permissions st) (ae_lower env (us_Role u)) = Some ps \<and> permission \<in> set ps)))"
    by simp_all
qed

section \<open>Starting establishes it\<close>

lemma cache_all:
  "distinct (map fst xs) \<Longrightarrow> list_all (\<lambda>(k, x). key x = k) xs \<Longrightarrow>
    map_of (fold (\<lambda>(_, x). AList.update (key x) (val x)) xs c) = map_of c ++ (map_option val \<circ> map_of xs)"
proof (induction xs arbitrary: c)
  case (Cons a xs)
  obtain k x where a: "a = (k, x)" by (cases a)
  have "map_of xs k = None" using Cons.prems(1) by (simp add: a map_of_eq_None_iff)
  then show ?case using Cons by (auto simp: a update_conv' map_add_def fun_eq_iff split: option.splits)
qed (simp add: map_add_def fun_eq_iff)

lemma initPermissionCache_keeps:
  assumes "auth_ok env st" and "as_cached_permissions st = []"
  shows "auth_ok env (initPermissionCache st)" and "as_faults st = [] \<Longrightarrow> as_faults (initPermissionCache st) = []"
    and "as_faults st = [] \<Longrightarrow> users_cached st \<Longrightarrow> users_cached (initPermissionCache st) \<and> permissions_cached (initPermissionCache st)"
proof -
  obtain b st1 where f: "store_fault st = (b, st1)" by (cases "store_fault st")
  note k = store_fault_keeps [OF f assms(1)]
  obtain fs where fs: "st1 = st\<lparr>as_faults := fs\<rparr>" using k(2) by blast
  have "map_of (fold (\<lambda>(_, r). AList.update (ro_ID r) (ro_Permission r)) (as_roles st) []) = map_option ro_Permission \<circ> map_of (as_roles st)"
    using cache_all [of "as_roles st" ro_ID ro_Permission "[]"] assms(1) by (simp add: auth_ok_def roles_ok_def)
  then have c: "map_of (fold (\<lambda>(_, r). AList.update (ro_ID r) (ro_Permission r)) (as_roles st) []) k = map_option ro_Permission (map_of (as_roles st) k)" for k by simp
  show "auth_ok env (initPermissionCache st)"
    using f keeps_ok [OF k(1)] assms(2) c by (cases b) (auto simp: initPermissionCache_def fs auth_ok_def)
  show "as_faults st = [] \<Longrightarrow> as_faults (initPermissionCache st) = []" using f k(3) by (auto simp: initPermissionCache_def)
  show "as_faults st = [] \<Longrightarrow> users_cached st \<Longrightarrow> users_cached (initPermissionCache st) \<and> permissions_cached (initPermissionCache st)"
    using f k(3) assms(2) c by (auto simp: initPermissionCache_def cached_defs)
qed

lemma auth_start_ok:
  assumes "auth_start env salt st = Some st'" and "users_ok (as_users st)" and "roles_ok (as_roles st)" and "CHR '':'' \<notin> set salt"
  shows "auth_ok env st'" and "as_faults st = [] \<Longrightarrow> as_faults st' = [] \<and> users_cached st' \<and> permissions_cached st'"
proof -
  let ?st0 = "st\<lparr>as_cached_users := [], as_cached_permissions := [], as_generated := []\<rparr>"
  have ok0: "auth_ok env ?st0" using assms(2,3) by (simp add: auth_ok_def generated_ok_def)
  obtain b st1 where f: "store_fault ?st0 = (b, st1)" by (cases "store_fault ?st0")
  note k = store_fault_keeps [OF f ok0]
  obtain fs where fs: "st1 = ?st0\<lparr>as_faults := fs\<rparr>" using k(2) by blast
  obtain st2 where st2: "st' = initPermissionCache st2" "auth_ok env st2" "as_cached_permissions st2 = []" "as_faults st = [] \<Longrightarrow> as_faults st2 = [] \<and> users_cached st2"
  proof (cases "b \<or> as_users st = []")
    case True
    then have first: "isFirstStart ?st0 = (True, st1)" using f by (auto simp: isFirstStart_def fs split: bool.splits)
    let ?c = "CreateUser env salt (fst (ae_admin env)) (fst (ae_admin env)) (snd (ae_admin env)) ''admin'' st1"
    have ck: "keeps env st1 (snd ?c)" by (rule CreateUser_keeps [OF keeps_ok [OF k(1)] assms(4)])
    have s': "st' = initPermissionCache (snd ?c)"
      using assms(1) first by (auto simp: auth_start_def initFirstUser_def Let_def split: prod.splits if_splits sum.splits bool.splits)
    have "as_cached_permissions (snd ?c) = []" 
    proof -
      have "as_cached_permissions (snd (CreateUser env s i n p r x)) = as_cached_permissions x" for s i n p r x
      proof -
        have sf: "as_cached_permissions (snd (store_fault y)) = as_cached_permissions y" for y by (auto simp: store_fault_def split: list.splits)
        then have "as_cached_permissions z = as_cached_permissions y" if "store_fault y = (c, z)" for y c z using that by (metis snd_conv)
        moreover have "as_cached_permissions z = as_cached_permissions y" if "GeneratePassword env p s y = (h, z)" for y h z
          using that by (auto simp: GeneratePassword_def Let_def split: option.splits)
        ultimately show ?thesis by (auto simp: CreateUser_def GetUser_def SetUser_def Let_def split: prod.splits bool.splits option.splits sum.splits if_splits)
      qed
      then show ?thesis by (simp add: fs)
    qed
    moreover have "as_faults st = [] \<Longrightarrow> as_faults (snd ?c) = [] \<and> users_cached (snd ?c)"
    proof -
      assume none: "as_faults st = []"
      then have "as_users st = []" "st1 = ?st0" using True k(3) by auto
      then have "users_cached st1" "as_faults st1 = []" using none by (simp_all add: cached_defs)
      then show ?thesis using ck by (simp add: keeps_def)
    qed
    ultimately show ?thesis using s' keeps_ok [OF ck] by (intro that [of "snd ?c"])
  next
    case False
    let ?c = "fold (\<lambda>(_, u). AList.update (us_ID u) u) (as_users st1) []"
    have c: "map_of ?c = map_of (as_users st)"
      using cache_all [of "as_users st" us_ID "\<lambda>u. u" "[]"] assms(2) by (auto simp: users_ok_def list_all_iff fs fun_eq_iff option.map_ident)
    have s': "st' = initPermissionCache (st1\<lparr>as_cached_users := ?c\<rparr>)"
      using assms(1) f False by (auto simp: auth_start_def isFirstStart_def fs Let_def)
    have "auth_ok env (st1\<lparr>as_cached_users := ?c\<rparr>)" using keeps_ok [OF k(1)] c by (simp add: auth_ok_def fs)
    moreover have "as_faults st = [] \<Longrightarrow> as_faults st1 = []" using k(3) by auto
    ultimately show ?thesis using s' c by (intro that [of "st1\<lparr>as_cached_users := ?c\<rparr>"]) (auto simp: fs cached_defs)
  qed
  show "auth_ok env st'" using initPermissionCache_keeps(1) [OF st2(2,3)] st2(1) by simp
  show "as_faults st = [] \<Longrightarrow> as_faults st' = [] \<and> users_cached st' \<and> permissions_cached st'" using initPermissionCache_keeps(2,3) [OF st2(2,3)] st2(1,4) by auto
qed

section \<open>Who is let through\<close>

text \<open>The salts come from the generator of IDs, which makes letters and digits.\<close>

fun salted :: "auth_op \<Rightarrow> bool" where
  "salted (OpCreateUser salt _ _ _ _) \<longleftrightarrow> CHR '':'' \<notin> set salt"
| "salted (OpUpdateAccount salt _ _ _ _) \<longleftrightarrow> CHR '':'' \<notin> set salt"
| "salted (OpRestart salt) \<longleftrightarrow> CHR '':'' \<notin> set salt"
| "salted _ \<longleftrightarrow> True"

lemma perform_keeps: "perform env a st = Some st' \<Longrightarrow> auth_ok env st \<Longrightarrow> salted a \<Longrightarrow> keeps env st st'"
proof (cases a)
  case (OpRestart salt)
  assume "perform env a st = Some st'" "auth_ok env st" "salted a"
  then show ?thesis using auth_start_ok [of env salt st st'] by (auto simp: OpRestart keeps_def auth_ok_def)
next
  case (OpRequest permission credentials)
  assume "perform env a st = Some st'" "auth_ok env st"
  then show ?thesis using AuthMiddleware_verdict(1) [of env permission credentials st] by (auto simp: OpRequest intro: prod.collapse [symmetric])
qed (auto intro: CreateUser_keeps DeleteUser_keeps CreateRole_keeps DeleteRole_keeps UpdateAccount_keeps)

lemma performs_keeps: "performs env as st = Some st' \<Longrightarrow> auth_ok env st \<Longrightarrow> list_all salted as \<Longrightarrow> keeps env st st'"
proof (induction as arbitrary: st)
  case (Cons a as)
  then obtain st1 where s: "perform env a st = Some st1" "performs env as st1 = Some st'" by (auto split: option.splits)
  have k: "keeps env st st1" using perform_keeps [OF s(1) Cons.prems(2)] Cons.prems(3) by simp
  then show ?case using Cons.IH [OF s(2) keeps_ok [OF k]] Cons.prems(3) by (auto intro: keeps_trans)
qed (simp add: keeps_refl)

text \<open>What the stored users and roles allow.\<close>

definition allowed :: "auth_env \<Rightarrow> string \<Rightarrow> (string \<times> string) option \<Rightarrow> auth_state \<Rightarrow> bool" where
  "allowed env permission credentials st \<longleftrightarrow>
     (case credentials of
        None \<Rightarrow> False
      | Some (user, password) \<Rightarrow>
          (case map_of (as_users st) (ae_lower env user) of
             None \<Rightarrow> False
           | Some u \<Rightarrow>
               ae_IDKey env password (us_Salt u) = us_Password u \<and>
               (ae_lower env (us_Role u) = ''admin'' \<or>
                (case map_of (as_roles st) (ae_lower env (us_Role u)) of None \<Rightarrow> False | Some r \<Rightarrow> permission \<in> set (ro_Permission r)))))"

text \<open>
  C14. After any sequence of operations and restarts, with errors of the storage at any operation, a
  request is let through only when a stored user has the password and the permission. When the
  storage does not fail, it is let through exactly then.
\<close>
theorem requests_need_stored_rights:
  assumes "performs env (OpRestart salt # as) st = Some st1" and "users_ok (as_users st)" and "roles_ok (as_roles st)"
    and "list_all salted (OpRestart salt # as)" and "AuthMiddleware env permission credentials st1 = (v, st2)"
  shows "(v = Passed \<longrightarrow> allowed env permission credentials st1) \<and> (as_faults st = [] \<longrightarrow> (v = Passed \<longleftrightarrow> allowed env permission credentials st1))"
proof -
  obtain st0 where s: "auth_start env salt st = Some st0" "performs env as st0 = Some st1" using assms(1) by (auto split: option.splits)
  have "CHR '':'' \<notin> set salt" using assms(4) by simp
  note start = auth_start_ok [OF s(1) assms(2,3) this]
  have k: "keeps env st0 st1" using performs_keeps [OF s(2) start(1)] assms(4) by simp
  have ok: "auth_ok env st1" by (rule keeps_ok [OF k])
  have cu: "map_of (as_cached_users st1) x = Some u \<Longrightarrow> map_of (as_users st1) x = Some u" for x u using ok by (simp add: auth_ok_def)
  have cp: "map_of (as_cached_permissions st1) x = Some ps \<Longrightarrow> \<exists>r. map_of (as_roles st1) x = Some r \<and> ro_Permission r = ps" for x ps using ok by (auto simp: auth_ok_def)
  note iff = AuthMiddleware_verdict(2) [OF assms(5) ok]
  have "v = Passed \<Longrightarrow> allowed env permission credentials st1"
  proof -
    assume "v = Passed"
    then obtain user password u where u: "credentials = Some (user, password)" "map_of (as_cached_users st1) (ae_lower env user) = Some u"
        "ae_IDKey env password (us_Salt u) = us_Password u"
        "ae_lower env (us_Role u) = ''admin'' \<or> (\<exists>ps. map_of (as_cached_permissions st1) (ae_lower env (us_Role u)) = Some ps \<and> permission \<in> set ps)"
      unfolding iff by blast
    then show ?thesis using cu [OF u(2)] cp by (force simp: allowed_def)
  qed
  moreover have "allowed env permission credentials st1 \<Longrightarrow> v = Passed" if none: "as_faults st = []"
  proof -
    have "users_cached st1" "permissions_cached st1" using start(2) [OF none] k by (simp_all add: keeps_def)
    then have eq: "map_of (as_cached_users st1) x = map_of (as_users st1) x" "map_of (as_cached_permissions st1) x = map_option ro_Permission (map_of (as_roles st1) x)" for x
      by (simp_all add: cached_defs)
    show "allowed env permission credentials st1 \<Longrightarrow> v = Passed" unfolding iff eq by (auto simp: allowed_def split: option.splits prod.splits)
  qed
  ultimately show ?thesis by blast
qed

text \<open>A key derivation that puts the two together, and a store with an administrator and a user.\<close>

definition ex_auth_env :: auth_env where
  "ex_auth_env = \<lparr>ae_lower = (\<lambda>s. s), ae_IDKey = (\<lambda>p s. p @ ''/'' @ s), ae_admin = (''admin'', ''first'')\<rparr>"

definition ex_auth :: "bool list \<Rightarrow> auth_state" where
  "ex_auth faults =
     \<lparr>as_users = [(''admin'', \<lparr>us_ID = ''admin'', us_Name = ''admin'', us_Role = ''admin'', us_Salt = ''s0'', us_Password = ''changed/s0''\<rparr>),
                  (''bob'', \<lparr>us_ID = ''bob'', us_Name = ''Bob'', us_Role = ''reader'', us_Salt = ''s1'', us_Password = ''pw/s1''\<rparr>)],
      as_roles = [(''reader'', \<lparr>ro_ID = ''reader'', ro_Name = ''Reader'', ro_Permission = [''search'']\<rparr>)],
      as_cached_users = [], as_cached_permissions = [], as_generated = [], as_faults = faults\<rparr>"

theorem requests_need_stored_rights_witness:
  "\<exists>st1 st2. performs ex_auth_env [OpRestart ''s2'', OpDeleteUser ''admin''] (ex_auth []) = Some st1 \<and>
     AuthMiddleware ex_auth_env ''search'' (Some (''bob'', ''pw'')) st1 = (Passed, st2) \<and> allowed ex_auth_env ''search'' (Some (''bob'', ''pw'')) st1"
proof -
  let ?p = "performs ex_auth_env (OpRestart ''s2'' # [OpDeleteUser ''admin'']) (ex_auth [])"
  have "\<not> Option.is_none ?p" "users_ok (as_users (ex_auth []))" "roles_ok (as_roles (ex_auth []))" "list_all salted (OpRestart ''s2'' # [OpDeleteUser ''admin''])"
    and v: "map_option (\<lambda>st. fst (AuthMiddleware ex_auth_env ''search'' (Some (''bob'', ''pw'')) st)) ?p = Some Passed" by code_simp+
  then obtain st1 where p: "?p = Some st1" by (auto simp: Option.is_none_def)
  obtain st2 where m: "AuthMiddleware ex_auth_env ''search'' (Some (''bob'', ''pw'')) st1 = (Passed, st2)" using v p by (cases "AuthMiddleware ex_auth_env ''search'' (Some (''bob'', ''pw'')) st1") auto
  show ?thesis
    using requests_need_stored_rights [OF p \<open>users_ok _\<close> \<open>roles_ok _\<close> \<open>list_all salted _\<close> m] p m by auto
qed


end
