(* ===== verification/Routing.thy ===== *)
theory Routing
  imports Prelude
begin

text \<open>
  Which shard a document belongs to (\<open>pkg/zutils/hash\<close> and \<open>GetShardByDocID\<close>): rendezvous hashing over
  the names of the shards with FNV-1a. The shards are added in the order of a Go map, which differs
  from one start of the process to the next.
\<close>

unbundle bit_operations_syntax

section \<open>Hashing\<close>

definition offset64 :: u64 where "offset64 = 14695981039346656037"
definition prime64 :: u64 where "prime64 = 1099511628211"

definition Sum64 :: "string \<Rightarrow> u64" where
  "Sum64 key = foldl (\<lambda>h c. (h XOR of_nat (of_char c)) * prime64) offset64 key"

definition xorshiftMult64 :: "u64 \<Rightarrow> u64" where
  "xorshiftMult64 x =
     (let x1 = x XOR drop_bit 12 x; x2 = x1 XOR push_bit 25 x1; x3 = x2 XOR drop_bit 27 x2
      in x3 * 0x2545F4914F6CDD1D)"

record Rendezvous =
  rz_nodes :: "(string \<times> nat) list"
  rz_nstr :: "string list"
  rz_nhash :: "u64 list"

definition NewRendezvous :: Rendezvous where
  "NewRendezvous = \<lparr>rz_nodes = [], rz_nstr = [], rz_nhash = []\<rparr>"

fun best :: "u64 \<Rightarrow> nat \<Rightarrow> u64 list \<Rightarrow> nat \<Rightarrow> u64 \<Rightarrow> nat \<times> u64" where
  "best khash i [] midx mhash = (midx, mhash)"
| "best khash i (nhash # ns) midx mhash =
     (let h = xorshiftMult64 (khash XOR nhash) in if mhash < h then best khash (i + 1) ns i h else best khash (i + 1) ns midx mhash)"

text \<open>\<open>Lookup\<close> panics when there are no nodes.\<close>

definition rz_Lookup :: "string \<Rightarrow> Rendezvous \<Rightarrow> string option" where
  "rz_Lookup k r = (let (midx, _) = best (Sum64 k) 0 (rz_nhash r) 0 0 in if midx < length (rz_nstr r) then Some (rz_nstr r ! midx) else None)"

definition LookupTopN :: "string \<Rightarrow> nat \<Rightarrow> Rendezvous \<Rightarrow> string list" where
  "LookupTopN k n r =
     (let scored = map (\<lambda>(name, nhash). (name, xorshiftMult64 (Sum64 k XOR nhash))) (zip (rz_nstr r) (rz_nhash r))
      in take n (map fst (sort_Slice (\<lambda>a b. snd b < snd a) scored)))"

definition rz_Contains :: "string \<Rightarrow> Rendezvous \<Rightarrow> bool" where
  "rz_Contains node r \<longleftrightarrow> map_of (rz_nodes r) node \<noteq> None"

definition rz_Add :: "string \<Rightarrow> Rendezvous \<Rightarrow> Rendezvous" where
  "rz_Add node r =
     (if rz_Contains node r then r
      else r\<lparr>rz_nodes := AList.update node (length (rz_nstr r)) (rz_nodes r), rz_nstr := rz_nstr r @ [node], rz_nhash := rz_nhash r @ [Sum64 node]\<rparr>)"

text \<open>\<open>Remove\<close> reads the element behind the last one, which panics.\<close>

definition rz_Remove :: "string \<Rightarrow> Rendezvous \<Rightarrow> Rendezvous option" where
  "rz_Remove node r =
     (let nidx = (case map_of (rz_nodes r) node of None \<Rightarrow> 0 | Some i \<Rightarrow> i); l = length (rz_nstr r) in
      if l < length (rz_nstr r) \<and> l < length (rz_nhash r) \<and> nidx < l then
        (let nstr = take l ((rz_nstr r)[nidx := rz_nstr r ! l]); nhash = take l ((rz_nhash r)[nidx := rz_nhash r ! l])
         in Some (r\<lparr>rz_nstr := nstr, rz_nhash := nhash, rz_nodes := AList.update (nstr ! nidx) nidx (AList.delete node (rz_nodes r))\<rparr>))
      else None)"

text \<open>The hashing of an index: its shards, in the order of a map.\<close>

definition shard_hashing :: "string list \<Rightarrow> Rendezvous" where
  "shard_hashing ids = fold rz_Add ids NewRendezvous"

definition GetShardByDocID :: "string list \<Rightarrow> string \<Rightarrow> string option" where
  "GetShardByDocID ids docID = rz_Lookup docID (shard_hashing ids)"

section \<open>The scores differ\<close>

lemma xor_cancel: "(a :: u64) XOR b = c XOR d \<Longrightarrow> a XOR c = b XOR d"
  unfolding bit_eq_iff bit_xor_iff by blast

lemma xor_zero: "(a :: u64) XOR b = 0 \<Longrightarrow> a = b"
  unfolding bit_eq_iff bit_xor_iff by auto

lemma drop_fixed: "0 < n \<Longrightarrow> (z :: u64) = drop_bit n z \<Longrightarrow> z = 0"
proof -
  assume n: "0 < n" and z: "z = drop_bit n z"
  have "unat z = unat z div 2 ^ n" using z by (metis unat_drop_bit_eq drop_bit_eq_div)
  moreover have "unat z div 2 ^ n < unat z" if "0 < unat z" using that n one_less_power [of "2 :: nat" n] by (intro div_less_dividend) auto
  ultimately show "z = 0" by (metis less_irrefl neq0_conv unat_eq_zero)
qed

lemma push_fixed: "0 < n \<Longrightarrow> (z :: u64) = push_bit n z \<Longrightarrow> z = 0"
proof -
  assume n: "0 < n" and z: "z = push_bit n z"
  have "\<not> bit z k" for k
  proof (induction k rule: less_induct)
    case (less k)
    show ?case
    proof
      assume b: "bit z k"
      then have "bit (push_bit n z) k" using z by simp
      then have "n \<le> k \<and> bit z (k - n)" by (simp add: bit_push_bit_iff)
      then show False using less [of "k - n"] n by simp
    qed
  qed
  then show "z = 0" by (simp add: bit_eq_iff)
qed

lemma xor_drop_inj: "0 < n \<Longrightarrow> (x :: u64) XOR drop_bit n x = y XOR drop_bit n y \<Longrightarrow> x = y"
proof -
  assume n: "0 < n" and eq: "x XOR drop_bit n x = y XOR drop_bit n y"
  have "x XOR y = drop_bit n (x XOR y)" unfolding drop_bit_xor by (rule xor_cancel [OF eq])
  then show "x = y" using drop_fixed [OF n] xor_zero by blast
qed

lemma xor_push_inj: "0 < n \<Longrightarrow> (x :: u64) XOR push_bit n x = y XOR push_bit n y \<Longrightarrow> x = y"
proof -
  assume n: "0 < n" and eq: "x XOR push_bit n x = y XOR push_bit n y"
  have "x XOR y = push_bit n (x XOR y)" unfolding push_bit_xor by (rule xor_cancel [OF eq])
  then show "x = y" using push_fixed [OF n] xor_zero by blast
qed

lemma xorshiftMult64_inj: "xorshiftMult64 x = xorshiftMult64 y \<Longrightarrow> x = y"
proof -
  let ?f = "\<lambda>x :: u64. x XOR drop_bit 12 x" and ?g = "\<lambda>x :: u64. x XOR push_bit 25 x" and ?h = "\<lambda>x :: u64. x XOR drop_bit 27 x"
  assume "xorshiftMult64 x = xorshiftMult64 y"
  then have "?h (?g (?f x)) * 0x2545F4914F6CDD1D = ?h (?g (?f y)) * 0x2545F4914F6CDD1D" by (simp add: xorshiftMult64_def Let_def)
  then have "?h (?g (?f x)) * 0x2545F4914F6CDD1D * 6415128727920758069 = ?h (?g (?f y)) * 0x2545F4914F6CDD1D * 6415128727920758069" by (rule arg_cong)
  moreover have "a * 0x2545F4914F6CDD1D * 6415128727920758069 = a" for a :: u64
  proof -
    have "(0x2545F4914F6CDD1D :: u64) * 6415128727920758069 = 1" by simp
    then show ?thesis unfolding mult.assoc by (simp only: mult.right_neutral)
  qed
  ultimately have "?h (?g (?f x)) = ?h (?g (?f y))" by (simp only:)
  then have "?g (?f x) = ?g (?f y)" by (rule xor_drop_inj [rotated]) simp
  then have "?f x = ?f y" by (rule xor_push_inj [rotated]) simp
  then show "x = y" by (rule xor_drop_inj [rotated]) simp
qed

section \<open>Routing\<close>

definition score :: "string \<Rightarrow> string \<Rightarrow> u64" where
  "score k node = xorshiftMult64 (Sum64 k XOR Sum64 node)"

lemma score_inj: "inj_on Sum64 nodes \<Longrightarrow> inj_on (score k) nodes"
proof (rule inj_onI)
  fix a b
  assume inj: "inj_on Sum64 nodes" and ab: "a \<in> nodes" "b \<in> nodes" and "score k a = score k b"
  then have "Sum64 k XOR Sum64 a = Sum64 k XOR Sum64 b" using xorshiftMult64_inj by (simp add: score_def)
  then have "Sum64 a = Sum64 b" using xor_cancel [of "Sum64 k" "Sum64 a" "Sum64 k" "Sum64 b"] xor_zero by simp
  then show "a = b" using inj ab by (simp add: inj_on_def)
qed

lemma best_max:
  "best (Sum64 k) i (map Sum64 ns) midx mhash = (m, h) \<Longrightarrow>
    mhash \<le> h \<and> (\<forall>n \<in> set ns. score k n \<le> h) \<and> (m = midx \<and> h = mhash \<or> (\<exists>j < length ns. m = i + j \<and> score k (ns ! j) = h))"
proof (induction ns arbitrary: i midx mhash)
  case (Cons n ns)
  show ?case
  proof (cases "mhash < score k n")
    case True
    then have "best (Sum64 k) (i + 1) (map Sum64 ns) i (score k n) = (m, h)" using Cons.prems by (simp add: score_def Let_def)
    note IH = Cons.IH [OF this]
    have "\<exists>j < length (n # ns). m = i + j \<and> score k ((n # ns) ! j) = h"
    proof (cases "m = i \<and> h = score k n")
      case True
      then show ?thesis by (intro exI [of _ 0]) simp
    next
      case False
      then obtain j where "j < length ns" "m = i + 1 + j" "score k (ns ! j) = h" using IH by blast
      then show ?thesis by (intro exI [of _ "Suc j"]) simp
    qed
    then show ?thesis using IH True by auto
  next
    case False
    then have "best (Sum64 k) (i + 1) (map Sum64 ns) midx mhash = (m, h)" using Cons.prems by (simp add: score_def Let_def)
    note IH = Cons.IH [OF this]
    have "\<exists>j < length (n # ns). m = i + j \<and> score k ((n # ns) ! j) = h" if "j < length ns" "m = i + 1 + j" "score k (ns ! j) = h" for j
      using that by (intro exI [of _ "Suc j"]) simp
    then show ?thesis using IH False by auto
  qed
qed simp

lemma shard_hashing_state: "distinct ids \<Longrightarrow> rz_nstr (shard_hashing ids) = ids \<and> rz_nhash (shard_hashing ids) = map Sum64 ids \<and> fst ` set (rz_nodes (shard_hashing ids)) = set ids"
proof (induction ids rule: rev_induct)
  case (snoc x xs)
  then have IH: "rz_nstr (shard_hashing xs) = xs" "rz_nhash (shard_hashing xs) = map Sum64 xs" "fst ` set (rz_nodes (shard_hashing xs)) = set xs" by auto
  have "map_of (rz_nodes (shard_hashing xs)) x = None" using IH(3) snoc.prems by (simp add: map_of_eq_None_iff)
  moreover have "shard_hashing (xs @ [x]) = rz_Add x (shard_hashing xs)" by (simp add: shard_hashing_def)
  ultimately show ?case using IH by (simp add: rz_Add_def rz_Contains_def dom_update)
qed (simp add: shard_hashing_def NewRendezvous_def)

text \<open>The shard of a document is the one with the highest score.\<close>

lemma GetShardByDocID_best:
  assumes "distinct ids" and "ids \<noteq> []"
  shows "\<exists>x. GetShardByDocID ids docID = Some x \<and> x \<in> set ids \<and> (\<forall>y \<in> set ids. score docID y \<le> score docID x)"
proof -
  note st = shard_hashing_state [OF assms(1)]
  obtain m h where b: "best (Sum64 docID) 0 (map Sum64 ids) 0 0 = (m, h)" by (cases "best (Sum64 docID) 0 (map Sum64 ids) 0 0")
  note bm = best_max [OF b]
  have "m < length ids \<and> (\<forall>y \<in> set ids. score docID y \<le> score docID (ids ! m))"
  proof (cases "m = 0 \<and> h = 0")
    case True
    have "score docID y = 0" if "y \<in> set ids" for y using bm that True by (metis word_le_0_iff)
    then show ?thesis using True assms(2) by auto
  next
    case False
    then show ?thesis using bm by auto
  qed
  then show ?thesis using b st by (auto simp: GetShardByDocID_def rz_Lookup_def)
qed



end
