(* ===== verification/Aliases.thy ===== *)
theory Aliases
  imports Prelude "HOL-Library.Multiset"
begin

text \<open>
  Aliases of indexes (\<open>pkg/core/aliaslist.go\<close> and \<open>IndexAliasMiddleware\<close>): the list in memory, which is
  stored as a whole after every change, and the queries on it. A Go map is an association list.
\<close>

record AliasList =
  al_Aliases :: "(string \<times> string list) list"
  al_stored :: "(string \<times> string list) list"

definition SliceExists :: "string list \<Rightarrow> string \<Rightarrow> bool" where
  "SliceExists xs x \<longleftrightarrow> list_ex (\<lambda>s. s = x) xs"

text \<open>\<open>ok\<close> says whether storing the list succeeds.\<close>

definition alias_store :: "bool \<Rightarrow> AliasList \<Rightarrow> bool \<times> AliasList" where
  "alias_store ok al = (if ok then (True, al\<lparr>al_stored := al_Aliases al\<rparr>) else (False, al))"

definition AddIndexesToAlias :: "bool \<Rightarrow> string \<Rightarrow> string list \<Rightarrow> AliasList \<Rightarrow> bool \<times> AliasList" where
  "AddIndexesToAlias ok alias indexes al =
     alias_store ok (al\<lparr>al_Aliases := AList.update alias ((case map_of (al_Aliases al) alias of None \<Rightarrow> [] | Some xs \<Rightarrow> xs) @ indexes) (al_Aliases al)\<rparr>)"

text \<open>The loop that moves what is removed behind the end, in place.\<close>

function swap_out :: "(string \<Rightarrow> bool) \<Rightarrow> nat \<Rightarrow> nat \<Rightarrow> string list \<Rightarrow> nat \<times> string list" where
  "swap_out gone i lastIndex xs =
     (if i < lastIndex then
        if gone (xs ! i) then swap_out gone i (lastIndex - 1) (xs[lastIndex - 1 := xs ! i, i := xs ! (lastIndex - 1)])
        else swap_out gone (i + 1) lastIndex xs
      else (lastIndex, xs))"
  by pat_completeness auto
termination by (relation "measure (\<lambda>(_, i, lastIndex, _). lastIndex - i)") auto

declare swap_out.simps [simp del]

definition RemoveIndexesFromAlias :: "bool \<Rightarrow> string \<Rightarrow> string list \<Rightarrow> AliasList \<Rightarrow> bool \<times> AliasList" where
  "RemoveIndexesFromAlias ok alias removeIndexes al =
     (case map_of (al_Aliases al) alias of
        None \<Rightarrow> (True, al)
      | Some indexes \<Rightarrow>
          (let (lastIndex, xs) = swap_out (\<lambda>x. x \<in> set removeIndexes) 0 (length indexes) indexes
           in alias_store ok (al\<lparr>al_Aliases := AList.update alias (take lastIndex xs) (al_Aliases al)\<rparr>)))"

definition GetIndexesForAlias :: "string \<Rightarrow> AliasList \<Rightarrow> string list option" where
  "GetIndexesForAlias alias al = map_of (al_Aliases al) alias"

definition GetAliasesForIndex :: "string \<Rightarrow> AliasList \<Rightarrow> string list" where
  "GetAliasesForIndex index al = map fst (filter (\<lambda>(_, indexes). SliceExists indexes index) (al_Aliases al))"

text \<open>The map from indexes to their aliases; the aliases of an index are a set.\<close>

definition aliases_of :: "(string \<times> string list) list \<Rightarrow> string \<Rightarrow> string list" where
  "aliases_of m index = (case map_of m index of None \<Rightarrow> [] | Some as \<Rightarrow> as)"

definition enter_alias :: "string \<Rightarrow> string \<Rightarrow> (string \<times> string list) list \<Rightarrow> (string \<times> string list) list" where
  "enter_alias alias index m = AList.update index (List.insert alias (aliases_of m index)) m"

definition GetAliasMap :: "string list \<Rightarrow> string list \<Rightarrow> AliasList \<Rightarrow> (string \<times> string list) list" where
  "GetAliasMap targetIndexes targetAliases al =
     fold (\<lambda>(alias, indexes) m.
         if targetAliases \<noteq> [] \<and> \<not> SliceExists targetAliases alias then m
         else fold (\<lambda>index m. if targetIndexes \<noteq> [] \<and> \<not> SliceExists targetIndexes index then m else enter_alias alias index m) indexes m)
       (al_Aliases al) []"

text \<open>The middleware: the first parameter of the route called \<open>target\<close>, when it is an alias, is replaced by its indexes, joined with commas.\<close>

fun join_comma :: "string list \<Rightarrow> string" where
  "join_comma [] = []"
| "join_comma [x] = x"
| "join_comma (x # xs) = x @ '','' @ join_comma xs"

definition IndexAliasMiddleware :: "AliasList \<Rightarrow> (string \<times> string) list \<Rightarrow> (string \<times> string) list" where
  "IndexAliasMiddleware al params =
     (let ix = length (takeWhile (\<lambda>entry. fst entry \<noteq> ''target'') params);
          target = (if ix < length params then snd (params ! ix) else [])
      in if target = [] then params
         else case GetIndexesForAlias target al of
           None \<Rightarrow> params
         | Some indexes \<Rightarrow> if join_comma indexes \<noteq> [] then params[ix := (''target'', join_comma indexes)] else params)"

section \<open>Removing\<close>

lemma mset_exchange: "i < length xs \<Longrightarrow> j < length xs \<Longrightarrow> mset (xs[j := xs ! i, i := xs ! j]) = mset xs"
  using mset_swap [of j xs i] by (cases "i = j") (simp_all add: list_update_swap)

lemma swap_out_keeps:
  assumes "swap_out gone i l xs = (l', ys)" and "i \<le> l" and "l \<le> length xs" and "\<forall>j < i. \<not> gone (xs ! j)" and "\<forall>j. l \<le> j \<and> j < length xs \<longrightarrow> gone (xs ! j)"
  shows "mset ys = mset xs \<and> l' \<le> length ys \<and> (\<forall>j < l'. \<not> gone (ys ! j)) \<and> (\<forall>j. l' \<le> j \<and> j < length ys \<longrightarrow> gone (ys ! j))"
  using assms
proof (induction gone i l xs rule: swap_out.induct)
  case (1 gone i l xs)
  show ?case
  proof (cases "i < l")
    case False
    then have "swap_out gone i l xs = (l, xs)" by (simp add: swap_out.simps [of gone i l xs])
    then have "l' = l" "ys = xs" "i = l" using 1(3,4) False by auto
    then show ?thesis using 1(5-7) by simp
  next
    case il: True
    show ?thesis
    proof (cases "gone (xs ! i)")
      case False
      then have "swap_out gone (i + 1) l xs = (l', ys)" using 1(3) il by (simp add: swap_out.simps [of gone i l xs])
      then show ?thesis using 1(2) [OF il False] 1(5-7) il False by (auto simp: less_Suc_eq)
    next
      case True
      let ?zs = "xs[l - 1 := xs ! i, i := xs ! (l - 1)]"
      have s: "swap_out gone i (l - 1) ?zs = (l', ys)" using 1(3) il True by (simp add: swap_out.simps [of gone i l xs])
      have m: "mset ?zs = mset xs" using il 1(5) by (intro mset_exchange) auto
      have "mset ys = mset ?zs \<and> l' \<le> length ys \<and> (\<forall>j < l'. \<not> gone (ys ! j)) \<and> (\<forall>j. l' \<le> j \<and> j < length ys \<longrightarrow> gone (ys ! j))"
      proof (rule 1(1) [OF il True s])
        show "i \<le> l - 1" "l - 1 \<le> length ?zs" using il 1(5) by auto
        show "\<forall>j < i. \<not> gone (?zs ! j)" using 1(6) il 1(5) by (auto simp: nth_list_update)
        show "\<forall>j. l - 1 \<le> j \<and> j < length ?zs \<longrightarrow> gone (?zs ! j)"
        proof (intro allI impI)
          fix j assume j: "l - 1 \<le> j \<and> j < length ?zs"
          show "gone (?zs ! j)"
          proof (cases "j = l - 1")
            case True
            then show ?thesis using \<open>gone (xs ! i)\<close> il 1(5) by (auto simp: nth_list_update)
          next
            case False
            then have "l \<le> j" "j \<noteq> i" using j il by auto
            then show ?thesis using 1(7) j False by (auto simp: nth_list_update)
          qed
        qed
      qed
      then show ?thesis using m by simp
    qed
  qed
qed

lemma swap_out_filter:
  assumes "swap_out gone 0 (length xs) xs = (l, ys)"
  shows "mset (take l ys) = filter_mset (\<lambda>x. \<not> gone x) (mset xs)"
proof -
  have v: "\<forall>j. length xs \<le> j \<and> j < length xs \<longrightarrow> gone (xs ! j)" by auto
  have k: "mset ys = mset xs" "l \<le> length ys" "\<forall>j < l. \<not> gone (ys ! j)" "\<forall>j. l \<le> j \<and> j < length ys \<longrightarrow> gone (ys ! j)" using swap_out_keeps [OF assms le0 le_refl _ v] by auto
  have "filter (\<lambda>x. \<not> gone x) (take l ys) = take l ys" using k(2,3) by (intro filter_True) (auto simp: in_set_conv_nth)
  moreover have "filter (\<lambda>x. \<not> gone x) (drop l ys) = []" using k(4) by (auto simp: filter_empty_conv in_set_conv_nth)
  ultimately have "filter (\<lambda>x. \<not> gone x) ys = take l ys" by (metis append_Nil2 append_take_drop_id filter_append)
  then show ?thesis using k(1) by (metis mset_filter)
qed

section \<open>Which aliases an index has\<close>

lemma enter_alias_mem: "alias \<in> set (aliases_of (enter_alias a i m) index) \<longleftrightarrow>
    a = alias \<and> i = index \<or> alias \<in> set (aliases_of m index)"
  by (auto simp: enter_alias_def aliases_of_def update_conv' split: option.splits)

lemma enter_indexes_mem:
  "alias \<in> set (aliases_of (fold (\<lambda>i m. if P i then m else enter_alias a i m) is m) index) \<longleftrightarrow>
    a = alias \<and> index \<in> set is \<and> \<not> P index \<or> alias \<in> set (aliases_of m index)"
  by (induction "is" arbitrary: m) (auto simp: enter_alias_mem)

lemma GetAliasMap_mem:
  "alias \<in> set (aliases_of (GetAliasMap targetIndexes targetAliases al) index) \<longleftrightarrow>
    (\<exists>indexes. (alias, indexes) \<in> set (al_Aliases al) \<and> index \<in> set indexes) \<and>
    (targetAliases = [] \<or> alias \<in> set targetAliases) \<and> (targetIndexes = [] \<or> index \<in> set targetIndexes)"
proof -
  let ?f = "\<lambda>(alias, indexes) m.
         if targetAliases \<noteq> [] \<and> \<not> SliceExists targetAliases alias then m
         else fold (\<lambda>index m. if targetIndexes \<noteq> [] \<and> \<not> SliceExists targetIndexes index then m else enter_alias alias index m) indexes m"
  have ex: "SliceExists xs x \<longleftrightarrow> x \<in> set xs" for xs x by (auto simp: SliceExists_def list_ex_iff)
  have "alias \<in> set (aliases_of (fold ?f as m) index) \<longleftrightarrow>
      (\<exists>indexes. (alias, indexes) \<in> set as \<and> index \<in> set indexes) \<and> (targetAliases = [] \<or> alias \<in> set targetAliases) \<and> (targetIndexes = [] \<or> index \<in> set targetIndexes) \<or>
      alias \<in> set (aliases_of m index)" for as m
  proof (induction as arbitrary: m)
    case (Cons x as)
    obtain a b where x: "x = (a, b)" by (cases x)
    have "alias \<in> set (aliases_of (?f x m) index) \<longleftrightarrow>
        alias = a \<and> index \<in> set b \<and> (targetAliases = [] \<or> alias \<in> set targetAliases) \<and> (targetIndexes = [] \<or> index \<in> set targetIndexes) \<or>
        alias \<in> set (aliases_of m index)"
      unfolding x split_conv ex by (cases "targetAliases \<noteq> [] \<and> a \<notin> set targetAliases") (auto simp: enter_indexes_mem)
    then show ?case using Cons.IH [of "?f x m"] by (auto simp: x)
  qed simp
  from this [of "al_Aliases al" "[]"] show ?thesis by (simp add: GetAliasMap_def aliases_of_def)
qed

text \<open>
  Removing indexes from an alias, which is done in place, leaves exactly the others, each as often
  as before, and no other alias changes; the map of aliases then has an index under an alias exactly
  when it was there and was not removed. When storing fails, the list in memory has changed all the same.
\<close>
theorem RemoveIndexesFromAlias_exact:
  assumes "RemoveIndexesFromAlias ok alias removed al = (r, al')" and "distinct (map fst (al_Aliases al))"
  shows "(\<forall>xs. GetIndexesForAlias alias al = Some xs \<longrightarrow> r = ok \<and>
      (\<exists>ys. GetIndexesForAlias alias al' = Some ys \<and> mset ys = filter_mset (\<lambda>x. x \<notin> set removed) (mset xs))) \<and>
    (\<forall>a. a \<noteq> alias \<longrightarrow> GetIndexesForAlias a al' = GetIndexesForAlias a al) \<and>
    (\<forall>a index. a \<in> set (aliases_of (GetAliasMap [] [] al') index) \<longleftrightarrow>
       (\<exists>xs. GetIndexesForAlias a al = Some xs \<and> index \<in> set xs) \<and> \<not> (a = alias \<and> index \<in> set removed))"
proof -
  let ?gone = "\<lambda>x. x \<in> set removed"
  have one: "(\<forall>xs. GetIndexesForAlias alias al = Some xs \<longrightarrow> r = ok \<and>
      (\<exists>ys. GetIndexesForAlias alias al' = Some ys \<and> mset ys = filter_mset (\<lambda>x. x \<notin> set removed) (mset xs))) \<and>
    (\<forall>a. a \<noteq> alias \<longrightarrow> GetIndexesForAlias a al' = GetIndexesForAlias a al) \<and> distinct (map fst (al_Aliases al')) \<and> (GetIndexesForAlias alias al = None \<longrightarrow> al' = al)"
  proof (cases "map_of (al_Aliases al) alias")
    case None
    then show ?thesis using assms by (simp add: RemoveIndexesFromAlias_def GetIndexesForAlias_def)
  next
    case (Some xs)
    obtain l ys where s: "swap_out ?gone 0 (length xs) xs = (l, ys)" by (cases "swap_out ?gone 0 (length xs) xs")
    have "al_Aliases al' = AList.update alias (take l ys) (al_Aliases al)" "r = ok"
      using assms(1) Some s by (auto simp: RemoveIndexesFromAlias_def alias_store_def split: if_splits)
    then show ?thesis using Some swap_out_filter [OF s] assms(2) by (simp add: GetIndexesForAlias_def update_conv' distinct_update)
  qed
  have "(\<exists>ys. (a, ys) \<in> set (al_Aliases al') \<and> index \<in> set ys) \<longleftrightarrow> (\<exists>xs. GetIndexesForAlias a al = Some xs \<and> index \<in> set xs) \<and> \<not> (a = alias \<and> ?gone index)" for a index
  proof -
    have "(\<exists>ys. (a, ys) \<in> set (al_Aliases al') \<and> index \<in> set ys) \<longleftrightarrow> (\<exists>ys. GetIndexesForAlias a al' = Some ys \<and> index \<in> set ys)"
      using one unfolding GetIndexesForAlias_def by (metis map_of_SomeD map_of_eq_Some_iff)
    also have "\<dots> \<longleftrightarrow> (\<exists>xs. GetIndexesForAlias a al = Some xs \<and> index \<in> set xs) \<and> \<not> (a = alias \<and> ?gone index)"
    proof (cases "a = alias")
      case True
      show ?thesis
      proof (cases "GetIndexesForAlias alias al")
        case (Some xs)
        then obtain ys where ys: "GetIndexesForAlias alias al' = Some ys" "mset ys = filter_mset (\<lambda>x. \<not> ?gone x) (mset xs)" using one by blast
        have "set ys = {x \<in> set xs. \<not> ?gone x}" using arg_cong [OF ys(2), of set_mset] by simp
        then show ?thesis using True Some ys(1) by auto
      qed (use True one in auto)
    qed (use one in auto)
    finally show ?thesis .
  qed
  then show ?thesis using one by (simp add: GetAliasMap_mem)
qed

theorem RemoveIndexesFromAlias_exact_witness:
  "\<exists>al' ys. RemoveIndexesFromAlias True ''a'' [''x''] \<lparr>al_Aliases = [(''a'', [''x'', ''y'', ''x'', ''z'']), (''b'', [''x''])], al_stored = []\<rparr> = (True, al') \<and>
     GetIndexesForAlias ''a'' al' = Some ys \<and> mset ys = {#''y'', ''z''#} \<and> GetIndexesForAlias ''b'' al' = Some [''x'']"
proof -
  let ?al = "\<lparr>al_Aliases = [(''a'', [''x'', ''y'', ''x'', ''z'']), (''b'', [''x''])], al_stored = []\<rparr>"
  obtain r al' where c: "RemoveIndexesFromAlias True ''a'' [''x''] ?al = (r, al')" by (cases "RemoveIndexesFromAlias True ''a'' [''x''] ?al")
  from RemoveIndexesFromAlias_exact [OF c] show ?thesis using c by (auto simp: GetIndexesForAlias_def)
qed

end
