(* ===== verification/Doc_Handlers.thy ===== *)
theory Doc_Handlers
  imports Json
begin

text \<open>
  Writing documents to a node directly (\<open>pkg/handlers/document\<close>): the bulk format with its alternating
  lines of actions and documents, lines of documents, and single documents. The operations of the
  indexes are an argument, a record of functions on a state; each of them may fail. A panic is an
  outcome of its own.
\<close>

section \<open>Lines\<close>

text \<open>
  \<open>bufio.Scanner\<close> with a largest line: a line that fills the buffer without its end stops the scan with an
  error; what comes before a read error is still a line.
\<close>

definition strip_CR :: "string \<Rightarrow> string" where
  "strip_CR s = (if s \<noteq> [] \<and> last s = CHR 0x0D then butlast s else s)"

definition raw_lines :: "string \<Rightarrow> string list" where
  "raw_lines s = (let ps = Split_char (CHR 0x0A) s in if last ps = [] then butlast ps else ps)"

definition Scan :: "nat \<Rightarrow> string \<Rightarrow> bool \<Rightarrow> string list \<times> bool" where
  "Scan maxLine s broken =
     (let ls = raw_lines s; fit = takeWhile (\<lambda>l. length l < maxLine) ls
      in (map strip_CR fit, broken \<or> maxLine = 0 \<or> length fit < length ls))"

section \<open>The operations of the node\<close>

record 'n doc_ops =
  do_GetOrCreateIndex :: "string \<Rightarrow> 'n \<Rightarrow> bool \<times> 'n"
  do_GetIndex :: "string \<Rightarrow> 'n \<Rightarrow> bool"
  do_CreateDocument :: "string \<Rightarrow> string \<Rightarrow> json \<Rightarrow> bool \<Rightarrow> 'n \<Rightarrow> bool \<times> 'n"
  do_UpdateDocument :: "string \<Rightarrow> string \<Rightarrow> json \<Rightarrow> bool \<Rightarrow> 'n \<Rightarrow> bool \<times> 'n"
  do_DeleteDocument :: "string \<Rightarrow> string \<Rightarrow> 'n \<Rightarrow> bool \<times> 'n"
  do_GetDocument :: "string \<Rightarrow> string \<Rightarrow> 'n \<Rightarrow> json option"
  do_Generate :: "'n \<Rightarrow> string \<times> 'n"

datatype doc_error = FormatError | IndexError | DocumentError | ScanError

text \<open>The outcome of a call: it returns, or it panics; what was done to the node remains.\<close>

datatype 'a call = Returned 'a | Panicked

section \<open>Bulk requests\<close>

record BulkResponseItem =
  bi_action :: string
  bi_Index :: string
  bi_ID :: string
  bi_Result :: string
  bi_Status :: nat
  bi_SeqNo :: int
  bi_failed :: bool

record BulkResponse =
  br_Count :: nat
  br_Items :: "BulkResponseItem list"

record bulk_state = BulkResponse +
  bs_nextLineIsData :: bool
  bs_meta :: object

definition bulk_start :: bulk_state where
  "bulk_start = \<lparr>br_Count = 0, br_Items = [], bs_nextLineIsData = False, bs_meta = []\<rparr>"

text \<open>An item of the answer: the action it is listed under, and whether it has an error text; its status is always 200.\<close>

definition NewBulkResponseItem :: "int \<Rightarrow> string \<Rightarrow> nat \<Rightarrow> string \<Rightarrow> string \<Rightarrow> string \<Rightarrow> bool \<Rightarrow> BulkResponseItem" where
  "NewBulkResponseItem globalSeqNo action seqNo index ident result failed =
     \<lparr>bi_action = action, bi_Index = index, bi_ID = ident, bi_Result = result, bi_Status = 200,
      bi_SeqNo = globalSeqNo + int seqNo, bi_failed = failed\<rparr>"

text \<open>A member of a map, nil when it is missing.\<close>

definition map_get :: "(string \<times> json) list \<Rightarrow> string \<Rightarrow> json" where
  "map_get m k = (case map_of m k of None \<Rightarrow> JNull | Some v \<Rightarrow> v)"

text \<open>
  A step goes on or returns from the whole call: with an error, and with the response so far or without
  one.
\<close>

datatype bulk_step = Go_on bulk_state | Stop "BulkResponse option" doc_error

definition add_item :: "BulkResponseItem \<Rightarrow> bulk_state \<Rightarrow> bulk_state" where
  "add_item it b = b\<lparr>br_Items := br_Items b @ [it]\<rparr>"

definition data_item :: "int \<Rightarrow> string \<Rightarrow> string \<Rightarrow> string \<Rightarrow> bulk_state \<Rightarrow> bulk_state" where
  "data_item seqNo operation index ident b =
     (if operation = ''index'' \<or> operation = ''create'' then add_item (NewBulkResponseItem seqNo ''index'' (br_Count b) index ident ''created'' False) b
      else if operation = ''update'' then add_item (NewBulkResponseItem seqNo ''index'' (br_Count b) index ident ''updated'' False) b
      else b)"

text \<open>The ID of a document, \<open>None\<close> for a value that is not a string.\<close>

fun string_or_empty :: "json \<Rightarrow> string option" where
  "string_or_empty (JStr s) = Some s"
| "string_or_empty JNull = Some []"
| "string_or_empty _ = None"

definition new_id :: "'n doc_ops \<Rightarrow> string \<Rightarrow> 'n \<Rightarrow> string \<times> bool \<times> 'n" where
  "new_id ops ident n = (if ident = [] then (case do_Generate ops n of (g, n1) \<Rightarrow> (g, False, n1)) else (ident, True, n))"

definition data_line :: "'n doc_ops \<Rightarrow> int \<Rightarrow> string \<Rightarrow> json \<Rightarrow> bulk_state \<Rightarrow> 'n \<Rightarrow> bulk_step call \<times> 'n" where
  "data_line ops seqNo target doc b n =
     (let b1 = b\<lparr>br_Count := br_Count b + 1, bs_nextLineIsData := False\<rparr> in
      case string_or_empty (map_get (bs_meta b) ''_id'') of
        None \<Rightarrow> (Panicked, n)
      | Some ident \<Rightarrow>
          (let (docID, update, n1) = new_id ops ident n;
               or_default = (\<lambda>v dflt. if v = JNull \<and> target \<noteq> [] then JStr dflt else v)
           in case (or_default (map_get (bs_meta b) ''_index'') target, or_default (map_get (bs_meta b) ''operation'') ''create'') of
                (JStr index, JStr operation) \<Rightarrow>
                  (let b2 = data_item seqNo operation index docID b1 in
                   case do_GetOrCreateIndex ops index n1 of
                     (False, n2) \<Rightarrow> (Returned (Stop (Some (BulkResponse.truncate b2)) IndexError), n2)
                   | (True, n2) \<Rightarrow>
                       (case do_CreateDocument ops index docID doc update n2 of
                          (False, n3) \<Rightarrow> (Returned (Stop (Some (BulkResponse.truncate b2)) DocumentError), n3)
                        | (True, n3) \<Rightarrow> (Returned (Go_on b2), n3)))
              | _ \<Rightarrow> (Panicked, n1)))"

text \<open>A deletion is done at once.\<close>

definition delete_action :: "'n doc_ops \<Rightarrow> int \<Rightarrow> string \<Rightarrow> object \<Rightarrow> bulk_state \<Rightarrow> 'n \<Rightarrow> bulk_step call \<times> 'n" where
  "delete_action ops seqNo target vm b n =
     (case map_get vm ''_id'' of
        JStr docID \<Rightarrow>
          (case (if map_get vm ''_index'' \<noteq> JStr [] then map_get vm ''_index'' else JStr target) of
             JStr index \<Rightarrow>
               if index = [] then (Returned (Stop None FormatError), n)
               else (case do_GetOrCreateIndex ops index n of
                       (False, n1) \<Rightarrow> (Returned (Stop (Some (BulkResponse.truncate b)) IndexError), n1)
                     | (True, n1) \<Rightarrow>
                         (case do_DeleteDocument ops index docID n1 of
                            (ok, n2) \<Rightarrow>
                              (let b1 = b\<lparr>br_Count := br_Count b + 1\<rparr>
                               in (Returned (Go_on (add_item (NewBulkResponseItem seqNo ''delete'' (br_Count b1) index docID ''deleted'' (\<not> ok)) b1)), n2))))
           | _ \<Rightarrow> (Panicked, n))
      | _ \<Rightarrow> (Panicked, n))"

definition action_member :: "'n doc_ops \<Rightarrow> int \<Rightarrow> string \<Rightarrow> string \<times> json \<Rightarrow> bulk_state \<Rightarrow> 'n \<Rightarrow> bulk_step call \<times> 'n" where
  "action_member ops seqNo target kv b n =
     (case snd kv of
        JObj vm \<Rightarrow>
          if fst kv = ''index'' \<or> fst kv = ''create'' \<or> fst kv = ''update'' then
            (let index = (if map_get vm ''_index'' \<noteq> JStr [] then map_get vm ''_index'' else JStr target) in
             if index = JStr [] then (Returned (Stop None FormatError), n)
             else (Returned (Go_on (b\<lparr>bs_nextLineIsData := True,
                     bs_meta := [(''operation'', JStr (fst kv)), (''_index'', index), (''_id'', map_get vm ''_id'')]\<rparr>)), n))
          else if fst kv = ''delete'' then delete_action ops seqNo target vm (b\<lparr>bs_nextLineIsData := False, bs_meta := []\<rparr>) n
          else (Returned (Go_on (b\<lparr>bs_meta := [(''_index'', JStr target), (''operation'', JStr ''index'')]\<rparr>)), n)
      | _ \<Rightarrow> (Returned (Stop None FormatError), n))"

fun action_line :: "'n doc_ops \<Rightarrow> int \<Rightarrow> string \<Rightarrow> object \<Rightarrow> bulk_state \<Rightarrow> 'n \<Rightarrow> bulk_step call \<times> 'n" where
  "action_line ops seqNo target [] b n = (Returned (Go_on b), n)"
| "action_line ops seqNo target (kv # kvs) b n =
     (case action_member ops seqNo target kv b n of
        (Returned (Go_on b1), n1) \<Rightarrow> action_line ops seqNo target kvs b1 n1
      | r \<Rightarrow> r)"

text \<open>
  \<open>unmarshal\<close> stands for the decoder: the members of a line in the order in which the loop over the
  map visits them. A line that is not JSON, or not an object, is left out; \<open>null\<close> is an empty one.
\<close>

fun bulk_lines :: "'n doc_ops \<Rightarrow> ('l \<Rightarrow> object option option) \<Rightarrow> int \<Rightarrow> string \<Rightarrow> 'l list \<Rightarrow> bulk_state \<Rightarrow> 'n \<Rightarrow> bulk_step call \<times> 'n" where
  "bulk_lines ops unmarshal seqNo target [] b n = (Returned (Go_on b), n)"
| "bulk_lines ops unmarshal seqNo target (l # ls) b n =
     (case unmarshal l of
        None \<Rightarrow> bulk_lines ops unmarshal seqNo target ls b n
      | Some doc \<Rightarrow>
          (case (if bs_nextLineIsData b then data_line ops seqNo target (case doc of None \<Rightarrow> JNull | Some kvs \<Rightarrow> JObj kvs) b n
                 else action_line ops seqNo target (case doc of None \<Rightarrow> [] | Some kvs \<Rightarrow> kvs) b n) of
             (Returned (Go_on b1), n1) \<Rightarrow> bulk_lines ops unmarshal seqNo target ls b1 n1
           | r \<Rightarrow> r))"

text \<open>The response, which may be nil, and the error.\<close>

definition BulkWorker :: "'n doc_ops \<Rightarrow> (string \<Rightarrow> object option option) \<Rightarrow> nat \<Rightarrow> int \<Rightarrow> string \<Rightarrow> string \<Rightarrow> bool \<Rightarrow> 'n \<Rightarrow>
    (BulkResponse option \<times> doc_error option) call \<times> 'n" where
  "BulkWorker ops unmarshal maxLine seqNo target body broken n =
     (let (ls, bad) = Scan maxLine body broken in
      case bulk_lines ops unmarshal seqNo target ls bulk_start n of
        (Panicked, n1) \<Rightarrow> (Panicked, n1)
      | (Returned (Stop b err), n1) \<Rightarrow> (Returned (b, Some err), n1)
      | (Returned (Go_on b), n1) \<Rightarrow> (Returned (Some (BulkResponse.truncate b), if bad then Some ScanError else None), n1))"

record bulk_answer =
  ba_status :: nat
  ba_error :: bool
  ba_errors :: bool
  ba_count :: nat
  ba_items :: "BulkResponseItem list"

definition Bulk :: "'n doc_ops \<Rightarrow> (string \<Rightarrow> object option option) \<Rightarrow> nat \<Rightarrow> int \<Rightarrow> string \<Rightarrow> string \<Rightarrow> bool \<Rightarrow> 'n \<Rightarrow> bulk_answer call \<times> 'n" where
  "Bulk ops unmarshal maxLine seqNo target body broken n =
     (case BulkWorker ops unmarshal maxLine seqNo target body broken n of
        (Panicked, n1) \<Rightarrow> (Panicked, n1)
      | (Returned (b, Some err), n1) \<Rightarrow> (Returned \<lparr>ba_status = 500, ba_error = True, ba_errors = False, ba_count = 0, ba_items = []\<rparr>, n1)
      | (Returned (None, None), n1) \<Rightarrow> (Panicked, n1)
      | (Returned (Some b, None), n1) \<Rightarrow> (Returned \<lparr>ba_status = 200, ba_error = False, ba_errors = False, ba_count = br_Count b, ba_items = []\<rparr>, n1))"

text \<open>
  \<open>ESBulk\<close> writes the error into the response, which panics when there is none; its field \<open>errors\<close> is never
  set. The sequence number for the next request is returned too.
\<close>

definition ESBulk :: "'n doc_ops \<Rightarrow> (string \<Rightarrow> object option option) \<Rightarrow> nat \<Rightarrow> int \<Rightarrow> string \<Rightarrow> string \<Rightarrow> bool \<Rightarrow> 'n \<Rightarrow> (bulk_answer \<times> int) call \<times> 'n" where
  "ESBulk ops unmarshal maxLine seqNo target body broken n =
     (case BulkWorker ops unmarshal maxLine seqNo target body broken n of
        (Panicked, n1) \<Rightarrow> (Panicked, n1)
      | (Returned (None, err), n1) \<Rightarrow> (Panicked, n1)
      | (Returned (Some b, err), n1) \<Rightarrow>
          (Returned (\<lparr>ba_status = 200, ba_error = (err \<noteq> None), ba_errors = False, ba_count = br_Count b, ba_items = br_Items b\<rparr>, seqNo + int (br_Count b)), n1))"

section \<open>Documents\<close>

text \<open>One document with the ID it has under \<open>_id\<close>, if any.\<close>

definition put_document :: "'n doc_ops \<Rightarrow> string \<Rightarrow> json \<Rightarrow> string option \<Rightarrow> 'n \<Rightarrow> bool call \<times> 'n" where
  "put_document ops index doc ident n =
     (case ident of
        None \<Rightarrow> (Panicked, n)
      | Some i \<Rightarrow>
          (case new_id ops i n of
             (docID, update, n1) \<Rightarrow> (case do_CreateDocument ops index docID doc update n1 of (ok, n2) \<Rightarrow> (Returned ok, n2))))"

fun put_documents :: "'n doc_ops \<Rightarrow> string \<Rightarrow> (json \<times> string option) list \<Rightarrow> nat \<Rightarrow> 'n \<Rightarrow> (nat \<times> bool) call \<times> 'n" where
  "put_documents ops index [] count n = (Returned (count, True), n)"
| "put_documents ops index ((doc, ident) # ds) count n =
     (case put_document ops index doc ident n of
        (Panicked, n1) \<Rightarrow> (Panicked, n1)
      | (Returned False, n1) \<Rightarrow> (Returned (count, False), n1)
      | (Returned True, n1) \<Rightarrow> put_documents ops index ds (count + 1) n1)"

definition doc_members :: "object option \<Rightarrow> object" where
  "doc_members d = (case d of None \<Rightarrow> [] | Some kvs \<Rightarrow> kvs)"

definition with_id :: "object option \<Rightarrow> json \<times> string option" where
  "with_id d = (case d of None \<Rightarrow> JNull | Some kvs \<Rightarrow> JObj kvs, string_or_empty (map_get (doc_members d) ''_id''))"

text \<open>The number of documents written, and the error.\<close>

definition MultiWorker :: "'n doc_ops \<Rightarrow> (string \<Rightarrow> object option option) \<Rightarrow> nat \<Rightarrow> string \<Rightarrow> string \<Rightarrow> bool \<Rightarrow> 'n \<Rightarrow> (nat \<times> doc_error option) call \<times> 'n" where
  "MultiWorker ops unmarshal maxLine index body broken n =
     (let (ls, bad) = Scan maxLine body broken in
      case do_GetOrCreateIndex ops index n of
        (False, n1) \<Rightarrow> (Returned (0, Some IndexError), n1)
      | (True, n1) \<Rightarrow>
          (case put_documents ops index (map with_id (List.map_filter unmarshal ls)) 0 n1 of
             (Panicked, n2) \<Rightarrow> (Panicked, n2)
           | (Returned (count, False), n2) \<Rightarrow> (Returned (count, Some DocumentError), n2)
           | (Returned (count, True), n2) \<Rightarrow> (Returned (count, if bad then Some ScanError else None), n2)))"

definition Bulkv2Worker :: "'n doc_ops \<Rightarrow> string \<Rightarrow> object option list \<Rightarrow> 'n \<Rightarrow> (nat \<times> doc_error option) call \<times> 'n" where
  "Bulkv2Worker ops index records n =
     (case do_GetOrCreateIndex ops index n of
        (False, n1) \<Rightarrow> (Returned (0, Some IndexError), n1)
      | (True, n1) \<Rightarrow>
          (case put_documents ops index (map with_id records) 0 n1 of
             (Panicked, n2) \<Rightarrow> (Panicked, n2)
           | (Returned (count, ok), n2) \<Rightarrow> (Returned (count, if ok then None else Some DocumentError), n2)))"

text \<open>The status and the number of records in the answer.\<close>

definition counted :: "(nat \<times> doc_error option) call \<times> 'n \<Rightarrow> (nat \<times> nat) call \<times> 'n" where
  "counted r =
     (case r of
        (Panicked, n) \<Rightarrow> (Panicked, n)
      | (Returned (count, None), n) \<Rightarrow> (Returned (200, count), n)
      | (Returned (_, Some _), n) \<Rightarrow> (Returned (500, 0), n))"

definition Multi :: "'n doc_ops \<Rightarrow> (string \<Rightarrow> object option option) \<Rightarrow> nat \<Rightarrow> string \<Rightarrow> string \<Rightarrow> bool \<Rightarrow> 'n \<Rightarrow> (nat \<times> nat) call \<times> 'n" where
  "Multi ops unmarshal maxLine target body broken n =
     (if target = [] then (Returned (400, 0), n) else counted (MultiWorker ops unmarshal maxLine target body broken n))"

text \<open>The body is \<open>None\<close> when it does not bind; else it names an index and has records.\<close>

definition Bulkv2 :: "'n doc_ops \<Rightarrow> string \<Rightarrow> (string \<times> object option list) option \<Rightarrow> 'n \<Rightarrow> (nat \<times> nat) call \<times> 'n" where
  "Bulkv2 ops target body n =
     (case body of
        None \<Rightarrow> (Returned (400, 0), n)
      | Some (index, records) \<Rightarrow> counted (Bulkv2Worker ops (if target = [] then index else target) records n))"

text \<open>A single document: the status and the ID of the answer. An \<open>_id\<close> that is there counts, also when it is nil.\<close>

definition id_or_param :: "string \<Rightarrow> object option \<Rightarrow> string option" where
  "id_or_param param d = (case map_of (doc_members d) ''_id'' of None \<Rightarrow> Some param | Some (JStr s) \<Rightarrow> Some s | Some _ \<Rightarrow> None)"

definition CreateUpdate :: "'n doc_ops \<Rightarrow> string \<Rightarrow> string \<Rightarrow> object option option \<Rightarrow> 'n \<Rightarrow> (nat \<times> string) call \<times> 'n" where
  "CreateUpdate ops index param body n =
     (case body of
        None \<Rightarrow> (Returned (400, []), n)
      | Some d \<Rightarrow>
          (case id_or_param param d of
             None \<Rightarrow> (Panicked, n)
           | Some i \<Rightarrow>
               (case new_id ops i n of
                  (docID, update, n1) \<Rightarrow>
                    (case do_GetOrCreateIndex ops index n1 of
                       (False, n2) \<Rightarrow> (Returned (500, []), n2)
                     | (True, n2) \<Rightarrow>
                         (case do_CreateDocument ops index docID (fst (with_id d)) update n2 of
                            (False, n3) \<Rightarrow> (Returned (500, []), n3)
                          | (True, n3) \<Rightarrow> (Returned (200, docID), n3))))))"

definition document_Update :: "'n doc_ops \<Rightarrow> string \<Rightarrow> string \<Rightarrow> bool \<Rightarrow> object option option \<Rightarrow> 'n \<Rightarrow> (nat \<times> string) call \<times> 'n" where
  "document_Update ops index param insertBool body n =
     (case body of
        None \<Rightarrow> (Returned (400, []), n)
      | Some d \<Rightarrow>
          (case id_or_param param d of
             None \<Rightarrow> (Panicked, n)
           | Some docID \<Rightarrow>
               if docID = [] then (Returned (400, []), n)
               else (case do_GetOrCreateIndex ops index n of
                       (False, n1) \<Rightarrow> (Returned (500, []), n1)
                     | (True, n1) \<Rightarrow>
                         (case do_UpdateDocument ops index docID (fst (with_id d)) insertBool n1 of
                            (False, n2) \<Rightarrow> (Returned (500, []), n2)
                          | (True, n2) \<Rightarrow> (Returned (200, docID), n2)))))"

text \<open>Reading a document; the index is created when it is missing.\<close>

definition document_Get :: "'n doc_ops \<Rightarrow> string \<Rightarrow> string \<Rightarrow> 'n \<Rightarrow> (nat \<times> json) \<times> 'n" where
  "document_Get ops index docID n =
     (if docID = [] then ((400, JNull), n)
      else case do_GetOrCreateIndex ops index n of
        (False, n1) \<Rightarrow> ((500, JNull), n1)
      | (True, n1) \<Rightarrow> (case do_GetDocument ops index docID n1 of None \<Rightarrow> ((400, JNull), n1) | Some hit \<Rightarrow> ((200, hit), n1)))"

definition document_Delete :: "'n doc_ops \<Rightarrow> string \<Rightarrow> string \<Rightarrow> 'n \<Rightarrow> (nat \<times> string) \<times> 'n" where
  "document_Delete ops index docID n =
     (if docID = [] then ((400, []), n)
      else if \<not> do_GetIndex ops index n then ((400, []), n)
      else case do_DeleteDocument ops index docID n of (False, n1) \<Rightarrow> ((400, []), n1) | (True, n1) \<Rightarrow> ((200, docID), n1))"

section \<open>What a bulk request does\<close>

text \<open>The actions a request may ask for; an empty index stands for the target, an empty ID for a new one.\<close>

datatype bulk_action = Put string string string object | Remove string string

fun action_docs :: "bulk_action \<Rightarrow> object list" where
  "action_docs (Put op ix i d) = [[(op, JObj [(''_index'', JStr ix), (''_id'', JStr i)])], d]"
| "action_docs (Remove ix i) = [[(''delete'', JObj [(''_index'', JStr ix), (''_id'', JStr i)])]]"

definition index_or :: "string \<Rightarrow> string \<Rightarrow> string" where
  "index_or target ix = (if ix = [] then target else ix)"

fun action_ok :: "string \<Rightarrow> bulk_action \<Rightarrow> bool" where
  "action_ok target (Put op ix i d) \<longleftrightarrow> op \<in> {''index'', ''create'', ''update''} \<and> index_or target ix \<noteq> []"
| "action_ok target (Remove ix i) \<longleftrightarrow> index_or target ix \<noteq> []"

text \<open>
  The meaning of an action: the ID of the document, the error that ends the request, whether the
  action itself failed, and the node after it.
\<close>

fun perform_action :: "'n doc_ops \<Rightarrow> string \<Rightarrow> bulk_action \<Rightarrow> 'n \<Rightarrow> (string \<times> doc_error option \<times> bool) \<times> 'n" where
  "perform_action ops target (Put op ix i d) n =
     (case new_id ops i n of
        (docID, update, n1) \<Rightarrow>
          (case do_GetOrCreateIndex ops (index_or target ix) n1 of
             (False, n2) \<Rightarrow> ((docID, Some IndexError, False), n2)
           | (True, n2) \<Rightarrow>
               (case do_CreateDocument ops (index_or target ix) docID (JObj d) update n2 of
                  (ok, n3) \<Rightarrow> ((docID, if ok then None else Some DocumentError, False), n3))))"
| "perform_action ops target (Remove ix i) n =
     (case do_GetOrCreateIndex ops (index_or target ix) n of
        (False, n1) \<Rightarrow> ((i, Some IndexError, False), n1)
      | (True, n1) \<Rightarrow> (case do_DeleteDocument ops (index_or target ix) i n1 of (ok, n2) \<Rightarrow> ((i, None, \<not> ok), n2)))"

fun action_item :: "int \<Rightarrow> string \<Rightarrow> nat \<Rightarrow> bulk_action \<Rightarrow> string \<Rightarrow> bool \<Rightarrow> BulkResponseItem" where
  "action_item seqNo target k (Put op ix i d) docID failed =
     NewBulkResponseItem seqNo ''index'' k (index_or target ix) docID (if op = ''update'' then ''updated'' else ''created'') failed"
| "action_item seqNo target k (Remove ix i) docID failed = NewBulkResponseItem seqNo ''delete'' k (index_or target ix) docID ''deleted'' failed"

text \<open>
  The actions one after the other, up to the first error: the items, the error and the node. A
  document that fails has its item, a deletion in an index that fails has none.
\<close>

fun perform_actions :: "'n doc_ops \<Rightarrow> int \<Rightarrow> string \<Rightarrow> nat \<Rightarrow> bulk_action list \<Rightarrow> 'n \<Rightarrow> (BulkResponseItem list \<times> doc_error option) \<times> 'n" where
  "perform_actions ops seqNo target k [] n = (([], None), n)"
| "perform_actions ops seqNo target k (a # as) n =
     (case perform_action ops target a n of
        ((docID, None, failed), n1) \<Rightarrow>
          (case perform_actions ops seqNo target (Suc k) as n1 of
             ((items, err), n2) \<Rightarrow> ((action_item seqNo target (Suc k) a docID failed # items, err), n2))
      | ((docID, Some err, failed), n1) \<Rightarrow>
          (((case a of Put _ _ _ _ \<Rightarrow> [action_item seqNo target (Suc k) a docID failed] | Remove _ _ \<Rightarrow> []), Some err), n1))"

text \<open>Only the lines that decode matter.\<close>

lemma bulk_lines_decoded: "bulk_lines ops unmarshal seqNo target ls b n = bulk_lines ops Some seqNo target (List.map_filter unmarshal ls) b n"
  by (induction ls arbitrary: b n) (simp_all add: List.map_filter_simps split: option.splits prod.splits call.splits bulk_step.splits)

lemmas line_defs = action_member_def delete_action_def data_line_def data_item_def add_item_def map_get_def index_or_def Let_def

lemma bulk_lines_Remove:
  assumes "action_ok target (Remove ix i)" and "\<not> bs_nextLineIsData b"
  shows "bulk_lines ops Some seqNo target (map Some (action_docs (Remove ix i)) @ ls) b n =
    (case perform_action ops target (Remove ix i) n of
       ((docID, None, failed), n1) \<Rightarrow>
         bulk_lines ops Some seqNo target ls
           (b\<lparr>bs_meta := [], br_Count := Suc (br_Count b), br_Items := br_Items b @ [action_item seqNo target (Suc (br_Count b)) (Remove ix i) docID failed]\<rparr>) n1
     | ((docID, Some err, failed), n1) \<Rightarrow> (Returned (Stop (Some (BulkResponse.truncate b)) err), n1))"
  using assms by (cases b) (auto simp: line_defs BulkResponse.defs split: prod.splits bool.splits)

definition put_meta :: "string \<Rightarrow> string \<Rightarrow> string \<Rightarrow> object" where
  "put_meta op index i = [(''operation'', JStr op), (''_index'', JStr index), (''_id'', JStr i)]"

lemma action_line_Put:
  assumes "action_ok target (Put op ix i d)"
  shows "action_line ops seqNo target [(op, JObj [(''_index'', JStr ix), (''_id'', JStr i)])] b n =
    (Returned (Go_on (b\<lparr>bs_nextLineIsData := True, bs_meta := put_meta op (index_or target ix) i\<rparr>)), n)"
  using assms by (auto simp: action_member_def map_get_def index_or_def Let_def put_meta_def)

lemma put_meta_get: "map_get (put_meta op index i) ''_id'' = JStr i" "map_get (put_meta op index i) ''_index'' = JStr index"
  "map_get (put_meta op index i) ''operation'' = JStr op"
  by (simp_all add: map_get_def put_meta_def)

lemma data_line_Put:
  assumes "action_ok target (Put op ix i d)" and "bs_meta b = put_meta op (index_or target ix) i"
  shows "data_line ops seqNo target (JObj d) b n =
    (case perform_action ops target (Put op ix i d) n of
       ((docID, err, failed), n1) \<Rightarrow>
         (let b1 = b\<lparr>br_Count := Suc (br_Count b), bs_nextLineIsData := False,
                br_Items := br_Items b @ [action_item seqNo target (Suc (br_Count b)) (Put op ix i d) docID failed]\<rparr>
          in (Returned (case err of None \<Rightarrow> Go_on b1 | Some e \<Rightarrow> Stop (Some (BulkResponse.truncate b1)) e), n1)))"
  using assms(1)
  by (auto simp: data_line_def assms(2) put_meta_get data_item_def add_item_def Let_def split: prod.splits bool.splits)

lemma bulk_lines_Put:
  assumes "action_ok target (Put op ix i d)" and "\<not> bs_nextLineIsData b"
  shows "\<exists>m. bulk_lines ops Some seqNo target (map Some (action_docs (Put op ix i d)) @ ls) b n =
    (case perform_action ops target (Put op ix i d) n of
       ((docID, err, failed), n1) \<Rightarrow>
         (let b1 = b\<lparr>bs_meta := m, br_Count := Suc (br_Count b), br_Items := br_Items b @ [action_item seqNo target (Suc (br_Count b)) (Put op ix i d) docID failed]\<rparr>
          in case err of None \<Rightarrow> bulk_lines ops Some seqNo target ls b1 n1 | Some e \<Rightarrow> (Returned (Stop (Some (BulkResponse.truncate b1)) e), n1)))"
proof (rule exI [of _ "put_meta op (index_or target ix) i"])
  let ?b = "b\<lparr>bs_nextLineIsData := True, bs_meta := put_meta op (index_or target ix) i\<rparr>"
  have off: "b\<lparr>bs_meta := m, br_Count := c, bs_nextLineIsData := False, br_Items := xs\<rparr> = b\<lparr>bs_meta := m, br_Count := c, br_Items := xs\<rparr>" for m c xs
    using assms(2) by (cases b) simp
  show "bulk_lines ops Some seqNo target (map Some (action_docs (Put op ix i d)) @ ls) b n =
    (case perform_action ops target (Put op ix i d) n of
       ((docID, err, failed), n1) \<Rightarrow>
         (let b1 = b\<lparr>bs_meta := put_meta op (index_or target ix) i, br_Count := Suc (br_Count b),
                br_Items := br_Items b @ [action_item seqNo target (Suc (br_Count b)) (Put op ix i d) docID failed]\<rparr>
          in case err of None \<Rightarrow> bulk_lines ops Some seqNo target ls b1 n1 | Some e \<Rightarrow> (Returned (Stop (Some (BulkResponse.truncate b1)) e), n1)))"
    using assms(2) action_line_Put [OF assms(1), of ops seqNo b n] data_line_Put [OF assms(1), of ?b ops seqNo n]
    by (auto simp: off Let_def simp del: action_line.simps perform_action.simps action_item.simps split: prod.splits option.splits)
qed

lemma bulk_lines_actions:
  assumes "list_all (action_ok target) acts" and "\<not> bs_nextLineIsData b"
  shows "\<exists>m. bulk_lines ops Some seqNo target (map Some (concat (map action_docs acts))) b n =
    (case perform_actions ops seqNo target (br_Count b) acts n of
       ((items, err), n1) \<Rightarrow>
         (let b1 = b\<lparr>bs_meta := m, br_Count := br_Count b + length items, br_Items := br_Items b @ items\<rparr>
          in (Returned (case err of None \<Rightarrow> Go_on b1 | Some e \<Rightarrow> Stop (Some (BulkResponse.truncate b1)) e), n1)))"
  using assms
proof (induction acts arbitrary: b n)
  case Nil
  show ?case by (rule exI [of _ "bs_meta b"], cases b) simp
next
  case (Cons a acts)
  have ok: "action_ok target a" "list_all (action_ok target) acts" using Cons.prems(1) by simp_all
  obtain docID err failed n1 where p: "perform_action ops target a n = ((docID, err, failed), n1)"
    by (cases "perform_action ops target a n") (metis prod_cases3)
  let ?item = "action_item seqNo target (Suc (br_Count b)) a docID failed"
  let ?b = "\<lambda>m. b\<lparr>bs_meta := m, br_Count := Suc (br_Count b), br_Items := br_Items b @ [?item]\<rparr>"
  have go: "\<exists>m. bulk_lines ops Some seqNo target (map Some (concat (map action_docs (a # acts)))) b n =
      bulk_lines ops Some seqNo target (map Some (concat (map action_docs acts))) (?b m) n1" if "err = None"
  proof (cases a)
    case (Put op ix i d)
    then show ?thesis
      using bulk_lines_Put [OF ok(1) [unfolded Put] Cons.prems(2), of ops seqNo "map Some (concat (map action_docs acts))" n] p that
      by (auto simp: Let_def)
  next
    case (Remove ix i)
    then show ?thesis
      using bulk_lines_Remove [OF ok(1) [unfolded Remove] Cons.prems(2), of ops seqNo "map Some (concat (map action_docs acts))" n] p that
      by (auto simp: Let_def)
  qed
  show ?case
  proof (cases err)
    case None
    then obtain m where m: "bulk_lines ops Some seqNo target (map Some (concat (map action_docs (a # acts)))) b n =
        bulk_lines ops Some seqNo target (map Some (concat (map action_docs acts))) (?b m) n1" using go by blast
    have "\<not> bs_nextLineIsData (?b m)" using Cons.prems(2) by simp
    from Cons.IH [OF ok(2) this, of n1] obtain m' where
      "bulk_lines ops Some seqNo target (map Some (concat (map action_docs acts))) (?b m) n1 =
        (case perform_actions ops seqNo target (br_Count (?b m)) acts n1 of
           ((items, err), n1) \<Rightarrow>
             (let b1 = ?b m\<lparr>bs_meta := m', br_Count := br_Count (?b m) + length items, br_Items := br_Items (?b m) @ items\<rparr>
              in (Returned (case err of None \<Rightarrow> Go_on b1 | Some e \<Rightarrow> Stop (Some (BulkResponse.truncate b1)) e), n1)))" by blast
    then show ?thesis
      unfolding m using p None by (intro exI [of _ m']) (auto simp: Let_def split: prod.splits option.splits)
  next
    case (Some e)
    show ?thesis
    proof (cases a)
      case (Put op ix i d)
      then show ?thesis
        using bulk_lines_Put [OF ok(1) [unfolded Put] Cons.prems(2), of ops seqNo "map Some (concat (map action_docs acts))" n] p Some
        by (auto simp: Let_def)
    next
      case (Remove ix i)
      then show ?thesis
        using bulk_lines_Remove [OF ok(1) [unfolded Remove] Cons.prems(2), of ops seqNo "map Some (concat (map action_docs acts))" n] p Some
        by (auto simp: Let_def BulkResponse.defs)
    qed
  qed
qed


text \<open>A node that keeps the documents it was given; an index called \<open>bad\<close> refuses them.\<close>

type_synonym ex_node = "(string \<times> string \<times> json) list"

definition ex_create :: "string \<Rightarrow> string \<Rightarrow> json \<Rightarrow> bool \<Rightarrow> ex_node \<Rightarrow> bool \<times> ex_node" where
  "ex_create ix i d update n = (if ix = ''bad'' then (False, n) else (True, n @ [(ix, i, d)]))"

definition ex_delete :: "string \<Rightarrow> string \<Rightarrow> ex_node \<Rightarrow> bool \<times> ex_node" where
  "ex_delete ix i n = (list_ex (\<lambda>(x, j, _). x = ix \<and> j = i) n, filter (\<lambda>(x, j, _). \<not> (x = ix \<and> j = i)) n)"

definition ex_index :: "string \<Rightarrow> ex_node \<Rightarrow> bool \<times> ex_node" where
  "ex_index ix n = (True, n)"

definition ex_has :: "string \<Rightarrow> ex_node \<Rightarrow> bool" where
  "ex_has ix n = list_ex (\<lambda>(x, _). x = ix) n"

definition ex_get :: "string \<Rightarrow> string \<Rightarrow> ex_node \<Rightarrow> json option" where
  "ex_get ix i n = map_option (\<lambda>(_, _, d). d) (find (\<lambda>(x, j, _). x = ix \<and> j = i) n)"

definition ex_generate :: "ex_node \<Rightarrow> string \<times> ex_node" where
  "ex_generate n = (''new'', n)"

definition ex_doc_ops :: "ex_node doc_ops" where
  "ex_doc_ops = \<lparr>do_GetOrCreateIndex = ex_index, do_GetIndex = ex_has, do_CreateDocument = ex_create, do_UpdateDocument = ex_create,
     do_DeleteDocument = ex_delete, do_GetDocument = ex_get, do_Generate = ex_generate\<rparr>"

text \<open>Lines by letters: actions in capitals, documents in small letters; the others are not JSON.\<close>

definition ex_line :: "string \<Rightarrow> object option option" where
  "ex_line l = map_of
     [(''A'', Some [(''index'', JObj [(''_index'', JStr ''x''), (''_id'', JStr ''1'')])]),
      (''B'', Some [(''index'', JObj [(''_index'', JStr ''x''), (''_id'', JStr ''2'')])]),
      (''C'', Some [(''create'', JObj [(''_index'', JStr ''bad''), (''_id'', JStr [])])]),
      (''D'', Some [(''delete'', JObj [(''_index'', JStr []), (''_id'', JStr ''1'')])]),
      (''E'', Some [(''delete'', JObj [(''_id'', JStr ''1'')])]),
      (''F'', Some [(''index'', JStr ''x'')]),
      (''a'', Some [(''v'', JStr ''a'')]), (''b'', Some [(''v'', JStr ''b'')])] l"

definition ex_body :: "string list \<Rightarrow> string" where
  "ex_body ls = concat (map (\<lambda>l. l @ [CHR 0x0A]) ls)"

definition ex_actions :: "bulk_action list" where
  "ex_actions = [Put ''index'' ''x'' ''1'' [(''v'', JStr ''a'')], Remove [] ''1'', Put ''create'' ''bad'' [] [(''v'', JStr ''b'')]]"



end
