(* ===== verification/Shard_Docs.thy ===== *)
theory Shard_Docs
  imports Doc_Types Shard_Reference
begin

text \<open>
  The operations of an index on one document (\<open>pkg/core/index_document.go\<close>, with \<open>FindShardByDocID\<close> and
  \<open>FindDocumentByDocID\<close> of \<open>index_shards.go\<close>), on the shard that the document belongs to: they check the
  document and write an entry to the log, which a later pass applies. What a pass makes of
  an operation is shown with the laws of the index and log libraries as a locale.
\<close>

section \<open>Finding a document\<close>

text \<open>
  The writers and the log as the operations use them: whether the writers open, a search for an ID in one
  writer (\<open>None\<close> when the reader or the search fails), the hit, the encoder, and the write to the log.
\<close>

record ('w, 'l) doc_io =
  dx_opens :: bool
  dx_search :: "'w \<Rightarrow> string \<Rightarrow> bool option"
  dx_hit :: "'w \<Rightarrow> string \<Rightarrow> json"
  dx_marshal :: "object \<Rightarrow> bytes"
  dx_Write :: "'l \<Rightarrow> bytes \<Rightarrow> bool \<times> 'l"

datatype id_error = EIDNotFound | EWriters | EWal

text \<open>
  The searches run concurrently, one per second-layer shard. \<open>runs\<close> lists those that are not cancelled,
  in the order in which they end; each one that finds the document sets the result and cancels the others.
\<close>

definition found_in :: "('w, 'l) doc_io \<Rightarrow> ('w, 'l) IndexShard \<Rightarrow> string \<Rightarrow> nat \<Rightarrow> bool" where
  "found_in io s docID k \<longleftrightarrow> dx_search io (sd_writers s ! k) docID = Some True"

definition last_found :: "('w, 'l) doc_io \<Rightarrow> nat list \<Rightarrow> string \<Rightarrow> ('w, 'l) IndexShard \<Rightarrow> int" where
  "last_found io runs docID s = foldl (\<lambda>shardID k. if found_in io s docID k then int k else shardID) (-1) runs"

definition FindShardByDocID :: "('w, 'l) doc_io \<Rightarrow> nat list \<Rightarrow> string \<Rightarrow> ('w, 'l) IndexShard \<Rightarrow> id_error + int" where
  "FindShardByDocID io runs docID s =
     (if \<not> dx_opens io then Inl EWriters
      else let shardID = last_found io runs docID s in if shardID = -1 then Inl EIDNotFound else Inr shardID)"

definition FindDocumentByDocID :: "('w, 'l) doc_io \<Rightarrow> nat list \<Rightarrow> string \<Rightarrow> ('w, 'l) IndexShard \<Rightarrow> id_error + json" where
  "FindDocumentByDocID io runs docID s =
     (if \<not> dx_opens io then Inl EWriters
      else let hit = foldl (\<lambda>hit k. if found_in io s docID k then Some (dx_hit io (sd_writers s ! k) docID) else hit) None runs
           in case hit of None \<Rightarrow> Inl EIDNotFound | Some h \<Rightarrow> Inr h)"

definition schedule_ok :: "('w, 'l) doc_io \<Rightarrow> nat list \<Rightarrow> string \<Rightarrow> ('w, 'l) IndexShard \<Rightarrow> bool" where
  "schedule_ok io runs docID s \<longleftrightarrow>
     (\<forall>k \<in> set runs. k < length (sd_writers s)) \<and> (set runs = {..<length (sd_writers s)} \<or> (\<exists>k \<in> set runs. found_in io s docID k))"

section \<open>The operations\<close>

text \<open>What checking a document depends on besides the mappings.\<close>

record check_env =
  ce_values :: value_env
  ce_keyword :: bool
  ce_order :: "flat \<Rightarrow> string list"
  ce_stored :: bool
  ce_now :: int

text \<open>The shard and the mappings of its index.\<close>

type_synonym ('w, 'l) doc_shard = "('w, 'l) IndexShard \<times> Properties"

definition write_entry :: "('w, 'l) doc_io \<Rightarrow> object \<Rightarrow> ('w, 'l) doc_shard \<Rightarrow> (unit, ('w, 'l) doc_shard) Shard_Wal.outcome" where
  "write_entry io data st =
     (case dx_Write io (sd_wal (fst st)) (dx_marshal io data) of
        (ok, l) \<Rightarrow> (let st1 = ((fst st)\<lparr>sd_wal := l\<rparr>, snd st) in if ok then Done () st1 else Failed st1))"

definition check_and_write ::
  "check_env \<Rightarrow> ('w, 'l) doc_io \<Rightarrow> string \<Rightarrow> object \<Rightarrow> bool \<Rightarrow> int \<Rightarrow> ('w, 'l) doc_shard \<Rightarrow> (unit, ('w, 'l) doc_shard) Shard_Wal.outcome" where
  "check_and_write ce io docID doc update shard st =
     (case CheckDocument (ce_values ce) (ce_keyword ce) (ce_order ce) (ce_stored ce) (ce_now ce) docID doc update shard (snd st) of
        (Inl _, m) \<Rightarrow> Failed (fst st, m)
      | (Inr entry, m) \<Rightarrow> write_entry io entry (fst st, m))"

text \<open>Every operation opens the log of the shard first.\<close>

record ('w, 'l, 'v) open_env =
  oe_ops :: "('w, 'l, 'v) shard_ops"
  oe_order :: "walMergeDocs \<Rightarrow> int list"
  oe_files :: "('l \<times> Log) option"

definition with_wal ::
  "('w, 'l, 'v) open_env \<Rightarrow> (('w, 'l) doc_shard \<Rightarrow> (unit, ('w, 'l) doc_shard) Shard_Wal.outcome) \<Rightarrow> ('w, 'l) doc_shard \<Rightarrow> (unit, ('w, 'l) doc_shard) Shard_Wal.outcome" where
  "with_wal oe f st =
     (case OpenWAL (oe_ops oe) (oe_order oe) (oe_files oe) (fst st) of
        Done _ s \<Rightarrow> f (s, snd st)
      | Failed s \<Rightarrow> Failed (s, snd st)
      | Panicked \<Rightarrow> Panicked)"

definition index_CreateDocument ::
  "('w, 'l, 'v) open_env \<Rightarrow> check_env \<Rightarrow> ('w, 'l) doc_io \<Rightarrow> string \<Rightarrow> object \<Rightarrow> bool \<Rightarrow> ('w, 'l) doc_shard \<Rightarrow> (unit, ('w, 'l) doc_shard) Shard_Wal.outcome" where
  "index_CreateDocument oe ce io docID doc update =
     with_wal oe (check_and_write ce io docID doc update (if update then ShardIDNeedUpdate else ShardIDNeedLatest))"

definition index_UpdateDocument ::
  "('w, 'l, 'v) open_env \<Rightarrow> check_env \<Rightarrow> ('w, 'l) doc_io \<Rightarrow> nat list \<Rightarrow> string \<Rightarrow> object \<Rightarrow> bool \<Rightarrow> ('w, 'l) doc_shard \<Rightarrow> (unit, ('w, 'l) doc_shard) Shard_Wal.outcome" where
  "index_UpdateDocument oe ce io runs docID doc insert_missing =
     with_wal oe (\<lambda>st. case FindShardByDocID io runs docID (fst st) of
       Inr shardID \<Rightarrow> check_and_write ce io docID doc True shardID st
     | Inl err \<Rightarrow> if insert_missing \<and> err = EIDNotFound then check_and_write ce io docID doc False (-1) st else Failed st)"

definition delete_entry :: "string \<Rightarrow> int \<Rightarrow> object" where
  "delete_entry docID shardID = [(IDFieldName, JStr docID), (ActionFieldName, JStr ActionTypeDelete), (ShardFieldName, JNum (FormatInt shardID))]"

definition index_DeleteDocument ::
  "('w, 'l, 'v) open_env \<Rightarrow> ('w, 'l) doc_io \<Rightarrow> nat list \<Rightarrow> string \<Rightarrow> ('w, 'l) doc_shard \<Rightarrow> (unit, ('w, 'l) doc_shard) Shard_Wal.outcome" where
  "index_DeleteDocument oe io runs docID =
     with_wal oe (\<lambda>st. case FindShardByDocID io runs docID (fst st) of
       Inl _ \<Rightarrow> Failed st
     | Inr shardID \<Rightarrow> write_entry io (delete_entry docID shardID) st)"

definition index_GetDocument ::
  "('w, 'l, 'v) open_env \<Rightarrow> ('w, 'l) doc_io \<Rightarrow> nat list \<Rightarrow> string \<Rightarrow> ('w, 'l) IndexShard \<Rightarrow> (id_error + json, ('w, 'l) IndexShard) Shard_Wal.outcome" where
  "index_GetDocument oe io runs docID s =
     (case OpenWAL (oe_ops oe) (oe_order oe) (oe_files oe) s of
        Done _ s1 \<Rightarrow> Done (FindDocumentByDocID io runs docID s1) s1
      | Failed s1 \<Rightarrow> Done (Inl EWal) s1
      | Panicked \<Rightarrow> Panicked)"

text \<open>The operations that change a document, as values.\<close>

datatype doc_change = Creates object bool | Updates object bool | Deletes

fun new_document :: "doc_change \<Rightarrow> object option" where
  "new_document (Creates doc _) = Some doc"
| "new_document (Updates doc _) = Some doc"
| "new_document Deletes = None"

fun adds :: "doc_change \<Rightarrow> bool" where
  "adds (Creates doc update) \<longleftrightarrow> \<not> update"
| "adds _ \<longleftrightarrow> False"

fun change_document ::
  "('w, 'l, 'v) open_env \<Rightarrow> check_env \<Rightarrow> ('w, 'l) doc_io \<Rightarrow> nat list \<Rightarrow> string \<Rightarrow> doc_change \<Rightarrow> ('w, 'l) doc_shard \<Rightarrow> (unit, ('w, 'l) doc_shard) Shard_Wal.outcome" where
  "change_document oe ce io runs docID (Creates doc update) = index_CreateDocument oe ce io docID doc update"
| "change_document oe ce io runs docID (Updates doc insert_missing) = index_UpdateDocument oe ce io runs docID doc insert_missing"
| "change_document oe ce io runs docID Deletes = index_DeleteDocument oe io runs docID"

section \<open>Lemmas on searches and entries\<close>

lemma last_found_cases:
  "last_found io runs docID s = -1 \<and> (\<forall>k \<in> set runs. \<not> found_in io s docID k) \<or>
   (\<exists>k \<in> set runs. found_in io s docID k \<and> last_found io runs docID s = int k)"
  by (induction runs rule: rev_induct) (auto simp: last_found_def)

lemma FindShard_Inr:
  assumes "FindShardByDocID io runs docID s = Inr shardID" and "schedule_ok io runs docID s"
  obtains k where "shardID = int k" and "k < length (sd_writers s)" and "found_in io s docID k"
  using assms last_found_cases [of io runs docID s] by (auto simp: FindShardByDocID_def schedule_ok_def Let_def split: if_splits)

lemma FindShard_missing:
  assumes "FindShardByDocID io runs docID s = Inl EIDNotFound" and "schedule_ok io runs docID s" and "k < length (sd_writers s)"
  shows "\<not> found_in io s docID k"
  using assms last_found_cases [of io runs docID s] by (auto simp: FindShardByDocID_def schedule_ok_def Let_def split: if_splits)

lemma parse_int_plain: "c \<noteq> CHR ''-'' \<Longrightarrow> parse_int (c # s) = map_option int (ParseUint (c # s))"
  by (cases c) (auto simp: parse_int_def split: bool.splits)

lemma parse_FormatInt: "\<bar>k\<bar> < 2 ^ 63 \<Longrightarrow> as_int (Some (JNum (FormatInt k))) = Some k"
proof -
  assume k: "\<bar>k\<bar> < 2 ^ 63"
  have p: "ParseUint (FormatUint (nat \<bar>k\<bar>)) = Some (nat \<bar>k\<bar>)" using k by (intro ParseUint_FormatUint) simp
  show ?thesis
  proof (cases "k < 0")
    case True
    then show ?thesis using p by (simp add: FormatInt_def parse_int_def)
  next
    case False
    obtain c s where c: "FormatUint (nat k) = c # s" by (cases "FormatUint (nat k)") simp_all
    have "c \<in> set (FormatUint (nat k))" by (simp add: c)
    then have "c \<noteq> CHR ''-''" by (metis FormatUint_no_sep(2))
    then show ?thesis using False p c by (simp add: FormatInt_def parse_int_plain)
  qed
qed

text \<open>The entries that the operations write.\<close>

definition entry_for :: "string \<Rightarrow> string \<Rightarrow> int \<Rightarrow> object \<Rightarrow> entry" where
  "entry_for action docID shard data = \<lparr>et_shard = shard, et_id = docID, et_action = action, et_data = data\<rparr>"

lemma delete_entry_of: "\<bar>shard\<bar> < 2 ^ 63 \<Longrightarrow> entry_of (delete_entry docID shard) = Some (entry_for ActionTypeDelete docID shard (delete_entry docID shard))"
  by (simp add: entry_of_def delete_entry_def field_name_defs parse_FormatInt entry_for_def del: as_int.simps)

lemma checked_entry_of:
  assumes "CheckDocument env keyword order stored now docID doc upd shard m = (Inr data, m')" and "\<bar>shard\<bar> < 2 ^ 63"
  shows "entry_of data = Some (entry_for (if upd then ActionTypeUpdate else ActionTypeInsert) docID shard data)"
proof -
  obtain t src flat1 where e: "data = AList.update SourceFieldName (JObj src) (AList.update TimeFieldName (JNum t) (AList.update ShardFieldName (JNum (FormatInt shard))
       (AList.update IDFieldName (JStr docID) (AList.update ActionFieldName (JStr (if upd then ''update'' else ''insert'')) (map (\<lambda>(k, _, v). (k, v)) (flat1 :: flat))))))"
    by (rule CheckDocument_entry [OF assms(1)]) blast
  have "map_of data ''@_action'' = Some (JStr (if upd then ''update'' else ''insert''))" "map_of data ''@_id'' = Some (JStr docID)"
    "map_of data ''@_shard'' = Some (JNum (FormatInt shard))"
    unfolding e by (simp_all add: update_conv' field_name_defs)
  then show ?thesis using parse_FormatInt [OF assms(2)] by (simp add: entry_of_def entry_for_def action_defs del: as_int.simps)
qed

text \<open>The entry is that of the document, as \<open>CheckDocument\<close> made it.\<close>

definition checked_as :: "check_env \<Rightarrow> string \<Rightarrow> doc_change \<Rightarrow> Properties \<Rightarrow> object \<Rightarrow> Properties \<Rightarrow> bool" where
  "checked_as ce docID ch m data m' \<longleftrightarrow> (\<forall>doc. new_document ch = Some doc \<longrightarrow>
     (\<exists>upd shard. CheckDocument (ce_values ce) (ce_keyword ce) (ce_order ce) (ce_stored ce) (ce_now ce) docID doc upd shard m = (Inr data, m')))"

section \<open>The effect of an entry\<close>

text \<open>What a shard holds for every ID, in all its second-layer shards together.\<close>

definition total :: "'v contents list \<Rightarrow> 'v contents" where
  "total cs i = sum_list (map (\<lambda>c. c i) cs)"

lemma total_append [simp]: "total (cs @ ds) i = total cs i + total ds i" and total_Cons [simp]: "total (c # cs) i = c i + total cs i"
  and total_Nil [simp]: "total [] i = {#}"
  by (simp_all add: total_def)

lemma total_other: "i \<noteq> et_id e \<Longrightarrow> cs \<noteq> [] \<Longrightarrow> total (exec_entry build cs e) i = total cs i"
  using exec_entry_other [of e i cs build] by (auto simp: total_def)

lemma total_zero: "k < length cs \<Longrightarrow> total cs i = {#} \<Longrightarrow> (cs ! k) i = {#}"
  by (induction cs arbitrary: k) (auto simp: nth_Cons split: nat.splits)

lemma total_empty: "\<forall>c \<in> set cs. c i = {#} \<Longrightarrow> total cs i = {#}"
  by (induction cs) simp_all

lemma total_latest:
  assumes "cs \<noteq> []" and "total cs docID = {#}"
  shows "total (exec_entry build cs (entry_for ActionTypeInsert docID ShardIDNeedLatest data)) docID = {#the (build docID data)#}"
proof -
  have "total (butlast cs @ [last cs]) docID = {#}" using assms by simp
  then have "total (butlast cs) docID = {#}" "last cs docID = {#}" by simp_all
  then show ?thesis by (simp add: exec_entry_def entry_for_def exec_one_def)
qed

lemma total_everywhere: "total (exec_entry build cs (entry_for ActionTypeUpdate docID ShardIDNeedUpdate data)) docID = {#the (build docID data)#}"
proof -
  have "total (map (\<lambda>c. c(docID := {#})) ds) docID = {#}" for ds by (induction ds) simp_all
  then show ?thesis by (simp add: exec_entry_def entry_for_def exec_one_def ShardIDNeedLatest_def ShardIDNeedUpdate_def action_defs Let_def)
qed

lemma total_at:
  assumes "k < length cs" and "(cs ! k) docID \<noteq> {#}" and "size (total cs docID) \<le> 1" and "action = ActionTypeUpdate \<or> action = ActionTypeDelete"
  shows "total (exec_entry build cs (entry_for action docID (int k) data)) docID = (if action = ActionTypeUpdate then {#the (build docID data)#} else {#})"
proof -
  have "size (total (take k cs @ cs ! k # drop (Suc k) cs) docID) \<le> 1" using assms(1,3) by (simp only: id_take_nth_drop [symmetric])
  then have "size (total (take k cs) docID) + (size ((cs ! k) docID) + size (total (drop (Suc k) cs) docID)) \<le> 1" by simp
  moreover have "0 < size ((cs ! k) docID)" using assms(2) by (simp add: nonempty_has_size)
  ultimately have "total (take k cs) docID = {#}" "total (drop (Suc k) cs) docID = {#}" by (simp_all flip: size_eq_0_iff_empty)
  then show ?thesis
    using assms(1,4) by (auto simp: exec_entry_def entry_for_def exec_one_def ShardIDNeedLatest_def Let_def upd_conv_take_nth_drop action_defs)
qed

section \<open>What the libraries promise\<close>

text \<open>
  A search finds the documents of a writer; an entry written to the log has the next number and can be read;
  and what the decoder makes of an entry has its action, its ID and its shard.
\<close>

locale shard_docs = shard_log ops cont
  for ops :: "('w, 'l, 'v) shard_ops" and cont :: "'w \<Rightarrow> 'v contents" +
  fixes io :: "('w, 'l) doc_io"
  assumes search_finds: "dx_search io w i = Some found \<Longrightarrow> found \<longleftrightarrow> cont w i \<noteq> {#}"
    and write_last: "dx_Write io l b = (True, l') \<Longrightarrow> so_LastIndex ops l = Some n \<Longrightarrow> n + 1 \<noteq> 0 \<Longrightarrow> so_LastIndex ops l' = Some (n + 1)"
    and write_read: "dx_Write io l b = (True, l') \<Longrightarrow> so_LastIndex ops l = Some n \<Longrightarrow> n + 1 \<noteq> 0 \<Longrightarrow> so_Read ops l' (n + 1) = Some b"
    and decodes: "entry_of data = Some e \<Longrightarrow> \<exists>data'. so_unmarshal ops (dx_marshal io data) = Some data' \<and> entry_of data' = Some (e\<lparr>et_data := data'\<rparr>)"
begin

definition held :: "('w, 'l) IndexShard \<Rightarrow> 'v contents" where
  "held s = total (conts s)"

lemma found_held: "k < length (sd_writers s) \<Longrightarrow> found_in io s docID k \<Longrightarrow> (conts s ! k) docID \<noteq> {#}"
  using search_finds [of "sd_writers s ! k" docID True] by (simp add: found_in_def conts_def)

lemma missing_held:
  assumes "\<forall>w \<in> set (sd_writers s). dx_search io w docID \<noteq> None" and "\<And>k. k < length (sd_writers s) \<Longrightarrow> \<not> found_in io s docID k"
  shows "held s docID = {#}"
proof -
  have "cont w docID = {#}" if "w \<in> set (sd_writers s)" for w
  proof -
    have "dx_search io w docID \<noteq> None" by (rule bspec [OF assms(1) that])
    then obtain b where b: "dx_search io w docID = Some b" by (auto simp only: not_None_eq)
    from that obtain k where "k < length (sd_writers s)" "sd_writers s ! k = w" unfolding in_set_conv_nth by (elim exE conjE)
    then have "\<not> b" using assms(2) [of k] b unfolding found_in_def by (cases b) simp_all
    then show ?thesis using search_finds [OF b] by simp
  qed
  then show ?thesis unfolding held_def conts_def by (intro total_empty) auto
qed

text \<open>An operation that succeeds has written one entry, and that entry means the change.\<close>

definition means :: "('w, 'l) IndexShard \<Rightarrow> string \<Rightarrow> bool \<Rightarrow> entry \<Rightarrow> bool" where
  "means s docID deletes e \<longleftrightarrow> et_id e = docID \<and> et_shard e < GetShardNum s \<and> batch_ok [e] \<and>
     (\<forall>data. total (exec_entry build (conts s) (e\<lparr>et_data := data\<rparr>)) docID = (if deletes then {#} else {#the (build docID data)#}))"

lemma means_latest: "sd_writers s \<noteq> [] \<Longrightarrow> held s docID = {#} \<Longrightarrow> means s docID False (entry_for ActionTypeInsert docID ShardIDNeedLatest data)"
  using total_latest [of "conts s" docID build]
  by (auto simp: means_def held_def entry_for_def conts_def GetShardNum_def ShardIDNeedLatest_def batch_ok_def group_ok_def separate_def of_shard_def)

lemma means_update: "means s docID False (entry_for ActionTypeUpdate docID ShardIDNeedUpdate data)"
  using total_everywhere [of build "conts s" docID]
  by (auto simp: means_def entry_for_def GetShardNum_def ShardIDNeedUpdate_def ShardIDNeedLatest_def batch_ok_def group_ok_def separate_def of_shard_def changes_only_def)

lemma means_at:
  assumes "k < length (sd_writers s)" and "found_in io s docID k" and "size (held s docID) \<le> 1" and "action = ActionTypeUpdate \<or> action = ActionTypeDelete"
  shows "means s docID (action = ActionTypeDelete) (entry_for action docID (int k) data)"
  using total_at [of k "conts s" docID action build] found_held [OF assms(1,2)] assms
  by (auto simp: means_def held_def entry_for_def conts_def GetShardNum_def ShardIDNeedLatest_def batch_ok_def group_ok_def separate_def of_shard_def
      changes_only_def action_defs)

lemma write_entry_Done:
  "write_entry io data (s, m) = Done () (s', m') \<Longrightarrow> \<exists>l. dx_Write io (sd_wal s) (dx_marshal io data) = (True, l) \<and> s' = s\<lparr>sd_wal := l\<rparr> \<and> m' = m"
  by (auto simp: write_entry_def Let_def split: prod.splits if_splits)

text \<open>What an operation leaves: an entry in the log that means its change.\<close>

definition logged :: "('w, 'l) IndexShard \<Rightarrow> string \<Rightarrow> bool \<Rightarrow> object \<Rightarrow> ('w, 'l) IndexShard \<Rightarrow> bool" where
  "logged s docID deletes data s' \<longleftrightarrow>
     (\<exists>e l. dx_Write io (sd_wal s) (dx_marshal io data) = (True, l) \<and> s' = s\<lparr>sd_wal := l\<rparr> \<and> entry_of data = Some e \<and> means s docID deletes e)"

lemma checked_logged:
  assumes "check_and_write ce io docID doc upd shard (s, m) = Done () (s', m')" and "\<bar>shard\<bar> < 2 ^ 63"
    and "\<And>data. means s docID False (entry_for (if upd then ActionTypeUpdate else ActionTypeInsert) docID shard data)"
  shows "\<exists>data. logged s docID False data s' \<and>
    CheckDocument (ce_values ce) (ce_keyword ce) (ce_order ce) (ce_stored ce) (ce_now ce) docID doc upd shard m = (Inr data, m')"
proof -
  obtain data m1 where c: "CheckDocument (ce_values ce) (ce_keyword ce) (ce_order ce) (ce_stored ce) (ce_now ce) docID doc upd shard m = (Inr data, m1)"
    and w: "write_entry io data (s, m1) = Done () (s', m')"
    using assms(1) by (auto simp: check_and_write_def split: prod.splits sum.splits)
  from write_entry_Done [OF w] have "m' = m1" by blast
  with write_entry_Done [OF w] checked_entry_of [OF c assms(2)] assms(3) [of data] c show ?thesis unfolding logged_def by blast
qed

lemma change_logged:
  assumes "change_document oe ce io runs docID ch (s, m) = Done () (s', m')" and "sd_open s" and "schedule_ok io runs docID s"
    and "\<forall>w \<in> set (sd_writers s). dx_search io w docID \<noteq> None" and "sd_writers s \<noteq> []" and "length (sd_writers s) < 2 ^ 63"
    and "size (held s docID) \<le> 1" and "adds ch \<Longrightarrow> held s docID = {#}"
  shows "\<exists>data. logged s docID (ch = Deletes) data s' \<and> checked_as ce docID ch m data m'"
proof -
  have opened: "with_wal oe f (s, m) = f (s, m)" for f using assms(2) by (simp add: with_wal_def OpenWAL_def)
  have small: "\<bar>ShardIDNeedLatest\<bar> < 2 ^ 63" "\<bar>ShardIDNeedUpdate\<bar> < 2 ^ 63" "k < length (sd_writers s) \<Longrightarrow> \<bar>int k\<bar> < 2 ^ 63" for k
    using assms(6) by (simp_all add: ShardIDNeedLatest_def ShardIDNeedUpdate_def)
  show ?thesis
  proof (cases ch)
    case (Creates doc upd)
    have c: "check_and_write ce io docID doc upd (if upd then ShardIDNeedUpdate else ShardIDNeedLatest) (s, m) = Done () (s', m')"
      using assms(1) by (simp add: Creates index_CreateDocument_def opened)
    have "\<bar>if upd then ShardIDNeedUpdate else ShardIDNeedLatest\<bar> < 2 ^ 63" using small by simp
    moreover have "means s docID False (entry_for (if upd then ActionTypeUpdate else ActionTypeInsert) docID
        (if upd then ShardIDNeedUpdate else ShardIDNeedLatest) data)" for data
      using assms(5,8) means_latest means_update by (simp add: Creates)
    ultimately show ?thesis using checked_logged [OF c] by (auto simp: Creates checked_as_def)
  next
    case (Updates doc missing)
    show ?thesis
    proof (cases "FindShardByDocID io runs docID s")
      case (Inr shardID)
      then obtain k where k: "shardID = int k" "k < length (sd_writers s)" "found_in io s docID k" using assms(3) by (rule FindShard_Inr)
      have c: "check_and_write ce io docID doc True shardID (s, m) = Done () (s', m')"
        using assms(1) Inr by (simp add: Updates index_UpdateDocument_def opened)
      have "means s docID False (entry_for ActionTypeUpdate docID shardID data)" for data
        using means_at [OF k(2,3) assms(7), of ActionTypeUpdate data] k(1) by (simp add: action_defs)
      then show ?thesis using checked_logged [OF c] small(3) [OF k(2)] k(1) by (auto simp: Updates checked_as_def)
    next
      case (Inl err)
      then have c: "check_and_write ce io docID doc False ShardIDNeedLatest (s, m) = Done () (s', m')" and "err = EIDNotFound"
        using assms(1) by (auto simp: Updates index_UpdateDocument_def opened ShardIDNeedLatest_def split: if_splits)
      then have "held s docID = {#}" using missing_held [OF assms(4)] FindShard_missing assms(3) Inl by blast
      then show ?thesis using checked_logged [OF c small(1)] means_latest [OF assms(5)] by (auto simp: Updates checked_as_def)
    qed
  next
    case Deletes
    then obtain shardID where f: "FindShardByDocID io runs docID s = Inr shardID" and w: "write_entry io (delete_entry docID shardID) (s, m) = Done () (s', m')"
      using assms(1) by (auto simp: index_DeleteDocument_def opened split: sum.splits)
    obtain k where k: "shardID = int k" "k < length (sd_writers s)" "found_in io s docID k" using f assms(3) by (rule FindShard_Inr)
    have "means s docID True (entry_for ActionTypeDelete docID shardID (delete_entry docID shardID))"
      using means_at [OF k(2,3) assms(7), of ActionTypeDelete] k(1) by simp
    moreover have "entry_of (delete_entry docID shardID) = Some (entry_for ActionTypeDelete docID shardID (delete_entry docID shardID))"
      using delete_entry_of small(3) [OF k(2)] k(1) by simp
    ultimately have "logged s docID True (delete_entry docID shardID) s'" using write_entry_Done [OF w] unfolding logged_def by blast
    then show ?thesis by (auto simp: Deletes checked_as_def)
  qed
qed

text \<open>The next pass of an idle shard applies the entry.\<close>

lemma pass_applies:
  assumes "logged s docID deletes data s'" and "sound_ops ops rio" and "order_ok order" and "redo_wf (sd_redo s)"
    and "committed s = Some n" and "so_LastIndex ops (sd_wal s) = Some n" and "n + 1 \<noteq> 0" and "sd_writers s \<noteq> []"
  shows "\<exists>s2. ConsumeWAL ops order rio batchSize maxSize s' = Done True s2 \<and> committed s2 = Some (n + 1) \<and>
    held s2 = (held s)(docID := (if deletes then {#} else {#the (build docID (the (so_unmarshal ops (dx_marshal io data))))#}))"
proof -
  obtain e l where w: "dx_Write io (sd_wal s) (dx_marshal io data) = (True, l)" and s': "s' = s\<lparr>sd_wal := l\<rparr>"
    and e: "entry_of data = Some e" and m: "means s docID deletes e" using assms(1) unfolding logged_def by blast
  obtain data' where d: "so_unmarshal ops (dx_marshal io data) = Some data'" "entry_of data' = Some (e\<lparr>et_data := data'\<rparr>)" using decodes [OF e] by blast
  let ?e = "e\<lparr>et_data := data'\<rparr>"
  have "unat (n + 1) = Suc (unat n)" using assms(7) unatSuc [of n] by (simp add: add.commute)
  then have less: "n < n + 1" and one: "consume_range n (n + 1) = [n + 1]"
    by (simp_all add: word_less_nat_alt consume_range_def MaxBatchSize_def ids_from_def)
  have last: "so_LastIndex ops (so_Sync ops (sd_wal s')) = Some (n + 1)" using write_last [OF w assms(6,7)] by (simp add: s' sync_last)
  have read: "decode_all ops (so_Sync ops (sd_wal s')) (consume_range n (n + 1)) = Some [?e]"
    using write_read [OF w assms(6,7)] d by (simp add: one decode_at_def s' sync_read)
  have ok: "batch_ok [?e]" "targets_ok (et_shard ` set [?e]) s'"
    using m assms(8) by (auto simp: means_def batch_ok_def group_ok_def separate_def of_shard_def changes_only_def targets_ok_def s' GetShardNum_def)
  have st: "redo_wf (sd_redo s')" "committed s' = Some n" "sd_writers s' \<noteq> []" using assms(4,5,8) by (simp_all add: s')
  obtain s2 where c: "ConsumeWAL ops order rio batchSize maxSize s' = Done True s2"
    using ConsumeWAL_total [OF assms(2,3) st(1) ok(2) st(2) last less read ok(1)] by blast
  moreover have "conts s2 = exec_entry build (conts s) ?e \<or> conts s2 = exec_entry build (conts s) ?e @ [\<lambda>_. {#}]" "committed s2 = Some (n + 1)"
    using ConsumeWAL_effect [OF assms(3) st(1,2) last less read ok(1) st(3) c] one by (auto simp: s' conts_def)
  ultimately have s2: "ConsumeWAL ops order rio batchSize maxSize s' = Done True s2" "committed s2 = Some (n + 1)"
      "conts s2 = exec_entry build (conts s) ?e \<or> conts s2 = exec_entry build (conts s) ?e @ [\<lambda>_. {#}]" by blast+
  have "held s2 i = total (exec_entry build (conts s) ?e) i" for i using s2(3) by (auto simp: held_def)
  moreover have "total (exec_entry build (conts s) ?e) docID = (if deletes then {#} else {#the (build docID data')#})" using m unfolding means_def by blast
  moreover have "total (exec_entry build (conts s) ?e) i = held s i" if "i \<noteq> docID" for i
    using that m assms(8) by (simp add: held_def means_def total_other conts_def)
  ultimately have "held s2 = (held s)(docID := (if deletes then {#} else {#the (build docID data')#}))" by (intro ext) simp
  then show ?thesis using s2 d(1) by auto
qed

text \<open>Reading finds a document exactly when the shard holds it.\<close>

lemma FindDocument_held:
  assumes "dx_opens io" and "schedule_ok io runs docID s" and "\<forall>w \<in> set (sd_writers s). dx_search io w docID \<noteq> None"
  shows "FindDocumentByDocID io runs docID s = Inl EIDNotFound \<longleftrightarrow> held s docID = {#}"
proof -
  let ?hit = "foldl (\<lambda>hit k. if found_in io s docID k then Some (dx_hit io (sd_writers s ! k) docID) else hit) None runs"
  have hit: "?hit = None \<longleftrightarrow> (\<forall>k \<in> set runs. \<not> found_in io s docID k)" by (induction runs rule: rev_induct) auto
  have "held s docID = {#}" if "\<forall>k \<in> set runs. \<not> found_in io s docID k"
    using that assms(2) by (intro missing_held [OF assms(3)]) (auto simp: schedule_ok_def)
  moreover have "held s docID \<noteq> {#}" if "k \<in> set runs" "found_in io s docID k" for k
    using that assms(2) found_held [of k s docID] total_zero [of k "conts s" docID] by (auto simp: schedule_ok_def held_def conts_def)
  ultimately show ?thesis using hit assms(1) by (auto simp: FindDocumentByDocID_def Let_def split: option.split)
qed

end

section \<open>A change of a document\<close>

text \<open>
  C12. An operation on a document that succeeds takes effect: the next pass over the log of an idle shard succeeds when the
  libraries do, and then the shard holds, for the ID, exactly the document that was checked when
  it was created or updated, nothing when it was deleted, and what it held before for every other ID. Reading it then finds it
  unless it was deleted, in whatever order the concurrent searches end. Assumed is that the ID is held at most once
  before, not at all when a new ID is added, and that the searches work.
\<close>
theorem document_change_takes_effect:
  assumes "shard_docs ops cont io" and "sound_ops ops rio" and "order_ok order"
    and "sd_open s" and "redo_wf (sd_redo s)" and "committed s = Some n" and "so_LastIndex ops (sd_wal s) = Some n" and "n + 1 \<noteq> 0"
    and "sd_writers s \<noteq> []" and "length (sd_writers s) < 2 ^ 63" and "dx_opens io" and "\<And>w. dx_search io w docID \<noteq> None"
    and "schedule_ok io runs docID s" and "size (total (map cont (sd_writers s)) docID) \<le> 1"
    and "adds ch \<Longrightarrow> total (map cont (sd_writers s)) docID = {#}"
    and "change_document oe ce io runs docID ch (s, m) = Done () (s', m')"
  shows "\<exists>s2 data. ConsumeWAL ops order rio batchSize maxSize s' = Done True s2 \<and> committed s2 = Some (n + 1) \<and> checked_as ce docID ch m data m' \<and>
    total (map cont (sd_writers s2)) = (total (map cont (sd_writers s)))
      (docID := (if ch = Deletes then {#} else {#the (so_build ops docID (the (so_unmarshal ops (dx_marshal io data))))#})) \<and>
    (\<forall>runs2. schedule_ok io runs2 docID s2 \<longrightarrow> (FindDocumentByDocID io runs2 docID s2 = Inl EIDNotFound \<longleftrightarrow> ch = Deletes))"
proof -
  have held: "shard_docs.held cont t = total (map cont (sd_writers t))" for t :: "('a, 'b) IndexShard"
    by (simp add: shard_docs.held_def [OF assms(1)] shard_store.conts_def [OF shard_log.axioms(1) [OF shard_docs.axioms(1) [OF assms(1)]]])
  have searches: "\<forall>w \<in> set (sd_writers t). dx_search io w docID \<noteq> None" for t :: "('a, 'b) IndexShard" using assms(12) by blast
  obtain data where data: "shard_docs.logged ops cont io s docID (ch = Deletes) data s'" "checked_as ce docID ch m data m'"
    using shard_docs.change_logged [OF assms(1,16,4,13) searches assms(9,10)] assms(14,15) unfolding held by blast
  from shard_docs.pass_applies [OF assms(1) data(1) assms(2,3,5-9), of batchSize maxSize] obtain s2 where
    s2: "ConsumeWAL ops order rio batchSize maxSize s' = Done True s2" "committed s2 = Some (n + 1)"
      "total (map cont (sd_writers s2)) = (total (map cont (sd_writers s)))
      (docID := (if ch = Deletes then {#} else {#the (so_build ops docID (the (so_unmarshal ops (dx_marshal io data))))#}))"
    unfolding held by blast
  have "FindDocumentByDocID io runs2 docID s2 = Inl EIDNotFound \<longleftrightarrow> ch = Deletes" if "schedule_ok io runs2 docID s2" for runs2
    using shard_docs.FindDocument_held [OF assms(1,11) that searches] unfolding held s2(3) by simp
  then show ?thesis using s2 data(2) by blast
qed

section \<open>A reference library\<close>

text \<open>An encoding of JSON values, in which every character of a string is marked.\<close>

fun enc_str :: "string \<Rightarrow> string" where
  "enc_str [] = ''.''"
| "enc_str (c # s) = CHR ''c'' # c # enc_str s"

fun dec_str :: "string \<Rightarrow> (string \<times> string) option" where
  "dec_str (CHR ''.'' # r) = Some ([], r)"
| "dec_str (CHR ''c'' # c # r) = map_option (\<lambda>(s, r1). (c # s, r1)) (dec_str r)"
| "dec_str _ = None"

fun enc :: "json \<Rightarrow> string" and enc_items :: "json list \<Rightarrow> string" and enc_members :: "(string \<times> json) list \<Rightarrow> string" where
  "enc JNull = ''n''"
| "enc (JBool b) = (if b then ''t'' else ''f'')"
| "enc (JNum s) = CHR ''d'' # enc_str s"
| "enc (JStr s) = CHR ''s'' # enc_str s"
| "enc (JArr xs) = CHR ''a'' # enc_items xs"
| "enc (JObj kvs) = CHR ''o'' # enc_members kvs"
| "enc_items [] = ''.''"
| "enc_items (x # xs) = CHR '','' # enc x @ enc_items xs"
| "enc_members [] = ''.''"
| "enc_members ((k, v) # kvs) = CHR '','' # enc_str k @ enc v @ enc_members kvs"

text \<open>The decoder has the length of its input as fuel, which is enough for what was encoded.\<close>

fun dec :: "nat \<Rightarrow> string \<Rightarrow> (json \<times> string) option" and dec_items :: "nat \<Rightarrow> string \<Rightarrow> (json list \<times> string) option"
  and dec_members :: "nat \<Rightarrow> string \<Rightarrow> ((string \<times> json) list \<times> string) option" where
  "dec (Suc n) (c # r) =
     (if c = CHR ''n'' then Some (JNull, r) else if c = CHR ''t'' then Some (JBool True, r) else if c = CHR ''f'' then Some (JBool False, r)
      else if c = CHR ''d'' then map_option (\<lambda>(s, r1). (JNum s, r1)) (dec_str r)
      else if c = CHR ''s'' then map_option (\<lambda>(s, r1). (JStr s, r1)) (dec_str r)
      else if c = CHR ''a'' then map_option (\<lambda>(xs, r1). (JArr xs, r1)) (dec_items n r)
      else if c = CHR ''o'' then map_option (\<lambda>(kvs, r1). (JObj kvs, r1)) (dec_members n r) else None)"
| "dec _ _ = None"
| "dec_items (Suc n) (c # r) =
     (if c = CHR ''.'' then Some ([], r)
      else case dec n r of None \<Rightarrow> None | Some (x, r1) \<Rightarrow> map_option (\<lambda>(xs, r2). (x # xs, r2)) (dec_items n r1))"
| "dec_items _ _ = None"
| "dec_members (Suc n) (c # r) =
     (if c = CHR ''.'' then Some ([], r)
      else case dec_str r of None \<Rightarrow> None | Some (k, r1) \<Rightarrow>
        (case dec n r1 of None \<Rightarrow> None | Some (v, r2) \<Rightarrow> map_option (\<lambda>(kvs, r3). ((k, v) # kvs, r3)) (dec_members n r2)))"
| "dec_members _ _ = None"

lemma dec_enc_str [simp]: "dec_str (enc_str s @ r) = Some (s, r)"
  by (induction s) simp_all

lemma dec_enc:
  "length (enc j) \<le> n \<Longrightarrow> dec n (enc j @ r) = Some (j, r)"
  "length (enc_items xs) \<le> n \<Longrightarrow> dec_items n (enc_items xs @ r) = Some (xs, r)"
  "length (enc_members kvs) \<le> n \<Longrightarrow> dec_members n (enc_members kvs @ r) = Some (kvs, r)"
  by (induction j and xs and kvs arbitrary: n r and n r and n r rule: enc_enc_items_enc_members.induct) (case_tac [!] n, auto split: if_splits)

definition ref_marshal :: "object \<Rightarrow> bytes" where
  "ref_marshal data = enc (JObj data)"

definition ref_unmarshal :: "bytes \<Rightarrow> object option" where
  "ref_unmarshal b = (case dec (length b) b of Some (JObj data, []) \<Rightarrow> Some data | _ \<Rightarrow> None)"

lemma ref_round_trip: "ref_unmarshal (ref_marshal data) = Some data"
  using dec_enc(1) [of "JObj data" "length (enc (JObj data))" "[]"] by (simp add: ref_unmarshal_def ref_marshal_def del: enc.simps)

definition ref_search :: "ref_writer \<Rightarrow> string \<Rightarrow> bool option" where
  "ref_search w i = Some (list_ex (\<lambda>p. fst p = i) w)"

definition ref_hit :: "ref_writer \<Rightarrow> string \<Rightarrow> json" where
  "ref_hit w i = (case map_of w i of None \<Rightarrow> JNull | Some data \<Rightarrow> JObj data)"

definition ref_write :: "ref_wal \<Rightarrow> bytes \<Rightarrow> bool \<times> ref_wal" where
  "ref_write l b = (True, l @ [(foldr max (map fst l) 0 + 1, b)])"

definition ref_io :: "(ref_writer \<Rightarrow> string \<Rightarrow> bool option) \<Rightarrow> (ref_writer, ref_wal) doc_io" where
  "ref_io search = \<lparr>dx_opens = True, dx_search = search, dx_hit = ref_hit, dx_marshal = ref_marshal, dx_Write = ref_write\<rparr>"

lemma next_number:
  assumes "(n :: u64) + 1 \<noteq> 0"
  shows "n < n + 1"
  using assms unatSuc [of n] by (simp add: word_less_nat_alt add.commute)

lemma foldr_max_start: "foldr max xs x = max (foldr max xs 0) (x :: u64)"
  by (induction xs) (simp_all add: max.left_commute max.commute)

interpretation ref_docs: shard_docs "ref_ops verdict ref_unmarshal" ref_cont "ref_io ref_search"
proof
  fix w i found
  show "dx_search (ref_io ref_search) w i = Some found \<Longrightarrow> found \<longleftrightarrow> ref_cont w i \<noteq> {#}"
    by (fastforce simp: ref_io_def ref_search_def ref_cont_def list_ex_iff filter_empty_conv)
next
  fix l b l' n
  assume w: "dx_Write (ref_io ref_search) l b = (True, l')" and l: "so_LastIndex (ref_ops verdict ref_unmarshal) l = Some n" and n: "n + 1 \<noteq> 0"
  have l': "l' = l @ [(n + 1, b)]" and top: "foldr max (map fst l) 0 = n" using w l by (simp_all add: ref_io_def ref_write_def ref_ops_def)
  have "foldr max (map fst l) (n + 1) = n + 1"
    using foldr_max_start [of "map fst l" "n + 1"] top next_number [OF n] by (simp add: max_def)
  then show "so_LastIndex (ref_ops verdict ref_unmarshal) l' = Some (n + 1)" by (simp add: l' ref_ops_def max_def)
  have "n + 1 \<notin> fst ` set l" using foldr_max_ge [of "n + 1" "map fst l"] next_number [OF n] unfolding top by (metis leD list.set_map)
  then have "map_of l (n + 1) = None" by (simp add: map_of_eq_None_iff)
  then show "so_Read (ref_ops verdict ref_unmarshal) l' (n + 1) = Some b" by (simp add: l' ref_ops_def map_add_def)
next
  fix data e
  assume e: "entry_of data = Some e"
  then have "et_data e = data" by (auto simp: entry_of_def split: option.splits)
  then show "\<exists>data'. so_unmarshal (ref_ops verdict ref_unmarshal) (dx_marshal (ref_io ref_search) data) = Some data' \<and> entry_of data' = Some (e\<lparr>et_data := data'\<rparr>)"
    using e by (auto simp: ref_ops_def ref_io_def ref_round_trip)
qed

section \<open>Examples\<close>

definition ex_check_env :: check_env where
  "ex_check_env = \<lparr>ce_values = ex_values, ce_keyword = False, ce_order = map fst, ce_stored = True, ce_now = 7\<rparr>"

definition ex_open :: "(ref_writer, ref_wal, object) open_env" where
  "ex_open = \<lparr>oe_ops = ref_ops (\<lambda>_. Taken) ref_unmarshal, oe_order = in_order, oe_files = None\<rparr>"

definition ex_idle :: "(ref_writer, ref_wal) IndexShard" where
  "ex_idle = ex_shard [[(''a'', [(''v'', JStr ''old'')])], []] []"

definition ex_change :: "(ref_writer \<Rightarrow> string \<Rightarrow> bool option) \<Rightarrow> string \<Rightarrow> doc_change \<Rightarrow> (ref_writer, ref_wal) doc_shard \<Rightarrow>
    (unit, (ref_writer, ref_wal) doc_shard) Shard_Wal.outcome" where
  "ex_change search docID ch = change_document ex_open ex_check_env (ref_io search) [1, 0] docID ch"

definition ex_new :: object where
  "ex_new = [(''v'', JStr ''new'')]"

lemma ex_idle_held: "total (map ref_cont (sd_writers ex_idle)) ''a'' = {#[(''v'', JStr ''old'')]#}"
  by (simp add: ex_idle_def ex_shard_def ref_cont_def)

theorem document_change_takes_effect_witness:
  "\<exists>s' m' s2. ex_change ref_search ''a'' (Updates ex_new False) (ex_idle, []) = Done () (s', m') \<and>
     ConsumeWAL (ref_ops (\<lambda>_. Taken) ref_unmarshal) in_order ex_io 100 1000 s' = Done True s2 \<and> committed s2 = Some 1 \<and>
     size (total (map ref_cont (sd_writers s2)) ''a'') = 1"
proof -
  have "(case ex_change ref_search ''a'' (Updates ex_new False) (ex_idle, []) of Done _ _ \<Rightarrow> True | _ \<Rightarrow> False) = True" by code_simp
  then obtain s' m' where c: "ex_change ref_search ''a'' (Updates ex_new False) (ex_idle, []) = Done () (s', m')"
    by (auto split: Shard_Wal.outcome.splits)
  have sched: "schedule_ok (ref_io ref_search) [1, 0] ''a'' ex_idle" by code_simp
  have sound: "sound_ops (ref_ops (\<lambda>_. Taken) ref_unmarshal) ex_io" by (rule ref_sound) (simp add: io_ok_def ex_io_def)
  have idle: "sd_open ex_idle" "redo_wf (sd_redo ex_idle)" "committed ex_idle = Some 0"
    "so_LastIndex (ref_ops (\<lambda>_. Taken) ref_unmarshal) (sd_wal ex_idle) = Some 0" "sd_writers ex_idle \<noteq> []" "length (sd_writers ex_idle) < 2 ^ 63"
    using ex_committed ex_shard_redo by (simp_all add: ex_idle_def) (simp_all add: ex_shard_def ref_ops_def)
  have "\<exists>s2 data. ConsumeWAL (ref_ops (\<lambda>_. Taken) ref_unmarshal) in_order ex_io 100 1000 s' = Done True s2 \<and> committed s2 = Some (0 + 1) \<and>
     total (map ref_cont (sd_writers s2)) = (total (map ref_cont (sd_writers ex_idle)))(''a'' := {#the (so_build (ref_ops (\<lambda>_. Taken) ref_unmarshal) ''a'' data)#})"
    using document_change_takes_effect [OF ref_docs.shard_docs_axioms sound in_order_ok idle(1-4) _ idle(5,6) _ _ sched _ _ c [unfolded ex_change_def], of 100 1000]
      ex_idle_held by (fastforce simp: ref_io_def ref_search_def)
  then show ?thesis using c by auto
qed

text \<open>A search that fails in the writer that has the document.\<close>

definition broken_search :: "ref_writer \<Rightarrow> string \<Rightarrow> bool option" where
  "broken_search w i = (if list_ex (\<lambda>p. fst p = i) w then None else Some False)"


end
