(* ===== verification/Nats_Store.thy ===== *)
theory Nats_Store
  imports State_Store
begin

text \<open>
  The state store on a NATS JetStream key/value bucket (\<open>pkg/coordinator/state/natskv.go\<close>). The bucket is
  third-party code: a record of its operations, with what is documented of them as the locales
  \<open>nats_bucket\<close> and \<open>nats_up\<close>. Both give the contracts of a store by \<open>sublocale\<close>. A bucket in memory shows that the laws
  can hold.
\<close>

section \<open>The bucket\<close>

datatype nats_error = ErrKeyNotFound | ErrKeyExists | ErrKeyRevisionMismatch | ErrNoKeysFound | NatsOther

text \<open>\<open>nk_cancelled\<close> says whether the context of a listing is done when the keys have been received.\<close>

record ('s, 'v) KeyValue =
  nk_Get :: "'s \<Rightarrow> string \<Rightarrow> nats_error + ('v \<times> nat)"
  nk_Create :: "'s \<Rightarrow> string \<Rightarrow> 'v \<Rightarrow> (nats_error + nat) \<times> 's"
  nk_Update :: "'s \<Rightarrow> string \<Rightarrow> 'v \<Rightarrow> nat \<Rightarrow> (nats_error + nat) \<times> 's"
  nk_Delete :: "'s \<Rightarrow> string \<Rightarrow> nats_error option \<times> 's"
  nk_ListKeys :: "'s \<Rightarrow> nats_error + string list"
  nk_cancelled :: "'s \<Rightarrow> bool"

section \<open>The store\<close>

definition natskv_Get :: "('s, 'v) KeyValue \<Rightarrow> 's \<Rightarrow> string \<Rightarrow> state_error + 'v Entry" where
  "natskv_Get B s key =
     (if \<not> ValidKey key then Inl ErrInvalidKey
      else case nk_Get B s key of
        Inl err \<Rightarrow> Inl (if err = ErrKeyNotFound then ErrNotFound else ErrIO)
      | Inr (v, r) \<Rightarrow> Inr \<lparr>e_Key = key, e_Value = v, e_Revision = r\<rparr>)"

definition natskv_Create :: "('s, 'v) KeyValue \<Rightarrow> 's \<Rightarrow> string \<Rightarrow> 'v \<Rightarrow> (state_error + nat) \<times> 's" where
  "natskv_Create B s key value =
     (if \<not> ValidKey key then (Inl ErrInvalidKey, s)
      else case nk_Create B s key value of
        (Inl err, s1) \<Rightarrow> (Inl (if err = ErrKeyExists \<or> err = ErrKeyRevisionMismatch then ErrConflict else ErrIO), s1)
      | (Inr r, s1) \<Rightarrow> (Inr r, s1))"

definition natskv_Update :: "('s, 'v) KeyValue \<Rightarrow> 's \<Rightarrow> string \<Rightarrow> 'v \<Rightarrow> nat \<Rightarrow> (state_error + nat) \<times> 's" where
  "natskv_Update B s key value expected =
     (if \<not> ValidKey key then (Inl ErrInvalidKey, s)
      else case nk_Update B s key value expected of
        (Inl err, s1) \<Rightarrow>
          if err = ErrKeyRevisionMismatch \<or> err = ErrKeyExists then
            (Inl (if natskv_Get B s1 key = Inl ErrNotFound then ErrNotFound else ErrConflict), s1)
          else (Inl ErrIO, s1)
      | (Inr r, s1) \<Rightarrow> (Inr r, s1))"

definition natskv_Delete :: "('s, 'v) KeyValue \<Rightarrow> 's \<Rightarrow> string \<Rightarrow> state_error option \<times> 's" where
  "natskv_Delete B s key =
     (if \<not> ValidKey key then (Some ErrInvalidKey, s)
      else case nk_Delete B s key of
        (err, s1) \<Rightarrow> (if err = None \<or> err = Some ErrKeyNotFound then None else Some ErrIO, s1))"

fun get_keys :: "('s, 'v) KeyValue \<Rightarrow> 's \<Rightarrow> string list \<Rightarrow> state_error + 'v Entry list" where
  "get_keys B s [] = Inr []"
| "get_keys B s (key # keys) =
     (case natskv_Get B s key of
        Inl err \<Rightarrow> if err = ErrNotFound then get_keys B s keys else Inl err
      | Inr e \<Rightarrow> (case get_keys B s keys of Inl err \<Rightarrow> Inl err | Inr es \<Rightarrow> Inr (e # es)))"

definition natskv_List :: "('s, 'v) KeyValue \<Rightarrow> 's \<Rightarrow> string \<Rightarrow> state_error + 'v Entry list" where
  "natskv_List B s pre =
     (case nk_ListKeys B s of
        Inl err \<Rightarrow> if err = ErrNoKeysFound then Inr [] else Inl ErrIO
      | Inr keys \<Rightarrow>
          if nk_cancelled B s then Inl ErrIO
          else get_keys B s (sort_Slice (<) (filter (\<lambda>key. HasPrefix key pre) keys)))"

definition NATSKV :: "('s, 'v) KeyValue \<Rightarrow> ('s, 'v) Store" where
  "NATSKV B = \<lparr>st_Get = natskv_Get B, st_Create = natskv_Create B, st_Update = natskv_Update B,
     st_Delete = natskv_Delete B, st_List = natskv_List B\<rparr>"

lemma NATSKV_simps [simp]:
  "st_Get (NATSKV B) = natskv_Get B" "st_Create (NATSKV B) = natskv_Create B" "st_Update (NATSKV B) = natskv_Update B"
  "st_Delete (NATSKV B) = natskv_Delete B" "st_List (NATSKV B) = natskv_List B"
  by (simp_all add: NATSKV_def)

section \<open>What is documented of a bucket\<close>

text \<open>
  With a history of 1 a bucket keeps the last message of every key: its sequence number, and the value or the mark of
  a deletion. A write is accepted when the last message of the key has the expected sequence number, 0
  when there is none.
\<close>

type_synonym 'v last_message = "(nat \<times> 'v option) option"

definition seq_of :: "'v last_message \<Rightarrow> nat" where
  "seq_of l = (case l of None \<Rightarrow> 0 | Some (q, _) \<Rightarrow> q)"

definition value_of :: "'v last_message \<Rightarrow> ('v \<times> nat) option" where
  "value_of l = (case l of Some (q, Some v) \<Rightarrow> Some (v, q) | _ \<Rightarrow> None)"

text \<open>The largest revision a value of the key may have had: that of the value, or one below that of the mark.\<close>

definition seen_of :: "'v last_message \<Rightarrow> nat" where
  "seen_of l = (case l of None \<Rightarrow> 0 | Some (q, Some v) \<Rightarrow> q | Some (q, None) \<Rightarrow> q - 1)"

definition written :: "('s \<Rightarrow> string \<Rightarrow> 'v last_message) \<Rightarrow> ('s \<Rightarrow> bool) \<Rightarrow> 's \<Rightarrow> string \<Rightarrow> 'v option \<Rightarrow> nat \<Rightarrow> 's \<Rightarrow> bool" where
  "written latest invar s k x q s' \<longleftrightarrow> invar s' \<and> latest s' = (latest s)(k \<mapsto> (q, x)) \<and> seq_of (latest s k) < q"

definition kv_view :: "('s \<Rightarrow> string \<Rightarrow> 'v last_message) \<Rightarrow> 's \<Rightarrow> string \<Rightarrow> ('v \<times> nat) option" where
  "kv_view latest s k = value_of (latest s k)"

definition kv_bound :: "('s \<Rightarrow> string \<Rightarrow> 'v last_message) \<Rightarrow> 's \<Rightarrow> string \<Rightarrow> nat" where
  "kv_bound latest s k = seen_of (latest s k)"

lemma seen_le_seq: "seen_of l \<le> seq_of l"
  by (simp add: seen_of_def seq_of_def split: option.split)

lemma written_committed: "written latest invar s k (Some v) q s' \<Longrightarrow> committed (kv_view latest) (kv_bound latest) invar s k v q s'"
  using seen_le_seq [of "latest s k"]
  by (auto simp: written_def committed_def kv_view_def kv_bound_def value_of_def seen_of_def fun_eq_iff)

lemma written_deleted:
  "written latest invar s k None q s' \<Longrightarrow> kv_view latest s' = (kv_view latest s)(k := None) \<and> (\<forall>j. kv_bound latest s j \<le> kv_bound latest s' j)"
  using seen_le_seq [of "latest s k"] by (auto simp: written_def kv_view_def kv_bound_def value_of_def seen_of_def fun_eq_iff)

locale nats_bucket =
  fixes B :: "('s, 'v) KeyValue" and latest :: "'s \<Rightarrow> string \<Rightarrow> 'v last_message" and invar :: "'s \<Rightarrow> bool"
  assumes positive: "invar s \<Longrightarrow> latest s k = Some (q, x) \<Longrightarrow> 0 < q"
    and kv_get: "invar s \<Longrightarrow> nk_Get B s k = Inr (v, q) \<Longrightarrow> latest s k = Some (q, Some v)"
    and kv_get_missing: "invar s \<Longrightarrow> nk_Get B s k = Inl ErrKeyNotFound \<Longrightarrow> value_of (latest s k) = None"
    and kv_create: "invar s \<Longrightarrow> nk_Create B s k v = (res, s') \<Longrightarrow>
      (s' = s \<and> isl res) \<or> (\<exists>q. written latest invar s k (Some v) q s' \<and> value_of (latest s k) = None \<and> res \<in> {Inr q, Inl NatsOther})"
    and kv_update: "invar s \<Longrightarrow> nk_Update B s k v expected = (res, s') \<Longrightarrow>
      (s' = s \<and> isl res) \<or> (\<exists>q. written latest invar s k (Some v) q s' \<and> seq_of (latest s k) = expected \<and> res \<in> {Inr q, Inl NatsOther})"
    and kv_delete: "invar s \<Longrightarrow> nk_Delete B s k = (err, s') \<Longrightarrow> s' = s \<or> (\<exists>q. written latest invar s k None q s')"

sublocale nats_bucket < kv: cas_store "NATSKV B" "kv_view latest" "kv_bound latest" invar
proof (unfold_locales, goal_cases)
  case (1 s k v r)
  then show ?case using positive by (auto simp: kv_view_def kv_bound_def value_of_def seen_of_def split: option.splits)
next
  case (2 s k e)
  then show ?case using kv_get by (fastforce simp: natskv_Get_def kv_view_def value_of_def split: sum.splits if_splits)
next
  case (3 s k)
  then show ?case using kv_get_missing by (auto simp: natskv_Get_def kv_view_def split: sum.splits if_splits)
next
  case (4 s k v res s')
  show ?case
  proof (cases "ValidKey k")
    case True
    obtain res1 where c: "nk_Create B s k v = (res1, s')" and res: "res = (case res1 of Inr r \<Rightarrow> Inr r
        | Inl err \<Rightarrow> Inl (if err = ErrKeyExists \<or> err = ErrKeyRevisionMismatch then ErrConflict else ErrIO))"
      using 4 True by (auto simp: natskv_Create_def split: prod.splits sum.splits)
    from kv_create [OF 4(1) c] written_committed show ?thesis by (fastforce simp: res kv_view_def split: sum.splits)
  qed (use 4 in \<open>auto simp: natskv_Create_def\<close>)
next
  case (5 s k v expected res s')
  show ?case
  proof (cases "ValidKey k")
    case True
    obtain res1 where c: "nk_Update B s k v expected = (res1, s')" and res: "res1 = Inr r \<Longrightarrow> res = Inr r" "res1 = Inl NatsOther \<Longrightarrow> res = Inl ErrIO"
        "isl res1 \<Longrightarrow> isl res" for r
      using 5 True by (auto simp: natskv_Update_def split: prod.splits sum.splits if_splits)
    have "expected = seq_of (latest s k) \<Longrightarrow> (\<exists>v0. kv_view latest s k = Some (v0, expected)) \<or>
        kv_view latest s k = None \<and> (expected = 0 \<or> kv_bound latest s k < expected)"
      using positive [OF 5(1), of k] by (auto simp: kv_view_def kv_bound_def value_of_def seen_of_def seq_of_def split: option.splits)
    with kv_update [OF 5(1) c] written_committed res show ?thesis by fastforce
  qed (use 5 in \<open>auto simp: natskv_Update_def\<close>)
next
  case (6 s k err s')
  then show ?case
    using kv_delete [of s k] written_deleted [of latest invar s k]
    by (auto simp: natskv_Delete_def written_def split: prod.splits if_splits)
qed

section \<open>A bucket that is reachable\<close>

locale nats_up = nats_bucket +
  assumes up_get: "invar s \<Longrightarrow> ValidKey k \<Longrightarrow> nk_Get B s k = (case value_of (latest s k) of None \<Rightarrow> Inl ErrKeyNotFound | Some e \<Rightarrow> Inr e)"
    and up_create: "invar s \<Longrightarrow> ValidKey k \<Longrightarrow> value_of (latest s k) = None \<Longrightarrow> \<exists>q s'. nk_Create B s k v = (Inr q, s')"
    and up_exists: "invar s \<Longrightarrow> ValidKey k \<Longrightarrow> value_of (latest s k) = Some e \<Longrightarrow> nk_Create B s k v = (Inl ErrKeyExists, s)"
    and up_update: "invar s \<Longrightarrow> ValidKey k \<Longrightarrow> seq_of (latest s k) = expected \<Longrightarrow> \<exists>q s'. nk_Update B s k v expected = (Inr q, s')"
    and up_mismatch: "invar s \<Longrightarrow> ValidKey k \<Longrightarrow> seq_of (latest s k) \<noteq> expected \<Longrightarrow> nk_Update B s k v expected = (Inl ErrKeyRevisionMismatch, s)"
    and up_delete: "invar s \<Longrightarrow> ValidKey k \<Longrightarrow> \<exists>q s'. nk_Delete B s k = (None, s') \<and> written latest invar s k None q s'"
    and up_keys: "invar s \<Longrightarrow> (nk_ListKeys B s = Inl ErrNoKeysFound \<and> (\<forall>k. value_of (latest s k) = None)) \<or>
      (\<exists>keys. nk_ListKeys B s = Inr keys \<and> distinct keys \<and> (\<forall>k. k \<in> set keys \<longleftrightarrow> value_of (latest s k) \<noteq> None))"
    and up_valid: "invar s \<Longrightarrow> value_of (latest s k) \<noteq> None \<Longrightarrow> ValidKey k"
    and up_waits: "invar s \<Longrightarrow> \<not> nk_cancelled B s"
begin

lemma natskv_Get_up: "invar s \<Longrightarrow> ValidKey k \<Longrightarrow> natskv_Get B s k =
    (case kv_view latest s k of None \<Rightarrow> Inl ErrNotFound | Some (v, r) \<Rightarrow> Inr \<lparr>e_Key = k, e_Value = v, e_Revision = r\<rparr>)"
  by (auto simp: natskv_Get_def up_get kv_view_def split: option.split)

lemma get_keys_up:
  assumes "invar s"
  shows "\<forall>k \<in> set keys. kv_view latest s k \<noteq> None \<Longrightarrow>
    get_keys B s keys = Inr (map (\<lambda>k. \<lparr>e_Key = k, e_Value = fst (the (kv_view latest s k)), e_Revision = snd (the (kv_view latest s k))\<rparr>) keys)"
proof (induction keys)
  case (Cons k keys)
  have "ValidKey k" using Cons.prems up_valid [OF assms, of k] by (simp add: kv_view_def)
  with Cons show ?case by (auto simp: natskv_Get_up [OF assms] split: option.split)
qed simp

lemma natskv_List_up:
  assumes "invar s"
  shows "\<exists>es. natskv_List B s p = Inr es \<and> sorted_wrt (<) (map e_Key es) \<and>
    (\<forall>e. e \<in> set es \<longleftrightarrow> HasPrefix (e_Key e) p \<and> kv_view latest s (e_Key e) = Some (e_Value e, e_Revision e))"
proof (cases "nk_ListKeys B s")
  case (Inl err)
  then show ?thesis using up_keys [OF assms] by (auto simp: natskv_List_def kv_view_def)
next
  case (Inr keys)
  let ?ks = "sort_Slice (<) (filter (\<lambda>key. HasPrefix key p) keys)"
  let ?e = "\<lambda>k. \<lparr>e_Key = k, e_Value = fst (the (kv_view latest s k)), e_Revision = snd (the (kv_view latest s k))\<rparr>"
  have keys: "distinct keys" "\<And>k. k \<in> set keys \<longleftrightarrow> kv_view latest s k \<noteq> None" using up_keys [OF assms] Inr by (auto simp: kv_view_def)
  have g: "natskv_List B s p = Inr (map ?e ?ks)"
    using Inr up_waits [OF assms] get_keys_up [OF assms, of ?ks] keys(2) by (simp add: natskv_List_def)
  have "distinct (map id ?ks)" "sorted (map id ?ks)"
    using keys(1) sorted_map_sort_Slice [of id "filter (\<lambda>key. HasPrefix key p) keys"] by (simp_all only: distinct_map_sort_Slice) simp_all
  then have "sorted_wrt (<) (map e_Key (map ?e ?ks))" by (simp add: comp_def strict_sorted_iff)
  moreover have "e \<in> set (map ?e ?ks) \<longleftrightarrow> HasPrefix (e_Key e) p \<and> kv_view latest s (e_Key e) = Some (e_Value e, e_Revision e)" for e
    using keys(2) by (cases e) (auto simp: image_iff)
  ultimately show ?thesis using g by blast
qed

end

sublocale nats_up < kvr: reliable_store "NATSKV B" "kv_view latest" "kv_bound latest" invar
proof (unfold_locales, goal_cases)
  case (1 s k)
  then show ?case by (simp add: natskv_Get_up)
next
  case (2 s k v)
  then show ?case using up_create [of s k v] by (auto simp: natskv_Create_def kv_view_def)
next
  case (3 s k e v)
  then show ?case using up_exists [of s k e v] by (simp add: natskv_Create_def kv_view_def)
next
  case (4 s k v0 r v)
  then have "seq_of (latest s k) = r" by (auto simp: kv_view_def value_of_def seq_of_def split: option.splits)
  then show ?case using 4 up_update [of s k r v] by (auto simp: natskv_Update_def)
next
  case (5 s k v0 r expected v)
  then have "seq_of (latest s k) \<noteq> expected" by (auto simp: kv_view_def value_of_def seq_of_def split: option.splits)
  then show ?case using 5 up_mismatch [of s k expected v] by (simp add: natskv_Update_def natskv_Get_up)
next
  case (6 s k expected v)
  then have "seq_of (latest s k) \<noteq> expected"
    by (auto simp: kv_view_def kv_bound_def value_of_def seq_of_def seen_of_def split: option.splits)
  then show ?case using 6 up_mismatch [of s k expected v] by (simp add: natskv_Update_def natskv_Get_up)
next
  case (7 s k)
  then show ?case using up_delete [of s k] written_deleted [of latest invar s k] by (auto simp: natskv_Delete_def written_def)
next
  case (8 s p)
  then show ?case by (simp add: natskv_List_up)
qed

section \<open>A bucket in memory\<close>

text \<open>The last messages by key, and the sequence number of the stream; keys are those that the store writes.\<close>

record 'v bucket =
  bu_last :: "(string \<times> (nat \<times> 'v option)) list"
  bu_seq :: nat

definition bu_put :: "string \<Rightarrow> 'v option \<Rightarrow> 'v bucket \<Rightarrow> nat \<times> 'v bucket" where
  "bu_put k x b = (Suc (bu_seq b), \<lparr>bu_last = AList.update k (Suc (bu_seq b), x) (bu_last b), bu_seq = Suc (bu_seq b)\<rparr>)"

definition bu_latest :: "'v bucket \<Rightarrow> string \<Rightarrow> 'v last_message" where
  "bu_latest b k = map_of (bu_last b) k"

definition bu_get :: "'v bucket \<Rightarrow> string \<Rightarrow> nats_error + ('v \<times> nat)" where
  "bu_get b k = (case value_of (bu_latest b k) of None \<Rightarrow> Inl ErrKeyNotFound | Some e \<Rightarrow> Inr e)"

definition bu_update :: "'v bucket \<Rightarrow> string \<Rightarrow> 'v \<Rightarrow> nat \<Rightarrow> (nats_error + nat) \<times> 'v bucket" where
  "bu_update b k v expected =
     (if ValidKey k \<and> seq_of (bu_latest b k) = expected then (case bu_put k (Some v) b of (q, b') \<Rightarrow> (Inr q, b')) else (Inl ErrKeyRevisionMismatch, b))"

text \<open>\<open>Create\<close> writes behind the mark of a deletion too.\<close>

definition bu_create :: "'v bucket \<Rightarrow> string \<Rightarrow> 'v \<Rightarrow> (nats_error + nat) \<times> 'v bucket" where
  "bu_create b k v = (if value_of (bu_latest b k) = None then bu_update b k v (seq_of (bu_latest b k)) else (Inl ErrKeyExists, b))"

definition bu_delete :: "'v bucket \<Rightarrow> string \<Rightarrow> nats_error option \<times> 'v bucket" where
  "bu_delete b k = (None, if ValidKey k then snd (bu_put k None b) else b)"

definition bu_keys :: "'v bucket \<Rightarrow> nats_error + string list" where
  "bu_keys b =
     (case map fst (filter (\<lambda>(k, m). snd m \<noteq> None) (bu_last b)) of [] \<Rightarrow> Inl ErrNoKeysFound | ks \<Rightarrow> Inr ks)"

definition bu_inv :: "'v bucket \<Rightarrow> bool" where
  "bu_inv b \<longleftrightarrow> distinct (map fst (bu_last b)) \<and> (\<forall>(k, q, x) \<in> set (bu_last b). ValidKey k \<and> 0 < q \<and> q \<le> bu_seq b)"

definition mem_bucket :: "('v bucket, 'v) KeyValue" where
  "mem_bucket = \<lparr>nk_Get = bu_get, nk_Create = bu_create, nk_Update = bu_update, nk_Delete = bu_delete, nk_ListKeys = bu_keys, nk_cancelled = (\<lambda>_. False)\<rparr>"

lemma bu_put_written:
  assumes "bu_inv b" and "ValidKey k"
  shows "written bu_latest bu_inv b k x (fst (bu_put k x b)) (snd (bu_put k x b))"
proof -
  have "set (AList.update k y xs) \<subseteq> insert (k, y) (set xs)" for y and xs :: "(string \<times> (nat \<times> 'a option)) list" by (induction xs) auto
  then have "\<forall>(j, q, z) \<in> set (AList.update k (Suc (bu_seq b), x) (bu_last b)). ValidKey j \<and> 0 < q \<and> q \<le> Suc (bu_seq b)"
    using assms unfolding bu_inv_def by fastforce
  moreover have "seq_of (bu_latest b k) \<le> bu_seq b"
    using assms(1) by (fastforce simp: bu_inv_def bu_latest_def seq_of_def split: option.splits dest: map_of_SomeD)
  moreover have "bu_latest (snd (bu_put k x b)) = (bu_latest b)(k \<mapsto> (Suc (bu_seq b), x))" by (simp add: fun_eq_iff bu_latest_def bu_put_def update_conv')
  ultimately show ?thesis using assms(1) by (auto simp: written_def bu_inv_def bu_put_def distinct_update)
qed

lemma bu_latest_ok: "bu_inv b \<Longrightarrow> bu_latest b k = Some (q, x) \<Longrightarrow> ValidKey k \<and> 0 < q"
  by (fastforce simp: bu_inv_def bu_latest_def dest: map_of_SomeD)

lemma bu_keys_ok: "bu_inv b \<Longrightarrow> bu_keys b = Inr ks \<Longrightarrow> distinct ks \<and> (k \<in> set ks \<longleftrightarrow> value_of (bu_latest b k) \<noteq> None)"
proof -
  assume b: "bu_inv b" and ks: "bu_keys b = Inr ks"
  have ks': "ks = map fst (filter (\<lambda>(k, m). snd m \<noteq> None) (bu_last b))" using ks by (auto simp: bu_keys_def split: list.splits)
  have "k \<in> set ks \<longleftrightarrow> (\<exists>q v. (k, q, Some v) \<in> set (bu_last b))" unfolding ks' by force
  also have "\<dots> \<longleftrightarrow> (\<exists>q v. bu_latest b k = Some (q, Some v))" using b by (simp add: bu_inv_def bu_latest_def)
  also have "\<dots> \<longleftrightarrow> value_of (bu_latest b k) \<noteq> None" by (auto simp: value_of_def split: option.splits)
  finally show ?thesis using b unfolding ks' by (simp add: bu_inv_def distinct_map_filter)
qed

lemma bu_no_keys: "bu_inv b \<Longrightarrow> bu_keys b = Inl err \<Longrightarrow> err = ErrNoKeysFound \<and> value_of (bu_latest b k) = None"
  by (fastforce simp: bu_inv_def bu_keys_def bu_latest_def value_of_def filter_empty_conv split: list.splits option.splits dest: map_of_SomeD)

lemma bu_update_cases: "bu_inv b \<Longrightarrow> bu_update b k v expected = (res, b') \<Longrightarrow>
    (b' = b \<and> isl res) \<or> (\<exists>q. written bu_latest bu_inv b k (Some v) q b' \<and> seq_of (bu_latest b k) = expected \<and> res = Inr q)"
  using bu_put_written [of b k "Some v"] by (auto simp: bu_update_def split: prod.splits if_splits)

interpretation bucket: nats_up mem_bucket bu_latest bu_inv
proof (unfold_locales, goal_cases)
  case (1 s k q x)
  then show ?case using bu_latest_ok by blast
next
  case (2 s k v q)
  then show ?case by (auto simp: mem_bucket_def bu_get_def value_of_def split: option.splits)
next
  case (3 s k)
  then show ?case by (auto simp: mem_bucket_def bu_get_def split: option.splits)
next
  case (4 s k v res s')
  then show ?case using bu_update_cases [of s k v] by (auto simp: mem_bucket_def bu_create_def split: if_splits)
next
  case (5 s k v expected res s')
  then show ?case using bu_update_cases [of s k v] by (auto simp: mem_bucket_def)
next
  case (6 s k err s')
  then show ?case using bu_put_written [of s k None] by (auto simp: mem_bucket_def bu_delete_def split: if_splits)
next
  case (7 s k)
  then show ?case by (simp add: mem_bucket_def bu_get_def)
next
  case (8 s k v)
  then show ?case by (auto simp: mem_bucket_def bu_create_def bu_update_def split: prod.splits)
next
  case (9 s k e v)
  then show ?case by (simp add: mem_bucket_def bu_create_def)
next
  case (10 s k expected v)
  then show ?case by (auto simp: mem_bucket_def bu_update_def split: prod.splits)
next
  case (11 s k expected v)
  then show ?case by (simp add: mem_bucket_def bu_update_def)
next
  case (12 s k)
  then show ?case using bu_put_written [of s k None] by (auto simp: mem_bucket_def bu_delete_def)
next
  case (13 s)
  then show ?case using bu_keys_ok [of s] bu_no_keys [of s] by (cases "bu_keys s") (simp_all add: mem_bucket_def)
next
  case (14 s k)
  then show ?case using bu_latest_ok [of s k] by (auto simp: value_of_def split: option.splits)
next
  case (15 s)
  then show ?case by (simp add: mem_bucket_def)
qed

section \<open>The contract\<close>

context nats_bucket
begin

lemma natskv_cas: "cas_store (NATSKV B) (kv_view latest) (kv_bound latest) invar"
  by (rule kv.cas_store_axioms)

end

context nats_up
begin

lemma natskv_reliable: "reliable_store (NATSKV B) (kv_view latest) (kv_bound latest) invar"
  by (rule kvr.reliable_store_axioms)

end

text \<open>
  C18. The store on a bucket with the documented behaviour keeps the contract of the coordinator's state store:
  while the bucket is reachable every operation answers as the interface says, and what fails on the way
  either took effect as a whole or not at all. A revision that was read is never used again for the key,
  also across deletions.
\<close>
theorem NATSKV_keeps_contract:
  assumes "nats_bucket B latest invar"
  shows "cas_store (NATSKV B) (kv_view latest) (kv_bound latest) invar \<and>
    (nats_up B latest invar \<longrightarrow> reliable_store (NATSKV B) (kv_view latest) (kv_bound latest) invar)"
  using nats_bucket.natskv_cas [OF assms] nats_up.natskv_reliable by blast

definition ex_bucket :: "string bucket" where
  "ex_bucket = \<lparr>bu_last = [], bu_seq = 0\<rparr>"

theorem NATSKV_keeps_contract_witness:
  "bu_inv ex_bucket \<and> reliable_store (NATSKV mem_bucket) (kv_view bu_latest) (kv_bound bu_latest) (bu_inv :: string bucket \<Rightarrow> bool) \<and>
   fst (st_Create (NATSKV mem_bucket) ex_bucket ''leader'' ''x'') = Inr 1"
proof -
  have "reliable_store (NATSKV mem_bucket) (kv_view bu_latest) (kv_bound bu_latest) (bu_inv :: string bucket \<Rightarrow> bool)"
    using NATSKV_keeps_contract [OF bucket.nats_bucket_axioms] bucket.nats_up_axioms by blast
  moreover have "bu_inv ex_bucket" by (simp add: bu_inv_def ex_bucket_def)
  moreover have "fst (st_Create (NATSKV mem_bucket) ex_bucket ''leader'' ''x'') = Inr 1" by code_simp
  ultimately show ?thesis by blast
qed

text \<open>
  The interface says that \<open>Update\<close> of a missing key gives \<open>ErrNotFound\<close>. With the revision 0, and after a
  deletion with the revision of its mark, the NATS store writes the key instead; the in-memory store refuses both.
\<close>
theorem update_of_missing_key_writes:
  "fst (natskv_Update mem_bucket ex_bucket ''a'' ''x'' 0) = Inr 1 \<and>
   (let b = snd (natskv_Delete mem_bucket (snd (natskv_Create mem_bucket ex_bucket ''a'' ''x'')) ''a'')
    in natskv_Get mem_bucket b ''a'' = Inl ErrNotFound \<and> fst (natskv_Update mem_bucket b ''a'' ''y'' 2) = Inr 3) \<and>
   fst (mem_Update NewMem ''a'' ''x'' 0) = Inl ErrNotFound"
  by code_simp

end
