(* ===== verification/Search_Merge.thy ===== *)
theory Search_Merge
  imports Prelude "HOL-Library.Multiset"
begin

text \<open>
  Searching in several parts at once (\<open>pkg/bluge/search/search.go\<close>): every reader is asked for the first
  \<open>from + size\<close> documents, which arrive in some order and are put into a heap; the page is taken from
  the heap. The heap is that of \<open>container/heap\<close>, modelled as it works on the slice. The locale \<open>doc_queue\<close> states what
  the list of documents relies on.
\<close>

section \<open>The heap\<close>

definition heap_Swap :: "nat \<Rightarrow> nat \<Rightarrow> 'd list \<Rightarrow> 'd list" where
  "heap_Swap i j xs = xs[i := xs ! j, j := xs ! i]"

function up :: "('d \<Rightarrow> 'd \<Rightarrow> bool) \<Rightarrow> nat \<Rightarrow> 'd list \<Rightarrow> 'd list" where
  "up lt j xs =
     (let i = (j - 1) div 2 in if i = j \<or> \<not> lt (xs ! j) (xs ! i) then xs else up lt i (heap_Swap i j xs))"
  by pat_completeness auto
termination by (relation "measure (\<lambda>(_, j, _). j)") auto

function down :: "('d \<Rightarrow> 'd \<Rightarrow> bool) \<Rightarrow> nat \<Rightarrow> nat \<Rightarrow> 'd list \<Rightarrow> 'd list" where
  "down lt n i xs =
     (let j1 = 2 * i + 1 in
      if n \<le> j1 then xs
      else (let j = (if j1 + 1 < n \<and> lt (xs ! (j1 + 1)) (xs ! j1) then j1 + 1 else j1) in
            if \<not> lt (xs ! j) (xs ! i) then xs else down lt n j (heap_Swap i j xs)))"
  by pat_completeness auto
termination by (relation "measure (\<lambda>(_, n, i, _). n - i)") (auto simp: Let_def split: if_splits)

declare up.simps [simp del] down.simps [simp del]

definition heap_Push :: "('d \<Rightarrow> 'd \<Rightarrow> bool) \<Rightarrow> 'd \<Rightarrow> 'd list \<Rightarrow> 'd list" where
  "heap_Push lt x xs = up lt (length xs) (xs @ [x])"

definition heap_Pop :: "('d \<Rightarrow> 'd \<Rightarrow> bool) \<Rightarrow> 'd list \<Rightarrow> 'd \<times> 'd list" where
  "heap_Pop lt xs =
     (let n = length xs - 1; ys = down lt n 0 (heap_Swap 0 n xs) in (ys ! n, take n ys))"

section \<open>The list of documents\<close>

record 'd DocumentList =
  dl_from :: int
  dl_size :: int
  dl_len :: int
  dl_next :: int
  dl_docs :: "'d list"

fun pops :: "('q \<Rightarrow> 'd \<times> 'q) \<Rightarrow> nat \<Rightarrow> 'q \<Rightarrow> 'd list \<times> 'q" where
  "pops pop 0 q = ([], q)"
| "pops pop (Suc n) q = (case pop q of (x, q1) \<Rightarrow> (case pops pop n q1 of (xs, q2) \<Rightarrow> (x # xs, q2)))"

text \<open>\<open>Done\<close> takes away the documents before the page.\<close>

definition dl_Done :: "('d \<Rightarrow> 'd \<Rightarrow> bool) \<Rightarrow> 'd DocumentList \<Rightarrow> 'd DocumentList" where
  "dl_Done lt d =
     (let docs = snd (pops (heap_Pop lt) (nat (min (dl_from d) (int (length (dl_docs d))))) (dl_docs d))
      in d\<lparr>dl_docs := docs, dl_len := int (length docs)\<rparr>)"

definition dl_Next :: "('d \<Rightarrow> 'd \<Rightarrow> bool) \<Rightarrow> 'd DocumentList \<Rightarrow> 'd option \<times> 'd DocumentList" where
  "dl_Next lt d =
     (if dl_size d \<le> dl_next d \<or> dl_len d \<le> dl_next d then (None, d)
      else (case heap_Pop lt (dl_docs d) of (x, docs) \<Rightarrow> (Some x, d\<lparr>dl_docs := docs, dl_next := dl_next d + 1\<rparr>)))"

text \<open>What the caller reads: documents until there is none (\<open>searchV2\<close>).\<close>

function read_all :: "('d \<Rightarrow> 'd \<Rightarrow> bool) \<Rightarrow> 'd DocumentList \<Rightarrow> 'd list" where
  "read_all lt d = (case dl_Next lt d of (None, _) \<Rightarrow> [] | (Some x, d1) \<Rightarrow> x # read_all lt d1)"
  by pat_completeness auto
termination
  by (relation "measure (\<lambda>(_, d). nat (dl_len d - dl_next d))") (auto simp: dl_Next_def split: if_splits prod.splits)

declare read_all.simps [simp del]

text \<open>
  A search in several readers. \<open>search r from size\<close> is the page that one reader gives, \<open>None\<close> when it fails;
  \<open>arrivals\<close> is the order in which the documents of all of them reach the heap. \<open>parses\<close> says whether the
  query is accepted.
\<close>

definition new_list :: "int \<Rightarrow> int \<Rightarrow> 'd DocumentList" where
  "new_list from sz = \<lparr>dl_from = from, dl_size = sz, dl_len = 0, dl_next = 0, dl_docs = []\<rparr>"

definition search_MultiSearch ::
  "('d \<Rightarrow> 'd \<Rightarrow> bool) \<Rightarrow> bool \<Rightarrow> ('r \<Rightarrow> int \<Rightarrow> int \<Rightarrow> 'd list option) \<Rightarrow> ('d list list \<Rightarrow> 'd list) \<Rightarrow> 'r list \<Rightarrow> int \<Rightarrow> int \<Rightarrow> 'd list option" where
  "search_MultiSearch lt parses search arrivals readers from sz =
     (if readers = [] then Some (read_all lt (new_list 0 0))
      else if \<not> parses then None
      else if length readers = 1 then search (hd readers) from sz
      else (let maxSize = sz; hits = map (\<lambda>r. search r 0 (sz + from)) readers in
            if None \<in> set hits then None
            else (let found = map the hits;
                      docs = fold (heap_Push lt) (arrivals found) [];
                      sz1 = foldl (\<lambda>m xs. if m < int (length xs) then int (length xs) else m) sz found;
                      d = dl_Done lt ((new_list from sz1)\<lparr>dl_docs := docs\<rparr>)
                  in Some (read_all lt (d\<lparr>dl_size := min (dl_size d) maxSize\<rparr>)))))"

section \<open>The heap keeps its order\<close>

definition parent :: "nat \<Rightarrow> nat" where
  "parent k = (k - 1) div 2"

definition heap_ok :: "('d \<Rightarrow> 'd \<Rightarrow> bool) \<Rightarrow> nat \<Rightarrow> 'd list \<Rightarrow> bool" where
  "heap_ok lt n xs \<longleftrightarrow> (\<forall>k. 0 < k \<and> k < n \<longrightarrow> \<not> lt (xs ! k) (xs ! parent k))"

text \<open>The order may be broken between one position and its parent, or between it and its children.\<close>

definition heap_but_up :: "('d \<Rightarrow> 'd \<Rightarrow> bool) \<Rightarrow> nat \<Rightarrow> nat \<Rightarrow> 'd list \<Rightarrow> bool" where
  "heap_but_up lt n j xs \<longleftrightarrow> (\<forall>k. 0 < k \<and> k < n \<longrightarrow>
     (k \<noteq> j \<longrightarrow> \<not> lt (xs ! k) (xs ! parent k)) \<and> (parent k = j \<and> 0 < j \<longrightarrow> \<not> lt (xs ! k) (xs ! parent j)))"

definition heap_but_down :: "('d \<Rightarrow> 'd \<Rightarrow> bool) \<Rightarrow> nat \<Rightarrow> nat \<Rightarrow> 'd list \<Rightarrow> bool" where
  "heap_but_down lt n i xs \<longleftrightarrow> (\<forall>k. 0 < k \<and> k < n \<longrightarrow>
     (parent k \<noteq> i \<longrightarrow> \<not> lt (xs ! k) (xs ! parent k)) \<and> (parent k = i \<and> 0 < i \<longrightarrow> \<not> lt (xs ! k) (xs ! parent i)))"

lemma parent_less [simp]: "0 < k \<Longrightarrow> parent k < k"
  by (simp add: parent_def)

lemma parent_children: "0 < k \<and> parent k = i \<longleftrightarrow> k = 2 * i + 1 \<or> k = 2 * i + 2"
  by (auto simp: parent_def)

lemma weak_trans: "weak_order lt \<Longrightarrow> \<not> lt b a \<Longrightarrow> \<not> lt c b \<Longrightarrow> \<not> lt c a"
  unfolding weak_order_def by blast

lemma weak_irrefl: "weak_order lt \<Longrightarrow> \<not> lt a a"
  unfolding weak_order_def by blast

lemma weak_asym: "weak_order lt \<Longrightarrow> lt a b \<Longrightarrow> \<not> lt b a"
  by (auto simp: weak_order_def)

lemma Swap_simps [simp]: "length (heap_Swap i j xs) = length xs"
  "i < length xs \<Longrightarrow> j < length xs \<Longrightarrow> heap_Swap i j xs ! k = (if k = j then xs ! i else if k = i then xs ! j else xs ! k)"
  by (auto simp: heap_Swap_def nth_list_update)

lemma Swap_mset [simp]: "i < length xs \<Longrightarrow> j < length xs \<Longrightarrow> mset (heap_Swap i j xs) = mset xs"
  unfolding heap_Swap_def by (rule mset_swap)

lemma up_step:
  assumes w: "weak_order lt" and j: "j < length xs" "parent j \<noteq> j" and lt: "lt (xs ! j) (xs ! parent j)" and h: "heap_but_up lt (length xs) j xs"
  shows "heap_but_up lt (length xs) (parent j) (heap_Swap (parent j) j xs)"
proof -
  let ?i = "parent j" and ?ys = "heap_Swap (parent j) j xs"
  have pos: "0 < j" using j(2) by (cases j) (simp_all add: parent_def)
  then have i: "?i < j" "?i < length xs" using j(1) parent_less [of j] by linarith+
  have at: "?ys ! k = (if k = j then xs ! ?i else if k = ?i then xs ! j else xs ! k)" for k using i j(1) by simp
  have edge: "0 < k \<Longrightarrow> k < length xs \<Longrightarrow> k \<noteq> j \<Longrightarrow> \<not> lt (xs ! k) (xs ! parent k)"
    and skip: "0 < k \<Longrightarrow> k < length xs \<Longrightarrow> parent k = j \<Longrightarrow> \<not> lt (xs ! k) (xs ! ?i)" for k
    using h pos by (auto simp: heap_but_up_def)
  have asy: "\<not> lt (xs ! ?i) (xs ! j)" by (rule weak_asym [OF w lt])
  have "\<not> lt (?ys ! k) (?ys ! parent k)" if k: "0 < k" "k < length xs" "k \<noteq> ?i" for k
  proof (cases "k = j")
    case True
    then show ?thesis using asy i(1) by (simp add: at)
  next
    case False
    show ?thesis
      using edge [OF k(1,2) False] skip [OF k(1,2)] weak_trans [OF w asy, of "xs ! k"] False k(3) i(1) by (auto simp: at)
  qed
  moreover have "\<not> lt (?ys ! k) (?ys ! parent ?i)" if k: "0 < k" "k < length xs" "parent k = ?i" "0 < ?i" for k
  proof -
    have pi: "parent ?i < ?i" using k(4) by (rule parent_less)
    have e: "\<not> lt (xs ! ?i) (xs ! parent ?i)" using edge [OF k(4) i(2)] i(1) by simp
    have "k \<noteq> ?i" using parent_less [OF k(1)] k(3) by simp
    then show ?thesis
      using e edge [OF k(1,2)] weak_trans [OF w e, of "xs ! k"] k(3) pi i(1) by (auto simp: at)
  qed
  ultimately show ?thesis unfolding heap_but_up_def by blast
qed

lemma up_ok:
  "weak_order lt \<Longrightarrow> j < length xs \<Longrightarrow> heap_but_up lt (length xs) j xs \<Longrightarrow>
   heap_ok lt (length xs) (up lt j xs) \<and> mset (up lt j xs) = mset xs"
proof (induction lt j xs rule: up.induct)
  case (1 lt j xs)
  show ?case
  proof (cases "parent j = j \<or> \<not> lt (xs ! j) (xs ! parent j)")
    case True
    then have "heap_ok lt (length xs) xs"
      using 1(4) parent_less [of j] by (auto simp: heap_but_up_def heap_ok_def)
    moreover have "up lt j xs = xs" using True by (subst up.simps) (auto simp: parent_def Let_def)
    ultimately show ?thesis by simp
  next
    case False
    then have eq: "up lt j xs = up lt (parent j) (heap_Swap (parent j) j xs)" by (subst up.simps) (auto simp: parent_def Let_def)
    have "0 < j" using False by (cases j) (simp_all add: parent_def)
    then have i: "parent j < length xs" using 1(3) parent_less [of j] by linarith
    have "heap_but_up lt (length xs) (parent j) (heap_Swap (parent j) j xs)" using False 1(2-4) by (intro up_step) auto
    then have "heap_ok lt (length xs) (up lt (parent j) (heap_Swap (parent j) j xs)) \<and> mset (up lt (parent j) (heap_Swap (parent j) j xs)) = mset (heap_Swap (parent j) j xs)"
      using 1(1) [of "parent j"] False 1(2) i by (simp add: parent_def)
    then show ?thesis using i 1(3) by (simp add: eq)
  qed
qed

lemma Push_ok:
  assumes "weak_order lt" and "heap_ok lt (length xs) xs"
  shows "heap_ok lt (length (heap_Push lt x xs)) (heap_Push lt x xs) \<and> mset (heap_Push lt x xs) = add_mset x (mset xs)"
proof -
  have "heap_but_up lt (length (xs @ [x])) (length xs) (xs @ [x])"
    unfolding heap_but_up_def
  proof (intro allI impI conjI)
    fix k
    assume k: "0 < k \<and> k < length (xs @ [x])"
    have p: "parent k < k" using k by simp
    show "\<not> lt ((xs @ [x]) ! k) ((xs @ [x]) ! parent k)" if "k \<noteq> length xs" using that k p assms(2) by (auto simp: heap_ok_def nth_append)
    show "\<not> lt ((xs @ [x]) ! k) ((xs @ [x]) ! parent (length xs))" if "parent k = length xs \<and> 0 < length xs" using that k p by simp
  qed
  then have "heap_ok lt (length (xs @ [x])) (heap_Push lt x xs) \<and> mset (heap_Push lt x xs) = mset (xs @ [x])"
    unfolding heap_Push_def using up_ok [OF assms(1), of "length xs" "xs @ [x]"] by simp
  then show ?thesis using mset_eq_length [of "heap_Push lt x xs" "xs @ [x]"] by simp
qed

definition lesser_child :: "('d \<Rightarrow> 'd \<Rightarrow> bool) \<Rightarrow> nat \<Rightarrow> nat \<Rightarrow> 'd list \<Rightarrow> nat" where
  "lesser_child lt n i xs = (if 2 * i + 2 < n \<and> lt (xs ! (2 * i + 2)) (xs ! (2 * i + 1)) then 2 * i + 2 else 2 * i + 1)"

lemma lesser_child_at:
  assumes "2 * i + 1 < n"
  shows "lesser_child lt n i xs < n" "parent (lesser_child lt n i xs) = i" "i < lesser_child lt n i xs"
  using assms by (auto simp: lesser_child_def parent_def)

lemma lesser_child_least:
  assumes "weak_order lt" and "0 < k" and "k < n" and "parent k = i"
  shows "\<not> lt (xs ! k) (xs ! lesser_child lt n i xs)"
  using parent_children [of k i] assms(2-4) weak_asym [OF assms(1)] weak_irrefl [OF assms(1)] by (auto simp: lesser_child_def)

lemma down_unfold: "down lt n i xs =
    (if n \<le> 2 * i + 1 \<or> \<not> lt (xs ! lesser_child lt n i xs) (xs ! i) then xs
     else down lt n (lesser_child lt n i xs) (heap_Swap i (lesser_child lt n i xs) xs))"
  by (subst down.simps) (auto simp: lesser_child_def Let_def)

lemma down_step:
  assumes w: "weak_order lt" and n: "n \<le> length xs" "2 * i + 1 < n" and lt: "lt (xs ! lesser_child lt n i xs) (xs ! i)" and h: "heap_but_down lt n i xs"
  shows "heap_but_down lt n (lesser_child lt n i xs) (heap_Swap i (lesser_child lt n i xs) xs)"
proof -
  let ?j = "lesser_child lt n i xs" and ?ys = "heap_Swap i (lesser_child lt n i xs) xs"
  note j = lesser_child_at [OF n(2), where xs = xs and lt = lt]
  have at: "?ys ! k = (if k = ?j then xs ! i else if k = i then xs ! ?j else xs ! k)" for k using n j(1) by simp
  have edge: "0 < k \<Longrightarrow> k < n \<Longrightarrow> parent k \<noteq> i \<Longrightarrow> \<not> lt (xs ! k) (xs ! parent k)"
    and skip: "0 < k \<Longrightarrow> k < n \<Longrightarrow> parent k = i \<Longrightarrow> 0 < i \<Longrightarrow> \<not> lt (xs ! k) (xs ! parent i)" for k
    using h by (auto simp: heap_but_down_def)
  have asy: "\<not> lt (xs ! i) (xs ! ?j)" by (rule weak_asym [OF w lt])
  have "\<not> lt (?ys ! k) (?ys ! parent k)" if k: "0 < k" "k < n" "parent k \<noteq> ?j" for k
  proof -
    have p: "parent k < k" using k(1) by (rule parent_less)
    consider "k = ?j" | "k \<noteq> ?j" "parent k = i" | "k = i" | "k \<noteq> ?j" "parent k \<noteq> i" "k \<noteq> i" by blast
    then show ?thesis
    proof cases
      case 1
      then show ?thesis using asy j(2,3) by (simp add: at)
    next
      case 2
      then show ?thesis using lesser_child_least [OF w k(1,2), of i xs] p j(3) by (simp add: at)
    next
      case 3
      then have "parent i \<noteq> i" "i < ?j" using p j(3) by auto
      then show ?thesis using skip [of ?j] j(1,2) 3 k by (simp add: at)
    next
      case 4
      then show ?thesis using edge [OF k(1,2)] k(3) by (simp add: at)
    qed
  qed
  moreover have "\<not> lt (?ys ! k) (?ys ! parent ?j)" if k: "0 < k" "k < n" "parent k = ?j" for k
    using edge [OF k(1,2)] k parent_less [OF k(1)] j(2,3) by (simp add: at)
  ultimately show ?thesis unfolding heap_but_down_def by blast
qed

lemma down_ok:
  "weak_order lt \<Longrightarrow> n \<le> length xs \<Longrightarrow> i < n \<or> n = 0 \<Longrightarrow> heap_but_down lt n i xs \<Longrightarrow>
   heap_ok lt n (down lt n i xs) \<and> mset (down lt n i xs) = mset xs \<and> (\<forall>k \<ge> n. down lt n i xs ! k = xs ! k)"
proof (induction lt n i xs rule: down.induct)
  case (1 lt n i xs)
  let ?j = "lesser_child lt n i xs"
  show ?case
  proof (cases "n \<le> 2 * i + 1 \<or> \<not> lt (xs ! ?j) (xs ! i)")
    case True
    have "\<not> lt (xs ! k) (xs ! parent k)" if k: "0 < k" "k < n" for k
    proof (cases "parent k = i")
      case True
      then have c: "2 * i + 1 < n" using k parent_children [of k i] by auto
      then have "\<not> lt (xs ! ?j) (xs ! i)" using \<open>n \<le> 2 * i + 1 \<or> _\<close> by simp
      then show ?thesis using weak_trans [OF 1(2)] lesser_child_least [OF 1(2) k True, of xs] True by blast
    qed (use 1(5) k in \<open>auto simp: heap_but_down_def\<close>)
    then have "heap_ok lt n xs" by (simp add: heap_ok_def)
    moreover have "down lt n i xs = xs" using True by (subst down_unfold) simp
    ultimately show ?thesis by simp
  next
    case False
    then have eq: "down lt n i xs = down lt n ?j (heap_Swap i ?j xs)" by (subst down_unfold) simp
    have n: "2 * i + 1 < n" and l: "lt (xs ! ?j) (xs ! i)" using False by simp_all
    note j = lesser_child_at [OF n, where xs = xs and lt = lt]
    have j_eq: "?j = (if 2 * i + 1 + 1 < n \<and> lt (xs ! (2 * i + 1 + 1)) (xs ! (2 * i + 1)) then 2 * i + 1 + 1 else 2 * i + 1)"
      by (simp add: lesser_child_def)
    have "heap_but_down lt n ?j (heap_Swap i ?j xs)" by (rule down_step [OF 1(2,3) n l 1(5)])
    then have "heap_ok lt n (down lt n ?j (heap_Swap i ?j xs)) \<and> mset (down lt n ?j (heap_Swap i ?j xs)) = mset (heap_Swap i ?j xs) \<and>
        (\<forall>k \<ge> n. down lt n ?j (heap_Swap i ?j xs) ! k = heap_Swap i ?j xs ! k)"
      using n l 1(2,3) j(1) by (intro 1(1) [OF refl _ j_eq]) auto
    then show ?thesis using 1(3) j n by (auto simp: eq)
  qed
qed

lemma heap_least: "weak_order lt \<Longrightarrow> heap_ok lt n xs \<Longrightarrow> k < n \<Longrightarrow> \<not> lt (xs ! k) (xs ! 0)"
proof (induction k rule: less_induct)
  case (less k)
  show ?case
  proof (cases "k = 0")
    case True
    then show ?thesis using less(2) by (auto simp: weak_order_def)
  next
    case False
    then have "\<not> lt (xs ! k) (xs ! parent k)" "parent k < k" using less(3,4) by (auto simp: heap_ok_def)
    then show ?thesis using less weak_trans [OF less(2)] by (meson less_trans)
  qed
qed

lemma Pop_ok:
  assumes "weak_order lt" and "heap_ok lt (length xs) xs" and "xs \<noteq> []" and "heap_Pop lt xs = (x, ys)"
  shows "heap_ok lt (length ys) ys \<and> mset xs = add_mset x (mset ys) \<and> (\<forall>y \<in> set xs. \<not> lt y x)"
proof -
  obtain n where n: "length xs = Suc n" using assms(3) by (cases xs) auto
  let ?s = "heap_Swap 0 n xs"
  let ?d = "down lt n 0 ?s"
  have at: "?s ! k = (if k = n then xs ! 0 else if k = 0 then xs ! n else xs ! k)" for k using n by simp
  have "\<not> lt (?s ! k) (?s ! parent k)" if k: "0 < k" "k < n" "parent k \<noteq> 0" for k
  proof -
    have "parent k < n" using parent_less [OF k(1)] k(2) by linarith
    then show ?thesis using k assms(2) n unfolding at heap_ok_def by simp
  qed
  then have "heap_but_down lt n 0 ?s" unfolding heap_but_down_def by blast
  then have d: "heap_ok lt n ?d" "mset ?d = mset xs" "?d ! n = xs ! 0" using down_ok [OF assms(1), of n ?s 0] n at [of n] by (cases n; auto)+
  have len: "length ?d = Suc n" using mset_eq_length [OF d(2)] n by simp
  have x: "x = xs ! 0" "ys = take n ?d" using assms(4) d(3) n by (auto simp: heap_Pop_def Let_def)
  have "?d = ys @ [x]" using take_Suc_conv_app_nth [of n ?d] len d(3) x by simp
  then have "mset xs = add_mset x (mset ys)" using d(2) by simp
  moreover have "heap_ok lt (length ys) ys" unfolding heap_ok_def
  proof (intro allI impI)
    fix k
    assume "0 < k \<and> k < length ys"
    then have "0 < k" "k < n" using len x(2) by auto
    then have "parent k < n" using parent_less [of k] by linarith
    with \<open>0 < k\<close> \<open>k < n\<close> show "\<not> lt (ys ! k) (ys ! parent k)" using d(1) x(2) by (simp add: heap_ok_def)
  qed
  moreover have "\<forall>y \<in> set xs. \<not> lt y x" using heap_least [OF assms(1,2)] x(1) by (auto simp: in_set_conv_nth)
  ultimately show ?thesis by blast
qed

section \<open>What the list of documents relies on\<close>

locale doc_queue =
  fixes lt :: "'d \<Rightarrow> 'd \<Rightarrow> bool" and push :: "'d \<Rightarrow> 'q \<Rightarrow> 'q" and pop :: "'q \<Rightarrow> 'd \<times> 'q" and contents :: "'q \<Rightarrow> 'd multiset" and invar :: "'q \<Rightarrow> bool"
  assumes order: "invar q \<Longrightarrow> weak_order lt"
    and push_queue: "invar q \<Longrightarrow> invar (push x q) \<and> contents (push x q) = add_mset x (contents q)"
    and pop_queue: "invar q \<Longrightarrow> contents q \<noteq> {#} \<Longrightarrow> pop q = (x, q1) \<Longrightarrow>
      invar q1 \<and> contents q = add_mset x (contents q1) \<and> (\<forall>y \<in># contents q. \<not> lt y x)"
begin

lemma push_all: "invar q \<Longrightarrow> invar (fold push xs q) \<and> contents (fold push xs q) = contents q + mset xs"
  by (induction xs arbitrary: q) (simp_all add: push_queue)

text \<open>Different documents are ordered; then taking the least ones out gives the beginning of the sorted list.\<close>

lemma pops_sorted:
  assumes "\<And>a b. lt a b \<or> a = b \<or> lt b a"
  shows "invar q \<Longrightarrow> sorted_wrt (\<lambda>a b. \<not> lt b a) ds \<Longrightarrow> contents q = mset ds \<Longrightarrow> n \<le> length ds \<Longrightarrow> pops pop n q = (xs, q1) \<Longrightarrow>
    xs = take n ds \<and> invar q1 \<and> contents q1 = mset (drop n ds)"
proof (induction n arbitrary: q ds xs)
  case (Suc n)
  obtain d ds' where ds: "ds = d # ds'" using Suc.prems(4) by (cases ds) auto
  obtain x q2 where p: "pop q = (x, q2)" by (cases "pop q")
  obtain ys where ys: "pops pop n q2 = (ys, q1)" "xs = x # ys" using Suc.prems(5) p by (auto split: prod.splits)
  have c: "invar q2" "contents q = add_mset x (contents q2)" "\<forall>y \<in># contents q. \<not> lt y x"
    using pop_queue [OF Suc.prems(1) _ p] Suc.prems(3) ds by (metis add_mset_not_empty mset.simps(2))+
  have "x \<in># mset ds" using c(2) Suc.prems(3) by (metis union_single_eq_member)
  then have "x = d \<or> \<not> lt x d" using Suc.prems(2) ds by auto
  moreover have "\<not> lt d x" using c(3) Suc.prems(3) ds by simp
  ultimately have "x = d" using assms by blast
  moreover from this have "contents q2 = mset ds'" using c(2) Suc.prems(3) ds by simp
  ultimately show ?case using Suc.IH [OF c(1) _ _ _ ys(1), of ds'] Suc.prems(2,4) ds ys(2) by simp
qed simp

end

interpretation doc_heap: doc_queue lt "heap_Push lt" "heap_Pop lt" mset "\<lambda>q. weak_order lt \<and> heap_ok lt (length q) q" for lt
proof (unfold_locales, goal_cases)
  case (1 q)
  then show ?case by simp
next
  case (2 q x)
  then show ?case using Push_ok [of lt q x] by simp
next
  case (3 q x q1)
  then show ?case using Pop_ok [of lt q x q1] unfolding set_mset_mset mset_zero_iff by blast
qed

section \<open>Pages of sorted lists\<close>

definition linear :: "('d \<Rightarrow> 'd \<Rightarrow> bool) \<Rightarrow> bool" where
  "linear lt \<longleftrightarrow> weak_order lt \<and> (\<forall>a b. lt a b \<or> a = b \<or> lt b a)"

lemma linear_weak: "linear lt \<Longrightarrow> weak_order lt" and linear_total: "linear lt \<Longrightarrow> lt a b \<or> a = b \<or> lt b a"
  by (simp_all add: linear_def)

lemma mset_sort_Slice [simp]: "mset (sort_Slice lt xs) = mset xs"
proof -
  have "mset (insert_by lt x ys) = add_mset x (mset ys)" for x ys by (induction ys) simp_all
  then show ?thesis by (induction xs) simp_all
qed

lemma sorted_unique:
  assumes "linear lt"
  shows "sorted_wrt (\<lambda>a b. \<not> lt b a) xs \<Longrightarrow> sorted_wrt (\<lambda>a b. \<not> lt b a) ys \<Longrightarrow> mset xs = mset ys \<Longrightarrow> xs = ys"
proof (induction xs arbitrary: ys)
  case (Cons x xs)
  then obtain y ys' where ys: "ys = y # ys'" by (cases ys) auto
  have "x \<in> set ys" "y \<in> set (x # xs)" using Cons.prems(3) ys by (metis list.set_intros(1) set_mset_mset)+
  then have "x = y \<or> \<not> lt x y" "x = y \<or> \<not> lt y x" using Cons.prems(1,2) ys by auto
  then have "x = y" using linear_total [OF assms] by blast
  then show ?case using Cons ys by simp
qed simp

fun merge_lists :: "('d \<Rightarrow> 'd \<Rightarrow> bool) \<Rightarrow> 'd list \<Rightarrow> 'd list \<Rightarrow> 'd list" where
  "merge_lists lt [] ys = ys"
| "merge_lists lt xs [] = xs"
| "merge_lists lt (x # xs) (y # ys) = (if lt y x then y # merge_lists lt (x # xs) ys else x # merge_lists lt xs (y # ys))"

lemma mset_merge: "mset (merge_lists lt xs ys) = mset xs + mset ys"
  by (induction lt xs ys rule: merge_lists.induct) simp_all

lemma sorted_merge:
  "weak_order lt \<Longrightarrow> sorted_wrt (\<lambda>a b. \<not> lt b a) xs \<Longrightarrow> sorted_wrt (\<lambda>a b. \<not> lt b a) ys \<Longrightarrow> sorted_wrt (\<lambda>a b. \<not> lt b a) (merge_lists lt xs ys)"
proof (induction lt xs ys rule: merge_lists.induct)
  case (3 lt x xs y ys)
  have set: "z \<in> set (merge_lists lt as bs) \<longleftrightarrow> z \<in> set as \<or> z \<in> set bs" for z as bs
    using mset_merge [of lt as bs] by (metis set_mset_mset set_mset_union Un_iff)
  show ?case
  proof (cases "lt y x")
    case True
    then have "\<not> lt z y" if "z \<in> set (x # xs)" for z
      using that 3(4) weak_trans [OF 3(3) weak_asym [OF 3(3) True], of z] weak_asym [OF 3(3) True] by auto
    then show ?thesis using 3(1) [OF True 3(3,4)] 3(5) True by (auto simp: set)
  next
    case False
    then have "\<not> lt z x" if "z \<in> set (y # ys)" for z using that 3(5) weak_trans [OF 3(3) False, of z] by auto
    then show ?thesis using 3(2) [OF False 3(3) _ 3(5)] 3(4) False by (auto simp: set)
  qed
qed simp_all

lemma take_merge: "n \<le> m \<Longrightarrow> n \<le> k \<Longrightarrow> take n (merge_lists lt (take m xs) (take k ys)) = take n (merge_lists lt xs ys)"
proof (induction n arbitrary: m k xs ys)
  case (Suc n)
  obtain m1 k1 where mk: "m = Suc m1" "k = Suc k1" using Suc.prems by (cases m; cases k) auto
  show ?case
  proof (cases xs)
    case (Cons x xs1)
    show ?thesis
    proof (cases ys)
      case Nil
      then show ?thesis using Cons Suc.prems mk by (simp add: min_def)
    next
      case (Cons y ys1)
      then show ?thesis
        using \<open>xs = x # xs1\<close> Suc.IH [of m k1 xs ys1] Suc.IH [of m1 k xs1 ys] Suc.prems mk by simp
    qed
  qed (use Suc.prems mk in \<open>simp add: min_def\<close>)
qed simp

lemma sort_append: "linear lt \<Longrightarrow> sort_Slice lt (xs @ ys) = merge_lists lt (sort_Slice lt xs) (sort_Slice lt ys)"
  by (rule sorted_unique) (auto intro!: sorted_sort_Slice sorted_merge dest: linear_weak simp: mset_merge)

text \<open>The first documents of all parts are among the first documents of each part.\<close>

lemma sort_first:
  assumes "linear lt"
  shows "take n (sort_Slice lt (concat (map (\<lambda>ds. take n (sort_Slice lt ds)) dss))) = take n (sort_Slice lt (concat dss))"
proof (induction dss)
  case (Cons ds dss)
  let ?top = "\<lambda>ds. take n (sort_Slice lt ds)" and ?rest = "concat (map (\<lambda>ds. take n (sort_Slice lt ds)) dss)"
  have "sort_Slice lt (?top ds) = ?top ds"
    using sorted_sort_Slice [OF linear_weak [OF assms], of ds] by (intro sort_Slice_id sorted_wrt_take)
  then have "take n (sort_Slice lt (?top ds @ ?rest)) = take n (merge_lists lt (?top ds) (take n (sort_Slice lt ?rest)))"
    using take_merge [of n n n lt "?top ds" "sort_Slice lt ?rest"] by (simp add: sort_append [OF assms])
  also have "\<dots> = take n (sort_Slice lt (ds @ concat dss))" unfolding Cons using take_merge [of n n n lt "sort_Slice lt ds"] by (simp add: sort_append [OF assms])
  finally show ?case by simp
qed simp

section \<open>The page\<close>

lemma read_all_pops:
  "nat (min (dl_size d) (dl_len d) - dl_next d) = n \<Longrightarrow> read_all lt d = fst (pops (heap_Pop lt) n (dl_docs d))"
proof (induction n arbitrary: d)
  case 0
  then show ?case by (subst read_all.simps) (auto simp: dl_Next_def)
next
  case (Suc n)
  then have go: "\<not> (dl_size d \<le> dl_next d \<or> dl_len d \<le> dl_next d)" by auto
  obtain x q where p: "heap_Pop lt (dl_docs d) = (x, q)" by (cases "heap_Pop lt (dl_docs d)")
  have "nat (min (dl_size d) (dl_len d) - (dl_next d + 1)) = n" using Suc.prems go by linarith
  then have "read_all lt (d\<lparr>dl_docs := q, dl_next := dl_next d + 1\<rparr>) = fst (pops (heap_Pop lt) n q)" using Suc.IH [of "d\<lparr>dl_docs := q, dl_next := dl_next d + 1\<rparr>"] by simp
  then show ?case using go p by (subst read_all.simps) (auto simp: dl_Next_def split: prod.splits)
qed

text \<open>The page of a heap that holds the documents.\<close>

lemma heap_page:
  assumes lin: "linear lt" and docs: "mset docs = mset ds" and start: "0 \<le> from" and sz: "0 \<le> sz"
  shows "read_all lt ((dl_Done lt ((new_list from sz0)\<lparr>dl_docs := fold (heap_Push lt) docs []\<rparr>))\<lparr>dl_size := sz\<rparr>) =
    take (nat sz) (drop (nat from) (sort_Slice lt ds))"
proof -
  let ?q = "fold (heap_Push lt) docs []" and ?s = "sort_Slice lt ds"
  have tot: "\<And>a b. lt a b \<or> a = b \<or> lt b a" using linear_total [OF lin] by blast
  have q: "heap_ok lt (length ?q) ?q" "mset ?q = mset ?s"
    using doc_heap.push_all [of lt "[]" docs] linear_weak [OF lin] docs by (simp_all add: heap_ok_def)
  have len: "length ?q = length ?s" by (rule mset_eq_length [OF q(2)])
  let ?n = "nat (min from (int (length ?q)))"
  obtain xs q1 where p: "pops (heap_Pop lt) ?n ?q = (xs, q1)" by (cases "pops (heap_Pop lt) ?n ?q")
  have srt: "sorted_wrt (\<lambda>a b. \<not> lt b a) ?s" by (rule sorted_sort_Slice [OF linear_weak [OF lin]])
  have q1: "heap_ok lt (length q1) q1" "mset q1 = mset (drop ?n ?s)"
    using doc_heap.pops_sorted [OF tot _ srt q(2) _ p] linear_weak [OF lin] q(1) len by auto
  have rest: "drop ?n ?s = drop (nat from) ?s" using start len by (auto simp: min_def nat_le_iff)
  have len1: "length q1 = length (drop (nat from) ?s)" using mset_eq_length [OF q1(2)] rest by simp
  let ?d = "(dl_Done lt ((new_list from sz0)\<lparr>dl_docs := ?q\<rparr>))\<lparr>dl_size := sz\<rparr>"
  let ?m = "nat (min sz (int (length q1)))"
  have d: "dl_docs ?d = q1" "dl_len ?d = int (length q1)" "dl_size ?d = sz" "dl_next ?d = 0" using p by (simp_all add: dl_Done_def new_list_def Let_def)
  obtain ys q2 where ys: "pops (heap_Pop lt) ?m q1 = (ys, q2)" by (cases "pops (heap_Pop lt) ?m q1")
  have "ys = take ?m (drop (nat from) ?s)"
    using doc_heap.pops_sorted [OF tot _ _ q1(2) _ ys] sorted_wrt_drop [OF srt] linear_weak [OF lin] q1(1) len1 rest by auto
  also have "\<dots> = take (nat sz) (drop (nat from) ?s)" using len1 sz by (auto simp: min_def nat_le_iff)
  finally show ?thesis using read_all_pops [of ?d ?m lt] ys by (simp add: d)
qed

text \<open>The page of a search in several parts is the page of all their documents.\<close>

lemma parts_page:
  assumes "linear lt" and "0 \<le> from" and "0 \<le> sz"
    and "\<And>r a n. 0 \<le> a \<Longrightarrow> 0 \<le> n \<Longrightarrow> search r a n = Some (take (nat n) (drop (nat a) (sort_Slice lt (docs r))))"
    and "\<And>xss. mset (arrivals xss) = mset (concat xss)"
  shows "search_MultiSearch lt True search arrivals readers from sz =
    Some (take (nat sz) (drop (nat from) (sort_Slice lt (concat (map docs readers)))))"
proof (cases "length readers \<le> 1")
  case True
  then consider "readers = []" | r where "readers = [r]" by (cases readers) auto
  then show ?thesis
    using assms(2-4) by cases (simp_all add: search_MultiSearch_def read_all.simps dl_Next_def new_list_def)
next
  case False
  let ?n = "nat (sz + from)"
  let ?found = "map (\<lambda>r. take ?n (sort_Slice lt (docs r))) readers"
  have hits: "map (\<lambda>r. search r 0 (sz + from)) readers = map Some ?found" using assms(2-4) by simp
  have arr: "mset (arrivals ?found) = mset (concat ?found)" by (rule assms(5))
  let ?sz1 = "foldl (\<lambda>m xs. if m < int (length xs) then int (length xs) else m) sz ?found"
  have "sz \<le> foldl (\<lambda>m xs. if m < int (length xs) then int (length xs) else m) sz xss" for xss :: "'a list list"
    by (induction xss rule: rev_induct) auto
  then have sz1: "min ?sz1 sz = sz" by simp
  have "search_MultiSearch lt True search arrivals readers from sz =
      Some (read_all lt ((dl_Done lt ((new_list from ?sz1)\<lparr>dl_docs := fold (heap_Push lt) (arrivals ?found) []\<rparr>))\<lparr>dl_size := min ?sz1 sz\<rparr>))"
    using False by (auto simp: search_MultiSearch_def hits Let_def comp_def dl_Done_def new_list_def)
  also have "\<dots> = Some (take (nat sz) (drop (nat from) (sort_Slice lt (concat ?found))))"
    unfolding sz1 by (simp only: heap_page [OF assms(1) arr assms(2,3)])
  also have "take (nat sz) (drop (nat from) (sort_Slice lt (concat ?found))) = take (nat sz) (drop (nat from) (take ?n (sort_Slice lt (concat ?found))))"
    using assms(2,3) by (simp add: drop_take nat_add_distrib)
  also have "take ?n (sort_Slice lt (concat ?found)) = take ?n (sort_Slice lt (concat (map docs readers)))"
    using sort_first [OF assms(1), of ?n "map docs readers"] by (simp add: comp_def)
  finally show ?thesis using assms(2,3) by (simp add: drop_take nat_add_distrib)
qed

section \<open>Searching in several indexes\<close>

text \<open>\<open>MultiSearch\<close> of \<open>pkg/core/multi_search.go\<close>: the readers of all the indexes that a pattern names, searched with the mappings of the first one.\<close>

definition isMatchIndex :: "string \<Rightarrow> string \<Rightarrow> bool" where
  "isMatchIndex zincIndexName indexName =
     (if indexName = [] then True
      else if HasPrefix indexName ''*'' then HasSuffix zincIndexName (tl indexName)
      else if HasSuffix indexName ''*'' then HasPrefix zincIndexName (butlast indexName)
      else zincIndexName = indexName)"

text \<open>An index: its name, its mappings and its readers for the time range, \<open>None\<close> when they cannot be opened.\<close>

record ('r, 'm) search_index =
  si_name :: string
  si_mappings :: 'm
  si_readers :: "'r list option"

datatype 'd multi_answer = MError | MEmpty | MHits "'d list"

definition searched :: "string list \<Rightarrow> ('r, 'm) search_index \<Rightarrow> bool" where
  "searched names i \<longleftrightarrow> names = [] \<or> list_ex (isMatchIndex (si_name i)) names"

fun open_readers :: "('r, 'm) search_index list \<Rightarrow> 'r list option" where
  "open_readers [] = Some []"
| "open_readers (i # is) =
     (case si_readers i of None \<Rightarrow> None | Some rs \<Rightarrow> (case open_readers is of None \<Rightarrow> None | Some rs2 \<Rightarrow> Some (rs @ rs2)))"

definition core_MultiSearch ::
  "('d \<Rightarrow> 'd \<Rightarrow> bool) \<Rightarrow> ('m \<Rightarrow> bool) \<Rightarrow> ('m \<Rightarrow> 'r \<Rightarrow> int \<Rightarrow> int \<Rightarrow> 'd list option) \<Rightarrow> ('d list list \<Rightarrow> 'd list) \<Rightarrow>
   ('r, 'm) search_index list \<Rightarrow> string list \<Rightarrow> int \<Rightarrow> int \<Rightarrow> 'd multi_answer" where
  "core_MultiSearch lt parses search arrivals indexes names from sz =
     (let found = filter (searched names) indexes in
      case open_readers found of
        None \<Rightarrow> MError
      | Some [] \<Rightarrow> if names \<noteq> [] \<and> found \<noteq> [] then MEmpty else MError
      | Some readers \<Rightarrow>
          (let m = si_mappings (hd found) in
           if \<not> parses m then MError
           else case search_MultiSearch lt (parses m) (search m) arrivals readers from sz of None \<Rightarrow> MError | Some hits \<Rightarrow> MHits hits))"

lemma open_readers_all: "(\<And>i. i \<in> set is \<Longrightarrow> si_readers i = Some (rs i)) \<Longrightarrow> open_readers is = Some (concat (map rs is))"
  by (induction "is") simp_all


definition ex_part :: "nat \<Rightarrow> nat list" where
  "ex_part r = [r, r + 10, r + 20]"

definition ex_part_search :: "unit \<Rightarrow> nat \<Rightarrow> int \<Rightarrow> int \<Rightarrow> nat list option" where
  "ex_part_search m r a n = Some (take (nat n) (drop (nat a) (sort_Slice (<) (ex_part r))))"

definition ex_index_parts :: "string \<Rightarrow> nat list" where
  "ex_index_parts name = (if name = ''log-1'' then [2, 1] else if name = ''log-2'' then [3] else [0])"

definition ex_search_index :: "string \<Rightarrow> (nat, unit) search_index" where
  "ex_search_index name = \<lparr>si_name = name, si_mappings = (), si_readers = Some (ex_index_parts name)\<rparr>"


text \<open>
  Documents with the same rank come in the order in which the parts answer: the first page can be any of them.
\<close>
theorem search_page_ties:
  "search_MultiSearch (\<lambda>a b. fst a < fst b) True (\<lambda>r a n. Some [(0 :: nat, r)]) concat [''a'', ''b''] 0 1 = Some [(0, ''a'')] \<and>
   search_MultiSearch (\<lambda>a b. fst a < fst b) True (\<lambda>r a n. Some [(0 :: nat, r)]) (\<lambda>xss. rev (concat xss)) [''a'', ''b''] 0 1 = Some [(0, ''b'')]"
  by code_simp

end
