(* ===== verification/Aggregations.thy ===== *)
theory Aggregations
  imports Search_Merge
begin

text \<open>
  Aggregations over several parts (\<open>pkg/bluge/aggregation\<close>): the terms and the dates of documents are counted in
  buckets, in one calculator per part; the calculators are finished and then merged. A bucket is a name with
  its count. The library keeps a bucket in a map and in a list; the names in the map are kept beside the list here. \<open>None\<close> is
  a panic.
\<close>

section \<open>Calculators\<close>

type_synonym bucket = "string \<times> nat"

record calculator =
  ca_size :: int
  ca_total :: nat
  ca_other :: int
  ca_list :: "bucket list"
  ca_keys :: "string list"

definition new_calculator :: "int \<Rightarrow> calculator" where
  "new_calculator sz = \<lparr>ca_size = sz, ca_total = 0, ca_other = 0, ca_list = [], ca_keys = []\<rparr>"

definition add_count :: "string \<Rightarrow> nat \<Rightarrow> bucket list \<Rightarrow> bucket list" where
  "add_count name k = map (\<lambda>b. if fst b = name then (name, snd b + k) else b)"

definition bucket_Consume :: "string \<Rightarrow> 'z calculator_scheme \<Rightarrow> 'z calculator_scheme" where
  "bucket_Consume name c =
     (if name \<in> set (ca_keys c) then c\<lparr>ca_list := add_count name 1 (ca_list c)\<rparr>
      else c\<lparr>ca_list := ca_list c @ [(name, 1)], ca_keys := ca_keys c @ [name]\<rparr>)"

definition merge_bucket :: "bucket \<Rightarrow> bucket list \<Rightarrow> bucket list" where
  "merge_bucket b bs = (if fst b \<in> fst ` set bs then add_count (fst b) (snd b) bs else bs @ [b])"

text \<open>The end of \<open>Finish\<close>: the buckets are sorted and cut, and what is not in them is counted.\<close>

definition sort_and_trim :: "(bucket \<Rightarrow> bucket \<Rightarrow> bool) \<Rightarrow> 'z calculator_scheme \<Rightarrow> 'z calculator_scheme option" where
  "sort_and_trim lt c =
     (if ca_size c < 0 then None
      else (let bs = take (nat (ca_size c)) (sort_Slice lt (ca_list c))
            in Some (c\<lparr>ca_list := bs, ca_other := int (ca_total c) - int (sum_list (map snd bs))\<rparr>)))"

section \<open>Terms\<close>

text \<open>The values of a document as the names of their buckets; a source with one value gives one name.\<close>

definition terms_Consume :: "string list \<Rightarrow> calculator \<Rightarrow> calculator" where
  "terms_Consume terms c = fold bucket_Consume terms (c\<lparr>ca_total := ca_total c + 1\<rparr>)"

definition terms_Finish :: "calculator \<Rightarrow> calculator option" where
  "terms_Finish = sort_and_trim (\<lambda>a b. snd b < snd a)"

definition terms_Merge :: "calculator \<Rightarrow> calculator \<Rightarrow> calculator option" where
  "terms_Merge a other =
     terms_Finish (a\<lparr>ca_total := ca_total a + ca_total other, ca_list := fold merge_bucket (ca_list other) (ca_list a)\<rparr>)"

section \<open>Dates\<close>

text \<open>
  A date histogram with a fixed interval. \<open>dh_label\<close> stands for the format of a time in its zone; the
  bounds are in nanoseconds.
\<close>

record date_histogram =
  dh_interval :: int
  dh_minDocCount :: int
  dh_label :: "int \<Rightarrow> string"
  dh_extended :: "(int \<times> int) option"
  dh_hard :: "(int \<times> int) option"

record date_calculator = calculator +
  dc_minValue :: int
  dc_maxValue :: int

definition MaxInt64 :: int where "MaxInt64 = 2 ^ 63 - 1"
definition MinInt64 :: int where "MinInt64 = - (2 ^ 63)"

definition new_date_calculator :: "int \<Rightarrow> date_calculator" where
  "new_date_calculator sz = calculator.extend (new_calculator sz) \<lparr>dc_minValue = MaxInt64, dc_maxValue = MinInt64\<rparr>"

text \<open>Division of integers in Go drops the fraction.\<close>

definition quot :: "int \<Rightarrow> int \<Rightarrow> int" where
  "quot a b = sgn a * sgn b * (\<bar>a\<bar> div \<bar>b\<bar>)"

definition date_bucketKey :: "date_histogram \<Rightarrow> int \<Rightarrow> string option" where
  "date_bucketKey p value = (if dh_interval p = 0 then None else Some (dh_label p (quot value (dh_interval p) * dh_interval p)))"

fun consume_dates :: "date_histogram \<Rightarrow> int list \<Rightarrow> date_calculator \<Rightarrow> date_calculator option" where
  "consume_dates p [] c = Some c"
| "consume_dates p (t # ts) c =
     (let c1 = c\<lparr>dc_minValue := min t (dc_minValue c), dc_maxValue := max t (dc_maxValue c)\<rparr> in
      case date_bucketKey p t of None \<Rightarrow> None | Some name \<Rightarrow> consume_dates p ts (bucket_Consume name c1))"

definition date_Consume :: "date_histogram \<Rightarrow> int list \<Rightarrow> date_calculator \<Rightarrow> date_calculator option" where
  "date_Consume p ts c = consume_dates p ts (c\<lparr>ca_total := ca_total c + 1\<rparr>)"

text \<open>
  Empty buckets for the steps from the least to the greatest value. \<open>None\<close> stands for the panic and also for a loop
  that does not come to its end: a step that is not positive or leaves the range of the type.
\<close>

function fill_steps :: "date_histogram \<Rightarrow> int \<Rightarrow> int \<Rightarrow> string list \<Rightarrow> bucket list \<Rightarrow> bucket list option" where
  "fill_steps p value hi keys bs =
     (if value < hi then
        (if dh_interval p \<le> 0 \<or> MaxInt64 < value + dh_interval p then None
         else (case date_bucketKey p value of
           None \<Rightarrow> None
         | Some name \<Rightarrow> fill_steps p (value + dh_interval p) hi keys (if name \<in> set keys then bs else bs @ [(name, 0)])))
      else Some bs)"
  by pat_completeness auto
termination by (relation "measure (\<lambda>(p, value, hi, _, _). nat (hi - value))") auto

declare fill_steps.simps [simp del]

definition date_bounds :: "date_histogram \<Rightarrow> date_calculator \<Rightarrow> date_calculator" where
  "date_bounds p c =
     (let c1 = (case dh_extended p of None \<Rightarrow> c | Some (lo, hi) \<Rightarrow> c\<lparr>dc_minValue := min lo (dc_minValue c), dc_maxValue := max hi (dc_maxValue c)\<rparr>)
      in case dh_hard p of None \<Rightarrow> c1 | Some (lo, hi) \<Rightarrow> c1\<lparr>dc_minValue := lo, dc_maxValue := hi\<rparr>)"

definition date_Finish :: "date_histogram \<Rightarrow> date_calculator \<Rightarrow> date_calculator option" where
  "date_Finish p c0 =
     (let c = date_bounds p c0;
          filled = (if dh_minDocCount p = 0 then fill_steps p (dc_minValue c) (dc_maxValue c) (ca_keys c) (ca_list c)
                    else Some (filter (\<lambda>b. dh_minDocCount p mod 2 ^ 64 \<le> int (snd b)) (ca_list c)))
      in Option.bind filled (\<lambda>bs. sort_and_trim (\<lambda>a b. fst a < fst b) (c\<lparr>ca_list := bs\<rparr>)))"

definition date_Merge :: "date_histogram \<Rightarrow> date_calculator \<Rightarrow> date_calculator \<Rightarrow> date_calculator option" where
  "date_Merge p a other =
     date_Finish p (a\<lparr>ca_total := ca_total a + ca_total other, ca_list := fold merge_bucket (ca_list other) (ca_list a)\<rparr>)"

section \<open>Over several parts\<close>

text \<open>
  Every part is counted and finished; the others are merged into the first one, in the order in which they
  arrive. The calculator is given by its operations.
\<close>

fun consume_all :: "('d \<Rightarrow> 'c \<Rightarrow> 'c option) \<Rightarrow> 'd list \<Rightarrow> 'c \<Rightarrow> 'c option" where
  "consume_all f [] c = Some c"
| "consume_all f (d # ds) c = (case f d c of None \<Rightarrow> None | Some c1 \<Rightarrow> consume_all f ds c1)"

definition count_part :: "('d \<Rightarrow> 'c \<Rightarrow> 'c option) \<Rightarrow> ('c \<Rightarrow> 'c option) \<Rightarrow> 'c \<Rightarrow> 'd list \<Rightarrow> 'c option" where
  "count_part consume finish new docs = Option.bind (consume_all consume docs new) finish"

fun merge_parts :: "('c \<Rightarrow> 'c \<Rightarrow> 'c option) \<Rightarrow> 'c \<Rightarrow> 'c list \<Rightarrow> 'c option" where
  "merge_parts merge c [] = Some c"
| "merge_parts merge c (d # ds) = (case merge c d of None \<Rightarrow> None | Some c1 \<Rightarrow> merge_parts merge c1 ds)"

fun all_parts :: "'c option list \<Rightarrow> 'c list option" where
  "all_parts [] = Some []"
| "all_parts (x # xs) = (case x of None \<Rightarrow> None | Some c \<Rightarrow> map_option ((#) c) (all_parts xs))"

definition over_parts :: "('d \<Rightarrow> 'c \<Rightarrow> 'c option) \<Rightarrow> ('c \<Rightarrow> 'c option) \<Rightarrow> ('c \<Rightarrow> 'c \<Rightarrow> 'c option) \<Rightarrow> 'c \<Rightarrow> 'd list list \<Rightarrow> 'c option" where
  "over_parts consume finish merge new parts =
     (case all_parts (map (count_part consume finish new) parts) of
        Some (c # cs) \<Rightarrow> merge_parts merge c cs
      | _ \<Rightarrow> None)"

definition terms_buckets :: "int \<Rightarrow> string list list list \<Rightarrow> calculator option" where
  "terms_buckets sz = over_parts (\<lambda>ts c. Some (terms_Consume ts c)) terms_Finish terms_Merge (new_calculator sz)"

definition date_buckets :: "date_histogram \<Rightarrow> int \<Rightarrow> int list list list \<Rightarrow> date_calculator option" where
  "date_buckets p sz = over_parts (date_Consume p) (date_Finish p) (date_Merge p) (new_date_calculator sz)"

section \<open>Counting\<close>

text \<open>The buckets are the names that occur, each once and with the number of its occurrences.\<close>

definition counts :: "string multiset \<Rightarrow> bucket list \<Rightarrow> bool" where
  "counts M bs \<longleftrightarrow> distinct (map fst bs) \<and> set bs = (\<lambda>n. (n, count M n)) ` set_mset M"

lemma counts_names: "counts M bs \<Longrightarrow> fst ` set bs = set_mset M"
  by (simp add: counts_def image_image)

lemma map_fst_add_count [simp]: "map fst (add_count n k bs) = map fst bs"
  by (simp add: add_count_def)

lemma counts_merge:
  assumes c: "counts M bs" and k: "0 < k"
  shows "counts (M + replicate_mset k n) (merge_bucket (n, k) bs)"
proof (cases "n \<in># M")
  case True
  have "set (add_count n k bs) = (\<lambda>m. if m = n then (n, count M m + k) else (m, count M m)) ` set_mset M"
    using c by (simp only: counts_def add_count_def set_map image_image fst_conv snd_conv)
  also have "\<dots> = (\<lambda>m. (m, count (M + replicate_mset k n) m)) ` set_mset (M + replicate_mset k n)"
    using True k by (intro image_cong) auto
  moreover have "merge_bucket (n, k) bs = add_count n k bs" using True counts_names [OF c] by (simp add: merge_bucket_def)
  ultimately show ?thesis using c by (simp add: counts_def)
next
  case False
  then have "merge_bucket (n, k) bs = bs @ [(n, k)]" "n \<notin> fst ` set bs" using counts_names [OF c] by (simp_all add: merge_bucket_def)
  moreover have "(\<lambda>m. (m, count M m)) ` set_mset M = (\<lambda>m. (m, count (M + replicate_mset k n) m)) ` set_mset M"
    using False by (intro image_cong) auto
  ultimately show ?thesis using c k False by (simp add: counts_def not_in_iff)
qed

lemma counts_sum:
  assumes "counts N bs"
  shows "(\<Sum>b \<leftarrow> bs. replicate_mset (snd b) (fst b)) = N"
proof (rule multiset_eqI)
  fix x
  have "(\<Sum>b \<leftarrow> bs. replicate_mset (snd b) (fst b)) = (\<Sum>b \<in> set bs. replicate_mset (snd b) (fst b))"
    using assms by (intro sum_list_distinct_conv_sum_set) (simp add: counts_def distinct_map)
  also have "\<dots> = (\<Sum>n \<in> set_mset N. replicate_mset (count N n) n)"
    using assms by (simp add: counts_def sum.reindex inj_on_def)
  finally show "count (\<Sum>b \<leftarrow> bs. replicate_mset (snd b) (fst b)) x = count N x"
    by (simp add: count_sum if_distrib not_in_iff cong: if_cong)
qed

lemma counts_merge_all:
  assumes "counts M as" "counts N bs"
  shows "counts (M + N) (fold merge_bucket bs as)"
proof -
  have add: "counts M as \<Longrightarrow> \<forall>b \<in> set bs. 0 < snd b \<Longrightarrow>
      counts (M + (\<Sum>b \<leftarrow> bs. replicate_mset (snd b) (fst b))) (fold merge_bucket bs as)" for bs
    by (induction bs arbitrary: M as) (use counts_merge in \<open>auto simp: add.assoc [symmetric]\<close>)
  moreover have "\<forall>b \<in> set bs. 0 < snd b" using assms(2) by (auto simp: counts_def)
  ultimately show ?thesis using add [of bs] assms(1) counts_sum [OF assms(2)] by simp
qed

lemma counts_cong: "mset bs = mset bs' \<Longrightarrow> counts M bs = counts M bs'"
  by (metis counts_def mset_eq_setD mset_map mset_eq_imp_distinct_iff)

lemma counts_empty: "counts {#} []"
  by (simp add: counts_def)

lemma counts_length: "counts M bs \<Longrightarrow> length bs = card (set_mset M)"
  using counts_names [of M bs] distinct_card [of "map fst bs"] by (simp add: counts_def)

text \<open>What a calculator holds while it consumes and when it is finished.\<close>

definition counting :: "int \<Rightarrow> string multiset \<Rightarrow> nat \<Rightarrow> 'z calculator_scheme \<Rightarrow> bool" where
  "counting sz M n c \<longleftrightarrow> ca_size c = sz \<and> ca_total c = n \<and> counts M (ca_list c) \<and> ca_keys c = map fst (ca_list c)"

definition holds_counts :: "(bucket \<Rightarrow> bucket \<Rightarrow> bool) \<Rightarrow> int \<Rightarrow> string multiset \<Rightarrow> nat \<Rightarrow> 'z calculator_scheme \<Rightarrow> bool" where
  "holds_counts lt sz M n c \<longleftrightarrow>
     ca_size c = sz \<and> ca_total c = n \<and> counts M (ca_list c) \<and> sorted_wrt (\<lambda>a b. \<not> lt b a) (ca_list c) \<and> ca_other c = int n - int (size M)"

lemma counting_bucket_Consume: "counting sz M n c \<Longrightarrow> counting sz (add_mset name M) n (bucket_Consume name c)"
proof -
  assume c: "counting sz M n c"
  then have "ca_list (bucket_Consume name c) = merge_bucket (name, 1) (ca_list c)"
    by (simp add: counting_def bucket_Consume_def merge_bucket_def)
  moreover have "counts (M + replicate_mset 1 name) (merge_bucket (name, 1) (ca_list c))"
    using c by (intro counts_merge) (simp_all add: counting_def)
  ultimately show ?thesis using c by (simp add: counting_def bucket_Consume_def merge_bucket_def)
qed

lemma counting_fold: "counting sz M n c \<Longrightarrow> counting sz (M + mset names) n (fold bucket_Consume names c)"
proof (induction names arbitrary: M c)
  case (Cons name names)
  from Cons.IH [OF counting_bucket_Consume [OF Cons.prems]] show ?case by simp
qed simp

lemma size_counts: "counts M bs \<Longrightarrow> sum_list (map snd bs) = size M"
proof -
  assume "counts M bs"
  from counts_sum [OF this] have "size M = size (\<Sum>b \<leftarrow> bs. replicate_mset (snd b) (fst b))" by simp
  also have "\<dots> = sum_list (map snd bs)" by (induction bs) auto
  finally show ?thesis by simp
qed

lemma sort_and_trim_counted:
  assumes "weak_order lt" "ca_size c = sz" "ca_total c = n" "counts M (ca_list c)" "int (card (set_mset M)) \<le> sz"
  shows "\<exists>c'. sort_and_trim lt c = Some c' \<and> holds_counts lt sz M n c'"
proof -
  let ?s = "sort_Slice lt (ca_list c)"
  have "counts M ?s" using assms(4) counts_cong [OF mset_sort_Slice] by blast
  moreover have "take (nat sz) ?s = ?s" using assms(5) counts_length [OF assms(4)] by simp
  ultimately show ?thesis using assms sorted_sort_Slice [OF assms(1)] size_counts [of M ?s]
    by (simp add: sort_and_trim_def holds_counts_def Let_def)
qed

section \<open>Counting over parts\<close>

text \<open>
  The contract of a calculator: what it holds while it consumes and once it is finished, for as long as there is room for
  the names.
\<close>

locale bucket_aggregation =
  fixes consume :: "'d \<Rightarrow> 'c \<Rightarrow> 'c option" and finish :: "'c \<Rightarrow> 'c option" and merge :: "'c \<Rightarrow> 'c \<Rightarrow> 'c option" and new :: 'c
    and names :: "'d \<Rightarrow> string list"
    and running finished :: "string multiset \<Rightarrow> nat \<Rightarrow> 'c \<Rightarrow> bool"
    and room :: "string multiset \<Rightarrow> bool"
  assumes new: "running {#} 0 new"
    and consume: "running M n c \<Longrightarrow> room (M + mset (names d)) \<Longrightarrow> \<exists>c'. consume d c = Some c' \<and> running (M + mset (names d)) (n + 1) c'"
    and finish: "running M n c \<Longrightarrow> room M \<Longrightarrow> \<exists>c'. finish c = Some c' \<and> finished M n c'"
    and merge: "finished M m a \<Longrightarrow> finished N n b \<Longrightarrow> room (M + N) \<Longrightarrow> \<exists>c. merge a b = Some c \<and> finished (M + N) (m + n) c"
    and less_room: "room (M + N) \<Longrightarrow> room M"
begin

definition names_of :: "'d list \<Rightarrow> string multiset" where
  "names_of docs = mset (concat (map names docs))"

lemma consume_all_runs:
  "running M n c \<Longrightarrow> room (M + names_of docs) \<Longrightarrow> \<exists>c'. consume_all consume docs c = Some c' \<and> running (M + names_of docs) (n + length docs) c'"
proof (induction docs arbitrary: M n c)
  case (Cons d docs)
  have "room (M + mset (names d) + names_of docs)" using Cons.prems(2) by (simp add: names_of_def add.assoc)
  with consume [OF Cons.prems(1) less_room] obtain c' where "consume d c = Some c'" "running (M + mset (names d)) (n + 1) c'" by blast
  with Cons.IH [OF this(2)] \<open>room (M + mset (names d) + names_of docs)\<close> show ?case by (auto simp: names_of_def add.assoc)
qed (simp add: names_of_def)

lemma count_part_counts: "room (names_of docs) \<Longrightarrow> \<exists>c. count_part consume finish new docs = Some c \<and> finished (names_of docs) (length docs) c"
  using consume_all_runs [OF new, of docs] finish by (fastforce simp: count_part_def)

lemma all_parts_counts:
  "room (names_of (concat parts)) \<Longrightarrow>
   \<exists>cs. all_parts (map (count_part consume finish new) parts) = Some cs \<and>
     list_all2 (\<lambda>docs c. finished (names_of docs) (length docs) c) parts cs"
proof (induction parts)
  case (Cons docs parts)
  have sum: "names_of (concat (docs # parts)) = names_of docs + names_of (concat parts)" by (simp add: names_of_def)
  with Cons.prems have "room (names_of docs)" "room (names_of (concat parts))"
    using less_room by (metis add.commute)+
  with Cons.IH count_part_counts [of docs] show ?case by auto
qed simp

lemma merge_parts_counts:
  "list_all2 (\<lambda>docs c. finished (names_of docs) (length docs) c) parts cs \<Longrightarrow> finished M n c \<Longrightarrow> room (M + names_of (concat parts)) \<Longrightarrow>
   \<exists>c'. merge_parts merge c cs = Some c' \<and> finished (M + names_of (concat parts)) (n + length (concat parts)) c'"
proof (induction parts cs arbitrary: M n c rule: list_all2_induct)
  case (Cons docs parts d cs)
  have room: "room (M + names_of docs + names_of (concat parts))" using Cons.prems(2) by (simp add: names_of_def add.assoc)
  with merge [OF Cons.prems(1) Cons.hyps(1) less_room] obtain c' where
    "merge c d = Some c'" "finished (M + names_of docs) (n + length docs) c'" by blast
  with Cons.IH [OF this(2) room] show ?case by (auto simp: names_of_def add.assoc)
qed (simp add: names_of_def)

lemma over_parts_counts:
  assumes "parts \<noteq> []" "room (names_of (concat parts))"
  shows "\<exists>c. over_parts consume finish merge new parts = Some c \<and> finished (names_of (concat parts)) (length (concat parts)) c"
proof -
  obtain docs rest where parts: "parts = docs # rest" using assms(1) by (cases parts) auto
  from all_parts_counts [OF assms(2)] obtain c cs where
    "all_parts (map (count_part consume finish new) parts) = Some (c # cs)" "finished (names_of docs) (length docs) c"
    "list_all2 (\<lambda>docs c. finished (names_of docs) (length docs) c) rest cs"
    by (auto simp: parts list_all2_Cons1)
  with merge_parts_counts [OF this(3,2)] assms(2) show ?thesis by (auto simp: over_parts_def parts names_of_def)
qed

end

definition fits :: "int \<Rightarrow> string multiset \<Rightarrow> bool" where
  "fits sz M \<longleftrightarrow> int (card (set_mset M)) \<le> sz"

lemma fits_less: "fits sz (M + N) \<Longrightarrow> fits sz M"
  using card_mono [of "set_mset (M + N)" "set_mset M"] by (simp add: fits_def)

lemma weak_order_count: "weak_order (\<lambda>a b. snd b < (snd a :: nat))"
  by (auto simp: weak_order_def)

lemma weak_order_name: "weak_order (\<lambda>a b. fst a < (fst b :: string))"
  by (auto simp: weak_order_def)

interpretation terms: bucket_aggregation "\<lambda>ts c. Some (terms_Consume ts c)" terms_Finish terms_Merge "new_calculator sz"
  id "counting sz" "holds_counts (\<lambda>a b. snd b < snd a) sz" "fits sz" for sz
proof unfold_locales
  show "counting sz {#} 0 (new_calculator sz)" by (simp add: counting_def new_calculator_def counts_empty)
next
  fix M n and c :: calculator and d
  assume "counting sz M n c"
  then have "counting sz M (n + 1) (c\<lparr>ca_total := ca_total c + 1\<rparr>)" by (simp add: counting_def)
  from counting_fold [OF this, of d]
  show "\<exists>c'. Some (terms_Consume d c) = Some c' \<and> counting sz (M + mset (id d)) (n + 1) c'" by (simp add: terms_Consume_def)
next
  fix M n and c :: calculator
  assume "counting sz M n c" "fits sz M"
  then show "\<exists>c'. terms_Finish c = Some c' \<and> holds_counts (\<lambda>a b. snd b < snd a) sz M n c'"
    unfolding terms_Finish_def by (intro sort_and_trim_counted weak_order_count) (simp_all add: counting_def fits_def)
next
  fix M N m n and a b :: calculator
  assume "holds_counts (\<lambda>a b. snd b < snd a) sz M m a" "holds_counts (\<lambda>a b. snd b < snd a) sz N n b" "fits sz (M + N)"
  then show "\<exists>c. terms_Merge a b = Some c \<and> holds_counts (\<lambda>a b. snd b < snd a) sz (M + N) (m + n) c"
    unfolding terms_Merge_def terms_Finish_def
    by (intro sort_and_trim_counted weak_order_count) (simp_all add: holds_counts_def fits_def counts_merge_all)
qed (rule fits_less)

definition date_name :: "date_histogram \<Rightarrow> int \<Rightarrow> string" where
  "date_name p t = dh_label p (quot t (dh_interval p) * dh_interval p)"

definition date_room :: "date_histogram \<Rightarrow> int \<Rightarrow> string multiset \<Rightarrow> bool" where
  "date_room p sz M \<longleftrightarrow> dh_interval p \<noteq> 0 \<and> dh_minDocCount p = 1 \<and> fits sz M"

lemma counting_consume_dates:
  "counting sz M n c \<Longrightarrow> dh_interval p \<noteq> 0 \<Longrightarrow>
   \<exists>c'. consume_dates p ts c = Some c' \<and> counting sz (M + mset (map (date_name p) ts)) n c'"
proof (induction ts arbitrary: M c)
  case (Cons t ts)
  let ?c = "c\<lparr>dc_minValue := min t (dc_minValue c), dc_maxValue := max t (dc_maxValue c)\<rparr>"
  have "counting sz M n ?c" using Cons.prems(1) by (simp add: counting_def)
  from Cons.IH [OF counting_bucket_Consume [OF this] Cons.prems(2), of "date_name p t"] Cons.prems(2)
  show ?case by (simp add: date_bucketKey_def date_name_def Let_def)
qed simp

lemma date_bounds_keeps [simp]:
  "ca_size (date_bounds p c) = ca_size c" "ca_total (date_bounds p c) = ca_total c" "ca_list (date_bounds p c) = ca_list c"
  by (simp_all add: date_bounds_def Let_def split: option.split)

lemma date_Finish_counted:
  assumes "ca_size c = sz" "ca_total c = n" "counts M (ca_list c)" "date_room p sz M"
  shows "\<exists>c'. date_Finish p c = Some c' \<and> holds_counts (\<lambda>a b. fst a < fst b) sz M n c'"
proof -
  have "filter (\<lambda>b. 1 \<le> snd b) (ca_list c) = ca_list c" using assms(3) by (auto simp: filter_id_conv counts_def Suc_le_eq)
  moreover have "\<exists>c'. sort_and_trim (\<lambda>a b. fst a < fst b) (date_bounds p c) = Some c' \<and> holds_counts (\<lambda>a b. fst a < fst b) sz M n c'"
    using assms by (intro sort_and_trim_counted weak_order_name) (simp_all add: date_room_def fits_def)
  moreover have "d\<lparr>ca_list := ca_list d\<rparr> = d" for d :: date_calculator by simp
  from this [of "date_bounds p c"] have same: "date_bounds p c\<lparr>ca_list := ca_list c\<rparr> = date_bounds p c" by (simp only: date_bounds_keeps)
  ultimately show ?thesis using assms(4) by (simp add: date_Finish_def date_room_def Let_def same)
qed

interpretation dates: bucket_aggregation "date_Consume p" "date_Finish p" "date_Merge p" "new_date_calculator sz"
  "map (date_name p)" "counting sz" "holds_counts (\<lambda>a b. fst a < fst b) sz" "date_room p sz" for p sz
proof unfold_locales
  show "counting sz {#} 0 (new_date_calculator sz)"
    by (simp add: counting_def new_date_calculator_def new_calculator_def counts_empty calculator.defs)
next
  fix M n and c :: date_calculator and d
  assume "counting sz M n c" and room: "date_room p sz (M + mset (map (date_name p) d))"
  then have "counting sz M (n + 1) (c\<lparr>ca_total := ca_total c + 1\<rparr>)" by (simp add: counting_def)
  from counting_consume_dates [OF this, of p d] room
  show "\<exists>c'. date_Consume p d c = Some c' \<and> counting sz (M + mset (map (date_name p) d)) (n + 1) c'"
    by (simp add: date_Consume_def date_room_def)
next
  fix M n and c :: date_calculator
  assume "counting sz M n c" "date_room p sz M"
  then show "\<exists>c'. date_Finish p c = Some c' \<and> holds_counts (\<lambda>a b. fst a < fst b) sz M n c'"
    by (intro date_Finish_counted) (simp_all add: counting_def)
next
  fix M N m n and a b :: date_calculator
  assume "holds_counts (\<lambda>a b. fst a < fst b) sz M m a" "holds_counts (\<lambda>a b. fst a < fst b) sz N n b" "date_room p sz (M + N)"
  then show "\<exists>c. date_Merge p a b = Some c \<and> holds_counts (\<lambda>a b. fst a < fst b) sz (M + N) (m + n) c"
    unfolding date_Merge_def by (intro date_Finish_counted) (simp_all add: holds_counts_def counts_merge_all)
qed (auto simp: date_room_def dest: fits_less)

section \<open>What the buckets are\<close>

text \<open>
  C23. The terms and the dates of documents that lie in several parts are counted exactly, however the documents are spread
  over the parts and in whatever order the parts are merged. When the size leaves room for every name, and
  every bucket with a document is asked for, the result has one bucket for each name that occurs, with the number of its
  occurrences in all parts; terms come with the greatest count first and dates in the order of their
  names; the total is the number of documents.
\<close>

theorem buckets_count_all_parts:
  assumes "parts \<noteq> []" "dparts \<noteq> []" "dh_interval p \<noteq> 0" "dh_minDocCount p = 1"
    and "int (card (set (concat (concat parts)))) \<le> sz" "int (card (date_name p ` set (concat (concat dparts)))) \<le> dsz"
  shows "(\<exists>c. terms_buckets sz parts = Some c \<and> distinct (map fst (ca_list c)) \<and>
      set (ca_list c) = (\<lambda>t. (t, count_list (concat (concat parts)) t)) ` set (concat (concat parts)) \<and>
      sorted_wrt (\<ge>) (map snd (ca_list c)) \<and> ca_total c = length (concat parts)) \<and>
    (\<exists>c. date_buckets p dsz dparts = Some c \<and> sorted_wrt (<) (map fst (ca_list c)) \<and>
      set (ca_list c) = (\<lambda>s. (s, count_list (map (date_name p) (concat (concat dparts))) s)) ` date_name p ` set (concat (concat dparts)) \<and>
      ca_total c = length (concat dparts))"
proof
  have "fits sz (terms.names_of (concat parts))" using assms(5) by (simp add: fits_def terms.names_of_def)
  from terms.over_parts_counts [OF assms(1) this] obtain c where
    "terms_buckets sz parts = Some c" "holds_counts (\<lambda>a b. snd b < snd a) sz (mset (concat (concat parts))) (length (concat parts)) c"
    by (auto simp: terms_buckets_def terms.names_of_def)
  then show "\<exists>c. terms_buckets sz parts = Some c \<and> distinct (map fst (ca_list c)) \<and>
      set (ca_list c) = (\<lambda>t. (t, count_list (concat (concat parts)) t)) ` set (concat (concat parts)) \<and>
      sorted_wrt (\<ge>) (map snd (ca_list c)) \<and> ca_total c = length (concat parts)"
    by (auto simp: holds_counts_def counts_def count_mset sorted_wrt_map not_less)
next
  let ?ns = "map (date_name p) (concat (concat dparts))"
  have names: "dates.names_of p (concat dparts) = mset ?ns" by (simp only: dates.names_of_def map_concat)
  then have "date_room p dsz (dates.names_of p (concat dparts))"
    using assms(3,4,6) by (simp add: date_room_def fits_def del: set_concat)
  from dates.over_parts_counts [OF assms(2) this] obtain c where
    "date_buckets p dsz dparts = Some c" "holds_counts (\<lambda>a b. fst a < fst b) dsz (mset ?ns) (length (concat dparts)) c"
    unfolding names by (auto simp: date_buckets_def)
  then show "\<exists>c. date_buckets p dsz dparts = Some c \<and> sorted_wrt (<) (map fst (ca_list c)) \<and>
      set (ca_list c) = (\<lambda>s. (s, count_list ?ns s)) ` date_name p ` set (concat (concat dparts)) \<and>
      ca_total c = length (concat dparts)"
    by (intro exI [of _ c]) (simp add: holds_counts_def counts_def count_mset not_less strict_sorted_iff sorted_map del: mset_map set_concat)
qed

definition tens :: "int \<Rightarrow> date_histogram" where
  "tens m = \<lparr>dh_interval = 10, dh_minDocCount = m, dh_label = (\<lambda>t. replicate (nat (t div 10)) CHR ''x''), dh_extended = None, dh_hard = None\<rparr>"

theorem buckets_count_all_parts_witness:
  "(\<exists>c. terms_buckets 2 [[[''a'']], [[''b'', ''a'']]] = Some c \<and> ca_list c = [(''a'', 2), (''b'', 1)] \<and> ca_total c = 2) \<and>
   (\<exists>c. date_buckets (tens 1) 5 [[[12]], [[31], [15, 18]]] = Some c \<and> ca_list c = [(''x'', 3), (''xxx'', 1)] \<and> ca_total c = 3)"
proof -
  let ?ts = "[[[''a'']], [[''b'', ''a'']]] :: string list list list" and ?ds = "[[[12]], [[31], [15, 18]]] :: int list list list"
  have terms: "map_option (\<lambda>c. (ca_list c, ca_total c)) (terms_buckets 2 ?ts) = Some ([(''a'', 2), (''b'', 1)], 2)" by code_simp
  have dates: "map_option (\<lambda>c. (ca_list c, ca_total c)) (date_buckets (tens 1) 5 ?ds) = Some ([(''x'', 3), (''xxx'', 1)], 3)" by code_simp
  have "card (date_name (tens 1) ` set (concat (concat ?ds))) \<le> card (set (concat (concat ?ds)))" by (rule card_image_le) simp
  also have "\<dots> \<le> length (concat (concat ?ds))" by (rule card_length)
  finally have d: "int (card (date_name (tens 1) ` set (concat (concat ?ds)))) \<le> 5" by simp
  have t: "int (card (set (concat (concat ?ts)))) \<le> 2" by (simp add: card_insert_if)
  have p: "dh_interval (tens 1) \<noteq> 0" "dh_minDocCount (tens 1) = 1" by (simp_all add: tens_def)
  have "(\<exists>c. terms_buckets 2 ?ts = Some c) \<and> (\<exists>c. date_buckets (tens 1) 5 ?ds = Some c)"
    using buckets_count_all_parts [OF _ _ p t d] by blast
  with terms dates show ?thesis by auto
qed


end
