(* ===== verification/Templates.thy ===== *)
theory Templates
  imports Index_Mappings
begin

text \<open>
  Index templates (\<open>pkg/core/template.go\<close>, \<open>pkg/meta/template.go\<close>): storing them, and the choice of one for a new
  index by its name. The metadata store is an association list; whether it answers is an argument. Times are left out, and the settings and mappings
  of a template are not looked at.
\<close>

section \<open>Patterns\<close>

text \<open>
  The regular expressions that patterns without other special characters become: characters, any character, and
  any characters. \<open>other\<close> is what \<open>regexp\<close> makes of the rest, \<open>None\<close> for an expression that does not compile.
\<close>

datatype atom = Lit char | AnyChar | AnyStar

definition special :: "char \<Rightarrow> bool" where
  "special c \<longleftrightarrow> c \<in> set ''*+?()[]{}|^$'' \<or> c = CHR 0x5C \<or> 128 \<le> (of_char c :: nat)"

fun atoms :: "string \<Rightarrow> atom list option" where
  "atoms [] = Some []"
| "atoms (c # s) =
     (if c = CHR ''.'' then
        (case s of
           d # r \<Rightarrow> if d = CHR ''*'' then map_option ((#) AnyStar) (atoms r) else map_option ((#) AnyChar) (atoms s)
         | [] \<Rightarrow> Some [AnyChar])
      else if special c then None
      else map_option ((#) (Lit c)) (atoms s))"

definition any_char :: "char \<Rightarrow> bool" where
  "any_char c \<longleftrightarrow> c \<noteq> CHR 0x0A"

function matches :: "atom list \<Rightarrow> string \<Rightarrow> bool" where
  "matches [] s = (s = [])"
| "matches (Lit c # as) s = (case s of [] \<Rightarrow> False | d # r \<Rightarrow> d = c \<and> matches as r)"
| "matches (AnyChar # as) s = (case s of [] \<Rightarrow> False | d # r \<Rightarrow> any_char d \<and> matches as r)"
| "matches (AnyStar # as) s = (matches as s \<or> (case s of [] \<Rightarrow> False | d # r \<Rightarrow> any_char d \<and> matches (AnyStar # as) r))"
  by pat_completeness auto
termination by (relation "measures [\<lambda>(as, _). length as, \<lambda>(_, s). length s]") auto

fun match_end :: "atom list \<Rightarrow> string \<Rightarrow> bool" where
  "match_end as [] = matches as []"
| "match_end as (c # s) = (matches as (c # s) \<or> match_end as s)"

definition is_ascii :: "string \<Rightarrow> bool" where
  "is_ascii s \<longleftrightarrow> list_all (\<lambda>c. (of_char c :: nat) < 128) s"

text \<open>An expression that ends in \<open>$\<close>, and \<open>MatchString\<close>, which looks for it anywhere.\<close>

definition MatchString :: "(string \<Rightarrow> (string \<Rightarrow> bool) option) \<Rightarrow> string \<Rightarrow> (string \<Rightarrow> bool) option" where
  "MatchString other p =
     (case atoms (butlast p) of
        None \<Rightarrow> other p
      | Some as \<Rightarrow> Some (\<lambda>s. if is_ascii s then match_end as s else (case other p of None \<Rightarrow> False | Some m \<Rightarrow> m s)))"

definition ReplaceAll_star :: "string \<Rightarrow> string" where
  "ReplaceAll_star p = concat (map (\<lambda>c. if c = CHR ''*'' then ''.*'' else [c]) p)"

definition TrimRight_dollar :: "string \<Rightarrow> string" where
  "TrimRight_dollar s = rev (dropWhile (\<lambda>c. c = CHR ''$'') (rev s))"

definition expression :: "string \<Rightarrow> string" where
  "expression p = TrimRight_dollar (ReplaceAll_star p) @ ''$''"

section \<open>Templates\<close>

record 't IndexTemplate =
  it_IndexPatterns :: "string list"
  it_Priority :: int
  it_Template :: 't

type_synonym 't templates = "(string \<times> 't IndexTemplate) list"

definition ListTemplates :: "bool \<Rightarrow> string \<Rightarrow> 't templates \<Rightarrow> 't templates option" where
  "ListTemplates ok pattern st =
     (if \<not> ok then None
      else Some (if pattern = [] then st else filter (\<lambda>(_, t). pattern \<in> set (it_IndexPatterns t)) st))"

text \<open>The check for a template with the same pattern and priority; \<open>ok i\<close> says whether the listing for the \<open>i\<close>-th pattern succeeds.\<close>

fun clash :: "(nat \<Rightarrow> bool) \<Rightarrow> nat \<Rightarrow> string \<Rightarrow> int \<Rightarrow> string list \<Rightarrow> 't templates \<Rightarrow> bool" where
  "clash ok i name prio [] st = False"
| "clash ok i name prio (p # ps) st =
     ((case ListTemplates (ok i) p st of
         None \<Rightarrow> False
       | Some results \<Rightarrow> list_ex (\<lambda>(n, t). n \<noteq> name \<and> it_Priority t = prio) results) \<or>
      clash ok (i + 1) name prio ps st)"

definition NewTemplate :: "(nat \<Rightarrow> bool) \<Rightarrow> bool \<Rightarrow> string \<Rightarrow> 't IndexTemplate option \<Rightarrow> 't templates \<Rightarrow> bool \<times> 't templates" where
  "NewTemplate ok set_ok name template st =
     (case template of
        None \<Rightarrow> (True, st)
      | Some t \<Rightarrow>
          if name = [] then (True, st)
          else if clash ok 0 name (it_Priority t) (it_IndexPatterns t) st then (False, st)
          else if set_ok then (True, AList.update name t st) else (False, st))"

text \<open>\<open>LoadTemplate\<close>: \<open>None\<close> for an error.\<close>

definition LoadTemplate :: "bool \<Rightarrow> string \<Rightarrow> 't templates \<Rightarrow> 't IndexTemplate option option" where
  "LoadTemplate ok name st = (if name = [] then Some None else if \<not> ok then None else Some (map_of st name))"

definition DeleteTemplate :: "bool \<Rightarrow> string \<Rightarrow> 't templates \<Rightarrow> bool \<times> 't templates" where
  "DeleteTemplate ok name st = (if ok then (True, AList.delete name st) else (False, st))"

fun first_characters :: "string \<Rightarrow> string list \<Rightarrow> bool outcome" where
  "first_characters name [] = Gives False"
| "first_characters name (p # ps) =
     (if p = [] then Panics else if HasPrefix name (take 1 p) then Gives True else first_characters name ps)"

fun filter_templates :: "string \<Rightarrow> 't templates \<Rightarrow> 't templates outcome" where
  "filter_templates name [] = Gives []"
| "filter_templates name (nt # st) =
     (case first_characters name (it_IndexPatterns (snd nt)) of
        Gives keep \<Rightarrow> (case filter_templates name st of Gives r \<Rightarrow> Gives (if keep then nt # r else r) | Fails \<Rightarrow> Fails | Panics \<Rightarrow> Panics)
      | _ \<Rightarrow> Panics)"

fun match_patterns :: "(string \<Rightarrow> (string \<Rightarrow> bool) option) \<Rightarrow> string \<Rightarrow> string list \<Rightarrow> bool outcome" where
  "match_patterns other name [] = Gives False"
| "match_patterns other name (p # ps) =
     (case MatchString other (expression p) of
        None \<Rightarrow> Panics
      | Some m \<Rightarrow> if m name then Gives True else match_patterns other name ps)"

fun first_template :: "(string \<Rightarrow> (string \<Rightarrow> bool) option) \<Rightarrow> string \<Rightarrow> 't templates \<Rightarrow> 't IndexTemplate option outcome" where
  "first_template other name [] = Gives None"
| "first_template other name (nt # st) =
     (case match_patterns other name (it_IndexPatterns (snd nt)) of
        Gives True \<Rightarrow> Gives (Some (snd nt))
      | Gives False \<Rightarrow> first_template other name st
      | _ \<Rightarrow> Panics)"

definition UseTemplate :: "(string \<Rightarrow> (string \<Rightarrow> bool) option) \<Rightarrow> bool \<Rightarrow> string \<Rightarrow> 't templates \<Rightarrow> 't IndexTemplate option outcome" where
  "UseTemplate other ok indexName st =
     (case ListTemplates ok [] st of
        None \<Rightarrow> Fails
      | Some [] \<Rightarrow> Gives None
      | Some ts \<Rightarrow>
          (case filter_templates indexName (sort_Slice (\<lambda>a b. it_Priority (snd b) < it_Priority (snd a)) ts) of
             Gives filtered \<Rightarrow> first_template other indexName filtered
           | _ \<Rightarrow> Panics))"

section \<open>Storing\<close>

text \<open>No two templates have a pattern in common and the same priority.\<close>

definition unambiguous :: "'t templates \<Rightarrow> bool" where
  "unambiguous st \<longleftrightarrow> distinct (map fst st) \<and> (\<forall>(a, t) \<in> set st. \<forall>(b, u) \<in> set st.
     a \<noteq> b \<longrightarrow> set (it_IndexPatterns t) \<inter> set (it_IndexPatterns u) \<noteq> {} \<longrightarrow> it_Priority t \<noteq> it_Priority u)"

lemma no_clash:
  "\<not> clash ok i name prio ps st \<Longrightarrow> (\<And>i. ok i) \<Longrightarrow> (n, t) \<in> set st \<Longrightarrow> n \<noteq> name \<Longrightarrow> it_Priority t = prio \<Longrightarrow>
   set ps \<inter> set (it_IndexPatterns t) = {}"
  by (induction ps arbitrary: i) (fastforce simp: ListTemplates_def list_ex_iff split: if_splits)+

lemma set_AList_update: "distinct (map fst st) \<Longrightarrow> set (AList.update k v st) = insert (k, v) {x \<in> set st. fst x \<noteq> k}"
  by (induction st) (auto intro: rev_image_eqI)

lemma NewTemplate_unambiguous:
  assumes "unambiguous st" "\<And>i. ok i"
  shows "unambiguous (snd (NewTemplate ok set_ok name template st))"
proof (cases template)
  case (Some t)
  show ?thesis
  proof (cases "name = [] \<or> clash ok 0 name (it_Priority t) (it_IndexPatterns t) st \<or> \<not> set_ok")
    case False
    have d: "distinct (map fst st)" using assms(1) by (simp add: unambiguous_def)
    have new: "set (it_IndexPatterns t) \<inter> set (it_IndexPatterns u) = {}" if "(b, u) \<in> set st" "b \<noteq> name" "it_Priority u = it_Priority t" for b u
      using no_clash [of ok 0 name "it_Priority t" "it_IndexPatterns t" st b u] False that assms(2) by blast
    then have "unambiguous (AList.update name t st)"
      using assms(1) d unfolding unambiguous_def set_AList_update [OF d] by (fastforce simp: distinct_update Int_commute)
    then show ?thesis using Some False by (simp add: NewTemplate_def)
  qed (auto simp: NewTemplate_def Some assms(1))
qed (simp add: NewTemplate_def assms(1))

lemma DeleteTemplate_unambiguous: "unambiguous st \<Longrightarrow> unambiguous (snd (DeleteTemplate ok name st))"
  by (fastforce simp: DeleteTemplate_def unambiguous_def AList.delete_eq distinct_map_filter)

section \<open>Choosing\<close>

definition usable :: "(string \<Rightarrow> (string \<Rightarrow> bool) option) \<Rightarrow> 't IndexTemplate \<Rightarrow> bool" where
  "usable other t \<longleftrightarrow> (\<forall>p \<in> set (it_IndexPatterns t). p \<noteq> [] \<and> MatchString other (expression p) \<noteq> None)"

definition applies :: "(string \<Rightarrow> (string \<Rightarrow> bool) option) \<Rightarrow> string \<Rightarrow> 't IndexTemplate \<Rightarrow> bool" where
  "applies other name t \<longleftrightarrow>
     list_ex (\<lambda>p. HasPrefix name (take 1 p)) (it_IndexPatterns t) \<and>
     list_ex (\<lambda>p. case MatchString other (expression p) of None \<Rightarrow> False | Some m \<Rightarrow> m name) (it_IndexPatterns t)"

lemma first_characters_gives: "[] \<notin> set ps \<Longrightarrow> first_characters name ps = Gives (list_ex (\<lambda>p. HasPrefix name (take 1 p)) ps)"
  by (induction ps) auto

lemma match_patterns_gives:
  "\<forall>p \<in> set ps. MatchString other (expression p) \<noteq> None \<Longrightarrow>
   match_patterns other name ps = Gives (list_ex (\<lambda>p. case MatchString other (expression p) of None \<Rightarrow> False | Some m \<Rightarrow> m name) ps)"
  by (induction ps) auto

lemma filter_templates_gives:
  "\<forall>nt \<in> set st. usable other (snd nt) \<Longrightarrow>
   filter_templates name st = Gives (filter (\<lambda>nt. list_ex (\<lambda>p. HasPrefix name (take 1 p)) (it_IndexPatterns (snd nt))) st)"
  by (induction st) (auto simp: usable_def first_characters_gives)

lemma first_template_gives:
  "\<forall>nt \<in> set st. usable other (snd nt) \<Longrightarrow>
   first_template other name st =
     Gives (map_option snd (find (\<lambda>nt. list_ex (\<lambda>p. case MatchString other (expression p) of None \<Rightarrow> False | Some m \<Rightarrow> m name) (it_IndexPatterns (snd nt))) st))"
  by (induction st) (auto simp: usable_def match_patterns_gives)

lemma find_in_filter: "find P (filter Q xs) = find (\<lambda>x. Q x \<and> P x) xs"
  by (induction xs) auto

lemma UseTemplate_gives:
  assumes "\<forall>nt \<in> set st. usable other (snd nt)"
  shows "UseTemplate other True name st =
    Gives (map_option snd (find (\<lambda>nt. applies other name (snd nt)) (sort_Slice (\<lambda>a b. it_Priority (snd b) < it_Priority (snd a)) st)))"
proof -
  let ?ts = "sort_Slice (\<lambda>a b. it_Priority (snd b) < it_Priority (snd a)) st"
  have u: "\<forall>nt \<in> set ?ts. usable other (snd nt)" using assms by simp
  have "UseTemplate other True name st = (case filter_templates name ?ts of Gives r \<Rightarrow> first_template other name r | _ \<Rightarrow> Panics)"
    by (cases st) (simp_all add: UseTemplate_def ListTemplates_def)
  also have "\<dots> = Gives (map_option snd (find (\<lambda>nt. applies other name (snd nt)) ?ts))"
    using u by (simp add: filter_templates_gives first_template_gives find_in_filter applies_def del: set_sort_Slice)
  finally show ?thesis .
qed

lemma find_sorted:
  assumes "sorted_wrt (\<lambda>a b. f b \<le> (f a :: int)) xs" "find P xs = Some x" "y \<in> set xs" "P y"
  shows "f y \<le> f x"
  using assms by (induction xs) (auto split: if_splits)

text \<open>The pattern as it is meant: \<open>*\<close> stands for any characters, every other character for itself.\<close>

fun glob :: "string \<Rightarrow> string \<Rightarrow> bool" where
  "glob [] s = (s = [])"
| "glob (c # p) s =
     (if c = CHR ''*'' then list_ex (\<lambda>k. glob p (drop k s)) [0..<Suc (length s)]
      else (case s of [] \<Rightarrow> False | d # r \<Rightarrow> d = c \<and> glob p r))"

definition plain :: "string \<Rightarrow> bool" where
  "plain p \<longleftrightarrow> list_all (\<lambda>c. c = CHR ''*'' \<or> \<not> special c) p"

lemma special_star: "special CHR ''*''" "special CHR ''$''" "\<not> special CHR ''.''"
  by (simp_all add: special_def)

lemma Replace_Cons: "ReplaceAll_star (c # p) = (if c = CHR ''*'' then CHR ''.'' # CHR ''*'' # ReplaceAll_star p else c # ReplaceAll_star p)"
  by (simp add: ReplaceAll_star_def)

lemma Replace_no_star: "ReplaceAll_star p \<noteq> CHR ''*'' # s"
  by (cases p) (auto simp: Replace_Cons, simp add: ReplaceAll_star_def)

lemma set_Replace: "set (ReplaceAll_star p) \<subseteq> {CHR ''.'', CHR ''*''} \<union> set p"
  by (auto simp: ReplaceAll_star_def split: if_splits)

lemma atoms_dot: "(\<And>r. s \<noteq> CHR ''*'' # r) \<Longrightarrow> atoms (CHR ''.'' # s) = map_option ((#) AnyChar) (atoms s)"
  by (cases s) auto

lemma plain_atoms: "plain p \<Longrightarrow> \<exists>as. atoms (ReplaceAll_star p) = Some as \<and> (\<forall>s. glob p s \<longrightarrow> list_all any_char s \<longrightarrow> matches as s)"
proof (induction p)
  case (Cons c p)
  then obtain as where as: "atoms (ReplaceAll_star p) = Some as" "\<And>s. glob p s \<Longrightarrow> list_all any_char s \<Longrightarrow> matches as s"
    by (auto simp: plain_def)
  have star: "matches (AnyStar # as) s" if "matches as (drop k s)" "list_all any_char s" for k s
    using that by (induction s arbitrary: k) (auto simp: drop_Cons' split: if_splits)
  have any: "list_all any_char (drop k s)" if "list_all any_char s" for k s using that by (auto simp: list_all_iff dest: in_set_dropD)
  consider "c = CHR ''*''" | "c = CHR ''.''" | "c \<noteq> CHR ''*''" "c \<noteq> CHR ''.''" by blast
  then show ?case
  proof cases
    case 1
    then have "atoms (ReplaceAll_star (c # p)) = Some (AnyStar # as)" using as(1) by (simp add: Replace_Cons)
    moreover have "\<forall>s. glob (c # p) s \<longrightarrow> list_all any_char s \<longrightarrow> matches (AnyStar # as) s"
      using 1 star [OF as(2) [OF _ any]] by (auto simp: list_ex_iff simp del: matches.simps upt_Suc)
    ultimately show ?thesis by blast
  next
    case 2
    then have "atoms (ReplaceAll_star (c # p)) = Some (AnyChar # as)"
      using as(1) atoms_dot [OF Replace_no_star, of p] by (simp add: Replace_Cons del: atoms.simps)
    moreover have "\<forall>s. glob (c # p) s \<longrightarrow> list_all any_char s \<longrightarrow> matches (AnyChar # as) s" using 2 as(2) by (auto split: list.splits)
    ultimately show ?thesis by blast
  next
    case 3
    then have "atoms (ReplaceAll_star (c # p)) = Some (Lit c # as)" using as(1) Cons.prems by (simp add: Replace_Cons plain_def)
    moreover have "\<forall>s. glob (c # p) s \<longrightarrow> list_all any_char s \<longrightarrow> matches (Lit c # as) s" using 3 as(2) by (auto split: list.splits)
    ultimately show ?thesis by blast
  qed
qed (simp add: ReplaceAll_star_def)

lemma plain_trim: "plain p \<Longrightarrow> TrimRight_dollar (ReplaceAll_star p) = ReplaceAll_star p"
proof -
  assume "plain p"
  have neq: "CHR ''$'' \<noteq> CHR ''*''" "CHR ''$'' \<noteq> CHR ''.''" by simp_all
  then have "CHR ''$'' \<notin> set p" using \<open>plain p\<close> special_star(2) unfolding plain_def list_all_iff by blast
  then have "CHR ''$'' \<notin> set (ReplaceAll_star p)" using set_Replace [of p] neq by blast
  then have "\<forall>c \<in> set (rev (ReplaceAll_star p)). c \<noteq> CHR ''$''" by (simp only: set_rev) blast
  then have "dropWhile (\<lambda>c. c = CHR ''$'') (rev (ReplaceAll_star p)) = rev (ReplaceAll_star p)"
    by (cases "rev (ReplaceAll_star p)") (simp_all del: set_rev)
  then show ?thesis by (simp add: TrimRight_dollar_def)
qed

lemma plain_applies:
  assumes "p \<in> set (it_IndexPatterns t)" "plain p" "p \<noteq> []" "hd p \<noteq> CHR ''*''" "glob p name" "is_ascii name" "list_all any_char name"
  shows "applies other name t"
proof -
  obtain as where as: "atoms (ReplaceAll_star p) = Some as" "matches as name" using plain_atoms [OF assms(2)] assms(5,7) by blast
  have "match_end as name" using as(2) by (cases name) auto
  then have "case MatchString other (expression p) of None \<Rightarrow> False | Some m \<Rightarrow> m name"
    using as(1) assms(6) by (simp add: MatchString_def expression_def plain_trim [OF assms(2)])
  moreover have "HasPrefix name (take 1 p)" using assms(3-5) by (cases p; cases name) (auto simp: HasPrefix_def)
  ultimately show ?thesis using assms(1) by (auto simp: applies_def list_ex_iff)
qed

section \<open>What is promised\<close>

text \<open>Requests that change the templates, with the answers of the metadata store.\<close>

datatype 't template_request = PutTemplate bool string "'t IndexTemplate option" | DropTemplate bool string

fun template_step :: "'t templates \<Rightarrow> 't template_request \<Rightarrow> 't templates" where
  "template_step st (PutTemplate ok name t) = snd (NewTemplate (\<lambda>_. True) ok name t st)"
| "template_step st (DropTemplate ok name) = snd (DeleteTemplate ok name st)"

lemma requests_unambiguous: "unambiguous st \<Longrightarrow> unambiguous (foldl template_step st rs)"
proof (induction rs arbitrary: st)
  case (Cons r rs)
  have "unambiguous (template_step st r)" using Cons.prems by (cases r) (simp_all add: NewTemplate_unambiguous DeleteTemplate_unambiguous)
  then show ?case using Cons.IH by simp
qed simp

text \<open>
  C29. Whatever templates were put and deleted, as long as the store could be listed no two of them have a pattern in common and the
  same priority. A new index gets a template that applies to its name and has the highest priority of
  those that do, and none only if none applies; every template with a pattern that fits the name, and does not begin with a star, applies.
  Assumed is that the patterns are not empty and compile.
\<close>
theorem new_index_gets_template:
  assumes "(st :: 'a templates) = foldl template_step [] requests" and "\<forall>nt \<in> set st. usable other (snd nt)"
  shows "unambiguous st \<and>
    (case UseTemplate other True name st of
       Gives None \<Rightarrow> \<forall>nt \<in> set st. \<not> applies other name (snd nt)
     | Gives (Some t) \<Rightarrow> t \<in> snd ` set st \<and> applies other name t \<and> (\<forall>nt \<in> set st. applies other name (snd nt) \<longrightarrow> it_Priority (snd nt) \<le> it_Priority t)
     | _ \<Rightarrow> False) \<and>
    (\<forall>t \<in> snd ` set st. \<forall>p \<in> set (it_IndexPatterns t). plain p \<and> p \<noteq> [] \<and> hd p \<noteq> CHR ''*'' \<and> glob p name \<and> is_ascii name \<and> CHR 0x0A \<notin> set name \<longrightarrow>
       applies other name t)"
proof (intro conjI)
  show "unambiguous st" unfolding assms(1) by (rule requests_unambiguous) (simp add: unambiguous_def)
  let ?ts = "sort_Slice (\<lambda>a b. it_Priority (snd b) < it_Priority (snd a)) st"
  have "weak_order (\<lambda>a b. it_Priority (snd b) < it_Priority (snd (a :: string \<times> _)))" by (auto simp: weak_order_def)
  from sorted_sort_Slice [OF this, of st] have sorted: "sorted_wrt (\<lambda>a b. it_Priority (snd b) \<le> it_Priority (snd a)) ?ts" by (simp add: not_less)
  show "case UseTemplate other True name st of
       Gives None \<Rightarrow> \<forall>nt \<in> set st. \<not> applies other name (snd nt)
     | Gives (Some t) \<Rightarrow> t \<in> snd ` set st \<and> applies other name t \<and> (\<forall>nt \<in> set st. applies other name (snd nt) \<longrightarrow> it_Priority (snd nt) \<le> it_Priority t)
     | _ \<Rightarrow> False"
  proof (cases "find (\<lambda>nt. applies other name (snd nt)) ?ts")
    case None
    then have "\<forall>nt \<in> set st. \<not> applies other name (snd nt)" by (auto simp: find_None_iff)
    then show ?thesis by (simp add: UseTemplate_gives [OF assms(2)] None)
  next
    case (Some nt)
    then have "nt \<in> set ?ts" "applies other name (snd nt)" by (simp_all only: find_Some_iff) (metis nth_mem)+
    then have "nt \<in> set st" "applies other name (snd nt)" by simp_all
    moreover have "it_Priority (snd u) \<le> it_Priority (snd nt)" if "u \<in> set st" "applies other name (snd u)" for u
      using find_sorted [OF sorted Some, of u] that by simp
    ultimately show ?thesis by (auto simp: UseTemplate_gives [OF assms(2)] Some)
  qed
  show "\<forall>t \<in> snd ` set st. \<forall>p \<in> set (it_IndexPatterns t). plain p \<and> p \<noteq> [] \<and> hd p \<noteq> CHR ''*'' \<and> glob p name \<and> is_ascii name \<and> CHR 0x0A \<notin> set name \<longrightarrow>
       applies other name t"
  proof (intro ballI impI, elim conjE)
    fix t :: "'a IndexTemplate" and p
    assume "p \<in> set (it_IndexPatterns t)" "plain p" "p \<noteq> []" "hd p \<noteq> CHR ''*''" "glob p name" "is_ascii name" "CHR 0x0A \<notin> set name"
    moreover from this have "list_all any_char name" by (auto simp: list_all_iff any_char_def)
    ultimately show "applies other name t" by (intro plain_applies)
  qed
qed

definition ex_template :: "string list \<Rightarrow> int \<Rightarrow> nat IndexTemplate" where
  "ex_template ps prio = \<lparr>it_IndexPatterns = ps, it_Priority = prio, it_Template = 0\<rparr>"

definition ex_requests :: "nat template_request list" where
  "ex_requests = [PutTemplate True ''a'' (Some (ex_template [''log*''] 1)), PutTemplate True ''b'' (Some (ex_template [''log*''] 1)),
     PutTemplate True ''c'' (Some (ex_template [''log-x*'', ''m''] 2))]"

theorem new_index_gets_template_witness:
  "UseTemplate (\<lambda>_. None) True ''log-x1'' (foldl template_step [] ex_requests) = Gives (Some (ex_template [''log-x*'', ''m''] 2)) \<and>
   unambiguous (foldl template_step [] ex_requests)"
proof -
  let ?st = "foldl template_step [] ex_requests"
  have "list_all (\<lambda>nt. list_all (\<lambda>p. p \<noteq> [] \<and> MatchString (\<lambda>_. None) (expression p) \<noteq> None) (it_IndexPatterns (snd nt))) ?st" by code_simp
  then have "\<forall>nt \<in> set ?st. usable (\<lambda>_. None) (snd nt)" by (auto simp: usable_def list_all_iff)
  from new_index_gets_template [OF refl this] have "unambiguous ?st" by blast
  moreover have "UseTemplate (\<lambda>_. None) True ''log-x1'' ?st = Gives (Some (ex_template [''log-x*'', ''m''] 2))" by code_simp
  ultimately show ?thesis by blast
qed

text \<open>
  Patterns mean other things than they say, and the check of a new template can be passed by. A pattern that begins with a star is
  never used, because the first character of the name is compared with the star. A pattern without a star also applies to
  longer names that end in it and have its first character. A dot stands for any character. An empty pattern
  makes the creation of every index panic. When the store cannot be listed, a template with the same
  pattern and priority as another is stored.
\<close>
theorem templates_that_go_wrong:
  "UseTemplate (\<lambda>_. None) True ''a-log'' [(''t'', ex_template [''*-log''] 1)] = Gives None \<and>
   UseTemplate (\<lambda>_. None) True ''a-old-ab'' [(''t'', ex_template [''ab''] 1)] = Gives (Some (ex_template [''ab''] 1)) \<and>
   UseTemplate (\<lambda>_. None) True ''a-b'' [(''t'', ex_template [''a.b''] 1)] = Gives (Some (ex_template [''a.b''] 1)) \<and>
   UseTemplate (\<lambda>_. None) True ''x'' (template_step [] (PutTemplate True ''t'' (Some (ex_template [[]] 1)))) = Panics \<and>
   length (snd (NewTemplate (\<lambda>_. False) True ''b'' (Some (ex_template [''ab''] 1)) [(''a'', ex_template [''ab''] 1)])) = 2"
  by code_simp

end
