(* ===== verification/Spec2Isabelle.thy ===== *)
theory Spec2Isabelle
  imports Coordinator_Api Shard_Reference Stream_Admin Node_Roundtrip Doc_Types Search_Times Auth_Safety Routing Aliases Doc_Handlers Shard_Docs Nats_Store
    Aggregations Templates
begin

text \<open>
  ZincSearch with replication: the model and what is proved of it.

  The program is a search server (\<open>src/pkg/core\<close>, written on an index library) and a coordinator
  (\<open>src/pkg/coordinator\<close>) that runs several of these servers as one cluster. Clients send documents to the
  coordinator, which appends them to a replicated stream. Every search node consumes the stream and
  applies it to its own indexes. One coordinator at a time is the leader: it watches the nodes, decides
  which of them is the master, and has backups made, stored, verified and pruned. A node writes every
  document to the log of a shard first and turns the log into index segments later.

  Conventions. A Go struct is a record, an enumeration a datatype, a function one definition of the
  same name (with a prefix where several types have a method of that name). An error is a value: \<open>Inl\<close>
  of a sum, \<open>None\<close>, or \<open>False\<close> where the source only logs it. A panic is a value too (\<open>outcome\<close> in
  \<open>Index_Mappings\<close>). Byte strings are \<^typ>\<open>string\<close>; 64-bit counters are words and wrap; times and
  durations are integers in nanoseconds, with the saturation of \<open>Time.Sub\<close>. A map whose order the code
  can observe is an association list, and where Go iterates over a map the order is an argument, so that
  the theorems hold for every order. Code that is not in the repository (the index library, the log
  library, bbolt, the NATS server, rqlite, object storage, JSON text, floating point text, layouts of
  times, the time zone database, hashes and key derivation) is an argument, and what is relied on is the assumptions of
  a locale or the premises of a theorem; every locale is interpreted, and every theorem with premises has
  a witness that applies it. Storage errors come from a list of faults or from an argument, one for every operation
  that can fail, so that the theorems cover every pattern of failures. Loops that may not end are \<open>partial_function\<close>s in the option
  type: \<open>loadCluster\<close> and \<open>drain\<close>, which retry, \<open>remove_loop\<close>, and \<open>pick_name\<close>, which looks for a
  free file name; for these it is proved when they do return. There is no other fuel: the one number
  of that kind is the number of archive entries a reader looks at, which the round trip takes one larger than
  the archive is long.

  \<^bold>\<open>Theories and the code they model\<close>

  \<^item> \<open>Prelude\<close>: Go's strings, times, numerals and sorting, and the lemmas that are shared.
  \<^item> \<open>State_Store\<close>, \<open>RQLite_Store\<close>, \<open>Nats_Store\<close>, \<open>Lease\<close>: the key/value state of the coordinator
    (\<open>coordinator/state\<close>): its interface (\<open>cas_store\<close>, and \<open>reliable_store\<close> for calls that do
    not fail), the stores in memory, on rqlite and on a NATS bucket, which implement it (the bucket under \<open>nats_bucket\<close>), and the leader lease as a transition system
    of any number of processes on one clock (\<open>lease_step\<close>).
  \<^item> \<open>Disk_Buffer\<close>, \<open>Wire\<close>, \<open>Publisher\<close>: the queue on disk (\<open>buffer.go\<close>, on the interface
    \<open>bolt_bucket\<close>, with the queue contract \<open>fifo\<close> as a sublocale), the messages of the stream, and
    the publisher with its crashes (\<open>pub_step\<close>).
  \<^item> \<open>Coordinator_Data\<close>, \<open>Cluster\<close>: configuration, monitoring of the nodes, failover and
    admission; the decisions of several coordinators on one store as a transition system (\<open>cluster_step\<close>).
  \<^item> \<open>Blob_Store\<close>, \<open>Backups\<close>, \<open>Backup_Jobs\<close>: object storage and its implementation on a directory,
    schedules, taking, verifying, fetching and pruning backups.
  \<^item> \<open>Json\<close>, \<open>Coordinator_Api\<close>: JSON values, and the HTTP interface: authentication, parsing of bodies,
    batches, answers.
  \<^item> \<open>Redo_Log\<close>, \<open>Shard_Wal\<close>, \<open>Shard_Merge\<close>, \<open>Shard_Recovery\<close>, \<open>Shard_Restart\<close>, \<open>Shard_Reference\<close>: the
    write path of a shard (\<open>core/index_shards_wal.go\<close>, \<open>wal/redo\<close>): the redo log on bytes, one pass
    over the log, its interruption at any operation, and the rollback. \<open>shard_store\<close> and \<open>shard_log\<close> are the interfaces of
    the index and log libraries; a reference library interprets them.
  \<^item> \<open>Index_Mappings\<close>, \<open>Stream_Consumer\<close>, \<open>Stream_Run\<close>, \<open>Stream_Apply\<close>, \<open>Stream_Claims\<close>, \<open>Stream_Admin\<close>: the
    consumer of the stream (\<open>streaming/consumer.go\<close>, \<open>apply.go\<close>, \<open>offset.go\<close>), its loop with pausing, crashes and
    redelivery (\<open>run_step\<close>), the contract of an applier (\<open>applier\<close> and \<open>keyed_applier\<close>),
    and that \<open>CoreApplier\<close> meets it; mapping requests (\<open>uquery/mappings\<close>) and messages that change indexes.
  \<^item> \<open>Paths\<close>, \<open>Node_Restore\<close>, \<open>Node_Backup\<close>, \<open>Node_Names\<close>, \<open>Node_Roundtrip\<close>: the backup of a whole node (\<open>backup\<close>,
    \<open>metadata/backup.go\<close>, \<open>core/backup.go\<close>): file names, reading and checking an archive, restoring it, making it, and the directory of archives.
  \<^item> \<open>Doc_Values\<close>, \<open>Documents\<close>, \<open>Doc_Types\<close>: the way of a document into an index (\<open>core/index_shards_document.go\<close>, \<open>zutils\<close>):
    conversions, times, the flat form, the check that also extends the mappings, and the later construction of the document of the index library.
  \<^item> \<open>Doc_Handlers\<close>, \<open>Shard_Docs\<close>: the requests that write, read and delete documents (\<open>handlers/document\<close>), from the lines of a bulk body
    to the answer, and the operations on one document (\<open>core/index_document.go\<close>) on the shard that \<open>FindShardByDocID\<close> finds
    (\<open>shard_docs\<close> is the contract of searching a writer).
  \<^item> \<open>Shard_Times\<close>, \<open>Min_Should\<close>, \<open>Queries\<close>, \<open>Time_Range\<close>, \<open>Search_Times\<close>: statistics of shards, boolean and range queries (\<open>uquery/query\<close>) with
    the number of clauses that have to match (\<open>zutils/min_should.go\<close>),
    the time range derived from a query (\<open>uquery/timerange\<close>), and the choice of the parts a search reads.
  \<^item> \<open>Search_Merge\<close>: the search over several indexes and parts, with the heap that merges their results (\<open>core/multi_search.go\<close>,
    \<open>bluge/search\<close>; \<open>doc_queue\<close> is the contract of the heap).
  \<^item> \<open>Aggregations\<close>: counting terms and dates in every part and merging the buckets (\<open>bluge/aggregation\<close>; \<open>bucket_aggregation\<close> is the
    contract of a calculator).
  \<^item> \<open>Templates\<close>: index templates and their choice for a new index (\<open>core/template.go\<close>).
  \<^item> \<open>Auth\<close>, \<open>Auth_Safety\<close>: users, roles, their caches, the start, and the check of a request.
  \<^item> \<open>Routing\<close>: rendezvous hashing, which decides the shard of a document.
  \<^item> \<open>Aliases\<close>: names for groups of indexes.

  \<^bold>\<open>What is shown\<close>

  \<^item> The cluster has one leader: whatever the interleaving and whatever answers of the store get lost, two
    processes never both believe in an unexpired lease (C1). The decisions about the master form
    one line (C4), a promotion picks a healthy node that is not behind, and happens when it should (C6, C8).
  \<^item> Every message the publisher accepted is in the stream or still queued, in the order of acceptance,
    through crashes and lost confirmations (C3). The store on NATS keeps the contract that all this is proved with (C18).
  \<^item> Every message of the stream takes effect exactly once and in order, whatever crashes and
    redeliveries there are: the consumer with \<open>CoreApplier\<close> refines the sequential application of the messages (C2). A paused node does
    not change (C24), a stream that was trimmed too far is refused (C25), and messages that change indexes may be delivered again (C27).
  \<^item> One pass over a shard's log is the same as executing its entries one after the other (C5), and an interrupted pass is completed after the
    next start (C7). The redo log survives reopening (C31). An operation on a document that succeeds takes effect with the next pass (C12), and a
    bulk request performs the actions its lines stand for (C21).
  \<^item> Pruning never removes what is needed to recover (C9) and keeps a bounded number of backups (C33); a backup that is recorded was
    checked (C13), and a sound one is never condemned (C17). A node's backup restored on an empty node gives
    the node back (C10), a restore succeeds completely or changes nothing on disk (C20), no archive writes outside its directory (C26), and the
    search for a name ends (C30).
  \<^item> The API accounts for every document of a request (C19) and neither a request without the token nor one to an instance that is not the leader changes anything (C22).
  \<^item> A document that was accepted can be built, without a panic, whenever it is read back from the log (C11); a request passes only with rights that
    are stored (C14); the shard of a document does not depend on the order of the shards (C28); a new index gets the template with the highest priority (C29).
  \<^item> A search reads every part that can hold a match, if documents arrive in order (C15), gives the page that one part with all
    documents would give (C16), and counts terms and dates over all parts (C23).
  \<^item> The remaining properties show where the code does less than it means to: a mapping that stops a node (C32), accepted documents that
    panic (C34) or are treated otherwise than their mapping says (C36), searches that leave out documents (C35), a start that
    resets the administrator's password (C37), bulk requests that store the wrong lines or panic (C38), buckets that are lost or doubled (C39), and
    documents that are not seen by the next request (C40). Theorems beside them show further cases: mappings that differ after a restart, a backup that
    mixes two states, a rollback that duplicates inserts, a pass that depends on the order of a map, a deleted index that comes back, patterns of
    templates that are never used, and an update that creates a key on NATS.

  \<^bold>\<open>Not modelled\<close>

  The other kinds of queries, calendar and float histograms, metrics, highlighting and analyzers (\<open>uquery\<close>, \<open>bluge\<close>) translate requests into those of
  the index library and are meaningful only with its semantics or with floating point numbers. The other HTTP handlers of a node, its routes, its
  configuration and the two programs under \<open>cmd\<close> are glue around what is modelled. The metadata stores (bbolt, badger, etcd) and
  the object store on S3 only pass calls on to clients; their place is taken by the interfaces above. The process that verifies backups starts another
  server and talks to it. Telemetry, metrics, upgrades of old data, generated dictionaries and documentation, and the web
  interface are left out. So is the part of \<open>streaming/service.go\<close> that waits for a node to become quiet.
\<close>

end
